(* ===== verification/Prelude.thy ===== *)
theory Prelude
  imports Main "HOL-Library.Word" "HOL-Library.List_Lexorder" "HOL-Library.Char_ord"
    "HOL-Library.AList"
begin

text \<open>
  What every component of the wsnet model shares.

  \<^item> Rust's \<open>Result<T, E>\<close> is the sum \<open>'e + 'a\<close> (\<open>Inl\<close> the error); the question-mark operator is
    \<open>rbind\<close>, \<open>map_err\<close> and \<open>ok_or\<close> are the methods of the same name.
  \<^item> A byte is an \<open>8 word\<close>, a \<open>Vec<u8>\<close> or \<open>&[u8]\<close> a list of them.
  \<^item> A Rust \<open>String\<close> is its UTF-8 byte sequence, held as a HOL \<open>string\<close> (a HOL \<open>char\<close> is one
    byte), so that literals stay readable; \<open>as_bytes\<close> and \<open>string_of_bytes\<close> convert.
  \<^item> The unsigned integers \<open>u16, u32, u64, usize\<close> are \<open>nat\<close>; wherever the source wraps,
    saturates, checks or truncates, the operation is written out below at its width.
    \<open>i64\<close> is \<open>int\<close> with its range.
  \<^item> A \<open>HashMap\<close> is an association list used through lookup, update and delete of
    HOL-Library's AList; a \<open>BTreeMap\<close> is an association list kept strictly sorted by key.
    Both meet the contract of the locale \<open>finite_map\<close>.
\<close>

section \<open>Types and the result monad\<close>

type_synonym u8 = "8 word"
type_synonym bytes = "8 word list"

named_theorems wire_simps \<open>encoding and decoding laws of wire formats\<close>
named_theorems result_simps \<open>inversion of results that went through the error monad\<close>

primrec rbind :: "'e + 'a \<Rightarrow> ('a \<Rightarrow> 'e + 'b) \<Rightarrow> 'e + 'b" where
  "rbind (Inl e) f = Inl e"
| "rbind (Inr x) f = f x"

primrec map_err :: "('e \<Rightarrow> 'f) \<Rightarrow> 'e + 'a \<Rightarrow> 'f + 'a" where
  "map_err g (Inl e) = Inl (g e)"
| "map_err g (Inr x) = Inr x"

primrec ok_or :: "'e \<Rightarrow> 'a option \<Rightarrow> 'e + 'a" where
  "ok_or e None = Inl e"
| "ok_or e (Some x) = Inr x"

primrec is_ok :: "'e + 'a \<Rightarrow> bool" where
  "is_ok (Inl e) = False"
| "is_ok (Inr x) = True"

text \<open>\<open>result.ok()\<close>\<close>

primrec ok_opt :: "'e + 'a \<Rightarrow> 'a option" where
  "ok_opt (Inl e) = None"
| "ok_opt (Inr x) = Some x"

text \<open>An iterator collected into a \<open>Result<Vec<_>, _>\<close>: the first error wins.\<close>

primrec collect_r :: "('a \<Rightarrow> 'e + 'b) \<Rightarrow> 'a list \<Rightarrow> 'e + 'b list" where
  "collect_r f [] = Inr []"
| "collect_r f (x # xs) = rbind (f x) (\<lambda>y. rbind (collect_r f xs) (\<lambda>ys. Inr (y # ys)))"

lemma rbind_eq_Inr [result_simps]: "rbind r f = Inr y \<longleftrightarrow> (\<exists>x. r = Inr x \<and> f x = Inr y)"
  by (cases r) auto

lemma rbind_eq_Inl [result_simps]:
  "rbind r f = Inl e \<longleftrightarrow> r = Inl e \<or> (\<exists>x. r = Inr x \<and> f x = Inl e)"
  by (cases r) auto

lemma map_err_eq_Inr [result_simps, simp]: "map_err g r = Inr y \<longleftrightarrow> r = Inr y"
  by (cases r) auto

lemma ok_or_eq_Inr [result_simps, simp]: "ok_or e x = Inr y \<longleftrightarrow> x = Some y"
  by (cases x) auto

lemma ok_or_eq_Inl [result_simps, simp]: "ok_or e x = Inl e' \<longleftrightarrow> x = None \<and> e' = e"
  by (cases x) auto

lemma is_ok_iff: "is_ok r \<longleftrightarrow> (\<exists>x. r = Inr x)"
  by (cases r) auto

lemma rbind_cong [fundef_cong]:
  "r = r' \<Longrightarrow> (\<And>x. r' = Inr x \<Longrightarrow> f x = g x) \<Longrightarrow> rbind r f = rbind r' g"
  by (cases r') auto

lemma rbind_assoc: "rbind (rbind r f) g = rbind r (\<lambda>x. rbind (f x) g)"
  by (cases r) auto

lemma collect_r_all_ok:
  "(\<And>x. x \<in> set xs \<Longrightarrow> f x = Inr (g x)) \<Longrightarrow> collect_r f xs = Inr (map g xs)"
  by (induction xs) auto

lemma collect_r_eq_Inr: "collect_r f xs = Inr ys \<longleftrightarrow> list_all2 (\<lambda>x y. f x = Inr y) xs ys"
  by (induction xs arbitrary: ys) (auto simp: result_simps list_all2_Cons1)

text \<open>The first element of a list that is hit, everything before it being skipped.\<close>

definition first_hit :: "('a \<Rightarrow> bool) \<Rightarrow> ('a \<Rightarrow> bool) \<Rightarrow> 'a list \<Rightarrow> bool" where
  "first_hit skip hit xs \<longleftrightarrow> (\<exists>pre x post. xs = pre @ x # post \<and> hit x \<and> (\<forall>y \<in> set pre. skip y))"

lemma first_hit_Nil [simp]: "\<not> first_hit skip hit []"
  by (simp add: first_hit_def)

lemma first_hit_Cons [simp]: "first_hit skip hit (x # xs) \<longleftrightarrow> hit x \<or> skip x \<and> first_hit skip hit xs"
proof
  assume "first_hit skip hit (x # xs)"
  then obtain pre y post where *: "x # xs = pre @ y # post" "hit y" "\<forall>z \<in> set pre. skip z"
    unfolding first_hit_def by blast
  show "hit x \<or> skip x \<and> first_hit skip hit xs"
  proof (cases pre)
    case Nil
    with * show ?thesis by simp
  next
    case (Cons z zs)
    with * show ?thesis unfolding first_hit_def by auto
  qed
next
  assume "hit x \<or> skip x \<and> first_hit skip hit xs"
  then show "first_hit skip hit (x # xs)"
  proof
    assume "hit x"
    then have "x # xs = [] @ x # xs \<and> hit x \<and> (\<forall>y \<in> set []. skip y)" by simp
    then show ?thesis unfolding first_hit_def by blast
  next
    assume "skip x \<and> first_hit skip hit xs"
    then obtain pre y post where "xs = pre @ y # post" "hit y" "\<forall>z \<in> set pre. skip z" "skip x"
      unfolding first_hit_def by blast
    then have "x # xs = (x # pre) @ y # post \<and> hit y \<and> (\<forall>z \<in> set (x # pre). skip z)" by simp
    then show ?thesis unfolding first_hit_def by blast
  qed
qed

lemma first_hit_list_all2:
  "list_all2 R xs ys \<Longrightarrow> (\<And>x y. R x y \<Longrightarrow> skip x = skip' y \<and> hit x = hit' y)
   \<Longrightarrow> first_hit skip hit xs = first_hit skip' hit' ys"
  by (induction rule: list_all2_induct) auto

lemma collect_r_eq_Inl: "collect_r f xs = Inl e \<longleftrightarrow> first_hit (\<lambda>x. is_ok (f x)) (\<lambda>x. f x = Inl e) xs"
proof (induction xs)
  case (Cons x xs)
  then show ?case by (cases "f x") (auto simp: result_simps)
qed simp

section \<open>Machine integers\<close>

definition u16_max :: nat where "u16_max = 65535"
definition u32_max :: nat where "u32_max = 4294967295"
definition u64_max :: nat where "u64_max = 18446744073709551615"
definition i64_max :: int where "i64_max = 9223372036854775807"
definition i64_min :: int where "i64_min = - 9223372036854775808"

lemmas int_range_defs = u16_max_def u32_max_def u64_max_def i64_max_def i64_min_def

definition i64_range :: "int \<Rightarrow> bool" where
  "i64_range i \<longleftrightarrow> i64_min \<le> i \<and> i \<le> i64_max"

text \<open>\<open>u64::checked_add\<close>, \<open>saturating_add\<close>, \<open>saturating_mul\<close>; \<open>saturating_sub\<close> is \<open>nat\<close>'s minus.\<close>

definition checked_add :: "nat \<Rightarrow> nat \<Rightarrow> nat option" where
  "checked_add a b = (if a + b \<le> u64_max then Some (a + b) else None)"

definition sat_add :: "nat \<Rightarrow> nat \<Rightarrow> nat" where
  "sat_add a b = min (a + b) u64_max"

definition sat_mul :: "nat \<Rightarrow> nat \<Rightarrow> nat" where
  "sat_mul a b = min (a * b) u64_max"

text \<open>\<open>i64::saturating_add\<close> and \<open>saturating_sub\<close>.\<close>

definition clamp_i64 :: "int \<Rightarrow> int" where
  "clamp_i64 i = max i64_min (min i i64_max)"

text \<open>\<open>i64\<close> arithmetic of a release build: two's complement wrap-around.\<close>

definition wrap_i64 :: "int \<Rightarrow> int" where
  "wrap_i64 i = (i + 2 ^ 63) mod 2 ^ 64 - 2 ^ 63"

lemma wrap_i64_id: "i64_range i \<Longrightarrow> wrap_i64 i = i"
  by (simp add: wrap_i64_def i64_range_def int_range_defs)

text \<open>The two's complement cast \<open>u64 as i64\<close>.\<close>

definition u64_as_i64 :: "nat \<Rightarrow> int" where
  "u64_as_i64 n = (if int n \<le> i64_max then int n else int n - 2 ^ 64)"

lemma checked_add_Some [simp]: "checked_add a b = Some c \<longleftrightarrow> c = a + b \<and> a + b \<le> u64_max"
  by (auto simp: checked_add_def)

lemma checked_add_None [simp]: "checked_add a b = None \<longleftrightarrow> u64_max < a + b"
  by (auto simp: checked_add_def)

lemma sat_add_le [simp]: "sat_add a b \<le> u64_max"
  by (simp add: sat_add_def)

lemma u64_as_i64_range: "n \<le> u64_max \<Longrightarrow> i64_range (u64_as_i64 n)"
  by (auto simp: u64_as_i64_def i64_range_def int_range_defs)

section \<open>Big-endian bytes\<close>

primrec be_bytes :: "nat \<Rightarrow> nat \<Rightarrow> bytes" where
  "be_bytes 0 v = []"
| "be_bytes (Suc n) v = word_of_nat (v div 256 ^ n) # be_bytes n v"

definition of_be_bytes :: "bytes \<Rightarrow> nat" where
  "of_be_bytes bs = foldl (\<lambda>a b. a * 256 + unat b) 0 bs"

lemma length_be_bytes [simp]: "length (be_bytes n v) = n"
  by (induction n) auto

lemma foldl_be_shift:
  "foldl (\<lambda>a b. a * 256 + unat b) acc (bs :: bytes)
   = acc * 256 ^ length bs + foldl (\<lambda>a b. a * 256 + unat b) 0 bs"
proof (induction bs arbitrary: acc)
  case Nil
  then show ?case by simp
next
  case (Cons b bs)
  have "foldl (\<lambda>a b. a * 256 + unat b) acc (b # bs)
      = (acc * 256 + unat b) * 256 ^ length bs + foldl (\<lambda>a b. a * 256 + unat b) 0 bs"
    using Cons [of "acc * 256 + unat b"] by simp
  also have "\<dots> = acc * 256 ^ length (b # bs)
      + (unat b * 256 ^ length bs + foldl (\<lambda>a b. a * 256 + unat b) 0 bs)"
    by (simp add: algebra_simps)
  also have "unat b * 256 ^ length bs + foldl (\<lambda>a b. a * 256 + unat b) 0 bs
      = foldl (\<lambda>a b. a * 256 + unat b) 0 (b # bs)"
    using Cons [of "unat b"] by simp
  finally show ?case .
qed

lemma of_be_bytes_Nil [simp]: "of_be_bytes [] = 0"
  by (simp add: of_be_bytes_def)

lemma of_be_bytes_Cons: "of_be_bytes (b # bs) = unat b * 256 ^ length bs + of_be_bytes bs"
  using foldl_be_shift [of "unat b" bs] by (simp add: of_be_bytes_def)

lemma unat_byte_of_nat [simp]: "unat (word_of_nat n :: u8) = n mod 256"
  by (simp add: unat_of_nat)

lemma byte_256_eq_0: "(256 :: u8) = 0"
  by simp

lemma of_be_bytes_be_bytes: "of_be_bytes (be_bytes n v) = v mod 256 ^ n"
proof (induction n)
  case 0
  then show ?case by simp
next
  case (Suc n)
  have "v mod 256 ^ Suc n = (v div 256 ^ n mod 256) * 256 ^ n + v mod 256 ^ n"
    using mod_mult2_eq [of v "256 ^ n" 256] by (simp only: power_Suc2 mult.commute)
  with Suc show ?case by (simp add: of_be_bytes_Cons)
qed

lemma of_be_bytes_bound: "of_be_bytes bs < 256 ^ length bs"
proof (induction bs)
  case Nil
  then show ?case by simp
next
  case (Cons b bs)
  have "unat b < 256" using unsigned_less [of b, where ?'a = nat] by simp
  then have "unat b * 256 ^ length bs + of_be_bytes bs < (unat b + 1) * 256 ^ length bs"
    using Cons by simp
  also have "\<dots> \<le> 256 * 256 ^ length bs"
    using \<open>unat b < 256\<close> by (intro mult_right_mono) auto
  finally show ?case by (simp add: of_be_bytes_Cons)
qed

lemma of_be_bytes_u16 [wire_simps]: "n \<le> u16_max \<Longrightarrow> of_be_bytes (be_bytes 2 n) = n"
  by (simp add: of_be_bytes_be_bytes u16_max_def)

lemma of_be_bytes_u32 [wire_simps]: "n \<le> u32_max \<Longrightarrow> of_be_bytes (be_bytes 4 n) = n"
  by (simp add: of_be_bytes_be_bytes u32_max_def)

lemma of_be_bytes_u64 [wire_simps]: "n \<le> u64_max \<Longrightarrow> of_be_bytes (be_bytes 8 n) = n"
  by (simp add: of_be_bytes_be_bytes u64_max_def)

lemma be_bytes_inj:
  "be_bytes n v = be_bytes n w \<Longrightarrow> v < 256 ^ n \<Longrightarrow> w < 256 ^ n \<Longrightarrow> v = w"
  by (metis mod_less of_be_bytes_be_bytes)

lemma be_bytes_of_be_bytes: "be_bytes (length bs) (of_be_bytes bs) = bs"
proof (induction bs)
  case Nil
  then show ?case by simp
next
  case (Cons b bs)
  let ?k = "256 ^ length bs :: nat"
  have lt: "of_be_bytes bs < ?k" by (rule of_be_bytes_bound)
  have tl: "be_bytes n (u * 256 ^ n * c + w) = be_bytes n w" for n u c w
  proof (induction n arbitrary: c)
    case 0
    then show ?case by simp
  next
    case (Suc n)
    have eq: "u * 256 ^ Suc n * c + w = 256 ^ n * (256 * (u * c)) + w"
      by (simp add: algebra_simps)
    have "(u * 256 ^ Suc n * c + w) div 256 ^ n = 256 * (u * c) + w div 256 ^ n"
      unfolding eq by (subst div_mult_self4) auto
    then have "(word_of_nat ((u * 256 ^ Suc n * c + w) div 256 ^ n) :: u8)
        = word_of_nat (w div 256 ^ n)"
      by (simp add: byte_256_eq_0)
    moreover have "be_bytes n (u * 256 ^ Suc n * c + w) = be_bytes n w"
      using Suc [of "256 * c"] by (simp add: algebra_simps)
    ultimately show ?case by simp
  qed
  from tl [of "length bs" "unat b" 1 "of_be_bytes bs"] Cons
  show ?case using lt by (simp add: of_be_bytes_Cons)
qed

section \<open>Strings and bytes\<close>

definition byte_of_char :: "char \<Rightarrow> u8" where
  "byte_of_char c = word_of_nat (of_char c)"

definition char_of_byte :: "u8 \<Rightarrow> char" where
  "char_of_byte b = char_of (unat b)"

text \<open>\<open>str::as_bytes\<close>, and the inverse that \<open>String::from_utf8\<close> applies to validated bytes.\<close>

definition as_bytes :: "string \<Rightarrow> bytes" where
  "as_bytes s = map byte_of_char s"

definition string_of_bytes :: "bytes \<Rightarrow> string" where
  "string_of_bytes bs = map char_of_byte bs"

lemma char_of_byte_of_char [simp]: "char_of_byte (byte_of_char c) = c"
  by (simp add: char_of_byte_def byte_of_char_def)

lemma byte_of_char_of_byte [simp]: "byte_of_char (char_of_byte b) = b"
  using unsigned_less [of b, where ?'a = nat] by (simp add: char_of_byte_def byte_of_char_def)

lemma string_of_as_bytes [simp]: "string_of_bytes (as_bytes s) = s"
  by (simp add: string_of_bytes_def as_bytes_def comp_def)

lemma as_bytes_string_of [simp]: "as_bytes (string_of_bytes bs) = bs"
  by (simp add: string_of_bytes_def as_bytes_def comp_def)

lemma as_bytes_inj [simp]: "as_bytes s = as_bytes t \<longleftrightarrow> s = t"
  by (metis string_of_as_bytes)

lemma string_of_bytes_inj [simp]: "string_of_bytes s = string_of_bytes t \<longleftrightarrow> s = t"
  by (metis as_bytes_string_of)

lemma length_as_bytes [simp]: "length (as_bytes s) = length s"
  by (simp add: as_bytes_def)

lemma length_string_of_bytes [simp]: "length (string_of_bytes bs) = length bs"
  by (simp add: string_of_bytes_def)

lemma as_bytes_append [simp]: "as_bytes (s @ t) = as_bytes s @ as_bytes t"
  by (simp add: as_bytes_def)

lemma as_bytes_Nil [simp]: "as_bytes [] = []"
  by (simp add: as_bytes_def)

lemma as_bytes_Cons [simp]: "as_bytes (c # s) = byte_of_char c # as_bytes s"
  by (simp add: as_bytes_def)

section \<open>Finite maps\<close>

text \<open>
  The contract the stateful components rely on: lookup after an update or a removal, and the
  number of entries. \<open>entries\<close> is the map as an association list.
\<close>

locale finite_map =
  fixes insert :: "'k \<Rightarrow> 'v \<Rightarrow> ('k \<times> 'v) list \<Rightarrow> ('k \<times> 'v) list"
    and remove :: "'k \<Rightarrow> ('k \<times> 'v) list \<Rightarrow> ('k \<times> 'v) list"
    and inv :: "('k \<times> 'v) list \<Rightarrow> bool"
  assumes inv_empty: "inv []"
    and inv_insert: "inv m \<Longrightarrow> inv (insert k v m)"
    and inv_remove: "inv m \<Longrightarrow> inv (remove k m)"
    and inv_filter: "inv m \<Longrightarrow> inv (filter P m)"
    and inv_distinct: "inv m \<Longrightarrow> distinct (map fst m)"
    and get_insert: "inv m \<Longrightarrow> map_of (insert k v m) = (map_of m)(k \<mapsto> v)"
    and get_remove: "inv m \<Longrightarrow> map_of (remove k m) = (map_of m)(k := None)"
begin

lemma set_conv_get: "inv m \<Longrightarrow> (k, v) \<in> set m \<longleftrightarrow> map_of m k = Some v"
  using inv_distinct by simp

lemma len_card_dom: "inv m \<Longrightarrow> length m = card (dom (map_of m))"
  by (metis dom_map_of_conv_image_fst distinct_card inv_distinct length_map set_map)

lemma len_insert_fresh: "inv m \<Longrightarrow> map_of m k = None \<Longrightarrow> length (insert k v m) = Suc (length m)"
  by (simp add: len_card_dom inv_insert get_insert domIff finite_dom_map_of)

lemma len_insert_present: "inv m \<Longrightarrow> map_of m k \<noteq> None \<Longrightarrow> length (insert k v m) = length m"
  by (simp add: len_card_dom inv_insert get_insert domIff insert_absorb)

lemma len_insert_le: "inv m \<Longrightarrow> length (insert k v m) \<le> Suc (length m)"
  by (metis le_SucI len_insert_fresh len_insert_present order_refl)

lemma len_remove_le: "inv m \<Longrightarrow> length (remove k m) \<le> length m"
  by (simp add: len_card_dom inv_remove get_remove finite_dom_map_of card_Diff1_le)

lemma get_filter:
  "inv m \<Longrightarrow> map_of (filter (\<lambda>(k, v). P k v) m) k
     = (case map_of m k of None \<Rightarrow> None | Some v \<Rightarrow> if P k v then Some v else None)"
proof (induction m)
  case Nil
  then show ?case by simp
next
  case (Cons kv m)
  have m: "inv (kv # m)" by fact
  have d: "distinct (map fst (kv # m))" using inv_distinct [OF m] .
  have g: "map_of (filter (\<lambda>(k, v). P k v) m) k
      = (case map_of m k of None \<Rightarrow> None | Some v \<Rightarrow> if P k v then Some v else None)"
    if "distinct (map fst m)" for m :: "('k \<times> 'v) list"
    using that by (induction m) (auto split: option.splits intro: rev_image_eqI)
  show ?case using g [OF d] .
qed

end

text \<open>
  \<open>HashMap\<close>: the model keeps the entries in some order, which nothing observes.
\<close>

abbreviation hm_insert :: "'k \<Rightarrow> 'v \<Rightarrow> ('k \<times> 'v) list \<Rightarrow> ('k \<times> 'v) list" where
  "hm_insert \<equiv> AList.update"

abbreviation hm_remove :: "'k \<Rightarrow> ('k \<times> 'v) list \<Rightarrow> ('k \<times> 'v) list" where
  "hm_remove \<equiv> AList.delete"

definition hm_inv :: "('k \<times> 'v) list \<Rightarrow> bool" where
  "hm_inv m \<longleftrightarrow> distinct (map fst m)"

interpretation hm: finite_map hm_insert hm_remove hm_inv
  by unfold_locales
    (auto simp: hm_inv_def distinct_update distinct_delete update_conv' delete_conv'
      distinct_map_filter)

text \<open>\<open>BTreeMap\<close>: strictly ascending keys, which iteration and range queries observe.\<close>

fun bt_insert :: "'k::linorder \<Rightarrow> 'v \<Rightarrow> ('k \<times> 'v) list \<Rightarrow> ('k \<times> 'v) list" where
  "bt_insert k v [] = [(k, v)]"
| "bt_insert k v ((k', v') # m) =
     (if k < k' then (k, v) # (k', v') # m
      else if k = k' then (k, v) # m
      else (k', v') # bt_insert k v m)"

definition bt_remove :: "'k::linorder \<Rightarrow> ('k \<times> 'v) list \<Rightarrow> ('k \<times> 'v) list" where
  "bt_remove k m = filter (\<lambda>(k', v). k' \<noteq> k) m"

definition bt_inv :: "('k::linorder \<times> 'v) list \<Rightarrow> bool" where
  "bt_inv m \<longleftrightarrow> sorted_wrt (<) (map fst m)"

lemma bt_inv_Nil [simp]: "bt_inv []"
  by (simp add: bt_inv_def)

lemma bt_inv_Cons: "bt_inv ((k, v) # m) \<longleftrightarrow> (\<forall>k' \<in> fst ` set m. k < k') \<and> bt_inv m"
  by (simp add: bt_inv_def)

lemma set_bt_insert: "fst ` set (bt_insert k v m) = insert k (fst ` set m)"
  by (induction k v m rule: bt_insert.induct) auto

lemma bt_inv_insert: "bt_inv m \<Longrightarrow> bt_inv (bt_insert k v m)"
  by (induction k v m rule: bt_insert.induct) (auto simp: bt_inv_Cons set_bt_insert)

lemma bt_inv_filter: "bt_inv m \<Longrightarrow> bt_inv (filter P m)"
  by (induction m) (auto simp: bt_inv_Cons)

lemma bt_inv_remove: "bt_inv m \<Longrightarrow> bt_inv (bt_remove k m)"
  by (simp add: bt_remove_def bt_inv_filter)

lemma map_of_bt_insert: "bt_inv m \<Longrightarrow> map_of (bt_insert k v m) = (map_of m)(k \<mapsto> v)"
  by (induction k v m rule: bt_insert.induct) (auto simp: bt_inv_Cons fun_upd_twist)

lemma map_of_bt_remove: "map_of (bt_remove k m) = (map_of m)(k := None)"
  by (induction m) (auto simp: bt_remove_def)

lemma bt_inv_distinct: "bt_inv m \<Longrightarrow> distinct (map fst m)"
  by (simp add: bt_inv_def strict_sorted_iff)

interpretation bt: finite_map "bt_insert :: 'k::linorder \<Rightarrow> 'v \<Rightarrow> _" bt_remove bt_inv
  by unfold_locales
    (auto simp: bt_inv_insert bt_remove_def bt_inv_filter map_of_bt_insert bt_inv_distinct
      map_of_bt_remove [unfolded bt_remove_def])

text \<open>Collecting pairs into a \<open>BTreeMap\<close>: later duplicates win.\<close>

definition bt_of_list :: "('k::linorder \<times> 'v) list \<Rightarrow> ('k \<times> 'v) list" where
  "bt_of_list kvs = foldl (\<lambda>m (k, v). bt_insert k v m) [] kvs"

lemma bt_inv_of_list: "bt_inv (bt_of_list kvs)"
proof -
  have "bt_inv m \<Longrightarrow> bt_inv (foldl (\<lambda>m (k, v). bt_insert k v m) m kvs)" for m
    by (induction kvs arbitrary: m) (auto simp: bt_inv_insert)
  then show ?thesis by (simp add: bt_of_list_def)
qed

lemma map_of_bt_of_list: "map_of (bt_of_list kvs) = map_of (rev kvs)"
proof -
  have "bt_inv m \<Longrightarrow> map_of (foldl (\<lambda>m (k, v). bt_insert k v m) m kvs) = map_of m ++ map_of (rev kvs)" for m
    by (induction kvs arbitrary: m) (auto simp: bt_inv_insert map_of_bt_insert map_add_def fun_eq_iff split: option.splits)
  then show ?thesis by (simp add: bt_of_list_def)
qed

lemma set_bt_of_list: "set (bt_of_list kvs) \<subseteq> set kvs"
proof
  fix kv
  assume "kv \<in> set (bt_of_list kvs)"
  then have "map_of (bt_of_list kvs) (fst kv) = Some (snd kv)"
    using bt.set_conv_get [OF bt_inv_of_list, of "fst kv" "snd kv" kvs] by simp
  then show "kv \<in> set kvs" by (metis map_of_bt_of_list map_of_SomeD prod.collapse set_rev)
qed

text \<open>Two sorted lists with the same lookups are equal: the map determines its listing.\<close>

lemma bt_ext: "bt_inv m \<Longrightarrow> bt_inv n \<Longrightarrow> map_of m = map_of n \<Longrightarrow> m = n"
proof -
  assume m: "bt_inv m" and n: "bt_inv n" and eq: "map_of m = map_of n"
  have s: "set m = set n"
    using bt.set_conv_get [OF m] bt.set_conv_get [OF n] eq by auto
  have sm: "sorted (map fst m)" "distinct (map fst m)"
    using m by (simp_all add: bt_inv_def strict_sorted_iff)
  have sn: "sorted (map fst n)" "distinct (map fst n)"
    using n by (simp_all add: bt_inv_def strict_sorted_iff)
  have inj: "inj_on fst (set m \<union> set n)"
    using s sm(2) by (simp add: distinct_map)
  have "map fst m = map fst n"
    using s sm sn sorted_distinct_set_unique [of "map fst m" "map fst n"] by simp
  then show ?thesis
    using inj by (meson map_inj_on)
qed

section \<open>Admission at most once\<close>

text \<open>
  A component that is driven by calls and lets each identifier through at most once: every call
  returns the identifier it admitted, if any. \<open>granted\<close> lists the admissions of a sequence of calls.
\<close>

fun granted :: "('s \<Rightarrow> 'op \<Rightarrow> 's \<times> 'i option) \<Rightarrow> 's \<Rightarrow> 'op list \<Rightarrow> 'i list" where
  "granted step s [] = []"
| "granted step s (op # ops) =
     (case step s op of
        (s', None) \<Rightarrow> granted step s' ops
      | (s', Some i) \<Rightarrow> i # granted step s' ops)"

text \<open>Where the guarantee rests on the environment, the runs in question are those whose every operation meets the
  condition \<open>ok\<close> in the state it finds.\<close>

fun admissible :: "('s \<Rightarrow> 'op \<Rightarrow> bool) \<Rightarrow> ('s \<Rightarrow> 'op \<Rightarrow> 's \<times> 'i option) \<Rightarrow> 's \<Rightarrow> 'op list \<Rightarrow> bool" where
  "admissible ok step s [] \<longleftrightarrow> True"
| "admissible ok step s (op # ops) \<longleftrightarrow> ok s op \<and> admissible ok step (fst (step s op)) ops"

locale once_if =
  fixes ok :: "'s \<Rightarrow> 'op \<Rightarrow> bool"
    and step :: "'s \<Rightarrow> 'op \<Rightarrow> 's \<times> 'i option"
    and spent :: "'s \<Rightarrow> 'i \<Rightarrow> bool"
    and inv :: "'s \<Rightarrow> bool"
  assumes ok_inv: "inv s \<Longrightarrow> ok s op \<Longrightarrow> inv (fst (step s op))"
    and ok_spent: "inv s \<Longrightarrow> ok s op \<Longrightarrow> spent s i \<Longrightarrow> spent (fst (step s op)) i"
    and ok_admits: "inv s \<Longrightarrow> ok s op \<Longrightarrow> step s op = (s', Some i) \<Longrightarrow> \<not> spent s i \<and> spent s' i"
begin

lemma admitted_unspent: "inv s \<Longrightarrow> admissible ok step s ops \<Longrightarrow> i \<in> set (granted step s ops) \<Longrightarrow> \<not> spent s i"
proof (induction ops arbitrary: s)
  case (Cons op ops)
  obtain s' r where st: "step s op = (s', r)" by fastforce
  have ok: "ok s op" "admissible ok step s' ops" using Cons.prems(2) st by simp_all
  have "inv s'" "spent s i \<Longrightarrow> spent s' i"
    using ok_inv [OF Cons.prems(1) ok(1)] ok_spent [OF Cons.prems(1) ok(1), of i] st by simp_all
  with Cons st ok ok_admits [OF Cons.prems(1) ok(1), of s'] show ?case
    by (cases r) auto
qed simp

lemma admitted_distinct: "inv s \<Longrightarrow> admissible ok step s ops \<Longrightarrow> distinct (granted step s ops)"
proof (induction ops arbitrary: s)
  case (Cons op ops)
  obtain s' r where st: "step s op = (s', r)" by fastforce
  have ok: "ok s op" "admissible ok step s' ops" using Cons.prems(2) st by simp_all
  have s': "inv s'" using ok_inv [OF Cons.prems(1) ok(1)] st by simp
  from Cons.IH [OF s' ok(2)] admitted_unspent [OF s' ok(2)] ok_admits [OF Cons.prems(1) ok(1), of s'] st
  show ?case by (cases r) auto
qed simp

end

locale once_only =
  fixes step :: "'s \<Rightarrow> 'op \<Rightarrow> 's \<times> 'i option"
    and spent :: "'s \<Rightarrow> 'i \<Rightarrow> bool"
    and inv :: "'s \<Rightarrow> bool"
  assumes step_inv: "inv s \<Longrightarrow> inv (fst (step s op))"
    and step_spent: "inv s \<Longrightarrow> spent s i \<Longrightarrow> spent (fst (step s op)) i"
    and step_admits: "inv s \<Longrightarrow> step s op = (s', Some i) \<Longrightarrow> \<not> spent s i \<and> spent s' i"

sublocale once_only \<subseteq> always: once_if "\<lambda>s op. True" step spent inv
  by unfold_locales (rule step_inv step_spent step_admits; assumption)+

context once_only
begin

lemma all_admissible: "admissible (\<lambda>s op. True) step s ops"
  by (induction ops arbitrary: s) simp_all

lemma granted_unspent: "inv s \<Longrightarrow> i \<in> set (granted step s ops) \<Longrightarrow> \<not> spent s i"
  by (rule always.admitted_unspent [OF _ all_admissible])

lemma granted_distinct: "inv s \<Longrightarrow> distinct (granted step s ops)"
  by (rule always.admitted_distinct [OF _ all_admissible])

end

section \<open>Self-delimiting encodings\<close>

text \<open>
  A wire format whose decoder finds the end of an encoded value by itself, on inputs within the size
  bound \<open>fits\<close> of the decoder. From the round trip law: the encoding is injective and no encoding is
  a proper prefix of another, so a concatenation of encodings is read in one way only.
\<close>

fun decode_all :: "(bytes \<Rightarrow> ('a \<times> bytes) option) \<Rightarrow> nat \<Rightarrow> bytes \<Rightarrow> 'a list option" where
  "decode_all dec n [] = Some []"
| "decode_all dec 0 (b # bs) = None"
| "decode_all dec (Suc n) (b # bs) =
     (case dec (b # bs) of
        None \<Rightarrow> None
      | Some (x, r) \<Rightarrow> map_option (Cons x) (decode_all dec n r))"

locale prefix_codec =
  fixes enc :: "'a \<Rightarrow> bytes"
    and dec :: "bytes \<Rightarrow> ('a \<times> bytes) option"
    and ok :: "'a \<Rightarrow> bool"
    and fits :: "bytes \<Rightarrow> bool"
  assumes dec_enc: "ok x \<Longrightarrow> fits (enc x @ r) \<Longrightarrow> dec (enc x @ r) = Some (x, r)"
    and enc_nonempty: "ok x \<Longrightarrow> enc x \<noteq> []"
    and fits_suffix: "fits (u @ v) \<Longrightarrow> fits v"
begin

lemma enc_unique:
  "ok x \<Longrightarrow> ok y \<Longrightarrow> fits (enc x @ r) \<Longrightarrow> enc x @ r = enc y @ s \<Longrightarrow> x = y \<and> r = s"
  using dec_enc by (metis Pair_inject option.inject)

lemma enc_inj: "ok x \<Longrightarrow> ok y \<Longrightarrow> fits (enc x) \<Longrightarrow> enc x = enc y \<Longrightarrow> x = y"
  using enc_unique [of x y "[]" "[]"] by simp

lemma decode_concat:
  "\<forall>x \<in> set xs. ok x \<Longrightarrow> fits (concat (map enc xs)) \<Longrightarrow> length xs \<le> n \<Longrightarrow>
   decode_all dec n (concat (map enc xs)) = Some xs"
proof (induction xs arbitrary: n)
  case Nil
  then show ?case by simp
next
  case (Cons x xs)
  obtain b bs where b: "enc x = b # bs" using enc_nonempty [of x] Cons.prems(1) by (cases "enc x") auto
  obtain m where n: "n = Suc m" using Cons.prems(3) by (cases n) auto
  have "dec (enc x @ concat (map enc xs)) = Some (x, concat (map enc xs))"
    using Cons.prems by (intro dec_enc) simp_all
  moreover have "decode_all dec m (concat (map enc xs)) = Some xs"
    using Cons.prems n fits_suffix [of "enc x" "concat (map enc xs)"] by (intro Cons.IH) simp_all
  ultimately show ?case by (simp add: b n)
qed

end

section \<open>Clocks\<close>

text \<open>\<open>Now\<close> of \<open>wsnet-auth-store\<close>: the wall clock in seconds (\<open>i64\<close>) and the monotonic clock in
  milliseconds (\<open>u64\<close>).\<close>

record Now =
  wall_secs :: int
  monotonic_ms :: nat

section \<open>First match wins\<close>

text \<open>
  The contract of an ordered rule list: the first rule that covers the query decides, and a query no
  rule covers gets the default. The access list and the router are such lists.
\<close>

locale first_match =
  fixes decide :: "'r list \<Rightarrow> 'q \<Rightarrow> 'd"
    and covers :: "'r \<Rightarrow> 'q \<Rightarrow> bool"
    and verdict :: "'r \<Rightarrow> 'd"
    and default :: 'd
  assumes decide_Nil: "decide [] q = default"
    and decide_Cons: "decide (r # rs) q = (if covers r q then verdict r else decide rs q)"
begin

lemma decide_uncovered: "\<forall>r \<in> set rs. \<not> covers r q \<Longrightarrow> decide rs q = default"
  by (induction rs) (auto simp: decide_Nil decide_Cons)

lemma decide_first:
  "\<forall>r' \<in> set pre. \<not> covers r' q \<Longrightarrow> covers r q \<Longrightarrow> decide (pre @ r # post) q = verdict r"
  by (induction pre) (auto simp: decide_Cons)

lemma decide_iff:
  "decide rs q = d \<longleftrightarrow>
   first_hit (\<lambda>r. \<not> covers r q) (\<lambda>r. covers r q \<and> verdict r = d) rs
   \<or> d = default \<and> (\<forall>r \<in> set rs. \<not> covers r q)"
  by (induction rs) (auto simp: decide_Nil decide_Cons)

text \<open>Rules that do not cover the query can be added or removed anywhere.\<close>

lemma decide_filter: "decide (filter (\<lambda>r. covers r q) rs) q = decide rs q"
  by (induction rs) (auto simp: decide_Nil decide_Cons)

end

end
