(* ===== verification/Budgets.thy ===== *)
theory Budgets
  imports Prelude
begin

text \<open>
  The budget constants of \<open>crates/wsnet-limits/src/lib.rs\<close>, one definition per constant under
  its own name, and the relations between them that the crate asserts at compile time
  (\<open>limits_assertions\<close>). Every parser and state machine of the model takes its bounds from here.
\<close>

section \<open>Constants\<close>

definition kib :: "nat \<Rightarrow> nat" where "kib n = n * 1024"

subsection \<open>DESIGN 4 protocol version and domain separation\<close>

definition PROTOCOL_VERSION :: u8 where "PROTOCOL_VERSION = 1"
definition AAD_CONTEXT :: bytes where "AAD_CONTEXT = as_bytes ''wsnet/v1''"

subsection \<open>DESIGN 4.1 record framing\<close>

definition MAX_RECORD_PLAINTEXT :: nat where "MAX_RECORD_PLAINTEXT = kib 96"
definition MAX_TCP_PAYLOAD :: nat where "MAX_TCP_PAYLOAD = kib 16"
definition MAX_METADATA :: nat where "MAX_METADATA = kib 4"
definition MAX_PADDING :: nat where "MAX_PADDING = kib 1"
definition MAX_AUTH_BOOTSTRAP :: nat where "MAX_AUTH_BOOTSTRAP = kib 4"
definition ENVELOPE_HEADER_LEN :: nat where "ENVELOPE_HEADER_LEN = 1 + 16 + 8"
definition AEAD_TAG_LEN :: nat where "AEAD_TAG_LEN = 16"
definition SESSION_EPOCH_LEN :: nat where "SESSION_EPOCH_LEN = 16"
definition PSK_LEN :: nat where "PSK_LEN = 32"
definition MSG_KEY_LEN :: nat where "MSG_KEY_LEN = 32"
definition BIND_KEY_LEN :: nat where "BIND_KEY_LEN = 32"
definition NONCE_LEN :: nat where "NONCE_LEN = 12"

subsection \<open>DESIGN 4.2 replay window and scheduler\<close>

definition REPLAY_WINDOW :: nat where "REPLAY_WINDOW = 65536"
definition MAX_IN_FLIGHT_RECORDS :: nat where "MAX_IN_FLIGHT_RECORDS = 4096"
definition REPLAY_MAX_FORWARD_JUMP :: nat where "REPLAY_MAX_FORWARD_JUMP = REPLAY_WINDOW"
definition PACKET_NO_EXHAUSTION_MARGIN :: nat where "PACKET_NO_EXHAUSTION_MARGIN = 2 ^ 20"

subsection \<open>DESIGN 4.3 carrier encoding\<close>

definition MAX_HTTP_BODY :: nat where "MAX_HTTP_BODY = kib 1024"
definition MAX_SSE_EVENT :: nat where "MAX_SSE_EVENT = kib 160"
definition MAX_POST_BATCH_BYTES :: nat where "MAX_POST_BATCH_BYTES = kib 256"
definition MAX_POST_BATCH_RECORDS :: nat where "MAX_POST_BATCH_RECORDS = 64"
definition MAX_CARRIER_RECORD :: nat where "MAX_CARRIER_RECORD = MAX_RECORD_PLAINTEXT + ENVELOPE_HEADER_LEN + AEAD_TAG_LEN"

subsection \<open>DESIGN 5.1 authentication\<close>

definition AUTH_WINDOW_DEFAULT_SECS :: nat where "AUTH_WINDOW_DEFAULT_SECS = 120"
definition AUTH_WINDOW_MIN_SECS :: nat where "AUTH_WINDOW_MIN_SECS = 60"
definition AUTH_WINDOW_MAX_SECS :: nat where "AUTH_WINDOW_MAX_SECS = 300"
definition AUTH_NONCE_LEN :: nat where "AUTH_NONCE_LEN = 32"
definition AUTH_NONCE_PER_NODE_MAX :: nat where "AUTH_NONCE_PER_NODE_MAX = 65536"
definition AUTH_NONCE_MEMORY_BUDGET :: nat where "AUTH_NONCE_MEMORY_BUDGET = 64 * 1024 * 1024"
definition AUTH_NONCE_ENTRY_COST :: nat where "AUTH_NONCE_ENTRY_COST = 256"

subsection \<open>DESIGN 5.2 operation idempotency\<close>

definition OPERATION_MAX_PENDING :: nat where "OPERATION_MAX_PENDING = 4096"
definition OPERATION_OPEN_TIMEOUT_SECS :: nat where "OPERATION_OPEN_TIMEOUT_SECS = 10"
definition OPERATION_RESULT_RETENTION_SECS :: nat where "OPERATION_RESULT_RETENTION_SECS = 120"
definition OPERATION_TOMBSTONE_MAX :: nat where "OPERATION_TOMBSTONE_MAX = 65536"

subsection \<open>DESIGN 5.3 / 6.7 carrier health\<close>

definition CARRIER_GRACE_SECS :: nat where "CARRIER_GRACE_SECS = 10"
definition NO_CONTROL_PROGRESS_DEGRADED_MS :: nat where "NO_CONTROL_PROGRESS_DEGRADED_MS = 2000"
definition MAX_AUTH_CANDIDATES :: nat where "MAX_AUTH_CANDIDATES = 2"
definition AUTH_HEDGE_DELAY_MS :: nat where "AUTH_HEDGE_DELAY_MS = 250"
definition CANDIDATE_TTL_SECS :: nat where "CANDIDATE_TTL_SECS = 10"
definition MAX_IN_FLIGHT_DATA_POSTS :: nat where "MAX_IN_FLIGHT_DATA_POSTS = 2"
definition CROSS_CARRIER_BUDGET_PERCENT :: nat where "CROSS_CARRIER_BUDGET_PERCENT = 20"
definition CROSS_CARRIER_PROBE_BURST :: nat where "CROSS_CARRIER_PROBE_BURST = kib 64"
definition CONTROL_POST_POLL_MAX_MS :: nat where "CONTROL_POST_POLL_MAX_MS = 250"
definition BIND_PROOF_TTL_SECS :: nat where "BIND_PROOF_TTL_SECS = 30"
definition WS_AUTH_DEADLINE_SECS :: nat where "WS_AUTH_DEADLINE_SECS = 5"

subsection \<open>DESIGN 7.1 / 7.4 / 7.5 data plane\<close>

definition MAX_CHAIN_HOPS :: nat where "MAX_CHAIN_HOPS = 4"
definition REORDER_BUFFER_BYTES :: nat where "REORDER_BUFFER_BYTES = kib 256"
definition STREAM_INITIAL_CREDIT :: nat where "STREAM_INITIAL_CREDIT = kib 256"
definition STREAM_MAX_CREDIT :: nat where "STREAM_MAX_CREDIT = kib 1024"
definition CONTROL_RESERVE_BYTES :: nat where "CONTROL_RESERVE_BYTES = kib 8"
definition MAX_UDP_PAYLOAD :: nat where "MAX_UDP_PAYLOAD = 65507"
definition DATAGRAM_DEFAULT_TTL_MS :: nat where "DATAGRAM_DEFAULT_TTL_MS = 30000"
definition MAX_UDP_ASSOCIATIONS :: nat where "MAX_UDP_ASSOCIATIONS = 256"
definition MAX_DATAGRAM_QUEUE :: nat where "MAX_DATAGRAM_QUEUE = 256"

subsection \<open>DESIGN 6.4 background requests\<close>

definition BACKGROUND_JITTER_MIN_SECS :: nat where "BACKGROUND_JITTER_MIN_SECS = 2"
definition BACKGROUND_JITTER_MAX_SECS :: nat where "BACKGROUND_JITTER_MAX_SECS = 15"
definition BACKGROUND_MAX_PER_SESSION :: nat where "BACKGROUND_MAX_PER_SESSION = 1"
definition BACKGROUND_BUDGET_BYTES_PER_SEC :: nat where "BACKGROUND_BUDGET_BYTES_PER_SEC = kib 4"

subsection \<open>DESIGN 9.2 DoS budgets and 9.1 failure appearance\<close>

definition MAX_UNAUTH_CONNECTIONS_PER_IP :: nat where "MAX_UNAUTH_CONNECTIONS_PER_IP = 20"
definition AUTH_RATE_PER_SEC :: nat where "AUTH_RATE_PER_SEC = 5"
definition AUTH_BURST :: nat where "AUTH_BURST = 10"
definition HANDSHAKE_TIMEOUT_MS :: nat where "HANDSHAKE_TIMEOUT_MS = 5000"
definition MAX_STREAMS_PER_SESSION :: nat where "MAX_STREAMS_PER_SESSION = 256"
definition FAILURE_MAX_BODY :: nat where "FAILURE_MAX_BODY = kib 16"
definition FAILURE_MAX_DURATION_MS :: nat where "FAILURE_MAX_DURATION_MS = 5000"
definition MAX_SITE_RESOURCE :: nat where "MAX_SITE_RESOURCE = kib 64"

subsection \<open>DESIGN 7.4 UDP association budgets\<close>

definition MAX_UDP_TARGETS_PER_ASSOCIATION :: nat where "MAX_UDP_TARGETS_PER_ASSOCIATION = 64"
definition MAX_QUEUED_DATAGRAMS_PER_ASSOCIATION :: nat where "MAX_QUEUED_DATAGRAMS_PER_ASSOCIATION = 32"
definition MAX_QUEUED_DATAGRAM_BYTES :: nat where "MAX_QUEUED_DATAGRAM_BYTES = kib 256"
definition UDP_QUEUE_TTL_DEFAULT_MS :: nat where "UDP_QUEUE_TTL_DEFAULT_MS = 1000"
definition UDP_QUEUE_TTL_MIN_MS :: nat where "UDP_QUEUE_TTL_MIN_MS = 100"
definition UDP_QUEUE_TTL_MAX_MS :: nat where "UDP_QUEUE_TTL_MAX_MS = 5000"
definition UDP_MAX_PAYLOAD_DEFAULT :: nat where "UDP_MAX_PAYLOAD_DEFAULT = 61440"
definition UDP_ASSOCIATION_IDLE_SECS :: nat where "UDP_ASSOCIATION_IDLE_SECS = 60"

subsection \<open>DESIGN 7.5 flow-control and recovery budgets\<close>

definition FLOW_WINDOW_BYTES :: nat where "FLOW_WINDOW_BYTES = kib 256"
definition SESSION_WINDOW_BYTES :: nat where "SESSION_WINDOW_BYTES = kib (8 * 1024)"
definition CONTROL_QUEUE_BYTES :: nat where "CONTROL_QUEUE_BYTES = kib 64"
definition REORDER_MAX_OUT_OF_ORDER_BYTES :: nat where "REORDER_MAX_OUT_OF_ORDER_BYTES = kib 128"
definition REORDER_MAX_BLOCKS :: nat where "REORDER_MAX_BLOCKS = 128"
definition CONTROL_DELIVERY_TARGET_MS :: nat where "CONTROL_DELIVERY_TARGET_MS = 100"
definition PROGRESS_COALESCE_MS :: nat where "PROGRESS_COALESCE_MS = 50"
definition PROGRESS_COALESCE_BYTES :: nat where "PROGRESS_COALESCE_BYTES = kib 32"
definition RETRANSMIT_TIMEOUT_MIN_MS :: nat where "RETRANSMIT_TIMEOUT_MIN_MS = 500"
definition RETRANSMIT_TIMEOUT_MAX_MS :: nat where "RETRANSMIT_TIMEOUT_MAX_MS = 2000"
definition RETRANSMIT_MAX_ATTEMPTS :: nat where "RETRANSMIT_MAX_ATTEMPTS = 3"
definition KEEPALIVE_INTERVAL_SECS :: nat where "KEEPALIVE_INTERVAL_SECS = 20"
definition RECONNECT_BACKOFF_MIN_SECS :: nat where "RECONNECT_BACKOFF_MIN_SECS = 1"
definition RECONNECT_BACKOFF_MAX_SECS :: nat where "RECONNECT_BACKOFF_MAX_SECS = 30"
definition HEALTH_FAILURES_BEFORE_FAILOVER :: nat where "HEALTH_FAILURES_BEFORE_FAILOVER = 3"
definition HEALTH_STABLE_BEFORE_FAILBACK_SECS :: nat where "HEALTH_STABLE_BEFORE_FAILBACK_SECS = 30"

lemmas limit_defs = kib_def
  PROTOCOL_VERSION_def AAD_CONTEXT_def MAX_RECORD_PLAINTEXT_def MAX_TCP_PAYLOAD_def
  MAX_METADATA_def MAX_PADDING_def MAX_AUTH_BOOTSTRAP_def ENVELOPE_HEADER_LEN_def
  AEAD_TAG_LEN_def SESSION_EPOCH_LEN_def PSK_LEN_def MSG_KEY_LEN_def BIND_KEY_LEN_def
  NONCE_LEN_def REPLAY_WINDOW_def MAX_IN_FLIGHT_RECORDS_def REPLAY_MAX_FORWARD_JUMP_def
  PACKET_NO_EXHAUSTION_MARGIN_def MAX_HTTP_BODY_def MAX_SSE_EVENT_def MAX_POST_BATCH_BYTES_def
  MAX_POST_BATCH_RECORDS_def MAX_CARRIER_RECORD_def AUTH_WINDOW_DEFAULT_SECS_def
  AUTH_WINDOW_MIN_SECS_def AUTH_WINDOW_MAX_SECS_def AUTH_NONCE_LEN_def
  AUTH_NONCE_PER_NODE_MAX_def AUTH_NONCE_MEMORY_BUDGET_def AUTH_NONCE_ENTRY_COST_def
  OPERATION_MAX_PENDING_def OPERATION_OPEN_TIMEOUT_SECS_def OPERATION_RESULT_RETENTION_SECS_def
  OPERATION_TOMBSTONE_MAX_def CARRIER_GRACE_SECS_def NO_CONTROL_PROGRESS_DEGRADED_MS_def
  MAX_AUTH_CANDIDATES_def AUTH_HEDGE_DELAY_MS_def CANDIDATE_TTL_SECS_def
  MAX_IN_FLIGHT_DATA_POSTS_def CROSS_CARRIER_BUDGET_PERCENT_def CROSS_CARRIER_PROBE_BURST_def
  CONTROL_POST_POLL_MAX_MS_def BIND_PROOF_TTL_SECS_def WS_AUTH_DEADLINE_SECS_def
  MAX_CHAIN_HOPS_def REORDER_BUFFER_BYTES_def STREAM_INITIAL_CREDIT_def STREAM_MAX_CREDIT_def
  CONTROL_RESERVE_BYTES_def MAX_UDP_PAYLOAD_def DATAGRAM_DEFAULT_TTL_MS_def
  MAX_UDP_ASSOCIATIONS_def MAX_DATAGRAM_QUEUE_def BACKGROUND_JITTER_MIN_SECS_def
  BACKGROUND_JITTER_MAX_SECS_def BACKGROUND_MAX_PER_SESSION_def
  BACKGROUND_BUDGET_BYTES_PER_SEC_def MAX_UNAUTH_CONNECTIONS_PER_IP_def AUTH_RATE_PER_SEC_def
  AUTH_BURST_def HANDSHAKE_TIMEOUT_MS_def MAX_STREAMS_PER_SESSION_def FAILURE_MAX_BODY_def
  FAILURE_MAX_DURATION_MS_def MAX_SITE_RESOURCE_def MAX_UDP_TARGETS_PER_ASSOCIATION_def
  MAX_QUEUED_DATAGRAMS_PER_ASSOCIATION_def MAX_QUEUED_DATAGRAM_BYTES_def
  UDP_QUEUE_TTL_DEFAULT_MS_def UDP_QUEUE_TTL_MIN_MS_def UDP_QUEUE_TTL_MAX_MS_def
  UDP_MAX_PAYLOAD_DEFAULT_def UDP_ASSOCIATION_IDLE_SECS_def FLOW_WINDOW_BYTES_def
  SESSION_WINDOW_BYTES_def CONTROL_QUEUE_BYTES_def REORDER_MAX_OUT_OF_ORDER_BYTES_def
  REORDER_MAX_BLOCKS_def CONTROL_DELIVERY_TARGET_MS_def PROGRESS_COALESCE_MS_def
  PROGRESS_COALESCE_BYTES_def RETRANSMIT_TIMEOUT_MIN_MS_def RETRANSMIT_TIMEOUT_MAX_MS_def
  RETRANSMIT_MAX_ATTEMPTS_def KEEPALIVE_INTERVAL_SECS_def RECONNECT_BACKOFF_MIN_SECS_def
  RECONNECT_BACKOFF_MAX_SECS_def HEALTH_FAILURES_BEFORE_FAILOVER_def
  HEALTH_STABLE_BEFORE_FAILBACK_SECS_def

section \<open>Compile-time assertions\<close>

definition limits_assertions :: bool where
  "limits_assertions \<longleftrightarrow>
     MAX_IN_FLIGHT_RECORDS < REPLAY_WINDOW
   \<and> MAX_TCP_PAYLOAD + MAX_METADATA + MAX_PADDING + 64 \<le> MAX_RECORD_PLAINTEXT
   \<and> PACKET_NO_EXHAUSTION_MARGIN > 0
   \<and> MAX_POST_BATCH_BYTES \<le> MAX_HTTP_BODY
   \<and> MAX_POST_BATCH_BYTES \<ge> MAX_CARRIER_RECORD
   \<and> MAX_POST_BATCH_RECORDS * MAX_CARRIER_RECORD > MAX_POST_BATCH_BYTES
   \<and> MAX_POST_BATCH_BYTES div MAX_POST_BATCH_RECORDS = kib 4
   \<and> AUTH_WINDOW_DEFAULT_SECS \<ge> AUTH_WINDOW_MIN_SECS
   \<and> AUTH_WINDOW_DEFAULT_SECS \<le> AUTH_WINDOW_MAX_SECS
   \<and> AUTH_NONCE_MEMORY_BUDGET div AUTH_NONCE_ENTRY_COST \<ge> AUTH_NONCE_PER_NODE_MAX
   \<and> BACKGROUND_JITTER_MIN_SECS \<le> BACKGROUND_JITTER_MAX_SECS
   \<and> MAX_UDP_PAYLOAD \<le> MAX_RECORD_PLAINTEXT
   \<and> STREAM_INITIAL_CREDIT \<le> STREAM_MAX_CREDIT
   \<and> UDP_QUEUE_TTL_MIN_MS \<le> UDP_QUEUE_TTL_DEFAULT_MS
   \<and> UDP_QUEUE_TTL_DEFAULT_MS \<le> UDP_QUEUE_TTL_MAX_MS
   \<and> UDP_MAX_PAYLOAD_DEFAULT + 264 \<le> MAX_UDP_PAYLOAD
   \<and> RETRANSMIT_TIMEOUT_MIN_MS \<le> RETRANSMIT_TIMEOUT_MAX_MS
   \<and> FLOW_WINDOW_BYTES \<le> SESSION_WINDOW_BYTES
   \<and> REORDER_MAX_OUT_OF_ORDER_BYTES \<le> FLOW_WINDOW_BYTES
   \<and> RECONNECT_BACKOFF_MIN_SECS \<le> RECONNECT_BACKOFF_MAX_SECS"

lemma limits_assertions_hold: "limits_assertions"
  by (simp add: limits_assertions_def limit_defs)

text \<open>
  The bound the record layer relies on and the crate does not assert: the largest \<open>Datagram\<close>
  (the largest UDP payload, full metadata, full padding, the 11 framing bytes) also fits one
  record plaintext.
\<close>

lemma datagram_record_fits:
  "MAX_UDP_PAYLOAD + MAX_METADATA + MAX_PADDING + 11 \<le> MAX_RECORD_PLAINTEXT"
  by (simp add: limit_defs)

end
