(* ===== verification/Kind.thy ===== *)
theory Kind
  imports Budgets
begin

text \<open>
  The message kinds of \<open>crates/wsnet-protocol/src/kind.rs\<close>: the wire discriminant, its decoder,
  the payload limits and the log names.
\<close>

section \<open>Kinds\<close>

datatype MessageKind =
    Auth | AuthOk | Hello | HelloOk | Open | OpenResult | QueryResult | Ready | Progress
  | Resume | CancelCandidate | Bye | Ping | Pong | PeerList | Data | Datagram | Fin | Reset

definition MessageKind_ALL :: "MessageKind list" where
  "MessageKind_ALL =
     [MessageKind.Auth, MessageKind.AuthOk, MessageKind.Hello, MessageKind.HelloOk,
      MessageKind.Open, MessageKind.OpenResult, MessageKind.QueryResult, MessageKind.Ready,
      MessageKind.Progress, MessageKind.Resume, MessageKind.CancelCandidate, MessageKind.Bye,
      MessageKind.Ping, MessageKind.Pong, MessageKind.PeerList, MessageKind.Data,
      MessageKind.Datagram, MessageKind.Fin, MessageKind.Reset]"

primrec kind_as_u8 :: "MessageKind \<Rightarrow> u8" where
  "kind_as_u8 MessageKind.Auth = 1"
| "kind_as_u8 MessageKind.AuthOk = 2"
| "kind_as_u8 MessageKind.Hello = 3"
| "kind_as_u8 MessageKind.HelloOk = 4"
| "kind_as_u8 MessageKind.Open = 5"
| "kind_as_u8 MessageKind.OpenResult = 6"
| "kind_as_u8 MessageKind.QueryResult = 7"
| "kind_as_u8 MessageKind.Ready = 8"
| "kind_as_u8 MessageKind.Progress = 9"
| "kind_as_u8 MessageKind.Resume = 10"
| "kind_as_u8 MessageKind.CancelCandidate = 11"
| "kind_as_u8 MessageKind.Bye = 12"
| "kind_as_u8 MessageKind.Ping = 13"
| "kind_as_u8 MessageKind.Pong = 14"
| "kind_as_u8 MessageKind.PeerList = 15"
| "kind_as_u8 MessageKind.Data = 16"
| "kind_as_u8 MessageKind.Datagram = 17"
| "kind_as_u8 MessageKind.Fin = 18"
| "kind_as_u8 MessageKind.Reset = 19"

definition kind_from_u8 :: "u8 \<Rightarrow> MessageKind option" where
  "kind_from_u8 v =
     (if v = 1 then Some MessageKind.Auth
      else if v = 2 then Some MessageKind.AuthOk
      else if v = 3 then Some MessageKind.Hello
      else if v = 4 then Some MessageKind.HelloOk
      else if v = 5 then Some MessageKind.Open
      else if v = 6 then Some MessageKind.OpenResult
      else if v = 7 then Some MessageKind.QueryResult
      else if v = 8 then Some MessageKind.Ready
      else if v = 9 then Some MessageKind.Progress
      else if v = 10 then Some MessageKind.Resume
      else if v = 11 then Some MessageKind.CancelCandidate
      else if v = 12 then Some MessageKind.Bye
      else if v = 13 then Some MessageKind.Ping
      else if v = 14 then Some MessageKind.Pong
      else if v = 15 then Some MessageKind.PeerList
      else if v = 16 then Some MessageKind.Data
      else if v = 17 then Some MessageKind.Datagram
      else if v = 18 then Some MessageKind.Fin
      else if v = 19 then Some MessageKind.Reset
      else None)"

definition is_bootstrap :: "MessageKind \<Rightarrow> bool" where
  "is_bootstrap k \<longleftrightarrow> (case k of MessageKind.Auth \<Rightarrow> True | MessageKind.AuthOk \<Rightarrow> True | _ \<Rightarrow> False)"

definition carries_payload :: "MessageKind \<Rightarrow> bool" where
  "carries_payload k \<longleftrightarrow> (case k of MessageKind.Data \<Rightarrow> True | MessageKind.Datagram \<Rightarrow> True | _ \<Rightarrow> False)"

definition max_payload :: "MessageKind \<Rightarrow> nat" where
  "max_payload k = (case k of MessageKind.Data \<Rightarrow> MAX_TCP_PAYLOAD
                      | MessageKind.Datagram \<Rightarrow> MAX_UDP_PAYLOAD | _ \<Rightarrow> 0)"

primrec kind_name :: "MessageKind \<Rightarrow> string" where
  "kind_name MessageKind.Auth = ''Auth''"
| "kind_name MessageKind.AuthOk = ''AuthOk''"
| "kind_name MessageKind.Hello = ''Hello''"
| "kind_name MessageKind.HelloOk = ''HelloOk''"
| "kind_name MessageKind.Open = ''Open''"
| "kind_name MessageKind.OpenResult = ''OpenResult''"
| "kind_name MessageKind.QueryResult = ''QueryResult''"
| "kind_name MessageKind.Ready = ''Ready''"
| "kind_name MessageKind.Progress = ''Progress''"
| "kind_name MessageKind.Resume = ''Resume''"
| "kind_name MessageKind.CancelCandidate = ''CancelCandidate''"
| "kind_name MessageKind.Bye = ''Bye''"
| "kind_name MessageKind.Ping = ''Ping''"
| "kind_name MessageKind.Pong = ''Pong''"
| "kind_name MessageKind.PeerList = ''PeerList''"
| "kind_name MessageKind.Data = ''Data''"
| "kind_name MessageKind.Datagram = ''Datagram''"
| "kind_name MessageKind.Fin = ''Fin''"
| "kind_name MessageKind.Reset = ''Reset''"

section \<open>Lemmas\<close>

lemma kind_from_as_u8 [simp, wire_simps]: "kind_from_u8 (kind_as_u8 k) = Some k"
  by (cases k) (simp_all add: kind_from_u8_def)

lemma kind_from_u8_Some: "kind_from_u8 v = Some k \<Longrightarrow> v = kind_as_u8 k"
  by (auto simp: kind_from_u8_def split: if_splits)

lemma kind_in_ALL: "k \<in> set MessageKind_ALL"
  by (cases k) (simp_all add: MessageKind_ALL_def)

lemma kind_ALL_discriminants: "map (unat \<circ> kind_as_u8) MessageKind_ALL = [1..<20]"
  by (simp add: MessageKind_ALL_def upt_rec)

lemma max_payload_0_iff: "max_payload k = 0 \<longleftrightarrow> \<not> carries_payload k"
  by (cases k) (simp_all add: max_payload_def carries_payload_def limit_defs)

lemma max_payload_le: "max_payload k \<le> MAX_UDP_PAYLOAD"
  by (cases k) (simp_all add: max_payload_def limit_defs)

end
