(* ===== verification/Packet_No.thy ===== *)
theory Packet_No
  imports Budgets
begin

text \<open>
  The per-direction \<open>packet_no\<close> allocator of \<open>crates/wsnet-crypto/src/packet_no.rs\<close>.

  The atomic cell \<open>next\<close> is a \<open>nat\<close> in the \<open>u64\<close> range. \<open>allocate\<close> and \<open>reserve_exact\<close> are the
  calls as one thread runs them when no other thread interferes (the compare-exchange succeeds).
  \<open>alloc_step\<close> is the same code as every interleaving of carrier tasks runs it: one rule per
  atomic load or compare-exchange, spurious failures of the weak exchange included.
\<close>

section \<open>The allocator\<close>

datatype PacketNoError =
    Exhausted
  | WouldReuse nat nat  \<comment> \<open>requested, next\<close>

definition PACKET_NO_CEILING :: nat where
  "PACKET_NO_CEILING = u64_max - PACKET_NO_EXHAUSTION_MARGIN"

definition EXHAUSTED :: nat where "EXHAUSTED = u64_max"

lemmas packet_no_defs = PACKET_NO_CEILING_def EXHAUSTED_def u64_max_def PACKET_NO_EXHAUSTION_MARGIN_def

record PacketNoAllocator =
  next_no :: nat

definition new_allocator :: PacketNoAllocator where
  "new_allocator = \<lparr>next_no = 0\<rparr>"

definition spent :: "nat \<Rightarrow> bool" where
  "spent current \<longleftrightarrow> current = EXHAUSTED \<or> current > PACKET_NO_CEILING"

definition next_unused :: "PacketNoAllocator \<Rightarrow> nat option" where
  "next_unused a = (if spent (next_no a) then None else Some (next_no a))"

definition is_exhausted :: "PacketNoAllocator \<Rightarrow> bool" where
  "is_exhausted a \<longleftrightarrow> spent (next_no a)"

definition allocate :: "PacketNoAllocator \<Rightarrow> (PacketNoError + nat) \<times> PacketNoAllocator" where
  "allocate a =
     (let current = next_no a in
      if spent current then (Inl Exhausted, a\<lparr>next_no := EXHAUSTED\<rparr>)
      else (Inr current, a\<lparr>next_no := current + 1\<rparr>))"

definition reserve_exact :: "PacketNoAllocator \<Rightarrow> nat \<Rightarrow> (PacketNoError + nat) \<times> PacketNoAllocator" where
  "reserve_exact a v =
     (if v > PACKET_NO_CEILING then (Inl Exhausted, a)
      else let current = next_no a in
        if current = EXHAUSTED then (Inl Exhausted, a)
        else if v < current then (Inl (WouldReuse v current), a)
        else (Inr v, a\<lparr>next_no := v + 1\<rparr>))"

section \<open>A monotone supply of numbers\<close>

text \<open>
  What the sealing layer relies on: every number handed out is at or above the supply's low
  mark, and the mark moves past it. Consecutive successes are then strictly increasing, so no
  number is issued twice.
\<close>

fun issued :: "('op \<Rightarrow> 's \<Rightarrow> ('e + nat) \<times> 's) \<Rightarrow> 'op list \<Rightarrow> 's \<Rightarrow> nat list" where
  "issued draw [] s = []"
| "issued draw (op # ops) s =
     (case draw op s of (Inr n, s') \<Rightarrow> n # issued draw ops s' | (Inl e, s') \<Rightarrow> issued draw ops s')"

locale monotone_supply =
  fixes draw :: "'op \<Rightarrow> 's \<Rightarrow> ('e + nat) \<times> 's"
    and low :: "'s \<Rightarrow> nat"
  assumes draw_ok: "draw op s = (Inr n, s') \<Longrightarrow> low s \<le> n \<and> n < low s'"
    and draw_err: "draw op s = (Inl e, s') \<Longrightarrow> low s \<le> low s'"
begin

lemma issued_ge_low: "n \<in> set (issued draw ops s) \<Longrightarrow> low s \<le> n"
proof (induction ops arbitrary: s)
  case Nil
  then show ?case by simp
next
  case (Cons op ops)
  obtain r s' where d: "draw op s = (r, s')" by fastforce
  show ?case
  proof (cases r)
    case (Inl e)
    with Cons d draw_err [of op s e s'] show ?thesis by (auto intro: le_trans)
  next
    case (Inr m)
    with Cons d draw_ok [of op s m s'] show ?thesis
      by (auto dest!: Cons.IH)
  qed
qed

lemma issued_strictly_increasing: "sorted_wrt (<) (issued draw ops s)"
proof (induction ops arbitrary: s)
  case Nil
  then show ?case by simp
next
  case (Cons op ops)
  obtain r s' where d: "draw op s = (r, s')" by fastforce
  show ?case
  proof (cases r)
    case (Inl e)
    with Cons d show ?thesis by simp
  next
    case (Inr m)
    with Cons d draw_ok [of op s m s'] show ?thesis
      by (auto dest: issued_ge_low)
  qed
qed

end

text \<open>One call of the allocator: the next number, or an exact one.\<close>

datatype alloc_op = DoAllocate | DoReserve nat

fun alloc_call :: "alloc_op \<Rightarrow> PacketNoAllocator \<Rightarrow> (PacketNoError + nat) \<times> PacketNoAllocator" where
  "alloc_call DoAllocate a = allocate a"
| "alloc_call (DoReserve v) a = reserve_exact a v"

definition alloc_inv :: "PacketNoAllocator \<Rightarrow> bool" where
  "alloc_inv a \<longleftrightarrow> next_no a \<le> PACKET_NO_CEILING + 1 \<or> next_no a = EXHAUSTED"

lemma alloc_inv_new [simp]: "alloc_inv new_allocator"
  by (simp add: alloc_inv_def new_allocator_def)

lemma alloc_call_inv: "alloc_inv a \<Longrightarrow> alloc_call op a = (r, a') \<Longrightarrow> alloc_inv a'"
  by (cases op)
    (auto simp: alloc_inv_def allocate_def reserve_exact_def spent_def Let_def split: if_splits)

lemma alloc_call_bound: "alloc_call op a = (Inr n, a') \<Longrightarrow> n \<le> PACKET_NO_CEILING"
  by (cases op)
    (auto simp: allocate_def reserve_exact_def spent_def Let_def split: if_splits)

text \<open>
  The supply's low mark is the cell clipped to the \<open>u64\<close> range, so that the jump of the cell to
  its terminal value is seen as an increase.
\<close>

interpretation pn: monotone_supply alloc_call "\<lambda>a. min (next_no a) EXHAUSTED"
proof unfold_locales
  fix op a n a'
  assume "alloc_call op a = (Inr n, a')"
  then show "min (next_no a) EXHAUSTED \<le> n \<and> n < min (next_no a') EXHAUSTED"
    by (cases op)
      (auto simp: allocate_def reserve_exact_def spent_def Let_def packet_no_defs split: if_splits)
next
  fix op a e a'
  assume "alloc_call op a = (Inl e, a')"
  then show "min (next_no a) EXHAUSTED \<le> min (next_no a') EXHAUSTED"
    by (cases op)
      (auto simp: allocate_def reserve_exact_def spent_def Let_def split: if_splits)
qed

section \<open>Concurrent callers\<close>

datatype alloc_pc =
    Idle
  | AllocLoop nat           \<comment> \<open>\<open>current\<close>\<close>
  | ReserveLoop nat nat     \<comment> \<open>\<open>value\<close>, \<open>current\<close>\<close>

record alloc_sys =
  cell :: nat
  pcs :: "nat \<Rightarrow> alloc_pc"
  returned :: "nat list"    \<comment> \<open>every number returned so far, newest first\<close>

definition init_sys :: alloc_sys where
  "init_sys = \<lparr>cell = 0, pcs = (\<lambda>_. Idle), returned = []\<rparr>"

inductive alloc_step :: "alloc_sys \<Rightarrow> alloc_sys \<Rightarrow> bool" where
  load_alloc: "pcs s t = Idle \<Longrightarrow>
     alloc_step s (s\<lparr>pcs := (pcs s)(t := AllocLoop (cell s))\<rparr>)"
| alloc_spent: "pcs s t = AllocLoop c \<Longrightarrow> spent c \<Longrightarrow>
     alloc_step s (s\<lparr>cell := (if cell s = c then EXHAUSTED else cell s),
                     pcs := (pcs s)(t := Idle)\<rparr>)"
| alloc_cas_ok: "pcs s t = AllocLoop c \<Longrightarrow> \<not> spent c \<Longrightarrow> cell s = c \<Longrightarrow>
     alloc_step s (s\<lparr>cell := c + 1, pcs := (pcs s)(t := Idle), returned := c # returned s\<rparr>)"
| alloc_cas_fail: "pcs s t = AllocLoop c \<Longrightarrow> \<not> spent c \<Longrightarrow>
     alloc_step s (s\<lparr>pcs := (pcs s)(t := AllocLoop (cell s))\<rparr>)"
| load_reserve: "pcs s t = Idle \<Longrightarrow> v \<le> PACKET_NO_CEILING \<Longrightarrow>
     alloc_step s (s\<lparr>pcs := (pcs s)(t := ReserveLoop v (cell s))\<rparr>)"
| reserve_refuse: "pcs s t = ReserveLoop v c \<Longrightarrow> c = EXHAUSTED \<or> v < c \<Longrightarrow>
     alloc_step s (s\<lparr>pcs := (pcs s)(t := Idle)\<rparr>)"
| reserve_cas_ok: "pcs s t = ReserveLoop v c \<Longrightarrow> c \<noteq> EXHAUSTED \<Longrightarrow> c \<le> v \<Longrightarrow> cell s = c \<Longrightarrow>
     alloc_step s (s\<lparr>cell := v + 1, pcs := (pcs s)(t := Idle), returned := v # returned s\<rparr>)"
| reserve_cas_fail: "pcs s t = ReserveLoop v c \<Longrightarrow> c \<noteq> EXHAUSTED \<Longrightarrow> c \<le> v \<Longrightarrow>
     alloc_step s (s\<lparr>pcs := (pcs s)(t := ReserveLoop v (cell s))\<rparr>)"

inductive alloc_reachable :: "alloc_sys \<Rightarrow> bool" where
  start: "alloc_reachable init_sys"
| step: "alloc_reachable s \<Longrightarrow> alloc_step s s' \<Longrightarrow> alloc_reachable s'"

definition alloc_sys_inv :: "alloc_sys \<Rightarrow> bool" where
  "alloc_sys_inv s \<longleftrightarrow>
     cell s \<le> u64_max
   \<and> (\<forall>n \<in> set (returned s). n < cell s \<and> n \<le> PACKET_NO_CEILING)
   \<and> distinct (returned s)
   \<and> (\<forall>t v c. pcs s t = ReserveLoop v c \<longrightarrow> v \<le> PACKET_NO_CEILING)"

lemma alloc_sys_inv_init: "alloc_sys_inv init_sys"
  by (simp add: alloc_sys_inv_def init_sys_def)

lemma alloc_sys_inv_pc:
  "alloc_sys_inv s \<Longrightarrow> (\<And>v c. pc = ReserveLoop v c \<Longrightarrow> v \<le> PACKET_NO_CEILING) \<Longrightarrow>
   alloc_sys_inv (s\<lparr>pcs := (pcs s)(t := pc)\<rparr>)"
  by (auto simp: alloc_sys_inv_def)

lemma alloc_sys_inv_return:
  "alloc_sys_inv s \<Longrightarrow> cell s \<le> n \<Longrightarrow> n \<le> PACKET_NO_CEILING \<Longrightarrow>
   alloc_sys_inv (s\<lparr>cell := n + 1, pcs := (pcs s)(t := Idle), returned := n # returned s\<rparr>)"
  by (auto simp: alloc_sys_inv_def packet_no_defs)

lemma alloc_step_inv: "alloc_step s s' \<Longrightarrow> alloc_sys_inv s \<Longrightarrow> alloc_sys_inv s'"
proof (induction rule: alloc_step.induct)
  case (alloc_spent s t c)
  then show ?case by (force simp: alloc_sys_inv_def packet_no_defs)
next
  case (alloc_cas_ok s t c)
  then show ?case by (intro alloc_sys_inv_return) (auto simp: spent_def)
next
  case (reserve_cas_ok s t v c)
  then show ?case by (intro alloc_sys_inv_return) (auto simp: alloc_sys_inv_def)
qed (auto intro!: alloc_sys_inv_pc simp: alloc_sys_inv_def)

lemma alloc_reachable_inv: "alloc_reachable s \<Longrightarrow> alloc_sys_inv s"
  by (induction rule: alloc_reachable.induct) (auto intro: alloc_sys_inv_init alloc_step_inv)

text \<open>
  Every step that returns a number is the uncontended call at that moment: the interleaved code
  linearises at its successful compare-exchange.
\<close>

lemma alloc_step_linearises:
  "alloc_step s s' \<Longrightarrow> alloc_sys_inv s \<Longrightarrow> returned s' = n # returned s \<Longrightarrow>
   \<exists>op. alloc_call op \<lparr>next_no = cell s\<rparr> = (Inr n, \<lparr>next_no = cell s'\<rparr>)"
proof (induction rule: alloc_step.induct)
  case (alloc_cas_ok s t c)
  then have "alloc_call DoAllocate \<lparr>next_no = cell s\<rparr> = (Inr n, \<lparr>next_no = n + 1\<rparr>)"
    by (simp add: allocate_def Let_def)
  with alloc_cas_ok show ?case by (auto intro: exI [of _ DoAllocate])
next
  case (reserve_cas_ok s t v c)
  then have "v \<le> PACKET_NO_CEILING" by (auto simp: alloc_sys_inv_def)
  with reserve_cas_ok have "alloc_call (DoReserve v) \<lparr>next_no = cell s\<rparr> = (Inr n, \<lparr>next_no = n + 1\<rparr>)"
    by (auto simp: reserve_exact_def Let_def)
  with reserve_cas_ok show ?case by (auto intro: exI [of _ "DoReserve v"])
qed auto

section \<open>Properties\<close>

text \<open>C25: under every interleaving of any number of tasks running \<open>allocate\<close> and
  \<open>reserve_exact\<close> on the shared atomic counter (spurious compare-exchange failures included), the
  numbers returned are pairwise distinct and never pass the ceiling, so no AEAD nonce repeats and
  the counter never wraps.\<close>

theorem packet_no_unique_under_interleaving:
  assumes "alloc_reachable s"
  shows "distinct (returned s) \<and> (\<forall>n \<in> set (returned s). n \<le> PACKET_NO_CEILING)"
  using alloc_reachable_inv [OF assms] by (auto simp: alloc_sys_inv_def)

theorem packet_no_unique_under_interleaving_witness:
  "\<exists>s. alloc_reachable s \<and> returned s = [1, 0] \<and> distinct (returned s)"
proof -
  have ns: "\<not> spent 0" "\<not> spent (Suc 0)" by (simp_all add: spent_def packet_no_defs)
  let ?a = "init_sys\<lparr>pcs := (pcs init_sys)(0 := AllocLoop 0)\<rparr>"
  let ?b = "?a\<lparr>pcs := (pcs ?a)(1 := AllocLoop 0)\<rparr>"
  let ?c = "?b\<lparr>cell := 0 + 1, pcs := (pcs ?b)(0 := Idle), returned := 0 # returned ?b\<rparr>"
  let ?d = "?c\<lparr>pcs := (pcs ?c)(1 := AllocLoop 1)\<rparr>"
  let ?e = "?d\<lparr>cell := 1 + 1, pcs := (pcs ?d)(1 := Idle), returned := 1 # returned ?d\<rparr>"
  have "alloc_step init_sys ?a" using load_alloc [of init_sys 0] by (simp add: init_sys_def)
  moreover have "alloc_step ?a ?b" using load_alloc [of ?a 1] by (simp add: init_sys_def)
  moreover have "alloc_step ?b ?c"
    by (rule alloc_cas_ok) (simp_all add: init_sys_def ns)
  moreover have "alloc_step ?c ?d"
    using alloc_cas_fail [of ?c 1 0] by (simp add: init_sys_def ns)
  moreover have "alloc_step ?d ?e"
    by (rule alloc_cas_ok) (simp_all add: init_sys_def ns)
  ultimately have "alloc_reachable ?e" by (meson alloc_reachable.intros)
  with packet_no_unique_under_interleaving [OF this] show ?thesis
    by (intro exI [of _ ?e]) (simp add: init_sys_def)
qed

text \<open>the interleaved allocator linearises: a step that returns a number changes the counter
  exactly as one uncontended call of \<open>allocate\<close> or \<open>reserve_exact\<close> at that moment would, and
  returns the same number.\<close>

theorem allocator_linearises:
  assumes "alloc_reachable s" and "alloc_step s s'" and "returned s' = n # returned s"
  shows "\<exists>op. alloc_call op \<lparr>next_no = cell s\<rparr> = (Inr n, \<lparr>next_no = cell s'\<rparr>)"
  using alloc_step_linearises [OF assms(2) alloc_reachable_inv [OF assms(1)] assms(3)] .

theorem allocator_linearises_witness:
  "\<exists>op. alloc_call op \<lparr>next_no = 0\<rparr> = (Inr 7, \<lparr>next_no = 8\<rparr>)"
proof -
  let ?a = "init_sys\<lparr>pcs := (pcs init_sys)(0 := ReserveLoop 7 0)\<rparr>"
  let ?b = "?a\<lparr>cell := 7 + 1, pcs := (pcs ?a)(0 := Idle), returned := 7 # returned ?a\<rparr>"
  have "alloc_step init_sys ?a"
    using load_reserve [of init_sys 0 7] by (simp add: init_sys_def packet_no_defs)
  then have a: "alloc_reachable ?a" by (rule alloc_reachable.step [OF alloc_reachable.start])
  have "alloc_step ?a ?b"
    by (rule reserve_cas_ok) (simp_all add: init_sys_def packet_no_defs)
  from allocator_linearises [OF a this] show ?thesis by (simp add: init_sys_def)
qed

end
