(* ===== verification/Replay.thy ===== *)
theory Replay
  imports Budgets
begin

text \<open>
  The transport replay window of \<open>crates/wsnet-auth-store/src/replay.rs\<close>: a high-water mark and a
  bitmap of 65536 bits in 64-bit words, addressed modulo the window. The reference filter it is
  compared with keeps the exact set of accepted numbers and no bitmap.
\<close>

unbundle bit_operations_syntax

section \<open>The window\<close>

datatype ReplayError =
    Duplicate nat
  | TooOld nat nat                  \<comment> \<open>packet number, highest\<close>
  | TooFarAhead nat nat nat nat     \<comment> \<open>packet number, highest, jump, limit\<close>

definition WORDS :: nat where "WORDS = REPLAY_WINDOW div 64"

record ReplayWindow =
  highest :: "nat option"
  seen :: "64 word list"

definition new_window :: ReplayWindow where
  "new_window = \<lparr>highest = None, seen = replicate WORDS 0\<rparr>"

definition locate :: "nat \<Rightarrow> nat \<times> 64 word" where
  "locate n = (let slot = n mod REPLAY_WINDOW in (slot div 64, push_bit (slot mod 64) 1))"

definition set_bit_of :: "64 word list \<Rightarrow> nat \<Rightarrow> 64 word list" where
  "set_bit_of ws n = (let (w, msk) = locate n in ws[w := (ws ! w) OR msk])"

definition clear_bit_of :: "64 word list \<Rightarrow> nat \<Rightarrow> 64 word list" where
  "clear_bit_of ws n = (let (w, msk) = locate n in ws[w := (ws ! w) AND NOT msk])"

definition check_and_record :: "ReplayWindow \<Rightarrow> nat \<Rightarrow> ReplayError + ReplayWindow" where
  "check_and_record win n =
     (case highest win of
        None \<Rightarrow> Inr (win\<lparr>highest := Some n, seen := set_bit_of (seen win) n\<rparr>)
      | Some h \<Rightarrow>
          if n > h then
            (let jump = n - h in
             if jump > REPLAY_MAX_FORWARD_JUMP
             then Inl (TooFarAhead n h jump REPLAY_MAX_FORWARD_JUMP)
             else let cleared = (if jump \<ge> REPLAY_WINDOW then map (\<lambda>_. 0) (seen win)
                                 else foldl clear_bit_of (seen win) [h + 1..<n + 1])
                  in Inr (win\<lparr>highest := Some n, seen := set_bit_of cleared n\<rparr>))
          else if h - n \<ge> REPLAY_WINDOW then Inl (TooOld n h)
          else let (w, msk) = locate n in
            if (seen win ! w) AND msk \<noteq> 0 then Inl (Duplicate n)
            else Inr (win\<lparr>seen := (seen win)[w := (seen win ! w) OR msk]\<rparr>))"

definition memory_bytes :: nat where "memory_bytes = WORDS * 8"

section \<open>Bits of the map\<close>

definition recorded :: "64 word list \<Rightarrow> nat \<Rightarrow> bool" where
  "recorded ws n \<longleftrightarrow> bit (ws ! (n mod REPLAY_WINDOW div 64)) (n mod REPLAY_WINDOW mod 64)"

lemma WORDS_eq: "WORDS = 1024"
  by (simp add: WORDS_def REPLAY_WINDOW_def)

lemma slot_word_less: "n mod REPLAY_WINDOW div 64 < WORDS"
  by (simp add: WORDS_eq REPLAY_WINDOW_def less_mult_imp_div_less)

lemma slot_eq_iff:
  "n mod REPLAY_WINDOW = m mod REPLAY_WINDOW \<longleftrightarrow>
   n mod REPLAY_WINDOW div 64 = m mod REPLAY_WINDOW div 64
     \<and> n mod REPLAY_WINDOW mod 64 = m mod REPLAY_WINDOW mod 64"
  by (metis mult_div_mod_eq)

lemma recorded_test:
  "locate n = (w, msk) \<Longrightarrow> ((ws ! w) AND msk \<noteq> 0) = recorded ws n"
  by (auto simp: locate_def Let_def recorded_def push_bit_eq_mult and_exp_eq_0_iff_not_bit)

lemma bit_mask_of_slot: "j < 64 \<Longrightarrow> bit (2 ^ k :: 64 word) j \<longleftrightarrow> j = k"
  by (auto simp: bit_simps)

lemma recorded_set:
  assumes len: "length ws = WORDS"
  shows "recorded (set_bit_of ws n) m \<longleftrightarrow> m mod REPLAY_WINDOW = n mod REPLAY_WINDOW \<or> recorded ws m"
proof (cases "m mod REPLAY_WINDOW div 64 = n mod REPLAY_WINDOW div 64")
  case True
  then show ?thesis
    using slot_word_less [of n] slot_eq_iff [of m n] len
    by (simp add: set_bit_of_def locate_def Let_def recorded_def bit_or_iff bit_mask_of_slot)
      blast
next
  case False
  then show ?thesis
    using slot_eq_iff [of m n]
    by (simp add: set_bit_of_def locate_def Let_def recorded_def)
qed

lemma recorded_clear:
  assumes len: "length ws = WORDS"
  shows "recorded (clear_bit_of ws n) m \<longleftrightarrow> m mod REPLAY_WINDOW \<noteq> n mod REPLAY_WINDOW \<and> recorded ws m"
proof (cases "m mod REPLAY_WINDOW div 64 = n mod REPLAY_WINDOW div 64")
  case True
  then show ?thesis
    using slot_word_less [of n] slot_eq_iff [of m n] len
    by (simp add: clear_bit_of_def locate_def Let_def recorded_def bit_and_iff bit_not_iff
        bit_mask_of_slot) blast
next
  case False
  then show ?thesis
    using slot_eq_iff [of m n]
    by (simp add: clear_bit_of_def locate_def Let_def recorded_def)
qed

lemma length_set_bit_of [simp]: "length (set_bit_of ws n) = length ws"
  by (simp add: set_bit_of_def Let_def split_beta)

lemma length_clear_bit_of [simp]: "length (clear_bit_of ws n) = length ws"
  by (simp add: clear_bit_of_def Let_def split_beta)

lemma length_foldl_clear [simp]: "length (foldl clear_bit_of ws ns) = length ws"
  by (induction ns arbitrary: ws) auto

lemma recorded_foldl_clear:
  "length ws = WORDS \<Longrightarrow>
   recorded (foldl clear_bit_of ws ns) m \<longleftrightarrow>
     (\<forall>n \<in> set ns. m mod REPLAY_WINDOW \<noteq> n mod REPLAY_WINDOW) \<and> recorded ws m"
  by (induction ns arbitrary: ws) (auto simp: recorded_clear)

lemma recorded_zero: "length ws = WORDS \<Longrightarrow> \<not> recorded (map (\<lambda>_. 0) ws) m"
  using slot_word_less [of m] by (simp add: recorded_def)

lemma same_slot_within_window:
  assumes "a mod REPLAY_WINDOW = b mod REPLAY_WINDOW" "a \<le> b" "b < a + REPLAY_WINDOW"
  shows "a = b"
proof -
  have "REPLAY_WINDOW dvd b - a"
    using assms(1,2) mod_eq_dvd_iff_nat [of a b REPLAY_WINDOW] by simp
  then show ?thesis using assms(2,3) by (auto dest!: dvd_imp_le)
qed

section \<open>The reference filter\<close>

text \<open>The exact set of accepted numbers, with the same three refusals.\<close>

record ReplaySpec =
  top :: "nat option"
  accepted :: "nat set"

definition new_spec :: ReplaySpec where
  "new_spec = \<lparr>top = None, accepted = {}\<rparr>"

definition spec_check :: "ReplaySpec \<Rightarrow> nat \<Rightarrow> ReplayError + ReplaySpec" where
  "spec_check f n =
     (case top f of
        None \<Rightarrow> Inr \<lparr>top = Some n, accepted = {n}\<rparr>
      | Some h \<Rightarrow>
          if n > h + REPLAY_MAX_FORWARD_JUMP
          then Inl (TooFarAhead n h (n - h) REPLAY_MAX_FORWARD_JUMP)
          else if n + REPLAY_WINDOW \<le> h then Inl (TooOld n h)
          else if n \<in> accepted f then Inl (Duplicate n)
          else Inr \<lparr>top = Some (max n h), accepted = insert n (accepted f)\<rparr>)"

text \<open>
  The bitmap represents the set on the window: above the mark nothing was accepted, and inside the
  window the bit of a number says whether it was.
\<close>

definition window_sim :: "ReplayWindow \<Rightarrow> ReplaySpec \<Rightarrow> bool" where
  "window_sim win f \<longleftrightarrow>
     length (seen win) = WORDS \<and> highest win = top f
   \<and> (case top f of
        None \<Rightarrow> accepted f = {} \<and> (\<forall>n. \<not> recorded (seen win) n)
      | Some h \<Rightarrow> (\<forall>n \<in> accepted f. n \<le> h)
          \<and> (\<forall>n. n \<le> h \<and> h < n + REPLAY_WINDOW \<longrightarrow> recorded (seen win) n = (n \<in> accepted f)))"

lemma window_sim_new: "window_sim new_window new_spec"
  using slot_word_less
  by (simp add: window_sim_def new_window_def new_spec_def recorded_def)

lemma window_sim_first:
  assumes "window_sim win f" "top f = None"
  shows "window_sim (win\<lparr>highest := Some n, seen := set_bit_of (seen win) n\<rparr>)
           \<lparr>top = Some n, accepted = {n}\<rparr>"
  using assms by (auto simp: window_sim_def recorded_set dest: same_slot_within_window)

lemma window_sim_advance:
  assumes sim: "window_sim win f" and top: "top f = Some h" and gt: "h < n"
    and jump: "n - h \<le> REPLAY_MAX_FORWARD_JUMP"
    and cleared: "cleared = (if n - h \<ge> REPLAY_WINDOW then map (\<lambda>_. 0) (seen win)
                             else foldl clear_bit_of (seen win) [h + 1..<n + 1])"
  shows "window_sim (win\<lparr>highest := Some n, seen := set_bit_of cleared n\<rparr>)
           \<lparr>top = Some n, accepted = insert n (accepted f)\<rparr>"
proof -
  have len: "length (seen win) = WORDS" and below: "\<And>m. m \<in> accepted f \<Longrightarrow> m \<le> h"
    and bits: "\<And>m. m \<le> h \<Longrightarrow> h < m + REPLAY_WINDOW \<Longrightarrow> recorded (seen win) m = (m \<in> accepted f)"
    using sim top by (auto simp: window_sim_def)
  have lenc: "length cleared = WORDS" using len by (simp add: cleared)
  have "recorded (set_bit_of cleared n) m = (m \<in> insert n (accepted f))"
    if m: "m \<le> n" "n < m + REPLAY_WINDOW" for m
  proof (cases "m = n")
    case True
    then show ?thesis by (simp add: recorded_set [OF lenc])
  next
    case False
    then have slot: "m mod REPLAY_WINDOW \<noteq> n mod REPLAY_WINDOW"
      using m same_slot_within_window by blast
    have "recorded cleared m = (m \<in> accepted f)"
    proof (cases "h < m")
      case True
      then have "m \<in> set [h + 1..<n + 1]" using m by auto
      then have "\<not> recorded cleared m"
        using len by (auto simp: cleared recorded_zero recorded_foldl_clear simp del: set_upt upt_Suc)
      with True below show ?thesis by fastforce
    next
      case False
      then have small: "n - h < REPLAY_WINDOW" using m by linarith
      have "\<forall>k \<in> set [h + 1..<n + 1]. m mod REPLAY_WINDOW \<noteq> k mod REPLAY_WINDOW"
        using False m same_slot_within_window [of m] by fastforce
      with small len have "recorded cleared m = recorded (seen win) m"
        by (simp add: cleared recorded_foldl_clear)
      with False small m gt bits show ?thesis by simp
    qed
    with slot False show ?thesis by (simp add: recorded_set [OF lenc])
  qed
  with gt below lenc show ?thesis
    by (force simp: window_sim_def)
qed

lemma window_sim_inside:
  assumes sim: "window_sim win f" and top: "top f = Some h" and le: "n \<le> h"
    and recent: "h < n + REPLAY_WINDOW" and loc: "locate n = (w, msk)"
  shows "window_sim (win\<lparr>seen := (seen win)[w := (seen win ! w) OR msk]\<rparr>)
           \<lparr>top = Some h, accepted = insert n (accepted f)\<rparr>"
proof -
  have eq: "(seen win)[w := (seen win ! w) OR msk] = set_bit_of (seen win) n"
    by (simp add: set_bit_of_def loc)
  have "m mod REPLAY_WINDOW = n mod REPLAY_WINDOW \<longleftrightarrow> m = n" if "m \<le> h" "h < m + REPLAY_WINDOW" for m
    using that le recent same_slot_within_window [of n m] same_slot_within_window [of m n]
    by (metis le_less_trans nat_le_linear)
  with sim top le show ?thesis
    unfolding eq by (auto simp: window_sim_def recorded_set)
qed

text \<open>The bitmap window simulates the reference filter, refusals included.\<close>

lemma check_and_record_simulates:
  assumes sim: "window_sim win f"
  shows "(case check_and_record win n of
            Inl e \<Rightarrow> spec_check f n = Inl e
          | Inr win' \<Rightarrow> (\<exists>f'. spec_check f n = Inr f' \<and> window_sim win' f'))"
proof (cases "top f")
  case None
  with sim have "highest win = None" by (simp add: window_sim_def)
  with None sim show ?thesis
    by (simp add: check_and_record_def spec_check_def window_sim_first)
next
  case (Some h)
  with sim have hi: "highest win = Some h" by (simp add: window_sim_def)
  have dup: "recorded (seen win) n = (n \<in> accepted f)" if "n \<le> h" "h < n + REPLAY_WINDOW"
    using sim Some that by (simp add: window_sim_def)
  consider (ahead) "h < n" | (old) "n \<le> h" "h - n \<ge> REPLAY_WINDOW"
    | (inside) "n \<le> h" "h < n + REPLAY_WINDOW" by linarith
  then show ?thesis
  proof cases
    case ahead
    then have new: "n \<notin> accepted f" using sim Some by (auto simp: window_sim_def)
    show ?thesis
      using ahead new window_sim_advance [OF sim Some ahead _ refl]
      by (auto simp: check_and_record_def spec_check_def hi Some Let_def max_def)
  next
    case old
    then show ?thesis
      by (auto simp: check_and_record_def spec_check_def hi Some Let_def)
  next
    case inside
    obtain w msk where loc: "locate n = (w, msk)" by fastforce
    show ?thesis
      using inside dup [OF inside] recorded_test [OF loc, of "seen win"] window_sim_inside [OF sim Some inside loc]
      by (auto simp: check_and_record_def spec_check_def hi Some Let_def loc max_def)
  qed
qed

section \<open>Once-only filters\<close>

text \<open>
  What the session engine relies on: a filter whose state stands for a set of admitted numbers,
  which refuses every member of the set and adds what it admits.
\<close>

fun admitted :: "('s \<Rightarrow> nat \<Rightarrow> 'e + 's) \<Rightarrow> 's \<Rightarrow> nat list \<Rightarrow> nat list" where
  "admitted check s [] = []"
| "admitted check s (n # ns) =
     (case check s n of Inl e \<Rightarrow> admitted check s ns | Inr s' \<Rightarrow> n # admitted check s' ns)"

fun verdicts :: "('s \<Rightarrow> nat \<Rightarrow> 'e + 's) \<Rightarrow> 's \<Rightarrow> nat list \<Rightarrow> 'e option list" where
  "verdicts check s [] = []"
| "verdicts check s (n # ns) =
     (case check s n of Inl e \<Rightarrow> Some e # verdicts check s ns
                      | Inr s' \<Rightarrow> None # verdicts check s' ns)"

locale once_filter =
  fixes check :: "'s \<Rightarrow> nat \<Rightarrow> 'e + 's" and holds :: "'s \<Rightarrow> nat set \<Rightarrow> bool"
  assumes refuses: "holds s A \<Longrightarrow> n \<in> A \<Longrightarrow> check s n \<noteq> Inr s'"
    and admits: "holds s A \<Longrightarrow> check s n = Inr s' \<Longrightarrow> holds s' (insert n A)"
begin

lemma admitted_fresh: "holds s A \<Longrightarrow> set (admitted check s ns) \<inter> A = {}"
proof (induction ns arbitrary: s A)
  case Nil
  then show ?case by simp
next
  case (Cons n ns)
  show ?case
  proof (cases "check s n")
    case (Inl e)
    with Cons show ?thesis by simp
  next
    case (Inr s')
    with Cons.prems have "n \<notin> A" and "holds s' (insert n A)"
      using refuses admits by blast+
    with Inr Cons.IH [of s' "insert n A"] show ?thesis by auto
  qed
qed

lemma admitted_distinct: "holds s A \<Longrightarrow> distinct (admitted check s ns)"
proof (induction ns arbitrary: s A)
  case Nil
  then show ?case by simp
next
  case (Cons n ns)
  show ?case
  proof (cases "check s n")
    case (Inl e)
    with Cons show ?thesis by auto
  next
    case (Inr s')
    with Cons.prems have "holds s' (insert n A)" by (rule admits)
    with Inr Cons.IH [OF this] admitted_fresh [OF this, of ns] show ?thesis by auto
  qed
qed

end

lemma spec_check_accepted:
  "spec_check f n = Inr f' \<Longrightarrow> (\<forall>m \<in> accepted f. top f \<noteq> None) \<Longrightarrow> accepted f' = insert n (accepted f)"
  by (auto simp: spec_check_def split: option.splits if_splits)

lemma spec_check_fresh: "spec_check f n = Inr f' \<Longrightarrow> top f \<noteq> None \<Longrightarrow> n \<notin> accepted f"
  by (auto simp: spec_check_def split: option.splits if_splits)

interpretation rw: once_filter check_and_record "\<lambda>win A. \<exists>f. window_sim win f \<and> accepted f = A"
proof (unfold_locales, goal_cases)
  case (1 win A n win')
  then obtain f where f: "window_sim win f" "n \<in> accepted f" by auto
  then have "top f \<noteq> None" by (auto simp: window_sim_def split: option.splits)
  with f check_and_record_simulates [OF f(1), of n] spec_check_fresh [of f n] show ?case
    by auto
next
  case (2 win A n win')
  then obtain f where f: "window_sim win f" "accepted f = A" by auto
  with 2 check_and_record_simulates [OF f(1), of n]
  obtain f' where f': "spec_check f n = Inr f'" "window_sim win' f'" by auto
  have "\<forall>m \<in> accepted f. top f \<noteq> None" using f by (auto simp: window_sim_def split: option.splits)
  with f f' spec_check_accepted show ?case by blast
qed

lemma verdicts_simulate:
  "window_sim win f \<Longrightarrow> verdicts check_and_record win ns = verdicts spec_check f ns"
proof (induction ns arbitrary: win f)
  case Nil
  then show ?case by simp
next
  case (Cons n ns)
  with check_and_record_simulates [OF Cons.prems, of n] show ?case
    by (auto split: sum.splits)
qed

section \<open>Properties\<close>

text \<open>C18: on every sequence of packet numbers, the bitmap window of 65536 bits gives exactly the
  verdicts (accepted, duplicate, too old, too far ahead, with the same error values) of the
  reference filter that stores the set of all accepted numbers.\<close>

theorem replay_window_refines_set_filter:
  "verdicts check_and_record new_window ns = verdicts spec_check new_spec ns"
  by (rule verdicts_simulate [OF window_sim_new])

text \<open>no packet number is ever accepted twice by the window, however packets are ordered,
  repeated or separated: recycled bitmap slots never re-admit an old number.\<close>

theorem replay_never_accepts_twice:
  "distinct (admitted check_and_record new_window ns)"
  using window_sim_new by (intro rw.admitted_distinct) blast

text \<open>the window never drops a fresh in-window packet: in any state that stands for a set of
  accepted numbers with high-water mark \<open>h\<close>, a number not yet accepted, fewer than 65536 behind
  \<open>h\<close> and at most 65536 ahead of it, is accepted.\<close>

theorem replay_accepts_fresh_in_window:
  assumes "window_sim win f" and "top f = Some h" and "n \<notin> accepted f"
    and "h < n + REPLAY_WINDOW" and "n \<le> h + REPLAY_MAX_FORWARD_JUMP"
  shows "\<exists>win'. check_and_record win n = Inr win'"
  using check_and_record_simulates [OF assms(1), of n] assms
  by (cases "check_and_record win n") (auto simp: spec_check_def)

theorem replay_accepts_fresh_in_window_witness:
  "\<exists>win win'. check_and_record new_window 5 = Inr win \<and> check_and_record win 3 = Inr win'"
proof -
  have "window_sim (new_window\<lparr>highest := Some 5, seen := set_bit_of (seen new_window) 5\<rparr>)
          \<lparr>top = Some 5, accepted = {5}\<rparr>"
    by (rule window_sim_first [OF window_sim_new]) (simp add: new_spec_def)
  from replay_accepts_fresh_in_window [OF this, of 5 3] show ?thesis
    by (auto simp: check_and_record_def new_window_def limit_defs)
qed

end
