(* ===== verification/Reorder.thy ===== *)
theory Reorder
  imports Budgets
begin

text \<open>
  \<open>crates/wsnet-stream/src/lib.rs\<close>: the reorder buffer that turns out-of-order blocks into one
  byte stream, and the byte-credit account of one direction. Offsets are \<open>u64\<close> values as \<open>nat\<close>
  with the overflow checks of the source; the \<open>BTreeMap\<close> of pending blocks is a sorted list.
\<close>

section \<open>Errors\<close>

datatype StreamError =
    CreditExceeded nat nat            \<comment> \<open>sent to, limit\<close>
  | AlreadyReceived nat nat           \<comment> \<open>offset, next\<close>
  | OutOfOrder nat nat                \<comment> \<open>offset, next\<close>
  | ConsumeBeyondReceived nat nat     \<comment> \<open>consumed to, received\<close>
  | OffsetOverflow
  | ReorderOverflow nat nat           \<comment> \<open>would hold, limit\<close>
  | TooManyBlocks nat nat             \<comment> \<open>would hold, limit\<close>
  | TooFarAhead nat nat nat nat       \<comment> \<open>offset, next, ahead, limit\<close>
  | ConflictingOverlap nat nat        \<comment> \<open>offset, length\<close>

section \<open>Reorder buffer\<close>

record ReorderBuffer =
  rb_next :: nat
  pending :: "(nat \<times> bytes) list"
  buffered :: nat
  limit_bytes :: nat
  limit_blocks :: nat
  look_ahead_bytes :: nat

definition rb_with_limit :: "nat \<Rightarrow> nat \<Rightarrow> ReorderBuffer" where
  "rb_with_limit start_offset lim =
     \<lparr>rb_next = start_offset, pending = [], buffered = 0,
      limit_bytes = min lim REORDER_BUFFER_BYTES, limit_blocks = REORDER_MAX_BLOCKS,
      look_ahead_bytes = REORDER_BUFFER_BYTES\<rparr>"

definition rb_new :: "nat \<Rightarrow> ReorderBuffer" where
  "rb_new start_offset = rb_with_limit start_offset REORDER_MAX_OUT_OF_ORDER_BYTES"

definition rb_with_block_limit :: "ReorderBuffer \<Rightarrow> nat \<Rightarrow> ReorderBuffer" where
  "rb_with_block_limit b n = b\<lparr>limit_blocks := n\<rparr>"

definition buffered_blocks :: "ReorderBuffer \<Rightarrow> nat" where
  "buffered_blocks b = length (pending b)"

text \<open>\<open>pending.range(..=offset).next_back()\<close> and \<open>pending.range(offset..).next()\<close>.\<close>

definition block_at_or_before :: "(nat \<times> bytes) list \<Rightarrow> nat \<Rightarrow> (nat \<times> bytes) option" where
  "block_at_or_before m off =
     (case filter (\<lambda>(k, d). k \<le> off) m of [] \<Rightarrow> None | x # xs \<Rightarrow> Some (last (x # xs)))"

definition block_at_or_after :: "(nat \<times> bytes) list \<Rightarrow> nat \<Rightarrow> (nat \<times> bytes) option" where
  "block_at_or_after m off =
     (case filter (\<lambda>(k, d). off \<le> k) m of [] \<Rightarrow> None | x # xs \<Rightarrow> Some x)"

text \<open>The draining loop: remove the block at \<open>next\<close> for as long as there is one.\<close>

function drain :: "nat \<Rightarrow> (nat \<times> bytes) list \<Rightarrow> nat \<Rightarrow>
    (nat \<times> (nat \<times> bytes) list \<times> nat) \<times> (nat \<times> bytes) list" where
  "drain nxt m buf =
     (case map_of m nxt of
        None \<Rightarrow> ((nxt, m, buf), [])
      | Some block \<Rightarrow>
          (let (st, delivered) = drain (nxt + length block) (bt_remove nxt m) (buf - length block)
           in (st, (nxt, block) # delivered)))"
  by pat_completeness auto
termination
proof (relation "measure (\<lambda>(nxt, m, buf). length m)", simp)
  fix nxt :: nat and m :: "(nat \<times> bytes) list" and buf block
  assume "map_of m nxt = Some block"
  then have "(nxt, block) \<in> set m" by (rule map_of_SomeD)
  then have "length (filter (\<lambda>(k', v). k' \<noteq> nxt) m) < length m"
    by (intro length_filter_less) auto
  then show "((nxt + length block, bt_remove nxt m, buf - length block), nxt, m, buf)
      \<in> measure (\<lambda>(nxt, m, buf). length m)"
    by (simp add: bt_remove_def)
qed

declare drain.simps [simp del]

text \<open>
  The two overlap checks against the pending blocks: \<open>Inr False\<close> when the very block is already
  held, \<open>Inr True\<close> when the space is free.
\<close>

definition overlap_check :: "(nat \<times> bytes) list \<Rightarrow> nat \<Rightarrow> bytes \<Rightarrow> StreamError + bool" where
  "overlap_check m off d =
     (let later = (case block_at_or_after m off of
                     Some (k, _) \<Rightarrow>
                       if k < off + length d then Inl (ConflictingOverlap off (length d)) else Inr True
                   | None \<Rightarrow> Inr True)
      in case block_at_or_before m off of
           Some (k, pd) \<Rightarrow>
             if k = off then (if pd = d then Inr False else Inl (ConflictingOverlap off (length d)))
             else if k + length pd > off then Inl (ConflictingOverlap off (length d))
             else later
         | None \<Rightarrow> later)"

definition insert_offsets ::
    "ReorderBuffer \<Rightarrow> nat \<Rightarrow> bytes \<Rightarrow> StreamError + (ReorderBuffer \<times> (nat \<times> bytes) list)" where
  "insert_offsets b off d =
     (if d = [] then Inr (b, [])
      else rbind (ok_or OffsetOverflow (checked_add off (length d))) (\<lambda>e.
        if e \<le> rb_next b then Inr (b, [])
        else if off < rb_next b then Inl (ConflictingOverlap off (length d))
        else let ahead = off - rb_next b in
        if ahead > look_ahead_bytes b
        then Inl (TooFarAhead off (rb_next b) ahead (look_ahead_bytes b))
        else rbind (overlap_check (pending b) off d) (\<lambda>fresh.
          if \<not> fresh then Inr (b, [])
          else let would_hold = buffered b + length d in
            if would_hold > limit_bytes b then Inl (ReorderOverflow would_hold (limit_bytes b))
            else if off \<noteq> rb_next b \<and> length (pending b) + 1 > limit_blocks b
            then Inl (TooManyBlocks (length (pending b) + 1) (limit_blocks b))
            else
              let ((nxt, m, buf), delivered) =
                    drain (rb_next b) (bt_insert off d (pending b)) (buffered b + length d)
              in Inr (b\<lparr>rb_next := nxt, pending := m, buffered := buf\<rparr>, delivered))))"

definition rb_insert :: "ReorderBuffer \<Rightarrow> nat \<Rightarrow> bytes \<Rightarrow> StreamError + (ReorderBuffer \<times> bytes list)" where
  "rb_insert b off d = rbind (insert_offsets b off d) (\<lambda>(b', ds). Inr (b', map snd ds))"

section \<open>Credit\<close>

record CreditAccount =
  window :: nat
  received :: nat
  consumed :: nat
  limit :: nat

definition credit_new :: "nat \<Rightarrow> nat \<Rightarrow> CreditAccount" where
  "credit_new initial_credit w =
     \<lparr>window = max (min w STREAM_MAX_CREDIT) initial_credit, received = 0, consumed = 0,
      limit = initial_credit\<rparr>"

definition outstanding :: "CreditAccount \<Rightarrow> nat" where
  "outstanding c = limit c - received c"

definition record_received :: "CreditAccount \<Rightarrow> nat \<Rightarrow> nat \<Rightarrow> StreamError + CreditAccount" where
  "record_received c off len =
     (if len = 0 then Inr c
      else rbind (ok_or OffsetOverflow (checked_add off len)) (\<lambda>e.
        if e > limit c then Inl (CreditExceeded e (limit c))
        else if off < received c then Inl (AlreadyReceived off (received c))
        else if off > received c then Inl (OutOfOrder off (received c))
        else Inr (c\<lparr>received := e\<rparr>)))"

definition credit_consume :: "CreditAccount \<Rightarrow> nat \<Rightarrow> StreamError + (CreditAccount \<times> nat)" where
  "credit_consume c n =
     rbind (ok_or OffsetOverflow (checked_add (consumed c) n)) (\<lambda>consumed_to.
       if consumed_to > received c then Inl (ConsumeBeyondReceived consumed_to (received c))
       else let desired = sat_add consumed_to (window c);
                grant = desired - limit c
            in Inr (c\<lparr>consumed := consumed_to, limit := sat_add (limit c) grant\<rparr>, grant))"

section \<open>Reorder buffer: invariant\<close>

text \<open>Total bytes of a list of blocks, and the sorted, non-overlapping shape of the pending map.\<close>

definition block_bytes :: "(nat \<times> bytes) list \<Rightarrow> nat" where
  "block_bytes m = sum_list (map (length \<circ> snd) m)"

fun spaced :: "(nat \<times> bytes) list \<Rightarrow> bool" where
  "spaced [] = True"
| "spaced ((k, d) # m) = (d \<noteq> [] \<and> (\<forall>(k', d') \<in> set m. k + length d \<le> k') \<and> spaced m)"

text \<open>What holds of the buffer between two calls, budgets included.\<close>

definition rb_inv :: "ReorderBuffer \<Rightarrow> bool" where
  "rb_inv b \<longleftrightarrow>
     spaced (pending b)
   \<and> (\<forall>(k, d) \<in> set (pending b). rb_next b < k \<and> k \<le> rb_next b + look_ahead_bytes b
                                 \<and> k + length d \<le> u64_max)
   \<and> buffered b = block_bytes (pending b)
   \<and> buffered b \<le> limit_bytes b
   \<and> length (pending b) \<le> limit_blocks b
   \<and> rb_next b \<le> u64_max"

lemma block_bytes_Nil [simp]: "block_bytes [] = 0"
  by (simp add: block_bytes_def)

lemma block_bytes_Cons [simp]: "block_bytes ((k, d) # m) = length d + block_bytes m"
  by (simp add: block_bytes_def)

lemma spaced_bt_inv: "spaced m \<Longrightarrow> bt_inv m"
proof (induction m rule: spaced.induct)
  case (2 k d m)
  have "k < k'" if "k' \<in> fst ` set m" for k'
  proof -
    from that obtain d' where "(k', d') \<in> set m" by auto
    with 2 have "k + length d \<le> k'" "0 < length d" by auto
    then show ?thesis by linarith
  qed
  with 2 show ?case by (auto simp: bt_inv_Cons)
qed simp

text \<open>The blocks of a spaced list do not overlap pairwise.\<close>

lemma spaced_disjoint:
  "spaced m \<Longrightarrow> (k, d) \<in> set m \<Longrightarrow> (k', d') \<in> set m \<Longrightarrow> k < k' \<Longrightarrow> k + length d \<le> k'"
proof (induction m rule: spaced.induct)
  case (2 k0 d0 m)
  then show ?case by fastforce
qed simp

lemma spaced_same: "spaced m \<Longrightarrow> (k, d) \<in> set m \<Longrightarrow> (k, d') \<in> set m \<Longrightarrow> d = d'"
  using bt_inv_distinct [OF spaced_bt_inv] by (metis eq_key_imp_eq_value)

lemma spaced_nonempty: "spaced m \<Longrightarrow> (k, d) \<in> set m \<Longrightarrow> d \<noteq> []"
  by (induction m rule: spaced.induct) auto

lemma spaced_insert:
  assumes "spaced m" "d \<noteq> []"
    and "\<And>k' d'. (k', d') \<in> set m \<Longrightarrow> k' < k \<Longrightarrow> k' + length d' \<le> k"
    and "\<And>k' d'. (k', d') \<in> set m \<Longrightarrow> k \<le> k' \<Longrightarrow> k + length d \<le> k'"
  shows "spaced (bt_insert k d m) \<and> set (bt_insert k d m) = insert (k, d) (set m)
         \<and> block_bytes (bt_insert k d m) = length d + block_bytes m
         \<and> length (bt_insert k d m) = Suc (length m)"
  using assms
proof (induction k d m rule: bt_insert.induct)
  case (1 k d)
  then show ?case by simp
next
  case (2 k d k0 d0 m)
  have ne: "k \<noteq> k0"
    using 2(3) 2(5) [of k0 d0] by auto
  show ?case
  proof (cases "k < k0")
    case True
    with 2(2,3) 2(5) show ?thesis by (auto; fastforce)
  next
    case False
    with ne have gt: "k0 < k" by simp
    then have "k0 + length d0 \<le> k" using 2(4) [of k0 d0] by simp
    with gt 2 show ?thesis by (auto split: prod.splits)
  qed
qed

text \<open>Removing the first block of the list.\<close>

lemma bt_remove_head: "bt_inv ((k, d) # m) \<Longrightarrow> bt_remove k ((k, d) # m) = m"
proof -
  assume inv: "bt_inv ((k, d) # m)"
  then have "\<forall>x \<in> set m. fst x \<noteq> k" by (auto simp: bt_inv_Cons)
  then show ?thesis by (auto simp: bt_remove_def intro!: filter_True)
qed

text \<open>
  A list of delivered blocks is contiguous from \<open>a\<close> to \<open>e\<close>: each starts where the previous one
  ended.
\<close>

fun contiguous :: "nat \<Rightarrow> (nat \<times> bytes) list \<Rightarrow> nat \<Rightarrow> bool" where
  "contiguous a [] e = (a = e)"
| "contiguous a ((k, d) # ds) e = (k = a \<and> contiguous (a + length d) ds e)"

lemma contiguous_bytes: "contiguous a ds e \<Longrightarrow> e = a + block_bytes ds"
  by (induction a ds e rule: contiguous.induct) auto

text \<open>
  The draining loop on a spaced list at or above \<open>nxt\<close>: it splits the list into a contiguous front,
  delivered, and the rest, which starts strictly above the new \<open>next\<close>.
\<close>

lemma drain_correct:
  assumes "spaced m" "\<forall>(k, d) \<in> set m. nxt \<le> k" "buf = block_bytes m"
    and "drain nxt m buf = ((nxt', m', buf'), ds)"
  shows "m = ds @ m' \<and> contiguous nxt ds nxt' \<and> spaced m' \<and> buf' = block_bytes m'
         \<and> (\<forall>(k, d) \<in> set m'. nxt' < k)"
  using assms
proof (induction m arbitrary: nxt buf ds)
  case Nil
  then show ?case by (simp add: drain.simps)
next
  case (Cons kd m)
  obtain k d where kd: "kd = (k, d)" by fastforce
  have sp: "spaced ((k, d) # m)" using Cons.prems kd by simp
  show ?case
  proof (cases "k = nxt")
    case True
    have rm: "bt_remove nxt ((k, d) # m) = m"
      using bt_remove_head [OF spaced_bt_inv [OF sp]] True by simp
    obtain st ds' where rec: "drain (nxt + length d) m (buf - length d) = (st, ds')" by fastforce
    have "drain nxt ((k, d) # m) buf = (st, (nxt, d) # ds')"
      by (subst drain.simps) (use True rm rec in simp)
    with Cons.prems kd have st: "st = (nxt', m', buf')" and ds: "ds = (nxt, d) # ds'" by auto
    have above: "\<forall>(k', d') \<in> set m. nxt + length d \<le> k'" using sp True by auto
    from Cons.IH [OF _ above _ rec [unfolded st]] Cons.prems kd sp True
    show ?thesis unfolding ds by auto
  next
    case False
    have below: "nxt < k" using False Cons.prems kd by auto
    have none: "map_of ((k, d) # m) nxt = None"
    proof -
      have "nxt \<notin> fst ` set ((k, d) # m)"
      proof
        assume "nxt \<in> fst ` set ((k, d) # m)"
        then obtain d' where "(nxt, d') \<in> set ((k, d) # m)" by (auto simp del: set_simps)
        with below sp show False by fastforce
      qed
      then show ?thesis by (simp add: map_of_eq_None_iff)
    qed
    have "drain nxt ((k, d) # m) buf = ((nxt, (k, d) # m, buf), [])"
      by (subst drain.simps) (simp only: none option.case)
    with Cons.prems kd below sp show ?thesis by fastforce
  qed
qed

text \<open>The two range queries on a sorted map.\<close>

lemma block_at_or_before_None:
  "block_at_or_before m off = None \<longleftrightarrow> (\<forall>(k, d) \<in> set m. off < k)"
proof -
  have "block_at_or_before m off = None \<longleftrightarrow> filter (\<lambda>(k, d). k \<le> off) m = []"
    by (simp add: block_at_or_before_def split: list.split)
  then show ?thesis by (auto simp: filter_empty_conv)
qed

lemma block_at_or_before_Some:
  assumes "bt_inv m" "block_at_or_before m off = Some (k, d)"
  shows "(k, d) \<in> set m \<and> k \<le> off \<and> (\<forall>(k', d') \<in> set m. k' \<le> off \<longrightarrow> k' \<le> k)"
proof -
  let ?f = "filter (\<lambda>(k, d). k \<le> off) m"
  have ne: "?f \<noteq> []" and la: "last ?f = (k, d)"
    using assms(2) by (auto simp: block_at_or_before_def split: list.splits if_splits)
  have mem: "(k, d) \<in> set ?f" using last_in_set [OF ne] la by simp
  have "bt_inv ?f" using assms(1) by (rule bt_inv_filter)
  then have sw: "sorted_wrt (<) (map fst (butlast ?f @ [last ?f]))"
    using ne by (simp add: bt_inv_def)
  have "k' \<le> k" if "(k', d') \<in> set ?f" for k' d'
  proof -
    have "(k', d') \<in> set (butlast ?f @ [last ?f])" using that ne by simp
    with sw la show ?thesis by (auto simp: sorted_wrt_append)
  qed
  with mem show ?thesis by auto
qed

lemma block_at_or_after_None:
  "block_at_or_after m off = None \<longleftrightarrow> (\<forall>(k, d) \<in> set m. k < off)"
proof -
  have "block_at_or_after m off = None \<longleftrightarrow> filter (\<lambda>(k, d). off \<le> k) m = []"
    by (simp add: block_at_or_after_def split: list.split)
  then show ?thesis by (auto simp: filter_empty_conv)
qed

lemma block_at_or_after_Some:
  assumes "bt_inv m" "block_at_or_after m off = Some (k, d)"
  shows "(k, d) \<in> set m \<and> off \<le> k \<and> (\<forall>(k', d') \<in> set m. off \<le> k' \<longrightarrow> k \<le> k')"
proof -
  let ?f = "filter (\<lambda>(k, d). off \<le> k) m"
  obtain xs where f: "?f = (k, d) # xs"
    using assms(2) by (auto simp: block_at_or_after_def split: list.splits)
  have "bt_inv ?f" using assms(1) by (rule bt_inv_filter)
  then have "k \<le> k'" if "(k', d') \<in> set ?f" for k' d'
    using that unfolding f by (auto simp: bt_inv_Cons less_imp_le)
  moreover have "(k, d) \<in> set ?f" by (simp add: f)
  ultimately show ?thesis by auto
qed

section \<open>Reorder buffer: what an insertion does\<close>

text \<open>
  The block occupies free space: it starts at or above \<open>next\<close> within the look-ahead, and overlaps
  no pending block.
\<close>

definition fits :: "ReorderBuffer \<Rightarrow> nat \<Rightarrow> bytes \<Rightarrow> bool" where
  "fits b off d \<longleftrightarrow>
     d \<noteq> [] \<and> off + length d \<le> u64_max \<and> rb_next b \<le> off \<and> off \<le> rb_next b + look_ahead_bytes b
   \<and> (\<forall>(k, pd) \<in> set (pending b). k + length pd \<le> off \<or> off + length d \<le> k)"

lemma overlap_check_dup: "bt_inv m \<Longrightarrow> overlap_check m off d = Inr False \<Longrightarrow> (off, d) \<in> set m"
  by (auto simp: overlap_check_def Let_def split: option.splits if_splits
      dest: block_at_or_before_Some)

lemma overlap_check_before:
  "overlap_check m off d = Inr True \<Longrightarrow> block_at_or_before m off = Some (k, pd) \<Longrightarrow> k + length pd \<le> off"
  by (auto simp: overlap_check_def Let_def split: if_splits)

lemma overlap_check_after:
  "overlap_check m off d = Inr True \<Longrightarrow> block_at_or_after m off = Some (k, pd) \<Longrightarrow> off + length d \<le> k"
  by (auto simp: overlap_check_def Let_def split: option.splits if_splits)

lemma overlap_check_free:
  assumes sp: "spaced m" and ok: "overlap_check m off d = Inr True" and m: "(k, pd) \<in> set m"
  shows "k + length pd \<le> off \<or> off + length d \<le> k"
proof (cases "k \<le> off")
  case True
  then obtain k0 d0 where bf: "block_at_or_before m off = Some (k0, d0)"
    using m by (cases "block_at_or_before m off") (auto simp: block_at_or_before_None)
  from block_at_or_before_Some [OF spaced_bt_inv [OF sp] bf] m True
  have k0: "(k0, d0) \<in> set m" "k \<le> k0" by auto
  have "k + length pd \<le> k0 + length d0"
    using spaced_disjoint [OF sp m k0(1)] spaced_same [OF sp m, of d0] k0 by (cases "k = k0") auto
  with overlap_check_before [OF ok bf] show ?thesis by simp
next
  case False
  then obtain k0 d0 where af: "block_at_or_after m off = Some (k0, d0)"
    using m by (cases "block_at_or_after m off") (auto simp: block_at_or_after_None)
  from block_at_or_after_Some [OF spaced_bt_inv [OF sp] af] m False have "k0 \<le> k" by auto
  with overlap_check_after [OF ok af] show ?thesis by simp
qed

text \<open>A success is a replay that changes nothing, or a stored block followed by a drain.\<close>

lemma insert_offsets_cases:
  assumes inv: "rb_inv b" and ok: "insert_offsets b off d = Inr (b', ds)"
  obtains (unchanged) "b' = b" "ds = []"
      "d = [] \<or> off + length d \<le> rb_next b \<or> (off, d) \<in> set (pending b)"
  | (stored) nxt m buf where "fits b off d" "buffered b + length d \<le> limit_bytes b"
      "off = rb_next b \<or> length (pending b) < limit_blocks b"
      "drain (rb_next b) (bt_insert off d (pending b)) (buffered b + length d) = ((nxt, m, buf), ds)"
      "b' = b\<lparr>rb_next := nxt, pending := m, buffered := buf\<rparr>"
proof (cases "d = [] \<or> off + length d \<le> rb_next b")
  case True
  with ok show thesis
    by (intro unchanged) (auto simp: insert_offsets_def result_simps split: if_splits)
next
  case False
  have sp: "spaced (pending b)" using inv by (simp add: rb_inv_def)
  from ok False obtain fresh where oc: "overlap_check (pending b) off d = Inr fresh"
    by (auto simp: insert_offsets_def result_simps Let_def split: if_splits)
  show thesis
  proof (cases fresh)
    case False
    with oc overlap_check_dup [OF spaced_bt_inv [OF sp]] have "(off, d) \<in> set (pending b)" by simp
    with ok False oc \<open>\<not> (d = [] \<or> _)\<close> show thesis
      by (intro unchanged) (auto simp: insert_offsets_def result_simps Let_def split: if_splits)
  next
    case True
    obtain nxt m buf ds' where dr:
      "drain (rb_next b) (bt_insert off d (pending b)) (buffered b + length d) = ((nxt, m, buf), ds')"
      by (metis surj_pair)
    have "fits b off d"
      using ok False True oc overlap_check_free [OF sp]
      by (fastforce simp: fits_def insert_offsets_def result_simps Let_def split: if_splits)
    moreover have "buffered b + length d \<le> limit_bytes b
        \<and> (off = rb_next b \<or> length (pending b) < limit_blocks b)
        \<and> ds = ds' \<and> b' = b\<lparr>rb_next := nxt, pending := m, buffered := buf\<rparr>"
      using ok False True oc dr
      by (auto simp: insert_offsets_def result_simps Let_def split: if_splits)
    ultimately show thesis using dr by (intro stored) auto
  qed
qed

text \<open>The stored case: the invariant holds again, and the delivered blocks are contiguous.\<close>

lemma insert_stored:
  assumes inv: "rb_inv b" and fits: "fits b off d" and room: "buffered b + length d \<le> limit_bytes b"
    and slots: "off = rb_next b \<or> length (pending b) < limit_blocks b"
    and dr: "drain (rb_next b) (bt_insert off d (pending b)) (buffered b + length d) = ((nxt, m, buf), ds)"
  shows "bt_insert off d (pending b) = ds @ m" "contiguous (rb_next b) ds nxt"
    "rb_inv (b\<lparr>rb_next := nxt, pending := m, buffered := buf\<rparr>)"
    "set ds \<union> set m = insert (off, d) (set (pending b))"
    "off = rb_next b \<Longrightarrow> ds \<noteq> []"
proof -
  have sp: "spaced (pending b)" using inv by (simp add: rb_inv_def)
  have ins: "spaced (bt_insert off d (pending b))
      \<and> set (bt_insert off d (pending b)) = insert (off, d) (set (pending b))
      \<and> block_bytes (bt_insert off d (pending b)) = length d + block_bytes (pending b)
      \<and> length (bt_insert off d (pending b)) = Suc (length (pending b))"
  proof (rule spaced_insert [OF sp])
    show "d \<noteq> []" using fits by (simp add: fits_def)
    show "k' + length d' \<le> off" if "(k', d') \<in> set (pending b)" "k' < off" for k' d'
      using fits that by (fastforce simp: fits_def)
    show "off + length d \<le> k'" if "(k', d') \<in> set (pending b)" "off \<le> k'" for k' d'
    proof -
      have "0 < length d'" using spaced_nonempty [OF sp that(1)] by simp
      moreover have "k' + length d' \<le> off \<or> off + length d \<le> k'"
        using fits that(1) by (auto simp: fits_def)
      ultimately show ?thesis using that(2) by linarith
    qed
  qed
  have above: "\<forall>(k, d) \<in> set (bt_insert off d (pending b)). rb_next b \<le> k"
    using ins fits inv by (auto simp: fits_def rb_inv_def)
  have bb: "buffered b + length d = block_bytes (bt_insert off d (pending b))"
    using ins inv by (simp add: rb_inv_def)
  from drain_correct [OF conjunct1 [OF ins] above bb dr]
  show split: "bt_insert off d (pending b) = ds @ m" and ct: "contiguous (rb_next b) ds nxt"
    by simp_all
  from drain_correct [OF conjunct1 [OF ins] above bb dr]
  have m: "spaced m" "buf = block_bytes m" "\<forall>(k, d) \<in> set m. nxt < k" by simp_all
  show sets: "set ds \<union> set m = insert (off, d) (set (pending b))"
    using ins split by auto
  have mono: "rb_next b \<le> nxt" using contiguous_bytes [OF ct] by simp
  show dsne: "off = rb_next b \<Longrightarrow> ds \<noteq> []"
    using sets m(3) mono by (metis (no_types, lifting) UnE case_prodD empty_iff insertI1 leD list.set(1))
  have tot: "block_bytes ds + block_bytes m = buffered b + length d"
    using bb split by (simp add: block_bytes_def)
  have "length m \<le> limit_blocks b"
    using slots dsne ins split inv by (auto simp: rb_inv_def Suc_le_eq neq_Nil_conv)
  moreover have "nxt \<le> u64_max"
  proof (cases ds rule: rev_cases)
    case Nil
    with ct inv show ?thesis by (simp add: rb_inv_def)
  next
    case (snoc ds' kd)
    obtain k e where kd: "kd = (k, e)" by fastforce
    have last: "contiguous a (ds' @ [(k, e)]) nxt \<Longrightarrow> nxt = k + length e" for a
      by (induction ds' arbitrary: a) auto
    have "(k, e) \<in> insert (off, d) (set (pending b))" using sets snoc kd by auto
    then have "k + length e \<le> u64_max" using fits inv by (auto simp: fits_def rb_inv_def)
    with last ct snoc kd show ?thesis by simp
  qed
  moreover have "k \<le> nxt + look_ahead_bytes b \<and> k + length e \<le> u64_max" if "(k, e) \<in> set m" for k e
  proof -
    from that sets have "(k, e) = (off, d) \<or> (k, e) \<in> set (pending b)" by blast
    then have "k \<le> rb_next b + look_ahead_bytes b \<and> k + length e \<le> u64_max"
      using fits inv by (auto simp: fits_def rb_inv_def)
    with mono show ?thesis by simp
  qed
  ultimately show "rb_inv (b\<lparr>rb_next := nxt, pending := m, buffered := buf\<rparr>)"
    using m tot room by (auto simp: rb_inv_def)
qed

text \<open>One successful insertion, whichever branch it took.\<close>

lemma insert_offsets_step:
  assumes inv: "rb_inv b" and ok: "insert_offsets b off d = Inr (b', ds)"
  shows "rb_inv b'" "contiguous (rb_next b) ds (rb_next b')"
    "set ds \<union> set (pending b') \<subseteq> insert (off, d) (set (pending b))"
proof -
  have "rb_inv b' \<and> contiguous (rb_next b) ds (rb_next b')
      \<and> set ds \<union> set (pending b') \<subseteq> insert (off, d) (set (pending b))"
    using inv ok
  proof (cases rule: insert_offsets_cases)
    case unchanged
    with inv show ?thesis by auto
  next
    case (stored nxt m buf)
    from insert_stored [OF inv stored(1-4)] stored(5) show ?thesis by simp
  qed
  then show "rb_inv b'" "contiguous (rb_next b) ds (rb_next b')"
    "set ds \<union> set (pending b') \<subseteq> insert (off, d) (set (pending b))" by simp_all
qed

section \<open>Reorder buffer: the stream it delivers\<close>

text \<open>A block of the sender's stream \<open>S\<close>: its bytes are those of \<open>S\<close> at its offset.\<close>

definition agrees :: "(nat \<Rightarrow> u8) \<Rightarrow> nat \<times> bytes \<Rightarrow> bool" where
  "agrees S kd \<longleftrightarrow> snd kd = map S [fst kd..<fst kd + length (snd kd)]"

lemma contiguous_agrees:
  "contiguous a ds e \<Longrightarrow> \<forall>kd \<in> set ds. agrees S kd \<Longrightarrow> concat (map snd ds) = map S [a..<e]"
proof (induction a ds e rule: contiguous.induct)
  case (2 a k d ds e)
  then have le: "a + length d \<le> e" using contiguous_bytes [of "a + length d" ds e] by simp
  from 2 have "d = map S [a..<a + length d]" by (simp add: agrees_def)
  moreover have "concat (map snd ds) = map S [a + length d..<e]" using 2 by simp
  ultimately show ?case
    using upt_add_eq_append [of a "a + length d" "e - (a + length d)"] le
    by (metis (no_types, lifting) concat.simps(2) le_add1 le_add_diff_inverse list.simps(9) map_append snd_conv)
qed simp

text \<open>Offering a sequence of blocks; a refused block leaves the buffer as it was.\<close>

fun rb_run :: "ReorderBuffer \<Rightarrow> (nat \<times> bytes) list \<Rightarrow> ReorderBuffer \<times> bytes" where
  "rb_run b [] = (b, [])"
| "rb_run b ((off, d) # xs) =
     (case insert_offsets b off d of
        Inl e \<Rightarrow> rb_run b xs
      | Inr (b', ds) \<Rightarrow> (let (b'', out) = rb_run b' xs in (b'', concat (map snd ds) @ out)))"

lemma rb_run_correct:
  assumes "rb_inv b" "\<forall>kd \<in> set (pending b). agrees S kd" "\<forall>kd \<in> set xs. agrees S kd"
  shows "rb_inv (fst (rb_run b xs)) \<and> rb_next b \<le> rb_next (fst (rb_run b xs))
         \<and> snd (rb_run b xs) = map S [rb_next b..<rb_next (fst (rb_run b xs))]"
  using assms
proof (induction b xs rule: rb_run.induct)
  case (1 b)
  then show ?case by simp
next
  case (2 b off d xs)
  show ?case
  proof (cases "insert_offsets b off d")
    case (Inl e)
    with 2 show ?thesis by simp
  next
    case (Inr bd)
    obtain b' ds where bd: "bd = (b', ds)" by fastforce
    note st = insert_offsets_step [OF 2(3) Inr [unfolded bd]]
    have agr: "\<forall>kd \<in> set (pending b'). agrees S kd" "\<forall>kd \<in> set ds. agrees S kd"
      using st(3) 2(4,5) by auto
    have IH: "rb_inv (fst (rb_run b' xs)) \<and> rb_next b' \<le> rb_next (fst (rb_run b' xs))
         \<and> snd (rb_run b' xs) = map S [rb_next b'..<rb_next (fst (rb_run b' xs))]"
      using 2(2) [OF Inr bd [symmetric]] st(1) agr(1) 2(5) bd by auto
    have mono: "rb_next b \<le> rb_next b'" using contiguous_bytes [OF st(2)] by simp
    have "map S [rb_next b..<rb_next (fst (rb_run b' xs))]
        = concat (map snd ds) @ snd (rb_run b' xs)"
      using contiguous_agrees [OF st(2) agr(2)] IH mono
      by (metis le_add_diff_inverse map_append upt_add_eq_append)
    with IH mono Inr bd show ?thesis by (simp add: split_beta)
  qed
qed

lemma rb_inv_with_limit: "s \<le> u64_max \<Longrightarrow> rb_inv (rb_with_limit s n)"
  by (simp add: rb_inv_def rb_with_limit_def)

lemma rb_inv_new: "s \<le> u64_max \<Longrightarrow> rb_inv (rb_new s)"
  by (simp add: rb_new_def rb_inv_with_limit)

section \<open>Credit: invariant\<close>

definition credit_inv :: "CreditAccount \<Rightarrow> bool" where
  "credit_inv c \<longleftrightarrow> consumed c \<le> received c \<and> received c \<le> limit c
     \<and> limit c \<le> sat_add (consumed c) (window c)"

lemma credit_inv_new: "i \<le> u64_max \<Longrightarrow> credit_inv (credit_new i w)"
  by (simp add: credit_inv_def credit_new_def sat_add_def)

lemma record_received_inv: "credit_inv c \<Longrightarrow> record_received c off len = Inr c' \<Longrightarrow> credit_inv c'"
  by (auto simp: credit_inv_def record_received_def result_simps split: if_splits)

lemma credit_consume_inv: "credit_inv c \<Longrightarrow> credit_consume c n = Inr (c', g) \<Longrightarrow> credit_inv c'"
  by (auto simp: credit_inv_def credit_consume_def sat_add_def result_simps Let_def split: if_splits)

lemma credit_consume_effect:
  "credit_inv c \<Longrightarrow> credit_consume c n = Inr (c', g) \<Longrightarrow>
   consumed c' = consumed c + n \<and> received c' = received c \<and> window c' = window c
   \<and> limit c' = limit c + g \<and> limit c' = sat_add (consumed c') (window c)"
  by (auto simp: credit_inv_def credit_consume_def sat_add_def result_simps Let_def split: if_splits)

text \<open>The calls on an account; a refused call leaves it as it was.\<close>

datatype credit_op = OpReceive nat nat | OpConsume nat

fun credit_step :: "CreditAccount \<Rightarrow> credit_op \<Rightarrow> CreditAccount" where
  "credit_step c (OpReceive off len) = (case record_received c off len of Inl e \<Rightarrow> c | Inr c' \<Rightarrow> c')"
| "credit_step c (OpConsume n) = (case credit_consume c n of Inl e \<Rightarrow> c | Inr (c', g) \<Rightarrow> c')"

lemma credit_step_inv: "credit_inv c \<Longrightarrow> credit_inv (credit_step c op)"
  by (cases op) (auto split: sum.splits intro: record_received_inv credit_consume_inv)

lemma credit_run_inv: "credit_inv c \<Longrightarrow> credit_inv (foldl credit_step c ops)"
  by (induction ops arbitrary: c) (auto intro: credit_step_inv)

lemma credit_step_window: "window (credit_step c op) = window c"
  by (cases op)
    (auto simp: record_received_def credit_consume_def result_simps Let_def
      split: sum.splits if_splits)

lemma credit_run_window: "window (foldl credit_step c ops) = window c"
  by (induction ops arbitrary: c) (auto simp: credit_step_window)


lemma credit_step_limit: "credit_inv c \<Longrightarrow> limit c \<le> limit (credit_step c op)"
proof (cases op)
  case (OpReceive off len)
  then show ?thesis
    by (auto simp: record_received_def result_simps split: sum.splits if_splits)
next
  case (OpConsume n)
  assume "credit_inv c"
  with OpConsume credit_consume_effect show ?thesis by (fastforce split: sum.splits)
qed

lemma credit_run_mono:
  "credit_inv c \<Longrightarrow> window (foldl credit_step c ops) = window c \<and> limit c \<le> limit (foldl credit_step c ops)"
proof (induction ops arbitrary: c)
  case (Cons op ops)
  from Cons.IH [OF credit_step_inv [OF Cons.prems]] credit_step_limit [OF Cons.prems]
  show ?case by (simp add: credit_step_window) (meson order_trans)
qed simp

section \<open>Reorder buffer: budgets and progress\<close>

lemma insert_offsets_limits:
  "insert_offsets b off d = Inr (b', ds) \<Longrightarrow>
   limit_bytes b' = limit_bytes b \<and> limit_blocks b' = limit_blocks b
   \<and> look_ahead_bytes b' = look_ahead_bytes b"
  by (auto simp: insert_offsets_def result_simps Let_def split: if_splits prod.splits)

lemma rb_run_limits:
  "limit_bytes (fst (rb_run b xs)) = limit_bytes b \<and> limit_blocks (fst (rb_run b xs)) = limit_blocks b
   \<and> look_ahead_bytes (fst (rb_run b xs)) = look_ahead_bytes b"
  by (induction b xs rule: rb_run.induct)
    (auto simp: split_beta split: sum.splits dest!: insert_offsets_limits)

text \<open>Without any assumption on the contents, the invariant holds after every sequence.\<close>

lemma rb_run_inv: "rb_inv b \<Longrightarrow> rb_inv (fst (rb_run b xs))"
  by (induction b xs rule: rb_run.induct)
    (auto simp: split_beta split: sum.splits dest: insert_offsets_step)

text \<open>A full buffer accepts no further byte: every call leaves it as it is.\<close>

lemma full_buffer_unchanged:
  assumes inv: "rb_inv b" and full: "buffered b = limit_bytes b"
    and ok: "insert_offsets b off d = Inr (b', ds)"
  shows "b' = b \<and> ds = []"
  using inv ok
proof (cases rule: insert_offsets_cases)
  case (stored nxt m buf)
  then show ?thesis using full by (simp add: fits_def)
qed simp

lemma rb_run_full: "rb_inv b \<Longrightarrow> buffered b = limit_bytes b \<Longrightarrow> rb_run b xs = (b, [])"
proof (induction xs)
  case (Cons kd xs)
  then show ?case
    using full_buffer_unchanged [OF Cons.prems, of "fst kd" "snd kd"]
    by (cases kd) (auto split: sum.splits)
qed simp

text \<open>Evaluation on concrete blocks.\<close>

lemmas stream_eval = insert_offsets_def overlap_check_def block_at_or_before_def
  block_at_or_after_def drain.simps rb_new_def rb_with_limit_def bt_remove_def Let_def
  checked_add_def limit_defs u64_max_def

section \<open>Properties\<close>

text \<open>C17: Whatever blocks of a byte stream \<open>S\<close> arrive, in any order, with any repetition, split at
  any boundaries, and whether or not some of them are refused, the bytes handed to the application are
  exactly the bytes of \<open>S\<close> from the start offset up to the current \<open>next\<close>: in order, none lost, none
  delivered twice.\<close>

theorem reorder_delivers_the_stream:
  assumes "start \<le> u64_max" and "\<forall>kd \<in> set blocks. agrees S kd"
  shows "snd (rb_run (rb_new start) blocks)
       = map S [start..<rb_next (fst (rb_run (rb_new start) blocks))]"
  using rb_run_correct [OF rb_inv_new [OF assms(1)], of S blocks] assms(2)
  by (simp add: rb_new_def rb_with_limit_def)

text \<open>Blocks 2, 0, 0 again and 1 of a stream: six bytes come out, in order.\<close>

theorem reorder_delivers_the_stream_witness:
  "snd (rb_run (rb_new 0) [(4, [4, 5]), (0, [0, 1]), (0, [0, 1]), (2, [2, 3])])
   = map (word_of_nat :: nat \<Rightarrow> u8) [0..<rb_next (fst (rb_run (rb_new 0)
        [(4, [4, 5]), (0, [0, 1]), (0, [0, 1]), (2, [2, 3])]))]
   \<and> rb_next (fst (rb_run (rb_new 0) [(4, [4, 5 :: u8]), (0, [0, 1]), (0, [0, 1]), (2, [2, 3])])) = 6"
proof (rule conjI)
  show "snd (rb_run (rb_new 0) [(4, [4, 5]), (0, [0, 1]), (0, [0, 1]), (2, [2, 3])])
   = map (word_of_nat :: nat \<Rightarrow> u8) [0..<rb_next (fst (rb_run (rb_new 0)
        [(4, [4, 5]), (0, [0, 1]), (0, [0, 1]), (2, [2, 3])]))]"
    by (rule reorder_delivers_the_stream) (simp_all add: agrees_def upt_conv_Cons)
  show "rb_next (fst (rb_run (rb_new 0) [(4, [4, 5 :: u8]), (0, [0, 1]), (0, [0, 1]), (2, [2, 3])])) = 6"
    by (simp add: stream_eval)
qed

text \<open>No sequence of blocks, however adversarial, makes the buffer hold more than 128 KiB of
  out-of-order bytes, more than the block budget, or a block further ahead than the per-direction
  total; and \<open>buffered\<close> is always the exact number of bytes held.\<close>

theorem reorder_budgets_hold:
  assumes "start \<le> u64_max"
  shows "let b = fst (rb_run (rb_new start) blocks) in
     buffered b = block_bytes (pending b) \<and> buffered b \<le> REORDER_MAX_OUT_OF_ORDER_BYTES
   \<and> buffered_blocks b \<le> REORDER_MAX_BLOCKS
   \<and> (\<forall>(k, d) \<in> set (pending b). rb_next b < k \<and> k \<le> rb_next b + REORDER_BUFFER_BYTES)"
proof -
  let ?b = "fst (rb_run (rb_new start) blocks)"
  have "rb_inv ?b" by (rule rb_run_inv [OF rb_inv_new [OF assms]])
  moreover have "limit_bytes ?b \<le> REORDER_MAX_OUT_OF_ORDER_BYTES" "limit_blocks ?b = REORDER_MAX_BLOCKS"
    "look_ahead_bytes ?b = REORDER_BUFFER_BYTES"
    using rb_run_limits [of "rb_new start" blocks] by (simp_all add: rb_new_def rb_with_limit_def)
  ultimately show ?thesis by (auto simp: rb_inv_def buffered_blocks_def Let_def)
qed

theorem reorder_budgets_hold_witness:
  "let b = fst (rb_run (rb_new 0) [(4, [4, 5]), (9, [1])]) in
     buffered b = block_bytes (pending b) \<and> buffered b \<le> REORDER_MAX_OUT_OF_ORDER_BYTES
   \<and> buffered_blocks b \<le> REORDER_MAX_BLOCKS
   \<and> (\<forall>(k, d) \<in> set (pending b). rb_next b < k \<and> k \<le> rb_next b + REORDER_BUFFER_BYTES)"
  by (rule reorder_budgets_hold) simp

text \<open>A block that starts at \<open>next\<close>, overlaps no pending block and fits the byte budget is
  delivered by the call that offers it, even when the block budget is used up.\<close>

theorem reorder_in_order_block_delivered:
  assumes inv: "rb_inv b" and new: "d \<noteq> []" "rb_next b + length d \<le> u64_max"
    and free: "\<forall>(k, pd) \<in> set (pending b). rb_next b + length d \<le> k"
    and room: "buffered b + length d \<le> limit_bytes b"
  shows "\<exists>b' ds. insert_offsets b (rb_next b) d = Inr (b', (rb_next b, d) # ds)
           \<and> rb_next b + length d \<le> rb_next b'"
proof -
  have bef: "block_at_or_before (pending b) (rb_next b) = None"
    unfolding block_at_or_before_None using inv by (auto simp: rb_inv_def)
  have aft: "overlap_check (pending b) (rb_next b) d = Inr True"
  proof (cases "block_at_or_after (pending b) (rb_next b)")
    case None
    then show ?thesis by (simp add: overlap_check_def bef)
  next
    case (Some kd)
    obtain k pd where kd: "kd = (k, pd)" by fastforce
    have "bt_inv (pending b)" using inv by (simp add: rb_inv_def spaced_bt_inv)
    from block_at_or_after_Some [OF this Some [unfolded kd]] free
    have "rb_next b + length d \<le> k" by auto
    with Some kd show ?thesis by (simp add: overlap_check_def bef)
  qed
  obtain nxt m buf ds where dr: "drain (rb_next b) (bt_insert (rb_next b) d (pending b))
      (buffered b + length d) = ((nxt, m, buf), ds)" by (metis surj_pair)
  have ok: "insert_offsets b (rb_next b) d
      = Inr (b\<lparr>rb_next := nxt, pending := m, buffered := buf\<rparr>, ds)"
    using new room aft dr by (simp add: insert_offsets_def Let_def checked_add_def)
  have fits: "fits b (rb_next b) d" using new free by (auto simp: fits_def)
  have "rb_next b = rb_next b \<or> length (pending b) < limit_blocks b" by simp
  note st = insert_stored [OF inv fits room this dr]
  from st(5) st(2) obtain e ds' where ds: "ds = (rb_next b, e) # ds'"
    by (cases ds) auto
  have "(rb_next b, e) \<in> insert (rb_next b, d) (set (pending b))" using st(4) ds by auto
  moreover have "(rb_next b, e) \<notin> set (pending b)" using inv by (auto simp: rb_inv_def)
  ultimately have "e = d" by simp
  with ok ds st(2) contiguous_bytes [of "rb_next b + length d" ds' nxt] show ?thesis by auto
qed

theorem reorder_in_order_block_delivered_witness:
  "\<exists>b' ds. insert_offsets (rb_with_block_limit (rb_new 7) 0) 7 [1, 2] = Inr (b', (7, [1, 2]) # ds)
           \<and> 7 + 2 \<le> rb_next b'"
proof -
  let ?b = "rb_with_block_limit (rb_new 7) 0"
  have nx: "rb_next ?b = 7" "pending ?b = []" "buffered ?b = 0" "limit_bytes ?b = 131072"
    by (simp_all add: rb_with_block_limit_def rb_new_def rb_with_limit_def limit_defs)
  have "rb_inv ?b" using nx by (simp add: rb_inv_def u64_max_def)
  from reorder_in_order_block_delivered [OF this, of "[1, 2]"] nx
  show ?thesis by (simp add: u64_max_def)
qed

text \<open>Once the out-of-order bytes reach the byte budget exactly, the buffer is stuck: the byte
  budget is applied to the block at \<open>next\<close> as well, so no block at all, not even the one that would
  close the gap, is accepted or delivered any more, whatever is offered.\<close>

theorem reorder_full_buffer_is_stuck:
  assumes "rb_inv b" "buffered b = limit_bytes b"
  shows "rb_run b blocks = (b, [])"
  using assms by (rule rb_run_full)

text \<open>A buffer with a budget of four bytes that holds the four bytes after a one-byte gap: the missing
  byte is refused.\<close>

theorem reorder_full_buffer_is_stuck_witness:
  "\<exists>b. insert_offsets (rb_with_limit 0 4) 1 [1, 2, 3, 4] = Inr (b, [])
     \<and> rb_run b [(0, [0])] = (b, []) \<and> insert_offsets b 0 [0] = Inl (ReorderOverflow 5 4)"
proof -
  let ?b = "(rb_with_limit 0 4)\<lparr>pending := [(1, [1, 2, 3, 4])], buffered := 4\<rparr>"
  have "rb_inv ?b" "buffered ?b = limit_bytes ?b"
    by (simp_all add: rb_inv_def rb_with_limit_def limit_defs u64_max_def)
  note run = reorder_full_buffer_is_stuck [OF this, of "[(0, [0])]"]
  moreover have "insert_offsets (rb_with_limit 0 4) 1 [1, 2, 3, 4] = Inr (?b, [])"
    "insert_offsets ?b 0 [0] = Inl (ReorderOverflow 5 4)"
    by (simp_all add: stream_eval)
  ultimately show ?thesis by blast
qed

text \<open>Under every sequence of arrivals and consumptions, the bytes received but not yet consumed
  and the credit granted but not yet used together never exceed the window, the granted limit never
  shrinks, and the peer never gets past it. Arrivals alone grant nothing.\<close>

theorem credit_never_overcommits:
  assumes "initial \<le> u64_max"
  shows "let c = foldl credit_step (credit_new initial w) ops in
      consumed c \<le> received c \<and> received c \<le> limit c \<and> initial \<le> limit c
    \<and> limit c \<le> consumed c + max (min w STREAM_MAX_CREDIT) initial
    \<and> limit (credit_step c (OpReceive off len)) = limit c"
proof -
  let ?c = "foldl credit_step (credit_new initial w) ops"
  have inv: "credit_inv (credit_new initial w)" using assms by (rule credit_inv_new)
  from credit_run_inv [OF inv] have "credit_inv ?c" .
  moreover from credit_run_mono [OF inv, of ops]
  have "window ?c = max (min w STREAM_MAX_CREDIT) initial" "initial \<le> limit ?c"
    by (simp_all add: credit_new_def)
  moreover have "limit (credit_step ?c (OpReceive off len)) = limit ?c"
    by (auto simp: record_received_def result_simps split: sum.splits if_splits)
  ultimately show ?thesis
    by (auto simp: credit_inv_def sat_add_def Let_def)
qed

theorem credit_never_overcommits_witness:
  "let c = foldl credit_step (credit_new 10 20) [OpReceive 0 6, OpConsume 4] in
      consumed c \<le> received c \<and> received c \<le> limit c \<and> 10 \<le> limit c
    \<and> limit c \<le> consumed c + max (min 20 STREAM_MAX_CREDIT) 10
    \<and> limit (credit_step c (OpReceive 6 1)) = limit c"
  by (rule credit_never_overcommits) (simp add: u64_max_def)

end
