(* ===== verification/Operation.thy ===== *)
theory Operation
  imports Budgets
begin

text \<open>
  \<open>crates/wsnet-operation/src/lib.rs\<close>: the per-session table that executes each \<open>request_id\<close> at most
  once, keeps the result of a settled operation for its retention window, and retires the identifier
  afterwards. SHA-256 is a parameter; the table itself only compares digests.
\<close>

section \<open>Data\<close>

type_synonym RequestId = bytes
type_synonym OperationHash = bytes

definition OperationHash_of :: "(bytes \<Rightarrow> bytes) \<Rightarrow> bytes \<Rightarrow> OperationHash" where
  "OperationHash_of sha256 canonical = sha256 canonical"

datatype Outcome = Complete bytes | Failed bytes

datatype OperationState = Pending | Settled Outcome

datatype Admit = Execute | AlreadyPending | Cached Outcome

datatype OperationError =
    Conflict | CapacityExceeded nat | SessionExhausted | Retired | Unknown | AlreadySettled

record OperationConfig =
  max_records :: nat
  open_timeout_ms :: nat
  result_retention_ms :: nat
  tombstone_max :: nat

definition OperationConfig_default :: OperationConfig where
  "OperationConfig_default =
     \<lparr>max_records = OPERATION_MAX_PENDING,
      open_timeout_ms = OPERATION_OPEN_TIMEOUT_SECS * 1000,
      result_retention_ms = OPERATION_RESULT_RETENTION_SECS * 1000,
      tombstone_max = OPERATION_TOMBSTONE_MAX\<rparr>"

record Slot =
  slot_hash :: OperationHash
  slot_state :: OperationState
  since_ms :: nat

text \<open>The \<open>BTreeSet\<close> of retired identifiers is a list without repetition.\<close>

record OperationTable =
  op_config :: OperationConfig
  slots :: "(RequestId \<times> Slot) list"
  retired :: "RequestId list"
  exhausted :: bool

section \<open>Operations\<close>

definition op_new :: "OperationConfig \<Rightarrow> OperationTable" where
  "op_new cfg = \<lparr>op_config = cfg, slots = [], retired = [], exhausted = False\<rparr>"

definition op_len :: "OperationTable \<Rightarrow> nat" where
  "op_len t = length (slots t)"

definition retired_len :: "OperationTable \<Rightarrow> nat" where
  "retired_len t = length (retired t)"

definition op_begin ::
    "OperationTable \<Rightarrow> RequestId \<Rightarrow> OperationHash \<Rightarrow> nat \<Rightarrow> OperationError + (OperationTable \<times> Admit)" where
  "op_begin t rid h now =
     (if exhausted t \<or> rid \<in> set (retired t) then Inl Retired
      else case map_of (slots t) rid of
        Some slot \<Rightarrow>
          if slot_hash slot \<noteq> h then Inl Conflict
          else (case slot_state slot of
                  Pending \<Rightarrow> Inr (t, AlreadyPending)
                | Settled outcome \<Rightarrow> Inr (t, Cached outcome))
      | None \<Rightarrow>
          if length (slots t) \<ge> max_records (op_config t)
          then Inl (CapacityExceeded (max_records (op_config t)))
          else Inr (t\<lparr>slots := bt_insert rid \<lparr>slot_hash = h, slot_state = Pending, since_ms = now\<rparr> (slots t)\<rparr>,
                    Execute))"

definition settle ::
    "OperationTable \<Rightarrow> RequestId \<Rightarrow> Outcome \<Rightarrow> nat \<Rightarrow> OperationError + OperationTable" where
  "settle t rid outcome now =
     rbind (ok_or Unknown (map_of (slots t) rid)) (\<lambda>slot.
       case slot_state slot of
         Settled _ \<Rightarrow> Inl AlreadySettled
       | Pending \<Rightarrow>
           Inr (t\<lparr>slots := bt_insert rid (slot\<lparr>slot_state := Settled outcome, since_ms := now\<rparr>) (slots t)\<rparr>))"

definition op_query :: "OperationTable \<Rightarrow> RequestId \<Rightarrow> OperationState option" where
  "op_query t rid = map_option slot_state (map_of (slots t) rid)"

definition is_retired :: "OperationTable \<Rightarrow> RequestId \<Rightarrow> bool" where
  "is_retired t rid \<longleftrightarrow> rid \<in> set (retired t)"

text \<open>\<open>tick\<close>: the two passes over the slots, then the loop over the expired identifiers.\<close>

definition times_out :: "OperationConfig \<Rightarrow> nat \<Rightarrow> Slot \<Rightarrow> bool" where
  "times_out cfg now slot \<longleftrightarrow> slot_state slot = Pending \<and> now - since_ms slot \<ge> open_timeout_ms cfg"

definition time_out :: "OperationConfig \<Rightarrow> nat \<Rightarrow> Slot \<Rightarrow> Slot" where
  "time_out cfg now slot =
     (if times_out cfg now slot
      then slot\<lparr>slot_state := Settled (Failed (as_bytes ''timeout'')), since_ms := now\<rparr>
      else slot)"

definition expires :: "OperationConfig \<Rightarrow> nat \<Rightarrow> Slot \<Rightarrow> bool" where
  "expires cfg now slot \<longleftrightarrow> slot_state slot \<noteq> Pending \<and> now - since_ms slot \<ge> result_retention_ms cfg"

definition retire_one :: "OperationTable \<times> nat \<Rightarrow> RequestId \<Rightarrow> OperationTable \<times> nat" where
  "retire_one tn rid =
     (let (t, n) = tn; t = t\<lparr>slots := bt_remove rid (slots t)\<rparr> in
      if length (retired t) \<ge> tombstone_max (op_config t) then (t\<lparr>exhausted := True\<rparr>, n)
      else (t\<lparr>retired := List.insert rid (retired t)\<rparr>, n + 1))"

definition op_tick :: "OperationTable \<Rightarrow> nat \<Rightarrow> OperationTable \<times> nat \<times> nat" where
  "op_tick t now =
     (let timed_out = length (filter (\<lambda>(rid, slot). times_out (op_config t) now slot) (slots t));
          t1 = t\<lparr>slots := map (\<lambda>(rid, slot). (rid, time_out (op_config t) now slot)) (slots t)\<rparr>;
          expired = map fst (filter (\<lambda>(rid, slot). expires (op_config t) now slot) (slots t1));
          (t2, retired_n) = foldl retire_one (t1, 0) expired
      in (t2, timed_out, retired_n))"

section \<open>Invariant\<close>

text \<open>The slots are a map within its budget, the tombstones are distinct, within theirs, and
  disjoint from the live identifiers.\<close>

definition op_inv :: "OperationTable \<Rightarrow> bool" where
  "op_inv t \<longleftrightarrow> bt_inv (slots t) \<and> length (slots t) \<le> max_records (op_config t)
     \<and> distinct (retired t) \<and> length (retired t) \<le> tombstone_max (op_config t)
     \<and> set (retired t) \<inter> fst ` set (slots t) = {}"

lemma op_inv_new: "op_inv (op_new cfg)"
  by (simp add: op_inv_def op_new_def)

lemma length_bt_insert_old: "bt_inv m \<Longrightarrow> map_of m k = Some v' \<Longrightarrow> length (bt_insert k v m) = length m"
  by (simp add: bt.len_insert_present)

lemma op_begin_inv:
  assumes inv: "op_inv t" and ok: "op_begin t rid h now = Inr (t', r)"
  shows "op_inv t'"
proof (cases "map_of (slots t) rid")
  case (Some slot)
  with inv ok show ?thesis by (auto simp: op_begin_def split: if_splits OperationState.splits)
next
  case None
  with ok have "rid \<notin> set (retired t)" "length (slots t) < max_records (op_config t)"
    and t': "t' = t\<lparr>slots := bt_insert rid \<lparr>slot_hash = h, slot_state = Pending, since_ms = now\<rparr> (slots t)\<rparr>"
    by (auto simp: op_begin_def split: if_splits)
  with inv None show ?thesis
    by (simp add: op_inv_def bt_inv_insert bt.len_insert_fresh set_bt_insert)
qed

lemma settle_Inr:
  "settle t rid outcome now = Inr t' \<longleftrightarrow>
   (\<exists>slot. map_of (slots t) rid = Some slot \<and> slot_state slot = Pending
     \<and> t' = t\<lparr>slots := bt_insert rid (slot\<lparr>slot_state := Settled outcome, since_ms := now\<rparr>) (slots t)\<rparr>)"
proof (cases "map_of (slots t) rid")
  case (Some slot)
  then show ?thesis by (cases "slot_state slot") (auto simp: settle_def)
qed (simp add: settle_def)

lemma settle_keys: "settle t rid outcome now = Inr t' \<Longrightarrow> fst ` set (slots t') = fst ` set (slots t)"
proof -
  assume "settle t rid outcome now = Inr t'"
  then obtain slot where "map_of (slots t) rid = Some slot"
    and t': "slots t' = bt_insert rid (slot\<lparr>slot_state := Settled outcome, since_ms := now\<rparr>) (slots t)"
    by (auto simp: settle_Inr)
  then have "rid \<in> fst ` set (slots t)" by (force dest: map_of_SomeD)
  with t' show ?thesis by (simp add: set_bt_insert insert_absorb)
qed

lemma settle_inv:
  assumes "op_inv t" "settle t rid outcome now = Inr t'"
  shows "op_inv t'"
proof -
  have "bt_inv (slots t') \<and> length (slots t') = length (slots t) \<and> retired t' = retired t
      \<and> op_config t' = op_config t"
    using assms by (auto simp: op_inv_def settle_Inr bt_inv_insert length_bt_insert_old)
  with assms(1) settle_keys [OF assms(2)] show ?thesis by (simp add: op_inv_def)
qed

lemma map_value_bt: "map fst (map (\<lambda>(k, v). (k, f v)) m) = map fst m"
  by (induction m) auto

lemma bt_inv_map_value: "bt_inv (map (\<lambda>(k, v). (k, f v)) m) = bt_inv m"
  unfolding bt_inv_def map_value_bt ..

lemma fst_map_value: "fst ` set (map (\<lambda>(k, v). (k, f v)) m) = fst ` set m"
  by (metis list.set_map map_value_bt)

lemma retire_one_config: "op_config (fst (retire_one tn rid)) = op_config (fst tn)"
  by (auto simp: retire_one_def Let_def split_beta)

lemma retire_one_inv: "op_inv (fst tn) \<Longrightarrow> op_inv (fst (retire_one tn rid))"
  by (auto simp: retire_one_def op_inv_def Let_def split_beta bt_remove_def bt_inv_filter List.insert_def
      intro: le_trans [OF length_filter_le])

text \<open>An identifier is spent when it can never be executed again.\<close>

definition op_spent :: "OperationTable \<Rightarrow> RequestId \<Rightarrow> bool" where
  "op_spent t rid \<longleftrightarrow> exhausted t \<or> rid \<in> set (retired t) \<or> rid \<in> fst ` set (slots t)"

lemma retire_one_spent: "op_spent (fst tn) i \<Longrightarrow> op_spent (fst (retire_one tn rid)) i"
  by (auto simp: retire_one_def op_spent_def Let_def split_beta bt_remove_def List.insert_def
      intro: rev_image_eqI)

lemma retire_all:
  "op_inv (fst tn) \<Longrightarrow> op_inv (fst (foldl retire_one tn ids))"
  "op_spent (fst tn) i \<Longrightarrow> op_spent (fst (foldl retire_one tn ids)) i"
  by (induction ids arbitrary: tn) (simp_all add: retire_one_inv retire_one_spent)

lemma op_tick_fst:
  "fst (op_tick t now) = fst (foldl retire_one
     (t\<lparr>slots := map (\<lambda>(rid, slot). (rid, time_out (op_config t) now slot)) (slots t)\<rparr>, 0)
     (map fst (filter (\<lambda>(rid, slot). expires (op_config t) now slot)
       (map (\<lambda>(rid, slot). (rid, time_out (op_config t) now slot)) (slots t)))))"
  by (simp add: op_tick_def Let_def split_beta)

lemma op_tick_inv: "op_inv t \<Longrightarrow> op_inv (fst (op_tick t now))"
  unfolding op_tick_fst
  by (rule retire_all) (simp add: op_inv_def bt_inv_map_value fst_map_value del: set_map)

lemma op_tick_spent: "op_spent t i \<Longrightarrow> op_spent (fst (op_tick t now)) i"
  unfolding op_tick_fst
  by (rule retire_all) (simp add: op_spent_def fst_map_value del: set_map)

section \<open>At most once\<close>

text \<open>The calls a session makes on its table; a refused call leaves it unchanged.\<close>

datatype op_call =
    CallBegin RequestId OperationHash nat
  | CallSettle RequestId Outcome nat
  | CallTick nat

fun op_call_step :: "OperationTable \<Rightarrow> op_call \<Rightarrow> OperationTable \<times> RequestId option" where
  "op_call_step t (CallBegin rid h now) =
     (case op_begin t rid h now of
        Inr (t', Execute) \<Rightarrow> (t', Some rid)
      | Inr (t', _) \<Rightarrow> (t', None)
      | Inl e \<Rightarrow> (t, None))"
| "op_call_step t (CallSettle rid outcome now) =
     (case settle t rid outcome now of Inr t' \<Rightarrow> (t', None) | Inl e \<Rightarrow> (t, None))"
| "op_call_step t (CallTick now) = (fst (op_tick t now), None)"

lemma op_begin_keys:
  "op_begin t rid h now = Inr (t', r) \<Longrightarrow>
   exhausted t' = exhausted t \<and> retired t' = retired t
   \<and> fst ` set (slots t') = (if r = Execute then {rid} else {}) \<union> fst ` set (slots t)"
  by (clarsimp simp: op_begin_def split: if_splits option.splits OperationState.splits)
    (simp add: set_bt_insert)

lemma op_begin_keeps: "op_begin t rid h now = Inr (t', r) \<Longrightarrow> op_spent t i \<Longrightarrow> op_spent t' i"
  using op_begin_keys [of t rid h now t' r] by (cases "r = Execute") (auto simp: op_spent_def)

lemma op_begin_executes:
  "op_begin t rid h now = Inr (t', Execute) \<Longrightarrow> \<not> op_spent t rid \<and> op_spent t' rid"
  using op_begin_keys [of t rid h now t' Execute]
  by (simp add: op_begin_def op_spent_def map_of_eq_None_iff
      split: if_splits option.splits OperationState.splits)

lemma settle_keeps: "settle t rid outcome now = Inr t' \<Longrightarrow> op_spent t i \<Longrightarrow> op_spent t' i"
  using settle_keys [of t rid outcome now t'] by (auto simp: op_spent_def settle_Inr)

lemma op_call_step_inv: "op_inv t \<Longrightarrow> op_inv (fst (op_call_step t c))"
  by (cases c)
    (auto simp: op_tick_inv split: sum.split Admit.split intro: op_begin_inv settle_inv)

interpretation ot: once_only op_call_step op_spent op_inv
proof unfold_locales
  show "op_inv (fst (op_call_step t c))" if "op_inv t" for t c
    using that by (rule op_call_step_inv)
  show "op_spent (fst (op_call_step t c)) i" if "op_spent t i" for t c i
    using that
    by (cases c)
      (auto simp: op_tick_spent split: sum.split Admit.split intro: op_begin_keeps settle_keeps)
  show "\<not> op_spent t i \<and> op_spent t' i" if "op_call_step t c = (t', Some i)" for t c t' i
    using that by (cases c) (auto split: sum.splits Admit.splits dest: op_begin_executes)
qed

lemma op_run_inv: "op_inv t \<Longrightarrow> op_inv (foldl (\<lambda>t c. fst (op_call_step t c)) t calls)"
  by (induction calls arbitrary: t) (auto intro: op_call_step_inv)

lemma op_call_step_config: "op_config (fst (op_call_step t c)) = op_config t"
proof (cases c)
  case (CallTick now)
  have "op_config (fst (foldl retire_one tn ids)) = op_config (fst tn)" for tn ids
    by (induction ids arbitrary: tn) (simp_all add: retire_one_config)
  with CallTick show ?thesis by (simp add: op_tick_fst)
qed (auto simp: op_begin_def settle_Inr
      split: sum.split Admit.split if_splits option.splits OperationState.splits)

lemma op_run_config: "op_config (foldl (\<lambda>t c. fst (op_call_step t c)) t calls) = op_config t"
  by (induction calls arbitrary: t) (auto simp: op_call_step_config)

text \<open>What \<open>tick\<close> leaves of one live slot: the slot timed out if due, unless its result expired.\<close>

lemma retire_all_slots:
  "bt_inv (slots (fst tn)) \<Longrightarrow>
   map_of (slots (fst (foldl retire_one tn ids))) rid
   = (if rid \<in> set ids then None else map_of (slots (fst tn)) rid)"
proof (induction ids arbitrary: tn)
  case (Cons a ids)
  have sl: "slots (fst (retire_one tn a)) = bt_remove a (slots (fst tn))"
    by (simp add: retire_one_def Let_def split_beta)
  with Cons.IH [of "retire_one tn a"] Cons.prems show ?case
    by (simp add: bt_remove_def bt_inv_filter map_of_bt_remove [unfolded bt_remove_def])
qed simp

lemma op_tick_slot:
  assumes inv: "op_inv t" and s: "map_of (slots t) rid = Some slot"
  shows "map_of (slots (fst (op_tick t now))) rid
       = (let s' = time_out (op_config t) now slot in if expires (op_config t) now s' then None else Some s')"
proof -
  let ?m = "map (\<lambda>(rid, slot). (rid, time_out (op_config t) now slot)) (slots t)"
  have bt: "bt_inv ?m" using inv by (simp add: bt_inv_map_value op_inv_def)
  have look: "map_of ?m rid = Some (time_out (op_config t) now slot)"
    using s by (simp add: map_of_map)
  then have mem: "(rid, s') \<in> set ?m \<longleftrightarrow> s' = time_out (op_config t) now slot" for s'
    using bt.set_conv_get [OF bt] by auto
  have "rid \<in> set (map fst (filter (\<lambda>(rid, slot). P slot) m)) \<longleftrightarrow> (\<exists>s'. (rid, s') \<in> set m \<and> P s')"
    for P and m :: "(RequestId \<times> Slot) list"
    by force
  then have "rid \<in> set (map fst (filter (\<lambda>(rid, slot). expires (op_config t) now slot) ?m))
      \<longleftrightarrow> expires (op_config t) now (time_out (op_config t) now slot)"
    by (simp only: mem) simp
  then show ?thesis
    unfolding op_tick_fst using look bt by (subst retire_all_slots) (simp_all add: Let_def)
qed

section \<open>Properties\<close>

text \<open>C14: Over any sequence of \<open>begin\<close>, \<open>settle\<close> and \<open>tick\<close> calls, with any identifiers and any
  clock readings, no \<open>request_id\<close> is told to execute twice, results expiring and the tombstone set
  overflowing included.\<close>

theorem operation_executes_at_most_once:
  "distinct (granted op_call_step (op_new cfg) calls)"
  by (rule ot.granted_distinct [OF op_inv_new])

text \<open>The table and its tombstones never grow past their budgets, and an identifier is never
  both live and retired, after any sequence of calls.\<close>

theorem operation_table_bounded:
  "let t = foldl (\<lambda>t c. fst (op_call_step t c)) (op_new cfg) calls in
     op_len t \<le> max_records cfg \<and> retired_len t \<le> tombstone_max cfg
   \<and> (\<forall>rid. \<not> (is_retired t rid \<and> op_query t rid \<noteq> None))"
proof -
  let ?t = "foldl (\<lambda>t c. fst (op_call_step t c)) (op_new cfg) calls"
  have inv: "op_inv ?t" by (rule op_run_inv [OF op_inv_new])
  have cfg: "op_config ?t = cfg" unfolding op_run_config by (simp add: op_new_def)
  have disj: "\<not> (is_retired ?t rid \<and> op_query ?t rid \<noteq> None)" for rid
  proof
    assume "is_retired ?t rid \<and> op_query ?t rid \<noteq> None"
    then have "rid \<in> set (retired ?t)" "rid \<in> fst ` set (slots ?t)"
      by (auto simp: is_retired_def op_query_def dest: map_of_SomeD intro: rev_image_eqI)
    with inv show False by (auto simp: op_inv_def)
  qed
  from inv cfg have "op_len ?t \<le> max_records cfg" "retired_len ?t \<le> tombstone_max cfg"
    by (simp_all add: op_inv_def op_len_def retired_len_def)
  with disj show ?thesis by (simp add: Let_def)
qed

text \<open>\<open>tick\<close> never drops a settled result whose retention has not passed: it stays queryable
  with the very outcome it settled with.\<close>

theorem operation_result_retained:
  assumes inv: "op_inv t" and live: "map_of (slots t) rid = Some slot"
    and fresh: "slot_state slot = Settled outcome" "now - since_ms slot < result_retention_ms (op_config t)"
  shows "op_query (fst (op_tick t now)) rid = Some (Settled outcome)"
  using op_tick_slot [OF inv live, of now] fresh
  by (auto simp: op_query_def time_out_def times_out_def expires_def Let_def)

theorem operation_result_retained_witness:
  "op_query (fst (op_tick (foldl (\<lambda>t c. fst (op_call_step t c)) (op_new OperationConfig_default)
      [CallBegin [1] [9] 0, CallSettle [1] (Complete [7]) 5]) 6)) [1] = Some (Settled (Complete [7]))"
proof -
  let ?t = "foldl (\<lambda>t c. fst (op_call_step t c)) (op_new OperationConfig_default)
      [CallBegin [1] [9] 0, CallSettle [1] (Complete [7]) 5]"
  have t: "map_of (slots ?t) [1] = Some \<lparr>slot_hash = [9], slot_state = Settled (Complete [7]), since_ms = 5\<rparr>"
    by (simp add: op_begin_def settle_def op_new_def OperationConfig_default_def limit_defs)
  have cfg: "op_config ?t = OperationConfig_default"
    unfolding op_run_config by (simp add: op_new_def)
  have "op_inv ?t" by (rule op_run_inv [OF op_inv_new])
  from operation_result_retained [OF this t, of "Complete [7]" 6] cfg
  show ?thesis by (simp add: OperationConfig_default_def limit_defs)
qed

end
