(* ===== verification/Nonce.thy ===== *)
theory Nonce
  imports Budgets "HOL-Library.Multiset"
begin

text \<open>
  \<open>crates/wsnet-auth-store/src/nonce.rs\<close>: the registry that accepts each authentication nonce once.
  The two hash maps are association lists; \<open>i64\<close> wall-clock seconds are \<open>int\<close> with the wrap-around
  of a release build written out, \<open>u64\<close> monotonic milliseconds are \<open>nat\<close>. A call returns the new
  store beside its result, because a refused registration changes the store too (it moves the
  highest wall time seen, ends a pause and purges).
\<close>

section \<open>Data\<close>

definition STORAGE_RECOVERY_MARGIN_SECS :: nat where "STORAGE_RECOVERY_MARGIN_SECS = 10"

record NonceKey =
  nk_hub_id :: string
  nk_key_id :: string
  nk_node_id :: string
  nk_nonce :: bytes

datatype CapacityScope = PerNode | Global

datatype AuthStoreError =
    WindowOutOfRange nat
  | TimestampOutOfWindow int int nat    \<comment> \<open>ts, now, window\<close>
  | Duplicate
  | CapacityExceeded CapacityScope
  | ClockRollback int int               \<comment> \<open>last, now\<close>
  | StorageUnavailable nat              \<comment> \<open>resume at\<close>

record NonceStoreConfig =
  window_secs :: nat
  per_node_max :: nat
  global_max :: nat
  rollback_tolerance_secs :: int

definition NonceStoreConfig_default :: NonceStoreConfig where
  "NonceStoreConfig_default =
     \<lparr>window_secs = AUTH_WINDOW_DEFAULT_SECS, per_node_max = AUTH_NONCE_PER_NODE_MAX,
      global_max = AUTH_NONCE_MEMORY_BUDGET div AUTH_NONCE_ENTRY_COST,
      rollback_tolerance_secs = 1\<rparr>"

definition nonce_config_validate :: "NonceStoreConfig \<Rightarrow> AuthStoreError + unit" where
  "nonce_config_validate cfg =
     (if window_secs cfg < AUTH_WINDOW_MIN_SECS \<or> window_secs cfg > AUTH_WINDOW_MAX_SECS
      then Inl (WindowOutOfRange (window_secs cfg)) else Inr ())"

record Entry =
  retain_until_ms :: nat
  last_acceptable_wall :: int

record NonceStore =
  ns_config :: NonceStoreConfig
  entries :: "(NonceKey \<times> Entry) list"
  per_node :: "((string \<times> string) \<times> nat) list"
  last_wall_secs :: "int option"
  paused_until_ms :: "nat option"

section \<open>Operations\<close>

definition nonce_new :: "NonceStoreConfig \<Rightarrow> AuthStoreError + NonceStore" where
  "nonce_new cfg =
     rbind (nonce_config_validate cfg) (\<lambda>_.
       Inr \<lparr>ns_config = cfg, entries = [], per_node = [], last_wall_secs = None, paused_until_ms = None\<rparr>)"

definition node_of :: "NonceKey \<Rightarrow> string \<times> string" where
  "node_of key = (nk_hub_id key, nk_node_id key)"

definition node_len :: "NonceStore \<Rightarrow> string \<Rightarrow> string \<Rightarrow> nat" where
  "node_len s hub_id node_id = (case map_of (per_node s) (hub_id, node_id) of Some n \<Rightarrow> n | None \<Rightarrow> 0)"

definition ns_contains :: "NonceStore \<Rightarrow> NonceKey \<Rightarrow> bool" where
  "ns_contains s key = (map_of (entries s) key \<noteq> None)"

definition timestamp_acceptable :: "NonceStore \<Rightarrow> int \<Rightarrow> int \<Rightarrow> bool" where
  "timestamp_acceptable s ts now_wall =
     (nat \<bar>wrap_i64 (ts - now_wall)\<bar> \<le> window_secs (ns_config s))"

text \<open>The closure of \<open>retain\<close> in \<open>purge_expired\<close>, on the per-node counters.\<close>

definition forget_node :: "((string \<times> string) \<times> nat) list \<Rightarrow> NonceKey \<Rightarrow> ((string \<times> string) \<times> nat) list" where
  "forget_node pn key =
     (let remaining = (case map_of pn (node_of key) of Some n \<Rightarrow> n | None \<Rightarrow> 0) - 1 in
      if remaining = 0 then hm_remove (node_of key) pn else hm_insert (node_of key) remaining pn)"

definition purge_expired :: "NonceStore \<Rightarrow> Now \<Rightarrow> NonceStore \<times> nat" where
  "purge_expired s now =
     (let gone = filter (\<lambda>(key, entry). retain_until_ms entry \<le> monotonic_ms now) (entries s);
          kept = filter (\<lambda>(key, entry). \<not> retain_until_ms entry \<le> monotonic_ms now) (entries s)
      in (s\<lparr>entries := kept, per_node := foldl forget_node (per_node s) (map fst gone)\<rparr>,
          length (entries s) - length kept))"

definition count_node :: "((string \<times> string) \<times> nat) list \<Rightarrow> NonceKey \<Rightarrow> ((string \<times> string) \<times> nat) list" where
  "count_node pn key =
     hm_insert (node_of key) ((case map_of pn (node_of key) of Some n \<Rightarrow> n | None \<Rightarrow> 0) + 1) pn"

text \<open>The tail of \<open>register\<close>, after the clock checks and the purge.\<close>

definition admit_nonce :: "NonceStore \<Rightarrow> NonceKey \<Rightarrow> int \<Rightarrow> Now \<Rightarrow> NonceStore \<times> (AuthStoreError + unit)" where
  "admit_nonce s key ts now =
     (if ns_contains s key then (s, Inl Duplicate)
      else if length (entries s) \<ge> global_max (ns_config s) then (s, Inl (CapacityExceeded Global))
      else if node_len s (nk_hub_id key) (nk_node_id key) \<ge> per_node_max (ns_config s)
      then (s, Inl (CapacityExceeded PerNode))
      else
        let law = clamp_i64 (ts + int (window_secs (ns_config s)));
            delta_secs = nat (max 0 (wrap_i64 (wrap_i64 (law + 1) - wall_secs now)));
            until = sat_add (monotonic_ms now) (sat_mul delta_secs 1000)
        in (s\<lparr>entries := hm_insert key \<lparr>retain_until_ms = until, last_acceptable_wall = law\<rparr> (entries s),
              per_node := count_node (per_node s) key\<rparr>, Inr ()))"

text \<open>The rollback check of \<open>register\<close>, with the update of the highest wall time seen.\<close>

definition observe_wall :: "NonceStore \<Rightarrow> Now \<Rightarrow> NonceStore \<times> (AuthStoreError + unit)" where
  "observe_wall s now =
     (case last_wall_secs s of
        Some prev \<Rightarrow>
          (s\<lparr>last_wall_secs := Some (max prev (wall_secs now))\<rparr>,
           if wall_secs now < wrap_i64 (prev - rollback_tolerance_secs (ns_config s))
           then Inl (ClockRollback prev (wall_secs now)) else Inr ())
      | None \<Rightarrow> (s\<lparr>last_wall_secs := Some (wall_secs now)\<rparr>, Inr ()))"

definition register :: "NonceStore \<Rightarrow> NonceKey \<Rightarrow> int \<Rightarrow> Now \<Rightarrow> NonceStore \<times> (AuthStoreError + unit)" where
  "register s key ts now =
     (if \<not> timestamp_acceptable s ts (wall_secs now)
      then (s, Inl (TimestampOutOfWindow ts (wall_secs now) (window_secs (ns_config s))))
      else case observe_wall s now of
        (s, Inl e) \<Rightarrow> (s, Inl e)
      | (s, Inr _) \<Rightarrow>
          (case paused_until_ms s of
             Some resume_at \<Rightarrow>
               if monotonic_ms now < resume_at then (s, Inl (StorageUnavailable resume_at))
               else admit_nonce (fst (purge_expired (s\<lparr>paused_until_ms := None\<rparr>) now)) key ts now
           | None \<Rightarrow> admit_nonce (fst (purge_expired s now)) key ts now))"

definition mark_storage_lost :: "NonceStore \<Rightarrow> Now \<Rightarrow> NonceStore" where
  "mark_storage_lost s now =
     (let hold_secs = sat_mul (window_secs (ns_config s)) 2 + STORAGE_RECOVERY_MARGIN_SECS in
      s\<lparr>entries := [], per_node := [],
        paused_until_ms := Some (sat_add (monotonic_ms now) (hold_secs * 1000))\<rparr>)"

definition snapshot :: "NonceStore \<Rightarrow> (NonceKey \<times> int) list" where
  "snapshot s = map (\<lambda>(key, entry). (key, last_acceptable_wall entry)) (entries s)"

definition restore_one :: "Now \<Rightarrow> NonceStore \<Rightarrow> NonceKey \<times> int \<Rightarrow> NonceStore" where
  "restore_one now s kl =
     (let (key, law) = kl;
          delta_secs = nat (max 0 (wrap_i64 (wrap_i64 (law + 1) - wall_secs now))) in
      if delta_secs = 0 then s
      else s\<lparr>entries := hm_insert key
               \<lparr>retain_until_ms = sat_add (monotonic_ms now) (delta_secs * 1000 mod 2 ^ 64),
                last_acceptable_wall = law\<rparr> (entries s),
             per_node := count_node (per_node s) key\<rparr>)"

definition restore :: "NonceStoreConfig \<Rightarrow> (NonceKey \<times> int) list \<Rightarrow> Now \<Rightarrow> AuthStoreError + NonceStore" where
  "restore cfg snap now =
     rbind (nonce_new cfg) (\<lambda>s.
       Inr ((foldl (restore_one now) s snap)\<lparr>last_wall_secs := Some (wall_secs now)\<rparr>))"

section \<open>Invariant: the counters are exact and the caps hold\<close>

definition node_entries :: "(NonceKey \<times> Entry) list \<Rightarrow> string \<times> string \<Rightarrow> nat" where
  "node_entries es nd = length (filter (\<lambda>(key, entry). node_of key = nd) es)"

definition counters_exact :: "((string \<times> string) \<times> nat) list \<Rightarrow> (NonceKey \<times> Entry) list \<Rightarrow> bool" where
  "counters_exact pn es \<longleftrightarrow> hm_inv pn
     \<and> map_of pn = (\<lambda>nd. if node_entries es nd = 0 then None else Some (node_entries es nd))"

definition ns_inv :: "NonceStore \<Rightarrow> bool" where
  "ns_inv s \<longleftrightarrow> hm_inv (entries s) \<and> counters_exact (per_node s) (entries s)
     \<and> length (entries s) \<le> global_max (ns_config s)
     \<and> (\<forall>nd. node_entries (entries s) nd \<le> per_node_max (ns_config s))
     \<and> AUTH_WINDOW_MIN_SECS \<le> window_secs (ns_config s)
     \<and> window_secs (ns_config s) \<le> AUTH_WINDOW_MAX_SECS"

lemma node_len_exact:
  "counters_exact (per_node s) (entries s) \<Longrightarrow> node_len s h n = node_entries (entries s) (h, n)"
  by (simp add: counters_exact_def node_len_def)

lemma ns_inv_new: "nonce_new cfg = Inr s \<Longrightarrow> ns_inv s"
  by (auto simp: nonce_new_def nonce_config_validate_def result_simps ns_inv_def counters_exact_def
      node_entries_def hm_inv_def split: if_splits)

lemma node_entries_Cons:
  "node_entries ((k, e) # es) nd = (if node_of k = nd then 1 else 0) + node_entries es nd"
  by (simp add: node_entries_def)

text \<open>Adding a fresh key counts one more for its node; the key's position does not matter.\<close>

lemma node_entries_insert:
  "map_of es k = None \<Longrightarrow>
   node_entries (hm_insert k e es) nd = (if node_of k = nd then 1 else 0) + node_entries es nd"
  by (induction es) (auto simp: node_entries_def split: if_splits)

lemma counters_exact_insert:
  assumes "counters_exact pn es" "map_of es k = None"
  shows "counters_exact (count_node pn k) (hm_insert k e es)"
proof -
  have pn: "hm_inv pn" "map_of pn = (\<lambda>nd. if node_entries es nd = 0 then None else Some (node_entries es nd))"
    using assms(1) by (simp_all add: counters_exact_def)
  have "map_of (count_node pn k) nd = (if node_entries (hm_insert k e es) nd = 0 then None
      else Some (node_entries (hm_insert k e es) nd))" for nd
    using assms(2) by (simp add: count_node_def pn hm.get_insert node_entries_insert)
  with pn(1) show ?thesis
    by (auto simp: counters_exact_def count_node_def hm.inv_insert)
qed

lemma counters_exact_forget:
  assumes "counters_exact pn ((k, e) # es)"
  shows "counters_exact (forget_node pn k) es"
proof -
  have pn: "hm_inv pn" "map_of pn = (\<lambda>nd. if node_entries ((k, e) # es) nd = 0 then None
      else Some (node_entries ((k, e) # es) nd))"
    using assms by (simp_all add: counters_exact_def)
  have "map_of (forget_node pn k) nd
      = (if node_entries es nd = 0 then None else Some (node_entries es nd))" for nd
    by (simp add: forget_node_def Let_def node_entries_Cons pn hm.get_insert hm.get_remove)
  with pn(1) show ?thesis
    by (auto simp: counters_exact_def forget_node_def Let_def hm.inv_insert hm.inv_remove)
qed

lemma counters_exact_perm:
  "counters_exact pn es \<Longrightarrow> mset es = mset es' \<Longrightarrow> counters_exact pn es'"
proof -
  assume "counters_exact pn es" "mset es = mset es'"
  moreover from this(2) have "node_entries es = node_entries es'"
    unfolding node_entries_def by (metis mset_filter size_mset)
  ultimately show ?thesis unfolding counters_exact_def by metis
qed

lemma counters_exact_forget_all:
  "counters_exact pn (gone @ kept) \<Longrightarrow> counters_exact (foldl forget_node pn (map fst gone)) kept"
  by (induction gone arbitrary: pn) (auto dest: counters_exact_forget)

lemma purge_fst:
  "fst (purge_expired s now) = s\<lparr>entries := filter (\<lambda>(key, entry). \<not> retain_until_ms entry \<le> monotonic_ms now) (entries s),
     per_node := foldl forget_node (per_node s)
       (map fst (filter (\<lambda>(key, entry). retain_until_ms entry \<le> monotonic_ms now) (entries s)))\<rparr>"
  by (simp add: purge_expired_def Let_def)

lemma node_entries_filter_le: "node_entries (filter Q es) nd \<le> node_entries es nd"
  by (induction es) (auto simp: node_entries_def)

lemma purge_inv:
  assumes "ns_inv s"
  shows "ns_inv (fst (purge_expired s now))"
proof -
  let ?gone = "filter (\<lambda>(key, entry). retain_until_ms entry \<le> monotonic_ms now) (entries s)"
  let ?kept = "filter (\<lambda>(key, entry). \<not> retain_until_ms entry \<le> monotonic_ms now) (entries s)"
  have "mset (entries s) = mset (?gone @ ?kept)"
    by (induction "entries s") (auto simp: split_beta mset_filter multiset_partition)
  then have "counters_exact (per_node s) (?gone @ ?kept)"
    using assms counters_exact_perm unfolding ns_inv_def by blast
  then have "counters_exact (foldl forget_node (per_node s) (map fst ?gone)) ?kept"
    by (rule counters_exact_forget_all)
  moreover have "length ?kept \<le> global_max (ns_config s)"
    using assms by (auto simp: ns_inv_def intro: le_trans [OF length_filter_le])
  moreover have "\<forall>nd. node_entries ?kept nd \<le> per_node_max (ns_config s)"
    using assms node_entries_filter_le by (meson le_trans ns_inv_def)
  ultimately show ?thesis
    using assms unfolding ns_inv_def purge_fst by (simp add: hm.inv_filter)
qed

lemma ns_inv_view:
  "ns_inv s \<Longrightarrow> entries s' = entries s \<Longrightarrow> per_node s' = per_node s \<Longrightarrow> ns_config s' = ns_config s \<Longrightarrow> ns_inv s'"
  by (simp add: ns_inv_def)

lemma admit_nonce_cases:
  assumes "admit_nonce s key ts now = (s', r)"
  obtains (refused) e where "s' = s" "r = Inl e"
  | (admitted) law delta until where "r = Inr ()" "map_of (entries s) key = None"
      "length (entries s) < global_max (ns_config s)"
      "node_len s (nk_hub_id key) (nk_node_id key) < per_node_max (ns_config s)"
      "law = clamp_i64 (ts + int (window_secs (ns_config s)))"
      "delta = nat (max 0 (wrap_i64 (wrap_i64 (law + 1) - wall_secs now)))"
      "until = sat_add (monotonic_ms now) (sat_mul delta 1000)"
      "s' = s\<lparr>entries := hm_insert key \<lparr>retain_until_ms = until, last_acceptable_wall = law\<rparr> (entries s),
              per_node := count_node (per_node s) key\<rparr>"
  using assms by (auto simp: admit_nonce_def ns_contains_def Let_def split: if_splits)

lemma admit_inv:
  assumes inv: "ns_inv s" and ad: "admit_nonce s key ts now = (s', r)"
  shows "ns_inv s'"
  using ad
proof (cases rule: admit_nonce_cases)
  case refused
  with inv show ?thesis by simp
next
  case (admitted law delta until)
  have ce: "counters_exact (per_node s) (entries s)" and hm: "hm_inv (entries s)"
    using inv by (simp_all add: ns_inv_def)
  have "node_entries (entries s) (node_of key) < per_node_max (ns_config s)"
    using admitted(4) node_len_exact [OF ce] by (simp add: node_of_def)
  with inv admitted(2,3,8) counters_exact_insert [OF ce admitted(2)] show ?thesis
    by (auto simp: ns_inv_def hm.inv_insert hm.len_insert_fresh node_entries_insert Suc_le_eq
        simp del: split_paired_All)
qed

text \<open>
  A registration either stops at a clock check, which touches nothing but the highest wall time
  seen, or gets past the pause, purges and runs the admission test.
\<close>

lemma register_cases:
  assumes "register s key ts now = (s', r)"
  obtains (stopped) e where "r = Inl e" "entries s' = entries s" "per_node s' = per_node s"
      "ns_config s' = ns_config s" "paused_until_ms s' = paused_until_ms s"
  | (tested) s1 where "timestamp_acceptable s ts (wall_secs now)"
      "\<And>p. paused_until_ms s = Some p \<Longrightarrow> p \<le> monotonic_ms now"
      "entries s1 = entries s" "per_node s1 = per_node s" "ns_config s1 = ns_config s"
      "paused_until_ms s1 = None"
      "admit_nonce (fst (purge_expired s1 now)) key ts now = (s', r)"
proof (cases "timestamp_acceptable s ts (wall_secs now)")
  case False
  with assms show thesis by (intro stopped) (auto simp: register_def)
next
  case True
  obtain s0 r0 where ob: "observe_wall s now = (s0, r0)" by fastforce
  then have s0: "entries s0 = entries s" "per_node s0 = per_node s" "ns_config s0 = ns_config s"
    "paused_until_ms s0 = paused_until_ms s"
    by (auto simp: observe_wall_def split: option.splits)
  show thesis
  proof (cases r0)
    case (Inl e)
    with assms True ob s0 show thesis by (intro stopped) (auto simp: register_def)
  next
    case (Inr u)
    show thesis
    proof (cases "paused_until_ms s")
      case None
      with assms True ob s0 Inr show thesis
        by (intro tested [of s0]) (auto simp: register_def)
    next
      case (Some p)
      show thesis
      proof (cases "monotonic_ms now < p")
        case True
        with assms \<open>timestamp_acceptable _ _ _\<close> ob s0 Inr Some show thesis
          by (intro stopped) (auto simp: register_def)
      next
        case False
        with assms \<open>timestamp_acceptable _ _ _\<close> ob s0 Inr Some show thesis
          by (intro tested [of "s0\<lparr>paused_until_ms := None\<rparr>"]) (auto simp: register_def)
      qed
    qed
  qed
qed

lemma register_inv:
  assumes inv: "ns_inv s" and rg: "register s key ts now = (s', r)"
  shows "ns_inv s'"
  using rg
proof (cases rule: register_cases)
  case stopped
  with inv show ?thesis by (auto intro: ns_inv_view)
next
  case (tested s1)
  have "ns_inv s1" using inv tested by (auto intro: ns_inv_view)
  from admit_inv [OF purge_inv [OF this] tested(7)] show ?thesis .
qed

lemma lost_inv: "ns_inv s \<Longrightarrow> ns_inv (mark_storage_lost s now)"
  by (simp add: ns_inv_def mark_storage_lost_def Let_def counters_exact_def node_entries_def hm_inv_def)

text \<open>Restoring a snapshot without repeated keys keeps the surviving records and counts them.\<close>

lemma restore_fold:
  fixes now :: Now
  assumes "distinct (map fst snap)" "hm_inv (entries s)" "counters_exact (per_node s) (entries s)"
    and "fst ` set snap \<inter> fst ` set (entries s) = {}"
  defines "s' \<equiv> foldl (restore_one now) s snap"
  shows "hm_inv (entries s') \<and> counters_exact (per_node s') (entries s') \<and> ns_config s' = ns_config s
       \<and> paused_until_ms s' = paused_until_ms s
       \<and> length (entries s') \<le> length (entries s) + length snap
       \<and> (\<forall>nd. node_entries (entries s') nd
            \<le> node_entries (entries s) nd + length (filter (\<lambda>(k, l). node_of k = nd) snap))"
  using assms(1-4) unfolding s'_def
proof (induction snap arbitrary: s)
  case Nil
  then show ?case by simp
next
  case (Cons kl snap)
  obtain k law where kl: "kl = (k, law)" by fastforce
  let ?s1 = "restore_one now s kl"
  have none: "map_of (entries s) k = None" using Cons.prems(4) kl by (simp add: map_of_eq_None_iff)
  have step: "hm_inv (entries ?s1) \<and> counters_exact (per_node ?s1) (entries ?s1)
      \<and> ns_config ?s1 = ns_config s \<and> paused_until_ms ?s1 = paused_until_ms s
      \<and> length (entries ?s1) \<le> Suc (length (entries s))
      \<and> fst ` set (entries ?s1) \<subseteq> insert k (fst ` set (entries s))
      \<and> (\<forall>nd. node_entries (entries ?s1) nd \<le> (if node_of k = nd then 1 else 0) + node_entries (entries s) nd)"
    using Cons.prems(2,3) none
    by (simp add: kl restore_one_def Let_def hm.inv_insert counters_exact_insert hm.len_insert_fresh
        node_entries_insert dom_update subset_insertI)
  have "k \<notin> fst ` set snap" "fst ` set snap \<inter> fst ` set (entries s) = {}"
    using Cons.prems(1,4) kl by simp_all
  moreover have "fst ` set (entries ?s1) \<subseteq> insert k (fst ` set (entries s))"
    using step by (simp only:)
  ultimately have "fst ` set snap \<inter> fst ` set (entries ?s1) = {}"
    by blast
  note IH = Cons.IH [OF _ _ _ this]
  have "node_entries (entries (foldl (restore_one now) ?s1 snap)) nd
      \<le> node_entries (entries s) nd + length (filter (\<lambda>(k, l). node_of k = nd) (kl # snap))" for nd
  proof -
    have "node_entries (entries (foldl (restore_one now) ?s1 snap)) nd
      \<le> node_entries (entries ?s1) nd + length (filter (\<lambda>(k, l). node_of k = nd) snap)"
      using IH Cons.prems(1) step by (simp del: split_paired_All)
    moreover have "node_entries (entries ?s1) nd \<le> (if node_of k = nd then 1 else 0) + node_entries (entries s) nd"
      using step by blast
    ultimately show ?thesis by (auto simp: kl)
  qed
  moreover have "length (entries (foldl (restore_one now) ?s1 snap)) \<le> length (entries s) + length (kl # snap)"
    using IH Cons.prems(1) step by (simp del: split_paired_All)
  ultimately show ?case
    using IH Cons.prems(1) step by (simp del: split_paired_All)
qed

lemma snapshot_keys: "map fst (snapshot s) = map fst (entries s)"
  by (simp add: snapshot_def split_beta comp_def)

lemma snapshot_nodes: "length (filter (\<lambda>(k, l). node_of k = nd) (snapshot s)) = node_entries (entries s) nd"
  unfolding snapshot_def node_entries_def by (induction "entries s") (auto simp: split_beta comp_def filter_map)

lemma nonce_new_Inr:
  "nonce_new cfg = Inr s \<longleftrightarrow>
     AUTH_WINDOW_MIN_SECS \<le> window_secs cfg \<and> window_secs cfg \<le> AUTH_WINDOW_MAX_SECS
   \<and> s = \<lparr>ns_config = cfg, entries = [], per_node = [], last_wall_secs = None, paused_until_ms = None\<rparr>"
  by (auto simp: nonce_new_def nonce_config_validate_def result_simps)

lemma restore_inv:
  assumes inv: "ns_inv s" and rs: "restore (ns_config s) (snapshot s) now = Inr s'"
  shows "ns_inv s' \<and> ns_config s' = ns_config s \<and> paused_until_ms s' = None"
proof -
  from rs obtain s0 where new: "nonce_new (ns_config s) = Inr s0"
    and s': "s' = (foldl (restore_one now) s0 (snapshot s))\<lparr>last_wall_secs := Some (wall_secs now)\<rparr>"
    by (auto simp: restore_def result_simps)
  have s0: "entries s0 = []" "per_node s0 = []" "ns_config s0 = ns_config s" "paused_until_ms s0 = None"
    using new by (simp_all add: nonce_new_Inr)
  have d: "distinct (map fst (snapshot s))" using inv by (simp add: snapshot_keys ns_inv_def hm_inv_def)
  have ce: "hm_inv (entries s0)" "counters_exact (per_node s0) (entries s0)"
    "fst ` set (snapshot s) \<inter> fst ` set (entries s0) = {}"
    by (simp_all add: s0 hm_inv_def counters_exact_def node_entries_def)
  note rf = restore_fold [OF d ce, of now]
  have "node_entries (entries s') nd \<le> per_node_max (ns_config s)" for nd
  proof -
    have "node_entries (entries s') nd \<le> node_entries (entries s) nd"
      using rf by (simp add: s' s0 snapshot_nodes node_entries_def [of "[]"] del: split_paired_All)
    also have "\<dots> \<le> per_node_max (ns_config s)" using inv by (simp only: ns_inv_def)
    finally show ?thesis .
  qed
  moreover have "length (entries s') \<le> length (entries s)"
    using rf by (simp add: s' s0 snapshot_def del: split_paired_All)
  ultimately show ?thesis
    using rf inv by (simp add: s' s0 ns_inv_def del: split_paired_All)
qed

lemma restore_lookup:
  assumes "distinct (map fst snap)" "hm_inv (entries s)"
  shows "map_of (entries (foldl (restore_one now) s snap)) k =
    (case map_of snap k of
       None \<Rightarrow> map_of (entries s) k
     | Some law \<Rightarrow>
         let delta = nat (max 0 (wrap_i64 (wrap_i64 (law + 1) - wall_secs now))) in
         if delta = 0 then map_of (entries s) k
         else Some \<lparr>retain_until_ms = sat_add (monotonic_ms now) (delta * 1000 mod 2 ^ 64),
                    last_acceptable_wall = law\<rparr>)"
  using assms
proof (induction snap arbitrary: s)
  case Nil
  then show ?case by simp
next
  case (Cons kl snap)
  obtain k' law where kl: "kl = (k', law)" by fastforce
  have hm: "hm_inv (entries (restore_one now s kl))"
    using Cons.prems(2) by (simp add: restore_one_def Let_def split_beta hm.inv_insert)
  have nk: "map_of snap k' = None"
    using Cons.prems(1) kl by (simp add: map_of_eq_None_iff)
  from Cons.IH [OF _ hm] Cons.prems kl nk show ?case
    by (auto simp: restore_one_def Let_def hm.get_insert split: option.split)
qed

section \<open>Calls under a clock\<close>

text \<open>
  The calls a Hub makes on its store. A restart saves the snapshot and restores it into a new store.
\<close>

datatype nonce_call =
    CallRegister NonceKey int Now
  | CallPurge Now
  | CallLost Now
  | CallRestart Now

primrec call_now :: "nonce_call \<Rightarrow> Now" where
  "call_now (CallRegister key ts now) = now"
| "call_now (CallPurge now) = now"
| "call_now (CallLost now) = now"
| "call_now (CallRestart now) = now"

fun nonce_call_step :: "NonceStore \<Rightarrow> nonce_call \<Rightarrow> NonceStore \<times> (NonceKey \<times> int) option" where
  "nonce_call_step s (CallRegister key ts now) =
     (case register s key ts now of
        (s', Inr _) \<Rightarrow> (s', Some (key, ts))
      | (s', Inl e) \<Rightarrow> (s', None))"
| "nonce_call_step s (CallPurge now) = (fst (purge_expired s now), None)"
| "nonce_call_step s (CallLost now) = (mark_storage_lost s now, None)"
| "nonce_call_step s (CallRestart now) =
     (case restore (ns_config s) (snapshot s) now of Inr s' \<Rightarrow> (s', None) | Inl e \<Rightarrow> (s, None))"

lemma nonce_call_inv: "ns_inv s \<Longrightarrow> ns_inv (fst (nonce_call_step s c))"
proof (cases c)
  case (CallRegister key ts now)
  assume "ns_inv s"
  with CallRegister register_inv [of s key ts now] show ?thesis
    by (auto split: prod.split sum.split)
next
  case (CallRestart now)
  assume "ns_inv s"
  with CallRestart restore_inv [of s now] show ?thesis
    by (cases "restore (ns_config s) (snapshot s) now") simp_all
qed (simp_all add: purge_inv lost_inv)

lemma nonce_call_config: "ns_inv s \<Longrightarrow> ns_config (fst (nonce_call_step s c)) = ns_config s"
proof (cases c)
  case (CallRegister key ts now)
  obtain s' r where rg: "register s key ts now = (s', r)" by fastforce
  then have "ns_config s' = ns_config s"
    by (cases rule: register_cases) (auto elim!: admit_nonce_cases simp: purge_fst)
  with CallRegister rg show ?thesis by (auto split: sum.split)
next
  case (CallRestart now)
  assume "ns_inv s"
  with CallRestart restore_inv [of s now] show ?thesis
    by (cases "restore (ns_config s) (snapshot s) now") simp_all
qed (auto simp: purge_fst mark_storage_lost_def Let_def)

text \<open>
  The clock the calls are made under: \<open>base\<close> is the wall time in milliseconds at monotonic zero.
  Steps forward of the wall clock raise it; a restart begins a new monotonic clock. Time itself
  never goes back, and wall and monotonic readings are far from the ends of their types.
\<close>

record clock =
  base :: int
  mono :: nat

definition reads :: "int \<Rightarrow> Now \<Rightarrow> bool" where
  "reads b now \<longleftrightarrow> wall_secs now = (b + int (monotonic_ms now)) div 1000
     \<and> 0 \<le> wall_secs now \<and> wall_secs now \<le> 2 ^ 62 \<and> monotonic_ms now \<le> 2 ^ 63"

text \<open>
  What is asked of a call made in store \<open>s\<close> when the clock last read \<open>ck\<close>: its reading is right, time has not gone back,
  the wall clock is not set back and, within one boot, the monotonic clock does not go back. A restart is asked to come
  when no hold is running: either the store was not declared lost, or the hold of the loss is over.
\<close>

definition hold_over :: "NonceStore \<Rightarrow> clock \<Rightarrow> int \<Rightarrow> Now \<Rightarrow> bool" where
  "hold_over s ck b now \<longleftrightarrow>
     (case paused_until_ms s of None \<Rightarrow> True | Some r \<Rightarrow> base ck + int r \<le> b + int (monotonic_ms now))"

definition clock_allows :: "NonceStore \<Rightarrow> clock \<Rightarrow> int \<Rightarrow> nonce_call \<Rightarrow> bool" where
  "clock_allows s ck b c \<longleftrightarrow> reads b (call_now c)
     \<and> base ck + int (mono ck) \<le> b + int (monotonic_ms (call_now c))
     \<and> (case c of
          CallRestart now \<Rightarrow> hold_over s ck b now
        | CallRegister key ts now \<Rightarrow> i64_range ts \<and> base ck \<le> b \<and> mono ck \<le> monotonic_ms now
        | _ \<Rightarrow> base ck \<le> b \<and> mono ck \<le> monotonic_ms (call_now c))"

text \<open>A run of calls, each with the wall time at monotonic zero it is made under, in which every call is allowed.\<close>

fun steady_clock :: "NonceStore \<Rightarrow> clock \<Rightarrow> (int \<times> nonce_call) list \<Rightarrow> bool" where
  "steady_clock s ck [] \<longleftrightarrow> True"
| "steady_clock s ck ((b, c) # calls) \<longleftrightarrow> clock_allows s ck b c
     \<and> steady_clock (fst (nonce_call_step s c)) \<lparr>base = b, mono = monotonic_ms (call_now c)\<rparr> calls"

text \<open>The store with the clock beside it, which the calls move but do not see.\<close>

definition clocked_step ::
    "NonceStore \<times> clock \<Rightarrow> int \<times> nonce_call \<Rightarrow> (NonceStore \<times> clock) \<times> (NonceKey \<times> int) option" where
  "clocked_step sc bc =
     (let (s, ck) = sc; (b, c) = bc; (s', r) = nonce_call_step s c in
      ((s', \<lparr>base = b, mono = monotonic_ms (call_now c)\<rparr>), r))"

definition clocked_ok :: "NonceStore \<times> clock \<Rightarrow> int \<times> nonce_call \<Rightarrow> bool" where
  "clocked_ok sc bc = clock_allows (fst sc) (snd sc) (fst bc) (snd bc)"

lemma clocked_run:
  "admissible clocked_ok clocked_step (s, ck) calls \<longleftrightarrow> steady_clock s ck calls"
  "granted clocked_step (s, ck) calls = granted nonce_call_step s (map snd calls)"
proof (induction calls arbitrary: s ck)
  case (Cons bc calls)
  { case 1 show ?case using Cons(1) by (cases bc) (simp add: clocked_ok_def clocked_step_def split_beta)
  next case 2 show ?case using Cons(2) by (cases bc) (simp add: clocked_step_def split: prod.split option.split) }
qed simp_all

section \<open>A spent nonce stays spent\<close>

text \<open>The instant, in wall milliseconds, from which a timestamp is out of the window for good.\<close>

definition expiry :: "NonceStore \<Rightarrow> int \<Rightarrow> int" where
  "expiry s ts = 1000 * (ts + int (window_secs (ns_config s)) + 1)"

definition nonce_spent :: "NonceStore \<times> clock \<Rightarrow> NonceKey \<times> int \<Rightarrow> bool" where
  "nonce_spent sc kt =
     (case (sc, kt) of ((s, ck), (k, ts)) \<Rightarrow>
        expiry s ts \<le> base ck + int (mono ck)
      \<or> (\<exists>e. map_of (entries s) k = Some e \<and> expiry s ts \<le> int (retain_until_ms e) + base ck
             \<and> expiry s ts \<le> 1000 * (last_acceptable_wall e + 1))
      \<or> (\<exists>r. paused_until_ms s = Some r \<and> expiry s ts \<le> int r + base ck))"

definition nonce_clock_inv :: "NonceStore \<times> clock \<Rightarrow> bool" where
  "nonce_clock_inv sc =
     (case sc of (s, ck) \<Rightarrow> ns_inv s
      \<and> (\<forall>k e. map_of (entries s) k = Some e \<longrightarrow> 0 \<le> last_acceptable_wall e
           \<and> last_acceptable_wall e
              \<le> (base ck + int (mono ck)) div 1000 + 2 * int (window_secs (ns_config s)))
      \<and> (\<forall>r. paused_until_ms s = Some r \<longrightarrow>
           r \<le> mono ck + (2 * window_secs (ns_config s) + 10) * 1000))"

lemma wrap_i64_below:
  "- (2 ^ 63) - 2 ^ 62 \<le> x \<Longrightarrow> x < - (2 ^ 63) \<Longrightarrow> wrap_i64 x = x + 2 ^ 64"
proof -
  assume "- (2 ^ 63) - 2 ^ 62 \<le> x" "x < - (2 ^ 63)"
  then have "(x + 2 ^ 63 + 2 ^ 64) mod 2 ^ 64 = x + 2 ^ 63 + 2 ^ 64"
    by (intro mod_pos_pos_trivial) simp_all
  then have "(x + 2 ^ 63) mod 2 ^ 64 = x + 2 ^ 63 + 2 ^ 64"
    by (simp only: mod_add_self2)
  then show ?thesis unfolding wrap_i64_def by linarith
qed

lemma acceptable_iff:
  assumes "ns_inv s" "i64_range ts" "0 \<le> w" "w \<le> 2 ^ 62"
  shows "timestamp_acceptable s ts w \<longleftrightarrow> \<bar>ts - w\<bar> \<le> int (window_secs (ns_config s))"
proof -
  have W: "window_secs (ns_config s) \<le> 300" using assms(1) by (simp add: ns_inv_def limit_defs)
  show ?thesis
  proof (cases "ts - w < - (2 ^ 63)")
    case True
    then have "wrap_i64 (ts - w) = ts - w + 2 ^ 64"
      using assms by (intro wrap_i64_below) (simp_all add: i64_range_def int_range_defs)
    with True W assms show ?thesis
      by (simp add: timestamp_acceptable_def i64_range_def int_range_defs)
  next
    case False
    then have "wrap_i64 (ts - w) = ts - w"
      using assms by (intro wrap_i64_id) (simp add: i64_range_def int_range_defs)
    then show ?thesis by (auto simp: timestamp_acceptable_def)
  qed
qed

lemma window_le: "ns_inv s \<Longrightarrow> window_secs (ns_config s) \<le> 300"
  by (simp add: ns_inv_def limit_defs)

text \<open>What the arithmetic of an admission comes to for readings in range.\<close>

lemma admission_deadline:
  assumes "\<bar>ts - w\<bar> \<le> int W" "W \<le> 300" "0 \<le> w" "w \<le> 2 ^ 62" "m \<le> 2 ^ 63"
    and "law = clamp_i64 (ts + int W)" "delta = nat (max 0 (wrap_i64 (wrap_i64 (law + 1) - w)))"
  shows "law = ts + int W" "int (sat_add m (sat_mul delta 1000)) = int m + 1000 * (ts + int W + 1 - w)"
proof -
  have b: "0 \<le> ts + int W" "ts + int W \<le> 2 ^ 62 + 600" using assms by auto
  then show law: "law = ts + int W"
    using assms(6) by (simp add: clamp_i64_def int_range_defs)
  have w1: "wrap_i64 (law + 1) = law + 1"
    using b law by (intro wrap_i64_id) (simp add: i64_range_def int_range_defs)
  have "wrap_i64 (law + 1 - w) = law + 1 - w"
    using b law assms by (intro wrap_i64_id) (simp add: i64_range_def int_range_defs)
  with w1 assms(7) have d: "delta = nat (ts + int W + 1 - w)" using law assms(1) by simp
  then have "delta \<le> 601" using assms by auto
  then have "sat_add m (sat_mul delta 1000) = m + delta * 1000"
    using assms(5) by (simp add: sat_add_def sat_mul_def u64_max_def)
  with d assms(1) show "int (sat_add m (sat_mul delta 1000)) = int m + 1000 * (ts + int W + 1 - w)"
    by simp
qed

lemma restored_deadline:
  assumes "0 \<le> law" "law \<le> w + 600" "0 \<le> w" "w \<le> 2 ^ 62" "m \<le> 2 ^ 63"
    and "delta = nat (max 0 (wrap_i64 (wrap_i64 (law + 1) - w)))"
  shows "delta = nat (law + 1 - w)" "int (sat_add m (delta * 1000 mod 2 ^ 64)) = int m + 1000 * int delta"
proof -
  have w1: "wrap_i64 (law + 1) = law + 1"
    using assms by (intro wrap_i64_id) (simp add: i64_range_def int_range_defs)
  have "wrap_i64 (law + 1 - w) = law + 1 - w"
    using assms by (intro wrap_i64_id) (simp add: i64_range_def int_range_defs)
  with w1 assms(6) show d: "delta = nat (law + 1 - w)" by simp
  then have "delta \<le> 601" using assms by auto
  then show "int (sat_add m (delta * 1000 mod 2 ^ 64)) = int m + 1000 * int delta"
    using assms(5) by (simp add: sat_add_def u64_max_def)
qed

lemma purge_lookup:
  "hm_inv (entries s) \<Longrightarrow> map_of (entries (fst (purge_expired s now))) k =
     (case map_of (entries s) k of
        None \<Rightarrow> None
      | Some e \<Rightarrow> if \<not> retain_until_ms e \<le> monotonic_ms now then Some e else None)"
  by (simp add: purge_fst hm.get_filter)

lemma reads_floor: "reads b now \<Longrightarrow> 1000 * wall_secs now \<le> b + int (monotonic_ms now)
    \<and> b + int (monotonic_ms now) < 1000 * wall_secs now + 1000"
  by (auto simp: reads_def)

text \<open>Purging drops only records that the clock has made stale.\<close>

lemma purge_spent:
  assumes sp: "nonce_spent (s, ck) (k, ts)" and hm: "hm_inv (entries s)"
    and b: "base ck \<le> b" and t: "base ck + int (mono ck) \<le> b + int (monotonic_ms now)"
    and p: "\<And>r. paused_until_ms s = Some r \<Longrightarrow> p = Some r \<or> r \<le> monotonic_ms now"
    and s': "entries s' = entries (fst (purge_expired s now))" "ns_config s' = ns_config s"
      "paused_until_ms s' = p"
  shows "nonce_spent (s', \<lparr>base = b, mono = monotonic_ms now\<rparr>) (k, ts)"
proof -
  have ex: "expiry s' ts = expiry s ts" by (simp add: expiry_def s')
  consider (stale) "expiry s ts \<le> base ck + int (mono ck)"
    | (held) e where "map_of (entries s) k = Some e" "expiry s ts \<le> int (retain_until_ms e) + base ck"
        "expiry s ts \<le> 1000 * (last_acceptable_wall e + 1)"
    | (paused) r where "paused_until_ms s = Some r" "expiry s ts \<le> int r + base ck"
    using sp by (auto simp: nonce_spent_def)
  then show ?thesis
  proof cases
    case stale
    with t show ?thesis by (simp add: nonce_spent_def ex)
  next
    case held
    with b purge_lookup [OF hm, of now k] show ?thesis
      by (auto simp: nonce_spent_def ex s')
  next
    case paused
    with p [OF paused(1)] b show ?thesis by (auto simp: nonce_spent_def ex s')
  qed
qed

text \<open>A registration under the clock: what was spent stays spent, and an admission is of a nonce
  that was not spent.\<close>

lemma nonce_spent_cong:
  assumes "entries s' = entries s" "ns_config s' = ns_config s" "paused_until_ms s' = paused_until_ms s"
  shows "nonce_spent (s', ck) kt = nonce_spent (s, ck) kt"
  using assms by (cases kt) (simp add: nonce_spent_def expiry_def)

lemma nonce_spent_later:
  assumes "nonce_spent (s, ck) kt" "base ck \<le> b" "base ck + int (mono ck) \<le> b + int m"
  shows "nonce_spent (s, \<lparr>base = b, mono = m\<rparr>) kt"
  using assms by (cases kt) (fastforce simp: nonce_spent_def)

lemma admit_spent:
  assumes ad: "admit_nonce s key ts now = (s', r)" and hm: "hm_inv (entries s)"
    and sp: "nonce_spent (s, ck) kt"
  shows "nonce_spent (s', ck) kt"
  using ad
proof (cases rule: admit_nonce_cases)
  case (admitted law delta until)
  then show ?thesis
    using sp hm by (cases kt) (auto simp: nonce_spent_def expiry_def hm.get_insert)
qed (use sp in simp)

lemma register_spent:
  assumes inv: "nonce_clock_inv (s, ck)" and al: "clock_allows s ck b (CallRegister key ts now)"
    and rg: "register s key ts now = (s', r)" and sp: "nonce_spent (s, ck) kt"
  shows "nonce_spent (s', \<lparr>base = b, mono = monotonic_ms now\<rparr>) kt"
proof -
  have t: "base ck \<le> b" "base ck + int (mono ck) \<le> b + int (monotonic_ms now)"
    using al by (simp_all add: clock_allows_def)
  have ni: "ns_inv s" using inv by (simp add: nonce_clock_inv_def)
  obtain k ts' where kt: "kt = (k, ts')" by fastforce
  show ?thesis using rg
  proof (cases rule: register_cases)
    case stopped
    with nonce_spent_later [OF sp t] nonce_spent_cong show ?thesis by metis
  next
    case (tested s1)
    have hm: "hm_inv (entries s)" using ni by (simp add: ns_inv_def)
    have "nonce_spent (fst (purge_expired s1 now), \<lparr>base = b, mono = monotonic_ms now\<rparr>) (k, ts')"
      by (rule purge_spent [OF sp [unfolded kt] hm t, where p = None])
        (auto simp: tested purge_fst dest: tested(2))
    moreover have "hm_inv (entries (fst (purge_expired s1 now)))"
      using hm by (simp add: purge_fst tested hm.inv_filter)
    ultimately show ?thesis using admit_spent [OF tested(7)] kt by simp
  qed
qed

lemma register_admits:
  assumes inv: "nonce_clock_inv (s, ck)" and al: "clock_allows s ck b (CallRegister key ts now)"
    and rg: "register s key ts now = (s', Inr u)"
  shows "\<not> nonce_spent (s, ck) (key, ts)"
    "nonce_spent (s', \<lparr>base = b, mono = monotonic_ms now\<rparr>) (key, ts)"
    "\<exists>e. map_of (entries s') key = Some e \<and> last_acceptable_wall e = ts + int (window_secs (ns_config s))"
    "\<bar>ts - wall_secs now\<bar> \<le> int (window_secs (ns_config s))"
proof -
  have t: "base ck \<le> b" "base ck + int (mono ck) \<le> b + int (monotonic_ms now)"
    and rd: "reads b now" and rt: "i64_range ts"
    using al by (simp_all add: clock_allows_def)
  have ni: "ns_inv s" using inv by (simp add: nonce_clock_inv_def)
  have hm: "hm_inv (entries s)" using ni by (simp add: ns_inv_def)
  have wr: "0 \<le> wall_secs now" "wall_secs now \<le> 2 ^ 62" "monotonic_ms now \<le> 2 ^ 63"
    using rd by (simp_all add: reads_def)
  have "\<not> nonce_spent (s, ck) (key, ts)
    \<and> nonce_spent (s', \<lparr>base = b, mono = monotonic_ms now\<rparr>) (key, ts)
    \<and> (\<exists>e. map_of (entries s') key = Some e \<and> last_acceptable_wall e = ts + int (window_secs (ns_config s)))
    \<and> \<bar>ts - wall_secs now\<bar> \<le> int (window_secs (ns_config s))"
    using rg
  proof (cases rule: register_cases)
    case (tested s1)
    let ?W = "window_secs (ns_config s)"
    have ts: "\<bar>ts - wall_secs now\<bar> \<le> int ?W"
      using tested(1) acceptable_iff [OF ni rt wr(1,2)] by simp
    from tested(7) show ?thesis
    proof (cases rule: admit_nonce_cases)
      case (admitted law delta until)
      have cfg: "ns_config (fst (purge_expired s1 now)) = ns_config s" by (simp add: purge_fst tested)
      note dl = admission_deadline [OF ts window_le [OF ni] wr admitted(5) [unfolded cfg] admitted(6)]
      have fresh: "b + int (monotonic_ms now) < expiry s ts"
        using reads_floor [OF rd] ts by (simp add: expiry_def abs_le_iff)
      have none: "map_of (entries (fst (purge_expired s1 now))) key = None" by (fact admitted(2))
      have "\<not> nonce_spent (s, ck) (key, ts)"
      proof
        assume "nonce_spent (s, ck) (key, ts)"
        then have "nonce_spent (fst (purge_expired s1 now),
            \<lparr>base = b, mono = monotonic_ms now\<rparr>) (key, ts)"
          by (rule purge_spent [OF _ hm t, where p = None]) (auto simp: tested purge_fst dest: tested(2))
        with fresh none cfg show False by (simp add: nonce_spent_def expiry_def purge_fst tested)
      qed
      moreover have "map_of (entries s') key = Some \<lparr>retain_until_ms = until, last_acceptable_wall = law\<rparr>"
        using admitted(8) hm by (simp add: hm.get_insert purge_fst tested hm.inv_filter)
      moreover have "expiry s ts \<le> int until + b"
        using dl(2) admitted(7) reads_floor [OF rd] by (simp add: expiry_def)
      moreover have "expiry s' ts = expiry s ts" using admitted(8) cfg by (simp add: expiry_def)
      ultimately show ?thesis using dl(1) ts by (simp add: nonce_spent_def expiry_def)
    qed simp
  qed simp
  then show "\<not> nonce_spent (s, ck) (key, ts)"
    "nonce_spent (s', \<lparr>base = b, mono = monotonic_ms now\<rparr>) (key, ts)"
    "\<exists>e. map_of (entries s') key = Some e \<and> last_acceptable_wall e = ts + int (window_secs (ns_config s))"
    "\<bar>ts - wall_secs now\<bar> \<le> int (window_secs (ns_config s))"
    by blast+
qed

text \<open>Loss and restart.\<close>

lemma lost_spent:
  assumes inv: "nonce_clock_inv (s, ck)" and al: "clock_allows s ck b (CallLost now)"
    and sp: "nonce_spent (s, ck) kt"
  shows "nonce_spent (mark_storage_lost s now, \<lparr>base = b, mono = monotonic_ms now\<rparr>) kt"
proof -
  obtain k ts where kt: "kt = (k, ts)" by fastforce
  have t: "base ck \<le> b" "base ck + int (mono ck) \<le> b + int (monotonic_ms now)"
    "mono ck \<le> monotonic_ms now" and rd: "reads b now"
    using al by (simp_all add: clock_allows_def)
  have W: "window_secs (ns_config s) \<le> 300"
    using inv window_le by (simp add: nonce_clock_inv_def)
  let ?W = "window_secs (ns_config s)"
  let ?hold = "monotonic_ms now + (2 * ?W + 10) * 1000"
  have pu: "paused_until_ms (mark_storage_lost s now) = Some ?hold"
    using W rd
    by (simp add: mark_storage_lost_def Let_def sat_add_def sat_mul_def u64_max_def reads_def
        STORAGE_RECOVERY_MARGIN_SECS_def)
  have ex: "expiry (mark_storage_lost s now) ts = expiry s ts"
    by (simp add: expiry_def mark_storage_lost_def Let_def)
  consider (stale) "expiry s ts \<le> base ck + int (mono ck)"
    | (held) e where "map_of (entries s) k = Some e" "expiry s ts \<le> 1000 * (last_acceptable_wall e + 1)"
    | (paused) r where "paused_until_ms s = Some r" "expiry s ts \<le> int r + base ck"
    using sp kt by (auto simp: nonce_spent_def)
  then have "expiry s ts \<le> int ?hold + b"
  proof cases
    case stale
    with t show ?thesis by simp
  next
    case held
    have "last_acceptable_wall e \<le> (base ck + int (mono ck)) div 1000 + 2 * int ?W"
      using inv held(1) by (auto simp: nonce_clock_inv_def)
    moreover have "(base ck + int (mono ck)) div 1000 \<le> wall_secs now"
      using t(2) rd by (simp add: reads_def zdiv_mono1)
    ultimately have "last_acceptable_wall e \<le> wall_secs now + 2 * int ?W" by (rule order_trans [OF _ add_right_mono])
    with reads_floor [OF rd] have "1000 * (last_acceptable_wall e + 1) \<le> b + int (monotonic_ms now) + 1000 * (2 * int ?W + 1)"
      by simp
    with held show ?thesis by simp
  next
    case paused
    then have "r \<le> mono ck + (2 * ?W + 10) * 1000" using inv by (simp add: nonce_clock_inv_def)
    with paused t show ?thesis by linarith
  qed
  with pu show ?thesis unfolding kt by (simp add: nonce_spent_def ex)
qed

lemma restart_spent:
  assumes inv: "nonce_clock_inv (s, ck)" and al: "clock_allows s ck b (CallRestart now)"
    and rs: "restore (ns_config s) (snapshot s) now = Inr s'" and sp: "nonce_spent (s, ck) kt"
  shows "nonce_spent (s', \<lparr>base = b, mono = monotonic_ms now\<rparr>) kt"
proof -
  obtain k ts where kt: "kt = (k, ts)" by fastforce
  have t: "base ck + int (mono ck) \<le> b + int (monotonic_ms now)" "hold_over s ck b now" and rd: "reads b now"
    using al by (simp_all add: clock_allows_def)
  have ni: "ns_inv s" using inv by (simp add: nonce_clock_inv_def)
  have ex: "expiry s' ts = expiry s ts" using restore_inv [OF ni rs] by (simp add: expiry_def)
  consider (stale) "expiry s ts \<le> b + int (monotonic_ms now)"
    | (held) e where "map_of (entries s) k = Some e" "expiry s ts \<le> 1000 * (last_acceptable_wall e + 1)"
    using sp kt t by (auto simp: nonce_spent_def hold_over_def)
  then show ?thesis
  proof cases
    case stale
    then show ?thesis by (simp add: nonce_spent_def ex kt)
  next
    case held
    from rs obtain s0 where s0: "nonce_new (ns_config s) = Inr s0"
      and s': "entries s' = entries (foldl (restore_one now) s0 (snapshot s))"
      by (auto simp: restore_def result_simps)
    have e0: "entries s0 = []" using s0 by (simp add: nonce_new_Inr)
    have d: "distinct (map fst (snapshot s))" using ni by (simp add: snapshot_keys ns_inv_def hm_inv_def)
    have snap: "map_of (snapshot s) k = Some (last_acceptable_wall e)"
      using held(1) by (simp add: snapshot_def map_of_map split_beta)
    let ?law = "last_acceptable_wall e"
    have "?law \<le> (base ck + int (mono ck)) div 1000 + 2 * int (window_secs (ns_config s))" "0 \<le> ?law"
      using inv held(1) by (auto simp: nonce_clock_inv_def)
    moreover have "(base ck + int (mono ck)) div 1000 \<le> wall_secs now"
      using t(1) rd by (simp add: reads_def zdiv_mono1)
    ultimately have law: "0 \<le> ?law" "?law \<le> wall_secs now + 600"
      using window_le [OF ni] by simp_all
    have wr: "0 \<le> wall_secs now" "wall_secs now \<le> 2 ^ 62" "monotonic_ms now \<le> 2 ^ 63"
      using rd by (simp_all add: reads_def)
    let ?delta = "nat (max 0 (wrap_i64 (wrap_i64 (?law + 1) - wall_secs now)))"
    note dl = restored_deadline [OF law wr refl]
    have hm0: "hm_inv (entries s0)" by (simp add: e0 hm_inv_def)
    have look: "map_of (entries s') k = (if ?delta = 0 then None
        else Some \<lparr>retain_until_ms = sat_add (monotonic_ms now) (?delta * 1000 mod 2 ^ 64),
                   last_acceptable_wall = ?law\<rparr>)"
      unfolding s' using restore_lookup [OF d hm0, of now k] snap e0 by (simp add: Let_def)
    show ?thesis
    proof (cases "?delta = 0")
      case True
      with dl(1) have "?law + 1 \<le> wall_secs now" by simp
      with held(2) reads_floor [OF rd] show ?thesis by (simp add: nonce_spent_def ex kt)
    next
      case False
      then have "int ?delta = ?law + 1 - wall_secs now" unfolding dl(1) by simp
      then have "expiry s ts \<le> int (sat_add (monotonic_ms now) (?delta * 1000 mod 2 ^ 64)) + b"
        unfolding dl(2) using held(2) reads_floor [OF rd] by simp
      with False look held(2) show ?thesis by (simp add: nonce_spent_def ex kt)
    qed
  qed
qed

section \<open>The store as an admission filter\<close>

lemma clock_inv_later:
  assumes inv: "nonce_clock_inv (s, ck)" and ni: "ns_inv s'" "ns_config s' = ns_config s"
    and t: "base ck + int (mono ck) \<le> b + int m"
    and es: "\<And>k e. map_of (entries s') k = Some e \<Longrightarrow>
        (\<exists>e0. map_of (entries s) k = Some e0 \<and> last_acceptable_wall e = last_acceptable_wall e0)
      \<or> 0 \<le> last_acceptable_wall e \<and> last_acceptable_wall e
             \<le> (b + int m) div 1000 + 2 * int (window_secs (ns_config s))"
    and ps: "\<And>r. paused_until_ms s' = Some r \<Longrightarrow> r \<le> m + (2 * window_secs (ns_config s) + 10) * 1000"
  shows "nonce_clock_inv (s', \<lparr>base = b, mono = m\<rparr>)"
proof -
  have "0 \<le> last_acceptable_wall e \<and> last_acceptable_wall e
      \<le> (b + int m) div 1000 + 2 * int (window_secs (ns_config s))"
    if "map_of (entries s') k = Some e" for k e
    using es [OF that]
  proof
    assume "\<exists>e0. map_of (entries s) k = Some e0 \<and> last_acceptable_wall e = last_acceptable_wall e0"
    then have "0 \<le> last_acceptable_wall e" "last_acceptable_wall e
        \<le> (base ck + int (mono ck)) div 1000 + 2 * int (window_secs (ns_config s))"
      using inv by (auto simp: nonce_clock_inv_def)
    moreover have "(base ck + int (mono ck)) div 1000 \<le> (b + int m) div 1000"
      using t by (rule zdiv_mono1) simp
    ultimately show ?thesis by linarith
  qed
  with ni ps show ?thesis by (auto simp: nonce_clock_inv_def)
qed

lemma register_entries:
  assumes inv: "nonce_clock_inv (s, ck)" and al: "clock_allows s ck b (CallRegister key ts now)"
    and rg: "register s key ts now = (s', r)" and e: "map_of (entries s') k = Some e"
  shows "(\<exists>e0. map_of (entries s) k = Some e0 \<and> last_acceptable_wall e = last_acceptable_wall e0)
      \<or> 0 \<le> last_acceptable_wall e \<and> last_acceptable_wall e
             \<le> (b + int (monotonic_ms now)) div 1000 + 2 * int (window_secs (ns_config s))"
  using rg
proof (cases rule: register_cases)
  case stopped
  with e show ?thesis by auto
next
  case (tested s1)
  have hm: "hm_inv (entries s1)" using inv by (simp add: nonce_clock_inv_def ns_inv_def tested)
  from tested(7) show ?thesis
  proof (cases rule: admit_nonce_cases)
    case refused
    with e hm purge_lookup [OF hm, of now k] show ?thesis
      by (auto simp: tested split: option.splits if_splits)
  next
    case (admitted law delta until)
    show ?thesis
    proof (cases "k = key")
      case True
      have rd: "reads b now" using al by (simp add: clock_allows_def)
      note ra = register_admits [OF inv al, of s' "()"]
      from True e ra(3) rg admitted(1)
      have law: "last_acceptable_wall e = ts + int (window_secs (ns_config s))" by auto
      moreover have "\<bar>ts - wall_secs now\<bar> \<le> int (window_secs (ns_config s))"
        using ra(4) rg admitted(1) by simp
      moreover have "0 \<le> wall_secs now" "(b + int (monotonic_ms now)) div 1000 = wall_secs now"
        using rd by (simp_all add: reads_def)
      ultimately show ?thesis by (simp add: abs_le_iff)
    next
      case False
      with e admitted(8) hm purge_lookup [OF hm, of now k] show ?thesis
        by (auto simp: tested hm.get_insert purge_fst hm.inv_filter split: option.splits if_splits)
    qed
  qed
qed

lemma register_paused:
  "register s key ts now = (s', r) \<Longrightarrow> paused_until_ms s' = Some p \<Longrightarrow> paused_until_ms s = Some p"
  by (erule register_cases) (auto elim!: admit_nonce_cases simp: purge_fst)

lemma restore_total: "ns_inv s \<Longrightarrow> \<exists>s'. restore (ns_config s) snap now = Inr s'"
  by (auto simp: restore_def result_simps nonce_new_def nonce_config_validate_def ns_inv_def)

lemma nonce_call_clock_inv:
  assumes inv: "nonce_clock_inv (s, ck)" and al: "clock_allows s ck b c"
    and st: "nonce_call_step s c = (s', r)"
  shows "nonce_clock_inv (s', \<lparr>base = b, mono = monotonic_ms (call_now c)\<rparr>)"
proof -
  have ni: "ns_inv s" using inv by (simp add: nonce_clock_inv_def)
  have t: "base ck + int (mono ck) \<le> b + int (monotonic_ms (call_now c))" and rd: "reads b (call_now c)"
    using al by (simp_all add: clock_allows_def)
  have ni': "ns_inv s'" "ns_config s' = ns_config s"
    using nonce_call_inv [OF ni, of c] nonce_call_config [OF ni, of c] st by simp_all
  have pz: "paused_until_ms s = Some p \<Longrightarrow> p \<le> mono ck + (2 * window_secs (ns_config s) + 10) * 1000"
    for p using inv by (simp add: nonce_clock_inv_def)
  show ?thesis
  proof (rule clock_inv_later [OF inv ni' t], goal_cases)
    case (1 k e)
    show ?case
    proof (cases c)
      case (CallRegister key ts now)
      with register_entries [OF inv al [unfolded CallRegister], of s' _ k e] st 1 show ?thesis
        by (cases "register s key ts now") (auto split: sum.splits)
    next
      case (CallPurge now)
      have "hm_inv (entries s)" using ni by (simp add: ns_inv_def)
      with CallPurge st 1 purge_lookup [of s now k] show ?thesis
        by (auto split: option.splits if_splits)
    next
      case (CallLost now)
      with st 1 show ?thesis by (auto simp: mark_storage_lost_def Let_def)
    next
      case (CallRestart now)
      show ?thesis
      proof (cases "restore (ns_config s) (snapshot s) now")
        case (Inl e')
        with CallRestart st 1 show ?thesis by auto
      next
        case (Inr s2)
        with CallRestart st have s2: "s' = s2" by simp
        from Inr obtain s0 where "nonce_new (ns_config s) = Inr s0"
          and en: "entries s2 = entries (foldl (restore_one now) s0 (snapshot s))"
          by (auto simp: restore_def result_simps)
        then have e0: "entries s0 = []" by (simp add: nonce_new_Inr)
        have "distinct (map fst (snapshot s))" using ni by (simp add: snapshot_keys ns_inv_def hm_inv_def)
        from restore_lookup [OF this, of s0 now k] e0 en s2 1
        obtain law where "map_of (snapshot s) k = Some law" "last_acceptable_wall e = law"
          by (auto simp: hm_inv_def Let_def split: option.splits if_splits)
        then show ?thesis by (auto simp: snapshot_def map_of_map split_beta)
      qed
    qed
  next
    case (2 p)
    show ?case
    proof (cases c)
      case (CallRegister key ts now)
      have "mono ck \<le> monotonic_ms now" using al CallRegister by (simp add: clock_allows_def)
      moreover have "paused_until_ms s = Some p"
        using CallRegister st 2 register_paused [of s key ts now s' _ p]
        by (cases "register s key ts now") (auto split: sum.splits)
      ultimately show ?thesis using pz [of p] CallRegister by simp
    next
      case (CallPurge now)
      have "mono ck \<le> monotonic_ms now" using al CallPurge by (simp add: clock_allows_def)
      moreover have "paused_until_ms s = Some p" using CallPurge st 2 by (auto simp: purge_fst)
      ultimately show ?thesis using pz [of p] CallPurge by simp
    next
      case (CallLost now)
      have "paused_until_ms s' = Some (sat_add (monotonic_ms now)
          ((sat_mul (window_secs (ns_config s)) 2 + 10) * 1000))"
        using st CallLost by (auto simp: mark_storage_lost_def Let_def STORAGE_RECOVERY_MARGIN_SECS_def)
      with 2 have p: "p = sat_add (monotonic_ms now) ((sat_mul (window_secs (ns_config s)) 2 + 10) * 1000)"
        by simp
      have "p \<le> monotonic_ms now + (sat_mul (window_secs (ns_config s)) 2 + 10) * 1000"
        unfolding p sat_add_def by (rule min.cobounded1)
      moreover have "sat_mul (window_secs (ns_config s)) 2 \<le> window_secs (ns_config s) * 2"
        unfolding sat_mul_def by (rule min.cobounded1)
      ultimately have "p \<le> monotonic_ms now + (2 * window_secs (ns_config s) + 10) * 1000"
        by (simp add: algebra_simps)
      with CallLost show ?thesis by simp
    next
      case (CallRestart now)
      with st 2 pz [of p] show ?thesis
        using restore_inv [OF ni, of now s', THEN conjunct2, THEN conjunct2] restore_total [OF ni, of "snapshot s" now] by auto
    qed
  qed
qed

lemma nonce_call_spent:
  assumes inv: "nonce_clock_inv (s, ck)" and al: "clock_allows s ck b c"
    and st: "nonce_call_step s c = (s', r)" and sp: "nonce_spent (s, ck) kt"
  shows "nonce_spent (s', \<lparr>base = b, mono = monotonic_ms (call_now c)\<rparr>) kt"
proof (cases c)
  case (CallRegister key ts now)
  with st obtain r' where "register s key ts now = (s', r')"
    by (cases "register s key ts now") (auto split: sum.splits)
  from register_spent [OF inv al [unfolded CallRegister] this sp] CallRegister show ?thesis by simp
next
  case (CallPurge now)
  obtain k ts where kt: "kt = (k, ts)" by fastforce
  have t: "base ck \<le> b" "base ck + int (mono ck) \<le> b + int (monotonic_ms now)"
    using al CallPurge by (simp_all add: clock_allows_def)
  have hm: "hm_inv (entries s)" using inv by (simp add: nonce_clock_inv_def ns_inv_def)
  have s': "s' = fst (purge_expired s now)" using CallPurge st by simp
  from purge_spent [OF sp [unfolded kt] hm t, where p = "paused_until_ms s" and s' = s']
  show ?thesis using CallPurge s' kt by (simp add: purge_fst)
next
  case (CallLost now)
  with lost_spent [OF inv al [unfolded CallLost] sp] st show ?thesis by simp
next
  case (CallRestart now)
  show ?thesis
  proof (cases "restore (ns_config s) (snapshot s) now")
    case (Inl e)
    have "ns_inv s" using inv by (simp add: nonce_clock_inv_def)
    then have "restore (ns_config s) (snapshot s) now \<noteq> Inl e"
      by (auto simp: restore_def result_simps nonce_new_def nonce_config_validate_def ns_inv_def)
    with Inl show ?thesis by simp
  next
    case (Inr s2)
    with st CallRestart have "s2 = s'" by simp
    from restart_spent [OF inv al [unfolded CallRestart] Inr [unfolded this] sp] CallRestart
    show ?thesis by simp
  qed
qed

lemma nonce_call_admits:
  assumes inv: "nonce_clock_inv (s, ck)" and al: "clock_allows s ck b c"
    and st: "nonce_call_step s c = (s', Some kt)"
  shows "\<not> nonce_spent (s, ck) kt
    \<and> nonce_spent (s', \<lparr>base = b, mono = monotonic_ms (call_now c)\<rparr>) kt"
proof (cases c)
  case (CallRegister key ts now)
  with st have "register s key ts now = (s', Inr ())" and kt: "kt = (key, ts)"
    by (cases "register s key ts now"; auto split: sum.splits)+
  from register_admits(1,2) [OF inv al [unfolded CallRegister] this(1)] kt CallRegister
  show ?thesis by simp
qed (use st in \<open>auto split: sum.splits\<close>)

interpretation nf: once_if clocked_ok clocked_step nonce_spent nonce_clock_inv
proof unfold_locales
  fix sc and bc :: "int \<times> nonce_call" and sc' kt
  assume inv: "nonce_clock_inv sc" and ok: "clocked_ok sc bc"
  obtain s ck where sc: "sc = (s, ck)" by fastforce
  obtain b c where bc: "bc = (b, c)" by fastforce
  obtain s' r where st: "nonce_call_step s c = (s', r)" by fastforce
  have inv': "nonce_clock_inv (s, ck)" and ok': "clock_allows s ck b c" using inv ok by (simp_all add: sc bc clocked_ok_def)
  have cs: "clocked_step sc bc = ((s', \<lparr>base = b, mono = monotonic_ms (call_now c)\<rparr>), r)"
    by (simp add: clocked_step_def sc bc st)
  show "nonce_clock_inv (fst (clocked_step sc bc))"
    using nonce_call_clock_inv [OF inv' ok' st] by (simp add: cs)
  show "nonce_spent (fst (clocked_step sc bc)) kt" if "nonce_spent sc kt"
    using nonce_call_spent [OF inv' ok' st] that unfolding cs by (simp add: sc)
  show "\<not> nonce_spent sc kt \<and> nonce_spent sc' kt" if "clocked_step sc bc = (sc', Some kt)"
    using nonce_call_admits [OF inv' ok', of s' kt] that st unfolding cs by (auto simp: sc)
qed

text \<open>Evaluation on concrete calls.\<close>

lemmas nonce_eval = register_def timestamp_acceptable_def wrap_i64_def observe_wall_def purge_expired_def
  admit_nonce_def ns_contains_def node_len_def count_node_def forget_node_def node_of_def clamp_i64_def
  sat_add_def sat_mul_def int_range_defs NonceStoreConfig_default_def limit_defs Let_def

section \<open>Properties\<close>

text \<open>C16: Over any sequence of registrations, purges, storage losses and restarts from a snapshot that is made under a
  steady clock, no nonce is accepted twice with the same signed timestamp: expired records are dropped only when their
  timestamp has left the window, a loss closes the store for long enough, and a restart keeps what still matters. The
  clock is steady when wall and monotonic readings agree with one time that never goes back, the wall clock is stepped
  forward at most (never set back or lagging), the monotonic clock restarts only with the process, and no restart falls
  into the hold that follows a loss (the hold is not part of the snapshot).\<close>

theorem nonce_accepted_at_most_once:
  assumes "nonce_new cfg = Inr s" and "steady_clock s \<lparr>base = b, mono = m\<rparr> calls"
  shows "distinct (granted nonce_call_step s (map snd calls))"
proof -
  from ns_inv_new [OF assms(1)] assms(1) have "nonce_clock_inv (s, \<lparr>base = b, mono = m\<rparr>)"
    by (auto simp: nonce_clock_inv_def nonce_new_Inr)
  from nf.admitted_distinct [OF this] assms(2) show ?thesis by (simp add: clocked_run)
qed

text \<open>A nonce is presented, and replayed with the same timestamp 120 seconds later; the store is declared lost, restarts
  when the hold is over, and the nonce is replayed once more: one admission.\<close>

theorem nonce_accepted_at_most_once_witness:
  "let k = \<lparr>nk_hub_id = ''h'', nk_key_id = ''k'', nk_node_id = ''n'', nk_nonce = [1]\<rparr>;
       cs = [(1000000, CallRegister k 1100 \<lparr>wall_secs = 1000, monotonic_ms = 0\<rparr>),
             (1000000, CallRegister k 1100 \<lparr>wall_secs = 1120, monotonic_ms = 120000\<rparr>),
             (1000000, CallLost \<lparr>wall_secs = 1130, monotonic_ms = 130000\<rparr>),
             (1380000, CallRestart \<lparr>wall_secs = 1380, monotonic_ms = 0\<rparr>),
             (1380000, CallRegister k 1100 \<lparr>wall_secs = 1381, monotonic_ms = 1000\<rparr>)];
       s = \<lparr>ns_config = NonceStoreConfig_default, entries = [], per_node = [], last_wall_secs = None,
            paused_until_ms = None\<rparr>
   in nonce_new NonceStoreConfig_default = Inr s
    \<and> snd (register s k 1100 \<lparr>wall_secs = 1000, monotonic_ms = 0\<rparr>) = Inr ()
    \<and> distinct (granted nonce_call_step s (map snd cs))"
proof -
  let ?s = "\<lparr>ns_config = NonceStoreConfig_default, entries = [], per_node = [], last_wall_secs = None,
            paused_until_ms = None\<rparr>"
  let ?k = "\<lparr>nk_hub_id = ''h'', nk_key_id = ''k'', nk_node_id = ''n'', nk_nonce = [1]\<rparr>"
  let ?s1 = "\<lambda>w. \<lparr>ns_config = NonceStoreConfig_default, entries = [(?k, \<lparr>retain_until_ms = 221000, last_acceptable_wall = 1220\<rparr>)],
       per_node = [((''h'', ''n''), 1)], last_wall_secs = Some w, paused_until_ms = None\<rparr>"
  have new: "nonce_new NonceStoreConfig_default = Inr ?s"
    by (simp add: nonce_new_Inr NonceStoreConfig_default_def limit_defs)
  have r1: "register ?s ?k 1100 \<lparr>wall_secs = 1000, monotonic_ms = 0\<rparr> = (?s1 1000, Inr ())" by (simp add: nonce_eval)
  have r2: "register (?s1 1000) ?k 1100 \<lparr>wall_secs = 1120, monotonic_ms = 120000\<rparr> = (?s1 1120, Inl Duplicate)"
    by (simp add: nonce_eval)
  have r3: "paused_until_ms (mark_storage_lost (?s1 1120) \<lparr>wall_secs = 1130, monotonic_ms = 130000\<rparr>) = Some 380000"
    by (simp add: mark_storage_lost_def STORAGE_RECOVERY_MARGIN_SECS_def nonce_eval)
  have "steady_clock ?s \<lparr>base = 1000000, mono = 0\<rparr>
      [(1000000, CallRegister ?k 1100 \<lparr>wall_secs = 1000, monotonic_ms = 0\<rparr>),
       (1000000, CallRegister ?k 1100 \<lparr>wall_secs = 1120, monotonic_ms = 120000\<rparr>),
       (1000000, CallLost \<lparr>wall_secs = 1130, monotonic_ms = 130000\<rparr>),
       (1380000, CallRestart \<lparr>wall_secs = 1380, monotonic_ms = 0\<rparr>),
       (1380000, CallRegister ?k 1100 \<lparr>wall_secs = 1381, monotonic_ms = 1000\<rparr>)]"
    by (simp add: r1 r2 [simplified] r3 [simplified] clock_allows_def hold_over_def reads_def i64_range_def int_range_defs)
  from nonce_accepted_at_most_once [OF new this] r1 new show ?thesis by (simp only: Let_def list.map snd_conv)
qed

text \<open>Whatever the calls and clock readings, the store never holds more records than its global
  cap, no node ever has more than its own cap, and the per-node counters are exactly the numbers of
  records held.\<close>

theorem nonce_store_bounded:
  assumes "nonce_new cfg = Inr s"
  shows "let s' = foldl (\<lambda>s c. fst (nonce_call_step s c)) s calls in
     length (entries s') \<le> global_max cfg
   \<and> node_len s' hub_id node_id = node_entries (entries s') (hub_id, node_id)
   \<and> node_len s' hub_id node_id \<le> per_node_max cfg"
proof -
  let ?s' = "foldl (\<lambda>s c. fst (nonce_call_step s c)) s calls"
  have "ns_inv s \<Longrightarrow> ns_inv (foldl (\<lambda>s c. fst (nonce_call_step s c)) s calls)
      \<and> ns_config (foldl (\<lambda>s c. fst (nonce_call_step s c)) s calls) = ns_config s" for s
    by (induction calls arbitrary: s) (simp_all add: nonce_call_inv nonce_call_config)
  with ns_inv_new [OF assms] assms have inv: "ns_inv ?s'" and cfg: "ns_config ?s' = cfg"
    by (auto simp: nonce_new_Inr)
  have ce: "counters_exact (per_node ?s') (entries ?s')" using inv by (simp add: ns_inv_def)
  have "node_entries (entries ?s') (hub_id, node_id) \<le> per_node_max (ns_config ?s')"
    using inv by (simp only: ns_inv_def)
  moreover have "length (entries ?s') \<le> global_max (ns_config ?s')"
    using inv by (simp only: ns_inv_def)
  ultimately show ?thesis unfolding Let_def cfg node_len_exact [OF ce] by simp
qed

theorem nonce_store_bounded_witness:
  "let cfg = NonceStoreConfig_default;
       s' = foldl (\<lambda>s c. fst (nonce_call_step s c))
         \<lparr>ns_config = cfg, entries = [], per_node = [], last_wall_secs = None, paused_until_ms = None\<rparr>
         [CallPurge \<lparr>wall_secs = 0, monotonic_ms = 0\<rparr>] in
     length (entries s') \<le> global_max cfg
   \<and> node_len s' ''h'' ''n'' = node_entries (entries s') (''h'', ''n'')
   \<and> node_len s' ''h'' ''n'' \<le> per_node_max cfg"
  unfolding Let_def
  by (rule nonce_store_bounded [unfolded Let_def])
    (simp add: nonce_new_Inr NonceStoreConfig_default_def limit_defs)


text \<open>Without that clock assumption a nonce can be accepted twice: when the wall clock lags the
  monotonic clock (here it still reads 1220 when 221 seconds have passed since it read 1000), the
  record is dropped by the monotonic deadline while its timestamp is still inside the wall-clock
  window, and the same authentication is accepted again.\<close>

theorem nonce_lagging_wall_clock_readmits:
  "let k = \<lparr>nk_hub_id = [], nk_key_id = [], nk_node_id = [], nk_nonce = []\<rparr>;
       s0 = \<lparr>ns_config = NonceStoreConfig_default, entries = [], per_node = [], last_wall_secs = None,
            paused_until_ms = None\<rparr>
   in nonce_new NonceStoreConfig_default = Inr s0
    \<and> (\<exists>s1 s2 s3.
        register s0 k 1100 \<lparr>wall_secs = 1000, monotonic_ms = 0\<rparr> = (s1, Inr ())
      \<and> register s1 k 1100 \<lparr>wall_secs = 1220, monotonic_ms = 220999\<rparr> = (s2, Inl Duplicate)
      \<and> register s2 k 1100 \<lparr>wall_secs = 1220, monotonic_ms = 221000\<rparr> = (s3, Inr ()))"
proof -
  let ?k = "\<lparr>nk_hub_id = [], nk_key_id = [], nk_node_id = [], nk_nonce = []\<rparr>"
  let ?s0 = "\<lparr>ns_config = NonceStoreConfig_default, entries = [], per_node = [], last_wall_secs = None,
            paused_until_ms = None\<rparr>"
  let ?s1 = "?s0\<lparr>entries := [(?k, \<lparr>retain_until_ms = 221000, last_acceptable_wall = 1220\<rparr>)],
       per_node := [(([], []), 1)], last_wall_secs := Some 1000\<rparr>"
  let ?s2 = "?s1\<lparr>last_wall_secs := Some 1220\<rparr>"
  have "register ?s0 ?k 1100 \<lparr>wall_secs = 1000, monotonic_ms = 0\<rparr> = (?s1, Inr ())"
    by (simp add: nonce_eval)
  moreover have "register ?s1 ?k 1100 \<lparr>wall_secs = 1220, monotonic_ms = 220999\<rparr> = (?s2, Inl Duplicate)"
    by (simp add: nonce_eval)
  moreover have "snd (register ?s2 ?k 1100 \<lparr>wall_secs = 1220, monotonic_ms = 221000\<rparr>) = Inr ()"
  proof -
    have "purge_expired ?s2 \<lparr>wall_secs = 1220, monotonic_ms = 221000\<rparr>
        = (?s2\<lparr>entries := [], per_node := []\<rparr>, 1)"
      by (simp add: nonce_eval)
    moreover have "observe_wall ?s2 \<lparr>wall_secs = 1220, monotonic_ms = 221000\<rparr> = (?s2, Inr ())"
      "timestamp_acceptable ?s2 1100 1220"
      by (simp_all add: nonce_eval)
    ultimately have eq: "register ?s2 ?k 1100 \<lparr>wall_secs = 1220, monotonic_ms = 221000\<rparr>
        = admit_nonce (?s2\<lparr>entries := [], per_node := []\<rparr>) ?k 1100 \<lparr>wall_secs = 1220, monotonic_ms = 221000\<rparr>"
      by (simp add: register_def)
    show ?thesis unfolding eq
      by (simp add: admit_nonce_def ns_contains_def node_len_def Let_def NonceStoreConfig_default_def limit_defs)
  qed
  moreover have "nonce_new NonceStoreConfig_default = Inr ?s0"
    by (simp add: nonce_new_Inr nonce_eval)
  ultimately show ?thesis unfolding Let_def by (metis prod.collapse)
qed

end
