(* ===== verification/Text.thy ===== *)
theory Text
  imports Prelude
begin

text \<open>
  The parts of Rust's standard library on text that the sources use: UTF-8 (\<open>char::encode_utf8\<close>,
  \<open>String::from_utf8\<close>, \<open>str::chars\<close>, \<open>char::from_u32\<close>) and decimal integers (\<open>to_string\<close>,
  \<open>str::parse\<close>). A \<open>char\<close> of Rust is a Unicode scalar value, a \<open>nat\<close> here.
\<close>

section \<open>UTF-8\<close>

definition scalar :: "nat \<Rightarrow> bool" where
  "scalar c \<longleftrightarrow> c < 0xD800 \<or> (0xE000 \<le> c \<and> c \<le> 0x10FFFF)"

definition char_from_u32 :: "nat \<Rightarrow> nat option" where
  "char_from_u32 n = (if scalar n then Some n else None)"

definition encode_utf8 :: "nat \<Rightarrow> bytes" where
  "encode_utf8 c =
     (if c < 0x80 then [word_of_nat c]
      else if c < 0x800 then [word_of_nat (0xC0 + c div 64), word_of_nat (0x80 + c mod 64)]
      else if c < 0x10000 then
        [word_of_nat (0xE0 + c div 4096), word_of_nat (0x80 + c div 64 mod 64), word_of_nat (0x80 + c mod 64)]
      else
        [word_of_nat (0xF0 + c div 262144), word_of_nat (0x80 + c div 4096 mod 64),
         word_of_nat (0x80 + c div 64 mod 64), word_of_nat (0x80 + c mod 64)])"

text \<open>One scalar value from the front, by the table of well-formed sequences.\<close>

definition cont :: "u8 \<Rightarrow> bool" where
  "cont b \<longleftrightarrow> 0x80 \<le> unat b \<and> unat b \<le> 0xBF"

fun utf8_next :: "bytes \<Rightarrow> (nat \<times> bytes) option" where
  "utf8_next [] = None"
| "utf8_next (b0 # bs) =
     (let x = unat b0 in
      if x < 0x80 then Some (x, bs)
      else if 0xC2 \<le> x \<and> x \<le> 0xDF then
        (case bs of
           b1 # r \<Rightarrow> if cont b1 then Some ((x - 0xC0) * 64 + (unat b1 - 0x80), r) else None
         | _ \<Rightarrow> None)
      else if 0xE0 \<le> x \<and> x \<le> 0xEF then
        (case bs of
           b1 # b2 # r \<Rightarrow>
             if cont b1 \<and> cont b2 \<and> (x = 0xE0 \<longrightarrow> 0xA0 \<le> unat b1) \<and> (x = 0xED \<longrightarrow> unat b1 \<le> 0x9F)
             then Some ((x - 0xE0) * 4096 + (unat b1 - 0x80) * 64 + (unat b2 - 0x80), r) else None
         | _ \<Rightarrow> None)
      else if 0xF0 \<le> x \<and> x \<le> 0xF4 then
        (case bs of
           b1 # b2 # b3 # r \<Rightarrow>
             if cont b1 \<and> cont b2 \<and> cont b3 \<and> (x = 0xF0 \<longrightarrow> 0x90 \<le> unat b1) \<and> (x = 0xF4 \<longrightarrow> unat b1 \<le> 0x8F)
             then Some ((x - 0xF0) * 262144 + (unat b1 - 0x80) * 4096 + (unat b2 - 0x80) * 64
                        + (unat b3 - 0x80), r) else None
         | _ \<Rightarrow> None)
      else None)"

lemma utf8_next_shorter: "utf8_next bs = Some (c, r) \<Longrightarrow> length r < length bs"
  by (cases bs) (auto simp: Let_def split: if_splits list.splits)

function utf8_decode :: "bytes \<Rightarrow> nat list option" where
  "utf8_decode bs =
     (if bs = [] then Some []
      else case utf8_next bs of
             None \<Rightarrow> None
           | Some (c, r) \<Rightarrow> map_option (Cons c) (utf8_decode r))"
  by pat_completeness auto
termination
  by (relation "measure length") (auto dest: utf8_next_shorter)

declare utf8_decode.simps [simp del]

definition valid_utf8 :: "bytes \<Rightarrow> bool" where
  "valid_utf8 bs \<longleftrightarrow> utf8_decode bs \<noteq> None"

definition from_utf8 :: "bytes \<Rightarrow> string option" where
  "from_utf8 bs = (if valid_utf8 bs then Some (string_of_bytes bs) else None)"

text \<open>\<open>str::chars\<close>; the second case does not arise for a Rust string.\<close>

definition chars :: "string \<Rightarrow> nat list" where
  "chars s = (case utf8_decode (as_bytes s) of Some cs \<Rightarrow> cs | None \<Rightarrow> [])"

lemma unat_u8_bound: "unat (b :: u8) < 256"
  using unsigned_less [of b, where ?'a = nat] by simp

lemma word_of_nat_unat [simp]: "(word_of_nat (unat (b :: u8)) :: u8) = b"
  by simp

lemma unat_lead [simp]:
  "numeral k + m < 256 \<Longrightarrow> unat (numeral k + word_of_nat m :: u8) = numeral k + m"
  by (metis mod_less of_nat_add of_nat_numeral unat_byte_of_nat)

lemma mul_add_mod: "(l :: nat) < k \<Longrightarrow> (q * k + l) mod k = l"
  by simp

lemma mul_add_div: "(l :: nat) < k \<Longrightarrow> (q * k + l) div k = q"
  by simp

text \<open>A scalar value in base 64.\<close>

lemma base64_div:
  fixes a m l :: nat
  assumes "m < 64" "l < 64"
  shows "(a * 4096 + m * 64 + l) mod 64 = l" "(a * 4096 + m * 64 + l) div 64 = a * 64 + m"
    "(a * 4096 + m * 64 + l) div 4096 = a"
proof -
  have e: "a * 4096 + m * 64 + l = (a * 64 + m) * 64 + l" by simp
  show "(a * 4096 + m * 64 + l) mod 64 = l" unfolding e using assms(2) by (rule mul_add_mod)
  show "(a * 4096 + m * 64 + l) div 64 = a * 64 + m" unfolding e using assms(2) by (rule mul_add_div)
  have "m * 64 + l < 4096" using assms by linarith
  then show "(a * 4096 + m * 64 + l) div 4096 = a"
    unfolding add.assoc by (rule mul_add_div)
qed

lemma base64_digits:
  fixes c :: nat
  obtains h a m l where "c = h * 262144 + a * 4096 + m * 64 + l" "a < 64" "m < 64" "l < 64"
proof
  show "c = (c div 262144) * 262144 + (c div 4096 mod 64) * 4096 + (c div 64 mod 64) * 64 + c mod 64"
  proof -
    have "c div 64 = c div 4096 * 64 + c div 64 mod 64" "c div 4096 = c div 262144 * 64 + c div 4096 mod 64"
      using div_mod_decomp [of "c div 64" 64] div_mod_decomp [of "c div 4096" 64]
      by (simp_all add: div_mult2_eq [symmetric])
    moreover have "c = c div 64 * 64 + c mod 64" by simp
    ultimately show ?thesis by linarith
  qed
qed simp_all

lemma utf8_next_encode: "scalar c \<Longrightarrow> utf8_next (encode_utf8 c @ r) = Some (c, r)"
proof -
  assume sc: "scalar c"
  obtain h a m l where c: "c = h * 262144 + a * 4096 + m * 64 + l" and lt: "a < 64" "m < 64" "l < 64"
    by (rule base64_digits)
  have c': "c = (h * 64 + a) * 4096 + m * 64 + l" by (simp add: c)
  have d: "c mod 64 = l" "c div 64 = (h * 64 + a) * 64 + m" "c div 4096 = h * 64 + a"
    unfolding c' by (rule base64_div [OF lt(2,3)])+
  have d4: "c div 262144 = h"
    using lt d(3) div_mult2_eq [of c 4096 64] by simp
  have dm: "c div 64 mod 64 = m" "c div 4096 mod 64 = a"
    unfolding d using lt by (simp_all only: mul_add_mod)
  consider "c < 0x80" | "0x80 \<le> c" "c < 0x800" | "0x800 \<le> c" "c < 0x10000" | "0x10000 \<le> c" by linarith
  then show ?thesis
  proof cases
    case 1
    then show ?thesis by (simp add: encode_utf8_def)
  next
    case 2
    with c lt have z: "h = 0" "a = 0" by auto
    with 2 c lt have m: "m < 32" "2 \<le> m" by linarith+
    have "encode_utf8 c = [192 + word_of_nat m, 128 + word_of_nat l]"
      using 2 z d(1,2) by (simp add: encode_utf8_def)
    with z m lt show ?thesis by (simp add: cont_def Let_def c)
  next
    case 3
    with c lt have h: "h = 0" "a < 16" by auto
    have lo: "a = 0 \<Longrightarrow> 32 \<le> m" using 3 c lt h by auto
    have hi: "a = 13 \<Longrightarrow> m < 32" using 3 c lt h sc by (auto simp: scalar_def)
    have "encode_utf8 c = [224 + word_of_nat a, 128 + word_of_nat m, 128 + word_of_nat l]"
      using 3 h d(1,3) dm(1) by (simp add: encode_utf8_def)
    with h lo hi lt show ?thesis by (auto simp: cont_def Let_def c)
  next
    case 4
    with sc have "c \<le> 0x10FFFF" by (simp add: scalar_def)
    with 4 c lt have h: "h < 5" by auto
    have lo: "h = 0 \<Longrightarrow> 16 \<le> a" using 4 c lt h by auto
    have hi: "h = 4 \<Longrightarrow> a < 16" using \<open>c \<le> 0x10FFFF\<close> c lt h by auto
    have "encode_utf8 c = [240 + word_of_nat h, 128 + word_of_nat a, 128 + word_of_nat m, 128 + word_of_nat l]"
      using 4 d(1) d4 dm by (simp add: encode_utf8_def)
    with h lo hi lt show ?thesis by (auto simp: cont_def Let_def c)
  qed
qed

lemma byte_add [simp]: "numeral x \<le> unat b \<Longrightarrow> (numeral x + word_of_nat (unat b - numeral x) :: u8) = b"
  by (metis le_add_diff_inverse of_nat_add of_nat_numeral word_of_nat_unat)

lemma encode_utf8_next: "utf8_next bs = Some (c, r) \<Longrightarrow> encode_utf8 c @ r = bs \<and> scalar c"
proof -
  assume n: "utf8_next bs = Some (c, r)"
  then obtain b0 bs' where bs: "bs = b0 # bs'" by (cases bs) auto
  let ?x = "unat b0"
  consider (one) "?x < 0x80" | (two) "0xC2 \<le> ?x" "?x \<le> 0xDF" | (three) "0xE0 \<le> ?x" "?x \<le> 0xEF"
    | (four) "0xF0 \<le> ?x" "?x \<le> 0xF4"
    using n by (auto simp: bs Let_def split: if_splits)
  then show ?thesis
  proof cases
    case one
    with n show ?thesis by (auto simp: bs encode_utf8_def scalar_def)
  next
    case two
    with n obtain b1 where bs': "bs' = b1 # r" "cont b1" and c: "c = (?x - 0xC0) * 64 + (unat b1 - 0x80)"
      by (auto simp: bs Let_def split: list.splits if_splits)
    have lt: "unat b1 - 0x80 < 64" using bs'(2) by (auto simp: cont_def)
    have "0x80 \<le> c" "c < 0x800" "c div 64 = ?x - 0xC0" "c mod 64 = unat b1 - 0x80"
      using two lt by (auto simp: c)
    with two bs' show ?thesis by (auto simp: bs encode_utf8_def scalar_def cont_def)
  next
    case three
    with n obtain b1 b2 where bs': "bs' = b1 # b2 # r" "cont b1" "cont b2"
        and ex: "?x = 0xE0 \<Longrightarrow> 0xA0 \<le> unat b1" "?x = 0xED \<Longrightarrow> unat b1 \<le> 0x9F"
        and c: "c = (?x - 0xE0) * 4096 + (unat b1 - 0x80) * 64 + (unat b2 - 0x80)"
      by (auto simp: bs Let_def split: list.splits if_splits)
    have lt: "unat b1 - 0x80 < 64" "unat b2 - 0x80 < 64" using bs'(2,3) by (auto simp: cont_def)
    note d = base64_div [OF lt, of "?x - 0xE0", folded c]
    have dm: "c div 64 mod 64 = unat b1 - 0x80" unfolding d using lt(1) by (rule mul_add_mod)
    have "0x800 \<le> c" using three ex(1) c by (cases "?x = 0xE0") auto
    moreover have "c < 0x10000" using three lt c by linarith
    moreover have "scalar c"
      using three ex(2) lt c unfolding scalar_def
      by (cases ?x "0xED :: nat" rule: linorder_cases) linarith+
    ultimately show ?thesis using three bs' d(1,3) dm by (auto simp: bs encode_utf8_def cont_def)
  next
    case four
    with n obtain b1 b2 b3 where bs': "bs' = b1 # b2 # b3 # r" "cont b1" "cont b2" "cont b3"
        and ex: "?x = 0xF0 \<Longrightarrow> 0x90 \<le> unat b1" "?x = 0xF4 \<Longrightarrow> unat b1 \<le> 0x8F"
        and c: "c = (?x - 0xF0) * 262144 + (unat b1 - 0x80) * 4096 + (unat b2 - 0x80) * 64 + (unat b3 - 0x80)"
      by (auto simp: bs Let_def split: list.splits if_splits)
    have lt: "unat b1 - 0x80 < 64" "unat b2 - 0x80 < 64" "unat b3 - 0x80 < 64"
      using bs'(2-4) by (auto simp: cont_def)
    have c': "c = ((?x - 0xF0) * 64 + (unat b1 - 0x80)) * 4096 + (unat b2 - 0x80) * 64 + (unat b3 - 0x80)"
      by (simp add: c)
    note d = base64_div [OF lt(2,3), of "(?x - 0xF0) * 64 + (unat b1 - 0x80)", folded c']
    have d4: "c div 262144 = ?x - 0xF0"
      using lt(1) d(3) div_mult2_eq [of c 4096 64] by simp
    have dm: "c div 64 mod 64 = unat b2 - 0x80" "c div 4096 mod 64 = unat b1 - 0x80"
      unfolding d using lt by (simp_all only: mul_add_mod)
    have "0x10000 \<le> c" using four ex(1) c by (cases "?x = 0xF0") auto
    moreover have "c \<le> 0x10FFFF" using four ex(2) lt c by linarith
    ultimately show ?thesis
      using four bs' d(1) d4 dm by (auto simp: bs encode_utf8_def cont_def scalar_def)
  qed
qed

lemma utf8_decode_Nil [simp]: "utf8_decode [] = Some []"
  by (simp add: utf8_decode.simps)

lemma encode_utf8_not_Nil [simp]: "encode_utf8 c \<noteq> []"
  by (simp add: encode_utf8_def)

lemma utf8_decode_encode:
  "scalar c \<Longrightarrow> utf8_decode (encode_utf8 c @ r) = map_option (Cons c) (utf8_decode r)"
  by (subst utf8_decode.simps) (simp add: utf8_next_encode)

lemma utf8_decode_concat:
  "\<forall>c \<in> set cs. scalar c \<Longrightarrow> utf8_decode (concat (map encode_utf8 cs)) = Some cs"
  by (induction cs) (auto simp: utf8_decode_encode)

text \<open>Decoding loses nothing: the scalar values encode to the bytes they came from.\<close>

lemma utf8_decode_sound:
  "utf8_decode bs = Some cs \<Longrightarrow> concat (map encode_utf8 cs) = bs \<and> (\<forall>c \<in> set cs. scalar c)"
proof (induction bs arbitrary: cs rule: utf8_decode.induct)
  case (1 bs)
  show ?case
  proof (cases "bs = []")
    case True
    with 1(2) show ?thesis by simp
  next
    case False
    with 1(2) obtain c r cs' where n: "utf8_next bs = Some (c, r)" and r: "utf8_decode r = Some cs'"
      and cs: "cs = c # cs'"
      by (subst (asm) utf8_decode.simps) (auto split: option.splits)
    from 1(1) [OF False n refl r] encode_utf8_next [OF n] cs show ?thesis by auto
  qed
qed

text \<open>Every byte of a multi-byte sequence is at least 0x80.\<close>

lemma encode_utf8_high: "0x80 \<le> c \<Longrightarrow> scalar c \<Longrightarrow> b \<in> set (encode_utf8 c) \<Longrightarrow> 0x80 \<le> unat b"
proof -
  assume c: "0x80 \<le> c" "scalar c" and b: "b \<in> set (encode_utf8 c)"
  have m: "x mod 64 < 128" for x :: nat by (rule less_trans [OF mod_less_divisor]) simp_all
  have d: "c < 0x800 \<Longrightarrow> c div 64 < 64" "c < 0x10000 \<Longrightarrow> c div 4096 < 32" "c div 262144 < 16"
    using c(2) by (auto simp: scalar_def div_less_iff_less_mult)
  from c b m d show ?thesis
    by (auto simp: encode_utf8_def split: if_splits)
qed

lemma chars_sound: "valid_utf8 (as_bytes s) \<Longrightarrow>
   concat (map encode_utf8 (chars s)) = as_bytes s \<and> (\<forall>c \<in> set (chars s). scalar c)"
  using utf8_decode_sound [of "as_bytes s"] by (auto simp: chars_def valid_utf8_def)

lemma from_utf8_as_bytes: "valid_utf8 (as_bytes s) \<Longrightarrow> from_utf8 (as_bytes s) = Some s"
  by (simp add: from_utf8_def)

text \<open>ASCII text is valid.\<close>

lemma valid_utf8_ascii: "\<forall>b \<in> set bs. unat b < 0x80 \<Longrightarrow> valid_utf8 bs"
proof (induction bs)
  case (Cons b bs)
  then show ?case by (auto simp: valid_utf8_def utf8_decode.simps [of "b # bs"] Let_def)
qed (simp add: valid_utf8_def)

lemma chars_ascii: "\<forall>c \<in> set s. (of_char c :: nat) < 0x80 \<Longrightarrow> chars s = map of_char s"
proof -
  have "utf8_decode (as_bytes s) = Some (map of_char s)" if "\<forall>c \<in> set s. (of_char c :: nat) < 0x80"
    using that
  proof (induction s)
    case (Cons c s)
    have "unat (byte_of_char c) = of_char c"
      using nat_of_char_less_256 [of c] by (simp add: byte_of_char_def)
    with Cons show ?case by (simp add: utf8_decode.simps [of "_ # _"])
  qed simp
  then show "\<forall>c \<in> set s. (of_char c :: nat) < 0x80 \<Longrightarrow> chars s = map of_char s"
    by (simp add: chars_def)
qed

section \<open>Decimal integers\<close>

definition digit_char :: "nat \<Rightarrow> char" where
  "digit_char d = char_of (48 + d)"

function dec :: "nat \<Rightarrow> string" where
  "dec n = (if n < 10 then [digit_char n] else dec (n div 10) @ [digit_char (n mod 10)])"
  by pat_completeness auto
termination by (relation "measure id") auto

declare dec.simps [simp del]

text \<open>\<open>i64::to_string\<close>.\<close>

definition int_to_string :: "int \<Rightarrow> string" where
  "int_to_string i = (if i < 0 then CHR ''-'' # dec (nat (- i)) else dec (nat i))"

definition is_digit :: "char \<Rightarrow> bool" where
  "is_digit c \<longleftrightarrow> 48 \<le> (of_char c :: nat) \<and> (of_char c :: nat) \<le> 57"

definition digit_val :: "char \<Rightarrow> nat" where
  "digit_val c = of_char c - 48"

definition dec_val :: "string \<Rightarrow> nat" where
  "dec_val s = foldl (\<lambda>a c. a * 10 + digit_val c) 0 s"

text \<open>\<open>str::parse::<uN>\<close> for a type with the given maximum: an optional plus sign, at least one
  digit, no overflow.\<close>

definition parse_unsigned :: "nat \<Rightarrow> string \<Rightarrow> nat option" where
  "parse_unsigned mx s =
     (let ds = (case s of c # r \<Rightarrow> if c = CHR ''+'' then r else s | [] \<Rightarrow> s) in
      if ds \<noteq> [] \<and> list_all is_digit ds \<and> dec_val ds \<le> mx then Some (dec_val ds) else None)"

lemma digit_char_props [simp]:
  "d < 10 \<Longrightarrow> is_digit (digit_char d)" "d < 10 \<Longrightarrow> digit_val (digit_char d) = d"
  by (simp_all add: is_digit_def digit_char_def digit_val_def)

lemma dec_val_snoc: "dec_val (s @ [c]) = dec_val s * 10 + digit_val c"
  by (simp add: dec_val_def)

lemma dec_val_dec [simp]: "dec_val (dec n) = n"
proof (induction n rule: dec.induct)
  case (1 n)
  show ?case
  proof (cases "n < 10")
    case True
    then show ?thesis by (simp add: dec.simps [of n] dec_val_def)
  next
    case False
    with 1 show ?thesis by (subst dec.simps) (simp add: dec_val_snoc)
  qed
qed

lemma dec_digits: "list_all is_digit (dec n)"
  by (induction n rule: dec.induct) (subst dec.simps, simp)

lemma dec_not_Nil [simp]: "dec n \<noteq> []"
  by (subst dec.simps) simp

text \<open>No leading zero.\<close>

lemma dec_head: "0 < n \<Longrightarrow> hd (dec n) \<noteq> digit_char 0"
proof (induction n rule: dec.induct)
  case (1 n)
  show ?case
  proof (cases "n < 10")
    case True
    then have "digit_val (hd (dec n)) = n" by (simp add: dec.simps [of n])
    with 1(2) show ?thesis by auto
  next
    case False
    with 1 show ?thesis by (subst dec.simps) simp
  qed
qed

lemma digit_char_0: "digit_char 0 = CHR ''0''"
  by code_simp

lemma dec_0: "dec 0 = ''0''"
  by (simp add: dec.simps digit_char_0)

lemma parse_unsigned_dec [simp]: "n \<le> mx \<Longrightarrow> parse_unsigned mx (dec n) = Some n"
proof -
  assume n: "n \<le> mx"
  obtain c r where d: "dec n = c # r" by (cases "dec n") auto
  then have "is_digit c" using dec_digits [of n] by simp
  then have "c \<noteq> CHR ''+''" by (auto simp: is_digit_def)
  with n d dec_digits [of n] show ?thesis
    by (simp add: parse_unsigned_def Let_def) (metis d dec_val_dec)
qed

text \<open>\<open>str::parse::<i64>\<close>: an optional sign, at least one digit, in range.\<close>

definition parse_i64 :: "string \<Rightarrow> int option" where
  "parse_i64 s =
     (let neg = (s \<noteq> [] \<and> hd s = CHR ''-'');
          ds = (case s of c # r \<Rightarrow> if c = CHR ''+'' \<or> c = CHR ''-'' then r else s | [] \<Rightarrow> s);
          v = (if neg then - int (dec_val ds) else int (dec_val ds))
      in if ds \<noteq> [] \<and> list_all is_digit ds \<and> i64_range v then Some v else None)"

lemma parse_i64_to_string [simp]: "i64_range i \<Longrightarrow> parse_i64 (int_to_string i) = Some i"
proof (cases "i < 0")
  case True
  then show "i64_range i \<Longrightarrow> ?thesis" using dec_digits [of "nat (- i)"] by (simp add: parse_i64_def int_to_string_def)
next
  case False
  obtain c t where d: "dec (nat i) = c # t" using dec_not_Nil [of "nat i"] by (cases "dec (nat i)") auto
  have "is_digit c" using dec_digits [of "nat i"] d by simp
  then have "c \<noteq> CHR ''+''" "c \<noteq> CHR ''-''" by (auto simp: is_digit_def)
  with False d dec_digits [of "nat i"] dec_val_dec [of "nat i"] show "i64_range i \<Longrightarrow> ?thesis"
    by (simp add: parse_i64_def int_to_string_def)
qed

section \<open>Splitting and trimming\<close>

text \<open>\<open>str::split(c)\<close> for an ASCII separator.\<close>

fun split_on :: "char \<Rightarrow> string \<Rightarrow> string list" where
  "split_on c [] = [[]]"
| "split_on c (x # xs) =
     (if x = c then [] # split_on c xs
      else case split_on c xs of p # ps \<Rightarrow> (x # p) # ps | [] \<Rightarrow> [[x]])"

lemma split_on_not_Nil [simp]: "split_on c s \<noteq> []"
  by (induction s) (auto split: list.splits)

lemma split_on_app: "c \<notin> set a \<Longrightarrow> split_on c (a @ c # b) = a # split_on c b"
  by (induction a) auto

lemma split_on_last: "c \<notin> set a \<Longrightarrow> split_on c a = [a]"
  by (induction a) auto

text \<open>\<open>char::is_whitespace\<close> (the Unicode property \<open>White_Space\<close>) and \<open>str::trim\<close>.\<close>

definition is_whitespace :: "nat \<Rightarrow> bool" where
  "is_whitespace c \<longleftrightarrow> 9 \<le> c \<and> c \<le> 13 \<or> c = 0x20 \<or> c = 0x85 \<or> c = 0xA0 \<or> c = 0x1680
     \<or> 0x2000 \<le> c \<and> c \<le> 0x200A \<or> c = 0x2028 \<or> c = 0x2029 \<or> c = 0x202F \<or> c = 0x205F \<or> c = 0x3000"

definition trim :: "string \<Rightarrow> string" where
  "trim s = string_of_bytes (concat (map encode_utf8
     (rev (dropWhile is_whitespace (rev (dropWhile is_whitespace (chars s)))))))"

lemma dropWhile_none: "\<forall>x \<in> set xs. \<not> P x \<Longrightarrow> dropWhile P xs = xs"
  by (cases xs) auto

lemma trim_plain: "\<forall>c \<in> set s. 0x20 < (of_char c :: nat) \<and> (of_char c :: nat) < 0x80 \<Longrightarrow> trim s = s"
proof -
  assume s: "\<forall>c \<in> set s. 0x20 < (of_char c :: nat) \<and> (of_char c :: nat) < 0x80"
  then have "\<forall>c \<in> set (map of_char s :: nat list). \<not> is_whitespace c" by (auto simp: is_whitespace_def)
  then have "trim s = string_of_bytes (concat (map encode_utf8 (map of_char s)))"
    using s by (simp add: trim_def chars_ascii dropWhile_none)
  also have "\<dots> = s"
    using s by (induction s) (auto simp: encode_utf8_def string_of_bytes_def char_of_byte_def byte_of_char_def)
  finally show ?thesis .
qed

end
