(* ===== verification/Canon.thy ===== *)
theory Canon
  imports Budgets Text
begin

text \<open>
  \<open>crates/wsnet-protocol/src/canon.rs\<close>: canonical metadata JSON, its encoder and its parser. The
  parser's state (\<open>input\<close>, \<open>pos\<close>, \<open>depth\<close>) is the unread rest of the input, the position, which only
  error values mention, and the nesting depth. The parser is defined without fuel: its termination
  is proved from the fact that every successful step consumes input.
\<close>

section \<open>Values\<close>

definition MAX_CANON_DEPTH :: nat where "MAX_CANON_DEPTH = 16"

datatype CanonError =
    TooLarge nat nat               \<comment> \<open>actual, limit\<close>
  | UnexpectedEnd nat
  | TrailingData nat
  | UnexpectedByte u8 nat          \<comment> \<open>byte, offset\<close>
  | DuplicateKey string
  | FloatNotAllowed nat
  | IntegerTooLarge string
  | InvalidNumber nat
  | TooDeep
  | InvalidUtf8
  | InvalidEscape nat
  | InvalidUnicodeEscape nat
  | NotDecimal string
  | Missing string
  | WrongType string

datatype Canonical =
    Null
  | Bool bool
  | Integer int
  | Str string
  | Array "Canonical list"
  | Object "(string \<times> Canonical) list"

definition empty_object :: Canonical where
  "empty_object = Object []"

definition object :: "(string \<times> Canonical) list \<Rightarrow> Canonical" where
  "object kvs = Object (bt_of_list kvs)"

fun try_object_loop :: "(string \<times> Canonical) list \<Rightarrow> (string \<times> Canonical) list \<Rightarrow> CanonError + Canonical" where
  "try_object_loop m [] = Inr (Object m)"
| "try_object_loop m ((k, v) # kvs) =
     (if map_of m k \<noteq> None then Inl (DuplicateKey k) else try_object_loop (bt_insert k v m) kvs)"

definition try_object :: "(string \<times> Canonical) list \<Rightarrow> CanonError + Canonical" where
  "try_object kvs = try_object_loop [] kvs"

definition u64_decimal :: "nat \<Rightarrow> Canonical" where
  "u64_decimal v = Str (dec v)"

definition as_object :: "Canonical \<Rightarrow> (string \<times> Canonical) list option" where
  "as_object v = (case v of Object m \<Rightarrow> Some m | _ \<Rightarrow> None)"

definition field :: "Canonical \<Rightarrow> string \<Rightarrow> CanonError + Canonical" where
  "field v key =
     ok_or (Missing key) (case as_object v of Some m \<Rightarrow> map_of m key | None \<Rightarrow> None)"

definition get_str :: "Canonical \<Rightarrow> string \<Rightarrow> CanonError + string" where
  "get_str v key = rbind (field v key) (\<lambda>x. case x of Str s \<Rightarrow> Inr s | _ \<Rightarrow> Inl (WrongType key))"

definition get_u64 :: "Canonical \<Rightarrow> string \<Rightarrow> CanonError + nat" where
  "get_u64 v key =
     rbind (get_str v key) (\<lambda>raw. ok_or (NotDecimal key) (parse_unsigned u64_max raw))"

definition get_i64 :: "Canonical \<Rightarrow> string \<Rightarrow> CanonError + int" where
  "get_i64 v key = rbind (field v key) (\<lambda>x. case x of Integer i \<Rightarrow> Inr i | _ \<Rightarrow> Inl (WrongType key))"

definition get_bool :: "Canonical \<Rightarrow> string \<Rightarrow> CanonError + bool" where
  "get_bool v key = rbind (field v key) (\<lambda>x. case x of Bool b \<Rightarrow> Inr b | _ \<Rightarrow> Inl (WrongType key))"

definition get_array :: "Canonical \<Rightarrow> string \<Rightarrow> CanonError + Canonical list" where
  "get_array v key = rbind (field v key) (\<lambda>x. case x of Array a \<Rightarrow> Inr a | _ \<Rightarrow> Inl (WrongType key))"

fun canon_depth :: "Canonical \<Rightarrow> nat" where
  "canon_depth (Array items) = 1 + foldr max (map canon_depth items) 0"
| "canon_depth (Object m) = 1 + foldr max (map (\<lambda>(k, v). canon_depth v) m) 0"
| "canon_depth v = 1"

section \<open>Encoder\<close>

abbreviation ch :: "char \<Rightarrow> u8" where "ch \<equiv> byte_of_char"

definition hex_digit :: "nat \<Rightarrow> u8" where
  "hex_digit d = (if d < 10 then word_of_nat (48 + d) else word_of_nat (87 + d))"

text \<open>\<open>format!("{:04x}", c)\<close> for a value below \<open>2 ^ 16\<close>.\<close>

definition hex4 :: "nat \<Rightarrow> bytes" where
  "hex4 n = [hex_digit (n div 4096 mod 16), hex_digit (n div 256 mod 16),
             hex_digit (n div 16 mod 16), hex_digit (n mod 16)]"

definition write_char :: "nat \<Rightarrow> bytes" where
  "write_char c =
     (if c = 0x22 then [0x5C, 0x22]
      else if c = 0x5C then [0x5C, 0x5C]
      else if c = 0x08 then [0x5C, ch CHR ''b'']
      else if c = 0x0C then [0x5C, ch CHR ''f'']
      else if c = 0x0A then [0x5C, ch CHR ''n'']
      else if c = 0x0D then [0x5C, ch CHR ''r'']
      else if c = 0x09 then [0x5C, ch CHR ''t'']
      else if c < 0x20 then [0x5C, ch CHR ''u''] @ hex4 c
      else encode_utf8 c)"

definition write_json_string :: "string \<Rightarrow> bytes" where
  "write_json_string s = [0x22] @ concat (map write_char (chars s)) @ [0x22]"

text \<open>The loops of \<open>write\<close>: a comma before every element but the first.\<close>

fun comma_join :: "bytes list \<Rightarrow> bytes" where
  "comma_join [] = []"
| "comma_join [x] = x"
| "comma_join (x # y # xs) = x @ ch CHR '','' # comma_join (y # xs)"

fun canon_write :: "Canonical \<Rightarrow> bytes" where
  "canon_write Null = as_bytes ''null''"
| "canon_write (Bool b) = (if b then as_bytes ''true'' else as_bytes ''false'')"
| "canon_write (Integer i) = as_bytes (int_to_string i)"
| "canon_write (Str s) = write_json_string s"
| "canon_write (Array items) = [ch CHR ''['' ] @ comma_join (map canon_write items) @ [ch CHR '']'']"
| "canon_write (Object m) =
     [ch CHR ''{''] @ comma_join (map (\<lambda>(k, v). write_json_string k @ [ch CHR '':''] @ canon_write v) m)
       @ [ch CHR ''}'']"

definition to_bytes :: "Canonical \<Rightarrow> bytes" where
  "to_bytes v = canon_write v"

definition to_bounded_bytes :: "Canonical \<Rightarrow> CanonError + bytes" where
  "to_bounded_bytes v =
     (let bytes = to_bytes v in
      if length bytes > MAX_METADATA then Inl (TooLarge (length bytes) MAX_METADATA) else Inr bytes)"

section \<open>Parser: bytes, numbers, strings\<close>

type_synonym 'a parsed = "CanonError + ('a \<times> bytes \<times> nat)"

definition peek :: "bytes \<Rightarrow> u8 option" where
  "peek rest = (case rest of [] \<Rightarrow> None | b # _ \<Rightarrow> Some b)"

definition bump :: "bytes \<Rightarrow> nat \<Rightarrow> u8 parsed" where
  "bump rest pos = (case rest of [] \<Rightarrow> Inl (UnexpectedEnd pos) | b # r \<Rightarrow> Inr (b, r, pos + 1))"

fun skip_ws :: "bytes \<Rightarrow> nat \<Rightarrow> bytes \<times> nat" where
  "skip_ws [] pos = ([], pos)"
| "skip_ws (b # r) pos =
     (if b = 0x20 \<or> b = 0x09 \<or> b = 0x0A \<or> b = 0x0D then skip_ws r (pos + 1) else (b # r, pos))"

definition expect_literal :: "bytes \<Rightarrow> Canonical \<Rightarrow> bytes \<Rightarrow> nat \<Rightarrow> Canonical parsed" where
  "expect_literal w value rest pos =
     (if length w > length rest then Inl (UnexpectedEnd pos)
      else if take (length w) rest \<noteq> w then Inl (UnexpectedByte (hd rest) pos)
      else Inr (value, drop (length w) rest, pos + length w))"

definition byte_digit :: "u8 \<Rightarrow> bool" where
  "byte_digit b \<longleftrightarrow> 48 \<le> unat b \<and> unat b \<le> 57"

definition i128_max :: nat where "i128_max = 170141183460469231731687303715884105727"

text \<open>\<open>parse_number\<close> after the digits.\<close>

definition finish_number :: "bool \<Rightarrow> bytes \<Rightarrow> bytes \<Rightarrow> nat \<Rightarrow> Canonical parsed" where
  "finish_number negative digits r p =
     (if (case peek r of Some b \<Rightarrow> b = ch CHR ''.'' \<or> b = ch CHR ''e'' \<or> b = ch CHR ''E'' | None \<Rightarrow> False)
      then Inl (FloatNotAllowed p)
      else let text = string_of_bytes digits; magnitude = dec_val text in
        if magnitude > i128_max then Inl (IntegerTooLarge text)
        else let signed = (if negative then - int magnitude else int magnitude) in
          if i64_range signed then Inr (Integer signed, r, p)
          else Inl (IntegerTooLarge ((if negative then ''-'' else []) @ text)))"

definition parse_number :: "bytes \<Rightarrow> nat \<Rightarrow> Canonical parsed" where
  "parse_number rest pos =
     (let negative = (peek rest = Some (ch CHR ''-''));
          r0 = (if negative then tl rest else rest);
          p0 = (if negative then pos + 1 else pos)
      in case r0 of
           [] \<Rightarrow> Inl (InvalidNumber pos)
         | b # r \<Rightarrow>
             if b = ch CHR ''0'' then
               (if (case peek r of Some b' \<Rightarrow> byte_digit b' | None \<Rightarrow> False) then Inl (InvalidNumber (p0 + 1))
                else finish_number negative [b] r (p0 + 1))
             else if byte_digit b then
               (let digits = takeWhile byte_digit r0 in
                finish_number negative digits (dropWhile byte_digit r0) (p0 + length digits))
             else Inl (InvalidNumber pos))"

definition hex_val :: "u8 \<Rightarrow> nat option" where
  "hex_val b =
     (let n = unat b in
      if 48 \<le> n \<and> n \<le> 57 then Some (n - 48)
      else if 97 \<le> n \<and> n \<le> 102 then Some (n - 97 + 10)
      else if 65 \<le> n \<and> n \<le> 70 then Some (n - 65 + 10)
      else None)"

text \<open>The loop of \<open>read_hex4\<close>, on a \<open>u16\<close> accumulator.\<close>

fun read_hex :: "nat \<Rightarrow> nat \<Rightarrow> nat \<Rightarrow> bytes \<Rightarrow> nat \<Rightarrow> nat parsed" where
  "read_hex 0 start value rest pos = Inr (value, rest, pos)"
| "read_hex (Suc k) start value rest pos =
     rbind (bump rest pos) (\<lambda>(b, r, p).
       rbind (ok_or (InvalidUnicodeEscape start) (hex_val b)) (\<lambda>digit.
         read_hex k start (value * 16 mod 65536 + digit) r p))"

definition read_hex4 :: "bytes \<Rightarrow> nat \<Rightarrow> nat parsed" where
  "read_hex4 rest pos = read_hex 4 pos 0 rest pos"

definition parse_escape :: "bytes \<Rightarrow> nat \<Rightarrow> bytes parsed" where
  "parse_escape rest esc_pos =
     rbind (bump rest esc_pos) (\<lambda>(b, r, p).
       if b = 0x22 then Inr ([0x22], r, p)
       else if b = 0x5C then Inr ([0x5C], r, p)
       else if b = ch CHR ''/'' then Inr ([ch CHR ''/''], r, p)
       else if b = ch CHR ''b'' then Inr ([0x08], r, p)
       else if b = ch CHR ''f'' then Inr ([0x0C], r, p)
       else if b = ch CHR ''n'' then Inr ([0x0A], r, p)
       else if b = ch CHR ''r'' then Inr ([0x0D], r, p)
       else if b = ch CHR ''t'' then Inr ([0x09], r, p)
       else if b = ch CHR ''u'' then
         rbind (read_hex4 r p) (\<lambda>(first, r, p).
           if 0xD800 \<le> first \<and> first \<le> 0xDBFF then
             rbind (bump r p) (\<lambda>(b1, r, p).
               if b1 \<noteq> 0x5C then Inl (InvalidUnicodeEscape esc_pos)
               else rbind (bump r p) (\<lambda>(b2, r, p).
                 if b2 \<noteq> ch CHR ''u'' then Inl (InvalidUnicodeEscape esc_pos)
                 else rbind (read_hex4 r p) (\<lambda>(second, r, p).
                   if \<not> (0xDC00 \<le> second \<and> second \<le> 0xDFFF) then Inl (InvalidUnicodeEscape esc_pos)
                   else rbind (ok_or (InvalidUnicodeEscape esc_pos)
                       (char_from_u32 (0x10000 + (first - 0xD800) * 1024 + (second - 0xDC00)))) (\<lambda>code.
                     Inr (encode_utf8 code, r, p)))))
           else if 0xDC00 \<le> first \<and> first \<le> 0xDFFF then Inl (InvalidUnicodeEscape esc_pos)
           else rbind (ok_or (InvalidUnicodeEscape esc_pos) (char_from_u32 first)) (\<lambda>code.
             Inr (encode_utf8 code, r, p)))
       else Inl (InvalidEscape esc_pos))"

text \<open>what a successful step leaves is shorter.\<close>

lemma bump_Inr: "bump rest pos = Inr (b, r, p) \<longleftrightarrow> rest = b # r \<and> p = pos + 1"
  by (auto simp: bump_def split: list.splits)

lemma skip_ws_le: "skip_ws rest pos = (r, p) \<Longrightarrow> length r \<le> length rest"
  by (induction rest pos rule: skip_ws.induct) (auto split: if_splits)

definition within :: "nat \<Rightarrow> 'a parsed \<Rightarrow> bool" where
  "within n res = (case res of Inr (x, r, p) \<Rightarrow> length r \<le> n | Inl e \<Rightarrow> True)"

lemma within_simps [simp]: "within n (Inl e)" "within n (Inr (x, r, p)) \<longleftrightarrow> length r \<le> n"
  by (simp_all add: within_def)

lemma withinI: "(\<And>x r p. res = Inr (x, r, p) \<Longrightarrow> length r \<le> n) \<Longrightarrow> within n res"
  by (auto simp: within_def split: sum.split)

lemma within_bind:
  "within k m \<Longrightarrow> (\<And>x r p. m = Inr (x, r, p) \<Longrightarrow> length r \<le> k \<Longrightarrow> within n (f (x, r, p))) \<Longrightarrow> within n (rbind m f)"
  by (cases m) (auto simp: within_def)

lemma within_ok_or: "(\<And>x. y = Some x \<Longrightarrow> within n (f x)) \<Longrightarrow> within n (rbind (ok_or e y) f)"
  by (cases y) auto

lemma within_bump: "length rest \<le> Suc n \<Longrightarrow> within n (bump rest pos)"
  by (auto simp: bump_def split: list.split)

lemma within_read_hex: "length rest \<le> n \<Longrightarrow> within n (read_hex k start v rest pos)"
proof (induction k arbitrary: v rest pos)
  case (Suc k)
  have "within n (bump rest pos)" using Suc.prems by (intro within_bump) simp
  with Suc.IH show ?case by (auto intro!: within_bind within_ok_or)
qed simp

lemma within_read_hex4: "length rest \<le> n \<Longrightarrow> within n (read_hex4 rest pos)"
  unfolding read_hex4_def by (rule within_read_hex)

lemma within_parse_escape: "within (length rest - 1) (parse_escape rest pos)"
proof -
  let ?n = "length rest - 1"
  have "within ?n (bump rest pos)" by (rule within_bump) simp
  moreover have "within ?n (bump r p)" "within ?n (read_hex4 r p)" if "length r \<le> ?n" for r p
    using that by (auto intro: within_bump within_read_hex4)
  ultimately show ?thesis
    unfolding parse_escape_def
    by (auto intro!: within_bind [where k = ?n] within_ok_or simp del: One_nat_def)
qed

lemma parse_escape_less:
  assumes "parse_escape rest pos = Inr (x, r, p)"
  shows "length r < length rest"
proof -
  have "rest \<noteq> []" using assms by (auto simp: parse_escape_def bump_def)
  with within_parse_escape [of rest pos] assms show ?thesis by (cases rest) auto
qed

function parse_string_loop :: "bytes \<Rightarrow> bytes \<Rightarrow> nat \<Rightarrow> string parsed" where
  "parse_string_loop acc rest pos =
     rbind (bump rest pos) (\<lambda>(b, r, p).
       if b = 0x22 then rbind (ok_or InvalidUtf8 (from_utf8 acc)) (\<lambda>s. Inr (s, r, p))
       else if b = 0x5C then
         rbind (parse_escape r p) (\<lambda>(x, r, p). parse_string_loop (acc @ x) r p)
       else if unat b \<le> 0x1F then Inl (UnexpectedByte b (p - 1))
       else parse_string_loop (acc @ [b]) r p)"
  by pat_completeness auto
termination
  by (relation "measure (\<lambda>(acc, rest, pos). length rest)")
    (auto simp: bump_Inr dest: parse_escape_less)

declare parse_string_loop.simps [simp del]

definition parse_string :: "bytes \<Rightarrow> nat \<Rightarrow> string parsed" where
  "parse_string rest pos = parse_string_loop [] (tl rest) (pos + 1)"

lemma parse_string_loop_less:
  "parse_string_loop acc rest pos = Inr (s, r, p) \<Longrightarrow> length r < length rest"
proof (induction acc rest pos rule: parse_string_loop.induct)
  case (1 acc rest pos)
  from 1(3) obtain b r' where rest: "rest = b # r'"
    by (cases rest) (auto simp: parse_string_loop.simps bump_def)
  show ?case
  proof (cases "b = 0x22 \<or> b = 0x5C")
    case True
    with 1 rest show ?thesis
      by (subst (asm) (3) parse_string_loop.simps)
        (fastforce simp: bump_def result_simps dest: parse_escape_less)
  next
    case False
    with 1 rest show ?thesis
      by (subst (asm) (3) parse_string_loop.simps)
        (fastforce simp: bump_def result_simps split: if_splits)
  qed
qed

lemma parse_string_less: "rest \<noteq> [] \<Longrightarrow> parse_string rest pos = Inr (s, r, p) \<Longrightarrow> length r < length rest"
  unfolding parse_string_def by (drule parse_string_loop_less) (cases rest; simp)

lemma finish_number_rest: "finish_number neg ds r0 p0 = Inr (v, r, p) \<Longrightarrow> r = r0"
  by (auto simp: finish_number_def Let_def split: if_splits)

lemma parse_number_less: "parse_number rest pos = Inr (v, r, p) \<Longrightarrow> length r < length rest"
proof -
  assume num: "parse_number rest pos = Inr (v, r, p)"
  define r0 where "r0 = (if peek rest = Some (ch CHR ''-'') then tl rest else rest)"
  have num': "(case r0 of [] \<Rightarrow> False | b # r1 \<Rightarrow> r = r1 \<or> byte_digit b \<and> r = dropWhile byte_digit r0)"
    using num unfolding parse_number_def r0_def [symmetric] Let_def
    by (auto split: list.splits if_splits dest!: finish_number_rest)
  have le: "length r0 \<le> length rest" by (simp add: r0_def)
  have "length r < length r0"
    using num' length_dropWhile_le [of byte_digit "tl r0"] by (auto split: list.splits)
  with le show ?thesis by linarith
qed

lemma expect_literal_less: "w \<noteq> [] \<Longrightarrow> expect_literal w v rest pos = Inr (x, r, p) \<Longrightarrow> length r < length rest"
  by (cases w) (auto simp: expect_literal_def split: if_splits)

section \<open>Parser: values\<close>

function (sequential)
  parse_value :: "nat \<Rightarrow> bytes \<Rightarrow> nat \<Rightarrow> Canonical parsed"
  and parse_array :: "nat \<Rightarrow> bytes \<Rightarrow> nat \<Rightarrow> Canonical parsed"
  and parse_array_loop :: "nat \<Rightarrow> Canonical list \<Rightarrow> bytes \<Rightarrow> nat \<Rightarrow> Canonical parsed"
  and parse_object :: "nat \<Rightarrow> bytes \<Rightarrow> nat \<Rightarrow> Canonical parsed"
  and parse_object_loop :: "nat \<Rightarrow> (string \<times> Canonical) list \<Rightarrow> bytes \<Rightarrow> nat \<Rightarrow> Canonical parsed"
where
  "parse_value depth rest pos =
     rbind (ok_or (UnexpectedEnd pos) (peek rest)) (\<lambda>b.
       if b = ch CHR ''n'' then expect_literal (as_bytes ''null'') Null rest pos
       else if b = ch CHR ''t'' then expect_literal (as_bytes ''true'') (Bool True) rest pos
       else if b = ch CHR ''f'' then expect_literal (as_bytes ''false'') (Bool False) rest pos
       else if b = 0x22 then rbind (parse_string rest pos) (\<lambda>(s, r, p). Inr (Str s, r, p))
       else if b = ch CHR ''['' then parse_array depth rest pos
       else if b = ch CHR ''{'' then parse_object depth rest pos
       else if b = ch CHR ''-'' \<or> byte_digit b then parse_number rest pos
       else Inl (UnexpectedByte b pos))"
| "parse_array depth rest pos =
     (if depth \<ge> MAX_CANON_DEPTH then Inl TooDeep
      else let (r, p) = skip_ws (tl rest) (pos + 1) in
        if peek r = Some (ch CHR '']'') then Inr (Array [], tl r, p + 1)
        else parse_array_loop (depth + 1) [] r p)"
| "parse_array_loop depth items rest pos =
     (let (r, p) = skip_ws rest pos in
      rbind (parse_value depth r p) (\<lambda>(v, r, p).
        let (r, p) = skip_ws r p in
        rbind (bump r p) (\<lambda>(b, r, p).
          if b = ch CHR '','' then parse_array_loop depth (items @ [v]) r p
          else if b = ch CHR '']'' then Inr (Array (items @ [v]), r, p)
          else Inl (UnexpectedByte b (p - 1)))))"
| "parse_object depth rest pos =
     (if depth \<ge> MAX_CANON_DEPTH then Inl TooDeep
      else let (r, p) = skip_ws (tl rest) (pos + 1) in
        if peek r = Some (ch CHR ''}'') then Inr (Object [], tl r, p + 1)
        else parse_object_loop (depth + 1) [] r p)"
| "parse_object_loop depth m rest pos =
     (let (r, p) = skip_ws rest pos in
      if peek r \<noteq> Some 0x22 then Inl (UnexpectedByte (case peek r of Some b \<Rightarrow> b | None \<Rightarrow> 0) p)
      else rbind (parse_string r p) (\<lambda>(key, r, p).
        let (r, p) = skip_ws r p in
        rbind (bump r p) (\<lambda>(b, r, p).
          if b \<noteq> ch CHR '':'' then Inl (UnexpectedByte b (p - 1))
          else let (r, p) = skip_ws r p in
            rbind (parse_value depth r p) (\<lambda>(value, r, p).
              if map_of m key \<noteq> None then Inl (DuplicateKey key)
              else let m = bt_insert key value m; (r, p) = skip_ws r p in
                rbind (bump r p) (\<lambda>(b, r, p).
                  if b = ch CHR '','' then parse_object_loop depth m r p
                  else if b = ch CHR ''}'' then Inr (Object m, r, p)
                  else Inl (UnexpectedByte b (p - 1)))))))"
  by pat_completeness auto

text \<open>
  Termination. Every successful call consumes input; this is proved on the domain of the function
  first, since the loops continue on what the nested call leaves.
\<close>

lemmas parser_pinduct =
  parse_value_parse_array_parse_array_loop_parse_object_parse_object_loop.pinduct

abbreviation parser_dom ::
    "(nat \<times> bytes \<times> nat + nat \<times> bytes \<times> nat) + nat \<times> Canonical list \<times> bytes \<times> nat +
     nat \<times> bytes \<times> nat + nat \<times> (string \<times> Canonical) list \<times> bytes \<times> nat \<Rightarrow> bool" where
  "parser_dom \<equiv> parse_value_parse_array_parse_array_loop_parse_object_parse_object_loop_dom"

lemma skip_ws_eq_le: "(r, p) = skip_ws rest pos \<Longrightarrow> length r \<le> length rest"
  by (metis skip_ws_le)

lemma parser_consumes:
  "parser_dom (Inl (Inl (d1, r1, p1))) \<Longrightarrow> \<forall>v r p. parse_value d1 r1 p1 = Inr (v, r, p) \<longrightarrow> length r < length r1"
  "parser_dom (Inl (Inr (d2, r2, p2))) \<Longrightarrow> \<forall>v r p. parse_array d2 r2 p2 = Inr (v, r, p) \<longrightarrow> length r \<le> length (tl r2)"
  "parser_dom (Inr (Inl (d3, i3, r3, p3))) \<Longrightarrow> \<forall>v r p. parse_array_loop d3 i3 r3 p3 = Inr (v, r, p) \<longrightarrow> length r < length r3"
  "parser_dom (Inr (Inr (Inl (d4, r4, p4)))) \<Longrightarrow> \<forall>v r p. parse_object d4 r4 p4 = Inr (v, r, p) \<longrightarrow> length r \<le> length (tl r4)"
  "parser_dom (Inr (Inr (Inr (d5, m5, r5, p5)))) \<Longrightarrow> \<forall>v r p. parse_object_loop d5 m5 r5 p5 = Inr (v, r, p) \<longrightarrow> length r < length r5"
proof (induction d1 r1 p1 and d2 r2 p2 and d3 i3 r3 p3 and d4 r4 p4 and d5 m5 r5 p5 rule: parser_pinduct)
  case (1 depth rest pos)
  show ?case
  proof (intro allI impI)
    fix v r p
    assume ok: "parse_value depth rest pos = Inr (v, r, p)"
    then obtain b rest' where rest: "rest = b # rest'" and pk: "peek rest = Some b"
      using 1(1) by (auto simp: parse_value.psimps result_simps peek_def split: list.splits)
    have arr: "b = ch CHR ''['' \<Longrightarrow> parse_array depth rest pos = Inr (v, r, p) \<Longrightarrow> length r \<le> length (tl rest)"
      using 1(2) [of b] pk by (simp add: byte_of_char_def)
    have obj: "b = ch CHR ''{'' \<Longrightarrow> parse_object depth rest pos = Inr (v, r, p) \<Longrightarrow> length r \<le> length (tl rest)"
      using 1(3) [of b] pk by (simp add: byte_of_char_def)
    have ne: "rest \<noteq> []" "length (tl rest) < length rest" using rest by auto
    from ok [unfolded parse_value.psimps [OF 1(1)]] pk show "length r < length rest"
      using arr obj ne parse_number_less [of rest pos v r p] expect_literal_less [of _ _ rest pos v r p]
        parse_string_less [OF ne(1), of pos _ r p]
      by (auto simp: result_simps split: if_splits dest: le_less_trans)
  qed
next
  case (2 depth rest pos)
  obtain r0 p0 where sk: "skip_ws (tl rest) (pos + 1) = (r0, p0)" by fastforce
  note le = skip_ws_le [OF sk]
  show ?case
    using 2(2) [OF _ sk [symmetric] refl] le
    unfolding parse_array.psimps [OF 2(1)] sk Let_def prod.case
    by (auto dest!: less_imp_le [THEN le_trans] split: if_splits)
next
  case (3 depth items rest pos)
  obtain r0 p0 where sk: "skip_ws rest pos = (r0, p0)" by fastforce
  show ?case
  proof (intro allI impI)
    fix v r p
    assume "parse_array_loop depth items rest pos = Inr (v, r, p)"
    note ok = this [unfolded parse_array_loop.psimps [OF 3(1)] sk Let_def prod.case]
    then obtain v1 r1 p1 where pv: "parse_value depth r0 p0 = Inr (v1, r1, p1)"
      by (auto simp: result_simps)
    obtain r2 p2 where sk2: "skip_ws r1 p1 = (r2, p2)" by fastforce
    from ok obtain b r3 p3 where bp: "bump r2 p2 = Inr (b, r3, p3)"
        and fin: "b = ch CHR '','' \<and> parse_array_loop depth (items @ [v1]) r3 p3 = Inr (v, r, p) \<or> r = r3"
      by (auto simp: pv sk2 result_simps split: if_splits)
    have "length r3 < length rest"
      using 3(2) [OF sk [symmetric] refl] pv skip_ws_le [OF sk] skip_ws_le [OF sk2] bp
      by (auto simp: bump_Inr)
    with fin 3(3) [OF sk [symmetric] refl pv refl refl sk2 [symmetric] refl bp refl refl]
    show "length r < length rest" by auto
  qed
next
  case (4 depth rest pos)
  obtain r0 p0 where sk: "skip_ws (tl rest) (pos + 1) = (r0, p0)" by fastforce
  note le = skip_ws_le [OF sk]
  show ?case
    using 4(2) [OF _ sk [symmetric] refl] le
    unfolding parse_object.psimps [OF 4(1)] sk Let_def prod.case
    by (auto dest!: less_imp_le [THEN le_trans] split: if_splits)
next
  case (5 depth m rest pos)
  obtain r0 p0 where sk: "skip_ws rest pos = (r0, p0)" by fastforce
  show ?case
  proof (intro allI impI)
    fix v r p
    assume "parse_object_loop depth m rest pos = Inr (v, r, p)"
    note ok = this [unfolded parse_object_loop.psimps [OF 5(1)] sk Let_def prod.case]
    then have q: "\<not> peek r0 \<noteq> Some 0x22" by (auto split: if_splits)
    from ok q obtain key r1 p1 where ps: "parse_string r0 p0 = Inr (key, r1, p1)"
      by (auto simp: result_simps)
    obtain r2 p2 where sk1: "skip_ws r1 p1 = (r2, p2)" by fastforce
    from ok q obtain r3 p3 where bp: "bump r2 p2 = Inr (ch CHR '':'', r3, p3)"
      by (auto simp: result_simps ps sk1 split: if_splits)
    obtain r4 p4 where sk3: "skip_ws r3 p3 = (r4, p4)" by fastforce
    from ok q obtain v5 r5 p5 where pv: "parse_value depth r4 p4 = Inr (v5, r5, p5)"
      by (auto simp: result_simps ps sk1 bp sk3)
    from ok q have dup: "\<not> map_of m key \<noteq> None"
      by (auto simp: result_simps ps sk1 bp sk3 pv split: if_splits)
    obtain r6 p6 where sk5: "skip_ws r5 p5 = (r6, p6)" by fastforce
    from ok q dup obtain b r7 p7 where bp6: "bump r6 p6 = Inr (b, r7, p7)"
        and fin: "b = ch CHR '','' \<and> parse_object_loop depth (bt_insert key v5 m) r7 p7 = Inr (v, r, p) \<or> r = r7"
      by (auto simp: result_simps ps sk1 bp sk3 pv sk5 split: if_splits)
    have "r0 \<noteq> []" using q by (auto simp: peek_def)
    then have "length r4 < length rest"
      using parse_string_less [OF _ ps] skip_ws_le [OF sk] skip_ws_le [OF sk1] bp skip_ws_le [OF sk3]
      by (auto simp: bump_Inr)
    moreover have "length r7 < length r4"
      using 5(2) [OF sk [symmetric] refl q ps refl refl sk1 [symmetric] refl bp refl refl _ sk3 [symmetric] refl]
        pv skip_ws_le [OF sk5] bp6
      by (auto simp: bump_Inr)
    ultimately show "length r < length rest"
      using fin 5(3) [OF sk [symmetric] refl q ps refl refl sk1 [symmetric] refl bp refl refl _ sk3 [symmetric] refl
          pv refl refl dup refl sk5 [symmetric] refl bp6 refl refl]
      by auto
  qed
qed

fun parser_measure ::
    "(nat \<times> bytes \<times> nat + nat \<times> bytes \<times> nat) + nat \<times> Canonical list \<times> bytes \<times> nat +
     nat \<times> bytes \<times> nat + nat \<times> (string \<times> Canonical) list \<times> bytes \<times> nat \<Rightarrow> nat" where
  "parser_measure (Inl (Inl (d, r, p))) = 4 * length r"
| "parser_measure (Inl (Inr (d, r, p))) = 4 * length (tl r) + 2"
| "parser_measure (Inr (Inl (d, i, r, p))) = 4 * length r + 1"
| "parser_measure (Inr (Inr (Inl (d, r, p)))) = 4 * length (tl r) + 2"
| "parser_measure (Inr (Inr (Inr (d, m, r, p)))) = 4 * length r + 1"

termination parse_value
proof (relation "measure parser_measure", goal_cases)
  case 1
  show ?case by simp
next
  case (2 depth rest pos b)
  then show ?case by (cases rest) (auto simp: peek_def)
next
  case (3 depth rest pos b)
  then show ?case by (cases rest) (auto simp: peek_def)
next
  case (4 depth rest pos x r p)
  then have "length r \<le> length (tl rest)" using skip_ws_eq_le [of r p "tl rest" "pos + 1"] by blast
  then show ?case by simp
next
  case (5 depth items rest pos x r p)
  then have "length r \<le> length rest" using skip_ws_eq_le [of r p rest pos] by blast
  then show ?case by simp
next
  case (6 depth items rest pos x r0 p0 y v1 ya r1 p1 xe r2 p2 xg b yd r3 p3)
  then have "length r0 \<le> length rest" "length r1 < length r0" "length r2 \<le> length r1" "Suc (length r3) = length r2"
    using parser_consumes(1) [of depth r0 p0] skip_ws_eq_le [of r0 p0 rest pos] skip_ws_eq_le [of r2 p2 r1 p1]
    by (auto simp: bump_Inr)
  then show ?case by simp
next
  case (7 depth rest pos x r p)
  then have "length r \<le> length (tl rest)" using skip_ws_eq_le [of r p "tl rest" "pos + 1"] by blast
  then show ?case by simp
next
  case (8 depth m rest pos x r0 p0 xb key ya r1 p1 xe r2 p2 xg b yd r3 p3 xj r4 p4)
  then have "length r0 \<le> length rest" "length r1 < length r0" "length r2 \<le> length r1"
      "Suc (length r3) = length r2" "length r4 \<le> length r3"
    using parse_string_less [of r0 p0 key r1 p1] skip_ws_eq_le [of r0 p0 rest pos] skip_ws_eq_le [of r2 p2 r1 p1]
      skip_ws_eq_le [of r4 p4 r3 p3]
    by (auto simp: bump_Inr peek_def split: list.splits)
  then show ?case by simp
next
  case (9 depth m rest pos x r0 p0 xb key ya r1 p1 xe r2 p2 xg b yd r3 p3 xj r4 p4 xl v5 yg r5 p5 xo xp r6 p6 xr b7 yj r7 p7)
  then have "length r0 \<le> length rest" "length r1 < length r0" "length r2 \<le> length r1"
      "Suc (length r3) = length r2" "length r4 \<le> length r3"
    using parse_string_less [of r0 p0 key r1 p1] skip_ws_eq_le [of r0 p0 rest pos] skip_ws_eq_le [of r2 p2 r1 p1]
      skip_ws_eq_le [of r4 p4 r3 p3]
    by (auto simp: bump_Inr peek_def split: list.splits)
  moreover from 9 have "length r5 < length r4" "length r6 \<le> length r5" "Suc (length r7) = length r6"
    using parser_consumes(1) [of depth r4 p4] skip_ws_eq_le [of r6 p6 r5 p5] by (auto simp: bump_Inr)
  ultimately show ?case by simp
qed

declare parse_value.simps [simp del] parse_array.simps [simp del] parse_array_loop.simps [simp del]
  parse_object.simps [simp del] parse_object_loop.simps [simp del]

section \<open>Entry points\<close>

definition from_bytes_bounded :: "bytes \<Rightarrow> nat \<Rightarrow> CanonError + Canonical" where
  "from_bytes_bounded input lim =
     (if length input > lim then Inl (TooLarge (length input) lim)
      else let (r, p) = skip_ws input 0 in
        rbind (parse_value 0 r p) (\<lambda>(value, r, p).
          let (r, p) = skip_ws r p in
          if p \<noteq> length input then Inl (TrailingData p) else Inr value))"

definition from_bytes :: "bytes \<Rightarrow> CanonError + Canonical" where
  "from_bytes input = from_bytes_bounded input MAX_METADATA"

definition is_canonical :: "bytes \<Rightarrow> CanonError + bool" where
  "is_canonical input = rbind (from_bytes input) (\<lambda>parsed. Inr (to_bytes parsed = input))"

section \<open>Well-formed values\<close>

text \<open>What the Rust types guarantee of a value: \<open>i64\<close> integers, UTF-8 strings, sorted unique keys.\<close>

fun canon_wf :: "Canonical \<Rightarrow> bool" where
  "canon_wf Null = True"
| "canon_wf (Bool b) = True"
| "canon_wf (Integer i) = i64_range i"
| "canon_wf (Str s) = valid_utf8 (as_bytes s)"
| "canon_wf (Array items) = (\<forall>v \<in> set items. canon_wf v)"
| "canon_wf (Object m) = (bt_inv m \<and> (\<forall>(k, v) \<in> set m. valid_utf8 (as_bytes k) \<and> canon_wf v))"

text \<open>How many containers deep a value goes: what the parser's depth counter counts.\<close>

fun nest :: "Canonical \<Rightarrow> nat" where
  "nest (Array items) = 1 + foldr max (map nest items) 0"
| "nest (Object m) = 1 + foldr max (map (\<lambda>(k, v). nest v) m) 0"
| "nest v = 0"

lemma foldr_max_le: "foldr max ns (0 :: nat) \<le> k \<longleftrightarrow> (\<forall>n \<in> set ns. n \<le> k)"
  by (induction ns) auto

lemma nest_le_depth: "nest v \<le> canon_depth v"
proof (induction v rule: nest.induct)
  case (1 items)
  then have "nest x \<le> foldr max (map canon_depth items) 0" if "x \<in> set items" for x
    using that foldr_max_le [of "map canon_depth items" "foldr max (map canon_depth items) 0"]
    by (auto intro: le_trans)
  then show ?case by (simp add: foldr_max_le)
next
  case (2 m)
  have "nest v \<le> foldr max (map (\<lambda>(k, v). canon_depth v) m) 0" if "(k, v) \<in> set m" for k v
    using 2 [OF that refl] that
      foldr_max_le [of "map (\<lambda>(k, v). canon_depth v) m" "foldr max (map (\<lambda>(k, v). canon_depth v) m) 0"]
    by (auto intro: le_trans)
  then show ?case by (auto simp: foldr_max_le)
qed simp_all

section \<open>Round trip: strings\<close>

lemma byte_literals [simp]:
  "ch CHR ''b'' = 98" "ch CHR ''f'' = 102" "ch CHR ''n'' = 110" "ch CHR ''r'' = 114" "ch CHR ''t'' = 116"
  "ch CHR ''u'' = 117" "ch CHR ''/'' = 47" "ch CHR ''['' = 91" "ch CHR '']'' = 93" "ch CHR ''{'' = 123"
  "ch CHR ''}'' = 125" "ch CHR '','' = 44" "ch CHR '':'' = 58" "ch CHR ''-'' = 45" "ch CHR ''0'' = 48"
  "ch CHR ''.'' = 46" "ch CHR ''e'' = 101" "ch CHR ''E'' = 69"
  by (simp_all add: byte_of_char_def)

lemma hex_val_digit [simp]: "d < 16 \<Longrightarrow> hex_val (hex_digit d) = Some d"
  by (auto simp: hex_val_def hex_digit_def Let_def)

lemma read_hex_step:
  "d < 16 \<Longrightarrow> v < 4096 \<Longrightarrow>
   read_hex (Suc k) start v (hex_digit d # r) pos = read_hex k start (v * 16 + d) r (Suc pos)"
  by (simp add: bump_def)

lemma read_hex4_hex4: "n < 65536 \<Longrightarrow> read_hex4 (hex4 n @ r) pos = Inr (n, r, pos + 4)"
proof -
  assume n: "n < 65536"
  define a where "a = n div 4096"
  define b where "b = n div 256 mod 16"
  define c where "c = n div 16 mod 16"
  define d where "d = n mod 16"
  have lt: "a < 16" "b < 16" "c < 16" "d < 16"
    using n by (simp_all add: a_def b_def c_def d_def div_less_iff_less_mult)
  have sum: "((a * 16 + b) * 16 + c) * 16 + d = n"
    using div_mod_decomp [of n 16] div_mod_decomp [of "n div 16" 16] div_mod_decomp [of "n div 256" 16]
    by (simp add: a_def b_def c_def d_def div_mult2_eq [symmetric])
  have h: "hex4 n = [hex_digit a, hex_digit b, hex_digit c, hex_digit d]"
    using n by (simp add: hex4_def a_def b_def c_def d_def)
  have lt2: "0 < (4096 :: nat)" "0 * 16 + a < 4096" "(0 * 16 + a) * 16 + b < 4096"
    "((0 * 16 + a) * 16 + b) * 16 + c < 4096" using lt by (auto simp: algebra_simps)
  have "read_hex4 (hex4 n @ r) pos = read_hex (Suc (Suc (Suc (Suc 0)))) pos 0
      (hex_digit a # hex_digit b # hex_digit c # hex_digit d # r) pos"
    unfolding read_hex4_def h by (simp add: numeral_eq_Suc del: read_hex.simps)
  also have "\<dots> = read_hex 0 pos ((((0 * 16 + a) * 16 + b) * 16 + c) * 16 + d) r (Suc (Suc (Suc (Suc pos))))"
    by (simp only: read_hex_step [OF lt(1) lt2(1)] read_hex_step [OF lt(2) lt2(2)]
        read_hex_step [OF lt(3) lt2(3)] read_hex_step [OF lt(4) lt2(4)])
  finally show ?thesis using sum by simp
qed

lemma length_hex4: "length (hex4 n) = 4"
  by (simp add: hex4_def)

lemma plain_bytes:
  "\<forall>b \<in> set bs. 0x1F < unat b \<and> b \<noteq> 0x22 \<and> b \<noteq> 0x5C \<Longrightarrow>
   parse_string_loop acc (bs @ r) pos = parse_string_loop (acc @ bs) r (pos + length bs)"
proof (induction bs arbitrary: acc pos)
  case (Cons b bs)
  then show ?case
    by (subst parse_string_loop.simps) (simp add: bump_def)
qed simp

lemma encode_ascii: "c < 0x80 \<Longrightarrow> encode_utf8 c = [word_of_nat c]"
  by (simp add: encode_utf8_def)

lemma write_char_step:
  assumes "scalar c"
  shows "parse_string_loop acc (write_char c @ r) pos
       = parse_string_loop (acc @ encode_utf8 c) r (pos + length (write_char c))"
proof -
  consider (special) "c \<in> {0x22, 0x5C, 0x08, 0x0C, 0x0A, 0x0D, 0x09}"
    | (control) "c \<notin> {0x22, 0x5C, 0x08, 0x0C, 0x0A, 0x0D, 0x09}" "c < 0x20"
    | (plain) "c \<notin> {0x22, 0x5C}" "0x20 \<le> c"
    by (cases "c < 0x20") auto
  then show ?thesis
  proof cases
    case special
    then show ?thesis
      by (subst parse_string_loop.simps)
        (auto simp: write_char_def encode_ascii bump_def parse_escape_def)
  next
    case control
    then have wc: "write_char c = 0x5C # 117 # hex4 c" by (simp add: write_char_def)
    have "parse_escape (117 # hex4 c @ r) (Suc pos) = Inr (encode_utf8 c, r, pos + 6)"
      using control assms by (simp add: parse_escape_def bump_def read_hex4_hex4 char_from_u32_def)
    then show ?thesis
      unfolding wc by (subst parse_string_loop.simps) (simp add: bump_def length_hex4)
  next
    case plain
    then have wc: "write_char c = encode_utf8 c" by (simp add: write_char_def)
    have "0x1F < unat b \<and> b \<noteq> 0x22 \<and> b \<noteq> 0x5C" if "b \<in> set (encode_utf8 c)" for b
    proof (cases "c < 0x80")
      case True
      with that have u: "unat b = c" by (simp add: encode_ascii)
      with plain show ?thesis by auto
    next
      case False
      then have "0x80 \<le> unat b" using encode_utf8_high [OF _ assms that] by simp
      then show ?thesis by auto
    qed
    with plain_bytes show ?thesis unfolding wc by blast
  qed
qed

lemma write_chars_step:
  "\<forall>c \<in> set cs. scalar c \<Longrightarrow>
   parse_string_loop acc (concat (map write_char cs) @ r) pos
   = parse_string_loop (acc @ concat (map encode_utf8 cs)) r (pos + length (concat (map write_char cs)))"
  by (induction cs arbitrary: acc pos) (auto simp: write_char_step add.assoc)

lemma parse_string_write:
  assumes "valid_utf8 (as_bytes s)"
  shows "parse_string (write_json_string s @ r) pos = Inr (s, r, pos + length (write_json_string s))"
proof -
  note cs = chars_sound [OF assms]
  have "parse_string (write_json_string s @ r) pos
      = parse_string_loop (as_bytes s) (0x22 # r) (Suc pos + length (concat (map write_char (chars s))))"
    using cs write_chars_step [of "chars s" "[]" "0x22 # r" "Suc pos"]
    by (simp add: parse_string_def write_json_string_def)
  also have "\<dots> = Inr (s, r, pos + length (write_json_string s))"
    by (subst parse_string_loop.simps)
      (simp add: bump_def from_utf8_as_bytes [OF assms] write_json_string_def)
  finally show ?thesis .
qed

section \<open>Round trip: numbers\<close>

text \<open>What may follow a number without becoming part of it.\<close>

definition follow :: "bytes \<Rightarrow> bool" where
  "follow r \<longleftrightarrow> (case r of [] \<Rightarrow> True | b # _ \<Rightarrow> \<not> byte_digit b \<and> b \<noteq> 46 \<and> b \<noteq> 101 \<and> b \<noteq> 69)"

lemma follow_simps [simp]: "follow []" "follow (44 # r)" "follow (93 # r)" "follow (125 # r)"
  by (simp_all add: follow_def byte_digit_def)

lemma unat_byte_of_char [simp]: "unat (byte_of_char c) = of_char c"
proof -
  have "(of_char c :: nat) < 256" by (rule nat_of_char_less_256)
  then show ?thesis by (simp add: byte_of_char_def)
qed

lemma byte_digit_char [simp]: "byte_digit (ch c) = is_digit c"
  by (simp add: byte_digit_def is_digit_def)

lemma takeWhile_digits:
  assumes "list_all is_digit s" "follow r"
  shows "takeWhile byte_digit (as_bytes s @ r) = as_bytes s" "dropWhile byte_digit (as_bytes s @ r) = r"
proof -
  have all: "\<And>b. b \<in> set (as_bytes s) \<Longrightarrow> byte_digit b"
    using assms(1) by (auto simp: as_bytes_def list_all_iff)
  have "takeWhile byte_digit r = []" "dropWhile byte_digit r = r"
    using assms(2) by (auto simp: follow_def split: list.splits)
  then show "takeWhile byte_digit (as_bytes s @ r) = as_bytes s" "dropWhile byte_digit (as_bytes s @ r) = r"
    using all takeWhile_append2 [of "as_bytes s" byte_digit r] dropWhile_append2 [of "as_bytes s" byte_digit r]
    by auto
qed

lemma follow_peek:
  "follow r \<Longrightarrow> \<not> (case peek r of Some b \<Rightarrow> b = ch CHR ''.'' \<or> b = ch CHR ''e'' \<or> b = ch CHR ''E'' | None \<Rightarrow> False)"
  "follow r \<Longrightarrow> \<not> (case peek r of Some b \<Rightarrow> byte_digit b | None \<Rightarrow> False)"
  by (auto simp: follow_def peek_def split: list.splits)

text \<open>The digits of a printed magnitude, signed or not.\<close>

definition signed :: "bool \<Rightarrow> nat \<Rightarrow> int" where
  "signed neg n = (if neg then - int n else int n)"

lemma finish_number_dec:
  assumes "follow r" "i64_range (signed neg n)"
  shows "finish_number neg (as_bytes (dec n)) r p = Inr (Integer (signed neg n), r, p)"
proof -
  have "n \<le> i128_max"
    using assms(2) by (auto simp: signed_def i64_range_def int_range_defs i128_max_def split: if_splits)
  with assms follow_peek(1) [OF assms(1)] show ?thesis
    by (cases neg) (simp_all add: finish_number_def Let_def signed_def)
qed

lemma parse_number_dec:
  assumes f: "follow r" and rg: "i64_range (signed neg n)"
  shows "parse_number ((if neg then [45] else []) @ as_bytes (dec n) @ r) pos
       = Inr (Integer (signed neg n), r, pos + length ((if neg then [45] else []) @ as_bytes (dec n)))"
proof -
  obtain c t where dc: "dec n = c # t" by (cases "dec n") auto
  have cd: "is_digit c" using dec_digits [of n] dc by simp
  have c45: "ch c \<noteq> 45"
  proof
    assume "ch c = 45"
    then have "unat (ch c) = 45" by simp
    with cd show False by (simp add: is_digit_def)
  qed
  let ?rest = "(if neg then [45] else []) @ as_bytes (dec n) @ r"
  have neg: "peek ?rest = Some (ch CHR ''-'') \<longleftrightarrow> neg" using c45 by (simp add: peek_def dc)
  have r0: "(if neg then tl ?rest else ?rest) = ch c # as_bytes t @ r" by (simp add: dc)
  note fin = finish_number_dec [OF f rg]
  show ?thesis
  proof (cases "n = 0")
    case True
    then have "dec n = ''0''" by (simp add: dec_0)
    then have "c = CHR ''0''" "t = []" using dc by simp_all
    then show ?thesis
      unfolding parse_number_def Let_def neg r0 list.case
      using follow_peek(2) [OF f] fin dc by simp
  next
    case False
    then have "c \<noteq> CHR ''0''" using dec_head [of n] dc digit_char_0 by simp
    then have "ch c \<noteq> ch CHR ''0''" by (metis char_of_byte_of_char)
    moreover have "takeWhile byte_digit (ch c # as_bytes t @ r) = as_bytes (dec n)"
      "dropWhile byte_digit (ch c # as_bytes t @ r) = r"
      using takeWhile_digits [OF dec_digits f, of n] by (simp_all add: dc)
    ultimately show ?thesis
      unfolding parse_number_def Let_def neg r0 list.case
      using cd fin by simp
  qed
qed

section \<open>Round trip: values\<close>

definition not_ws :: "bytes \<Rightarrow> bool" where
  "not_ws r \<longleftrightarrow> (case r of [] \<Rightarrow> False | b # _ \<Rightarrow> b \<noteq> 0x20 \<and> b \<noteq> 0x09 \<and> b \<noteq> 0x0A \<and> b \<noteq> 0x0D)"

lemma skip_not_ws: "not_ws r \<Longrightarrow> skip_ws r pos = (r, pos)"
  by (cases r) (auto simp: not_ws_def)

lemma not_ws_Cons [simp]: "not_ws (b # r) \<longleftrightarrow> b \<noteq> 0x20 \<and> b \<noteq> 0x09 \<and> b \<noteq> 0x0A \<and> b \<noteq> 0x0D"
  by (simp add: not_ws_def)

lemma int_to_string_head: "\<exists>c t. int_to_string i = c # t \<and> (c = CHR ''-'' \<or> is_digit c)"
proof -
  have "\<exists>c t. dec n = c # t \<and> is_digit c" for n
    using dec_digits [of n] by (cases "dec n") auto
  then show ?thesis unfolding int_to_string_def by (metis (full_types))
qed

lemma digit_byte_values: "is_digit c \<Longrightarrow> ch c \<notin> {0x20, 0x09, 0x0A, 0x0D, 110, 116, 102, 0x22, 91, 123, 93, 125}"
proof -
  assume "is_digit c"
  then have "48 \<le> unat (ch c)" "unat (ch c) \<le> 57" by (simp_all add: is_digit_def)
  then show ?thesis by (auto simp del: unat_byte_of_char)
qed

text \<open>The first byte of an encoded value is neither white space nor a closing bracket.\<close>

lemma canon_write_head:
  "\<exists>b w. canon_write v = b # w \<and> b \<notin> {0x20, 0x09, 0x0A, 0x0D, 93, 125}"
proof (cases v)
  case (Integer i)
  with int_to_string_head [of i] digit_byte_values show ?thesis by fastforce
qed (auto simp: write_json_string_def byte_of_char_def)

lemma canon_write_not_ws [simp]: "not_ws (canon_write v @ r)"
  using canon_write_head [of v] by auto

text \<open>What the parser does with an encoded value, whatever may follow.\<close>

definition parses :: "Canonical \<Rightarrow> nat \<Rightarrow> bool" where
  "parses v d \<longleftrightarrow> (\<forall>r pos. follow r \<longrightarrow>
     parse_value d (canon_write v @ r) pos = Inr (v, r, pos + length (canon_write v)))"

lemma parse_array_loop_write:
  assumes "items \<noteq> []" "\<forall>v \<in> set items. parses v d"
  shows "parse_array_loop d acc (comma_join (map canon_write items) @ 93 # r) pos
       = Inr (Array (acc @ items), r, pos + length (comma_join (map canon_write items)) + 1)"
  using assms
proof (induction items arbitrary: acc pos)
  case (Cons v items)
  show ?case
  proof (cases items)
    case Nil
    have "parse_value d (canon_write v @ 93 # r) pos = Inr (v, 93 # r, pos + length (canon_write v))"
      using Cons.prems(2) by (simp add: parses_def)
    then show ?thesis
      by (subst parse_array_loop.simps) (simp add: Nil skip_not_ws bump_def)
  next
    case (Cons w items')
    let ?tail = "comma_join (map canon_write items) @ 93 # r"
    have "parse_value d (canon_write v @ 44 # ?tail) pos = Inr (v, 44 # ?tail, pos + length (canon_write v))"
      using Cons.prems(2) by (simp add: parses_def)
    moreover have "comma_join (map canon_write (v # items)) = canon_write v @ 44 # comma_join (map canon_write items)"
      by (simp add: Cons)
    ultimately show ?thesis
      using Cons.IH [of "acc @ [v]"] Cons.prems(2) Cons
      by (subst parse_array_loop.simps) (simp add: skip_not_ws bump_def)
  qed
qed simp


abbreviation write_entry :: "string \<times> Canonical \<Rightarrow> bytes" where
  "write_entry kv \<equiv> (case kv of (k, v) \<Rightarrow> write_json_string k @ [ch CHR '':''] @ canon_write v)"

lemma bt_insert_last: "\<forall>k' \<in> fst ` set m. k' < k \<Longrightarrow> bt_insert k v m = m @ [(k, v)]"
  by (induction k v m rule: bt_insert.induct) auto

lemma not_ws_string [simp]: "not_ws (write_json_string k @ r)"
  by (simp add: write_json_string_def)

lemma peek_string [simp]: "peek (write_json_string k @ r) = Some 0x22"
  by (simp add: write_json_string_def peek_def)

text \<open>One entry of an object.\<close>

lemma parse_object_loop_entry:
  assumes "valid_utf8 (as_bytes k)" "parses v d" "map_of acc k = None" "follow rest" "not_ws rest"
  shows "parse_object_loop d acc (write_entry (k, v) @ rest) pos
       = (let p = pos + length (write_entry (k, v)) in
          rbind (bump rest p) (\<lambda>(b, r, p).
            if b = ch CHR '','' then parse_object_loop d (bt_insert k v acc) r p
            else if b = ch CHR ''}'' then Inr (Object (bt_insert k v acc), r, p)
            else Inl (UnexpectedByte b (p - 1))))"
proof -
  have pv: "parse_value d (canon_write v @ rest) p = Inr (v, rest, p + length (canon_write v))" for p
    using assms(2,4) by (simp add: parses_def)
  show ?thesis
    using assms(3,5)
    by (subst parse_object_loop.simps)
      (simp add: skip_not_ws parse_string_write [OF assms(1)] bump_def [of "58 # _"] pv add.assoc Let_def)
qed

lemma parse_object_loop_write:
  assumes "kvs \<noteq> []" "bt_inv (acc @ kvs)" "\<forall>(k, v) \<in> set kvs. valid_utf8 (as_bytes k) \<and> parses v d"
  shows "parse_object_loop d acc (comma_join (map write_entry kvs) @ 125 # r) pos
       = Inr (Object (acc @ kvs), r, pos + length (comma_join (map write_entry kvs)) + 1)"
  using assms
proof (induction kvs arbitrary: acc pos)
  case (Cons kv kvs)
  obtain k v where kv: "kv = (k, v)" by fastforce
  have ok: "valid_utf8 (as_bytes k)" "parses v d" using Cons.prems(3) kv by auto
  have lt: "\<forall>k' \<in> fst ` set acc. k' < k"
    using Cons.prems(2) kv by (auto simp: bt_inv_def sorted_wrt_append)
  then have ins: "bt_insert k v acc = acc @ [(k, v)]" by (rule bt_insert_last)
  have none: "map_of acc k = None" using lt by (auto simp: map_of_eq_None_iff)
  note entry = parse_object_loop_entry [OF ok none]
  show ?case
  proof (cases kvs)
    case Nil
    show ?thesis
      using entry [of "125 # r"] by (simp add: Nil kv ins bump_def Let_def)
  next
    case (Cons kv' kvs')
    let ?tail = "comma_join (map write_entry kvs) @ 125 # r"
    have "comma_join (map write_entry (kv # kvs)) = write_entry kv @ 44 # comma_join (map write_entry kvs)"
      by (simp add: Cons)
    then have "parse_object_loop d acc (comma_join (map write_entry (kv # kvs)) @ 125 # r) pos
        = parse_object_loop d (acc @ [(k, v)]) ?tail (Suc (pos + length (write_entry kv)))"
      using entry [of "44 # ?tail"] by (simp add: kv ins bump_def Let_def)
    also have "\<dots> = Inr (Object ((acc @ [(k, v)]) @ kvs), r,
        Suc (pos + length (write_entry kv)) + length (comma_join (map write_entry kvs)) + 1)"
      using Cons.IH [of "acc @ [(k, v)]"] Cons.prems(2,3) Cons kv by (intro Cons.IH) auto
    finally show ?thesis by (simp add: Cons kv)
  qed
qed simp

lemma foldr_max_ge: "(n :: nat) \<in> set ns \<Longrightarrow> n \<le> foldr max ns 0"
  using foldr_max_le [of ns "foldr max ns 0"] by blast

lemma comma_join_Cons_head: "\<exists>t. comma_join (x # xs) = x @ t"
  by (cases xs) auto

lemma parses_wf:
  "canon_wf v \<Longrightarrow> d + nest v \<le> MAX_CANON_DEPTH \<Longrightarrow> parses v d"
proof (induction v arbitrary: d rule: canon_write.induct)
  case 1
  show ?case
    by (simp add: parses_def parse_value.simps peek_def expect_literal_def byte_of_char_def)
next
  case (2 b)
  show ?case
    by (cases b) (simp_all add: parses_def parse_value.simps peek_def expect_literal_def byte_of_char_def)
next
  case (3 i)
  let ?neg = "i < 0"
  let ?n = "nat \<bar>i\<bar>"
  have s: "signed ?neg ?n = i" by (simp add: signed_def)
  have w: "canon_write (Integer i) = (if ?neg then [45] else []) @ as_bytes (dec ?n)"
    by (simp add: int_to_string_def)
  obtain c t where ct: "int_to_string i = c # t" "c = CHR ''-'' \<or> is_digit c" using int_to_string_head by blast
  have c: "ch c = 45 \<or> byte_digit (ch c)" "ch c \<notin> {110, 116, 102, 0x22, 91, 123}"
    using ct(2) digit_byte_values [of c] by auto
  show ?case unfolding parses_def
  proof (intro allI impI)
    fix r pos
    assume "follow r"
    then have "parse_number (canon_write (Integer i) @ r) pos
        = Inr (Integer i, r, pos + length (canon_write (Integer i)))"
      using parse_number_dec [of r ?neg ?n pos] 3(1) unfolding w s by simp
    then show "parse_value d (canon_write (Integer i) @ r) pos
        = Inr (Integer i, r, pos + length (canon_write (Integer i)))"
      using c by (subst parse_value.simps) (auto simp: peek_def ct(1))
  qed
next
  case (4 s)
  then show ?case
    by (simp add: parses_def parse_value.simps parse_string_write)
next
  case (5 items)
  have d: "d < MAX_CANON_DEPTH" using 5(3) by simp
  have items: "\<forall>v \<in> set items. parses v (Suc d)"
  proof
    fix v
    assume v: "v \<in> set items"
    then have "nest v \<le> foldr max (map nest items) 0" by (intro foldr_max_ge) auto
    then show "parses v (Suc d)" using 5(1) [OF v, of "Suc d"] 5(2,3) v by simp
  qed
  show ?case unfolding parses_def
  proof (intro allI impI)
    fix r pos
    show "parse_value d (canon_write (Array items) @ r) pos
        = Inr (Array items, r, pos + length (canon_write (Array items)))"
    proof (cases items)
      case Nil
      then show ?thesis using d by (simp add: parse_value.simps peek_def parse_array.simps)
    next
      case (Cons v vs)
      let ?J = "comma_join (map canon_write items)"
      have ne: "items \<noteq> []" using Cons by simp
      obtain b w t where J: "?J = b # w @ t" and b: "b \<notin> {0x20, 0x09, 0x0A, 0x0D, 93, 125}"
        using canon_write_head [of v] comma_join_Cons_head [of "canon_write v" "map canon_write vs"] Cons by auto
      have sk: "skip_ws (?J @ 93 # r) (Suc pos) = (?J @ 93 # r, Suc pos)"
        "peek (?J @ 93 # r) \<noteq> Some 93" using b by (simp_all add: J peek_def)
      show ?thesis
        using d sk parse_array_loop_write [OF ne items, of "[]" r "Suc pos"]
        by (simp add: parse_value.simps peek_def [of "91 # _"] parse_array.simps)
    qed
  qed
next
  case (6 m)
  have d: "d < MAX_CANON_DEPTH" using 6(3) by simp
  have ent: "\<forall>(k, v) \<in> set m. valid_utf8 (as_bytes k) \<and> parses v (Suc d)"
  proof (intro ballI, clarify)
    fix k v
    assume kv: "(k, v) \<in> set m"
    then have "nest v \<le> foldr max (map (\<lambda>(k, v). nest v) m) 0" by (intro foldr_max_ge) force
    then show "valid_utf8 (as_bytes k) \<and> parses v (Suc d)"
      using 6(1) [OF kv refl, of "Suc d"] 6(2,3) kv by auto
  qed
  have inv: "bt_inv ([] @ m)" using 6(2) by simp
  show ?case unfolding parses_def
  proof (intro allI impI)
    fix r pos
    show "parse_value d (canon_write (Object m) @ r) pos
        = Inr (Object m, r, pos + length (canon_write (Object m)))"
    proof (cases m)
      case Nil
      then show ?thesis using d by (simp add: parse_value.simps peek_def parse_object.simps)
    next
      case (Cons kv kvs)
      let ?J = "comma_join (map write_entry m)"
      have ne: "m \<noteq> []" using Cons by simp
      obtain t where J: "?J = write_json_string (fst kv) @ t"
        using comma_join_Cons_head [of "write_entry kv" "map write_entry kvs"] Cons by (auto split: prod.splits)
      have sk: "skip_ws (?J @ 125 # r) (Suc pos) = (?J @ 125 # r, Suc pos)"
        "peek (?J @ 125 # r) \<noteq> Some 125" unfolding J append_assoc by (simp_all add: skip_not_ws)
      show ?thesis
        using d sk parse_object_loop_write [OF ne inv ent, of r "Suc pos"]
        by (simp add: parse_value.simps peek_def [of "123 # _"] parse_object.simps)
    qed
  qed
qed

section \<open>Parsed values are well-formed\<close>

lemma parse_string_loop_valid: "parse_string_loop acc rest pos = Inr (s, r, p) \<Longrightarrow> valid_utf8 (as_bytes s)"
proof (induction acc rest pos rule: parse_string_loop.induct)
  case (1 acc rest pos)
  obtain b r' where rest: "rest = b # r'"
    using 1(3) by (cases rest) (auto simp: parse_string_loop.simps bump_def)
  have "b \<noteq> 0x22 \<Longrightarrow> b \<noteq> 0x5C \<Longrightarrow> \<not> unat b \<le> 0x1F \<Longrightarrow>
      parse_string_loop (acc @ [b]) r' (pos + 1) = Inr (s, r, p) \<Longrightarrow> valid_utf8 (as_bytes s)"
    using 1(2) [of "(b, r', pos + 1)"] rest by (simp add: bump_def)
  moreover have "b = 0x5C \<Longrightarrow> parse_escape r' (pos + 1) = Inr (x, r1, p1) \<Longrightarrow>
      parse_string_loop (acc @ x) r1 p1 = Inr (s, r, p) \<Longrightarrow> valid_utf8 (as_bytes s)" for x r1 p1
    using 1(1) [of "(b, r', pos + 1)"] rest by (simp add: bump_def)
  ultimately show ?case
    using 1(3) [unfolded parse_string_loop.simps [of acc rest pos]]
    by (auto simp: rest bump_def result_simps from_utf8_def split: if_splits)
qed

lemma parse_string_valid: "parse_string rest pos = Inr (s, r, p) \<Longrightarrow> valid_utf8 (as_bytes s)"
  unfolding parse_string_def by (rule parse_string_loop_valid)

lemma parse_number_wf: "parse_number rest pos = Inr (v, r, p) \<Longrightarrow> canon_wf v \<and> nest v = 0"
  by (auto simp: parse_number_def finish_number_def Let_def split: list.splits if_splits)

definition deep_ok :: "nat \<Rightarrow> Canonical \<Rightarrow> bool" where
  "deep_ok d v \<longleftrightarrow> canon_wf v \<and> d + nest v \<le> MAX_CANON_DEPTH"

lemma deep_ok_Array:
  "d < MAX_CANON_DEPTH \<Longrightarrow> deep_ok d (Array items) \<longleftrightarrow> (\<forall>v \<in> set items. deep_ok (Suc d) v)"
proof -
  assume d: "d < MAX_CANON_DEPTH"
  have "d + Suc k \<le> MAX_CANON_DEPTH \<longleftrightarrow> k \<le> MAX_CANON_DEPTH - Suc d" for k using d by auto
  then show ?thesis using d by (auto simp: deep_ok_def foldr_max_le)
qed

lemma deep_ok_Object:
  "d < MAX_CANON_DEPTH \<Longrightarrow> deep_ok d (Object m)
   \<longleftrightarrow> bt_inv m \<and> (\<forall>(k, v) \<in> set m. valid_utf8 (as_bytes k) \<and> deep_ok (Suc d) v)"
proof -
  assume d: "d < MAX_CANON_DEPTH"
  have "d + Suc k \<le> MAX_CANON_DEPTH \<longleftrightarrow> k \<le> MAX_CANON_DEPTH - Suc d" for k using d by auto
  then show ?thesis using d by (fastforce simp: deep_ok_def foldr_max_le)
qed

lemma set_bt_insert_subset: "set (bt_insert k v m) \<subseteq> insert (k, v) (set m)"
  by (induction k v m rule: bt_insert.induct) auto

lemma parser_deep_ok:
  "d1 \<le> MAX_CANON_DEPTH \<Longrightarrow> \<forall>v r p. parse_value d1 r1 p1 = Inr (v, r, p) \<longrightarrow> deep_ok d1 v"
  "\<forall>v r p. parse_array d2 r2 p2 = Inr (v, r, p) \<longrightarrow> deep_ok d2 v"
  "d3 \<noteq> 0 \<Longrightarrow> d3 \<le> MAX_CANON_DEPTH \<Longrightarrow> \<forall>x \<in> set i3. deep_ok d3 x \<Longrightarrow>
    \<forall>v r p. parse_array_loop d3 i3 r3 p3 = Inr (v, r, p) \<longrightarrow> deep_ok (d3 - 1) v"
  "\<forall>v r p. parse_object d4 r4 p4 = Inr (v, r, p) \<longrightarrow> deep_ok d4 v"
  "d5 \<noteq> 0 \<Longrightarrow> d5 \<le> MAX_CANON_DEPTH \<Longrightarrow> bt_inv m5 \<Longrightarrow>
    \<forall>(k, x) \<in> set m5. valid_utf8 (as_bytes k) \<and> deep_ok d5 x \<Longrightarrow>
    \<forall>v r p. parse_object_loop d5 m5 r5 p5 = Inr (v, r, p) \<longrightarrow> deep_ok (d5 - 1) v"
proof (induction d1 r1 p1 and d2 r2 p2 and d3 i3 r3 p3 and d4 r4 p4 and d5 m5 r5 p5
    rule: parse_value_parse_array_parse_array_loop_parse_object_parse_object_loop.induct)
  case (1 depth rest pos)
  show ?case
  proof (intro allI impI)
    fix v r p
    assume ok: "parse_value depth rest pos = Inr (v, r, p)"
    then obtain b where pk: "peek rest = Some b" by (auto simp: parse_value.simps result_simps)
    have arr: "b = 91 \<Longrightarrow> parse_array depth rest pos = Inr (v, r, p) \<Longrightarrow> deep_ok depth v"
      using 1(1) [of b] pk by simp
    have obj: "b = 123 \<Longrightarrow> parse_object depth rest pos = Inr (v, r, p) \<Longrightarrow> deep_ok depth v"
      using 1(2) [of b] pk by simp
    from ok [unfolded parse_value.simps [of depth rest pos]] pk show "deep_ok depth v"
      using arr obj parse_number_wf [of rest pos v r p] 1(3)
      by (auto simp: result_simps expect_literal_def deep_ok_def dest: parse_string_valid split: if_splits)
  qed
next
  case (2 depth rest pos)
  obtain r0 p0 where sk: "skip_ws (tl rest) (pos + 1) = (r0, p0)" by fastforce
  show ?case
    using 2(1) [OF _ sk [symmetric] refl]
    unfolding parse_array.simps [of depth rest pos] sk Let_def prod.case
    by (auto simp: deep_ok_Array split: if_splits)
next
  case (3 depth items rest pos)
  obtain r0 p0 where sk: "skip_ws rest pos = (r0, p0)" by fastforce
  show ?case
  proof (intro allI impI)
    fix v r p
    assume "parse_array_loop depth items rest pos = Inr (v, r, p)"
    note ok = this [unfolded parse_array_loop.simps [of depth items rest pos] sk Let_def prod.case]
    then obtain v1 r1 p1 where pv: "parse_value depth r0 p0 = Inr (v1, r1, p1)"
      by (auto simp: result_simps)
    obtain r2 p2 where sk2: "skip_ws r1 p1 = (r2, p2)" by fastforce
    from ok obtain b r3 p3 where bp: "bump r2 p2 = Inr (b, r3, p3)"
        and fin: "b = ch CHR '','' \<and> parse_array_loop depth (items @ [v1]) r3 p3 = Inr (v, r, p)
          \<or> v = Array (items @ [v1])"
      by (auto simp: pv sk2 result_simps split: if_splits)
    have "deep_ok depth v1" using 3(1) [OF sk [symmetric] refl 3(4)] pv by blast
    then have all: "\<forall>x \<in> set (items @ [v1]). deep_ok depth x" using 3(5) by auto
    from fin show "deep_ok (depth - 1) v"
    proof
      assume "v = Array (items @ [v1])"
      with all 3(3,4) deep_ok_Array [of "depth - 1" "items @ [v1]"] show ?thesis by simp
    next
      assume "b = ch CHR '','' \<and> parse_array_loop depth (items @ [v1]) r3 p3 = Inr (v, r, p)"
      with 3(2) [OF sk [symmetric] refl pv refl refl sk2 [symmetric] refl bp refl refl _ 3(3,4) all]
      show ?thesis by blast
    qed
  qed
next
  case (4 depth rest pos)
  obtain r0 p0 where sk: "skip_ws (tl rest) (pos + 1) = (r0, p0)" by fastforce
  show ?case
    using 4(1) [OF _ sk [symmetric] refl]
    unfolding parse_object.simps [of depth rest pos] sk Let_def prod.case
    by (auto simp: deep_ok_Object split: if_splits)
next
  case (5 depth m rest pos)
  obtain r0 p0 where sk: "skip_ws rest pos = (r0, p0)" by fastforce
  show ?case
  proof (intro allI impI)
    fix v r p
    assume "parse_object_loop depth m rest pos = Inr (v, r, p)"
    note ok = this [unfolded parse_object_loop.simps [of depth m rest pos] sk Let_def prod.case]
    then have q: "\<not> peek r0 \<noteq> Some 0x22" by (auto split: if_splits)
    from ok q obtain key r1 p1 where ps: "parse_string r0 p0 = Inr (key, r1, p1)"
      by (auto simp: result_simps)
    obtain r2 p2 where sk1: "skip_ws r1 p1 = (r2, p2)" by fastforce
    from ok q obtain r3 p3 where bp: "bump r2 p2 = Inr (ch CHR '':'', r3, p3)"
      by (auto simp: result_simps ps sk1 simp del: byte_literals split: if_splits)
    obtain r4 p4 where sk3: "skip_ws r3 p3 = (r4, p4)" by fastforce
    from ok q obtain v5 r5 p5 where pv: "parse_value depth r4 p4 = Inr (v5, r5, p5)"
      by (auto simp: result_simps ps sk1 bp sk3 simp del: byte_literals)
    from ok q have dup: "\<not> map_of m key \<noteq> None"
      by (auto simp: result_simps ps sk1 bp sk3 pv simp del: byte_literals split: if_splits)
    obtain r6 p6 where sk5: "skip_ws r5 p5 = (r6, p6)" by fastforce
    from ok q dup obtain b r7 p7 where bp6: "bump r6 p6 = Inr (b, r7, p7)"
        and fin: "b = ch CHR '','' \<and> parse_object_loop depth (bt_insert key v5 m) r7 p7 = Inr (v, r, p)
          \<or> v = Object (bt_insert key v5 m)"
      by (auto simp: result_simps ps sk1 bp sk3 pv sk5 simp del: byte_literals split: if_splits)
    note pre = sk [symmetric] refl q ps refl refl sk1 [symmetric] refl bp refl refl _ sk3 [symmetric] refl
    have "deep_ok depth v5" using 5(1) [OF pre 5(4)] pv by blast
    then have all: "\<forall>(k, x) \<in> set (bt_insert key v5 m). valid_utf8 (as_bytes k) \<and> deep_ok depth x"
      using 5(6) parse_string_valid [OF ps] set_bt_insert_subset [of key v5 m] by blast
    have inv: "bt_inv (bt_insert key v5 m)" using 5(5) by (rule bt_inv_insert)
    from fin show "deep_ok (depth - 1) v"
    proof
      assume "v = Object (bt_insert key v5 m)"
      with all inv 5(3,4) deep_ok_Object [of "depth - 1" "bt_insert key v5 m"] show ?thesis by simp
    next
      assume "b = ch CHR '','' \<and> parse_object_loop depth (bt_insert key v5 m) r7 p7 = Inr (v, r, p)"
      with 5(2) [OF pre pv refl refl dup refl sk5 [symmetric] refl bp6 refl refl _ 5(3,4) inv all]
      show ?thesis by blast
    qed
  qed
qed

section \<open>Reading the fields of a built object\<close>

text \<open>A field of \<open>object\<close> is the last pair with that key; the typed readers follow. These are the facts
  a codec built on objects needs: what it reads back, and that what it builds is well-formed.\<close>

lemma field_object [simp]: "field (object kvs) key = ok_or (Missing key) (map_of (rev kvs) key)"
  by (simp add: field_def object_def as_object_def map_of_bt_of_list)

lemmas field_readers = get_str_def get_u64_def get_i64_def get_bool_def get_array_def u64_decimal_def

text \<open>\<open>is_str s\<close>: the bytes of \<open>s\<close> are UTF-8, as those of every Rust \<open>String\<close> are.\<close>

definition is_str :: "string \<Rightarrow> bool" where
  "is_str s \<longleftrightarrow> valid_utf8 (as_bytes s)"

definition ascii :: "string \<Rightarrow> bool" where
  "ascii s \<longleftrightarrow> (\<forall>c \<in> set s. (of_char c :: nat) < 0x80)"

lemma ascii_Nil [simp]: "ascii []" and ascii_Cons [simp]: "ascii (c # s) \<longleftrightarrow> (of_char c :: nat) < 0x80 \<and> ascii s"
  by (auto simp: ascii_def)

lemma ascii_is_str [simp]: "ascii s \<Longrightarrow> is_str s"
  unfolding is_str_def by (rule valid_utf8_ascii) (auto simp: ascii_def as_bytes_def)

lemma ascii_dec [simp]: "ascii (dec n)"
  using dec_digits [of n] by (fastforce simp: ascii_def list_all_iff is_digit_def)

lemma deep_ok_object:
  assumes "d < MAX_CANON_DEPTH" "\<forall>(k, v) \<in> set kvs. is_str k \<and> deep_ok (Suc d) v"
  shows "deep_ok d (object kvs)"
  unfolding object_def deep_ok_Object [OF assms(1)]
  using assms(2) set_bt_of_list [of kvs] bt_inv_of_list by (fastforce simp: is_str_def)

lemma deep_ok_scalars [simp]:
  "deep_ok d Null \<longleftrightarrow> d \<le> MAX_CANON_DEPTH" "deep_ok d (Bool b) \<longleftrightarrow> d \<le> MAX_CANON_DEPTH"
  "deep_ok d (Integer i) \<longleftrightarrow> i64_range i \<and> d \<le> MAX_CANON_DEPTH"
  "deep_ok d (Str s) \<longleftrightarrow> is_str s \<and> d \<le> MAX_CANON_DEPTH"
  by (auto simp: deep_ok_def is_str_def)

lemma deep_ok_u64 [simp]: "d \<le> MAX_CANON_DEPTH \<Longrightarrow> deep_ok d (u64_decimal n)"
  by (simp add: u64_decimal_def)

section \<open>Encoding and decoding\<close>

lemma deep_ok_depth: "canon_wf v \<Longrightarrow> canon_depth v \<le> MAX_CANON_DEPTH \<Longrightarrow> deep_ok 0 v"
  using nest_le_depth [of v] by (simp add: deep_ok_def)

lemma from_bytes_bounded_write:
  assumes "deep_ok 0 v" "length (to_bytes v) \<le> lim"
  shows "from_bytes_bounded (to_bytes v) lim = Inr v"
proof -
  have "parses v 0"
    using assms(1) by (intro parses_wf) (simp_all add: deep_ok_def)
  then have "parse_value 0 (canon_write v) 0 = Inr (v, [], length (canon_write v))"
    unfolding parses_def by (metis add_0 append_Nil2 follow_simps(1))
  moreover have "skip_ws (canon_write v) 0 = (canon_write v, 0)"
    using canon_write_not_ws [of v "[]"] by (simp add: skip_not_ws)
  ultimately show ?thesis using assms(2) by (simp add: from_bytes_bounded_def to_bytes_def)
qed

lemma from_bytes_bounded_deep_ok: "from_bytes_bounded b lim = Inr v \<Longrightarrow> deep_ok 0 v"
  using parser_deep_ok(1) [of 0 "fst (skip_ws b 0)" "snd (skip_ws b 0)"]
  by (auto simp: from_bytes_bounded_def result_simps Let_def split_beta split: if_splits)

lemma to_bytes_inj:
  "deep_ok 0 v \<Longrightarrow> deep_ok 0 w \<Longrightarrow> to_bytes v = to_bytes w \<Longrightarrow> v = w"
  by (metis from_bytes_bounded_write order_refl sum.inject(2))

lemma from_bytes_limit: "from_bytes b = Inr v \<Longrightarrow> length b \<le> MAX_METADATA"
  by (auto simp: from_bytes_def from_bytes_bounded_def split: if_splits)

section \<open>Properties\<close>

text \<open>C36: Decoding an encoded value gives it back: every well-formed value of at most 16 levels whose
  encoding fits the metadata bound survives \<open>to_bytes\<close> and \<open>from_bytes\<close>, with every string, escape,
  sign, nesting and key order.\<close>

theorem canon_decode_encode:
  assumes "canon_wf v" "canon_depth v \<le> MAX_CANON_DEPTH" "length (to_bytes v) \<le> MAX_METADATA"
  shows "from_bytes (to_bytes v) = Inr v"
  unfolding from_bytes_def using assms by (intro from_bytes_bounded_write deep_ok_depth)

theorem canon_decode_encode_witness:
  "let v = object [(''n'', Array [Null, Bool True, Integer (- 5)]), (''a'', Str [CHR 0x22, CHR 0x0A, CHR ''x''])]
   in canon_wf v \<and> from_bytes (to_bytes v) = Inr v"
proof -
  let ?v = "object [(''n'', Array [Null, Bool True, Integer (- 5)]), (''a'', Str [CHR 0x22, CHR 0x0A, CHR ''x''])]"
  have "valid_utf8 (as_bytes ''n'')" "valid_utf8 (as_bytes ''a'')"
    "valid_utf8 (as_bytes [CHR 0x22, CHR 0x0A, CHR ''x''])"
    by (auto intro!: valid_utf8_ascii)
  then have wf: "canon_wf ?v"
    by (simp add: object_def bt_of_list_def bt_inv_def i64_range_def int_range_defs)
  have "canon_depth ?v \<le> MAX_CANON_DEPTH"
    by (simp add: object_def bt_of_list_def MAX_CANON_DEPTH_def)
  moreover have "length (to_bytes ?v) \<le> MAX_METADATA"
    by (simp add: to_bytes_def object_def bt_of_list_def write_json_string_def chars_ascii write_char_def
        encode_ascii int_to_string_def dec.simps limit_defs)
  ultimately have "from_bytes (to_bytes ?v) = Inr ?v" using wf by (intro canon_decode_encode)
  with wf show ?thesis by (simp add: Let_def)
qed

text \<open>Whatever bytes the decoder accepts (white space, escapes and unsorted keys included), the
  value it returns is well-formed, and re-encoding it gives bytes that decode to the same value: the
  canonical form is stable.\<close>

theorem canon_reencode_stable:
  assumes "from_bytes b = Inr v"
  shows "canon_wf v \<and> from_bytes_bounded (to_bytes v) (length (to_bytes v)) = Inr v"
proof -
  have ok: "deep_ok 0 v" using assms unfolding from_bytes_def by (rule from_bytes_bounded_deep_ok)
  with from_bytes_bounded_write [OF ok order_refl] show ?thesis by (simp add: deep_ok_def)
qed

theorem canon_reencode_stable_witness:
  "from_bytes (as_bytes '' [ -0 ] '') = Inr (Array [Integer 0])
   \<and> from_bytes_bounded (to_bytes (Array [Integer 0])) (length (to_bytes (Array [Integer 0])))
     = Inr (Array [Integer 0])"
proof -
  have "from_bytes (as_bytes '' [ -0 ] '') = Inr (Array [Integer 0])"
    by (simp add: from_bytes_def from_bytes_bounded_def parse_value.simps parse_array.simps
        parse_array_loop.simps peek_def byte_digit_def parse_number_def finish_number_def bump_def
        dec_val_def digit_val_def i64_range_def int_range_defs limit_defs MAX_CANON_DEPTH_def
        byte_of_char_def char_of_byte_def string_of_bytes_def)
  with canon_reencode_stable [OF this] show ?thesis by simp
qed

text \<open>The encoding that feeds signatures and AEAD inputs is unambiguous: two well-formed values
  within the depth bound with the same bytes are the same value.\<close>

theorem canon_encoding_injective:
  assumes "canon_wf v" "canon_wf w" "canon_depth v \<le> MAX_CANON_DEPTH" "canon_depth w \<le> MAX_CANON_DEPTH"
    and "to_bytes v = to_bytes w"
  shows "v = w"
  using assms by (intro to_bytes_inj deep_ok_depth)

theorem canon_encoding_injective_witness:
  "object [(''a'', Null), (''b'', Bool True)] = object [(''b'', Bool True), (''a'', Null)]"
proof (rule canon_encoding_injective)
  have "valid_utf8 (as_bytes ''a'')" "valid_utf8 (as_bytes ''b'')" by (auto intro!: valid_utf8_ascii)
  then show "canon_wf (object [(''a'', Null), (''b'', Bool True)])"
    "canon_wf (object [(''b'', Bool True), (''a'', Null)])"
    by (simp_all add: object_def bt_of_list_def bt_inv_def)
qed (simp_all add: object_def bt_of_list_def MAX_CANON_DEPTH_def)

end
