(* ===== verification/Framing.thy ===== *)
theory Framing
  imports Kind Canon
begin

text \<open>
  \<open>crates/wsnet-protocol/src/record.rs\<close>: the framing of one record, its encoder and its decoder. The
  decoder keeps the source's cursor into the input; every declared length is checked before the slice
  is taken.
\<close>

section \<open>Data\<close>

definition RECORD_OVERHEAD :: nat where "RECORD_OVERHEAD = 1 + 4 + 4 + 2"

datatype RecordError =
    TooLarge nat nat                          \<comment> \<open>actual, limit\<close>
  | MetadataTooLarge nat
  | PayloadTooLarge MessageKind nat nat       \<comment> \<open>kind, actual, limit\<close>
  | PaddingTooLarge nat
  | Truncated string                          \<comment> \<open>field\<close>
  | UnknownKind u8
  | Metadata CanonError
  | TrailingData nat

record Record =
  kind :: MessageKind
  metadata :: Canonical
  payload :: bytes
  padding_len :: nat

definition record_new :: "MessageKind \<Rightarrow> Canonical \<Rightarrow> Record" where
  "record_new k md = \<lparr>kind = k, metadata = md, payload = [], padding_len = 0\<rparr>"

definition with_payload :: "MessageKind \<Rightarrow> Canonical \<Rightarrow> bytes \<Rightarrow> Record" where
  "with_payload k md pl = \<lparr>kind = k, metadata = md, payload = pl, padding_len = 0\<rparr>"

section \<open>Encoder\<close>

definition validate_against :: "Record \<Rightarrow> bytes \<Rightarrow> RecordError + unit" where
  "validate_against rc md =
     (if length md > MAX_METADATA then Inl (MetadataTooLarge (length md))
      else let lim = max_payload (kind rc) in
      if length (payload rc) > lim then Inl (PayloadTooLarge (kind rc) (length (payload rc)) lim)
      else if padding_len rc > MAX_PADDING then Inl (PaddingTooLarge (padding_len rc))
      else let total = RECORD_OVERHEAD + length md + length (payload rc) + padding_len rc in
      if total > MAX_RECORD_PLAINTEXT then Inl (TooLarge total MAX_RECORD_PLAINTEXT) else Inr ())"

definition encoded_len :: "Record \<Rightarrow> RecordError + nat" where
  "encoded_len rc =
     rbind (map_err Metadata (to_bounded_bytes (metadata rc))) (\<lambda>md.
       rbind (validate_against rc md) (\<lambda>_.
         Inr (RECORD_OVERHEAD + length md + length (payload rc) + padding_len rc)))"

definition encode_into :: "Record \<Rightarrow> bytes \<Rightarrow> bytes \<Rightarrow> bytes" where
  "encode_into rc md out =
     out @ [kind_as_u8 (kind rc)]
     @ be_bytes 4 (length md) @ md
     @ be_bytes 4 (length (payload rc)) @ payload rc
     @ be_bytes 2 (padding_len rc) @ replicate (padding_len rc) 0"

definition encode :: "Record \<Rightarrow> RecordError + bytes" where
  "encode rc =
     rbind (map_err Metadata (to_bounded_bytes (metadata rc))) (\<lambda>md.
       rbind (validate_against rc md) (\<lambda>_. Inr (encode_into rc md [])))"

definition encode_to :: "Record \<Rightarrow> bytes \<Rightarrow> RecordError + bytes" where
  "encode_to rc out =
     rbind (map_err Metadata (to_bounded_bytes (metadata rc))) (\<lambda>md.
       rbind (validate_against rc md) (\<lambda>_. Inr (encode_into rc md out)))"

section \<open>Decoder\<close>

text \<open>The cursor starts within the input and only moves forward inside it, so the \<open>checked_add\<close> on
  \<open>usize\<close> fails only where the slice would be out of range anyway.\<close>

definition take_field :: "bytes \<Rightarrow> nat \<Rightarrow> nat \<Rightarrow> string \<Rightarrow> RecordError + (bytes \<times> nat)" where
  "take_field input cursor len fld =
     rbind (ok_or (Truncated fld) (checked_add cursor len)) (\<lambda>e.
       if e \<le> length input then Inr (take len (drop cursor input), e) else Inl (Truncated fld))"

definition read_u32 :: "bytes \<Rightarrow> nat \<Rightarrow> string \<Rightarrow> RecordError + (nat \<times> nat)" where
  "read_u32 input cursor fld =
     rbind (take_field input cursor 4 fld) (\<lambda>(bs, c). Inr (of_be_bytes bs, c))"

definition read_u16 :: "bytes \<Rightarrow> nat \<Rightarrow> string \<Rightarrow> RecordError + (nat \<times> nat)" where
  "read_u16 input cursor fld =
     rbind (take_field input cursor 2 fld) (\<lambda>(bs, c). Inr (of_be_bytes bs, c))"

text \<open>The second half of \<open>decode_prefix\<close>: payload and padding.\<close>

definition decode_payload :: "MessageKind \<Rightarrow> Canonical \<Rightarrow> bytes \<Rightarrow> nat \<Rightarrow> RecordError + (Record \<times> nat)" where
  "decode_payload k md input c =
     rbind (read_u32 input c ''payload_len'') (\<lambda>(payload_len, c).
       if payload_len > max_payload k then Inl (PayloadTooLarge k payload_len (max_payload k))
       else rbind (take_field input c payload_len ''payload'') (\<lambda>(pl, c).
         rbind (read_u16 input c ''padding_len'') (\<lambda>(pad_len, c).
           if pad_len > MAX_PADDING then Inl (PaddingTooLarge pad_len)
           else rbind (take_field input c pad_len ''padding'') (\<lambda>(_, c).
             Inr (\<lparr>kind = k, metadata = md, payload = pl, padding_len = pad_len\<rparr>, c)))))"

definition decode_prefix :: "bytes \<Rightarrow> RecordError + (Record \<times> nat)" where
  "decode_prefix input =
     (if length input > MAX_RECORD_PLAINTEXT then Inl (TooLarge (length input) MAX_RECORD_PLAINTEXT)
      else
        rbind (ok_or (Truncated ''kind'') (if input = [] then None else Some (hd input))) (\<lambda>kind_byte.
        rbind (ok_or (UnknownKind kind_byte) (kind_from_u8 kind_byte)) (\<lambda>k.
        rbind (read_u32 input 1 ''metadata_len'') (\<lambda>(metadata_len, c).
        if metadata_len > MAX_METADATA then Inl (MetadataTooLarge metadata_len)
        else rbind (take_field input c metadata_len ''metadata'') (\<lambda>(metadata_bytes, c).
        rbind (map_err Metadata (from_bytes_bounded metadata_bytes MAX_METADATA)) (\<lambda>md.
          decode_payload k md input c))))))"

definition decode :: "bytes \<Rightarrow> RecordError + Record" where
  "decode input =
     rbind (decode_prefix input) (\<lambda>(rc, consumed).
       if consumed \<noteq> length input then Inl (TrailingData (length input - consumed)) else Inr rc)"

section \<open>Round trip\<close>

lemma take_field_append:
  "length (pre @ xs @ post) \<le> u64_max \<Longrightarrow>
   take_field (pre @ xs @ post) (length pre) (length xs) f = Inr (xs, length pre + length xs)"
  by (simp add: take_field_def checked_add_def)

lemma take_field_at:
  assumes "input = pre @ xs @ post" "c = length pre" "n = length xs" "length input \<le> u64_max" "e = c + n"
  shows "take_field input c n f = Inr (xs, e)"
  using take_field_append [of pre xs post f] assms by simp

lemma encode_Inr:
  "encode rc = Inr b \<longleftrightarrow>
     length (to_bytes (metadata rc)) \<le> MAX_METADATA \<and> length (payload rc) \<le> max_payload (kind rc)
   \<and> padding_len rc \<le> MAX_PADDING
   \<and> RECORD_OVERHEAD + length (to_bytes (metadata rc)) + length (payload rc) + padding_len rc \<le> MAX_RECORD_PLAINTEXT
   \<and> b = encode_into rc (to_bytes (metadata rc)) []"
  by (auto simp: encode_def to_bounded_bytes_def validate_against_def result_simps Let_def not_less)

text \<open>A record the types of the program allow: well-formed metadata of bounded depth.\<close>

definition record_ok :: "Record \<Rightarrow> bool" where
  "record_ok rc \<longleftrightarrow> deep_ok 0 (metadata rc) \<and> is_ok (encode rc)"

lemma decode_prefix_encode:
  assumes md: "deep_ok 0 (metadata rc)" and en: "encode rc = Inr b"
    and lim: "length (b @ rest) \<le> MAX_RECORD_PLAINTEXT"
  shows "decode_prefix (b @ rest) = Inr (rc, length b)"
proof -
  let ?md = "to_bytes (metadata rc)"
  let ?input = "b @ rest"
  from en have le: "length ?md \<le> MAX_METADATA" "length (payload rc) \<le> max_payload (kind rc)"
    "padding_len rc \<le> MAX_PADDING" and b: "b = encode_into rc ?md []"
    by (auto simp: encode_Inr)
  have u: "length ?input \<le> u64_max" using lim by (simp add: limit_defs u64_max_def)
  have input: "?input = [kind_as_u8 (kind rc)] @ be_bytes 4 (length ?md) @ ?md
      @ be_bytes 4 (length (payload rc)) @ payload rc
      @ be_bytes 2 (padding_len rc) @ replicate (padding_len rc) 0 @ rest"
    by (simp add: b encode_into_def)
  have u32: "of_be_bytes (be_bytes 4 (length ?md)) = length ?md"
    "of_be_bytes (be_bytes 4 (length (payload rc))) = length (payload rc)"
    using le max_payload_le [of "kind rc"]
    by (auto intro!: of_be_bytes_u32 simp: limit_defs u32_max_def)
  have u16: "of_be_bytes (be_bytes 2 (padding_len rc)) = padding_len rc"
    using le by (auto intro!: of_be_bytes_u16 simp: limit_defs u16_max_def)
  define c1 where "c1 = 5 + length ?md"
  define c2 where "c2 = c1 + 4"
  define c3 where "c3 = c2 + length (payload rc)"
  define c4 where "c4 = c3 + 2"
  note cs = c1_def c2_def c3_def c4_def
  have t1: "take_field ?input 1 4 f = Inr (be_bytes 4 (length ?md), 5)" for f
    using take_field_at [OF input, of 1 4 5 f] u by simp
  have t2: "take_field ?input 5 (length ?md) f = Inr (?md, c1)" for f
    by (rule take_field_at [where pre = "[kind_as_u8 (kind rc)] @ be_bytes 4 (length ?md)"])
      (use input u in \<open>simp_all add: cs\<close>)
  have t3: "take_field ?input c1 4 f = Inr (be_bytes 4 (length (payload rc)), c2)" for f
    by (rule take_field_at [where pre = "[kind_as_u8 (kind rc)] @ be_bytes 4 (length ?md) @ ?md"])
      (use input u in \<open>simp_all add: cs\<close>)
  have t4: "take_field ?input c2 (length (payload rc)) f = Inr (payload rc, c3)" for f
    by (rule take_field_at [where pre = "[kind_as_u8 (kind rc)] @ be_bytes 4 (length ?md) @ ?md
        @ be_bytes 4 (length (payload rc))"])
      (use input u in \<open>simp_all add: cs\<close>)
  have t5: "take_field ?input c3 2 f = Inr (be_bytes 2 (padding_len rc), c4)" for f
    by (rule take_field_at [where pre = "[kind_as_u8 (kind rc)] @ be_bytes 4 (length ?md) @ ?md
        @ be_bytes 4 (length (payload rc)) @ payload rc"])
      (use input u in \<open>simp_all add: cs\<close>)
  have t6: "take_field ?input c4 (padding_len rc) f
      = Inr (replicate (padding_len rc) 0, c4 + padding_len rc)" for f
    by (rule take_field_at [where pre = "[kind_as_u8 (kind rc)] @ be_bytes 4 (length ?md) @ ?md
        @ be_bytes 4 (length (payload rc)) @ payload rc @ be_bytes 2 (padding_len rc)"])
      (use input u in \<open>simp_all add: cs\<close>)
  have ne: "b \<noteq> []" "hd ?input = kind_as_u8 (kind rc)" by (simp_all add: b encode_into_def)
  have len: "length b = c4 + padding_len rc" by (simp add: b encode_into_def cs)
  show ?thesis
    unfolding decode_prefix_def decode_payload_def read_u32_def read_u16_def t1
    using lim ne le from_bytes_bounded_write [OF md le(1)]
    by (simp add: t1 t2 t3 t4 t5 t6 u32 u16 len del: length_append)
qed

section \<open>The record format as a self-delimiting encoding\<close>

definition record_bytes :: "Record \<Rightarrow> bytes" where
  "record_bytes rc = (case encode rc of Inr b \<Rightarrow> b | Inl e \<Rightarrow> [])"

definition record_read :: "bytes \<Rightarrow> (Record \<times> bytes) option" where
  "record_read input = (case decode_prefix input of Inr (rc, n) \<Rightarrow> Some (rc, drop n input) | Inl e \<Rightarrow> None)"

lemma record_bytes_ok: "record_ok rc \<Longrightarrow> encode rc = Inr (record_bytes rc)"
  by (cases "encode rc") (simp_all add: record_ok_def record_bytes_def)

interpretation rec: prefix_codec record_bytes record_read record_ok "\<lambda>b. length b \<le> MAX_RECORD_PLAINTEXT"
proof unfold_locales
  fix rc rest
  assume ok: "record_ok rc" and lim: "length (record_bytes rc @ rest) \<le> MAX_RECORD_PLAINTEXT"
  from decode_prefix_encode [OF _ record_bytes_ok [OF ok] lim] ok
  show "record_read (record_bytes rc @ rest) = Some (rc, rest)"
    by (simp add: record_read_def record_ok_def)
next
  fix rc
  assume "record_ok rc"
  from record_bytes_ok [OF this] show "record_bytes rc \<noteq> []"
    by (auto simp: encode_Inr encode_into_def)
qed simp

text \<open>What an accepted record satisfies.\<close>

lemma take_field_Inr:
  "take_field input c n f = Inr (xs, c') \<longleftrightarrow>
     c + n \<le> u64_max \<and> c + n \<le> length input \<and> xs = take n (drop c input) \<and> c' = c + n"
  by (auto simp: take_field_def result_simps)

lemma decode_payload_bounds:
  assumes "decode_payload k md input c = Inr (rc, n)"
  shows "n \<le> length input" "metadata rc = md" "kind rc = k" "length (payload rc) \<le> max_payload k"
    "padding_len rc \<le> MAX_PADDING" "c + 6 + length (payload rc) + padding_len rc = n"
proof -
  have "n \<le> length input \<and> metadata rc = md \<and> kind rc = k \<and> length (payload rc) \<le> max_payload k
      \<and> padding_len rc \<le> MAX_PADDING \<and> c + 6 + length (payload rc) + padding_len rc = n"
    using assms unfolding decode_payload_def read_u32_def read_u16_def
    by (clarsimp simp: result_simps take_field_Inr not_less split: if_splits)
  then show "n \<le> length input" "metadata rc = md" "kind rc = k" "length (payload rc) \<le> max_payload k"
    "padding_len rc \<le> MAX_PADDING" "c + 6 + length (payload rc) + padding_len rc = n"
    by blast+
qed

lemma decode_prefix_bounds:
  assumes "decode_prefix input = Inr (rc, n)"
  shows "n \<le> length input" "deep_ok 0 (metadata rc)" "length (payload rc) \<le> max_payload (kind rc)"
    "padding_len rc \<le> MAX_PADDING" "RECORD_OVERHEAD + length (payload rc) + padding_len rc \<le> n"
    "n \<le> MAX_RECORD_PLAINTEXT"
proof -
  from assms obtain k md mb x where lim: "length input \<le> MAX_RECORD_PLAINTEXT"
    and md: "from_bytes_bounded mb MAX_METADATA = Inr md"
    and pl: "decode_payload k md input (5 + x) = Inr (rc, n)"
    unfolding decode_prefix_def read_u32_def
    by (auto simp: result_simps take_field_Inr not_less split: if_splits)
  note b = decode_payload_bounds [OF pl]
  show "deep_ok 0 (metadata rc)" using from_bytes_bounded_deep_ok [OF md] b(2) by simp
  show "n \<le> length input" "length (payload rc) \<le> max_payload (kind rc)" "padding_len rc \<le> MAX_PADDING"
    "RECORD_OVERHEAD + length (payload rc) + padding_len rc \<le> n" "n \<le> MAX_RECORD_PLAINTEXT"
    using b lim by (auto simp: RECORD_OVERHEAD_def)
qed

section \<open>Properties\<close>

text \<open>A record that the encoder accepts is read back exactly, by \<open>decode_prefix\<close> from the front of
  any longer input with the consumed length, and by \<open>decode\<close> when nothing follows.\<close>

theorem record_decode_encode:
  assumes "canon_wf (metadata rc)" "canon_depth (metadata rc) \<le> MAX_CANON_DEPTH" "encode rc = Inr b"
    and "length (b @ rest) \<le> MAX_RECORD_PLAINTEXT"
  shows "decode_prefix (b @ rest) = Inr (rc, length b) \<and> decode b = Inr rc"
proof -
  note md = deep_ok_depth [OF assms(1,2)]
  have "decode_prefix (b @ []) = Inr (rc, length b)"
    using assms(4) by (intro decode_prefix_encode [OF md assms(3)]) simp
  with decode_prefix_encode [OF md assms(3,4)] show ?thesis by (simp add: decode_def)
qed

text \<open>A data record with a payload and two bytes of padding.\<close>

theorem record_decode_encode_witness:
  "\<exists>b. encode \<lparr>kind = MessageKind.Data, metadata = Null, payload = [1, 2, 3], padding_len = 2\<rparr> = Inr b
     \<and> decode_prefix (b @ [9]) = Inr (\<lparr>kind = MessageKind.Data, metadata = Null, payload = [1, 2, 3], padding_len = 2\<rparr>, length b)
     \<and> decode b = Inr \<lparr>kind = MessageKind.Data, metadata = Null, payload = [1, 2, 3], padding_len = 2\<rparr>"
proof -
  let ?rc = "\<lparr>kind = MessageKind.Data, metadata = Null, payload = [1, 2, 3], padding_len = 2\<rparr>"
  obtain b where b: "encode ?rc = Inr b" "length b = 20"
    by (simp add: encode_Inr max_payload_def limit_defs RECORD_OVERHEAD_def to_bytes_def encode_into_def)
  have "decode_prefix (b @ [9]) = Inr (?rc, length b) \<and> decode b = Inr ?rc"
    using b by (intro record_decode_encode) (simp_all add: limit_defs MAX_CANON_DEPTH_def)
  with b(1) show ?thesis by blast
qed

text \<open>Every accepted record is within the documented bounds: the payload fits its kind (empty for
  a kind that carries none), the padding and the whole frame fit theirs, the metadata is well-formed,
  and no byte beyond the input was read.\<close>

theorem record_decode_bounded:
  assumes "decode_prefix input = Inr (rc, n)"
  shows "n \<le> length input \<and> RECORD_OVERHEAD + length (payload rc) + padding_len rc \<le> n
    \<and> n \<le> MAX_RECORD_PLAINTEXT \<and> length (payload rc) \<le> max_payload (kind rc)
    \<and> (payload rc \<noteq> [] \<longrightarrow> carries_payload (kind rc)) \<and> padding_len rc \<le> MAX_PADDING
    \<and> canon_wf (metadata rc)"
  using decode_prefix_bounds [OF assms] max_payload_0_iff [of "kind rc"]
  by (auto simp: deep_ok_def)

theorem record_decode_bounded_witness:
  "\<exists>rc n. decode_prefix [1, 0, 0, 0, 1, 0x30, 0, 0, 0, 0, 0, 0] = Inr (rc, n) \<and> n = 12
    \<and> length (payload rc) \<le> max_payload (kind rc) \<and> canon_wf (metadata rc)"
proof -
  have "from_bytes_bounded [0x30] MAX_METADATA = Inr (Integer 0)"
    by (simp add: from_bytes_bounded_def parse_value.simps peek_def byte_digit_def parse_number_def
        finish_number_def dec_val_def digit_val_def i64_range_def int_range_defs limit_defs
        char_of_byte_def string_of_bytes_def)
  then have d: "decode_prefix [1, 0, 0, 0, 1, 0x30, 0, 0, 0, 0, 0, 0]
      = Inr (\<lparr>kind = MessageKind.Auth, metadata = Integer 0, payload = [], padding_len = 0\<rparr>, 12)"
    by (simp add: decode_prefix_def decode_payload_def read_u32_def read_u16_def take_field_def checked_add_def u64_max_def
        kind_from_u8_def of_be_bytes_def limit_defs max_payload_def)
  from record_decode_bounded [OF d] d show ?thesis by blast
qed

text \<open>A sequence of records is read in one way only: two records that start the same input are the
  same record and end at the same place.\<close>

theorem record_framing_unambiguous:
  assumes "record_ok rc" "record_ok rc'" "encode rc = Inr b" "encode rc' = Inr b'"
    and "length (b @ rest) \<le> MAX_RECORD_PLAINTEXT" "b @ rest = b' @ rest'"
  shows "rc = rc' \<and> rest = rest'"
  using rec.enc_unique [of rc rc' rest rest'] assms by (simp add: record_bytes_def)

theorem record_framing_unambiguous_witness:
  "\<exists>b. encode (record_new MessageKind.Ping Null) = Inr b \<and>
     (\<forall>rc' b' rest'. record_ok rc' \<and> encode rc' = Inr b' \<and> b @ [7] = b' @ rest' \<longrightarrow>
        record_new MessageKind.Ping Null = rc' \<and> [7] = rest')"
proof -
  let ?rc = "record_new MessageKind.Ping Null"
  obtain b where b: "encode ?rc = Inr b" "length b = 15"
    by (simp add: encode_Inr max_payload_def limit_defs RECORD_OVERHEAD_def to_bytes_def encode_into_def
        record_new_def)
  have "record_ok ?rc"
    using b by (simp add: record_ok_def deep_ok_def record_new_def MAX_CANON_DEPTH_def)
  note uniq = record_framing_unambiguous [OF this _ b(1), of _ _ "[7]"]
  have "length (b @ [7]) \<le> MAX_RECORD_PLAINTEXT" using b by (simp add: limit_defs)
  with uniq b(1) show ?thesis by blast
qed

end
