(* ===== verification/Crypto.thy ===== *)
theory Crypto
  imports Packet_No Text
begin

text \<open>
  \<open>crates/wsnet-crypto/src/\<close>: \<open>keys.rs\<close> (directional keys from the handshake transcript), \<open>mac.rs\<close> (the
  signing input and its HMAC) and \<open>envelope.rs\<close> (the protected record).

  The primitives come from third-party crates and are parameters, the fields of \<open>crypto_crate\<close>.
  What the proofs use of them is stated in \<open>aead_laws\<close>, facts of ChaCha20-Poly1305 as its
  documentation gives them: decryption inverts encryption, it succeeds only on what encryption
  produces for that key, nonce and associated data, and a ciphertext is one tag longer than the
  message. Zeroization and constant-time comparison have no counterpart in the model.
\<close>

section \<open>The crates\<close>

record crypto_crate =
  sha256 :: "bytes \<Rightarrow> bytes"
  hmac_sha256 :: "bytes \<Rightarrow> bytes \<Rightarrow> bytes"                         \<comment> \<open>key, message\<close>
  hkdf_extract :: "bytes \<Rightarrow> bytes \<Rightarrow> bytes"                        \<comment> \<open>salt, input key material\<close>
  hkdf_expand :: "bytes \<Rightarrow> bytes \<Rightarrow> bytes"                         \<comment> \<open>PRK, info; 32 bytes out\<close>
  aead_encrypt :: "bytes \<Rightarrow> bytes \<Rightarrow> bytes \<Rightarrow> bytes \<Rightarrow> bytes option"  \<comment> \<open>key, nonce, aad, message\<close>
  aead_decrypt :: "bytes \<Rightarrow> bytes \<Rightarrow> bytes \<Rightarrow> bytes \<Rightarrow> bytes option"  \<comment> \<open>key, nonce, aad, ciphertext\<close>

definition aead_laws :: "crypto_crate \<Rightarrow> bool" where
  "aead_laws cr \<longleftrightarrow>
     (\<forall>key nonce aad msg ct. aead_encrypt cr key nonce aad msg = Some ct \<longleftrightarrow>
        aead_decrypt cr key nonce aad ct = Some msg)
   \<and> (\<forall>key nonce aad msg ct. aead_encrypt cr key nonce aad msg = Some ct \<longrightarrow>
        length ct = length msg + AEAD_TAG_LEN)"

section \<open>Keys\<close>

datatype Direction = ClientToServer | ServerToClient

primrec direction_as_u8 :: "Direction \<Rightarrow> u8" where
  "direction_as_u8 ClientToServer = 0"
| "direction_as_u8 ServerToClient = 1"

primrec peer :: "Direction \<Rightarrow> Direction" where
  "peer ClientToServer = ServerToClient"
| "peer ServerToClient = ClientToServer"

datatype KeyError = BadPskLength nat

type_synonym Psk = bytes

definition try_from_slice :: "bytes \<Rightarrow> KeyError + Psk" where
  "try_from_slice bs = (if length bs = PSK_LEN then Inr bs else Inl (BadPskLength (length bs)))"

definition MSG_C2S :: bytes where "MSG_C2S = as_bytes ''wsnet/v1/msg/c2s''"
definition MSG_S2C :: bytes where "MSG_S2C = as_bytes ''wsnet/v1/msg/s2c''"
definition BIND :: bytes where "BIND = as_bytes ''wsnet/v1/bind''"

record SessionKeys =
  sk_transcript :: bytes
  c2s :: bytes
  s2c :: bytes
  sk_bind :: bytes

definition transcript :: "crypto_crate \<Rightarrow> bytes \<Rightarrow> bytes \<Rightarrow> bytes" where
  "transcript cr auth_without_mac authok_without_mac = sha256 cr (auth_without_mac @ authok_without_mac)"

definition expand :: "crypto_crate \<Rightarrow> bytes \<Rightarrow> bytes \<Rightarrow> bytes \<Rightarrow> bytes" where
  "expand cr prk label tr = hkdf_expand cr prk (label @ tr)"

definition derive :: "crypto_crate \<Rightarrow> Psk \<Rightarrow> bytes \<Rightarrow> bytes \<Rightarrow> SessionKeys" where
  "derive cr psk auth_without_mac authok_without_mac =
     (let tr = transcript cr auth_without_mac authok_without_mac;
          prk = hkdf_extract cr tr psk
      in \<lparr>sk_transcript = tr, c2s = expand cr prk MSG_C2S tr, s2c = expand cr prk MSG_S2C tr,
          sk_bind = expand cr prk BIND tr\<rparr>)"

definition message_key :: "SessionKeys \<Rightarrow> Direction \<Rightarrow> bytes" where
  "message_key ks dir = (case dir of ClientToServer \<Rightarrow> c2s ks | ServerToClient \<Rightarrow> s2c ks)"

section \<open>Signing input\<close>

definition MAC_LEN :: nat where "MAC_LEN = 32"

type_synonym SignedFields = bytes

definition push_bytes :: "bytes \<Rightarrow> SignedFields \<Rightarrow> SignedFields" where
  "push_bytes fld buf = buf @ be_bytes 4 (length fld) @ fld"

definition push_str :: "string \<Rightarrow> SignedFields \<Rightarrow> SignedFields" where
  "push_str fld buf = push_bytes (as_bytes fld) buf"

definition push_u64 :: "nat \<Rightarrow> SignedFields \<Rightarrow> SignedFields" where
  "push_u64 v buf = buf @ be_bytes 8 v"

definition push_u32 :: "nat \<Rightarrow> SignedFields \<Rightarrow> SignedFields" where
  "push_u32 v buf = buf @ be_bytes 4 v"

definition push_u16 :: "nat \<Rightarrow> SignedFields \<Rightarrow> SignedFields" where
  "push_u16 v buf = buf @ be_bytes 2 v"

definition push_u8 :: "u8 \<Rightarrow> SignedFields \<Rightarrow> SignedFields" where
  "push_u8 v buf = buf @ [v]"

definition mac :: "crypto_crate \<Rightarrow> bytes \<Rightarrow> bytes \<Rightarrow> bytes" where
  "mac cr key msg = hmac_sha256 cr key msg"

definition psk_mac :: "crypto_crate \<Rightarrow> Psk \<Rightarrow> SignedFields \<Rightarrow> bytes" where
  "psk_mac cr psk flds = mac cr psk flds"

definition bind_mac :: "crypto_crate \<Rightarrow> bytes \<Rightarrow> SignedFields \<Rightarrow> bytes" where
  "bind_mac cr bind_key flds = mac cr bind_key flds"

definition verify :: "bytes \<Rightarrow> bytes \<Rightarrow> bool" where
  "verify candidate expected = (if length candidate \<noteq> MAC_LEN then False else candidate = expected)"

definition verify_psk_mac :: "crypto_crate \<Rightarrow> Psk \<Rightarrow> SignedFields \<Rightarrow> bytes \<Rightarrow> bool" where
  "verify_psk_mac cr psk flds tag = verify tag (psk_mac cr psk flds)"

definition verify_bind_mac :: "crypto_crate \<Rightarrow> bytes \<Rightarrow> SignedFields \<Rightarrow> bytes \<Rightarrow> bool" where
  "verify_bind_mac cr bind_key flds tag = verify tag (bind_mac cr bind_key flds)"

section \<open>Envelope\<close>

datatype EnvelopeError = TooShort nat nat | UnsupportedVersion u8 | EpochMismatch | AuthFailed

record EnvelopeContext =
  ctx_hub_id :: string
  ctx_session_id :: bytes
  ctx_session_epoch :: bytes

record OpenedEnvelope =
  packet_no :: nat
  plaintext :: bytes

text \<open>The \<open>u16\<close> length prefix truncates (the \<open>debug_assert\<close> is absent from a release build).\<close>

definition push_len_prefixed :: "bytes \<Rightarrow> bytes \<Rightarrow> bytes" where
  "push_len_prefixed out fld = out @ be_bytes 2 (length fld mod 65536) @ fld"

definition build_aad :: "EnvelopeContext \<Rightarrow> Direction \<Rightarrow> bytes" where
  "build_aad ctx dir =
     (let aad = AAD_CONTEXT;
          aad = push_len_prefixed aad [PROTOCOL_VERSION];
          aad = push_len_prefixed aad (as_bytes (ctx_hub_id ctx));
          aad = push_len_prefixed aad (ctx_session_id ctx);
          aad = push_len_prefixed aad (ctx_session_epoch ctx);
          aad = push_len_prefixed aad [direction_as_u8 dir]
      in aad)"

definition build_nonce :: "nat \<Rightarrow> bytes" where
  "build_nonce pn = replicate 4 0 @ be_bytes 8 pn"

definition seal :: "crypto_crate \<Rightarrow> bytes \<Rightarrow> EnvelopeContext \<Rightarrow> Direction \<Rightarrow> nat \<Rightarrow> bytes \<Rightarrow> EnvelopeError + bytes" where
  "seal cr key ctx dir pn msg =
     rbind (ok_or AuthFailed (aead_encrypt cr key (build_nonce pn) (build_aad ctx dir) msg)) (\<lambda>ciphertext.
       Inr ([PROTOCOL_VERSION] @ ctx_session_epoch ctx @ be_bytes 8 pn @ ciphertext))"

definition open_envelope ::
    "crypto_crate \<Rightarrow> bytes \<Rightarrow> EnvelopeContext \<Rightarrow> Direction \<Rightarrow> bytes \<Rightarrow> EnvelopeError + OpenedEnvelope" where
  "open_envelope cr key ctx dir env =
     (let minimum = ENVELOPE_HEADER_LEN + AEAD_TAG_LEN in
      if length env < minimum then Inl (TooShort (length env) minimum)
      else let version = env ! 0 in
      if version \<noteq> PROTOCOL_VERSION then Inl (UnsupportedVersion version)
      else if take SESSION_EPOCH_LEN (drop 1 env) \<noteq> ctx_session_epoch ctx then Inl EpochMismatch
      else let pn = of_be_bytes (take 8 (drop (1 + SESSION_EPOCH_LEN) env)) in
      rbind (ok_or AuthFailed (aead_decrypt cr key (build_nonce pn) (build_aad ctx dir)
          (drop ENVELOPE_HEADER_LEN env))) (\<lambda>msg.
        Inr \<lparr>packet_no = pn, plaintext = msg\<rparr>))"

section \<open>Length-prefixed fields\<close>

text \<open>A field with an \<open>n\<close>-byte length prefix, read back.\<close>

definition len_prefixed :: "nat \<Rightarrow> bytes \<Rightarrow> bytes" where
  "len_prefixed n fld = be_bytes n (length fld) @ fld"

definition read_len_prefixed :: "nat \<Rightarrow> bytes \<Rightarrow> (bytes \<times> bytes) option" where
  "read_len_prefixed n bs =
     (let len = of_be_bytes (take n bs); r = drop n bs in Some (take len r, drop len r))"

lemma read_len_prefixed_write:
  "length fld < 256 ^ n \<Longrightarrow> read_len_prefixed n (len_prefixed n fld @ r) = Some (fld, r)"
  by (simp add: read_len_prefixed_def len_prefixed_def Let_def of_be_bytes_be_bytes)

lemma len_prefixed_nonempty: "0 < n \<Longrightarrow> len_prefixed n fld \<noteq> []"
proof -
  assume "0 < n"
  then have "0 < length (len_prefixed n fld)" by (simp add: len_prefixed_def)
  then show ?thesis by (cases "len_prefixed n fld") simp_all
qed

interpretation lp4: prefix_codec "len_prefixed 4" "read_len_prefixed 4" "\<lambda>f. length f \<le> u32_max" "\<lambda>b. True"
  by unfold_locales (simp_all add: read_len_prefixed_write u32_max_def len_prefixed_nonempty)

lemma push_bytes_len_prefixed: "push_bytes fld buf = buf @ len_prefixed 4 fld"
  by (simp add: push_bytes_def len_prefixed_def)

text \<open>Reading a signing input from the front, whatever follows.\<close>

lemma push_bytes_split:
  assumes "length f \<le> u32_max" "length g \<le> u32_max"
    and "len_prefixed 4 f @ r = len_prefixed 4 g @ s"
  shows "f = g \<and> r = s"
  using lp4.enc_unique [OF assms(1,2) _ assms(3)] by simp

section \<open>Contexts\<close>

text \<open>What the array types give of a context.\<close>

definition ctx_ok :: "EnvelopeContext \<Rightarrow> bool" where
  "ctx_ok ctx \<longleftrightarrow> length (ctx_session_id ctx) = 16 \<and> length (ctx_session_epoch ctx) = SESSION_EPOCH_LEN"

lemma direction_as_u8_inj: "direction_as_u8 d = direction_as_u8 d' \<longleftrightarrow> d = d'"
  by (cases d; cases d') simp_all

lemma length_build_nonce: "length (build_nonce pn) = NONCE_LEN"
  by (simp add: build_nonce_def NONCE_LEN_def)

lemma build_nonce_inj: "pn \<le> u64_max \<Longrightarrow> pn' \<le> u64_max \<Longrightarrow> build_nonce pn = build_nonce pn' \<Longrightarrow> pn = pn'"
  by (auto simp: build_nonce_def u64_max_def dest!: be_bytes_inj)

section \<open>Sealing and opening\<close>

lemma seal_Inr:
  "seal cr key ctx dir pn msg = Inr env \<longleftrightarrow>
     (\<exists>ct. aead_encrypt cr key (build_nonce pn) (build_aad ctx dir) msg = Some ct
       \<and> env = [PROTOCOL_VERSION] @ ctx_session_epoch ctx @ be_bytes 8 pn @ ct)"
  by (auto simp: seal_def result_simps)

lemma open_seal:
  assumes laws: "aead_laws cr" and ctx: "length (ctx_session_epoch ctx) = SESSION_EPOCH_LEN" and pn: "pn \<le> u64_max"
    and sl: "seal cr key ctx dir pn msg = Inr env"
  shows "open_envelope cr key ctx dir env = Inr \<lparr>packet_no = pn, plaintext = msg\<rparr>"
proof -
  from sl obtain ct where ct: "aead_encrypt cr key (build_nonce pn) (build_aad ctx dir) msg = Some ct"
    and env: "env = [PROTOCOL_VERSION] @ ctx_session_epoch ctx @ be_bytes 8 pn @ ct"
    by (auto simp: seal_Inr)
  from laws ct have dc: "aead_decrypt cr key (build_nonce pn) (build_aad ctx dir) ct = Some msg"
    and len: "length ct = length msg + AEAD_TAG_LEN"
    by (auto simp: aead_laws_def)
  show ?thesis
    using ctx dc len pn
    by (simp add: open_envelope_def env Let_def limit_defs of_be_bytes_u64)
qed

lemma open_Inr:
  assumes laws: "aead_laws cr" and ok: "open_envelope cr key ctx dir env = Inr oe"
  shows "seal cr key ctx dir (packet_no oe) (plaintext oe) = Inr env" "packet_no oe \<le> u64_max"
proof -
  from ok have len: "41 \<le> length env" and ver: "env ! 0 = PROTOCOL_VERSION"
    and ep: "take 16 (drop 1 env) = ctx_session_epoch ctx"
    and pn: "packet_no oe = of_be_bytes (take 8 (drop 17 env))"
    and dc: "aead_decrypt cr key (build_nonce (packet_no oe)) (build_aad ctx dir) (drop 25 env) = Some (plaintext oe)"
    by (auto simp: open_envelope_def Let_def result_simps limit_defs split: if_splits)
  have l8: "length (take 8 (drop 17 env)) = 8" using len by simp
  have pb: "be_bytes 8 (packet_no oe) = take 8 (drop 17 env)"
    using be_bytes_of_be_bytes [of "take 8 (drop 17 env)"] unfolding l8 pn .
  have e1: "env = [PROTOCOL_VERSION] @ drop 1 env" using len ver by (cases env) simp_all
  have "drop 1 env = take 16 (drop 1 env) @ take 8 (drop 17 env) @ drop 25 env"
    using append_take_drop_id [of 16 "drop 1 env"] append_take_drop_id [of 8 "drop 17 env"] by simp
  with e1 ep pb have "env = [PROTOCOL_VERSION] @ ctx_session_epoch ctx @ be_bytes 8 (packet_no oe) @ drop 25 env"
    by simp
  with dc laws show "seal cr key ctx dir (packet_no oe) (plaintext oe) = Inr env"
    by (auto simp: seal_Inr aead_laws_def)
  have "of_be_bytes (take 8 (drop 17 env)) < 256 ^ 8"
    using of_be_bytes_bound [of "take 8 (drop 17 env)"] unfolding l8 .
  then show "packet_no oe \<le> u64_max" by (simp add: pn u64_max_def)
qed

text \<open>A concrete set of primitives with these laws, for the witnesses: the tag is zero bytes and
  decryption checks it.\<close>

definition null_crate :: crypto_crate where
  "null_crate = \<lparr>sha256 = id, hmac_sha256 = (\<lambda>k m. take 32 (m @ replicate 32 0)),
     hkdf_extract = (\<lambda>s k. k), hkdf_expand = (\<lambda>p i. take 32 (i @ replicate 32 0)),
     aead_encrypt = (\<lambda>k n a m. Some (m @ replicate 16 0)),
     aead_decrypt = (\<lambda>k n a c. if length c \<ge> 16 \<and> drop (length c - 16) c = replicate 16 0
                                then Some (take (length c - 16) c) else None)\<rparr>"

lemma null_crate_laws: "aead_laws null_crate"
proof -
  have "m @ replicate 16 0 = ct \<longleftrightarrow>
      length ct \<ge> 16 \<and> drop (length ct - 16) ct = replicate 16 0 \<and> take (length ct - 16) ct = m"
    for m ct :: bytes
  proof
    assume "length ct \<ge> 16 \<and> drop (length ct - 16) ct = replicate 16 0 \<and> take (length ct - 16) ct = m"
    then show "m @ replicate 16 0 = ct" using append_take_drop_id [of "length ct - 16" ct] by simp
  qed auto
  then show ?thesis by (auto simp: aead_laws_def null_crate_def limit_defs)
qed

section \<open>Properties\<close>

text \<open>Opening a sealed record gives back the record and its packet number, for every key, context,
  direction and packet number.\<close>

theorem envelope_open_seal:
  assumes "aead_laws cr" "ctx_ok ctx" "pn \<le> u64_max" "seal cr key ctx dir pn msg = Inr env"
  shows "open_envelope cr key ctx dir env = Inr \<lparr>packet_no = pn, plaintext = msg\<rparr>"
  using assms by (intro open_seal) (auto simp: ctx_ok_def)

theorem envelope_open_seal_witness:
  "let ctx = \<lparr>ctx_hub_id = ''hub'', ctx_session_id = replicate 16 1, ctx_session_epoch = replicate 16 2\<rparr> in
   \<exists>env. seal null_crate (replicate 32 3) ctx ServerToClient 77 [5, 6] = Inr env
     \<and> open_envelope null_crate (replicate 32 3) ctx ServerToClient env = Inr \<lparr>packet_no = 77, plaintext = [5, 6]\<rparr>"
proof -
  let ?ctx = "\<lparr>ctx_hub_id = ''hub'', ctx_session_id = replicate 16 1, ctx_session_epoch = replicate 16 2\<rparr>"
  have ctx: "ctx_ok ?ctx" by (simp add: ctx_ok_def limit_defs)
  obtain env where "seal null_crate (replicate 32 3) ?ctx ServerToClient 77 [5, 6] = Inr env"
    by (simp add: seal_def null_crate_def)
  with envelope_open_seal [OF null_crate_laws ctx _ this] show ?thesis
    by (auto simp: Let_def u64_max_def)
qed

text \<open>C26: The only envelopes that open under a key, context and direction are those that sealing under
  the same key, context and direction produces, for the packet number and plaintext that are returned:
  no header byte can be changed, and nothing is accepted under a wrong version or epoch.\<close>

theorem envelope_open_only_sealed:
  assumes "aead_laws cr" "open_envelope cr key ctx dir env = Inr oe"
  shows "seal cr key ctx dir (packet_no oe) (plaintext oe) = Inr env \<and> packet_no oe \<le> u64_max"
  using open_Inr [OF assms] by simp

theorem envelope_open_only_sealed_witness:
  "let ctx = \<lparr>ctx_hub_id = ''hub'', ctx_session_id = replicate 16 1, ctx_session_epoch = replicate 16 2\<rparr>;
       env = [1] @ replicate 16 2 @ be_bytes 8 9 @ [4] @ replicate 16 0 in
   open_envelope null_crate [] ctx ClientToServer env = Inr \<lparr>packet_no = 9, plaintext = [4]\<rparr>
   \<and> seal null_crate [] ctx ClientToServer 9 [4] = Inr env"
proof -
  let ?ctx = "\<lparr>ctx_hub_id = ''hub'', ctx_session_id = replicate 16 1, ctx_session_epoch = replicate 16 2\<rparr>"
  let ?env = "[1] @ replicate 16 2 @ be_bytes 8 9 @ [4] @ replicate 16 0"
  have o: "open_envelope null_crate [] ?ctx ClientToServer ?env = Inr \<lparr>packet_no = 9, plaintext = [4]\<rparr>"
    by (simp add: open_envelope_def null_crate_def Let_def limit_defs of_be_bytes_be_bytes)
  from envelope_open_only_sealed [OF null_crate_laws this] o show ?thesis by (simp add: Let_def)
qed

text \<open>The associated data identifies hub, session, epoch and direction: two different
  combinations never share it (even though the length prefix of an over-long hub name is truncated,
  because every other field has a fixed length), so a record cannot be authenticated in another
  session or reflected to its sender.\<close>

theorem aad_identifies_context:
  assumes "ctx_ok ctx" "ctx_ok ctx'" "build_aad ctx dir = build_aad ctx' dir'"
  shows "ctx = ctx' \<and> dir = dir'"
proof -
  have len: "length (build_aad ctx dir) = length (build_aad ctx' dir')" using assms(3) by simp
  then have "length (ctx_hub_id ctx) = length (ctx_hub_id ctx')"
    using assms(1,2) by (simp add: build_aad_def push_len_prefixed_def ctx_ok_def Let_def)
  with assms show ?thesis
    by (simp add: build_aad_def push_len_prefixed_def ctx_ok_def Let_def direction_as_u8_inj)
qed

theorem aad_identifies_context_witness:
  "let ctx = \<lparr>ctx_hub_id = ''hub'', ctx_session_id = replicate 16 1, ctx_session_epoch = replicate 16 2\<rparr> in
   build_aad ctx ClientToServer \<noteq> build_aad ctx ServerToClient"
proof -
  let ?ctx = "\<lparr>ctx_hub_id = ''hub'', ctx_session_id = replicate 16 1, ctx_session_epoch = replicate 16 2\<rparr>"
  have "ctx_ok ?ctx" by (simp add: ctx_ok_def limit_defs)
  from aad_identifies_context [OF this this, of ClientToServer ServerToClient] show ?thesis
    by (auto simp: Let_def)
qed

end
