(* ===== verification/Destination.thy ===== *)
theory Destination
  imports Canon Net
begin

text \<open>
  \<open>crates/wsnet-routing/src/dest.rs\<close>: the protocol selector, slugs, and the union of \<open>Open\<close> targets
  with its validation and its canonical form. Ports (\<open>u16\<close>) and revisions (\<open>u64\<close>) are \<open>nat\<close>;
  \<open>dest_typed\<close> states the ranges the Rust types guarantee.
\<close>

section \<open>Protocols and slugs\<close>

datatype Proto = Tcp | Udp

primrec proto_as_str :: "Proto \<Rightarrow> string" where
  "proto_as_str Tcp = ''tcp''"
| "proto_as_str Udp = ''udp''"

definition MAX_SLUG_LEN :: nat where "MAX_SLUG_LEN = 64"

definition is_ascii_alphanumeric :: "u8 \<Rightarrow> bool" where
  "is_ascii_alphanumeric b \<longleftrightarrow>
     48 \<le> unat b \<and> unat b \<le> 57 \<or> 65 \<le> unat b \<and> unat b \<le> 90 \<or> 97 \<le> unat b \<and> unat b \<le> 122"

definition slug_byte :: "u8 \<Rightarrow> bool" where
  "slug_byte b \<longleftrightarrow> is_ascii_alphanumeric b \<or> b \<in> {ch CHR ''.'', ch CHR ''_'', ch CHR ''-''}"

definition is_slug :: "string \<Rightarrow> bool" where
  "is_slug value =
     (let bytes = as_bytes value in
      if bytes = [] \<or> length bytes > MAX_SLUG_LEN then False
      else if \<not> is_ascii_alphanumeric (hd bytes) then False
      else list_all slug_byte bytes)"

section \<open>Destinations\<close>

datatype DestinationError = NotASlug string | ZeroPort | EmptyHost

datatype Destination =
    Address (dhost: string) (dport: nat)
  | Service (dnode: string) (dname: string) (drevision: "nat option")
  | NodeAddress (dnode: string) (dhost: string) (dport: nat)

datatype DestinationKind = AddressKind | ServiceKind | NodeAddressKind

definition mk_address :: "string \<Rightarrow> nat \<Rightarrow> Destination" where
  "mk_address host port = Address host port"

definition mk_service :: "string \<Rightarrow> string \<Rightarrow> Destination" where
  "mk_service node name = Service node name None"

definition mk_node_address :: "string \<Rightarrow> string \<Rightarrow> nat \<Rightarrow> Destination" where
  "mk_node_address node host port = NodeAddress node host port"

primrec dest_kind :: "Destination \<Rightarrow> DestinationKind" where
  "dest_kind (Address _ _) = AddressKind"
| "dest_kind (Service _ _ _) = ServiceKind"
| "dest_kind (NodeAddress _ _ _) = NodeAddressKind"

primrec named_node :: "Destination \<Rightarrow> string option" where
  "named_node (Address _ _) = None"
| "named_node (Service node _ _) = Some node"
| "named_node (NodeAddress node _ _) = Some node"

primrec host_port :: "Destination \<Rightarrow> (string \<times> nat) option" where
  "host_port (Address host port) = Some (host, port)"
| "host_port (Service _ _ _) = None"
| "host_port (NodeAddress _ host port) = Some (host, port)"

primrec dest_validate :: "Destination \<Rightarrow> DestinationError + unit" where
  "dest_validate (Address host port) =
     (if host = [] then Inl EmptyHost else if port = 0 then Inl ZeroPort else Inr ())"
| "dest_validate (Service node name _) =
     (if \<not> is_slug node then Inl (NotASlug node)
      else if \<not> is_slug name then Inl (NotASlug name)
      else Inr ())"
| "dest_validate (NodeAddress node host port) =
     (if \<not> is_slug node then Inl (NotASlug node)
      else if host = [] then Inl EmptyHost
      else if port = 0 then Inl ZeroPort
      else Inr ())"

primrec dest_to_canonical :: "Destination \<Rightarrow> Canonical" where
  "dest_to_canonical (Address host port) =
     object [(''host'', Str host), (''port'', Integer (int port)), (''type'', Str ''address'')]"
| "dest_to_canonical (Service node name revision) =
     object ([(''name'', Str name), (''node'', Str node), (''type'', Str ''service'')]
       @ (case revision of None \<Rightarrow> [] | Some r \<Rightarrow> [(''revision'', u64_decimal r)]))"
| "dest_to_canonical (NodeAddress node host port) =
     object [(''host'', Str host), (''node'', Str node), (''port'', Integer (int port)),
       (''type'', Str ''node_address'')]"

text \<open>\<open>u16::try_from(value.get_i64("port").unwrap_or(0)).unwrap_or(0)\<close>\<close>

definition read_port :: "Canonical \<Rightarrow> nat" where
  "read_port v =
     (let i = (case get_i64 v ''port'' of Inr i \<Rightarrow> i | Inl _ \<Rightarrow> 0) in
      if 0 \<le> i \<and> i \<le> 65535 then nat i else 0)"

text \<open>The \<open>match\<close> of \<open>from_canonical\<close>, before \<open>validate\<close> runs.\<close>

definition dest_parse :: "Canonical \<Rightarrow> DestinationError + Destination" where
  "dest_parse value =
     rbind (map_err (\<lambda>_. EmptyHost) (get_str value ''type'')) (\<lambda>kind.
       if kind = ''address'' then
         rbind (map_err (\<lambda>_. EmptyHost) (get_str value ''host'')) (\<lambda>host.
         Inr (Address host (read_port value)))
       else if kind = ''service'' then
         rbind (map_err (\<lambda>_. NotASlug []) (get_str value ''node'')) (\<lambda>node.
         rbind (map_err (\<lambda>_. NotASlug []) (get_str value ''name'')) (\<lambda>name.
         Inr (Service node name (ok_opt (get_u64 value ''revision'')))))
       else if kind = ''node_address'' then
         rbind (map_err (\<lambda>_. NotASlug []) (get_str value ''node'')) (\<lambda>node.
         rbind (map_err (\<lambda>_. EmptyHost) (get_str value ''host'')) (\<lambda>host.
         Inr (NodeAddress node host (read_port value))))
       else Inl EmptyHost)"

definition dest_from_canonical :: "Canonical \<Rightarrow> DestinationError + Destination" where
  "dest_from_canonical value =
     rbind (dest_parse value) (\<lambda>destination.
     rbind (dest_validate destination) (\<lambda>_. Inr destination))"

definition canonical_bytes :: "Destination \<Rightarrow> bytes" where
  "canonical_bytes d = to_bytes (dest_to_canonical d)"

section \<open>What the types guarantee\<close>

primrec dest_typed :: "Destination \<Rightarrow> bool" where
  "dest_typed (Address host port) \<longleftrightarrow> is_str host \<and> port \<le> u16_max"
| "dest_typed (Service node name revision) \<longleftrightarrow>
     is_str node \<and> is_str name \<and> (\<forall>r. revision = Some r \<longrightarrow> r \<le> u64_max)"
| "dest_typed (NodeAddress node host port) \<longleftrightarrow>
     is_str node \<and> is_str host \<and> port \<le> u16_max"

lemma slug_ascii: "is_slug s \<Longrightarrow> ascii s"
proof -
  have "slug_byte b \<Longrightarrow> unat b < 0x80" for b
    by (auto simp: slug_byte_def is_ascii_alphanumeric_def)
  then show "is_slug s \<Longrightarrow> ascii s"
    by (fastforce simp: is_slug_def ascii_def list_all_iff as_bytes_def Let_def split: if_splits)
qed

lemma slug_bounds: "is_slug s \<Longrightarrow> s \<noteq> [] \<and> length s \<le> MAX_SLUG_LEN"
  by (auto simp: is_slug_def Let_def split: if_splits)

lemma port_i64: "port \<le> u16_max \<Longrightarrow> i64_range (int port)"
  by (simp add: i64_range_def int_range_defs)

lemma dest_parse_to_canonical: "dest_typed d \<Longrightarrow> dest_parse (dest_to_canonical d) = Inr d"
  by (cases d; cases "drevision d") (simp_all add: dest_parse_def field_readers read_port_def u16_max_def)

lemma dest_from_to_canonical:
  "dest_typed d \<Longrightarrow> dest_validate d = Inr () \<Longrightarrow> dest_from_canonical (dest_to_canonical d) = Inr d"
  by (simp add: dest_from_canonical_def dest_parse_to_canonical)

lemma dest_to_canonical_ok: "dest_typed d \<Longrightarrow> d' < MAX_CANON_DEPTH \<Longrightarrow> deep_ok d' (dest_to_canonical d)"
  by (cases d; cases "drevision d")
    (auto intro!: deep_ok_object simp: port_i64 MAX_CANON_DEPTH_def)

lemma dest_to_canonical_inj:
  "dest_to_canonical d = dest_to_canonical e \<Longrightarrow> dest_typed d \<Longrightarrow> dest_typed e \<Longrightarrow> d = e"
  by (metis dest_parse_to_canonical sum.inject(2))

section \<open>Properties\<close>

text \<open>A valid destination survives its canonical form: what the node writes into the metadata of an
  \<open>Open\<close> is what the Hub reads back, for every kind of destination, pinned or unpinned.\<close>

theorem destination_roundtrip:
  assumes "dest_validate d = Inr ()" "dest_typed d" "length (canonical_bytes d) \<le> MAX_METADATA"
  shows "rbind (map_err (\<lambda>_. EmptyHost) (from_bytes (canonical_bytes d))) dest_from_canonical = Inr d"
proof -
  have "from_bytes (canonical_bytes d) = Inr (dest_to_canonical d)"
    unfolding canonical_bytes_def from_bytes_def
    using assms by (intro from_bytes_bounded_write dest_to_canonical_ok) (simp_all add: canonical_bytes_def MAX_CANON_DEPTH_def)
  with assms show ?thesis by (simp add: dest_from_to_canonical)
qed

theorem destination_roundtrip_witness:
  "let d = Service ''a'' ''b'' (Some 7) in
   rbind (map_err (\<lambda>_. EmptyHost) (from_bytes (canonical_bytes d))) dest_from_canonical = Inr d"
  unfolding Let_def
proof (rule destination_roundtrip)
  show "dest_validate (Service ''a'' ''b'' (Some 7)) = Inr ()"
    by (simp add: is_slug_def MAX_SLUG_LEN_def is_ascii_alphanumeric_def slug_byte_def)
  show "dest_typed (Service ''a'' ''b'' (Some 7))"
    by (simp add: u64_max_def)
  show "length (canonical_bytes (Service ''a'' ''b'' (Some 7))) \<le> MAX_METADATA"
    by (simp add: canonical_bytes_def to_bytes_def object_def bt_of_list_def write_json_string_def
        chars_ascii write_char_def encode_ascii u64_decimal_def dec.simps digit_char_def limit_defs)
qed

text \<open>The bytes that feed the operation hash identify the destination: two destinations with the
  same canonical bytes are the same destination, so a pinned revision, a different kind, host or port
  always changes the bytes.\<close>

theorem destination_bytes_identify:
  assumes "dest_typed d" "dest_typed e"
  shows "canonical_bytes d = canonical_bytes e \<longleftrightarrow> d = e"
  unfolding canonical_bytes_def
  using assms to_bytes_inj [OF dest_to_canonical_ok dest_to_canonical_ok, of d e]
    dest_to_canonical_inj [OF _ assms] by (auto simp: MAX_CANON_DEPTH_def)

theorem destination_bytes_identify_witness:
  "canonical_bytes (Service ''a'' ''b'' None) \<noteq> canonical_bytes (Service ''a'' ''b'' (Some 7))"
proof -
  have "dest_typed (Service ''a'' ''b'' None)" "dest_typed (Service ''a'' ''b'' (Some 7))"
    by (simp_all add: u64_max_def)
  from destination_bytes_identify [OF this] show ?thesis by simp
qed

end
