(* ===== verification/Acl.thy ===== *)
theory Acl
  imports Destination
begin

text \<open>
  \<open>crates/wsnet-routing/src/acl.rs\<close>: the default-deny, first-match-wins access list and the relay
  switch. \<open>IpNet\<close> is the parameter \<open>ipnet_crate\<close>; the theorems hold for every parser and every
  containment test, so no law of the crate is assumed.
\<close>

section \<open>Rules, queries, tables\<close>

datatype AclAction = ConnectService | ConnectNodeAddress | ConnectAddress | Relay

datatype AclError = InvalidCidr string | TooBroad AclAction

record AclRule =
  rule_caller :: string
  rule_action :: AclAction
  rule_allow :: bool
  rule_node :: "string option"
  rule_service :: "string option"
  rule_host_cidr :: "string option"
  rule_ports :: "nat list option"
  rule_proto :: "Proto option"

record AclQuery =
  query_caller :: string
  query_action :: AclAction
  query_node :: "string option"
  query_service :: "string option"
  query_ip :: "IpAddr option"
  query_port :: "nat option"
  query_proto :: Proto

datatype AclDecision = Allowed | Denied

primrec is_allowed :: "AclDecision \<Rightarrow> bool" where
  "is_allowed Allowed = True"
| "is_allowed Denied = False"

record 'net CompiledRule =
  compiled_rule :: AclRule
  compiled_net :: "'net option"

record 'net AclTable =
  acl_rules :: "'net CompiledRule list"

definition compile_rule :: "'net ipnet_crate \<Rightarrow> AclRule \<Rightarrow> AclError + 'net CompiledRule" where
  "compile_rule c rule =
     rbind (case rule_host_cidr rule of
              Some text \<Rightarrow> rbind (ok_or (InvalidCidr text) (parse_net c text)) (\<lambda>net. Inr (Some net))
            | None \<Rightarrow> Inr None)
       (\<lambda>net. Inr \<lparr>compiled_rule = rule, compiled_net = net\<rparr>)"

definition AclTable_new :: "'net ipnet_crate \<Rightarrow> AclRule list \<Rightarrow> AclError + 'net AclTable" where
  "AclTable_new c rules = rbind (collect_r (compile_rule c) rules) (\<lambda>compiled. Inr \<lparr>acl_rules = compiled\<rparr>)"

definition deny_all :: "'net AclTable" where
  "deny_all = \<lparr>acl_rules = []\<rparr>"

definition acl_len :: "'net AclTable \<Rightarrow> nat" where
  "acl_len t = length (acl_rules t)"

definition acl_is_empty :: "'net AclTable \<Rightarrow> bool" where
  "acl_is_empty t \<longleftrightarrow> acl_rules t = []"

definition acl_matches :: "'net ipnet_crate \<Rightarrow> 'net CompiledRule \<Rightarrow> AclQuery \<Rightarrow> bool" where
  "acl_matches c compiled query =
     (let rule = compiled_rule compiled in
      if rule_caller rule \<noteq> query_caller query \<or> rule_action rule \<noteq> query_action query then False
      else if (case rule_node rule of Some node \<Rightarrow> query_node query \<noteq> Some node | None \<Rightarrow> False) then False
      else if (case rule_service rule of Some service \<Rightarrow> query_service query \<noteq> Some service | None \<Rightarrow> False)
        then False
      else if (case rule_ports rule of
                 Some ports \<Rightarrow> (case query_port query of Some port \<Rightarrow> port \<notin> set ports | None \<Rightarrow> True)
               | None \<Rightarrow> False) then False
      else if (case rule_proto rule of Some proto \<Rightarrow> proto \<noteq> query_proto query | None \<Rightarrow> False) then False
      else if (case compiled_net compiled of
                 Some net \<Rightarrow> (case query_ip query of Some ip \<Rightarrow> \<not> net_contains c net ip | None \<Rightarrow> True)
               | None \<Rightarrow> False) then False
      else True)"

fun acl_loop :: "'net ipnet_crate \<Rightarrow> 'net CompiledRule list \<Rightarrow> AclQuery \<Rightarrow> AclDecision" where
  "acl_loop c [] query = Denied"
| "acl_loop c (compiled # rest) query =
     (if acl_matches c compiled query
      then (if rule_allow (compiled_rule compiled) then Allowed else Denied)
      else acl_loop c rest query)"

definition acl_check :: "'net ipnet_crate \<Rightarrow> 'net AclTable \<Rightarrow> AclQuery \<Rightarrow> AclDecision" where
  "acl_check c t query = acl_loop c (acl_rules t) query"

section \<open>The relay switch\<close>

record RelayAllow =
  relay_allowed :: "string list"

definition RelayAllow_new :: "string list \<Rightarrow> RelayAllow" where
  "RelayAllow_new allowed = \<lparr>relay_allowed = allowed\<rparr>"

definition relay_is_allowed :: "RelayAllow \<Rightarrow> string \<Rightarrow> bool" where
  "relay_is_allowed r node \<longleftrightarrow> list_ex (\<lambda>candidate. candidate = node) (relay_allowed r)"

definition relay_is_enabled :: "RelayAllow \<Rightarrow> bool" where
  "relay_is_enabled r \<longleftrightarrow> relay_allowed r \<noteq> []"

section \<open>Specification\<close>

text \<open>
  What a configured rule says, read as a list of independent constraints: every constraint that is
  present holds of the query. No compilation and no order of tests.
\<close>

definition rule_covers :: "'net ipnet_crate \<Rightarrow> AclRule \<Rightarrow> AclQuery \<Rightarrow> bool" where
  "rule_covers c r q \<longleftrightarrow>
     rule_caller r = query_caller q \<and> rule_action r = query_action q
     \<and> (rule_node r = None \<or> rule_node r = query_node q)
     \<and> (rule_service r = None \<or> rule_service r = query_service q)
     \<and> (rule_ports r = None \<or> (\<exists>p. query_port q = Some p \<and> p \<in> set (the (rule_ports r))))
     \<and> (rule_proto r = None \<or> rule_proto r = Some (query_proto q))
     \<and> (rule_host_cidr r = None
         \<or> (\<exists>net ip. parse_net c (the (rule_host_cidr r)) = Some net \<and> query_ip q = Some ip
               \<and> net_contains c net ip))"

interpretation acl: first_match "acl_loop c" "acl_matches c"
  "\<lambda>r. if rule_allow (compiled_rule r) then Allowed else Denied" Denied for c
  by unfold_locales simp_all

lemma compile_rule_net:
  "compile_rule c r = Inr k \<longleftrightarrow> compiled_rule k = r \<and>
     (case rule_host_cidr r of None \<Rightarrow> compiled_net k = None
      | Some text \<Rightarrow> compiled_net k = parse_net c text \<and> parse_net c text \<noteq> None)"
  by (cases k; cases "rule_host_cidr r") (auto simp: compile_rule_def result_simps)

lemma compile_rule_covers:
  assumes "compile_rule c r = Inr k"
  shows "compiled_rule k = r \<and> acl_matches c k q = rule_covers c r q"
proof -
  have opt: "(case x of Some y \<Rightarrow> z \<noteq> Some y | None \<Rightarrow> False) \<longleftrightarrow> \<not> (x = None \<or> x = z)"
    for x :: "string option" and z by (cases x) auto
  have ports: "(case rule_ports r of Some ports \<Rightarrow> (case query_port q of Some port \<Rightarrow> port \<notin> set ports | None \<Rightarrow> True)
      | None \<Rightarrow> False) \<longleftrightarrow> \<not> (rule_ports r = None \<or> (\<exists>p. query_port q = Some p \<and> p \<in> set (the (rule_ports r))))"
    by (cases "rule_ports r"; cases "query_port q") auto
  have proto: "(case rule_proto r of Some proto \<Rightarrow> proto \<noteq> query_proto q | None \<Rightarrow> False)
      \<longleftrightarrow> \<not> (rule_proto r = None \<or> rule_proto r = Some (query_proto q))"
    by (cases "rule_proto r") auto
  have net: "(case compiled_net k of Some net \<Rightarrow> (case query_ip q of Some ip \<Rightarrow> \<not> net_contains c net ip | None \<Rightarrow> True)
      | None \<Rightarrow> False) \<longleftrightarrow> \<not> (rule_host_cidr r = None
         \<or> (\<exists>net ip. parse_net c (the (rule_host_cidr r)) = Some net \<and> query_ip q = Some ip \<and> net_contains c net ip))"
    using assms unfolding compile_rule_net by (cases "rule_host_cidr r"; cases "query_ip q") auto
  have r: "compiled_rule k = r" using assms by (simp add: compile_rule_net)
  then show ?thesis unfolding acl_matches_def Let_def r opt ports proto net rule_covers_def by auto
qed

lemma AclTable_new_rules:
  "AclTable_new c rules = Inr t \<longleftrightarrow> list_all2 (\<lambda>r k. compile_rule c r = Inr k) rules (acl_rules t)"
  by (cases t) (auto simp: AclTable_new_def result_simps collect_r_eq_Inr)

lemma compile_rule_error:
  "compile_rule c r = Inl e \<longleftrightarrow>
   (\<exists>text. rule_host_cidr r = Some text \<and> parse_net c text = None \<and> e = InvalidCidr text)"
  by (cases "rule_host_cidr r") (auto simp: compile_rule_def result_simps)

lemma acl_check_first_covering:
  assumes "AclTable_new c rules = Inr t"
  shows "acl_check c t q = Allowed \<longleftrightarrow>
    (\<exists>pre r post. rules = pre @ r # post \<and> rule_allow r \<and> rule_covers c r q
       \<and> (\<forall>r' \<in> set pre. \<not> rule_covers c r' q))"
proof -
  have "list_all2 (\<lambda>r k. compile_rule c r = Inr k) rules (acl_rules t)"
    using assms by (simp add: AclTable_new_rules)
  then have "first_hit (\<lambda>r. \<not> rule_covers c r q) (\<lambda>r. rule_allow r \<and> rule_covers c r q) rules
      = first_hit (\<lambda>k. \<not> acl_matches c k q)
          (\<lambda>k. acl_matches c k q \<and> (if rule_allow (compiled_rule k) then Allowed else Denied) = Allowed) (acl_rules t)"
  proof (rule first_hit_list_all2)
    fix r k
    assume "compile_rule c r = Inr k"
    from compile_rule_covers [OF this, of q]
    show "(\<not> rule_covers c r q) = (\<not> acl_matches c k q) \<and> (rule_allow r \<and> rule_covers c r q)
        = (acl_matches c k q \<and> (if rule_allow (compiled_rule k) then Allowed else Denied) = Allowed)"
      by auto
  qed
  then show ?thesis
    unfolding acl_check_def acl.decide_iff by (simp add: first_hit_def conj_assoc)
qed

section \<open>Properties\<close>

text \<open>C21: Default deny, first match wins: an access is allowed exactly when some configured rule allows
  it and covers every stated constraint (caller, action, node, service, port, protocol, CIDR), and no
  rule written before it covers the access. In particular the empty table denies everything, and a
  narrow deny placed before a broad allow prevails.\<close>

theorem acl_allows_iff_first_covering_rule_allows:
  assumes "AclTable_new c rules = Inr t"
  shows "acl_check c t q = Allowed \<longleftrightarrow>
    (\<exists>pre r post. rules = pre @ r # post \<and> rule_allow r \<and> rule_covers c r q
       \<and> (\<forall>r' \<in> set pre. \<not> rule_covers c r' q))"
  using assms by (rule acl_check_first_covering)

theorem acl_allows_iff_first_covering_rule_allows_witness:
  "let r = \<lparr>rule_caller = ''b'', rule_action = ConnectService, rule_allow = True, rule_node = Some ''a'',
        rule_service = None, rule_host_cidr = None, rule_ports = Some [80], rule_proto = None\<rparr>;
      q = \<lparr>query_caller = ''b'', query_action = ConnectService, query_node = Some ''a'',
        query_service = Some ''web'', query_ip = None, query_port = Some 80, query_proto = Tcp\<rparr>;
      c = \<lparr>parse_net = (\<lambda>_. None :: unit option), net_contains = (\<lambda>_ _. False)\<rparr>
   in \<exists>t. AclTable_new c [r] = Inr t \<and> acl_check c t q = Allowed"
proof -
  let ?r = "\<lparr>rule_caller = ''b'', rule_action = ConnectService, rule_allow = True, rule_node = Some ''a'',
        rule_service = None, rule_host_cidr = None, rule_ports = Some [80], rule_proto = None\<rparr>"
  let ?q = "\<lparr>query_caller = ''b'', query_action = ConnectService, query_node = Some ''a'',
        query_service = Some ''web'', query_ip = None, query_port = Some 80, query_proto = Tcp\<rparr>"
  let ?c = "\<lparr>parse_net = (\<lambda>_. None :: unit option), net_contains = (\<lambda>_ _. False)\<rparr>"
  have new: "AclTable_new ?c [?r] = Inr \<lparr>acl_rules = [\<lparr>compiled_rule = ?r, compiled_net = None\<rparr>]\<rparr>"
    by (simp add: AclTable_new_def compile_rule_def)
  have "rule_covers ?c ?r ?q" by (simp add: rule_covers_def)
  then have "[?r] = [] @ ?r # [] \<and> rule_allow ?r \<and> rule_covers ?c ?r ?q \<and> (\<forall>r' \<in> set []. \<not> rule_covers ?c r' ?q)"
    by simp
  then have "acl_check ?c \<lparr>acl_rules = [\<lparr>compiled_rule = ?r, compiled_net = None\<rparr>]\<rparr> ?q = Allowed"
    unfolding acl_allows_iff_first_covering_rule_allows [OF new, of ?q] by blast
  with new show ?thesis unfolding Let_def by blast
qed

text \<open>A table compiles exactly when every CIDR parses, and otherwise the error names the first CIDR
  that does not: no rule is dropped or half-compiled.\<close>

theorem acl_new_rejects_first_bad_cidr:
  "AclTable_new c rules = Inl e \<longleftrightarrow>
   (\<exists>pre r post text. rules = pre @ r # post \<and> rule_host_cidr r = Some text \<and> parse_net c text = None
      \<and> e = InvalidCidr text
      \<and> list_all (\<lambda>r'. case rule_host_cidr r' of None \<Rightarrow> True | Some t \<Rightarrow> parse_net c t \<noteq> None) pre)"
proof -
  have ok: "is_ok (compile_rule c r') = (case rule_host_cidr r' of None \<Rightarrow> True | Some t \<Rightarrow> parse_net c t \<noteq> None)" for r'
    by (cases "rule_host_cidr r'"; cases "parse_net c (the (rule_host_cidr r'))") (auto simp: compile_rule_def)
  have "AclTable_new c rules = Inl e \<longleftrightarrow> collect_r (compile_rule c) rules = Inl e"
    by (auto simp: AclTable_new_def result_simps)
  then show ?thesis by (auto simp: collect_r_eq_Inl first_hit_def compile_rule_error ok list_all_iff)
qed

end
