(* ===== verification/Router.thy ===== *)
theory Router
  imports Destination
begin

text \<open>
  \<open>crates/wsnet-routing/src/router.rs\<close>: match patterns, the compiled router with its first-match
  decision, and the validation of relay chains. \<open>IpNet\<close> is again the parameter \<open>ipnet_crate\<close>.
\<close>

section \<open>Configuration and patterns\<close>

datatype FinalRoute = Direct | Server

record RouteRule =
  matchers :: "string list"
  rule_via :: "string list"

record Router =
  final_route :: FinalRoute
  router_rules :: "RouteRule list"

definition default_router :: Router where
  "default_router = \<lparr>final_route = Server, router_rules = []\<rparr>"

datatype RouteError =
    InvalidPattern string
  | TooManyHops nat nat            \<comment> \<open>actual, limit\<close>
  | DuplicateHop string
  | SelfLoop string
  | DestinationInPath string
  | HopNotASlug string             \<comment> \<open>\<open>RouteError::NotASlug\<close>\<close>

datatype 'net Pattern =
    Any
  | Domain string
  | DomainSuffix string
  | Cidr 'net
  | ServicePattern string string   \<comment> \<open>node, name\<close>
  | NodePattern string

definition pattern_parse :: "'net ipnet_crate \<Rightarrow> string \<Rightarrow> RouteError + 'net Pattern" where
  "pattern_parse c text =
     (if text = ''*'' then Inr Any
      else rbind (ok_or (InvalidPattern text) (split_once CHR '':'' text)) (\<lambda>(prefix, value).
        if prefix = ''domain'' then
          (case strip_prefix ''*.'' value of
             Some suffix \<Rightarrow> if suffix = [] then Inl (InvalidPattern text)
                            else Inr (DomainSuffix (to_ascii_lowercase suffix))
           | None \<Rightarrow> if value = [] then Inl (InvalidPattern text)
                     else Inr (Domain (to_ascii_lowercase value)))
        else if prefix = ''cidr'' then
          (case parse_net c value of Some net \<Rightarrow> Inr (Cidr net) | None \<Rightarrow> Inl (InvalidPattern text))
        else if prefix = ''node'' then
          (if is_slug value then Inr (NodePattern value) else Inl (InvalidPattern text))
        else if prefix = ''service'' then
          rbind (ok_or (InvalidPattern text) (split_once CHR ''/'' value)) (\<lambda>(node, name).
            if \<not> is_slug node \<or> (name \<noteq> ''*'' \<and> \<not> is_slug name) then Inl (InvalidPattern text)
            else Inr (ServicePattern node name))
        else Inl (InvalidPattern text)))"

definition ends_with :: "string \<Rightarrow> string \<Rightarrow> bool" where
  "ends_with s suffix \<longleftrightarrow> length suffix \<le> length s \<and> drop (length s - length suffix) s = suffix"

fun pattern_matches :: "'net ipnet_crate \<Rightarrow> 'net Pattern \<Rightarrow> Destination \<Rightarrow> bool" where
  "pattern_matches c Any d = True"
| "pattern_matches c (Domain expected) d =
     (case host_port d of Some (host, _) \<Rightarrow> eq_ignore_ascii_case host expected | None \<Rightarrow> False)"
| "pattern_matches c (DomainSuffix suffix) d =
     (case host_port d of
        Some (host, _) \<Rightarrow> (let host = to_ascii_lowercase host in host = suffix \<or> ends_with host (CHR ''.'' # suffix))
      | None \<Rightarrow> False)"
| "pattern_matches c (Cidr net) d =
     (case host_port d of
        Some (host, _) \<Rightarrow> (case parse_ip host of Some ip \<Rightarrow> net_contains c net ip | None \<Rightarrow> False)
      | None \<Rightarrow> False)"
| "pattern_matches c (ServicePattern want_node want_name) (Service node name _) =
     (node = want_node \<and> (want_name = ''*'' \<or> name = want_name))"
| "pattern_matches c (NodePattern want) d = (named_node d = Some want)"
| "pattern_matches c _ _ = False"

section \<open>The compiled router\<close>

record RouteDecision =
  via :: "string list"
  route_exit :: FinalRoute

record 'net RouterTable =
  table_final :: FinalRoute
  table_rules :: "('net Pattern list \<times> RouteRule) list"

definition RouterTable_new :: "'net ipnet_crate \<Rightarrow> Router \<Rightarrow> RouteError + 'net RouterTable" where
  "RouterTable_new c router =
     rbind (collect_r (\<lambda>rule. rbind (collect_r (pattern_parse c) (matchers rule)) (\<lambda>patterns. Inr (patterns, rule)))
              (router_rules router))
       (\<lambda>rules. Inr \<lparr>table_final = final_route router, table_rules = rules\<rparr>)"

fun decide_loop :: "'net ipnet_crate \<Rightarrow> FinalRoute \<Rightarrow> ('net Pattern list \<times> RouteRule) list \<Rightarrow> Destination \<Rightarrow> RouteDecision" where
  "decide_loop c fin [] d = \<lparr>via = [], route_exit = fin\<rparr>"
| "decide_loop c fin ((patterns, rule) # rest) d =
     (if list_ex (\<lambda>p. pattern_matches c p d) patterns then \<lparr>via = rule_via rule, route_exit = fin\<rparr>
      else decide_loop c fin rest d)"

definition route_decide :: "'net ipnet_crate \<Rightarrow> 'net RouterTable \<Rightarrow> Destination \<Rightarrow> RouteDecision" where
  "route_decide c t d = decide_loop c (table_final t) (table_rules t) d"

interpretation rt: first_match "decide_loop c fin"
  "\<lambda>(patterns, rule) d. list_ex (\<lambda>p. pattern_matches c p d) patterns"
  "\<lambda>(patterns, rule). \<lparr>via = rule_via rule, route_exit = fin\<rparr>"
  "\<lparr>via = [], route_exit = fin\<rparr>" for c fin
  by unfold_locales (auto split: prod.splits)

section \<open>Chains\<close>

fun hops_check :: "string \<Rightarrow> string list \<Rightarrow> RouteError + unit" where
  "hops_check caller [] = Inr ()"
| "hops_check caller (hop # hops) =
     (if \<not> is_slug hop then Inl (HopNotASlug hop)
      else if hop = caller then Inl (SelfLoop hop)
      else hops_check caller hops)"

fun duplicate_check :: "string list \<Rightarrow> string list \<Rightarrow> RouteError + unit" where
  "duplicate_check seen [] = Inr ()"
| "duplicate_check seen (hop # hops) =
     (if hop \<in> set seen then Inl (DuplicateHop hop) else duplicate_check (seen @ [hop]) hops)"

definition validate_chain :: "string \<Rightarrow> string list \<Rightarrow> Destination \<Rightarrow> RouteError + unit" where
  "validate_chain caller hops destination =
     (if length hops > MAX_CHAIN_HOPS then Inl (TooManyHops (length hops) MAX_CHAIN_HOPS)
      else rbind (hops_check caller hops) (\<lambda>_.
           rbind (duplicate_check [caller] hops) (\<lambda>_.
           case named_node destination of
             Some publisher \<Rightarrow>
               if list_ex (\<lambda>hop. hop = publisher) hops then Inl (DestinationInPath publisher) else Inr ()
           | None \<Rightarrow> Inr ())))"

lemma hops_check_ok: "hops_check caller hops = Inr () \<longleftrightarrow> (\<forall>h \<in> set hops. is_slug h \<and> h \<noteq> caller)"
  by (induction hops) auto

lemma duplicate_check_ok:
  "duplicate_check seen hops = Inr () \<longleftrightarrow> distinct hops \<and> set hops \<inter> set seen = {}"
  by (induction hops arbitrary: seen) auto

lemma validate_chain_ok:
  "validate_chain caller hops d = Inr () \<longleftrightarrow>
     length hops \<le> 4 \<and> list_all is_slug hops \<and> distinct (caller # hops)
     \<and> list_all (\<lambda>h. named_node d \<noteq> Some h) hops"
  by (cases "named_node d")
    (auto simp: validate_chain_def result_simps hops_check_ok duplicate_check_ok limit_defs
      list_all_iff list_ex_iff MAX_CHAIN_HOPS_def)

lemma duplicate_check_error:
  "duplicate_check seen hops = Inl e \<Longrightarrow>
   \<exists>pre h post. hops = pre @ h # post \<and> h \<in> set seen \<union> set pre \<and> e = DuplicateHop h"
proof (induction hops arbitrary: seen)
  case (Cons x xs)
  show ?case
  proof (cases "x \<in> set seen")
    case True
    with Cons.prems have "x # xs = [] @ x # xs \<and> x \<in> set seen \<union> set [] \<and> e = DuplicateHop x" by simp
    then show ?thesis by blast
  next
    case False
    with Cons.IH [of "seen @ [x]"] Cons.prems obtain pre h post
      where "xs = pre @ h # post" "h \<in> set (seen @ [x]) \<union> set pre" "e = DuplicateHop h" by auto
    then have "x # xs = (x # pre) @ h # post \<and> h \<in> set seen \<union> set (x # pre) \<and> e = DuplicateHop h" by auto
    then show ?thesis by blast
  qed
qed simp

lemma hops_check_error:
  "hops_check caller hops = Inl e \<Longrightarrow>
   \<exists>h \<in> set hops. \<not> is_slug h \<and> e = HopNotASlug h \<or> is_slug h \<and> h = caller \<and> e = SelfLoop h"
  by (induction hops) (auto split: if_splits)

lemma ends_with_iff: "ends_with s suffix \<longleftrightarrow> (\<exists>pre. s = pre @ suffix)"
proof
  assume "ends_with s suffix"
  then have "s = take (length s - length suffix) s @ suffix" unfolding ends_with_def by (metis append_take_drop_id)
  then show "\<exists>pre. s = pre @ suffix" by blast
qed (auto simp: ends_with_def)

section \<open>Properties\<close>

text \<open>C22: Chain validation accepts exactly the chains the design allows: at most four hops, every hop a
  slug, no node twice, the caller not among them, and the node the destination names not among them.
  The two loops with an accumulator equal this declarative test.\<close>

theorem validate_chain_accepts_iff:
  "validate_chain caller hops d = Inr () \<longleftrightarrow>
     length hops \<le> 4 \<and> list_all is_slug hops \<and> distinct (caller # hops)
     \<and> list_all (\<lambda>h. named_node d \<noteq> Some h) hops"
  by (rule validate_chain_ok)

text \<open>Every rejection of a chain names a real fault: the reported length exceeds the limit, the
  reported hop is not a slug, is the caller, occurs twice, or is the node the destination names.\<close>

theorem validate_chain_error_is_true:
  assumes "validate_chain caller hops d = Inl e"
  shows "case e of
      TooManyHops actual limit \<Rightarrow> actual = length hops \<and> limit = 4 \<and> limit < actual
    | HopNotASlug h \<Rightarrow> h \<in> set hops \<and> \<not> is_slug h
    | SelfLoop h \<Rightarrow> h \<in> set hops \<and> h = caller
    | DuplicateHop h \<Rightarrow> 2 \<le> count_list hops h
    | DestinationInPath h \<Rightarrow> h \<in> set hops \<and> named_node d = Some h
    | InvalidPattern _ \<Rightarrow> False"
proof -
  consider (long) "length hops > MAX_CHAIN_HOPS" "e = TooManyHops (length hops) MAX_CHAIN_HOPS"
    | (hop) "hops_check caller hops = Inl e"
    | (dup) "hops_check caller hops = Inr ()" "duplicate_check [caller] hops = Inl e"
    | (path) p where "named_node d = Some p" "p \<in> set hops" "e = DestinationInPath p"
  proof (cases "length hops > MAX_CHAIN_HOPS")
    case True
    with assms that(1) show ?thesis by (simp add: validate_chain_def)
  next
    case False
    note f = assms [unfolded validate_chain_def if_not_P [OF False]]
    show ?thesis
    proof (cases "hops_check caller hops")
      case (Inl x)
      with f that(2) show ?thesis by simp
    next
      case Inr: (Inr u)
      show ?thesis
      proof (cases "duplicate_check [caller] hops")
        case (Inl x)
        with f Inr that(3) show ?thesis by simp
      next
        case (Inr v)
        with f \<open>hops_check caller hops = Inr u\<close> that(4) show ?thesis
          by (auto simp: list_ex_iff split: option.splits if_splits)
      qed
    qed
  qed
  then show ?thesis
  proof cases
    case long
    then show ?thesis by (simp add: MAX_CHAIN_HOPS_def)
  next
    case hop
    with hops_check_error [OF hop] show ?thesis by auto
  next
    case dup
    from duplicate_check_error [OF dup(2)] obtain pre h post
      where h: "hops = pre @ h # post" "h \<in> set [caller] \<union> set pre" "e = DuplicateHop h" by blast
    with dup(1) have "h \<in> set pre" by (auto simp: hops_check_ok)
    then have "0 < count_list pre h" using count_list_0_iff by fastforce
    with h show ?thesis by simp
  next
    case path
    then show ?thesis by simp
  qed
qed

theorem validate_chain_error_is_true_witness:
  "2 \<le> count_list [''a'', ''b'', ''a''] ''a''
   \<and> validate_chain ''c'' [''a'', ''b'', ''a''] (Address ''h'' 1) = Inl (DuplicateHop ''a'')"
proof -
  have "validate_chain ''c'' [''a'', ''b'', ''a''] (Address ''h'' 1) = Inl (DuplicateHop ''a'')"
    by (simp add: validate_chain_def MAX_CHAIN_HOPS_def is_slug_def MAX_SLUG_LEN_def
        is_ascii_alphanumeric_def slug_byte_def)
  from validate_chain_error_is_true [OF this] this show ?thesis by simp
qed

end
