(* ===== verification/Registry.thy ===== *)
theory Registry
  imports Acl "HOL-Library.Product_Lexorder"
begin

text \<open>
  \<open>crates/wsnet-registry/src/lib.rs\<close>: the Hub's node leases and service directory. A \<open>BTreeMap\<close> is a
  sorted association list, a session id or epoch its 16 bytes; \<open>&mut self\<close> is explicit state.
\<close>

section \<open>State\<close>

record ServiceLease =
  sl_hub_id :: string
  sl_node_id :: string
  sl_service_name :: string
  sl_proto :: Proto
  sl_revision :: nat
  sl_target :: string
  sl_session_id :: bytes
  sl_epoch :: bytes

record NodeLease =
  nl_session_id :: bytes
  nl_epoch :: bytes
  nl_services :: "(string \<times> ServiceLease) list"

record ServiceDescriptor =
  sd_hub_id :: string
  sd_node_id :: string
  sd_service_name :: string
  sd_proto :: Proto
  sd_revision :: nat

record PeerNode =
  pn_node_id :: string
  pn_services :: "ServiceDescriptor list"

record PeerList =
  pl_hub_id :: string
  pl_revision :: nat
  pl_nodes :: "PeerNode list"

datatype RegistryError =
    NodeNotRegistered string
  | StaleSession
  | BadTarget string
  | BadServiceName string

record Registry =
  reg_hub_id :: string
  reg_nodes :: "(string \<times> NodeLease) list"
  reg_revision :: nat

section \<open>Operations\<close>

definition Registry_new :: "string \<Rightarrow> Registry" where
  "Registry_new hub_id = \<lparr>reg_hub_id = hub_id, reg_nodes = [], reg_revision = 0\<rparr>"

definition node_count :: "Registry \<Rightarrow> nat" where
  "node_count r = length (reg_nodes r)"

definition node :: "Registry \<Rightarrow> string \<Rightarrow> NodeLease option" where
  "node r node_id = map_of (reg_nodes r) node_id"

definition is_registered :: "Registry \<Rightarrow> string \<Rightarrow> bool" where
  "is_registered r node_id \<longleftrightarrow> node r node_id \<noteq> None"

definition reg_bump :: "Registry \<Rightarrow> Registry" where
  "reg_bump r = r\<lparr>reg_revision := sat_add (reg_revision r) 1\<rparr>"

definition owns :: "Registry \<Rightarrow> string \<Rightarrow> bytes \<Rightarrow> bytes \<Rightarrow> bool" where
  "owns r node_id session_id epoch =
     (case map_of (reg_nodes r) node_id of
        Some lease \<Rightarrow> nl_session_id lease = session_id \<and> nl_epoch lease = epoch
      | None \<Rightarrow> False)"

definition register_ready :: "Registry \<Rightarrow> string \<Rightarrow> bytes \<Rightarrow> bytes \<Rightarrow> Registry \<times> bool" where
  "register_ready r node_id session_id epoch =
     (let replaced = (case map_of (reg_nodes r) node_id of
                        Some lease \<Rightarrow> nl_session_id lease \<noteq> session_id \<or> nl_epoch lease \<noteq> epoch
                      | None \<Rightarrow> False);
          lease = \<lparr>nl_session_id = session_id, nl_epoch = epoch, nl_services = []\<rparr>
      in (reg_bump (r\<lparr>reg_nodes := bt_insert node_id lease (reg_nodes r)\<rparr>), replaced))"

definition unregister :: "Registry \<Rightarrow> string \<Rightarrow> bytes \<Rightarrow> bytes \<Rightarrow> Registry \<times> (RegistryError + bool)" where
  "unregister r node_id session_id epoch =
     (if map_of (reg_nodes r) node_id = None then (r, Inl (NodeNotRegistered node_id))
      else if \<not> owns r node_id session_id epoch then (r, Inr False)
      else (reg_bump (r\<lparr>reg_nodes := bt_remove node_id (reg_nodes r)\<rparr>), Inr True))"

definition parse_target :: "string \<Rightarrow> (string \<times> nat) option" where
  "parse_target target =
     (case (case strip_prefix ''['' target of
              Some rest \<Rightarrow>
                (case split_once CHR '']'' rest of
                   Some (host, rest) \<Rightarrow> map_option (\<lambda>port. (host, port)) (strip_prefix '':'' rest)
                 | None \<Rightarrow> None)
            | None \<Rightarrow> rsplit_once CHR '':'' target) of
        None \<Rightarrow> None
      | Some (host, port) \<Rightarrow>
          if host = [] then None
          else (case parse_unsigned u16_max port of
                  None \<Rightarrow> None
                | Some p \<Rightarrow> if p = 0 then None else Some (host, p)))"

definition next_revision :: "(string \<times> ServiceLease) list \<Rightarrow> string \<Rightarrow> Proto \<Rightarrow> string \<Rightarrow> nat" where
  "next_revision services service_name proto target =
     (case map_of services service_name of
        Some existing \<Rightarrow>
          if sl_target existing = target \<and> sl_proto existing = proto then sl_revision existing
          else sat_add (sl_revision existing) 1
      | None \<Rightarrow> 1)"

definition publish ::
  "Registry \<Rightarrow> string \<Rightarrow> bytes \<Rightarrow> bytes \<Rightarrow> string \<Rightarrow> Proto \<Rightarrow> string \<Rightarrow> Registry \<times> (RegistryError + nat)" where
  "publish r node_id session_id epoch service_name proto target =
     (if \<not> owns r node_id session_id epoch then (r, Inl StaleSession)
      else if \<not> is_slug service_name then (r, Inl (BadServiceName service_name))
      else if parse_target target = None then (r, Inl (BadTarget target))
      else case map_of (reg_nodes r) node_id of
        None \<Rightarrow> (r, Inl StaleSession)   \<comment> \<open>\<open>expect\<close>: excluded by \<open>owns\<close>\<close>
      | Some lease \<Rightarrow>
          let revision = next_revision (nl_services lease) service_name proto target;
              service = \<lparr>sl_hub_id = reg_hub_id r, sl_node_id = node_id, sl_service_name = service_name,
                sl_proto = proto, sl_revision = revision, sl_target = target,
                sl_session_id = session_id, sl_epoch = epoch\<rparr>;
              lease' = lease\<lparr>nl_services := bt_insert service_name service (nl_services lease)\<rparr>
          in (reg_bump (r\<lparr>reg_nodes := bt_insert node_id lease' (reg_nodes r)\<rparr>), Inr revision))"

definition withdraw :: "Registry \<Rightarrow> string \<Rightarrow> bytes \<Rightarrow> bytes \<Rightarrow> string \<Rightarrow> Registry \<times> (RegistryError + bool)" where
  "withdraw r node_id session_id epoch service_name =
     (if \<not> owns r node_id session_id epoch then (r, Inr False)
      else case map_of (reg_nodes r) node_id of
        None \<Rightarrow> (r, Inr False)
      | Some lease \<Rightarrow>
          if map_of (nl_services lease) service_name = None then (r, Inr False)
          else let lease' = lease\<lparr>nl_services := bt_remove service_name (nl_services lease)\<rparr>
               in (reg_bump (r\<lparr>reg_nodes := bt_insert node_id lease' (reg_nodes r)\<rparr>), Inr True))"

definition lookup :: "Registry \<Rightarrow> string \<Rightarrow> string \<Rightarrow> ServiceLease option" where
  "lookup r node_id service_name =
     (case map_of (reg_nodes r) node_id of
        Some lease \<Rightarrow> map_of (nl_services lease) service_name
      | None \<Rightarrow> None)"

definition discovery_query :: "string \<Rightarrow> ServiceLease \<Rightarrow> AclQuery" where
  "discovery_query caller lease =
     \<lparr>query_caller = caller, query_action = ConnectService, query_node = Some (sl_node_id lease),
      query_service = Some (sl_service_name lease), query_ip = None, query_port = None,
      query_proto = sl_proto lease\<rparr>"

definition discoverable :: "'net ipnet_crate \<Rightarrow> string \<Rightarrow> 'net AclTable \<Rightarrow> ServiceLease \<Rightarrow> bool" where
  "discoverable c caller acl lease = is_allowed (acl_check c acl (discovery_query caller lease))"

definition descriptor :: "ServiceLease \<Rightarrow> ServiceDescriptor" where
  "descriptor lease =
     \<lparr>sd_hub_id = sl_hub_id lease, sd_node_id = sl_node_id lease, sd_service_name = sl_service_name lease,
      sd_proto = sl_proto lease, sd_revision = sl_revision lease\<rparr>"

definition visible_of :: "'net ipnet_crate \<Rightarrow> string \<Rightarrow> 'net AclTable \<Rightarrow> NodeLease \<Rightarrow> ServiceDescriptor list" where
  "visible_of c caller acl lease = map descriptor (filter (discoverable c caller acl) (map snd (nl_services lease)))"

definition list_visible :: "'net ipnet_crate \<Rightarrow> Registry \<Rightarrow> string \<Rightarrow> 'net AclTable \<Rightarrow> ServiceDescriptor list" where
  "list_visible c r caller acl =
     sort_key (\<lambda>d. (sd_node_id d, sd_service_name d))
       (concat (map (\<lambda>(_, lease). visible_of c caller acl lease) (reg_nodes r)))"

definition peer_list :: "'net ipnet_crate \<Rightarrow> Registry \<Rightarrow> string \<Rightarrow> 'net AclTable \<Rightarrow> PeerList" where
  "peer_list c r caller acl =
     \<lparr>pl_hub_id = reg_hub_id r, pl_revision = reg_revision r,
      pl_nodes = map (\<lambda>(node_id, lease). \<lparr>pn_node_id = node_id, pn_services = visible_of c caller acl lease\<rparr>)
        (reg_nodes r)\<rparr>"

section \<open>Histories\<close>

text \<open>A call on the registry; the sequences of calls the Hub makes are lists of these.\<close>

datatype reg_op =
    Register string bytes bytes
  | Unregister string bytes bytes
  | Publish string bytes bytes string Proto string
  | Withdraw string bytes bytes string

primrec reg_step :: "Registry \<Rightarrow> reg_op \<Rightarrow> Registry" where
  "reg_step r (Register n sid ep) = fst (register_ready r n sid ep)"
| "reg_step r (Unregister n sid ep) = fst (unregister r n sid ep)"
| "reg_step r (Publish n sid ep s p t) = fst (publish r n sid ep s p t)"
| "reg_step r (Withdraw n sid ep s) = fst (withdraw r n sid ep s)"

definition reg_run :: "Registry \<Rightarrow> reg_op list \<Rightarrow> Registry" where
  "reg_run r ops = foldl reg_step r ops"

text \<open>The node an operation is about, and the session and epoch that ask for it.\<close>

primrec op_node :: "reg_op \<Rightarrow> string" where
  "op_node (Register n _ _) = n"
| "op_node (Unregister n _ _) = n"
| "op_node (Publish n _ _ _ _ _) = n"
| "op_node (Withdraw n _ _ _) = n"

primrec op_owner :: "reg_op \<Rightarrow> bytes \<times> bytes" where
  "op_owner (Register _ sid ep) = (sid, ep)"
| "op_owner (Unregister _ sid ep) = (sid, ep)"
| "op_owner (Publish _ sid ep _ _ _) = (sid, ep)"
| "op_owner (Withdraw _ sid ep _) = (sid, ep)"

primrec is_register :: "reg_op \<Rightarrow> bool" where
  "is_register (Register _ _ _) = True"
| "is_register (Unregister _ _ _) = False"
| "is_register (Publish _ _ _ _ _ _) = False"
| "is_register (Withdraw _ _ _ _) = False"

section \<open>Invariant\<close>

text \<open>Every service lease repeats its own keys and the session and epoch of the node lease that holds
  it, has a slug for a name, a target that parses and a revision of at least 1.\<close>

definition service_ok :: "Registry \<Rightarrow> string \<Rightarrow> NodeLease \<Rightarrow> string \<Rightarrow> ServiceLease \<Rightarrow> bool" where
  "service_ok r n l s v \<longleftrightarrow>
     sl_hub_id v = reg_hub_id r \<and> sl_node_id v = n \<and> sl_service_name v = s
     \<and> sl_session_id v = nl_session_id l \<and> sl_epoch v = nl_epoch l
     \<and> is_slug s \<and> parse_target (sl_target v) \<noteq> None \<and> 1 \<le> sl_revision v \<and> sl_revision v \<le> u64_max"

definition lease_ok :: "Registry \<Rightarrow> string \<Rightarrow> NodeLease \<Rightarrow> bool" where
  "lease_ok r n l \<longleftrightarrow>
     bt_inv (nl_services l) \<and> (\<forall>s v. map_of (nl_services l) s = Some v \<longrightarrow> service_ok r n l s v)"

definition reg_inv :: "Registry \<Rightarrow> bool" where
  "reg_inv r \<longleftrightarrow>
     bt_inv (reg_nodes r) \<and> reg_revision r \<le> u64_max
     \<and> (\<forall>n l. map_of (reg_nodes r) n = Some l \<longrightarrow> lease_ok r n l)"

lemma reg_bump_simps [simp]:
  "reg_nodes (reg_bump r) = reg_nodes r" "reg_hub_id (reg_bump r) = reg_hub_id r"
  "reg_revision (reg_bump r) = sat_add (reg_revision r) 1"
  by (simp_all add: reg_bump_def)

lemma lease_ok_hub: "reg_hub_id r = reg_hub_id r' \<Longrightarrow> lease_ok r n l = lease_ok r' n l"
  by (simp add: lease_ok_def service_ok_def)

lemma owns_iff: "owns r n sid ep \<longleftrightarrow> (\<exists>l. map_of (reg_nodes r) n = Some l \<and> nl_session_id l = sid \<and> nl_epoch l = ep)"
  by (auto simp: owns_def split: option.splits)

lemma reg_inv_put:
  assumes "reg_inv r" "lease_ok r n l"
  shows "reg_inv (reg_bump (r\<lparr>reg_nodes := bt_insert n l (reg_nodes r)\<rparr>))"
proof -
  have "lease_ok (reg_bump (r\<lparr>reg_nodes := x\<rparr>)) n' l' = lease_ok r n' l'" for x n' l'
    by (rule lease_ok_hub) simp
  then show ?thesis
    using assms unfolding reg_inv_def
    by (simp add: bt_inv_insert map_of_bt_insert)
qed

lemma reg_inv_drop:
  assumes "reg_inv r"
  shows "reg_inv (reg_bump (r\<lparr>reg_nodes := bt_remove n (reg_nodes r)\<rparr>))"
proof -
  have "lease_ok (reg_bump (r\<lparr>reg_nodes := x\<rparr>)) n' l' = lease_ok r n' l'" for x n' l'
    by (rule lease_ok_hub) simp
  then show ?thesis
    using assms unfolding reg_inv_def
    by (simp add: map_of_bt_remove bt_inv_remove)
qed

lemma next_revision_bounds:
  "lease_ok r n l \<Longrightarrow> 1 \<le> next_revision (nl_services l) s p t \<and> next_revision (nl_services l) s p t \<le> u64_max"
  by (auto simp: next_revision_def lease_ok_def service_ok_def sat_add_def u64_max_def split: option.splits)

lemma lease_ok_publish:
  assumes "lease_ok r n l" "is_slug s" "parse_target t \<noteq> None"
  shows "lease_ok r n (l\<lparr>nl_services := bt_insert s
     \<lparr>sl_hub_id = reg_hub_id r, sl_node_id = n, sl_service_name = s, sl_proto = p,
      sl_revision = next_revision (nl_services l) s p t, sl_target = t,
      sl_session_id = nl_session_id l, sl_epoch = nl_epoch l\<rparr> (nl_services l)\<rparr>)"
  using assms next_revision_bounds [OF assms(1), of s p t]
  by (auto simp: lease_ok_def service_ok_def bt_inv_insert map_of_bt_insert)

lemma lease_ok_withdraw: "lease_ok r n l \<Longrightarrow> lease_ok r n (l\<lparr>nl_services := bt_remove s (nl_services l)\<rparr>)"
  by (auto simp: lease_ok_def service_ok_def map_of_bt_remove bt_inv_remove split: if_splits)

lemma reg_step_inv: "reg_inv r \<Longrightarrow> reg_inv (reg_step r op)"
proof (cases op)
  case (Register n sid ep)
  moreover have "lease_ok r n \<lparr>nl_session_id = sid, nl_epoch = ep, nl_services = []\<rparr>"
    by (simp add: lease_ok_def)
  ultimately show "reg_inv r \<Longrightarrow> ?thesis" by (simp add: register_ready_def Let_def reg_inv_put)
next
  case (Unregister n sid ep)
  then show "reg_inv r \<Longrightarrow> ?thesis" by (simp add: unregister_def reg_inv_drop)
next
  case (Publish n sid ep s p t)
  assume r: "reg_inv r"
  then have "lease_ok r n l" if "map_of (reg_nodes r) n = Some l" for l
    using that by (simp add: reg_inv_def)
  with r Publish show ?thesis
    by (auto simp: publish_def owns_iff Let_def intro!: reg_inv_put lease_ok_publish)
next
  case (Withdraw n sid ep s)
  assume r: "reg_inv r"
  then have "lease_ok r n l" if "map_of (reg_nodes r) n = Some l" for l
    using that by (simp add: reg_inv_def)
  with r Withdraw show ?thesis
    by (auto simp: withdraw_def Let_def intro!: reg_inv_put lease_ok_withdraw split: option.splits)
qed

lemma reg_run_inv: "reg_inv r \<Longrightarrow> reg_inv (reg_run r ops)"
  by (induction ops arbitrary: r) (auto simp: reg_run_def reg_step_inv)

lemma reg_inv_new: "reg_inv (Registry_new hub)"
  by (simp add: reg_inv_def Registry_new_def)

lemma reg_step_other:
  assumes "reg_inv r" "n \<noteq> op_node op"
  shows "node (reg_step r op) n = node r n"
proof -
  have inv: "bt_inv (reg_nodes r)" using assms(1) by (simp add: reg_inv_def)
  show ?thesis
    using assms(2)
    by (cases op) (auto simp: node_def register_ready_def unregister_def publish_def withdraw_def Let_def
        map_of_bt_insert [OF inv] map_of_bt_remove split: option.splits)
qed

lemma stale_step: "\<not> is_register op \<Longrightarrow> op_owner op = (sid, ep) \<Longrightarrow> \<not> owns r (op_node op) sid ep \<Longrightarrow> reg_step r op = r"
  by (cases op) (auto simp: unregister_def publish_def withdraw_def)

text \<open>Two registries that agree on the lease of one node, which is this session's if it is there at all.\<close>

definition same_lease :: "string \<Rightarrow> bytes \<times> bytes \<Rightarrow> Registry \<Rightarrow> Registry \<Rightarrow> bool" where
  "same_lease n owner r r' \<longleftrightarrow> reg_inv r \<and> reg_inv r' \<and> reg_hub_id r = reg_hub_id r' \<and> node r n = node r' n
     \<and> (\<forall>l. node r n = Some l \<longrightarrow> (nl_session_id l, nl_epoch l) = owner)"

lemma reg_step_hub [simp]: "reg_hub_id (reg_step r op) = reg_hub_id r"
  by (cases op) (auto simp: register_ready_def unregister_def publish_def withdraw_def Let_def split: option.splits)

lemma reg_run_hub [simp]: "reg_hub_id (reg_run r ops) = reg_hub_id r"
  by (induction ops arbitrary: r) (auto simp: reg_run_def)

text \<open>What an operation of the node does to its lease depends on that lease alone.\<close>

lemma node_step:
  assumes "reg_inv r" "op_node op = n" "op_owner op = (sid, ep)" "node r n = Some l" "nl_session_id l = sid" "nl_epoch l = ep"
  shows "node (reg_step r op) n = (case op of
      Register _ _ _ \<Rightarrow> Some \<lparr>nl_session_id = sid, nl_epoch = ep, nl_services = []\<rparr>
    | Unregister _ _ _ \<Rightarrow> None
    | Publish _ _ _ s p t \<Rightarrow>
        Some (if is_slug s \<and> parse_target t \<noteq> None
          then l\<lparr>nl_services := bt_insert s \<lparr>sl_hub_id = reg_hub_id r, sl_node_id = n, sl_service_name = s, sl_proto = p,
            sl_revision = next_revision (nl_services l) s p t, sl_target = t, sl_session_id = sid, sl_epoch = ep\<rparr> (nl_services l)\<rparr>
          else l)
    | Withdraw _ _ _ s \<Rightarrow> Some (if map_of (nl_services l) s = None then l else l\<lparr>nl_services := bt_remove s (nl_services l)\<rparr>))"
proof -
  have inv: "bt_inv (reg_nodes r)" using assms(1) by (simp add: reg_inv_def)
  have l: "map_of (reg_nodes r) n = Some l" and o: "owns r n sid ep" using assms by (simp_all add: node_def owns_iff)
  from assms(2,3) l o inv show ?thesis
    by (cases op) (auto simp: node_def register_ready_def unregister_def publish_def withdraw_def Let_def
        map_of_bt_insert map_of_bt_remove simp del: not_None_eq split_paired_All split_paired_Ex)
qed

lemma same_lease_own:
  assumes same: "same_lease n owner r r'" and op: "op_node op = n" "op_owner op = owner" "\<not> is_register op"
  shows "same_lease n owner (reg_step r op) (reg_step r' op)"
proof (cases "node r n")
  case None
  obtain sid ep where o: "owner = (sid, ep)" by fastforce
  with same op None have "\<not> owns r (op_node op) sid ep" "\<not> owns r' (op_node op) sid ep"
    by (auto simp: same_lease_def owns_iff node_def)
  with op o same show ?thesis by (simp add: stale_step)
next
  case (Some l)
  obtain sid ep where o: "owner = (sid, ep)" by fastforce
  have l: "nl_session_id l = sid" "nl_epoch l = ep" "node r' n = Some l" "reg_hub_id r' = reg_hub_id r" "reg_inv r" "reg_inv r'"
    using same Some o by (auto simp: same_lease_def)
  note step = node_step [OF l(5) op(1) op(2) [unfolded o] Some l(1,2)] node_step [OF l(6) op(1) op(2) [unfolded o] l(3) l(1,2)]
  have "(nl_session_id l', nl_epoch l') = owner" if "node (reg_step r op) n = Some l'" for l'
    using that l(1,2) o op(3) unfolding step(1) by (cases op) (auto split: if_splits)
  moreover have "node (reg_step r op) n = node (reg_step r' op) n" unfolding step l(4) ..
  ultimately show ?thesis using l by (simp add: same_lease_def reg_step_inv)
qed

lemma same_lease_stale:
  assumes "same_lease n owner r r'" "op_node op = n \<longrightarrow> \<not> is_register op \<and> op_owner op \<noteq> owner"
  shows "same_lease n owner (reg_step r op) r'"
proof (cases "op_node op = n")
  case True
  obtain sid ep where o: "op_owner op = (sid, ep)" by fastforce
  with assms True have "\<not> owns r (op_node op) sid ep" by (auto simp: same_lease_def owns_iff node_def)
  with assms True o show ?thesis by (simp add: stale_step)
next
  case False
  with assms(1) reg_step_other [of r n op] show ?thesis by (simp add: same_lease_def reg_step_inv)
qed

lemma same_lease_run:
  "same_lease n owner r r' \<Longrightarrow> \<forall>op \<in> set ops. op_node op = n \<longrightarrow> \<not> is_register op \<Longrightarrow>
   same_lease n owner (reg_run r ops) (reg_run r' (filter (\<lambda>op. op_node op = n \<and> op_owner op = owner) ops))"
proof (induction ops arbitrary: r r')
  case (Cons op ops)
  show ?case
  proof (cases "op_node op = n \<and> op_owner op = owner")
    case True
    with Cons.IH [of "reg_step r op" "reg_step r' op"] Cons.prems same_lease_own [of n owner r r' op] show ?thesis
      by (simp add: reg_run_def)
  next
    case False
    with Cons.IH [of "reg_step r op" r'] Cons.prems same_lease_stale [of n owner r r' op] show ?thesis
      by (auto simp: reg_run_def)
  qed
qed (simp add: reg_run_def)

lemma same_lease_registered:
  assumes "reg_inv r" "reg_inv r'" "reg_hub_id r = reg_hub_id r'"
  shows "same_lease n (sid, ep) (reg_step r (Register n sid ep)) (reg_step r' (Register n sid ep))"
proof -
  have "bt_inv (reg_nodes r)" "bt_inv (reg_nodes r')" using assms by (simp_all add: reg_inv_def)
  with assms reg_step_inv [of _ "Register n sid ep"] show ?thesis
    by (simp add: same_lease_def node_def register_ready_def Let_def map_of_bt_insert)
qed

section \<open>The directory\<close>

abbreviation directory_key :: "ServiceDescriptor \<Rightarrow> string \<times> string" where
  "directory_key d \<equiv> (sd_node_id d, sd_service_name d)"

lemma visible_of_keys:
  assumes "lease_ok r n l"
  shows "map directory_key (visible_of c caller acl l)
    = map (Pair n) (map fst (filter (\<lambda>(s, v). discoverable c caller acl v) (nl_services l)))"
proof -
  have "\<forall>(s, v) \<in> set (nl_services l). sl_node_id v = n \<and> sl_service_name v = s"
    using assms bt.set_conv_get [of "nl_services l"] by (auto simp: lease_ok_def service_ok_def)
  moreover have "\<forall>(s, v) \<in> set xs. sl_node_id v = n \<and> sl_service_name v = s \<Longrightarrow>
      map directory_key (map descriptor (filter D (map snd xs))) = map (Pair n) (map fst (filter (\<lambda>(s, v). D v) xs))"
    for xs and D by (induction xs) (auto simp: descriptor_def)
  ultimately show ?thesis unfolding visible_of_def by blast
qed

lemma directory_sorted:
  assumes "bt_inv ns" "\<forall>(n, l) \<in> set ns. lease_ok r n l"
  shows "sorted_wrt (<) (map directory_key (concat (map (\<lambda>(_, l). visible_of c caller acl l) ns)))"
  using assms
proof (induction ns)
  case (Cons x ns)
  obtain n l where x: "x = (n, l)" by fastforce
  let ?V = "\<lambda>l. map directory_key (visible_of c caller acl l)"
  have l: "lease_ok r n l" using Cons.prems x by auto
  have "sorted_wrt (<) (map fst (filter (\<lambda>(s, v). discoverable c caller acl v) (nl_services l)))"
    using l bt_inv_filter [of "nl_services l" "\<lambda>(s, v). discoverable c caller acl v"]
    by (simp add: lease_ok_def bt_inv_def)
  then have "sorted_wrt (<) (?V l)"
    unfolding visible_of_keys [OF l] sorted_wrt_map by (simp add: less_prod_def)
  moreover have "\<forall>k \<in> set (?V l). \<forall>k' \<in> set (concat (map (\<lambda>x. ?V (snd x)) ns)). k < k'"
  proof (intro ballI)
    fix k k'
    assume k: "k \<in> set (?V l)" and "k' \<in> set (concat (map (\<lambda>x. ?V (snd x)) ns))"
    then obtain n' l' where n': "(n', l') \<in> set ns" "k' \<in> set (?V l')" by (auto split: prod.splits)
    have ok: "lease_ok r n' l'" and "n < n'" using n'(1) Cons.prems x by (auto simp: bt_inv_Cons)
    moreover have "fst k = n" "fst k' = n'"
      using k n'(2) unfolding visible_of_keys [OF l] visible_of_keys [OF ok] by auto
    ultimately show "k < k'" by (simp add: less_prod_def)
  qed
  moreover have "sorted_wrt (<) (concat (map (\<lambda>x. ?V (snd x)) ns))"
    using Cons x by (simp add: bt_inv_Cons map_concat comp_def case_prod_unfold)
  ultimately show ?case
    unfolding x by (simp add: sorted_wrt_append map_concat comp_def case_prod_unfold)
qed simp

lemma directory_entries:
  assumes "reg_inv r"
  shows "d \<in> set (concat (map (\<lambda>(_, l). visible_of c caller acl l) (reg_nodes r))) \<longleftrightarrow>
    (\<exists>n s v. lookup r n s = Some v \<and> discoverable c caller acl v \<and> d = descriptor v)"
proof -
  have n: "(n, l) \<in> set (reg_nodes r) \<longleftrightarrow> map_of (reg_nodes r) n = Some l" for n l
    using assms by (simp add: reg_inv_def bt.set_conv_get)
  have s: "(s, v) \<in> set (nl_services l) \<longleftrightarrow> map_of (nl_services l) s = Some v"
    if "map_of (reg_nodes r) n = Some l" for n l s v
    using assms that by (simp add: reg_inv_def lease_ok_def bt.set_conv_get)
  have look: "lookup r n s = Some v \<longleftrightarrow> (\<exists>l. (n, l) \<in> set (reg_nodes r) \<and> (s, v) \<in> set (nl_services l))" for n s v
    by (cases "map_of (reg_nodes r) n") (simp_all add: lookup_def n s)
  have "d \<in> set (concat (map (\<lambda>(_, l). visible_of c caller acl l) (reg_nodes r))) \<longleftrightarrow>
      (\<exists>(n, l) \<in> set (reg_nodes r). d \<in> set (visible_of c caller acl l))" by (simp add: split_beta)
  also have "\<dots> \<longleftrightarrow> (\<exists>(n, l) \<in> set (reg_nodes r). \<exists>(s, v) \<in> set (nl_services l).
      discoverable c caller acl v \<and> d = descriptor v)"
    by (simp add: visible_of_def image_iff split_beta) blast
  finally show ?thesis unfolding look by blast
qed

lemma list_visible_unsorted:
  assumes "reg_inv r"
  shows "list_visible c r caller acl = concat (map (\<lambda>(_, l). visible_of c caller acl l) (reg_nodes r))"
    and "sorted_wrt (<) (map directory_key (list_visible c r caller acl))"
proof -
  have "\<forall>(n, l) \<in> set (reg_nodes r). lease_ok r n l"
    using assms by (auto simp: reg_inv_def bt.set_conv_get)
  with assms have "sorted_wrt (<) (map directory_key (concat (map (\<lambda>(_, l). visible_of c caller acl l) (reg_nodes r))))"
    by (intro directory_sorted) (simp_all add: reg_inv_def)
  then show "list_visible c r caller acl = concat (map (\<lambda>(_, l). visible_of c caller acl l) (reg_nodes r))"
      "sorted_wrt (<) (map directory_key (list_visible c r caller acl))"
    by (simp_all add: list_visible_def sort_key_id_if_sorted strict_sorted_imp_sorted)
qed

lemma target_examples:
  "parse_target ''h:1'' = Some (''h'', 1)" "parse_target ''h:2'' = Some (''h'', 2)" "is_slug ''w''"
  by (simp_all add: parse_target_def strip_prefix_def rsplit_once_def split_once_def parse_unsigned_def
      is_digit_def dec_val_def digit_val_def int_range_defs is_slug_def MAX_SLUG_LEN_def
      is_ascii_alphanumeric_def slug_byte_def)

section \<open>Properties\<close>

text \<open>C24: On every history of calls the directory is well formed: unique sorted keys, and every service
  lease carries the node, name, session and epoch it is filed under, a slug, a target that parses and a
  revision of at least 1.\<close>

theorem registry_invariant: "reg_inv (reg_run (Registry_new hub) ops)"
  by (intro reg_run_inv reg_inv_new)

text \<open>C23: A node's lease belongs to the session that registered last: after any history, in which a session and epoch
  registered the node and no registration of that node followed, the lease and its services are exactly what that
  registration and this session's own later publishes, withdrawals and unregistration make of an empty directory.
  Whatever sessions it superseded, or any other caller, send for the node in between or afterwards, and whatever happens
  before or to other nodes, leaves no trace in it. (Registering is the one call without a guard: a superseded session
  that sends its \<open>Hello\<close> again becomes the session that registered last.)\<close>

theorem stale_session_cannot_touch_lease:
  assumes "\<forall>op \<in> set after. op_node op = n \<longrightarrow> \<not> is_register op"
  shows "node (reg_run (Registry_new hub) (before @ Register n sid ep # after)) n
    = node (reg_run (Registry_new hub) (Register n sid ep # filter (\<lambda>op. op_node op = n \<and> op_owner op = (sid, ep)) after)) n"
proof -
  have "same_lease n (sid, ep) (reg_step (reg_run (Registry_new hub) before) (Register n sid ep))
      (reg_step (Registry_new hub) (Register n sid ep))"
    by (intro same_lease_registered reg_run_inv reg_inv_new) simp
  from same_lease_run [OF this assms] show ?thesis by (simp add: same_lease_def reg_run_def)
qed

theorem stale_session_cannot_touch_lease_witness:
  "node (reg_run (Registry_new ''hub'')
      ([Register ''a'' [1] [1]] @ Register ''a'' [2] [2] # [Unregister ''a'' [1] [1], Withdraw ''a'' [1] [1] ''web'']))
    ''a'' = Some \<lparr>nl_session_id = [2], nl_epoch = [2], nl_services = []\<rparr>"
proof -
  have n: "node (reg_run (Registry_new ''hub'') [Register ''a'' [2] [2]]) ''a''
      = Some \<lparr>nl_session_id = [2], nl_epoch = [2], nl_services = []\<rparr>"
    by (simp add: reg_run_def Registry_new_def register_ready_def reg_bump_def node_def Let_def)
  show ?thesis
    using stale_session_cannot_touch_lease [of "[Unregister ''a'' [1] [1], Withdraw ''a'' [1] [1] ''web'']" "''a''" "''hub''"
      "[Register ''a'' [1] [1]]" "[2]" "[2]"] n by simp
qed

text \<open>Discovery is exactly what the access list permits: a caller's directory lists a service if and
  only if the service is published and the list allows the caller to connect to it, each once, in order
  of node and name.\<close>

theorem directory_lists_exactly_the_permitted:
  fixes hub ops
  defines "r \<equiv> reg_run (Registry_new hub) ops"
  shows "(d \<in> set (list_visible c r caller acl) \<longleftrightarrow>
      (\<exists>n s v. lookup r n s = Some v \<and> acl_check c acl (discovery_query caller v) = Allowed \<and> d = descriptor v))
    \<and> sorted_wrt (<) (map (\<lambda>d. (sd_node_id d, sd_service_name d)) (list_visible c r caller acl))"
proof -
  have r: "reg_inv r" unfolding r_def by (intro reg_run_inv reg_inv_new)
  have allowed: "is_allowed x \<longleftrightarrow> x = Allowed" for x by (cases x) auto
  have "d \<in> set (list_visible c r caller acl) \<longleftrightarrow>
      (\<exists>n s v. lookup r n s = Some v \<and> acl_check c acl (discovery_query caller v) = Allowed \<and> d = descriptor v)"
    unfolding list_visible_unsorted(1) [OF r] directory_entries [OF r] discoverable_def allowed ..
  with list_visible_unsorted(2) [OF r] show ?thesis by blast
qed

text \<open>Publishing stores the target and proto given, and its revision is 1 for a new name, the old one
  when target and proto are unchanged, and otherwise one more than the old one (saturating at the top).\<close>

theorem publish_revision:
  assumes "reg_inv r" "publish r n sid ep s p t = (r', Inr revn)"
  shows "(\<exists>v. lookup r' n s = Some v \<and> sl_target v = t \<and> sl_proto v = p \<and> sl_revision v = revn)
    \<and> revn = (case lookup r n s of
        None \<Rightarrow> 1
      | Some old \<Rightarrow> if sl_target old = t \<and> sl_proto old = p then sl_revision old
          else min (sl_revision old + 1) u64_max)"
proof -
  obtain l where l: "map_of (reg_nodes r) n = Some l" "revn = next_revision (nl_services l) s p t"
    and r': "r' = reg_bump (r\<lparr>reg_nodes := bt_insert n (l\<lparr>nl_services := bt_insert s
       \<lparr>sl_hub_id = reg_hub_id r, sl_node_id = n, sl_service_name = s, sl_proto = p, sl_revision = revn,
        sl_target = t, sl_session_id = sid, sl_epoch = ep\<rparr> (nl_services l)\<rparr>) (reg_nodes r)\<rparr>)"
    using assms(2) by (auto simp: publish_def Let_def split: if_splits option.splits)
  have "bt_inv (reg_nodes r)" "bt_inv (nl_services l)" using assms(1) l by (auto simp: reg_inv_def lease_ok_def)
  with l r' show ?thesis
    by (simp add: lookup_def map_of_bt_insert next_revision_def sat_add_def split: option.splits)
qed

theorem publish_revision_witness:
  "let r = reg_run (Registry_new ''hub'') [Register ''a'' [1] [1], Publish ''a'' [1] [1] ''w'' Tcp ''h:1''] in
   snd (publish r ''a'' [1] [1] ''w'' Tcp ''h:2'') = Inr 2"
proof -
  let ?r = "reg_run (Registry_new ''hub'') [Register ''a'' [1] [1], Publish ''a'' [1] [1] ''w'' Tcp ''h:1'']"
  note t = target_examples
  have r: "?r = \<lparr>reg_hub_id = ''hub'', reg_nodes = [(''a'', \<lparr>nl_session_id = [1], nl_epoch = [1], nl_services =
      [(''w'', \<lparr>sl_hub_id = ''hub'', sl_node_id = ''a'', sl_service_name = ''w'', sl_proto = Tcp, sl_revision = 1,
        sl_target = ''h:1'', sl_session_id = [1], sl_epoch = [1]\<rparr>)]\<rparr>)], reg_revision = 2\<rparr>"
    using t by (simp add: reg_run_def Registry_new_def register_ready_def publish_def owns_def reg_bump_def
        next_revision_def sat_add_def u64_max_def Let_def)
  obtain r' revn where p: "publish ?r ''a'' [1] [1] ''w'' Tcp ''h:2'' = (r', Inr revn)"
    using t unfolding r by (simp add: publish_def owns_def Let_def)
  have "reg_inv ?r" by (intro reg_run_inv reg_inv_new)
  from publish_revision [OF this p] have "revn = 2"
    unfolding r by (simp add: lookup_def u64_max_def)
  with p show ?thesis by simp
qed

text \<open>A revision does not identify a target across a withdrawal: when the owner withdraws a service
  that has revision 1 and publishes any other valid target under the same name, the new target again gets
  revision 1, so a caller that pinned revision 1 of the old target is not told that it is stale.\<close>

theorem revision_reused_after_withdraw:
  assumes "reg_inv r" "owns r n sid ep" "lookup r n s = Some old" "parse_target t \<noteq> None"
  shows "snd (publish (fst (withdraw r n sid ep s)) n sid ep s p t) = Inr 1"
proof -
  obtain l where l: "map_of (reg_nodes r) n = Some l" "nl_session_id l = sid" "nl_epoch l = ep"
    using assms(2) by (auto simp: owns_iff)
  have inv: "bt_inv (reg_nodes r)" and "lease_ok r n l" using assms(1) l by (auto simp: reg_inv_def)
  moreover have "map_of (nl_services l) s = Some old" using assms(3) l by (simp add: lookup_def)
  ultimately have "is_slug s" by (auto simp: lease_ok_def service_ok_def)
  with l inv assms(2,4) \<open>map_of (nl_services l) s = Some old\<close> show ?thesis
    by (auto simp: withdraw_def publish_def owns_def Let_def map_of_bt_insert map_of_bt_remove next_revision_def)
qed

theorem revision_reused_after_withdraw_witness:
  "\<exists>r. lookup r ''a'' ''w'' \<noteq> None \<and> snd (publish (fst (withdraw r ''a'' [1] [1] ''w'')) ''a'' [1] [1] ''w'' Tcp ''h:2'') = Inr 1"
proof -
  let ?r = "reg_run (Registry_new ''hub'') [Register ''a'' [1] [1], Publish ''a'' [1] [1] ''w'' Tcp ''h:1'']"
  note t = target_examples
  have "owns ?r ''a'' [1] [1]" and "lookup ?r ''a'' ''w'' \<noteq> None"
    using t by (simp_all add: reg_run_def Registry_new_def register_ready_def publish_def owns_def reg_bump_def
        next_revision_def Let_def lookup_def)
  moreover from this obtain old where "lookup ?r ''a'' ''w'' = Some old" by blast
  ultimately show ?thesis
    using revision_reused_after_withdraw [OF reg_run_inv [OF reg_inv_new], of "''hub''"] t(2) by (metis option.distinct(1))
qed

end
