(* ===== verification/Message.thy ===== *)
theory Message
  imports Destination Kind
begin

text \<open>
  \<open>crates/wsnet-session/src/message.rs\<close>: the typed metadata of every message kind, with one record, one
  writer and one reader per kind. The \<open>hex\<close> crate is a parameter with its documented law: decoding
  an encoding gives the bytes back, and an encoding consists of lowercase hexadecimal digits. An \<open>[u8; N]\<close> is a byte list; the
  \<open>_typed\<close> predicates state what the Rust types guarantee of each record.
\<close>

section \<open>The \<open>hex\<close> crate\<close>

record hex_crate =
  hex_enc :: "bytes \<Rightarrow> string"
  hex_dec :: "string \<Rightarrow> bytes option"

definition hex_laws :: "hex_crate \<Rightarrow> bool" where
  "hex_laws h \<longleftrightarrow> (\<forall>b. hex_dec h (hex_enc h b) = Some b \<and> set (hex_enc h b) \<subseteq> set ''0123456789abcdef'')"

section \<open>Errors and field readers\<close>

datatype MessageError =
    MissingField string string           \<comment> \<open>kind, field\<close>
  | WrongFieldType string string         \<comment> \<open>\<open>MessageError::WrongType\<close>\<close>
  | BadHex string string nat             \<comment> \<open>expected width\<close>
  | BadInteger string string
  | UnknownValue string string string    \<comment> \<open>value\<close>
  | Nested string string string          \<comment> \<open>reason\<close>
  | TooMany string string nat nat        \<comment> \<open>actual, limit\<close>
  | UnsupportedCapability string

definition hex_field :: "hex_crate \<Rightarrow> nat \<Rightarrow> Canonical \<Rightarrow> string \<Rightarrow> string \<Rightarrow> MessageError + bytes" where
  "hex_field h n value fld kind =
     rbind (map_err (\<lambda>_. MissingField kind fld) (get_str value fld)) (\<lambda>text.
     rbind (ok_or (BadHex kind fld n) (hex_dec h text)) (\<lambda>bytes.
     if length bytes = n then Inr bytes else Inl (BadHex kind fld n)))"

definition decimal_field :: "Canonical \<Rightarrow> string \<Rightarrow> string \<Rightarrow> MessageError + nat" where
  "decimal_field value fld kind =
     rbind (map_err (\<lambda>_. MissingField kind fld) (field value fld)) (\<lambda>_.
     map_err (\<lambda>_. BadInteger kind fld) (get_u64 value fld))"

definition string_field :: "Canonical \<Rightarrow> string \<Rightarrow> string \<Rightarrow> MessageError + string" where
  "string_field value fld kind =
     rbind (map_err (\<lambda>_. MissingField kind fld) (field value fld)) (\<lambda>_.
     map_err (\<lambda>_. WrongFieldType kind fld) (get_str value fld))"

definition string_list :: "Canonical \<Rightarrow> string \<Rightarrow> string \<Rightarrow> MessageError + string list" where
  "string_list value fld kind =
     rbind (map_err (\<lambda>_. WrongFieldType kind fld) (get_array value fld)) (\<lambda>items.
     collect_r (\<lambda>item. case item of Str s \<Rightarrow> Inr s | _ \<Rightarrow> Inl (WrongFieldType kind fld)) items)"

definition str_array :: "string list \<Rightarrow> Canonical" where
  "str_array items = Array (map Str items)"

definition version_value :: Canonical where
  "version_value = Integer (int (unat PROTOCOL_VERSION))"

lemmas field_defs = hex_field_def decimal_field_def string_field_def string_list_def str_array_def

section \<open>Auth and AuthOk\<close>

record AuthFields =
  auth_version :: u8
  auth_hub_id :: string
  auth_key_id :: string
  auth_node_id :: string
  auth_attempt_id :: bytes
  auth_ts :: int
  auth_nonce :: bytes
  auth_capabilities :: "string list"

definition auth_entries :: "hex_crate \<Rightarrow> AuthFields \<Rightarrow> (string \<times> Canonical) list" where
  "auth_entries h f =
     [(''attempt_id'', Str (hex_enc h (auth_attempt_id f))),
      (''capabilities'', str_array (auth_capabilities f)),
      (''hub_id'', Str (auth_hub_id f)),
      (''key_id'', Str (auth_key_id f)),
      (''node_id'', Str (auth_node_id f)),
      (''nonce'', Str (hex_enc h (auth_nonce f))),
      (''ts'', u64_decimal (nat (max (auth_ts f) 0))),
      (''version'', Integer (int (unat (auth_version f))))]"

definition auth_signing_canonical :: "hex_crate \<Rightarrow> AuthFields \<Rightarrow> Canonical" where
  "auth_signing_canonical h f = object (auth_entries h f)"

text \<open>\<open>to_canonical\<close>: the \<open>mac\<close> entry is inserted into the object of the signing form.\<close>

definition insert_mac :: "hex_crate \<Rightarrow> Canonical \<Rightarrow> bytes \<Rightarrow> Canonical" where
  "insert_mac h v mac =
     (case v of Object m \<Rightarrow> Object (bt_insert ''mac'' (Str (hex_enc h mac)) m) | _ \<Rightarrow> v)"

definition auth_to_canonical :: "hex_crate \<Rightarrow> AuthFields \<times> bytes \<Rightarrow> Canonical" where
  "auth_to_canonical h = (\<lambda>(f, mac). insert_mac h (auth_signing_canonical h f) mac)"

definition auth_from_canonical :: "hex_crate \<Rightarrow> Canonical \<Rightarrow> MessageError + AuthFields \<times> bytes" where
  "auth_from_canonical h value =
     rbind (map_err (\<lambda>_. WrongFieldType ''Auth'' ''version'') (get_i64 value ''version'')) (\<lambda>version.
     rbind (string_field value ''hub_id'' ''Auth'') (\<lambda>hub_id.
     rbind (string_field value ''key_id'' ''Auth'') (\<lambda>key_id.
     rbind (string_field value ''node_id'' ''Auth'') (\<lambda>node_id.
     rbind (hex_field h 16 value ''attempt_id'' ''Auth'') (\<lambda>attempt_id.
     rbind (decimal_field value ''ts'' ''Auth'') (\<lambda>ts.
     rbind (hex_field h 32 value ''nonce'' ''Auth'') (\<lambda>nonce.
     rbind (string_list value ''capabilities'' ''Auth'') (\<lambda>capabilities.
     rbind (hex_field h 32 value ''mac'' ''Auth'') (\<lambda>mac.
     Inr (\<lparr>auth_version = word_of_int version, auth_hub_id = hub_id, auth_key_id = key_id,
           auth_node_id = node_id, auth_attempt_id = attempt_id, auth_ts = u64_as_i64 ts,
           auth_nonce = nonce, auth_capabilities = capabilities\<rparr>, mac))))))))))"

record AuthOkFields =
  aok_session_id :: bytes
  aok_session_epoch :: bytes
  aok_attempt_id :: bytes
  aok_server_nonce :: bytes
  aok_expires_at :: int
  aok_capabilities :: "string list"

definition auth_ok_entries :: "hex_crate \<Rightarrow> AuthOkFields \<Rightarrow> (string \<times> Canonical) list" where
  "auth_ok_entries h f =
     [(''attempt_id'', Str (hex_enc h (aok_attempt_id f))),
      (''capabilities'', str_array (aok_capabilities f)),
      (''expires_at'', u64_decimal (nat (max (aok_expires_at f) 0))),
      (''server_nonce'', Str (hex_enc h (aok_server_nonce f))),
      (''session_epoch'', Str (hex_enc h (aok_session_epoch f))),
      (''session_id'', Str (hex_enc h (aok_session_id f)))]"

definition auth_ok_signing_canonical :: "hex_crate \<Rightarrow> AuthOkFields \<Rightarrow> Canonical" where
  "auth_ok_signing_canonical h f = object (auth_ok_entries h f)"

definition auth_ok_to_canonical :: "hex_crate \<Rightarrow> AuthOkFields \<times> bytes \<Rightarrow> Canonical" where
  "auth_ok_to_canonical h = (\<lambda>(f, mac). insert_mac h (auth_ok_signing_canonical h f) mac)"

definition auth_ok_from_canonical :: "hex_crate \<Rightarrow> Canonical \<Rightarrow> MessageError + AuthOkFields \<times> bytes" where
  "auth_ok_from_canonical h value =
     rbind (hex_field h 16 value ''session_id'' ''AuthOk'') (\<lambda>session_id.
     rbind (hex_field h 16 value ''session_epoch'' ''AuthOk'') (\<lambda>session_epoch.
     rbind (hex_field h 16 value ''attempt_id'' ''AuthOk'') (\<lambda>attempt_id.
     rbind (hex_field h 32 value ''server_nonce'' ''AuthOk'') (\<lambda>server_nonce.
     rbind (decimal_field value ''expires_at'' ''AuthOk'') (\<lambda>expires_at.
     rbind (string_list value ''capabilities'' ''AuthOk'') (\<lambda>capabilities.
     rbind (hex_field h 32 value ''mac'' ''AuthOk'') (\<lambda>mac.
     Inr (\<lparr>aok_session_id = session_id, aok_session_epoch = session_epoch, aok_attempt_id = attempt_id,
           aok_server_nonce = server_nonce, aok_expires_at = u64_as_i64 expires_at,
           aok_capabilities = capabilities\<rparr>, mac))))))))"

section \<open>Hello and HelloOk\<close>

record ServiceRegistration =
  sr_name :: string
  sr_proto :: Proto
  sr_target :: string

definition service_reg_to_canonical :: "ServiceRegistration \<Rightarrow> Canonical" where
  "service_reg_to_canonical s =
     object [(''name'', Str (sr_name s)), (''proto'', Str (proto_as_str (sr_proto s))),
       (''target'', Str (sr_target s))]"

text \<open>The \<open>match\<close> on the spelling of a protocol, in \<open>Hello\<close> and in \<open>Open\<close>.\<close>

definition proto_parse :: "string \<Rightarrow> string \<Rightarrow> MessageError + Proto" where
  "proto_parse kind text =
     (if text = ''tcp'' then Inr Tcp
      else if text = ''udp'' then Inr Udp
      else Inl (UnknownValue kind ''proto'' text))"

definition service_reg_from_canonical :: "Canonical \<Rightarrow> MessageError + ServiceRegistration" where
  "service_reg_from_canonical value =
     rbind (string_field value ''proto'' ''Hello'') (\<lambda>text.
     rbind (proto_parse ''Hello'' text) (\<lambda>proto.
     rbind (string_field value ''name'' ''Hello'') (\<lambda>name.
     rbind (string_field value ''target'' ''Hello'') (\<lambda>target.
     Inr \<lparr>sr_name = name, sr_proto = proto, sr_target = target\<rparr>))))"

record HelloFields =
  hello_request_id :: bytes
  hello_services :: "ServiceRegistration list"
  hello_capabilities :: "string list"

definition hello_to_canonical :: "hex_crate \<Rightarrow> HelloFields \<Rightarrow> Canonical" where
  "hello_to_canonical h f =
     object [(''capabilities'', str_array (hello_capabilities f)),
       (''request_id'', Str (hex_enc h (hello_request_id f))),
       (''services'', Array (map service_reg_to_canonical (hello_services f)))]"

definition hello_from_canonical :: "hex_crate \<Rightarrow> Canonical \<Rightarrow> MessageError + HelloFields" where
  "hello_from_canonical h value =
     rbind (map_err (\<lambda>_. WrongFieldType ''Hello'' ''services'') (get_array value ''services'')) (\<lambda>items.
     rbind (collect_r service_reg_from_canonical items) (\<lambda>services.
     rbind (hex_field h 16 value ''request_id'' ''Hello'') (\<lambda>request_id.
     rbind (string_list value ''capabilities'' ''Hello'') (\<lambda>capabilities.
     Inr \<lparr>hello_request_id = request_id, hello_services = services, hello_capabilities = capabilities\<rparr>))))"

record HelloOkFields =
  hok_request_id :: bytes
  hok_capabilities :: "string list"

definition hello_ok_to_canonical :: "hex_crate \<Rightarrow> HelloOkFields \<Rightarrow> Canonical" where
  "hello_ok_to_canonical h f =
     object [(''capabilities'', str_array (hok_capabilities f)), (''request_id'', Str (hex_enc h (hok_request_id f)))]"

definition hello_ok_from_canonical :: "hex_crate \<Rightarrow> Canonical \<Rightarrow> MessageError + HelloOkFields" where
  "hello_ok_from_canonical h value =
     rbind (hex_field h 16 value ''request_id'' ''HelloOk'') (\<lambda>request_id.
     rbind (string_list value ''capabilities'' ''HelloOk'') (\<lambda>capabilities.
     Inr \<lparr>hok_request_id = request_id, hok_capabilities = capabilities\<rparr>))"

section \<open>Open and OpenResult\<close>

datatype OpenStatus = StatusOk | Refused | StatusDenied | Offline | Unreachable | Timeout | Conflict

primrec open_status_as_str :: "OpenStatus \<Rightarrow> string" where
  "open_status_as_str StatusOk = ''ok''"
| "open_status_as_str Refused = ''refused''"
| "open_status_as_str StatusDenied = ''denied''"
| "open_status_as_str Offline = ''offline''"
| "open_status_as_str Unreachable = ''unreachable''"
| "open_status_as_str Timeout = ''timeout''"
| "open_status_as_str Conflict = ''conflict''"

definition open_status_parse :: "string \<Rightarrow> OpenStatus option" where
  "open_status_parse value =
     (if value = ''ok'' then Some StatusOk
      else if value = ''refused'' then Some Refused
      else if value = ''denied'' then Some StatusDenied
      else if value = ''offline'' then Some Offline
      else if value = ''unreachable'' then Some Unreachable
      else if value = ''timeout'' then Some Timeout
      else if value = ''conflict'' then Some Conflict
      else None)"

record OpenFields =
  open_request_id :: bytes
  open_stream_id :: nat
  open_proto :: Proto
  open_destination :: Destination
  open_via :: "string list"

definition open_to_canonical :: "hex_crate \<Rightarrow> OpenFields \<Rightarrow> Canonical" where
  "open_to_canonical h f =
     object [(''destination'', dest_to_canonical (open_destination f)),
       (''proto'', Str (proto_as_str (open_proto f))),
       (''request_id'', Str (hex_enc h (open_request_id f))),
       (''stream_id'', u64_decimal (open_stream_id f)),
       (''via'', str_array (open_via f))]"

text \<open>The \<open>Display\<close> texts of \<open>DestinationError\<close>.\<close>

primrec dest_error_text :: "DestinationError \<Rightarrow> string" where
  "dest_error_text (NotASlug s) = CHR 0x60 # s @ CHR 0x60 # '' is not a normalised ASCII slug''"
| "dest_error_text ZeroPort = ''port 0 is not a valid target port''"
| "dest_error_text EmptyHost = ''target host must not be empty''"

definition open_from_canonical :: "hex_crate \<Rightarrow> Canonical \<Rightarrow> MessageError + OpenFields" where
  "open_from_canonical h value =
     rbind (string_field value ''proto'' ''Open'') (\<lambda>text.
     rbind (proto_parse ''Open'' text) (\<lambda>proto.
     rbind (rbind (map_err (\<lambda>_. MissingField ''Open'' ''destination'') (field value ''destination'')) (\<lambda>v.
            map_err (\<lambda>source. Nested ''Open'' ''destination'' (dest_error_text source)) (dest_from_canonical v)))
       (\<lambda>destination.
     rbind (hex_field h 16 value ''request_id'' ''Open'') (\<lambda>request_id.
     rbind (decimal_field value ''stream_id'' ''Open'') (\<lambda>stream_id.
     rbind (string_list value ''via'' ''Open'') (\<lambda>hops.
     Inr \<lparr>open_request_id = request_id, open_stream_id = stream_id, open_proto = proto,
          open_destination = destination, open_via = hops\<rparr>))))))"

definition operation_bytes :: "hex_crate \<Rightarrow> OpenFields \<Rightarrow> bytes" where
  "operation_bytes h f = to_bytes (open_to_canonical h f)"

record OpenResultFields =
  res_request_id :: bytes
  res_stream_id :: nat
  res_status :: OpenStatus
  res_detail :: string

definition open_result_to_canonical :: "hex_crate \<Rightarrow> OpenResultFields \<Rightarrow> Canonical" where
  "open_result_to_canonical h f =
     object [(''detail'', Str (res_detail f)), (''request_id'', Str (hex_enc h (res_request_id f))),
       (''status'', Str (open_status_as_str (res_status f))), (''stream_id'', u64_decimal (res_stream_id f))]"

text \<open>\<open>value.get_str(field).unwrap_or_default()\<close>\<close>

definition str_or_empty :: "Canonical \<Rightarrow> string \<Rightarrow> string" where
  "str_or_empty value fld = (case get_str value fld of Inr s \<Rightarrow> s | Inl _ \<Rightarrow> [])"

definition open_result_from_canonical :: "hex_crate \<Rightarrow> Canonical \<Rightarrow> MessageError + OpenResultFields" where
  "open_result_from_canonical h value =
     rbind (string_field value ''status'' ''OpenResult'') (\<lambda>text.
     rbind (ok_or (UnknownValue ''OpenResult'' ''status'' text) (open_status_parse text)) (\<lambda>status.
     rbind (hex_field h 16 value ''request_id'' ''OpenResult'') (\<lambda>request_id.
     rbind (decimal_field value ''stream_id'' ''OpenResult'') (\<lambda>stream_id.
     Inr \<lparr>res_request_id = request_id, res_stream_id = stream_id, res_status = status,
          res_detail = str_or_empty value ''detail''\<rparr>))))"

section \<open>Stream control\<close>

record DataFields =
  data_stream_id :: nat
  data_offset :: nat

definition data_to_canonical :: "DataFields \<Rightarrow> Canonical" where
  "data_to_canonical f =
     object [(''offset'', u64_decimal (data_offset f)), (''stream_id'', u64_decimal (data_stream_id f))]"

definition data_from_canonical :: "Canonical \<Rightarrow> MessageError + DataFields" where
  "data_from_canonical value =
     rbind (decimal_field value ''stream_id'' ''Data'') (\<lambda>stream_id.
     rbind (decimal_field value ''offset'' ''Data'') (\<lambda>offset.
     Inr \<lparr>data_stream_id = stream_id, data_offset = offset\<rparr>))"

record DatagramFields =
  dg_stream_id :: nat
  dg_association_id :: nat
  dg_datagram_id :: nat
  dg_host :: string
  dg_port :: nat
  dg_remaining_ttl_ms :: nat

definition datagram_to_canonical :: "DatagramFields \<Rightarrow> Canonical" where
  "datagram_to_canonical f =
     object [(''association_id'', u64_decimal (dg_association_id f)), (''datagram_id'', u64_decimal (dg_datagram_id f)),
       (''host'', Str (dg_host f)), (''port'', u64_decimal (dg_port f)),
       (''remaining_ttl_ms'', u64_decimal (dg_remaining_ttl_ms f)), (''stream_id'', u64_decimal (dg_stream_id f))]"

definition datagram_from_canonical :: "Canonical \<Rightarrow> MessageError + DatagramFields" where
  "datagram_from_canonical value =
     rbind (string_field value ''host'' ''Datagram'') (\<lambda>host.
     if host = [] then Inl (Nested ''Datagram'' ''host'' ''the host is empty'')
     else rbind (decimal_field value ''port'' ''Datagram'') (\<lambda>port.
     if port > u16_max then Inl (Nested ''Datagram'' ''port'' (''port '' @ dec port @ '' is out of range''))
     else if port = 0 then Inl (Nested ''Datagram'' ''port'' ''port 0 is not a datagram destination'')
     else
     rbind (decimal_field value ''stream_id'' ''Datagram'') (\<lambda>stream_id.
     rbind (decimal_field value ''association_id'' ''Datagram'') (\<lambda>association_id.
     rbind (decimal_field value ''datagram_id'' ''Datagram'') (\<lambda>datagram_id.
     rbind (decimal_field value ''remaining_ttl_ms'' ''Datagram'') (\<lambda>remaining_ttl_ms.
     Inr \<lparr>dg_stream_id = stream_id, dg_association_id = association_id, dg_datagram_id = datagram_id,
          dg_host = host, dg_port = port, dg_remaining_ttl_ms = remaining_ttl_ms\<rparr>))))))"

record FinFields =
  fin_stream_id :: nat
  fin_final_offset :: nat

definition fin_to_canonical :: "FinFields \<Rightarrow> Canonical" where
  "fin_to_canonical f =
     object [(''final_offset'', u64_decimal (fin_final_offset f)), (''stream_id'', u64_decimal (fin_stream_id f))]"

definition fin_from_canonical :: "Canonical \<Rightarrow> MessageError + FinFields" where
  "fin_from_canonical value =
     rbind (decimal_field value ''stream_id'' ''Fin'') (\<lambda>stream_id.
     rbind (decimal_field value ''final_offset'' ''Fin'') (\<lambda>final_offset.
     Inr \<lparr>fin_stream_id = stream_id, fin_final_offset = final_offset\<rparr>))"

datatype ResetReason = ProtocolError | ResetTimeout | Canceled | Overflow | ResetUnreachable

primrec reset_reason_as_str :: "ResetReason \<Rightarrow> string" where
  "reset_reason_as_str ProtocolError = ''protocol_error''"
| "reset_reason_as_str ResetTimeout = ''timeout''"
| "reset_reason_as_str Canceled = ''canceled''"
| "reset_reason_as_str Overflow = ''overflow''"
| "reset_reason_as_str ResetUnreachable = ''unreachable''"

definition reset_reason_parse :: "string \<Rightarrow> ResetReason option" where
  "reset_reason_parse value =
     (if value = ''protocol_error'' then Some ProtocolError
      else if value = ''timeout'' then Some ResetTimeout
      else if value = ''canceled'' then Some Canceled
      else if value = ''overflow'' then Some Overflow
      else if value = ''unreachable'' then Some ResetUnreachable
      else None)"

record ResetFields =
  reset_stream_id :: nat
  reset_reason :: ResetReason

definition reset_to_canonical :: "ResetFields \<Rightarrow> Canonical" where
  "reset_to_canonical f =
     object [(''reason'', Str (reset_reason_as_str (reset_reason f))), (''stream_id'', u64_decimal (reset_stream_id f))]"

definition reset_from_canonical :: "Canonical \<Rightarrow> MessageError + ResetFields" where
  "reset_from_canonical value =
     rbind (string_field value ''reason'' ''Reset'') (\<lambda>text.
     rbind (ok_or (UnknownValue ''Reset'' ''reason'' text) (reset_reason_parse text)) (\<lambda>reason.
     rbind (decimal_field value ''stream_id'' ''Reset'') (\<lambda>stream_id.
     Inr \<lparr>reset_stream_id = stream_id, reset_reason = reason\<rparr>)))"

record ReadyFields =
  ready_stream_id :: nat

definition ready_to_canonical :: "ReadyFields \<Rightarrow> Canonical" where
  "ready_to_canonical f =
     object [(''stream_id'', u64_decimal (ready_stream_id f))]"

definition ready_from_canonical :: "Canonical \<Rightarrow> MessageError + ReadyFields" where
  "ready_from_canonical value =
     rbind (decimal_field value ''stream_id'' ''Ready'') (\<lambda>stream_id.
     Inr \<lparr>ready_stream_id = stream_id\<rparr>)"

record ProgressFields =
  prog_stream_id :: nat
  prog_received_offset :: nat
  prog_consumed_offset :: nat
  prog_limit_offset :: nat

definition progress_to_canonical :: "ProgressFields \<Rightarrow> Canonical" where
  "progress_to_canonical f =
     object [(''consumed_offset'', u64_decimal (prog_consumed_offset f)), (''limit_offset'', u64_decimal (prog_limit_offset f)), (''received_offset'', u64_decimal (prog_received_offset f)), (''stream_id'', u64_decimal (prog_stream_id f))]"

definition progress_from_canonical :: "Canonical \<Rightarrow> MessageError + ProgressFields" where
  "progress_from_canonical value =
     rbind (decimal_field value ''stream_id'' ''Progress'') (\<lambda>stream_id.
     rbind (decimal_field value ''received_offset'' ''Progress'') (\<lambda>received_offset.
     rbind (decimal_field value ''consumed_offset'' ''Progress'') (\<lambda>consumed_offset.
     rbind (decimal_field value ''limit_offset'' ''Progress'') (\<lambda>limit_offset.
     Inr \<lparr>prog_stream_id = stream_id, prog_received_offset = received_offset, prog_consumed_offset = consumed_offset, prog_limit_offset = limit_offset\<rparr>))))"

record ResumeFields =
  resume_stream_id :: nat
  resume_received_offset :: nat

definition resume_to_canonical :: "ResumeFields \<Rightarrow> Canonical" where
  "resume_to_canonical f =
     object [(''received_offset'', u64_decimal (resume_received_offset f)), (''stream_id'', u64_decimal (resume_stream_id f))]"

definition resume_from_canonical :: "Canonical \<Rightarrow> MessageError + ResumeFields" where
  "resume_from_canonical value =
     rbind (decimal_field value ''stream_id'' ''Resume'') (\<lambda>stream_id.
     rbind (decimal_field value ''received_offset'' ''Resume'') (\<lambda>received_offset.
     Inr \<lparr>resume_stream_id = stream_id, resume_received_offset = received_offset\<rparr>))"

section \<open>Session control\<close>

record CancelCandidateFields =
  cancel_attempt_id :: bytes

definition cancel_to_canonical :: "hex_crate \<Rightarrow> CancelCandidateFields \<Rightarrow> Canonical" where
  "cancel_to_canonical h f = object [(''attempt_id'', Str (hex_enc h (cancel_attempt_id f)))]"

definition cancel_from_canonical :: "hex_crate \<Rightarrow> Canonical \<Rightarrow> MessageError + CancelCandidateFields" where
  "cancel_from_canonical h value =
     rbind (hex_field h 16 value ''attempt_id'' ''CancelCandidate'') (\<lambda>attempt_id.
     Inr \<lparr>cancel_attempt_id = attempt_id\<rparr>)"

record ByeFields =
  bye_reason :: string

definition bye_to_canonical :: "ByeFields \<Rightarrow> Canonical" where
  "bye_to_canonical f = object [(''reason'', Str (bye_reason f))]"

definition bye_from_canonical :: "Canonical \<Rightarrow> MessageError + ByeFields" where
  "bye_from_canonical value = Inr \<lparr>bye_reason = str_or_empty value ''reason''\<rparr>"

definition BYE_NORMAL :: string where "BYE_NORMAL = ''normal''"

definition empty_metadata :: Canonical where "empty_metadata = empty_object"

definition SUPPORTED_CAPABILITIES :: "string list" where
  "SUPPORTED_CAPABILITIES =
     [''carrier.ws'', ''carrier.post'', ''carrier.sse'', ''profile.json'', ''profile.html'', ''flow.credit'']"

definition REQUIRED_CAPABILITIES :: "string list" where
  "REQUIRED_CAPABILITIES = [''flow.credit'']"

fun require_all :: "string list \<Rightarrow> string list \<Rightarrow> MessageError + unit" where
  "require_all peer [] = Inr ()"
| "require_all peer (required # rest) =
     (if \<not> list_ex (\<lambda>c. c = required) peer then Inl (UnsupportedCapability required) else require_all peer rest)"

definition negotiate_capabilities :: "string list \<Rightarrow> MessageError + string list" where
  "negotiate_capabilities peer =
     rbind (require_all peer REQUIRED_CAPABILITIES) (\<lambda>_.
     Inr (filter (\<lambda>c. c \<in> set SUPPORTED_CAPABILITIES) peer))"

end
