(* ===== verification/Codec.thy ===== *)
theory Codec
  imports Message
begin

text \<open>
  The contract of a metadata codec, and that every message kind of \<open>message.rs\<close> meets it: what the
  reader makes of what the writer wrote, as values and as bytes on the wire.
\<close>

locale metadata_codec =
  fixes enc :: "'m \<Rightarrow> Canonical"
    and dec :: "Canonical \<Rightarrow> 'e + 'm"
    and ok :: "'m \<Rightarrow> bool"
  assumes dec_enc: "ok x \<Longrightarrow> dec (enc x) = Inr x"
    and enc_ok: "ok x \<Longrightarrow> deep_ok 0 (enc x)"
begin

lemma wire_roundtrip:
  "ok x \<Longrightarrow> length (to_bytes (enc x)) \<le> MAX_METADATA \<Longrightarrow>
   \<exists>v. from_bytes (to_bytes (enc x)) = Inr v \<and> dec v = Inr x"
  unfolding from_bytes_def by (metis dec_enc enc_ok from_bytes_bounded_write)

lemma enc_injective: "ok x \<Longrightarrow> ok y \<Longrightarrow> enc x = enc y \<Longrightarrow> x = y"
  by (metis dec_enc sum.inject(2))

lemma bytes_injective: "ok x \<Longrightarrow> ok y \<Longrightarrow> to_bytes (enc x) = to_bytes (enc y) \<Longrightarrow> x = y"
  by (metis enc_injective enc_ok to_bytes_inj)

end

section \<open>What the types guarantee\<close>

abbreviation u64 :: "nat \<Rightarrow> bool" where "u64 n \<equiv> n \<le> u64_max"

definition auth_typed :: "AuthFields \<times> bytes \<Rightarrow> bool" where
  "auth_typed = (\<lambda>(f, mac). is_str (auth_hub_id f) \<and> is_str (auth_key_id f) \<and> is_str (auth_node_id f)
     \<and> length (auth_attempt_id f) = 16 \<and> i64_range (auth_ts f) \<and> length (auth_nonce f) = 32
     \<and> list_all is_str (auth_capabilities f) \<and> length mac = 32)"

definition auth_ok_typed :: "AuthOkFields \<times> bytes \<Rightarrow> bool" where
  "auth_ok_typed = (\<lambda>(f, mac). length (aok_session_id f) = 16 \<and> length (aok_session_epoch f) = 16
     \<and> length (aok_attempt_id f) = 16 \<and> length (aok_server_nonce f) = 32 \<and> i64_range (aok_expires_at f)
     \<and> list_all is_str (aok_capabilities f) \<and> length mac = 32)"

definition hello_typed :: "HelloFields \<Rightarrow> bool" where
  "hello_typed f \<longleftrightarrow> length (hello_request_id f) = 16 \<and> list_all is_str (hello_capabilities f)
     \<and> list_all (\<lambda>s. is_str (sr_name s) \<and> is_str (sr_target s)) (hello_services f)"

definition hello_ok_typed :: "HelloOkFields \<Rightarrow> bool" where
  "hello_ok_typed f \<longleftrightarrow> length (hok_request_id f) = 16 \<and> list_all is_str (hok_capabilities f)"

definition open_typed :: "OpenFields \<Rightarrow> bool" where
  "open_typed f \<longleftrightarrow> length (open_request_id f) = 16 \<and> u64 (open_stream_id f)
     \<and> dest_typed (open_destination f) \<and> list_all is_str (open_via f)"

definition open_result_typed :: "OpenResultFields \<Rightarrow> bool" where
  "open_result_typed f \<longleftrightarrow> length (res_request_id f) = 16 \<and> u64 (res_stream_id f) \<and> is_str (res_detail f)"

definition data_typed :: "DataFields \<Rightarrow> bool" where
  "data_typed f \<longleftrightarrow> u64 (data_stream_id f) \<and> u64 (data_offset f)"

definition datagram_typed :: "DatagramFields \<Rightarrow> bool" where
  "datagram_typed f \<longleftrightarrow> u64 (dg_stream_id f) \<and> u64 (dg_association_id f) \<and> u64 (dg_datagram_id f)
     \<and> is_str (dg_host f) \<and> dg_port f \<le> u16_max \<and> u64 (dg_remaining_ttl_ms f)"

definition fin_typed :: "FinFields \<Rightarrow> bool" where
  "fin_typed f \<longleftrightarrow> u64 (fin_stream_id f) \<and> u64 (fin_final_offset f)"

definition reset_typed :: "ResetFields \<Rightarrow> bool" where
  "reset_typed f \<longleftrightarrow> u64 (reset_stream_id f)"

definition ready_typed :: "ReadyFields \<Rightarrow> bool" where
  "ready_typed f \<longleftrightarrow> u64 (ready_stream_id f)"

definition progress_typed :: "ProgressFields \<Rightarrow> bool" where
  "progress_typed f \<longleftrightarrow> u64 (prog_stream_id f) \<and> u64 (prog_received_offset f) \<and> u64 (prog_consumed_offset f)
     \<and> u64 (prog_limit_offset f)"

definition resume_typed :: "ResumeFields \<Rightarrow> bool" where
  "resume_typed f \<longleftrightarrow> u64 (resume_stream_id f) \<and> u64 (resume_received_offset f)"

section \<open>Writers and readers fit\<close>

lemma ascii_hex: "hex_laws h \<Longrightarrow> ascii (hex_enc h b)"
proof -
  assume "hex_laws h"
  then have "set (hex_enc h b) \<subseteq> set ''0123456789abcdef''" by (simp add: hex_laws_def)
  moreover have "ascii ''0123456789abcdef''" by simp
  ultimately show ?thesis unfolding ascii_def by blast
qed

lemma is_str_hex [simp]: "hex_laws h \<Longrightarrow> is_str (hex_enc h b)"
  by (simp add: ascii_hex)

lemma hex_dec_enc [simp]: "hex_laws h \<Longrightarrow> hex_dec h (hex_enc h b) = Some b"
  by (simp add: hex_laws_def)

lemma collect_str [simp]: "collect_r (\<lambda>item. case item of Str s \<Rightarrow> Inr s | _ \<Rightarrow> Inl e) (map Str xs) = Inr xs"
  by (induction xs) auto

lemma str_array_ok [simp]: "d < MAX_CANON_DEPTH \<Longrightarrow> deep_ok d (str_array xs) \<longleftrightarrow> list_all is_str xs"
  by (auto simp: str_array_def deep_ok_Array list_all_iff)

lemmas str_array_ok' [simp] = str_array_ok [unfolded str_array_def]

lemma insert_mac_object: "insert_mac h (object kvs) mac = object (kvs @ [(''mac'', Str (hex_enc h mac))])"
  by (simp add: insert_mac_def object_def bt_of_list_def)

lemma proto_parse_as_str [simp]: "proto_parse k (proto_as_str p) = Inr p"
  by (cases p) (simp_all add: proto_parse_def)

lemma ascii_proto [simp]: "ascii (proto_as_str p)"
  by (cases p) simp_all

lemma open_status_parse_as_str [simp]: "open_status_parse (open_status_as_str s) = Some s"
  by (cases s) (simp_all add: open_status_parse_def)

lemma ascii_open_status [simp]: "ascii (open_status_as_str s)"
  by (cases s) simp_all

lemma reset_reason_parse_as_str [simp]: "reset_reason_parse (reset_reason_as_str s) = Some s"
  by (cases s) (simp_all add: reset_reason_parse_def)

lemma ascii_reset_reason [simp]: "ascii (reset_reason_as_str s)"
  by (cases s) simp_all

lemma service_reg_dec_enc: "service_reg_from_canonical (service_reg_to_canonical s) = Inr s"
  by (simp add: service_reg_from_canonical_def service_reg_to_canonical_def field_defs field_readers)

lemma service_reg_ok: "is_str (sr_name s) \<Longrightarrow> is_str (sr_target s) \<Longrightarrow> d < MAX_CANON_DEPTH \<Longrightarrow> deep_ok d (service_reg_to_canonical s)"
  unfolding service_reg_to_canonical_def by (rule deep_ok_object) simp_all

lemma max_depth_pos [simp]: "0 < MAX_CANON_DEPTH" "Suc 0 \<le> MAX_CANON_DEPTH" "Suc 0 < MAX_CANON_DEPTH" "Suc (Suc 0) < MAX_CANON_DEPTH"
  "Suc (Suc 0) \<le> MAX_CANON_DEPTH"
  by (simp_all add: MAX_CANON_DEPTH_def)

interpretation data: metadata_codec data_to_canonical data_from_canonical data_typed
  by unfold_locales
    (auto simp: data_to_canonical_def data_from_canonical_def data_typed_def field_defs field_readers intro!: deep_ok_object)

interpretation fin: metadata_codec fin_to_canonical fin_from_canonical fin_typed
  by unfold_locales
    (auto simp: fin_to_canonical_def fin_from_canonical_def fin_typed_def field_defs field_readers intro!: deep_ok_object)

interpretation reset: metadata_codec reset_to_canonical reset_from_canonical reset_typed
  by unfold_locales
    (auto simp: reset_to_canonical_def reset_from_canonical_def reset_typed_def field_defs field_readers intro!: deep_ok_object)

interpretation ready: metadata_codec ready_to_canonical ready_from_canonical ready_typed
  by unfold_locales
    (auto simp: ready_to_canonical_def ready_from_canonical_def ready_typed_def field_defs field_readers intro!: deep_ok_object)

interpretation progress: metadata_codec progress_to_canonical progress_from_canonical progress_typed
  by unfold_locales
    (auto simp: progress_to_canonical_def progress_from_canonical_def progress_typed_def field_defs field_readers
      intro!: deep_ok_object)

interpretation resume: metadata_codec resume_to_canonical resume_from_canonical resume_typed
  by unfold_locales
    (auto simp: resume_to_canonical_def resume_from_canonical_def resume_typed_def field_defs field_readers
      intro!: deep_ok_object)

interpretation datagram: metadata_codec datagram_to_canonical datagram_from_canonical
  "\<lambda>f. datagram_typed f \<and> dg_host f \<noteq> [] \<and> dg_port f \<noteq> 0"
  by unfold_locales
    (auto simp: datagram_to_canonical_def datagram_from_canonical_def datagram_typed_def field_defs field_readers
      int_range_defs intro!: deep_ok_object)

interpretation bye: metadata_codec bye_to_canonical bye_from_canonical "\<lambda>f. is_str (bye_reason f)"
  by unfold_locales
    (auto simp: bye_to_canonical_def bye_from_canonical_def str_or_empty_def field_readers intro!: deep_ok_object)

interpretation cancel: metadata_codec "cancel_to_canonical h" "cancel_from_canonical h"
  "\<lambda>f. hex_laws h \<and> length (cancel_attempt_id f) = 16" for h
  by unfold_locales
    (auto simp: cancel_to_canonical_def cancel_from_canonical_def field_defs field_readers intro!: deep_ok_object)

interpretation hello_ok: metadata_codec "hello_ok_to_canonical h" "hello_ok_from_canonical h"
  "\<lambda>f. hex_laws h \<and> hello_ok_typed f" for h
  by unfold_locales
    (auto simp: hello_ok_to_canonical_def hello_ok_from_canonical_def hello_ok_typed_def field_defs field_readers
      intro!: deep_ok_object)

interpretation open_result: metadata_codec "open_result_to_canonical h" "open_result_from_canonical h"
  "\<lambda>f. hex_laws h \<and> open_result_typed f" for h
  by unfold_locales
    (auto simp: open_result_to_canonical_def open_result_from_canonical_def open_result_typed_def str_or_empty_def
      field_defs field_readers intro!: deep_ok_object)

interpretation open_msg: metadata_codec "open_to_canonical h" "open_from_canonical h"
  "\<lambda>f. hex_laws h \<and> open_typed f \<and> dest_validate (open_destination f) = Inr ()" for h
  by unfold_locales
    (auto simp: open_to_canonical_def open_from_canonical_def open_typed_def dest_from_to_canonical field_defs
      field_readers intro!: deep_ok_object dest_to_canonical_ok)

lemma collect_service_regs: "collect_r service_reg_from_canonical (map service_reg_to_canonical ss) = Inr ss"
  by (induction ss) (simp_all add: service_reg_dec_enc)

interpretation hello: metadata_codec "hello_to_canonical h" "hello_from_canonical h"
  "\<lambda>f. hex_laws h \<and> hello_typed f" for h
  by unfold_locales
    (auto simp: hello_to_canonical_def hello_from_canonical_def hello_typed_def collect_service_regs field_defs
      field_readers deep_ok_Array list_all_iff intro!: deep_ok_object service_reg_ok)

lemma u64_as_i64_nat: "i64_range i \<Longrightarrow> 0 \<le> i \<Longrightarrow> u64_as_i64 (nat i) = i"
  by (simp add: u64_as_i64_def i64_range_def int_range_defs)

lemma nat_i64_u64: "i64_range i \<Longrightarrow> nat i \<le> u64_max"
  by (auto simp: i64_range_def int_range_defs nat_le_iff)

interpretation auth_ok: metadata_codec "auth_ok_to_canonical h" "auth_ok_from_canonical h"
  "\<lambda>m. hex_laws h \<and> auth_ok_typed m \<and> 0 \<le> aok_expires_at (fst m)" for h
  by unfold_locales
    (auto simp: auth_ok_to_canonical_def auth_ok_from_canonical_def auth_ok_typed_def auth_ok_signing_canonical_def
      auth_ok_entries_def insert_mac_object u64_as_i64_nat nat_i64_u64 field_defs field_readers intro!: deep_ok_object)

lemma version_i64 [simp]: "i64_range (uint (v :: u8))"
proof -
  have "0 \<le> uint v" "uint v < 256" using unsigned_less [of v, where 'a = int] by simp_all
  then show ?thesis unfolding i64_range_def int_range_defs by linarith
qed

interpretation auth: metadata_codec "auth_to_canonical h" "auth_from_canonical h"
  "\<lambda>m. hex_laws h \<and> auth_typed m \<and> 0 \<le> auth_ts (fst m)" for h
  by unfold_locales
    (auto simp: auth_to_canonical_def auth_from_canonical_def auth_typed_def auth_signing_canonical_def
      auth_entries_def insert_mac_object u64_as_i64_nat nat_i64_u64 field_defs field_readers intro!: deep_ok_object)

section \<open>A concrete hex crate\<close>

text \<open>Lowercase hexadecimal, two digits a byte: an instance of the laws.\<close>

definition nibble_char :: "nat \<Rightarrow> char" where
  "nibble_char d = (if d < 10 then char_of (48 + d) else char_of (87 + d))"

fun lower_hex_dec :: "string \<Rightarrow> bytes option" where
  "lower_hex_dec [] = Some []"
| "lower_hex_dec [c] = None"
| "lower_hex_dec (c # c' # s) =
     (case (to_digit 16 c, to_digit 16 c', lower_hex_dec s) of
        (Some a, Some b, Some bs) \<Rightarrow> Some (word_of_nat (a * 16 + b) # bs)
      | _ \<Rightarrow> None)"

definition lower_hex :: hex_crate where
  "lower_hex = \<lparr>hex_enc = (\<lambda>bs. concat (map (\<lambda>b. [nibble_char (unat b div 16), nibble_char (unat b mod 16)]) bs)),
     hex_dec = lower_hex_dec\<rparr>"

lemma of_char_of_small: "n < 256 \<Longrightarrow> (of_char (char_of n :: char) :: nat) = n"
  by simp

lemma to_digit_nibble: "d < 16 \<Longrightarrow> to_digit 16 (nibble_char d) = Some d"
  by (auto simp: to_digit_def nibble_char_def Let_def of_char_of_small)

lemma lower_hex_laws: "hex_laws lower_hex"
proof -
  let ?e = "\<lambda>bs :: bytes. concat (map (\<lambda>b. [nibble_char (unat b div 16), nibble_char (unat b mod 16)]) bs)"
  have "lower_hex_dec (?e bs) = Some bs" for bs
  proof (induction bs)
    case (Cons b bs)
    have "unat b div 16 < 16" using unat_u8_bound [of b] by simp
    with Cons show ?case by (simp add: to_digit_nibble)
  qed simp
  moreover have "set (?e bs) \<subseteq> set ''0123456789abcdef''" for bs
  proof -
    have "list_all (\<lambda>d. nibble_char d \<in> set ''0123456789abcdef'') [0..<16]" by code_simp
    then have all: "\<forall>d \<in> {0..<16}. nibble_char d \<in> set ''0123456789abcdef''"
      unfolding list_all_iff set_upt .
    have "nibble_char d \<in> set ''0123456789abcdef''" if "d < 16" for d
      using all that by (meson atLeastLessThan_iff zero_le)
    moreover have "set (?e bs) \<subseteq> S" if "\<And>d. d < 16 \<Longrightarrow> nibble_char d \<in> S" for S
    proof -
      have "nibble_char (unat b div 16) \<in> S" "nibble_char (unat b mod 16) \<in> S" for b :: u8
        using unat_u8_bound [of b] by (auto intro!: that)
      then show ?thesis by auto
    qed
    ultimately show ?thesis by blast
  qed
  ultimately show ?thesis by (simp add: hex_laws_def lower_hex_def)
qed

section \<open>Capabilities\<close>

lemma require_all_iff:
  "require_all peer req = Inr () \<longleftrightarrow> set req \<subseteq> set peer"
  by (induction req) (auto simp: list_ex_iff)

lemma negotiate_ok:
  "negotiate_capabilities peer = Inr cs \<longleftrightarrow>
   ''flow.credit'' \<in> set peer \<and> cs = filter (\<lambda>c. c \<in> set SUPPORTED_CAPABILITIES) peer"
  by (auto simp: negotiate_capabilities_def REQUIRED_CAPABILITIES_def list_ex_iff)

section \<open>Properties\<close>

text \<open>An \<open>Open\<close> survives the wire: its metadata, encoded to canonical bytes within the metadata bound,
  decodes to a value from which the peer reads the same request, stream, protocol, destination and hops.\<close>

theorem open_wire_roundtrip:
  assumes "hex_laws h" "open_typed f" "dest_validate (open_destination f) = Inr ()"
    and "length (operation_bytes h f) \<le> MAX_METADATA"
  shows "\<exists>v. from_bytes (operation_bytes h f) = Inr v \<and> open_from_canonical h v = Inr f"
  unfolding operation_bytes_def
  by (rule open_msg.wire_roundtrip) (use assms in \<open>simp_all add: operation_bytes_def\<close>)

definition sample_id :: bytes where
  "sample_id = [1, 2, 3, 4, 5, 6, 7, 8, 9, 10, 11, 12, 13, 14, 15, 16]"

definition sample_open :: OpenFields where
  "sample_open = \<lparr>open_request_id = sample_id, open_stream_id = 7, open_proto = Tcp,
     open_destination = Address ''h'' 443, open_via = [''a'']\<rparr>"

lemma sample_open_ok: "open_typed sample_open" "dest_validate (open_destination sample_open) = Inr ()"
  by (simp_all add: sample_open_def sample_id_def open_typed_def int_range_defs)

theorem open_wire_roundtrip_witness:
  "\<exists>v. from_bytes (operation_bytes lower_hex sample_open) = Inr v \<and> open_from_canonical lower_hex v = Inr sample_open"
proof (rule open_wire_roundtrip [OF lower_hex_laws sample_open_ok])
  show "length (operation_bytes lower_hex sample_open) \<le> MAX_METADATA"
    by (simp add: operation_bytes_def open_to_canonical_def sample_open_def str_array_def to_bytes_def object_def
        bt_of_list_def write_json_string_def chars_ascii write_char_def encode_ascii u64_decimal_def dec.simps
        digit_char_def int_to_string_def limit_defs lower_hex_def sample_id_def nibble_char_def)
qed

text \<open>The idempotency key covers the whole \<open>Open\<close>: two requests with the same operation bytes are equal
  in request id, stream, protocol, destination and hops.\<close>

theorem operation_bytes_identify_open:
  assumes "hex_laws h" "open_typed f" "open_typed g"
    and "dest_validate (open_destination f) = Inr ()" "dest_validate (open_destination g) = Inr ()"
  shows "operation_bytes h f = operation_bytes h g \<longleftrightarrow> f = g"
  using open_msg.bytes_injective [of h f g] assms by (auto simp: operation_bytes_def)

theorem operation_bytes_identify_open_witness:
  "operation_bytes lower_hex sample_open \<noteq> operation_bytes lower_hex (sample_open\<lparr>open_via := []\<rparr>)"
proof -
  have "open_typed (sample_open\<lparr>open_via := []\<rparr>)"
      "dest_validate (open_destination (sample_open\<lparr>open_via := []\<rparr>)) = Inr ()"
    using sample_open_ok by (simp_all add: open_typed_def)
  with operation_bytes_identify_open [OF lower_hex_laws sample_open_ok(1) _ sample_open_ok(2), of "sample_open\<lparr>open_via := []\<rparr>"]
  show ?thesis by (simp add: sample_open_def)
qed

text \<open>The transcript half of an Auth identifies it: two Auth messages of times at or after the epoch with the
  same signing canonical bytes agree in version, hub, key, node, attempt, time, nonce and capabilities.\<close>

theorem auth_transcript_identifies_fields:
  assumes "hex_laws h" "auth_typed (f, mac)" "auth_typed (g, mac)" "0 \<le> auth_ts f" "0 \<le> auth_ts g"
    and "to_bytes (auth_signing_canonical h f) = to_bytes (auth_signing_canonical h g)"
  shows "f = g"
proof -
  have ok: "deep_ok 0 (auth_signing_canonical h x)" if "auth_typed (x, mac)" for x
    using that assms(1) unfolding auth_signing_canonical_def auth_entries_def
    by (intro deep_ok_object) (auto simp: auth_typed_def)
  have "auth_signing_canonical h f = auth_signing_canonical h g"
    using assms ok by (intro to_bytes_inj) simp_all
  then have "auth_to_canonical h (f, mac) = auth_to_canonical h (g, mac)" by (simp add: auth_to_canonical_def)
  then have "(f, mac) = (g, mac)" using assms by (intro auth.enc_injective [of h]) simp_all
  then show ?thesis by simp
qed

theorem auth_transcript_identifies_fields_witness:
  "to_bytes (auth_signing_canonical lower_hex
      \<lparr>auth_version = 1, auth_hub_id = ''h'', auth_key_id = ''k'', auth_node_id = ''n'', auth_attempt_id = sample_id,
       auth_ts = 5, auth_nonce = sample_id @ sample_id, auth_capabilities = []\<rparr>)
   \<noteq> to_bytes (auth_signing_canonical lower_hex
      \<lparr>auth_version = 1, auth_hub_id = ''h'', auth_key_id = ''k'', auth_node_id = ''n'', auth_attempt_id = sample_id,
       auth_ts = 6, auth_nonce = sample_id @ sample_id, auth_capabilities = []\<rparr>)"
  (is "to_bytes (auth_signing_canonical lower_hex ?f) \<noteq> to_bytes (auth_signing_canonical lower_hex ?g)")
proof
  assume same: "to_bytes (auth_signing_canonical lower_hex ?f) = to_bytes (auth_signing_canonical lower_hex ?g)"
  have ty: "auth_typed (?f, sample_id @ sample_id)" "auth_typed (?g, sample_id @ sample_id)"
    by (simp_all add: auth_typed_def sample_id_def i64_range_def int_range_defs)
  have "?f = ?g" by (rule auth_transcript_identifies_fields [OF lower_hex_laws ty _ _ same]) simp_all
  then show False by simp
qed

text \<open>Every stream-control message is read back as it was written: \<open>Data\<close>, \<open>Datagram\<close>, \<open>Fin\<close>, \<open>Reset\<close>,
  \<open>Ready\<close>, \<open>Progress\<close> and \<open>Resume\<close>, with every offset and id up to the largest 64-bit value.\<close>

theorem stream_messages_roundtrip:
  "(data_typed d \<longrightarrow> data_from_canonical (data_to_canonical d) = Inr d)
   \<and> (datagram_typed g \<and> dg_host g \<noteq> [] \<and> dg_port g \<noteq> 0
       \<longrightarrow> datagram_from_canonical (datagram_to_canonical g) = Inr g)
   \<and> (fin_typed f \<longrightarrow> fin_from_canonical (fin_to_canonical f) = Inr f)
   \<and> (reset_typed r \<longrightarrow> reset_from_canonical (reset_to_canonical r) = Inr r)
   \<and> (ready_typed y \<longrightarrow> ready_from_canonical (ready_to_canonical y) = Inr y)
   \<and> (progress_typed p \<longrightarrow> progress_from_canonical (progress_to_canonical p) = Inr p)
   \<and> (resume_typed u \<longrightarrow> resume_from_canonical (resume_to_canonical u) = Inr u)"
  by (simp add: data.dec_enc datagram.dec_enc fin.dec_enc reset.dec_enc ready.dec_enc progress.dec_enc
      resume.dec_enc)

theorem stream_messages_roundtrip_witness:
  "progress_from_canonical (progress_to_canonical
     \<lparr>prog_stream_id = 1, prog_received_offset = 18446744073709551615, prog_consumed_offset = 2, prog_limit_offset = 3\<rparr>)
   = Inr \<lparr>prog_stream_id = 1, prog_received_offset = 18446744073709551615, prog_consumed_offset = 2, prog_limit_offset = 3\<rparr>"
  using stream_messages_roundtrip
    [of _ _ _ _ _ "\<lparr>prog_stream_id = 1, prog_received_offset = 18446744073709551615, prog_consumed_offset = 2, prog_limit_offset = 3\<rparr>"]
  by (simp add: progress_typed_def u64_max_def)

end
