(* ===== verification/Handshake.thy ===== *)
theory Handshake
  imports Codec Crypto
begin

text \<open>
  \<open>crates/wsnet-session/src/handshake.rs\<close>: the MAC inputs of \<open>Auth\<close> and \<open>AuthOk\<close>, their verification and
  the derivation of the session keys. HMAC, SHA-256 and HKDF are fields of \<open>crypto_crate\<close>; the only law
  used of them is that a tag has 32 bytes. The four \<open>fresh_\<close> functions read the operating system's
  random source and are not modelled.
\<close>

section \<open>Operations\<close>

datatype HandshakeError = MessageErr MessageError | BadMac | AttemptMismatch | HubMismatch

definition push_all :: "string list \<Rightarrow> SignedFields \<Rightarrow> SignedFields" where
  "push_all caps flds = foldl (\<lambda>flds capability. push_str capability flds) flds caps"

definition auth_signing_fields :: "AuthFields \<Rightarrow> SignedFields" where
  "auth_signing_fields auth =
     (let b = push_str ''attempt_id'' [];
          b = push_bytes (auth_attempt_id auth) b;
          b = push_str ''capabilities'' b;
          b = push_u32 (length (auth_capabilities auth) mod 4294967296) b;
          b = push_all (auth_capabilities auth) b;
          b = push_str ''hub_id'' b;
          b = push_str (auth_hub_id auth) b;
          b = push_str ''key_id'' b;
          b = push_str (auth_key_id auth) b;
          b = push_str ''node_id'' b;
          b = push_str (auth_node_id auth) b;
          b = push_str ''nonce'' b;
          b = push_bytes (auth_nonce auth) b;
          b = push_str ''ts'' b;
          b = push_u64 (nat (max (auth_ts auth) 0)) b;
          b = push_str ''version'' b
      in push_u8 (auth_version auth) b)"

definition authok_signing_fields :: "bytes \<Rightarrow> AuthOkFields \<Rightarrow> SignedFields" where
  "authok_signing_fields amac authok =
     (let b = push_str ''auth_mac'' [];
          b = push_bytes amac b;
          b = push_str ''attempt_id'' b;
          b = push_bytes (aok_attempt_id authok) b;
          b = push_str ''capabilities'' b;
          b = push_u32 (length (aok_capabilities authok) mod 4294967296) b;
          b = push_all (aok_capabilities authok) b;
          b = push_str ''expires_at'' b;
          b = push_u64 (nat (max (aok_expires_at authok) 0)) b;
          b = push_str ''server_nonce'' b;
          b = push_bytes (aok_server_nonce authok) b;
          b = push_str ''session_epoch'' b;
          b = push_bytes (aok_session_epoch authok) b;
          b = push_str ''session_id'' b
      in push_bytes (aok_session_id authok) b)"

definition auth_mac :: "crypto_crate \<Rightarrow> Psk \<Rightarrow> AuthFields \<Rightarrow> bytes" where
  "auth_mac cr psk auth = mac cr psk (auth_signing_fields auth)"

definition verify_auth :: "crypto_crate \<Rightarrow> hex_crate \<Rightarrow> Psk \<Rightarrow> Canonical \<Rightarrow> HandshakeError + AuthFields" where
  "verify_auth cr h psk value =
     rbind (map_err MessageErr (auth_from_canonical h value)) (\<lambda>(flds, presented).
     if \<not> verify_psk_mac cr psk (auth_signing_fields flds) presented then Inl BadMac else Inr flds)"

definition authok_mac :: "crypto_crate \<Rightarrow> Psk \<Rightarrow> bytes \<Rightarrow> AuthOkFields \<Rightarrow> bytes" where
  "authok_mac cr psk amac authok = mac cr psk (authok_signing_fields amac authok)"

definition verify_authok ::
    "crypto_crate \<Rightarrow> hex_crate \<Rightarrow> Psk \<Rightarrow> bytes \<Rightarrow> bytes \<Rightarrow> Canonical \<Rightarrow> HandshakeError + AuthOkFields" where
  "verify_authok cr h psk offered_attempt amac value =
     rbind (map_err MessageErr (auth_ok_from_canonical h value)) (\<lambda>(flds, presented).
     if \<not> verify_psk_mac cr psk (authok_signing_fields amac flds) presented then Inl BadMac
     else if aok_attempt_id flds \<noteq> offered_attempt then Inl AttemptMismatch
     else Inr flds)"

definition session_keys :: "crypto_crate \<Rightarrow> hex_crate \<Rightarrow> Psk \<Rightarrow> AuthFields \<Rightarrow> AuthOkFields \<Rightarrow> SessionKeys" where
  "session_keys cr h psk auth authok =
     derive cr psk (to_bytes (auth_signing_canonical h auth)) (to_bytes (auth_ok_signing_canonical h authok))"

section \<open>The MAC inputs, read from the front\<close>

definition mac_len_law :: "crypto_crate \<Rightarrow> bool" where
  "mac_len_law cr \<longleftrightarrow> (\<forall>k m. length (hmac_sha256 cr k m) = 32)"

text \<open>Every length that goes into a 32-bit prefix fits it.\<close>

definition fits32 :: "string \<Rightarrow> bool" where
  "fits32 s \<longleftrightarrow> length s \<le> u32_max"

definition auth_fits :: "AuthFields \<Rightarrow> bool" where
  "auth_fits f \<longleftrightarrow> fits32 (auth_hub_id f) \<and> fits32 (auth_key_id f) \<and> fits32 (auth_node_id f)
     \<and> list_all fits32 (auth_capabilities f) \<and> length (auth_capabilities f) \<le> u32_max"

definition authok_fits :: "AuthOkFields \<Rightarrow> bool" where
  "authok_fits f \<longleftrightarrow> list_all fits32 (aok_capabilities f) \<and> length (aok_capabilities f) \<le> u32_max"

abbreviation lps :: "string \<Rightarrow> bytes" where "lps s \<equiv> len_prefixed 4 (as_bytes s)"

lemma push_all_concat: "push_all caps buf = buf @ concat (map lps caps)"
  unfolding push_all_def
  by (induction caps arbitrary: buf) (simp_all add: push_str_def push_bytes_len_prefixed del: as_bytes_Cons)

lemma lps_split:
  "fits32 s \<Longrightarrow> fits32 t \<Longrightarrow> lps s @ r = lps t @ r' \<Longrightarrow> s = t \<and> r = r'"
  using push_bytes_split [of "as_bytes s" "as_bytes t" r r'] by (simp add: fits32_def)

lemma lps_list_split:
  "length xs = length ys \<Longrightarrow> list_all fits32 xs \<Longrightarrow> list_all fits32 ys \<Longrightarrow>
   concat (map lps xs) @ r = concat (map lps ys) @ r' \<Longrightarrow> xs = ys \<and> r = r'"
proof (induction xs ys arbitrary: r r' rule: list_induct2)
  case (Cons x xs y ys)
  have xy: "x = y" and rest: "concat (map lps xs) @ r = concat (map lps ys) @ r'"
    using Cons.prems lps_split [of x y "concat (map lps xs) @ r" "concat (map lps ys) @ r'"] by simp_all
  have "xs = ys \<and> r = r'" using Cons.prems(1,2) by (intro Cons.IH [OF _ _ rest]) simp_all
  with xy show ?case by simp
qed simp

lemma lp4_split: "length f = length g \<Longrightarrow> length f \<le> u32_max \<Longrightarrow> len_prefixed 4 f @ r = len_prefixed 4 g @ r' \<Longrightarrow> f = g \<and> r = r'"
  using push_bytes_split [of f g r r'] by simp

lemma be_split: "be_bytes n v @ r = be_bytes n w @ r' \<Longrightarrow> v < 256 ^ n \<Longrightarrow> w < 256 ^ n \<Longrightarrow> v = w \<and> r = r'"
  using be_bytes_inj [of n v w] by auto

lemma caps_split:
  assumes "be_bytes 4 (length xs mod 4294967296) @ concat (map lps xs) @ r
      = be_bytes 4 (length ys mod 4294967296) @ concat (map lps ys) @ r'"
    and "list_all fits32 xs" "list_all fits32 ys" "length xs \<le> u32_max" "length ys \<le> u32_max"
  shows "xs = ys \<and> r = r'"
proof -
  have "length xs mod 4294967296 = length ys mod 4294967296 \<and> concat (map lps xs) @ r = concat (map lps ys) @ r'"
    by (rule be_split [OF assms(1)]) simp_all
  with assms show ?thesis by (intro lps_list_split) (simp_all add: u32_max_def)
qed

lemmas signing_view = Let_def push_str_def push_bytes_len_prefixed push_u32_def push_u64_def push_u8_def
  push_all_concat append_assoc append_Nil

lemma auth_signing_inj:
  assumes "auth_signing_fields f = auth_signing_fields g"
    and f: "auth_typed (f, m)" "auth_fits f" "0 \<le> auth_ts f" and g: "auth_typed (g, m)" "auth_fits g" "0 \<le> auth_ts g"
  shows "f = g"
proof -
  note ty = f g
  have eq: "len_prefixed 4 (auth_attempt_id f) @ lps ''capabilities''
      @ be_bytes 4 (length (auth_capabilities f) mod 4294967296) @ concat (map lps (auth_capabilities f))
      @ lps ''hub_id'' @ lps (auth_hub_id f) @ lps ''key_id'' @ lps (auth_key_id f)
      @ lps ''node_id'' @ lps (auth_node_id f) @ lps ''nonce'' @ len_prefixed 4 (auth_nonce f)
      @ lps ''ts'' @ be_bytes 8 (nat (auth_ts f)) @ lps ''version'' @ [auth_version f]
    = len_prefixed 4 (auth_attempt_id g) @ lps ''capabilities''
      @ be_bytes 4 (length (auth_capabilities g) mod 4294967296) @ concat (map lps (auth_capabilities g))
      @ lps ''hub_id'' @ lps (auth_hub_id g) @ lps ''key_id'' @ lps (auth_key_id g)
      @ lps ''node_id'' @ lps (auth_node_id g) @ lps ''nonce'' @ len_prefixed 4 (auth_nonce g)
      @ lps ''ts'' @ be_bytes 8 (nat (auth_ts g)) @ lps ''version'' @ [auth_version g]"
    using assms(1) ty(3,6) unfolding auth_signing_fields_def signing_view by simp
  have len: "length (auth_attempt_id f) = 16" "length (auth_attempt_id g) = 16" "length (auth_nonce f) = 32"
      "length (auth_nonce g) = 32" using ty by (simp_all add: auth_typed_def)
  have fit: "fits32 (auth_hub_id x) \<and> fits32 (auth_key_id x) \<and> fits32 (auth_node_id x)
      \<and> list_all fits32 (auth_capabilities x) \<and> length (auth_capabilities x) \<le> u32_max" if "x = f \<or> x = g" for x
    using ty that by (auto simp: auth_fits_def)
  have ts: "nat (auth_ts f) < 256 ^ 8" "nat (auth_ts g) < 256 ^ 8"
    using ty nat_i64_u64 [of "auth_ts f"] nat_i64_u64 [of "auth_ts g"] by (simp_all add: auth_typed_def u64_max_def)
  note a = lp4_split [OF _ _ eq]
  have a: "auth_attempt_id f = auth_attempt_id g" using a len by (simp add: u32_max_def)
  note c = caps_split [OF eq [unfolded a same_append_eq]]
  have c: "auth_capabilities f = auth_capabilities g" using c fit by blast
  note hu = lps_split [OF _ _ eq [unfolded a c same_append_eq]]
  have hu: "auth_hub_id f = auth_hub_id g" using hu fit by blast
  note k = lps_split [OF _ _ eq [unfolded a c hu same_append_eq]]
  have k: "auth_key_id f = auth_key_id g" using k fit by blast
  note n = lps_split [OF _ _ eq [unfolded a c hu k same_append_eq]]
  have n: "auth_node_id f = auth_node_id g" using n fit by blast
  note no = lp4_split [OF _ _ eq [unfolded a c hu k n same_append_eq]]
  have no: "auth_nonce f = auth_nonce g" using no len by (simp add: u32_max_def)
  note t = be_split [OF eq [unfolded a c hu k n no same_append_eq] ts]
  then have "nat (auth_ts f) = nat (auth_ts g)" "auth_version f = auth_version g" by simp_all
  with a c hu k n no ty(3,6) show ?thesis by (cases f; cases g) simp
qed

lemma authok_signing_inj:
  assumes "authok_signing_fields m f = authok_signing_fields m' g" and "length m = 32" "length m' = 32"
    and f: "auth_ok_typed (f, t)" "authok_fits f" "0 \<le> aok_expires_at f"
    and g: "auth_ok_typed (g, t)" "authok_fits g" "0 \<le> aok_expires_at g"
  shows "m = m' \<and> f = g"
proof -
  note ty = f g
  have eq: "len_prefixed 4 m @ lps ''attempt_id'' @ len_prefixed 4 (aok_attempt_id f) @ lps ''capabilities''
      @ be_bytes 4 (length (aok_capabilities f) mod 4294967296) @ concat (map lps (aok_capabilities f))
      @ lps ''expires_at'' @ be_bytes 8 (nat (aok_expires_at f)) @ lps ''server_nonce''
      @ len_prefixed 4 (aok_server_nonce f) @ lps ''session_epoch'' @ len_prefixed 4 (aok_session_epoch f)
      @ lps ''session_id'' @ len_prefixed 4 (aok_session_id f)
    = len_prefixed 4 m' @ lps ''attempt_id'' @ len_prefixed 4 (aok_attempt_id g) @ lps ''capabilities''
      @ be_bytes 4 (length (aok_capabilities g) mod 4294967296) @ concat (map lps (aok_capabilities g))
      @ lps ''expires_at'' @ be_bytes 8 (nat (aok_expires_at g)) @ lps ''server_nonce''
      @ len_prefixed 4 (aok_server_nonce g) @ lps ''session_epoch'' @ len_prefixed 4 (aok_session_epoch g)
      @ lps ''session_id'' @ len_prefixed 4 (aok_session_id g)"
    using assms(1) f(3) g(3) unfolding authok_signing_fields_def signing_view by simp
  have len: "length (aok_attempt_id x) = 16 \<and> length (aok_server_nonce x) = 32 \<and> length (aok_session_epoch x) = 16
      \<and> length (aok_session_id x) = 16 \<and> list_all fits32 (aok_capabilities x) \<and> length (aok_capabilities x) \<le> u32_max
      \<and> nat (aok_expires_at x) < 256 ^ 8" if "x = f \<or> x = g" for x
    using ty that nat_i64_u64 [of "aok_expires_at x"] by (auto simp: auth_ok_typed_def authok_fits_def u64_max_def)
  have l: "length b \<le> u32_max" if "length b = 16 \<or> length b = 32" for b :: bytes using that by (auto simp: u32_max_def)
  note lf = len [OF disjI1 [OF refl]] and lg = len [OF disjI2 [OF refl]]
  have m: "m = m'" using lp4_split [OF _ _ eq] assms(2,3) l by metis
  have a: "aok_attempt_id f = aok_attempt_id g"
    using lp4_split [OF _ _ eq [unfolded m same_append_eq]] lf lg l by metis
  have c: "aok_capabilities f = aok_capabilities g"
    using caps_split [OF eq [unfolded m a same_append_eq]] lf lg by blast
  have e: "nat (aok_expires_at f) = nat (aok_expires_at g)"
    using be_split [OF eq [unfolded m a c same_append_eq]] lf lg by blast
  have n: "aok_server_nonce f = aok_server_nonce g"
    using lp4_split [OF _ _ eq [unfolded m a c e same_append_eq]] lf lg l by metis
  have p: "aok_session_epoch f = aok_session_epoch g"
    using lp4_split [OF _ _ eq [unfolded m a c e n same_append_eq]] lf lg l by metis
  have i: "aok_session_id f = aok_session_id g"
    using eq [unfolded m a c e n p same_append_eq] lp4_split [of "aok_session_id f" "aok_session_id g" "[]" "[]"] lf lg l
    by (metis append_Nil2)
  from e ty have "aok_expires_at f = aok_expires_at g" by simp
  with m a c n p i show ?thesis by (cases f; cases g) simp
qed

lemma auth_authok_separate: "auth_signing_fields f \<noteq> authok_signing_fields m g"
proof
  assume "auth_signing_fields f = authok_signing_fields m g"
  note eq = this [unfolded auth_signing_fields_def authok_signing_fields_def signing_view]
  have "fits32 ''attempt_id''" "fits32 ''auth_mac''" by (simp_all add: fits32_def u32_max_def)
  from lps_split [OF this eq] show False by simp
qed

section \<open>Verification\<close>

lemma verify_auth_iff:
  "verify_auth cr h psk v = Inr f \<longleftrightarrow>
   (\<exists>tag. auth_from_canonical h v = Inr (f, tag) \<and> length tag = MAC_LEN \<and> tag = auth_mac cr psk f)"
  by (auto simp: verify_auth_def result_simps verify_psk_mac_def psk_mac_def verify_def auth_mac_def split: if_splits)

lemma verify_authok_iff:
  "verify_authok cr h psk att am v = Inr g \<longleftrightarrow>
   aok_attempt_id g = att \<and>
   (\<exists>tag. auth_ok_from_canonical h v = Inr (g, tag) \<and> length tag = MAC_LEN \<and> tag = authok_mac cr psk am g)"
  by (auto simp: verify_authok_def result_simps verify_psk_mac_def psk_mac_def verify_def authok_mac_def split: if_splits)

lemma length_auth_macs [simp]:
  "mac_len_law cr \<Longrightarrow> length (auth_mac cr psk f) = 32" "mac_len_law cr \<Longrightarrow> length (authok_mac cr psk m g) = 32"
  by (simp_all add: mac_len_law_def auth_mac_def authok_mac_def mac_def)

section \<open>Properties\<close>

text \<open>An honest handshake completes over the wire: the Hub that decodes the node's \<open>Auth\<close> bytes accepts
  exactly the fields the node signed, and the node that decodes the Hub's \<open>AuthOk\<close> bytes for the offered
  candidate accepts exactly the Hub's fields; both then feed the same pair to the key derivation.\<close>

theorem handshake_completes:
  fixes f g cr h psk
  defines "am \<equiv> auth_mac cr psk f" and "om \<equiv> authok_mac cr psk (auth_mac cr psk f) g"
  assumes laws: "hex_laws h" "mac_len_law cr"
    and f: "auth_typed (f, am)" "0 \<le> auth_ts f" and g: "auth_ok_typed (g, om)" "0 \<le> aok_expires_at g"
    and att: "aok_attempt_id g = auth_attempt_id f"
    and len: "length (to_bytes (auth_to_canonical h (f, am))) \<le> MAX_METADATA"
      "length (to_bytes (auth_ok_to_canonical h (g, om))) \<le> MAX_METADATA"
  shows "\<exists>v w. from_bytes (to_bytes (auth_to_canonical h (f, am))) = Inr v \<and> verify_auth cr h psk v = Inr f
    \<and> from_bytes (to_bytes (auth_ok_to_canonical h (g, om))) = Inr w
    \<and> verify_authok cr h psk (auth_attempt_id f) am w = Inr g"
proof -
  obtain v where "from_bytes (to_bytes (auth_to_canonical h (f, am))) = Inr v" "auth_from_canonical h v = Inr (f, am)"
    using auth.wire_roundtrip [of h "(f, am)"] laws f len by auto
  moreover obtain w where "from_bytes (to_bytes (auth_ok_to_canonical h (g, om))) = Inr w"
      "auth_ok_from_canonical h w = Inr (g, om)"
    using auth_ok.wire_roundtrip [of h "(g, om)"] laws g len by auto
  ultimately show ?thesis
    using laws(2) att by (auto simp: verify_auth_iff verify_authok_iff am_def om_def MAC_LEN_def)
qed

definition sample_auth :: AuthFields where
  "sample_auth = \<lparr>auth_version = 1, auth_hub_id = ''h'', auth_key_id = ''k'', auth_node_id = ''n'',
     auth_attempt_id = sample_id, auth_ts = 5, auth_nonce = sample_id @ sample_id, auth_capabilities = [''flow.credit'']\<rparr>"

definition sample_authok :: AuthOkFields where
  "sample_authok = \<lparr>aok_session_id = sample_id, aok_session_epoch = sample_id, aok_attempt_id = sample_id,
     aok_server_nonce = sample_id @ sample_id, aok_expires_at = 9, aok_capabilities = []\<rparr>"

definition sample_crate :: crypto_crate where
  "sample_crate = null_crate\<lparr>hmac_sha256 := (\<lambda>k m. sample_id @ sample_id)\<rparr>"

theorem handshake_completes_witness:
  "\<exists>v w. verify_auth sample_crate lower_hex [] v = Inr sample_auth
    \<and> verify_authok sample_crate lower_hex [] (auth_attempt_id sample_auth) (auth_mac sample_crate [] sample_auth) w
      = Inr sample_authok"
proof -
  let ?am = "auth_mac sample_crate [] sample_auth" and ?om = "authok_mac sample_crate [] (auth_mac sample_crate [] sample_auth) sample_authok"
  have macs: "auth_mac sample_crate k f = sample_id @ sample_id" "authok_mac sample_crate k m g = sample_id @ sample_id" for k f m g
    by (simp_all add: auth_mac_def authok_mac_def mac_def sample_crate_def)
  have law: "mac_len_law sample_crate" by (simp add: mac_len_law_def sample_crate_def sample_id_def)
  have f: "auth_typed (sample_auth, ?am)" "0 \<le> auth_ts sample_auth"
    and g: "auth_ok_typed (sample_authok, ?om)" "0 \<le> aok_expires_at sample_authok"
    and att: "aok_attempt_id sample_authok = auth_attempt_id sample_auth"
    unfolding macs by (simp_all add: auth_typed_def auth_ok_typed_def sample_auth_def sample_authok_def sample_id_def
        i64_range_def int_range_defs)
  have len: "length (to_bytes (auth_to_canonical lower_hex (sample_auth, ?am))) \<le> MAX_METADATA"
      "length (to_bytes (auth_ok_to_canonical lower_hex (sample_authok, ?om))) \<le> MAX_METADATA"
    unfolding macs auth_to_canonical_def auth_ok_to_canonical_def prod.case auth_signing_canonical_def
      auth_ok_signing_canonical_def auth_entries_def auth_ok_entries_def insert_mac_object
    by (simp_all add: sample_auth_def sample_authok_def str_array_def to_bytes_def object_def
        bt_of_list_def write_json_string_def chars_ascii write_char_def encode_ascii u64_decimal_def dec.simps
        digit_char_def int_to_string_def limit_defs lower_hex_def sample_id_def nibble_char_def)
  from handshake_completes [OF lower_hex_laws law f g att len] show ?thesis by blast
qed

text \<open>The handshake MACs bind every field: the signing input of an \<open>Auth\<close> determines the \<open>Auth\<close>, that of
  an \<open>AuthOk\<close> determines both the \<open>AuthOk\<close> and the MAC of the \<open>Auth\<close> it answers, and an input of one kind is
  never an input of the other, so no tag can be reused across messages.\<close>

theorem handshake_macs_bind_all_fields:
  assumes "auth_typed (f, t)" "auth_typed (f', t)" "auth_fits f" "auth_fits f'" "0 \<le> auth_ts f" "0 \<le> auth_ts f'"
    and "auth_ok_typed (g, t)" "auth_ok_typed (g', t)" "authok_fits g" "authok_fits g'"
      "0 \<le> aok_expires_at g" "0 \<le> aok_expires_at g'" "length m = 32" "length m' = 32"
  shows "(auth_signing_fields f = auth_signing_fields f' \<longleftrightarrow> f = f')
    \<and> (authok_signing_fields m g = authok_signing_fields m' g' \<longleftrightarrow> m = m' \<and> g = g')
    \<and> auth_signing_fields f \<noteq> authok_signing_fields m g"
  using auth_signing_inj [OF _ assms(1,3,5,2,4,6)] authok_signing_inj [OF _ assms(13,14,7,9,11,8,10,12)]
    auth_authok_separate by blast

theorem handshake_macs_bind_all_fields_witness:
  "auth_signing_fields sample_auth \<noteq> auth_signing_fields (sample_auth\<lparr>auth_hub_id := ''hn'', auth_node_id := []\<rparr>)"
proof -
  let ?f' = "sample_auth\<lparr>auth_hub_id := ''hn'', auth_node_id := []\<rparr>"
  have t: "auth_typed (sample_auth, sample_id @ sample_id)" "auth_typed (?f', sample_id @ sample_id)"
      "auth_fits sample_auth" "auth_fits ?f'" "0 \<le> auth_ts sample_auth" "0 \<le> auth_ts ?f'"
    by (simp_all add: auth_typed_def auth_fits_def fits32_def sample_auth_def sample_id_def i64_range_def int_range_defs)
  have o: "auth_ok_typed (sample_authok, sample_id @ sample_id)" "authok_fits sample_authok" "0 \<le> aok_expires_at sample_authok"
      "length (sample_id @ sample_id) = 32"
    by (simp_all add: auth_ok_typed_def authok_fits_def sample_authok_def sample_id_def i64_range_def int_range_defs)
  from handshake_macs_bind_all_fields [OF t o(1,1,2,2,3,3,4,4)] show ?thesis by (simp add: sample_auth_def)
qed

text \<open>The node accepts an \<open>AuthOk\<close> exactly when it parses, carries the HMAC under the PSK of this \<open>Auth\<close>'s
  MAC and of the fields, and answers the candidate that was offered; a response made for another \<open>Auth\<close>
  or for a losing candidate is refused.\<close>

theorem verify_authok_accepts_iff:
  "verify_authok cr h psk att am v = Inr g \<longleftrightarrow>
   aok_attempt_id g = att \<and>
   (\<exists>tag. auth_ok_from_canonical h v = Inr (g, tag) \<and> length tag = 32
      \<and> tag = hmac_sha256 cr psk (authok_signing_fields am g))"
  by (auto simp: verify_authok_iff MAC_LEN_def authok_mac_def mac_def)

end
