(* ===== verification/Bind.thy ===== *)
theory Bind
  imports Handshake
begin

text \<open>
  \<open>crates/wsnet-session/src/bind.rs\<close> (and its copy \<open>crates/wsnet-hub/src/bind.rs\<close>): one-time request
  binding credentials, and \<open>Hub::verify_binding\<close> of \<open>crates/wsnet-hub/src/hub.rs\<close>, which checks one
  against the session and spends its nonce. The Hub's session table is an association list of what the
  check reads of an entry.
\<close>

section \<open>What a proof signs\<close>

definition BIND_PROOF_HEADER :: string where "BIND_PROOF_HEADER = ''bindproof''"
definition BIND_PROOF_VERSION :: string where "BIND_PROOF_VERSION = ''v1''"
definition BIND_NONCE_MAX :: nat where "BIND_NONCE_MAX = 65536"
definition PRUNE_INTERVAL :: nat where "PRUNE_INTERVAL = 1024"
definition MAX_PROOF_LIFETIME_SECS :: int where "MAX_PROOF_LIFETIME_SECS = int BIND_PROOF_TTL_SECS"

datatype BindProofError =
    MissingProofField string
  | BadField string string           \<comment> \<open>field, expected\<close>
  | UnsupportedProofVersion string
  | DuplicateField string

record BindTarget =
  bt_method :: string
  bt_path :: string
  bt_hub_id :: string
  bt_session_id :: bytes
  bt_session_epoch :: bytes
  bt_channel_id :: bytes
  bt_bind_nonce :: bytes
  bt_body_hash :: bytes
  bt_expires_at :: int

definition binding_fields :: "BindTarget \<Rightarrow> SignedFields" where
  "binding_fields t =
     (let b = push_str ''body_hash'' [];
          b = push_bytes (bt_body_hash t) b;
          b = push_str ''bind_nonce'' b;
          b = push_bytes (bt_bind_nonce t) b;
          b = push_str ''channel_id'' b;
          b = push_bytes (bt_channel_id t) b;
          b = push_str ''expires_at'' b;
          b = push_u64 (nat (max (bt_expires_at t) 0)) b;
          b = push_str ''hub_id'' b;
          b = push_str (bt_hub_id t) b;
          b = push_str ''method'' b;
          b = push_str (bt_method t) b;
          b = push_str ''path'' b;
          b = push_str (bt_path t) b;
          b = push_str ''session_epoch'' b;
          b = push_bytes (bt_session_epoch t) b;
          b = push_str ''session_id'' b
      in push_bytes (bt_session_id t) b)"

definition binding_mac :: "crypto_crate \<Rightarrow> bytes \<Rightarrow> BindTarget \<Rightarrow> bytes" where
  "binding_mac cr bind_key t = bind_mac cr bind_key (binding_fields t)"

definition verify_binding_mac :: "crypto_crate \<Rightarrow> bytes \<Rightarrow> BindTarget \<Rightarrow> bytes \<Rightarrow> bool" where
  "verify_binding_mac cr bind_key t presented = verify_bind_mac cr bind_key (binding_fields t) presented"

definition body_hash :: "crypto_crate \<Rightarrow> bytes \<Rightarrow> bytes" where
  "body_hash cr body = sha256 cr body"

section \<open>The header\<close>

record BindProof =
  proof_session_id :: bytes
  proof_channel_id :: bytes
  proof_bind_nonce :: bytes
  proof_expires_at :: int
  proof_mac :: bytes

definition proof_encode :: "hex_crate \<Rightarrow> BindProof \<Rightarrow> string" where
  "proof_encode h p =
     ''v='' @ BIND_PROOF_VERSION @ '';sid='' @ hex_enc h (proof_session_id p)
       @ '';channel='' @ hex_enc h (proof_channel_id p) @ '';nonce='' @ hex_enc h (proof_bind_nonce p)
       @ '';expires='' @ int_to_string (proof_expires_at p) @ '';mac='' @ hex_enc h (proof_mac p)"

text \<open>The local variables of \<open>parse\<close>.\<close>

record proof_slots =
  slot_version :: "string option"
  slot_sid :: "bytes option"
  slot_channel :: "bytes option"
  slot_nonce :: "bytes option"
  slot_expires :: "int option"
  slot_mac :: "bytes option"

definition no_slots :: proof_slots where
  "no_slots = \<lparr>slot_version = None, slot_sid = None, slot_channel = None, slot_nonce = None,
     slot_expires = None, slot_mac = None\<rparr>"

definition set_once :: "'a option \<Rightarrow> string \<Rightarrow> 'a \<Rightarrow> BindProofError + 'a option" where
  "set_once slot fld value = (if slot \<noteq> None then Inl (DuplicateField fld) else Inr (Some value))"

definition parse_hex :: "hex_crate \<Rightarrow> nat \<Rightarrow> string \<Rightarrow> string \<Rightarrow> BindProofError + bytes" where
  "parse_hex h n fld raw =
     rbind (ok_or (BadField fld ''lowercase hex'') (hex_dec h (trim raw))) (\<lambda>bytes.
     if length bytes = n then Inr bytes else Inl (BadField fld ''the fixed width this version defines''))"

definition parse_part :: "hex_crate \<Rightarrow> proof_slots \<Rightarrow> string \<Rightarrow> BindProofError + proof_slots" where
  "parse_part h s part =
     rbind (ok_or (BadField ''field'' (''a '' @ CHR 0x60 # ''key=value'' @ CHR 0x60 # '' pair'')) (split_once CHR ''='' part)) (\<lambda>(key, raw).
     let key = trim key in
     if key = ''v'' \<or> key = ''version'' then
       (if trim raw \<noteq> BIND_PROOF_VERSION then Inl (UnsupportedProofVersion (trim raw))
        else Inr (s\<lparr>slot_version := Some (trim raw)\<rparr>))
     else if key = ''sid'' then
       rbind (parse_hex h 16 ''sid'' raw) (\<lambda>x. rbind (set_once (slot_sid s) ''sid'' x) (\<lambda>o'. Inr (s\<lparr>slot_sid := o'\<rparr>)))
     else if key = ''channel'' then
       rbind (parse_hex h 16 ''channel'' raw) (\<lambda>x. rbind (set_once (slot_channel s) ''channel'' x) (\<lambda>o'. Inr (s\<lparr>slot_channel := o'\<rparr>)))
     else if key = ''nonce'' then
       rbind (parse_hex h 16 ''nonce'' raw) (\<lambda>x. rbind (set_once (slot_nonce s) ''nonce'' x) (\<lambda>o'. Inr (s\<lparr>slot_nonce := o'\<rparr>)))
     else if key = ''expires'' then
       rbind (ok_or (BadField ''expires'' ''a decimal Unix timestamp'') (parse_i64 (trim raw))) (\<lambda>x.
       rbind (set_once (slot_expires s) ''expires'' x) (\<lambda>o'. Inr (s\<lparr>slot_expires := o'\<rparr>)))
     else if key = ''mac'' then
       rbind (parse_hex h 32 ''mac'' raw) (\<lambda>x. rbind (set_once (slot_mac s) ''mac'' x) (\<lambda>o'. Inr (s\<lparr>slot_mac := o'\<rparr>)))
     else Inl (BadField ''field'' ''one of v, sid, channel, nonce, expires, mac''))"

fun parse_parts :: "hex_crate \<Rightarrow> proof_slots \<Rightarrow> string list \<Rightarrow> BindProofError + proof_slots" where
  "parse_parts h s [] = Inr s"
| "parse_parts h s (part # parts) = rbind (parse_part h s part) (\<lambda>s'. parse_parts h s' parts)"

definition proof_parse :: "hex_crate \<Rightarrow> string \<Rightarrow> BindProofError + BindProof" where
  "proof_parse h value =
     rbind (parse_parts h no_slots (split_on CHR '';'' value)) (\<lambda>s.
     rbind (ok_or (MissingProofField ''v'') (slot_version s)) (\<lambda>version.
     if version \<noteq> BIND_PROOF_VERSION then Inl (UnsupportedProofVersion version)
     else
     rbind (ok_or (MissingProofField ''sid'') (slot_sid s)) (\<lambda>sid.
     rbind (ok_or (MissingProofField ''channel'') (slot_channel s)) (\<lambda>channel.
     rbind (ok_or (MissingProofField ''nonce'') (slot_nonce s)) (\<lambda>nonce.
     rbind (ok_or (MissingProofField ''expires'') (slot_expires s)) (\<lambda>expires.
     rbind (ok_or (MissingProofField ''mac'') (slot_mac s)) (\<lambda>tag.
     Inr \<lparr>proof_session_id = sid, proof_channel_id = channel, proof_bind_nonce = nonce,
          proof_expires_at = expires, proof_mac = tag\<rparr>)))))))"

section \<open>The single-use nonce set\<close>

record BindProofRegistry =
  used :: "(bytes \<times> nat) list"
  claims_since_prune :: nat

definition bind_registry_new :: BindProofRegistry where
  "bind_registry_new = \<lparr>used = [], claims_since_prune = 0\<rparr>"

definition bind_prune :: "BindProofRegistry \<Rightarrow> Now \<Rightarrow> BindProofRegistry \<times> nat" where
  "bind_prune r now =
     (let kept = filter (\<lambda>(_, until). until > monotonic_ms now) (used r)
      in (r\<lparr>used := kept\<rparr>, length (used r) - length kept))"

definition bind_len :: "BindProofRegistry \<Rightarrow> Now \<Rightarrow> BindProofRegistry \<times> nat" where
  "bind_len r now = (let r' = fst (bind_prune r now) in (r', length (used r')))"

definition bind_is_empty :: "BindProofRegistry \<Rightarrow> Now \<Rightarrow> BindProofRegistry \<times> bool" where
  "bind_is_empty r now = (let (r', n) = bind_len r now in (r', n = 0))"

definition retain_until :: "int \<Rightarrow> Now \<Rightarrow> nat" where
  "retain_until expires_at now =
     (let retain_secs = nat (max (clamp_i64 (clamp_i64 (expires_at + 1) - wall_secs now)) 0)
      in sat_add (monotonic_ms now) (sat_mul retain_secs 1000))"

definition bind_claim :: "BindProofRegistry \<Rightarrow> bytes \<Rightarrow> int \<Rightarrow> Now \<Rightarrow> BindProofRegistry \<times> bool" where
  "bind_claim r nonce expires_at now =
     (let r = (if length (used r) \<ge> BIND_NONCE_MAX \<or> claims_since_prune r \<ge> PRUNE_INTERVAL
               then (fst (bind_prune r now))\<lparr>claims_since_prune := 0\<rparr> else r);
          r = r\<lparr>claims_since_prune := min (claims_since_prune r + 1) u32_max\<rparr>
      in if map_of (used r) nonce \<noteq> None then (r, False)
         else if length (used r) \<ge> BIND_NONCE_MAX then (r, False)
         else (r\<lparr>used := hm_insert nonce (retain_until expires_at now) (used r)\<rparr>, True))"

section \<open>The Hub's check\<close>

datatype BindFailure = Malformed BindProofError | UnknownSession | Expired | BindBadMac | Replayed

record BoundSession =
  bs_session_id :: bytes
  bs_epoch :: bytes
  bs_bind_key :: bytes
  bs_expires_at :: int
  bs_closed :: bool

record BindHub =
  bh_hub_id :: string
  bh_sessions :: "(bytes \<times> BoundSession) list"
  bh_binds :: BindProofRegistry

definition bind_target :: "BindHub \<Rightarrow> BoundSession \<Rightarrow> BindProof \<Rightarrow> string \<Rightarrow> string \<Rightarrow> bytes \<Rightarrow> BindTarget" where
  "bind_target hub entry p meth path body =
     \<lparr>bt_method = meth, bt_path = path, bt_hub_id = bh_hub_id hub, bt_session_id = bs_session_id entry,
      bt_session_epoch = bs_epoch entry, bt_channel_id = proof_channel_id p,
      bt_bind_nonce = proof_bind_nonce p, bt_body_hash = body, bt_expires_at = proof_expires_at p\<rparr>"

definition verify_binding ::
    "crypto_crate \<Rightarrow> hex_crate \<Rightarrow> BindHub \<Rightarrow> Now \<Rightarrow> string \<Rightarrow> string \<Rightarrow> string \<Rightarrow> bytes
     \<Rightarrow> BindHub \<times> (BindFailure + BoundSession)" where
  "verify_binding cr h hub now meth path header body =
     (case proof_parse h header of
        Inl e \<Rightarrow> (hub, Inl (Malformed e))
      | Inr p \<Rightarrow>
     case map_of (bh_sessions hub) (proof_session_id p) of
       None \<Rightarrow> (hub, Inl UnknownSession)
     | Some entry \<Rightarrow>
     if bs_closed entry then (hub, Inl UnknownSession)
     else if proof_expires_at p < wall_secs now then (hub, Inl Expired)
     else if proof_expires_at p > bs_expires_at entry then (hub, Inl Expired)
     else if wrap_i64 (proof_expires_at p - wall_secs now) > int BIND_PROOF_TTL_SECS then (hub, Inl Expired)
     else if \<not> verify_binding_mac cr (bs_bind_key entry) (bind_target hub entry p meth path body) (proof_mac p)
       then (hub, Inl BindBadMac)
     else
       let (binds, first) = bind_claim (bh_binds hub) (proof_bind_nonce p) (proof_expires_at p) now;
           hub' = hub\<lparr>bh_binds := binds\<rparr>
       in if \<not> first then (hub', Inl Replayed) else (hub', Inr entry))"

section \<open>Reading a header back\<close>

definition proof_typed :: "BindProof \<Rightarrow> bool" where
  "proof_typed p \<longleftrightarrow> length (proof_session_id p) = 16 \<and> length (proof_channel_id p) = 16
     \<and> length (proof_bind_nonce p) = 16 \<and> i64_range (proof_expires_at p) \<and> length (proof_mac p) = 32"

text \<open>Texts without separators, white space or non-ASCII characters.\<close>

definition plain :: "string \<Rightarrow> bool" where
  "plain s \<longleftrightarrow> (\<forall>c \<in> set s. 0x20 < (of_char c :: nat) \<and> (of_char c :: nat) < 0x80 \<and> c \<noteq> CHR '';'' \<and> c \<noteq> CHR ''='')"

lemma plain_Nil [simp]: "plain []" and plain_Cons [simp]:
  "plain (c # s) \<longleftrightarrow> 0x20 < (of_char c :: nat) \<and> (of_char c :: nat) < 0x80 \<and> c \<noteq> CHR '';'' \<and> c \<noteq> CHR ''='' \<and> plain s"
  by (auto simp: plain_def)

lemma plain_trim [simp]: "plain s \<Longrightarrow> trim s = s"
  by (rule trim_plain) (auto simp: plain_def)

lemma plain_no_sep: "plain s \<Longrightarrow> CHR '';'' \<notin> set s \<and> CHR ''='' \<notin> set s"
  by (auto simp: plain_def)

lemma plain_subset: "set s \<subseteq> set t \<Longrightarrow> plain t \<Longrightarrow> plain s"
  unfolding plain_def by blast

lemma plain_hex [simp]: "hex_laws h \<Longrightarrow> plain (hex_enc h b)"
  by (rule plain_subset [of _ "''0123456789abcdef''"]) (simp_all add: hex_laws_def)

lemma plain_int [simp]: "plain (int_to_string i)"
proof -
  have "plain (dec n)" for n
    using dec_digits [of n] by (fastforce simp: plain_def list_all_iff is_digit_def)
  then show ?thesis by (simp add: int_to_string_def)
qed

lemma split_part: "plain k \<Longrightarrow> split_once CHR ''='' (k @ CHR ''='' # v) = Some (k, v)"
  by (simp add: split_once_Some plain_no_sep)

lemma part_no_semicolon: "plain k \<Longrightarrow> plain v \<Longrightarrow> CHR '';'' \<notin> set (k @ CHR ''='' # v)"
  by (simp add: plain_no_sep)

lemma proof_encode_parts:
  assumes "hex_laws h"
  shows "split_on CHR '';'' (proof_encode h p) =
    [''v'' @ CHR ''='' # ''v1'', ''sid'' @ CHR ''='' # hex_enc h (proof_session_id p),
     ''channel'' @ CHR ''='' # hex_enc h (proof_channel_id p), ''nonce'' @ CHR ''='' # hex_enc h (proof_bind_nonce p),
     ''expires'' @ CHR ''='' # int_to_string (proof_expires_at p), ''mac'' @ CHR ''='' # hex_enc h (proof_mac p)]"
proof -
  have *: "proof_encode h p =
    (''v'' @ CHR ''='' # ''v1'') @ CHR '';'' # (''sid'' @ CHR ''='' # hex_enc h (proof_session_id p)) @ CHR '';'' #
     (''channel'' @ CHR ''='' # hex_enc h (proof_channel_id p)) @ CHR '';'' # (''nonce'' @ CHR ''='' # hex_enc h (proof_bind_nonce p)) @ CHR '';'' #
     (''expires'' @ CHR ''='' # int_to_string (proof_expires_at p)) @ CHR '';'' # ''mac'' @ CHR ''='' # hex_enc h (proof_mac p)"
    by (simp add: proof_encode_def BIND_PROOF_VERSION_def)
  have hex: "plain (hex_enc h b)" for b using assms by simp
  show ?thesis
    unfolding *
    by (subst split_on_app, (rule part_no_semicolon; simp add: hex))+
      (simp add: split_on_last plain_no_sep hex)
qed

lemma parse_hex_enc: "hex_laws h \<Longrightarrow> length b = n \<Longrightarrow> parse_hex h n fld (hex_enc h b) = Inr b"
  by (simp add: parse_hex_def)

lemma proof_parse_encode:
  assumes h: "hex_laws h" and p: "proof_typed p"
  shows "proof_parse h (proof_encode h p) = Inr p"
proof -
  have ver: "parse_part h s (''v'' @ CHR ''='' # ''v1'') = Inr (s\<lparr>slot_version := Some ''v1''\<rparr>)" for s
    by (simp only: parse_part_def split_part plain_Cons plain_Nil) (simp add: BIND_PROOF_VERSION_def split_once_def)
  have sid: "parse_part h s (''sid'' @ CHR ''='' # hex_enc h b) = Inr (s\<lparr>slot_sid := Some b\<rparr>)"
    if "slot_sid s = None" "length b = 16" for s b
    using split_part [of "''sid''" "hex_enc h b"] that h by (simp add: parse_part_def parse_hex_enc set_once_def)
  have ch: "parse_part h s (''channel'' @ CHR ''='' # hex_enc h b) = Inr (s\<lparr>slot_channel := Some b\<rparr>)"
    if "slot_channel s = None" "length b = 16" for s b
    using split_part [of "''channel''" "hex_enc h b"] that h by (simp add: parse_part_def parse_hex_enc set_once_def)
  have no: "parse_part h s (''nonce'' @ CHR ''='' # hex_enc h b) = Inr (s\<lparr>slot_nonce := Some b\<rparr>)"
    if "slot_nonce s = None" "length b = 16" for s b
    using split_part [of "''nonce''" "hex_enc h b"] that h by (simp add: parse_part_def parse_hex_enc set_once_def)
  have ex: "parse_part h s (''expires'' @ CHR ''='' # int_to_string i) = Inr (s\<lparr>slot_expires := Some i\<rparr>)"
    if "slot_expires s = None" "i64_range i" for s i
    using split_part [of "''expires''" "int_to_string i"] that by (simp add: parse_part_def set_once_def)
  have mc: "parse_part h s (''mac'' @ CHR ''='' # hex_enc h b) = Inr (s\<lparr>slot_mac := Some b\<rparr>)"
    if "slot_mac s = None" "length b = 32" for s b
    using split_part [of "''mac''" "hex_enc h b"] that h by (simp add: parse_part_def parse_hex_enc set_once_def)
  note parts = ver sid ch no ex mc
  have "parse_parts h no_slots (split_on CHR '';'' (proof_encode h p)) =
      Inr \<lparr>slot_version = Some ''v1'', slot_sid = Some (proof_session_id p), slot_channel = Some (proof_channel_id p),
        slot_nonce = Some (proof_bind_nonce p), slot_expires = Some (proof_expires_at p), slot_mac = Some (proof_mac p)\<rparr>"
    unfolding proof_encode_parts [OF h] parse_parts.simps no_slots_def
    using p by (simp add: parts proof_typed_def del: append_Cons append_Nil)
  then show ?thesis by (simp add: proof_parse_def BIND_PROOF_VERSION_def)
qed

section \<open>The signing input, read from the front\<close>

definition target_ok :: "BindTarget \<Rightarrow> bool" where
  "target_ok t \<longleftrightarrow> length (bt_session_id t) = 16 \<and> length (bt_session_epoch t) = 16 \<and> length (bt_channel_id t) = 16
     \<and> length (bt_bind_nonce t) = 16 \<and> length (bt_body_hash t) = 32 \<and> 0 \<le> bt_expires_at t \<and> i64_range (bt_expires_at t)
     \<and> fits32 (bt_method t) \<and> fits32 (bt_path t) \<and> fits32 (bt_hub_id t)"

lemma binding_fields_inj:
  assumes "binding_fields t = binding_fields u" and t: "target_ok t" and u: "target_ok u"
  shows "t = u"
proof -
  have eq: "len_prefixed 4 (bt_body_hash t) @ lps ''bind_nonce'' @ len_prefixed 4 (bt_bind_nonce t)
      @ lps ''channel_id'' @ len_prefixed 4 (bt_channel_id t) @ lps ''expires_at'' @ be_bytes 8 (nat (bt_expires_at t))
      @ lps ''hub_id'' @ lps (bt_hub_id t) @ lps ''method'' @ lps (bt_method t) @ lps ''path'' @ lps (bt_path t)
      @ lps ''session_epoch'' @ len_prefixed 4 (bt_session_epoch t) @ lps ''session_id'' @ len_prefixed 4 (bt_session_id t)
    = len_prefixed 4 (bt_body_hash u) @ lps ''bind_nonce'' @ len_prefixed 4 (bt_bind_nonce u)
      @ lps ''channel_id'' @ len_prefixed 4 (bt_channel_id u) @ lps ''expires_at'' @ be_bytes 8 (nat (bt_expires_at u))
      @ lps ''hub_id'' @ lps (bt_hub_id u) @ lps ''method'' @ lps (bt_method u) @ lps ''path'' @ lps (bt_path u)
      @ lps ''session_epoch'' @ len_prefixed 4 (bt_session_epoch u) @ lps ''session_id'' @ len_prefixed 4 (bt_session_id u)"
    using assms unfolding binding_fields_def signing_view by (simp add: target_ok_def)
  have l: "length b \<le> u32_max" if "length b = 16 \<or> length b = 32" for b :: bytes using that by (auto simp: u32_max_def)
  have e8: "nat (bt_expires_at x) < 256 ^ 8" if "target_ok x" for x
    using that nat_i64_u64 [of "bt_expires_at x"] by (simp add: target_ok_def u64_max_def)
  note lt = t [unfolded target_ok_def] and lu = u [unfolded target_ok_def]
  have b: "bt_body_hash t = bt_body_hash u" using lp4_split [OF _ _ eq] lt lu l by metis
  have n: "bt_bind_nonce t = bt_bind_nonce u"
    using lp4_split [OF _ _ eq [unfolded b same_append_eq]] lt lu l by metis
  have c: "bt_channel_id t = bt_channel_id u"
    using lp4_split [OF _ _ eq [unfolded b n same_append_eq]] lt lu l by metis
  have e: "nat (bt_expires_at t) = nat (bt_expires_at u)"
    using be_split [OF eq [unfolded b n c same_append_eq] e8 [OF t] e8 [OF u]] by blast
  have h: "bt_hub_id t = bt_hub_id u" using lps_split [OF _ _ eq [unfolded b n c e same_append_eq]] lt lu by blast
  have m: "bt_method t = bt_method u" using lps_split [OF _ _ eq [unfolded b n c e h same_append_eq]] lt lu by blast
  have p: "bt_path t = bt_path u" using lps_split [OF _ _ eq [unfolded b n c e h m same_append_eq]] lt lu by blast
  have ep: "bt_session_epoch t = bt_session_epoch u"
    using lp4_split [OF _ _ eq [unfolded b n c e h m p same_append_eq]] lt lu l by metis
  have i: "bt_session_id t = bt_session_id u"
    using eq [unfolded b n c e h m p ep same_append_eq] lp4_split [of "bt_session_id t" "bt_session_id u" "[]" "[]"] lt lu l
    by (metis append_Nil2)
  from e lt lu have "bt_expires_at t = bt_expires_at u" by (metis eq_nat_nat_iff)
  with b n c h m p ep i show ?thesis by (cases t; cases u) simp
qed

section \<open>Single use over time\<close>

text \<open>
  A request as it reaches the Hub: the offset between its wall and monotonic clocks at that moment, the
  clock reading, and the request. The clocks are related by \<open>wall = (offset + monotonic) / 1000\<close>; time
  does not run backwards, and neither does the wall clock against the monotonic one.
\<close>

record bind_clock =
  bc_base :: int
  bc_mono :: nat

record bind_request =
  br_base :: int
  br_now :: Now
  br_method :: string
  br_path :: string
  br_header :: string
  br_body :: bytes

definition clock_ok :: "bind_clock \<Rightarrow> bind_request \<Rightarrow> bool" where
  "clock_ok ck r \<longleftrightarrow>
     wall_secs (br_now r) = (br_base r + int (monotonic_ms (br_now r))) div 1000
     \<and> 0 \<le> wall_secs (br_now r) \<and> wall_secs (br_now r) \<le> 2 ^ 62 \<and> monotonic_ms (br_now r) \<le> 2 ^ 63
     \<and> bc_base ck \<le> br_base r \<and> bc_mono ck \<le> monotonic_ms (br_now r)"

definition bind_step ::
    "crypto_crate \<Rightarrow> hex_crate \<Rightarrow> BindHub \<times> bind_clock \<Rightarrow> bind_request \<Rightarrow> (BindHub \<times> bind_clock) \<times> (bytes \<times> int) option" where
  "bind_step cr h hc r =
     (case hc of (hub, ck) \<Rightarrow>
      if clock_ok ck r then
        (case verify_binding cr h hub (br_now r) (br_method r) (br_path r) (br_header r) (br_body r) of
           (hub', res) \<Rightarrow>
             ((hub', \<lparr>bc_base = br_base r, bc_mono = monotonic_ms (br_now r)\<rparr>),
              (case (res, proof_parse h (br_header r)) of
                 (Inr _, Inr p) \<Rightarrow> Some (proof_bind_nonce p, proof_expires_at p)
               | _ \<Rightarrow> None)))
      else (hc, None))"

definition bind_spent :: "BindHub \<times> bind_clock \<Rightarrow> bytes \<times> int \<Rightarrow> bool" where
  "bind_spent hc ne =
     (case (hc, ne) of ((hub, ck), (n, e)) \<Rightarrow>
        1000 * (e + 1) \<le> bc_base ck + int (bc_mono ck)
      \<or> (\<exists>u. map_of (used (bh_binds hub)) n = Some u \<and> 1000 * (e + 1) \<le> int u + bc_base ck))"

definition bind_inv :: "BindHub \<times> bind_clock \<Rightarrow> bool" where
  "bind_inv hc \<longleftrightarrow> hm_inv (used (bh_binds (fst hc)))"

text \<open>What \<open>claim\<close> does to the set: it may drop records that are no longer retained, keeps the rest, and
  adds the nonce exactly when it returns true, which it does only if no retained record has it.\<close>

lemma bind_claim_effect:
  assumes inv: "hm_inv (used r)" and claim: "bind_claim r n e now = (r', b)"
  shows "hm_inv (used r')"
    and "map_of (used r) k = Some u \<Longrightarrow> monotonic_ms now < u \<Longrightarrow> map_of (used r') k = Some u"
    and "b \<Longrightarrow> map_of (used r') n = Some (retain_until e now)"
    and "b \<Longrightarrow> map_of (used r) n = Some u \<Longrightarrow> u \<le> monotonic_ms now"
    and "map_of (used r) k = Some u \<Longrightarrow> map_of (used r') k = Some u \<or> u \<le> monotonic_ms now"
proof -
  define m where "m = (if length (used r) \<ge> BIND_NONCE_MAX \<or> claims_since_prune r \<ge> PRUNE_INTERVAL
    then filter (\<lambda>(_, until). until > monotonic_ms now) (used r) else used r)"
  have m_inv: "hm_inv m" using inv by (simp add: m_def hm.inv_filter)
  have keep: "map_of (used r) k = Some u \<Longrightarrow> monotonic_ms now < u \<Longrightarrow> map_of m k = Some u" for k u
    using hm.get_filter [OF inv, of "\<lambda>_ until. until > monotonic_ms now" k] by (auto simp: m_def split: option.splits)
  have eff: "used r' = (if map_of m n \<noteq> None \<or> length m \<ge> BIND_NONCE_MAX then m else hm_insert n (retain_until e now) m)"
      "b \<longleftrightarrow> \<not> (map_of m n \<noteq> None \<or> length m \<ge> BIND_NONCE_MAX)"
    using claim by (auto simp: bind_claim_def bind_prune_def m_def Let_def split: if_splits)
  show "hm_inv (used r')" using m_inv by (simp add: eff(1) hm.inv_insert)
  have k': "map_of m k = Some u \<Longrightarrow> map_of (used r') k = Some u" for k u
    by (auto simp: eff(1) hm.get_insert [OF m_inv])
  show "map_of (used r) k = Some u \<Longrightarrow> monotonic_ms now < u \<Longrightarrow> map_of (used r') k = Some u"
    using keep k' by blast
  show "b \<Longrightarrow> map_of (used r') n = Some (retain_until e now)"
    by (simp add: eff hm.get_insert [OF m_inv])
  show "b \<Longrightarrow> map_of (used r) n = Some u \<Longrightarrow> u \<le> monotonic_ms now"
    using keep [of n u] by (auto simp: eff(2) not_less [symmetric])
  show "map_of (used r) k = Some u \<Longrightarrow> map_of (used r') k = Some u \<or> u \<le> monotonic_ms now"
    using keep [of k u] k' by (auto simp: not_less [symmetric])
qed

lemma verify_binding_cases:
  assumes v: "verify_binding cr h hub now meth path header body = (hub', res)"
  obtains (refused) "hub' = hub" "\<forall>e. res \<noteq> Inr e"
  | (claimed) p entry b where "proof_parse h header = Inr p"
      "map_of (bh_sessions hub) (proof_session_id p) = Some entry" "\<not> bs_closed entry"
      "wall_secs now \<le> proof_expires_at p" "proof_expires_at p \<le> bs_expires_at entry"
      "wrap_i64 (proof_expires_at p - wall_secs now) \<le> int BIND_PROOF_TTL_SECS"
      "verify_binding_mac cr (bs_bind_key entry) (bind_target hub entry p meth path body) (proof_mac p)"
      "bind_claim (bh_binds hub) (proof_bind_nonce p) (proof_expires_at p) now = (bh_binds hub', b)"
      "hub' = hub\<lparr>bh_binds := bh_binds hub'\<rparr>" "res = (if b then Inr entry else Inl Replayed)"
proof (cases "proof_parse h header")
  case (Inl e)
  with v refused show ?thesis by (auto simp: verify_binding_def)
next
  case p: (Inr p)
  show ?thesis
  proof (cases "map_of (bh_sessions hub) (proof_session_id p)")
    case None
    with v p refused show ?thesis by (auto simp: verify_binding_def)
  next
    case (Some entry)
    obtain binds b where c: "bind_claim (bh_binds hub) (proof_bind_nonce p) (proof_expires_at p) now = (binds, b)"
      by fastforce
    show ?thesis
      using v p Some c refused claimed [of p entry b] by (auto simp: verify_binding_def Let_def split: if_splits)
  qed
qed

lemma retain_covers:
  assumes "clock_ok ck r" "wall_secs (br_now r) \<le> e" "wrap_i64 (e - wall_secs (br_now r)) \<le> 30" "i64_range e"
  shows "1000 * (e + 1) \<le> int (retain_until e (br_now r)) + br_base r"
proof -
  let ?w = "wall_secs (br_now r)" and ?m = "monotonic_ms (br_now r)"
  have w: "?w = (br_base r + int ?m) div 1000" "0 \<le> ?w" "?w \<le> 2 ^ 62" "?m \<le> 2 ^ 63"
    using assms(1) by (auto simp: clock_ok_def)
  have "i64_range (e - ?w)" using assms(2,4) w by (auto simp: i64_range_def int_range_defs)
  then have e30: "e - ?w \<le> 30" using assms(3) by (simp add: wrap_i64_id)
  have cl: "clamp_i64 (e + 1) = e + 1" "clamp_i64 (e + 1 - ?w) = e + 1 - ?w"
    using assms(2) w(2,3) e30 by (simp_all add: clamp_i64_def int_range_defs)
  have "retain_until e (br_now r) = ?m + nat (e + 1 - ?w) * 1000"
    using assms(2) w(4) e30 unfolding retain_until_def Let_def cl
    by (simp add: sat_add_def sat_mul_def u64_max_def)
  moreover have "1000 * ?w \<le> br_base r + int ?m" unfolding w(1) by simp
  ultimately show ?thesis using assms(2) by simp
qed

definition slots_ok :: "proof_slots \<Rightarrow> bool" where
  "slots_ok s \<longleftrightarrow> (case slot_expires s of None \<Rightarrow> True | Some i \<Rightarrow> i64_range i)"

lemma parse_i64_range: "parse_i64 s = Some i \<Longrightarrow> i64_range i"
  by (auto simp: parse_i64_def Let_def split: if_splits)

lemma parse_part_slots:
  assumes "parse_part h s part = Inr s'" "slots_ok s"
  shows "slots_ok s'"
proof -
  obtain key raw where "split_once CHR ''='' part = Some (key, raw)"
    using assms(1) by (auto simp: parse_part_def result_simps)
  with assms show ?thesis
    by (auto simp: parse_part_def Let_def result_simps set_once_def slots_ok_def dest: parse_i64_range split: if_splits)
qed

lemma parse_parts_slots: "parse_parts h s parts = Inr s' \<Longrightarrow> slots_ok s \<Longrightarrow> slots_ok s'"
  by (induction parts arbitrary: s) (auto simp: result_simps dest: parse_part_slots)

lemma parsed_expires:
  assumes "proof_parse h header = Inr p"
  shows "i64_range (proof_expires_at p)"
proof -
  obtain s where s: "parse_parts h no_slots (split_on CHR '';'' header) = Inr s"
      and e: "slot_expires s = Some (proof_expires_at p)"
    using assms by (auto simp: proof_parse_def result_simps split: if_splits)
  have "slots_ok s" using parse_parts_slots [OF s] by (simp add: slots_ok_def no_slots_def)
  with e show ?thesis by (simp add: slots_ok_def)
qed

interpretation bp: once_only "bind_step cr h" bind_spent bind_inv for cr h
proof unfold_locales
  fix hc and r :: bind_request and ne :: "bytes \<times> int" and hc'
  assume inv: "bind_inv hc"
  obtain hub ck where hc: "hc = (hub, ck)" by fastforce
  obtain hub' res where v: "verify_binding cr h hub (br_now r) (br_method r) (br_path r) (br_header r) (br_body r) = (hub', res)"
    by fastforce
  obtain n e where ne: "ne = (n, e)" by fastforce
  have i: "hm_inv (used (bh_binds hub))" using inv by (simp add: bind_inv_def hc)
  let ?ck = "\<lparr>bc_base = br_base r, bc_mono = monotonic_ms (br_now r)\<rparr>"
  have st: "bind_step cr h hc r = (if clock_ok ck r then ((hub', ?ck),
      (case (res, proof_parse h (br_header r)) of (Inr _, Inr p) \<Rightarrow> Some (proof_bind_nonce p, proof_expires_at p) | _ \<Rightarrow> None))
      else (hc, None))"
    by (simp add: bind_step_def hc v)
  show "bind_inv (fst (bind_step cr h hc r))"
    using v inv
  proof (cases rule: verify_binding_cases)
    case (claimed p entry b)
    from bind_claim_effect(1) [OF i claimed(8)] inv show ?thesis by (simp add: st bind_inv_def)
  qed (use i inv in \<open>simp add: st bind_inv_def\<close>)
  show "bind_spent (fst (bind_step cr h hc r)) ne" if spent: "bind_spent hc ne"
  proof (cases "clock_ok ck r")
    case True
    then have ck: "bc_base ck \<le> br_base r" "bc_mono ck \<le> monotonic_ms (br_now r)" by (auto simp: clock_ok_def)
    from spent consider (over) "1000 * (e + 1) \<le> bc_base ck + int (bc_mono ck)"
      | (held) u where "map_of (used (bh_binds hub)) n = Some u" "1000 * (e + 1) \<le> int u + bc_base ck"
      by (auto simp: bind_spent_def hc ne)
    then show ?thesis
    proof cases
      case over
      with ck True show ?thesis by (simp add: st bind_spent_def ne)
    next
      case held
      have "map_of (used (bh_binds hub')) n = Some u \<or> u \<le> monotonic_ms (br_now r)"
        using v
      proof (cases rule: verify_binding_cases)
        case (claimed p entry b)
        from bind_claim_effect(5) [OF i claimed(8) held(1)] show ?thesis .
      qed (use held in simp)
      with held ck True show ?thesis by (auto simp: st bind_spent_def ne)
    qed
  qed (use spent st in simp)
  show "\<not> bind_spent hc ne \<and> bind_spent hc' ne" if some: "bind_step cr h hc r = (hc', Some ne)"
  proof -
    have ck: "clock_ok ck r" using some st by (auto split: if_splits)
    obtain p entry where p: "proof_parse h (br_header r) = Inr p" and res: "res = Inr entry" and hc': "hc' = (hub', ?ck)"
        and n: "n = proof_bind_nonce p" and e: "e = proof_expires_at p"
      using some st ck ne by (auto split: sum.splits)
    from v show ?thesis
    proof (cases rule: verify_binding_cases)
      case refused
      with res show ?thesis by simp
    next
      case (claimed q en b)
      have q: "q = p" using claimed(1) p by simp
      have b: "b" using claimed(10) res by (cases b) auto
      note eff = bind_claim_effect [OF i claimed(8)]
      have wall: "br_base r + int (monotonic_ms (br_now r)) < 1000 * (e + 1)"
        using ck claimed(4) by (simp add: clock_ok_def e q)
      have base: "bc_base ck \<le> br_base r" "bc_mono ck \<le> monotonic_ms (br_now r)" using ck by (auto simp: clock_ok_def)
      have "\<not> bind_spent hc ne"
        using wall base eff(4) b by (force simp: bind_spent_def hc ne n q)
      moreover have "1000 * (e + 1) \<le> int (retain_until e (br_now r)) + br_base r"
        using claimed(4,6) parsed_expires [OF p] by (intro retain_covers [OF ck]) (simp_all add: e q BIND_PROOF_TTL_SECS_def)
      then have "bind_spent hc' ne" using eff(3) b by (simp add: bind_spent_def hc' ne n e q)
      ultimately show ?thesis ..
    qed
  qed
qed

section \<open>Properties\<close>

text \<open>A binding proof works for one request: what its MAC covers determines the method, path, Hub,
  session, epoch, channel, nonce, body hash and expiry, so a proof made for one request verifies on no other
  unless the MAC itself collides; and the header carries it unchanged, since parsing an encoded proof gives
  the same proof.\<close>

theorem bind_proof_identifies_request:
  assumes "hex_laws h" "proof_typed p" "target_ok t" "target_ok u"
  shows "proof_parse h (proof_encode h p) = Inr p \<and> (binding_fields t = binding_fields u \<longleftrightarrow> t = u)"
  using assms proof_parse_encode binding_fields_inj by blast

definition sample_target :: BindTarget where
  "sample_target = \<lparr>bt_method = ''POST'', bt_path = ''/m'', bt_hub_id = ''h'', bt_session_id = sample_id,
     bt_session_epoch = sample_id, bt_channel_id = sample_id, bt_bind_nonce = sample_id,
     bt_body_hash = sample_id @ sample_id, bt_expires_at = 30\<rparr>"

theorem bind_proof_identifies_request_witness:
  "binding_fields sample_target \<noteq> binding_fields (sample_target\<lparr>bt_path := ''/transport/page''\<rparr>)"
proof -
  have ok: "target_ok sample_target" "target_ok (sample_target\<lparr>bt_path := ''/transport/page''\<rparr>)"
    by (simp_all add: target_ok_def sample_target_def sample_id_def fits32_def i64_range_def int_range_defs)
  have p: "proof_typed \<lparr>proof_session_id = sample_id, proof_channel_id = sample_id, proof_bind_nonce = sample_id,
      proof_expires_at = 30, proof_mac = sample_id @ sample_id\<rparr>"
    by (simp add: proof_typed_def sample_id_def i64_range_def int_range_defs)
  from bind_proof_identifies_request [OF lower_hex_laws p ok] show ?thesis by (simp add: sample_target_def)
qed

text \<open>C13: A binding proof is accepted at most once: over every sequence of requests, with every prune in
  between, no nonce and expiry pair passes \<open>verify_binding\<close> twice, as long as time does not run backwards and
  the wall clock is not set back.\<close>

theorem bind_proof_accepted_at_most_once:
  assumes "used (bh_binds hub) = []"
  shows "distinct (granted (bind_step cr h) (hub, ck) requests)"
  by (rule bp.granted_distinct) (simp add: bind_inv_def hm.inv_empty assms)

definition sample_proof :: BindProof where
  "sample_proof = \<lparr>proof_session_id = sample_id, proof_channel_id = sample_id, proof_bind_nonce = sample_id,
     proof_expires_at = 30, proof_mac = sample_id @ sample_id\<rparr>"

definition sample_bind_hub :: BindHub where
  "sample_bind_hub = \<lparr>bh_hub_id = ''h'', bh_sessions = [(sample_id, \<lparr>bs_session_id = sample_id, bs_epoch = sample_id,
     bs_bind_key = [], bs_expires_at = 100, bs_closed = False\<rparr>)], bh_binds = bind_registry_new\<rparr>"

definition sample_request :: bind_request where
  "sample_request = \<lparr>br_base = 0, br_now = \<lparr>wall_secs = 1, monotonic_ms = 1000\<rparr>, br_method = ''POST'', br_path = ''/m'',
     br_header = proof_encode lower_hex sample_proof, br_body = sample_id @ sample_id\<rparr>"

theorem bind_proof_accepted_at_most_once_witness:
  "let run = granted (bind_step sample_crate lower_hex) (sample_bind_hub, \<lparr>bc_base = 0, bc_mono = 0\<rparr>) [sample_request, sample_request]
   in run = [(sample_id, 30)] \<and> distinct run"
proof -
  have "proof_typed sample_proof"
    by (simp add: proof_typed_def sample_proof_def sample_id_def i64_range_def int_range_defs)
  note parse = proof_parse_encode [OF lower_hex_laws this]
  have tag: "verify_binding_mac sample_crate k t (sample_id @ sample_id)" for k t
    by (simp add: verify_binding_mac_def verify_bind_mac_def bind_mac_def mac_def verify_def sample_crate_def MAC_LEN_def sample_id_def)
  let ?now = "\<lparr>wall_secs = 1, monotonic_ms = 1000\<rparr> :: Now" and ?ck = "\<lparr>bc_base = 0, bc_mono = 1000\<rparr>"
  let ?reg = "\<lambda>n. \<lparr>used = [(sample_id, 31000)], claims_since_prune = n\<rparr> :: BindProofRegistry"
  have c1: "bind_claim bind_registry_new sample_id 30 ?now = (?reg 1, True)"
    by (simp add: bind_claim_def bind_registry_new_def BIND_NONCE_MAX_def PRUNE_INTERVAL_def Let_def retain_until_def
        clamp_i64_def sat_add_def sat_mul_def int_range_defs)
  have c2: "bind_claim (?reg 1) sample_id 30 ?now = (?reg 2, False)"
    by (simp add: bind_claim_def BIND_NONCE_MAX_def PRUNE_INTERVAL_def Let_def int_range_defs)
  note eval = bind_step_def clock_ok_def verify_binding_def sample_request_def parse sample_bind_hub_def
    bind_target_def BIND_PROOF_TTL_SECS_def wrap_i64_def
  have p: "proof_session_id sample_proof = sample_id" "proof_bind_nonce sample_proof = sample_id"
      "proof_expires_at sample_proof = 30" "proof_mac sample_proof = sample_id @ sample_id"
    by (simp_all add: sample_proof_def)
  have "bind_step sample_crate lower_hex (sample_bind_hub, \<lparr>bc_base = 0, bc_mono = 0\<rparr>) sample_request
      = ((sample_bind_hub\<lparr>bh_binds := ?reg 1\<rparr>, ?ck), Some (sample_id, 30))"
    by (simp add: eval p tag c1)
  moreover have "bind_step sample_crate lower_hex (sample_bind_hub\<lparr>bh_binds := ?reg 1\<rparr>, ?ck) sample_request
      = ((sample_bind_hub\<lparr>bh_binds := ?reg 2\<rparr>, ?ck), None)"
    by (simp add: eval p tag c2 [simplified])
  ultimately have "granted (bind_step sample_crate lower_hex) (sample_bind_hub, \<lparr>bc_base = 0, bc_mono = 0\<rparr>) [sample_request, sample_request]
      = [(sample_id, 30)]" by simp
  moreover have "distinct (granted (bind_step sample_crate lower_hex) (sample_bind_hub, \<lparr>bc_base = 0, bc_mono = 0\<rparr>)
      [sample_request, sample_request])"
    by (rule bind_proof_accepted_at_most_once) (simp add: sample_bind_hub_def bind_registry_new_def)
  ultimately show ?thesis by (simp add: Let_def)
qed

text \<open>Setting the wall clock back readmits a spent proof: retention is measured on the monotonic clock and
  acceptance on the wall clock, so when the wall clock goes back after the record has been dropped, the same
  nonce and expiry are claimed again.\<close>

theorem bind_nonce_readmitted_after_wall_step_back:
  assumes "r = fst (bind_claim bind_registry_new n 110 \<lparr>wall_secs = 100, monotonic_ms = 0\<rparr>)"
    and "r' = fst (bind_prune r \<lparr>wall_secs = 105, monotonic_ms = 11000\<rparr>)"
  shows "snd (bind_claim bind_registry_new n 110 \<lparr>wall_secs = 100, monotonic_ms = 0\<rparr>)
    \<and> snd (bind_claim r' n 110 \<lparr>wall_secs = 105, monotonic_ms = 11000\<rparr>)"
  unfolding assms
  by (simp add: bind_claim_def bind_registry_new_def bind_prune_def retain_until_def clamp_i64_def int_range_defs
      sat_add_def sat_mul_def BIND_NONCE_MAX_def PRUNE_INTERVAL_def Let_def)

end
