(* ===== verification/Engine.thy ===== *)
theory Engine
  imports Codec Crypto Framing Reorder Replay
begin

text \<open>
  \<open>crates/wsnet-session/src/engine.rs\<close>: the session engine. The state behind the handle (\<open>Inner\<close>) is the
  record \<open>Session\<close>; the two channels are the lists of what was sent on them, and \<open>carrier_gone\<close> says that the
  receiver of the outbound channel was dropped. A method is a function from the state to the new state and
  its \<open>Result\<close>. Every method is one step: the model does not interleave two methods inside their critical
  sections (the allocator's own concurrency is in \<open>Packet_No\<close>).
\<close>

section \<open>Configuration, states, errors, events\<close>

datatype Side = NodeSide | HubSide

primrec send_direction :: "Side \<Rightarrow> Direction" where
  "send_direction NodeSide = ClientToServer"
| "send_direction HubSide = ServerToClient"

definition recv_direction :: "Side \<Rightarrow> Direction" where
  "recv_direction side = peer (send_direction side)"

primrec first_stream_id :: "Side \<Rightarrow> nat" where
  "first_stream_id NodeSide = 1"
| "first_stream_id HubSide = 2"

record SessionConfig =
  cfg_hub_id :: string
  cfg_session_id :: bytes
  cfg_session_epoch :: bytes
  cfg_side :: Side
  cfg_node_id :: string
  cfg_flow_window :: nat
  cfg_max_streams :: nat

definition SessionConfig_new :: "string \<Rightarrow> string \<Rightarrow> bytes \<Rightarrow> bytes \<Rightarrow> Side \<Rightarrow> SessionConfig" where
  "SessionConfig_new hub_id node_id session_id session_epoch side =
     \<lparr>cfg_hub_id = hub_id, cfg_session_id = session_id, cfg_session_epoch = session_epoch, cfg_side = side,
      cfg_node_id = node_id, cfg_flow_window = FLOW_WINDOW_BYTES, cfg_max_streams = MAX_STREAMS_PER_SESSION\<rparr>"

datatype SessionState =
    StOffline | StAuthenticating | StBinding | StHelloPending | StReady | StDegraded | StClosed

datatype SessionError =
    EnvelopeErr EnvelopeError
  | ReplayErr ReplayError
  | RecordErr RecordError
  | SessionMessageErr MessageError
  | StreamErr StreamError
  | PacketNoErr PacketNoError
  | UnknownStream nat
  | TooManyStreams nat
  | StreamIdsExhausted
  | SessionClosed
  | NotReady

datatype SessionEvent =
    EvOpen OpenFields
  | EvOpenResult OpenResultFields
  | EvQueryResult OpenResultFields
  | EvHello HelloFields
  | EvHelloOk HelloOkFields
  | EvReady ReadyFields
  | EvData nat nat bytes             \<comment> \<open>stream id, offset, payload\<close>
  | EvDatagram Canonical bytes       \<comment> \<open>metadata, payload\<close>
  | EvFin FinFields
  | EvReset ResetFields
  | EvProgress ProgressFields
  | EvResume ResumeFields
  | EvCancelCandidate CancelCandidateFields
  | EvPing
  | EvPong
  | EvBye ByeFields
  | EvPeerList Canonical
  | EvDropped nat                    \<comment> \<open>packet number\<close>
  | EvStateChanged SessionState

section \<open>State\<close>

record StreamEntry =
  recv :: ReorderBuffer
  credit :: CreditAccount
  send_offset :: nat
  send_limit :: nat
  fin_sent :: bool
  fin_received :: "nat option"

definition StreamEntry_new :: "nat \<Rightarrow> StreamEntry" where
  "StreamEntry_new w =
     (let initial = min STREAM_INITIAL_CREDIT w in
      \<lparr>recv = rb_new 0, credit = credit_new initial w, send_offset = 0, send_limit = initial,
       fin_sent = False, fin_received = None\<rparr>)"

record Session =
  config :: SessionConfig
  ctx :: EnvelopeContext
  keys :: SessionKeys
  send_allocator :: PacketNoAllocator
  recv_window :: ReplayWindow
  outbound :: "bytes list"
  carrier_gone :: bool
  events :: "SessionEvent list"
  state :: SessionState
  streams :: "(nat \<times> StreamEntry) list"
  next_stream_id :: nat

definition Session_new :: "SessionConfig \<Rightarrow> SessionKeys \<Rightarrow> Session" where
  "Session_new cfg ks =
     \<lparr>config = cfg,
      ctx = \<lparr>ctx_hub_id = cfg_hub_id cfg, ctx_session_id = cfg_session_id cfg, ctx_session_epoch = cfg_session_epoch cfg\<rparr>,
      keys = ks, send_allocator = new_allocator, recv_window = new_window, outbound = [], carrier_gone = False,
      events = [], state = StOffline, streams = [], next_stream_id = first_stream_id (cfg_side cfg)\<rparr>"

definition emit :: "Session \<Rightarrow> SessionEvent \<Rightarrow> Session" where
  "emit s ev = s\<lparr>events := events s @ [ev]\<rparr>"

definition set_state :: "Session \<Rightarrow> SessionState \<Rightarrow> Session" where
  "set_state s st = (if state s \<noteq> st then emit (s\<lparr>state := st\<rparr>) (EvStateChanged st) else s)"

definition stream_count :: "Session \<Rightarrow> nat" where
  "stream_count s = length (streams s)"

definition is_ready :: "Session \<Rightarrow> bool" where
  "is_ready s \<longleftrightarrow> state s = StReady"

definition next_packet_no :: "Session \<Rightarrow> nat option" where
  "next_packet_no s = next_unused (send_allocator s)"

definition send_key :: "Session \<Rightarrow> bytes" where
  "send_key s = message_key (keys s) (send_direction (cfg_side (config s)))"

definition recv_key :: "Session \<Rightarrow> bytes" where
  "recv_key s = message_key (keys s) (recv_direction (cfg_side (config s)))"

section \<open>Sending\<close>

type_synonym 'a outcome = "Session \<times> (SessionError + 'a)"

text \<open>The question-mark operator after a call that changes the state.\<close>

definition andthen :: "'a outcome \<Rightarrow> (Session \<Rightarrow> 'a \<Rightarrow> 'b outcome) \<Rightarrow> 'b outcome" where
  "andthen o1 f = (case o1 of (s, Inl e) \<Rightarrow> (s, Inl e) | (s, Inr x) \<Rightarrow> f s x)"

definition outgoing :: "MessageKind \<Rightarrow> Canonical \<Rightarrow> bytes \<Rightarrow> Record" where
  "outgoing k md pl = (if pl = [] \<and> \<not> carries_payload k then record_new k md else with_payload k md pl)"

definition send :: "crypto_crate \<Rightarrow> Session \<Rightarrow> MessageKind \<Rightarrow> Canonical \<Rightarrow> bytes \<Rightarrow> unit outcome" where
  "send cr s k md pl =
     (case encode (outgoing k md pl) of
        Inl e \<Rightarrow> (s, Inl (RecordErr e))
      | Inr msg \<Rightarrow>
          (case allocate (send_allocator s) of
             (Inl e, a) \<Rightarrow> (s\<lparr>send_allocator := a\<rparr>, Inl (PacketNoErr e))
           | (Inr pn, a) \<Rightarrow>
               let s = s\<lparr>send_allocator := a\<rparr> in
               case seal cr (send_key s) (ctx s) (send_direction (cfg_side (config s))) pn msg of
                 Inl e \<Rightarrow> (s, Inl (EnvelopeErr e))
               | Inr env \<Rightarrow>
                   if carrier_gone s then (s, Inl SessionClosed)
                   else (s\<lparr>outbound := outbound s @ [env]\<rparr>, Inr ())))"

definition send_control :: "crypto_crate \<Rightarrow> Session \<Rightarrow> MessageKind \<Rightarrow> Canonical \<Rightarrow> unit outcome" where
  "send_control cr s k md = send cr s k md []"

definition send_hello :: "crypto_crate \<Rightarrow> hex_crate \<Rightarrow> Session \<Rightarrow> HelloFields \<Rightarrow> unit outcome" where
  "send_hello cr h s hello = send_control cr s Hello (hello_to_canonical h hello)"

definition send_hello_ok :: "crypto_crate \<Rightarrow> hex_crate \<Rightarrow> Session \<Rightarrow> HelloOkFields \<Rightarrow> unit outcome" where
  "send_hello_ok cr h s hello_ok =
     andthen (send_control cr s HelloOk (hello_ok_to_canonical h hello_ok)) (\<lambda>s _. (set_state s StReady, Inr ()))"

definition close_stream :: "Session \<Rightarrow> nat \<Rightarrow> Session" where
  "close_stream s sid = s\<lparr>streams := hm_remove sid (streams s)\<rparr>"

text \<open>\<open>fetch_add(2)\<close> wraps at \<open>2 ^ 64\<close>; the id is refused when adding 2 to it would wrap.\<close>

definition allocate_stream_id :: "Session \<Rightarrow> nat outcome" where
  "allocate_stream_id s =
     (let i = next_stream_id s; s = s\<lparr>next_stream_id := (i + 2) mod 2 ^ 64\<rparr> in
      case checked_add i 2 of None \<Rightarrow> (s, Inl StreamIdsExhausted) | Some _ \<Rightarrow> (s, Inr i))"

definition put_stream :: "Session \<Rightarrow> nat \<Rightarrow> StreamEntry \<Rightarrow> Session" where
  "put_stream s sid en = s\<lparr>streams := hm_insert sid en (streams s)\<rparr>"

definition session_open ::
    "crypto_crate \<Rightarrow> hex_crate \<Rightarrow> Session \<Rightarrow> Destination \<Rightarrow> string list \<Rightarrow> Proto \<Rightarrow> bytes \<Rightarrow> (nat \<times> bytes) outcome" where
  "session_open cr h s destination hops proto request_id =
     andthen (allocate_stream_id s) (\<lambda>s sid.
       if length (streams s) \<ge> cfg_max_streams (config s) then (s, Inl (TooManyStreams (length (streams s))))
       else
         let s = put_stream s sid (StreamEntry_new (cfg_flow_window (config s)));
             f = \<lparr>open_request_id = request_id, open_stream_id = sid, open_proto = proto,
                  open_destination = destination, open_via = hops\<rparr>
         in andthen (send_control cr s Open (open_to_canonical h f)) (\<lambda>s _. (s, Inr (sid, request_id))))"

definition send_ready :: "crypto_crate \<Rightarrow> Session \<Rightarrow> nat \<Rightarrow> unit outcome" where
  "send_ready cr s sid = send_control cr s Ready (ready_to_canonical \<lparr>ready_stream_id = sid\<rparr>)"

definition send_open_result :: "crypto_crate \<Rightarrow> hex_crate \<Rightarrow> Session \<Rightarrow> OpenResultFields \<Rightarrow> unit outcome" where
  "send_open_result cr h s f =
     andthen (send_control cr s OpenResult (open_result_to_canonical h f)) (\<lambda>s _.
       if res_status f = StatusOk then send_ready cr s (res_stream_id f)
       else (close_stream s (res_stream_id f), Inr ()))"

text \<open>The loop of \<open>send_data\<close> over the unsent rest of the payload, at most \<open>MAX_TCP_PAYLOAD\<close> a record.\<close>

function send_chunks :: "crypto_crate \<Rightarrow> Session \<Rightarrow> nat \<Rightarrow> nat \<Rightarrow> bytes \<Rightarrow> unit outcome" where
  "send_chunks cr s sid off pl =
     (if pl = [] then (s, Inr ())
      else let k = min (length pl) MAX_TCP_PAYLOAD in
        andthen (send cr s Data (data_to_canonical \<lparr>data_stream_id = sid, data_offset = off\<rparr>) (take k pl)) (\<lambda>s _.
          send_chunks cr
            (case map_of (streams s) sid of Some en \<Rightarrow> put_stream s sid (en\<lparr>send_offset := off + k\<rparr>) | None \<Rightarrow> s)
            sid (off + k) (drop k pl)))"
  by pat_completeness auto
termination
  by (relation "measure (\<lambda>(cr, s, sid, off, pl). length pl)") (auto simp: MAX_TCP_PAYLOAD_def kib_def)

declare send_chunks.simps [simp del]

definition send_data :: "crypto_crate \<Rightarrow> Session \<Rightarrow> nat \<Rightarrow> bytes \<Rightarrow> nat outcome" where
  "send_data cr s sid pl =
     (if pl = [] then (s, Inr 0)
      else case map_of (streams s) sid of
        None \<Rightarrow> (s, Inl (UnknownStream sid))
      | Some en \<Rightarrow>
          (case checked_add (send_offset en) (length pl) of
             None \<Rightarrow> (s, Inl (StreamErr OffsetOverflow))
           | Some e \<Rightarrow>
               if e > send_limit en then (s, Inl (StreamErr (CreditExceeded e (send_limit en))))
               else andthen (send_chunks cr s sid (send_offset en) pl) (\<lambda>s _. (s, Inr (length pl)))))"

definition send_fin :: "crypto_crate \<Rightarrow> Session \<Rightarrow> nat \<Rightarrow> nat outcome" where
  "send_fin cr s sid =
     (case map_of (streams s) sid of
        None \<Rightarrow> (s, Inl (UnknownStream sid))
      | Some en \<Rightarrow>
          if fin_sent en then (s, Inr (send_offset en))
          else
            let s = put_stream s sid (en\<lparr>fin_sent := True\<rparr>) in
            andthen (send_control cr s Fin (fin_to_canonical \<lparr>fin_stream_id = sid, fin_final_offset = send_offset en\<rparr>))
              (\<lambda>s _. (s, Inr (send_offset en))))"

definition send_reset :: "crypto_crate \<Rightarrow> Session \<Rightarrow> nat \<Rightarrow> ResetReason \<Rightarrow> unit outcome" where
  "send_reset cr s sid reason =
     andthen (send_control cr s Reset (reset_to_canonical \<lparr>reset_stream_id = sid, reset_reason = reason\<rparr>))
       (\<lambda>s _. (close_stream s sid, Inr ()))"

definition send_resume :: "crypto_crate \<Rightarrow> Session \<Rightarrow> nat \<Rightarrow> nat \<Rightarrow> unit outcome" where
  "send_resume cr s sid off =
     send_control cr s Resume (resume_to_canonical \<lparr>resume_stream_id = sid, resume_received_offset = off\<rparr>)"

definition send_cancel_candidate :: "crypto_crate \<Rightarrow> hex_crate \<Rightarrow> Session \<Rightarrow> bytes \<Rightarrow> unit outcome" where
  "send_cancel_candidate cr h s attempt_id =
     send_control cr s CancelCandidate (cancel_to_canonical h \<lparr>cancel_attempt_id = attempt_id\<rparr>)"

definition send_ping :: "crypto_crate \<Rightarrow> Session \<Rightarrow> unit outcome" where
  "send_ping cr s = send_control cr s Ping empty_metadata"

definition send_pong :: "crypto_crate \<Rightarrow> Session \<Rightarrow> unit outcome" where
  "send_pong cr s = send_control cr s Pong empty_metadata"

definition send_bye :: "crypto_crate \<Rightarrow> Session \<Rightarrow> string \<Rightarrow> unit outcome" where
  "send_bye cr s reason =
     andthen (send_control cr s Bye (bye_to_canonical \<lparr>bye_reason = reason\<rparr>)) (\<lambda>s _. (set_state s StClosed, Inr ()))"

definition send_peer_list :: "crypto_crate \<Rightarrow> Session \<Rightarrow> Canonical \<Rightarrow> unit outcome" where
  "send_peer_list cr s peer_list = send_control cr s PeerList peer_list"

definition send_datagram :: "crypto_crate \<Rightarrow> Session \<Rightarrow> Canonical \<Rightarrow> bytes \<Rightarrow> unit outcome" where
  "send_datagram cr s md pl = send cr s Datagram md pl"

definition progress_of :: "nat \<Rightarrow> StreamEntry \<Rightarrow> ProgressFields" where
  "progress_of sid en =
     \<lparr>prog_stream_id = sid, prog_received_offset = received (credit en),
      prog_consumed_offset = consumed (credit en), prog_limit_offset = limit (credit en)\<rparr>"

definition consume :: "crypto_crate \<Rightarrow> Session \<Rightarrow> nat \<Rightarrow> nat \<Rightarrow> ProgressFields option outcome" where
  "consume cr s sid n =
     (case map_of (streams s) sid of
        None \<Rightarrow> (s, Inl (UnknownStream sid))
      | Some en \<Rightarrow>
          (case credit_consume (credit en) n of
             Inl e \<Rightarrow> (s, Inl (StreamErr e))
           | Inr (c, grant) \<Rightarrow>
               let en = en\<lparr>credit := c\<rparr>; s = put_stream s sid en in
               if grant = 0 then (s, Inr None)
               else andthen (send_control cr s Progress (progress_to_canonical (progress_of sid en)))
                 (\<lambda>s _. (s, Inr (Some (progress_of sid en))))))"

definition progress_fields :: "Session \<Rightarrow> nat \<Rightarrow> SessionError + ProgressFields" where
  "progress_fields s sid =
     (case map_of (streams s) sid of None \<Rightarrow> Inl (UnknownStream sid) | Some en \<Rightarrow> Inr (progress_of sid en))"

definition send_progress_now :: "crypto_crate \<Rightarrow> Session \<Rightarrow> nat \<Rightarrow> ProgressFields outcome" where
  "send_progress_now cr s sid =
     (case progress_fields s sid of
        Inl e \<Rightarrow> (s, Inl e)
      | Inr f \<Rightarrow> andthen (send_control cr s Progress (progress_to_canonical f)) (\<lambda>s _. (s, Inr f)))"

definition offsets :: "Session \<Rightarrow> nat \<Rightarrow> (nat \<times> nat \<times> nat) option" where
  "offsets s sid = map_option (\<lambda>en. (send_offset en, send_limit en, received (credit en))) (map_of (streams s) sid)"

section \<open>Receiving\<close>

text \<open>\<open>record_received\<close> for every delivered block; an error leaves the blocks before it recorded.\<close>

fun record_all :: "CreditAccount \<Rightarrow> (nat \<times> bytes) list \<Rightarrow> CreditAccount \<times> (StreamError + unit)" where
  "record_all c [] = (c, Inr ())"
| "record_all c ((off, d) # rest) =
     (case record_received c off (length d) of
        Inl e \<Rightarrow> (c, Inl e)
      | Inr c' \<Rightarrow> record_all c' rest)"

definition deliver_data :: "Session \<Rightarrow> DataFields \<Rightarrow> bytes \<Rightarrow> unit outcome" where
  "deliver_data s f pl =
     (let sid = data_stream_id f in
      case map_of (streams s) sid of
        None \<Rightarrow> (s, Inl (UnknownStream sid))
      | Some en \<Rightarrow>
          (case insert_offsets (recv en) (data_offset f) pl of
             Inl e \<Rightarrow> (s, Inl (StreamErr e))
           | Inr (b, delivered) \<Rightarrow>
               (case record_all (credit en) delivered of
                  (c, Inl e) \<Rightarrow> (put_stream s sid (en\<lparr>recv := b, credit := c\<rparr>), Inl (StreamErr e))
                | (c, Inr _) \<Rightarrow>
                    (foldl (\<lambda>s (off, d). emit s (EvData sid off d))
                       (put_stream s sid (en\<lparr>recv := b, credit := c\<rparr>)) delivered, Inr ()))))"

definition with_fields :: "Session \<Rightarrow> MessageError + 'f \<Rightarrow> ('f \<Rightarrow> unit outcome) \<Rightarrow> unit outcome" where
  "with_fields s r f = (case r of Inl e \<Rightarrow> (s, Inl (SessionMessageErr e)) | Inr x \<Rightarrow> f x)"

definition dispatch_open :: "crypto_crate \<Rightarrow> hex_crate \<Rightarrow> Session \<Rightarrow> OpenFields \<Rightarrow> unit outcome" where
  "dispatch_open cr h s f =
     (if state s \<noteq> StReady then (fst (send_reset cr s (open_stream_id f) ProtocolError), Inl NotReady)
      else
        let s = (if map_of (streams s) (open_stream_id f) = None
                 then put_stream s (open_stream_id f) (StreamEntry_new (cfg_flow_window (config s))) else s)
        in (emit s (EvOpen f), Inr ()))"

definition update_stream :: "Session \<Rightarrow> nat \<Rightarrow> (StreamEntry \<Rightarrow> StreamEntry) \<Rightarrow> Session" where
  "update_stream s sid f = (case map_of (streams s) sid of Some en \<Rightarrow> put_stream s sid (f en) | None \<Rightarrow> s)"

primrec dispatch_kind :: "crypto_crate \<Rightarrow> hex_crate \<Rightarrow> Session \<Rightarrow> Canonical \<Rightarrow> bytes \<Rightarrow> MessageKind \<Rightarrow> unit outcome" where
  "dispatch_kind cr h s md pl Ping = (emit s EvPing, Inr ())"
| "dispatch_kind cr h s md pl Pong = (emit s EvPong, Inr ())"
| "dispatch_kind cr h s md pl Hello = with_fields s (hello_from_canonical h md) (\<lambda>f. (emit s (EvHello f), Inr ()))"
| "dispatch_kind cr h s md pl HelloOk =
     with_fields s (hello_ok_from_canonical h md) (\<lambda>f. (emit (set_state s StReady) (EvHelloOk f), Inr ()))"
| "dispatch_kind cr h s md pl Open = with_fields s (open_from_canonical h md) (dispatch_open cr h s)"
| "dispatch_kind cr h s md pl OpenResult =
     with_fields s (open_result_from_canonical h md) (\<lambda>f.
       (emit (if res_status f \<noteq> StatusOk then close_stream s (res_stream_id f) else s) (EvOpenResult f), Inr ()))"
| "dispatch_kind cr h s md pl QueryResult =
     with_fields s (open_result_from_canonical h md) (\<lambda>f. (emit s (EvQueryResult f), Inr ()))"
| "dispatch_kind cr h s md pl Ready = with_fields s (ready_from_canonical md) (\<lambda>f. (emit s (EvReady f), Inr ()))"
| "dispatch_kind cr h s md pl Data = with_fields s (data_from_canonical md) (\<lambda>f. deliver_data s f pl)"
| "dispatch_kind cr h s md pl Datagram = (emit s (EvDatagram md pl), Inr ())"
| "dispatch_kind cr h s md pl Fin =
     with_fields s (fin_from_canonical md) (\<lambda>f.
       (emit (update_stream s (fin_stream_id f) (\<lambda>en. en\<lparr>fin_received := Some (fin_final_offset f)\<rparr>)) (EvFin f), Inr ()))"
| "dispatch_kind cr h s md pl Reset =
     with_fields s (reset_from_canonical md) (\<lambda>f. (emit (close_stream s (reset_stream_id f)) (EvReset f), Inr ()))"
| "dispatch_kind cr h s md pl Progress =
     with_fields s (progress_from_canonical md) (\<lambda>f.
       (emit (update_stream s (prog_stream_id f) (\<lambda>en. en\<lparr>send_limit := max (send_limit en) (prog_limit_offset f)\<rparr>))
          (EvProgress f), Inr ()))"
| "dispatch_kind cr h s md pl Resume = with_fields s (resume_from_canonical md) (\<lambda>f. (emit s (EvResume f), Inr ()))"
| "dispatch_kind cr h s md pl CancelCandidate =
     with_fields s (cancel_from_canonical h md) (\<lambda>f. (emit s (EvCancelCandidate f), Inr ()))"
| "dispatch_kind cr h s md pl Bye =
     with_fields s (bye_from_canonical md) (\<lambda>f. (emit (set_state s StClosed) (EvBye f), Inr ()))"
| "dispatch_kind cr h s md pl PeerList = (emit s (EvPeerList md), Inr ())"
| "dispatch_kind cr h s md pl Auth =
     (emit (set_state s StClosed) (EvBye \<lparr>bye_reason = ''unexpected bootstrap message''\<rparr>), Inr ())"
| "dispatch_kind cr h s md pl AuthOk =
     (emit (set_state s StClosed) (EvBye \<lparr>bye_reason = ''unexpected bootstrap message''\<rparr>), Inr ())"

definition dispatch :: "crypto_crate \<Rightarrow> hex_crate \<Rightarrow> Session \<Rightarrow> Record \<Rightarrow> unit outcome" where
  "dispatch cr h s rc = dispatch_kind cr h s (metadata rc) (payload rc) (kind rc)"

definition feed :: "crypto_crate \<Rightarrow> hex_crate \<Rightarrow> Session \<Rightarrow> bytes \<Rightarrow> unit outcome" where
  "feed cr h s env =
     (case open_envelope cr (recv_key s) (ctx s) (recv_direction (cfg_side (config s))) env of
        Inl e \<Rightarrow> (s, Inl (EnvelopeErr e))
      | Inr opened \<Rightarrow>
          (case check_and_record (recv_window s) (packet_no opened) of
             Inl e \<Rightarrow> (s, Inl (ReplayErr e))
           | Inr win \<Rightarrow>
               let s = s\<lparr>recv_window := win\<rparr> in
               case decode (plaintext opened) of
                 Inl e \<Rightarrow> (s, Inl (RecordErr e))
               | Inr rc \<Rightarrow> dispatch cr h s rc))"

definition feed_lossy :: "crypto_crate \<Rightarrow> hex_crate \<Rightarrow> Session \<Rightarrow> bytes \<Rightarrow> Session \<times> bool" where
  "feed_lossy cr h s env =
     (case feed cr h s env of
        (s', Inr _) \<Rightarrow> (s', True)
      | (s', Inl (ReplayErr (Duplicate pn))) \<Rightarrow> (emit s' (EvDropped pn), True)
      | (s', Inl _) \<Rightarrow> (s', False))"

end
