(* ===== verification/Session_Run.thy ===== *)
theory Session_Run
  imports Engine "HOL-Library.Sublist"
begin

text \<open>
  Runs of the session engine: every public method of \<open>engine.rs\<close> as one call, and the runs they form. The
  locale \<open>session_keep\<close> is the contract between the engine and a claim about its state: a relation between
  the state before and after that the primitive updates keep is kept by every method but opening a stream; its
  extension \<open>session_frame\<close> allows for the stream id taken there and covers every method, hence every run.
  It is instantiated with the well-formedness of the state, with what never changes, and with the memory of
  the replay window.
\<close>

section \<open>Calls and runs\<close>

datatype session_call =
    CFeed bytes
  | CFeedLossy bytes
  | CSetState SessionState
  | CSend MessageKind Canonical bytes
  | CSendHello HelloFields
  | CSendHelloOk HelloOkFields
  | COpen Destination "string list" Proto bytes
  | CSendOpenResult OpenResultFields
  | CSendReady nat
  | CSendData nat bytes
  | CSendFin nat
  | CSendReset nat ResetReason
  | CSendResume nat nat
  | CSendCancelCandidate bytes
  | CSendPing
  | CSendPong
  | CSendBye string
  | CSendPeerList Canonical
  | CSendDatagram Canonical bytes
  | CConsume nat nat
  | CSendProgressNow nat
  | CCloseStream nat
  | CCarrierGone                     \<comment> \<open>the receiver of the outbound channel is dropped\<close>

primrec session_step :: "crypto_crate \<Rightarrow> hex_crate \<Rightarrow> Session \<Rightarrow> session_call \<Rightarrow> Session" where
  "session_step cr h s (CFeed env) = fst (feed cr h s env)"
| "session_step cr h s (CFeedLossy env) = fst (feed_lossy cr h s env)"
| "session_step cr h s (CSetState st) = set_state s st"
| "session_step cr h s (CSend k md pl) = fst (send cr s k md pl)"
| "session_step cr h s (CSendHello f) = fst (send_hello cr h s f)"
| "session_step cr h s (CSendHelloOk f) = fst (send_hello_ok cr h s f)"
| "session_step cr h s (COpen d hops p rid) = fst (session_open cr h s d hops p rid)"
| "session_step cr h s (CSendOpenResult f) = fst (send_open_result cr h s f)"
| "session_step cr h s (CSendReady sid) = fst (send_ready cr s sid)"
| "session_step cr h s (CSendData sid pl) = fst (send_data cr s sid pl)"
| "session_step cr h s (CSendFin sid) = fst (send_fin cr s sid)"
| "session_step cr h s (CSendReset sid r) = fst (send_reset cr s sid r)"
| "session_step cr h s (CSendResume sid off) = fst (send_resume cr s sid off)"
| "session_step cr h s (CSendCancelCandidate a) = fst (send_cancel_candidate cr h s a)"
| "session_step cr h s CSendPing = fst (send_ping cr s)"
| "session_step cr h s CSendPong = fst (send_pong cr s)"
| "session_step cr h s (CSendBye r) = fst (send_bye cr s r)"
| "session_step cr h s (CSendPeerList md) = fst (send_peer_list cr s md)"
| "session_step cr h s (CSendDatagram md pl) = fst (send_datagram cr s md pl)"
| "session_step cr h s (CConsume sid n) = fst (consume cr s sid n)"
| "session_step cr h s (CSendProgressNow sid) = fst (send_progress_now cr s sid)"
| "session_step cr h s (CCloseStream sid) = close_stream s sid"
| "session_step cr h s CCarrierGone = s\<lparr>carrier_gone := True\<rparr>"

definition session_run :: "crypto_crate \<Rightarrow> hex_crate \<Rightarrow> Session \<Rightarrow> session_call list \<Rightarrow> Session" where
  "session_run cr h s calls = foldl (session_step cr h) s calls"

section \<open>What one primitive update may do\<close>

text \<open>The changes of one stream entry: created, bytes received or consumed, bytes sent within the limit, a
  limit raised, a FIN noted.\<close>

inductive entry_step :: "nat \<Rightarrow> StreamEntry option \<Rightarrow> StreamEntry \<Rightarrow> bool" for w where
  created: "entry_step w en (StreamEntry_new w)"
| delivered: "insert_offsets (recv en) off pl = Inr (b, ds) \<Longrightarrow> record_all (credit en) ds = (c, r) \<Longrightarrow>
    entry_step w (Some en) (en\<lparr>recv := b, credit := c\<rparr>)"
| consumed: "credit_consume (credit en) n = Inr (c, g) \<Longrightarrow> entry_step w (Some en) (en\<lparr>credit := c\<rparr>)"
| sent: "send_offset en \<le> n \<Longrightarrow> n \<le> send_limit en \<Longrightarrow> entry_step w (Some en) (en\<lparr>send_offset := n\<rparr>)"
| raised: "entry_step w (Some en) (en\<lparr>send_limit := max (send_limit en) n\<rparr>)"
| fin_out: "entry_step w (Some en) (en\<lparr>fin_sent := True\<rparr>)"
| fin_in: "entry_step w (Some en) (en\<lparr>fin_received := Some n\<rparr>)"

text \<open>What sending keeps of the rest of the state.\<close>

lemma send_frame:
  "streams (fst (send cr s k md pl)) = streams s" "config (fst (send cr s k md pl)) = config s"
  "state (fst (send cr s k md pl)) = state s" "events (fst (send cr s k md pl)) = events s"
  "recv_window (fst (send cr s k md pl)) = recv_window s" "ctx (fst (send cr s k md pl)) = ctx s"
  "keys (fst (send cr s k md pl)) = keys s" "next_stream_id (fst (send cr s k md pl)) = next_stream_id s"
  by (auto simp: send_def Let_def split: sum.splits prod.splits)

lemma fst_andthen: "fst (andthen out1 f) = (case snd out1 of Inl e \<Rightarrow> fst out1 | Inr x \<Rightarrow> fst (f (fst out1) x))"
  by (simp add: andthen_def split: prod.splits sum.splits)

section \<open>Relations kept by every method\<close>

locale session_keep =
  fixes cr :: crypto_crate
    and rel :: "Session \<Rightarrow> Session \<Rightarrow> bool"
  assumes rel_refl: "rel s s"
    and rel_trans: "rel s s' \<Longrightarrow> rel s' s'' \<Longrightarrow> rel s s''"
    and rel_emit: "rel s (s\<lparr>events := events s @ evs\<rparr>)"
    and rel_state: "rel s (s\<lparr>state := st\<rparr>)"
    and rel_gone: "rel s (s\<lparr>carrier_gone := True\<rparr>)"
    and rel_window: "check_and_record (recv_window s) pn = Inr win \<Longrightarrow> rel s (s\<lparr>recv_window := win\<rparr>)"
    and rel_put: "entry_step (cfg_flow_window (config s)) (map_of (streams s) sid) en \<Longrightarrow> rel s (put_stream s sid en)"
    and rel_close: "rel s (close_stream s sid)"
    and rel_send: "rel s (fst (send cr s k md pl))"
begin

lemma rel_emit1: "rel s (emit s ev)"
  using rel_emit by (simp add: emit_def)

lemma rel_set_state: "rel s (set_state s st)"
  using rel_trans [OF rel_state rel_emit1] rel_refl by (simp add: set_state_def)

lemma rel_andthen:
  "rel s (fst out1) \<Longrightarrow> (\<And>s' x. out1 = (s', Inr x) \<Longrightarrow> rel s' (fst (f s' x))) \<Longrightarrow> rel s (fst (andthen out1 f))"
  by (cases out1) (auto simp: andthen_def split: sum.splits intro: rel_trans)

lemma rel_control: "rel s (fst (send_control cr s k md))"
  by (simp add: send_control_def rel_send)

lemma rel_reset: "rel s (fst (send_reset cr s sid r))"
  unfolding send_reset_def by (rule rel_andthen [OF rel_control]) (simp add: rel_close)

lemma rel_ready: "rel s (fst (send_ready cr s sid))"
  by (simp add: send_ready_def rel_control)

lemma rel_chunks:
  "map_of (streams s) sid = Some en \<Longrightarrow> send_offset en \<le> off \<Longrightarrow> off + length pl \<le> send_limit en \<Longrightarrow>
   rel s (fst (send_chunks cr s sid off pl))"
proof (induction pl arbitrary: s off en rule: length_induct)
  case (1 pl)
  show ?case
  proof (cases "pl = []")
    case True
    then show ?thesis by (subst send_chunks.simps) (simp add: rel_refl)
  next
    case False
    define k where "k = min (length pl) MAX_TCP_PAYLOAD"
    have k: "k \<le> length pl" "length (drop k pl) < length pl" using False by (simp_all add: k_def limit_defs)
    let ?out = "send cr s Data (data_to_canonical \<lparr>data_stream_id = sid, data_offset = off\<rparr>) (take k pl)"
    show ?thesis
      unfolding send_chunks.simps [of cr s sid off pl] Let_def k_def [symmetric] if_not_P [OF False]
    proof (rule rel_andthen [OF rel_send])
      fix s' x
      assume out: "?out = (s', Inr x)"
      let ?s = "put_stream s' sid (en\<lparr>send_offset := off + k\<rparr>)"
      have same: "streams s' = streams s" "config s' = config s"
        using send_frame(1,2) [of cr s Data "data_to_canonical \<lparr>data_stream_id = sid, data_offset = off\<rparr>" "take k pl"]
        unfolding out by simp_all
      have "rel s' ?s" using "1.prems" k by (intro rel_put) (auto simp: same intro: sent)
      moreover have "rel ?s (fst (send_chunks cr ?s sid (off + k) (drop k pl)))"
        by (rule "1.IH" [rule_format, OF k(2), of _ "en\<lparr>send_offset := off + k\<rparr>"])
          (use k(1) "1.prems" in \<open>auto simp: put_stream_def same update_conv'\<close>)
      ultimately show "rel s' (fst (send_chunks cr (case map_of (streams s') sid of None \<Rightarrow> s'
          | Some en \<Rightarrow> put_stream s' sid (en\<lparr>send_offset := off + k\<rparr>)) sid (off + k) (drop k pl)))"
        using "1.prems"(1) by (auto simp: same intro: rel_trans)
    qed
  qed
qed

lemma rel_data: "rel s (fst (send_data cr s sid pl))"
proof (cases "map_of (streams s) sid")
  case None
  then show ?thesis by (simp add: send_data_def rel_refl)
next
  case (Some en)
  have "rel s (fst (andthen (send_chunks cr s sid (send_offset en) pl) (\<lambda>s _. (s, Inr (length pl)))))"
    if "send_offset en + length pl \<le> send_limit en"
    using rel_chunks [OF Some order_refl that] by (rule rel_andthen) (simp add: rel_refl)
  with Some show ?thesis
    by (auto simp: send_data_def rel_refl split: option.splits)
qed

lemma rel_fin: "rel s (fst (send_fin cr s sid))"
proof (cases "map_of (streams s) sid")
  case None
  then show ?thesis by (simp add: send_fin_def rel_refl)
next
  case (Some en)
  have "rel s (put_stream s sid (en\<lparr>fin_sent := True\<rparr>))" by (rule rel_put) (simp add: Some fin_out)
  then show ?thesis
    by (auto simp: send_fin_def Some Let_def rel_refl intro!: rel_andthen intro: rel_trans [OF _ rel_control])
qed

lemma rel_consume: "rel s (fst (consume cr s sid n))"
proof (cases "map_of (streams s) sid")
  case None
  then show ?thesis by (simp add: consume_def rel_refl)
next
  case (Some en)
  have "rel s (put_stream s sid (en\<lparr>credit := c\<rparr>))" if "credit_consume (credit en) n = Inr (c, g)" for c g
    by (rule rel_put) (simp add: Some consumed [OF that])
  then show ?thesis
    by (auto simp: consume_def Some Let_def rel_refl split: sum.splits prod.splits
        intro!: rel_andthen intro: rel_trans [OF _ rel_control])
qed

lemma rel_update:
  "(\<And>en. entry_step (cfg_flow_window (config s)) (Some en) (f en)) \<Longrightarrow> rel s (update_stream s sid f)"
  by (auto simp: update_stream_def rel_refl intro: rel_put split: option.splits)

lemma rel_deliver: "rel s (fst (deliver_data s f pl))"
proof (cases "map_of (streams s) (data_stream_id f)")
  case None
  then show ?thesis by (simp add: deliver_data_def Let_def rel_refl)
next
  case (Some en)
  show ?thesis
  proof (cases "insert_offsets (recv en) (data_offset f) pl")
    case (Inl e)
    then show ?thesis by (simp add: deliver_data_def Let_def Some rel_refl)
  next
    case (Inr bd)
    obtain b ds where bd: "bd = (b, ds)" by fastforce
    obtain c r where rc: "record_all (credit en) ds = (c, r)" by fastforce
    let ?p = "put_stream s (data_stream_id f) (en\<lparr>recv := b, credit := c\<rparr>)"
    have p: "rel s ?p" by (rule rel_put) (use Some delivered [OF _ rc] Inr bd in auto)
    have "rel s' (foldl (\<lambda>s (off, d). emit s (EvData sid off d)) s' xs)" for s' sid xs
      by (induction xs arbitrary: s') (auto simp: rel_refl intro: rel_trans [OF rel_emit1])
    with p show ?thesis
      by (auto simp: deliver_data_def Let_def Some Inr bd rc split: sum.splits intro: rel_trans)
  qed
qed

lemma rel_dispatch_open: "rel s (fst (dispatch_open cr h s f))"
proof -
  have "rel s (put_stream s sid (StreamEntry_new (cfg_flow_window (config s))))" for sid
    by (intro rel_put created)
  then show ?thesis
    by (auto simp: dispatch_open_def Let_def rel_reset intro: rel_emit1 rel_trans [OF _ rel_emit1])
qed

lemma rel_with_fields: "(\<And>x. r = Inr x \<Longrightarrow> rel s (fst (f x))) \<Longrightarrow> rel s (fst (with_fields s r f))"
  by (auto simp: with_fields_def rel_refl split: sum.splits)

lemma rel_then_emit: "rel s s' \<Longrightarrow> rel s (emit s' ev)"
  by (rule rel_trans [OF _ rel_emit1])

lemma rel_dispatch: "rel s (fst (dispatch cr h s rc))"
  unfolding dispatch_def
  by (cases "kind rc")
    (auto simp: rel_emit1 rel_set_state rel_close rel_deliver rel_dispatch_open fin_in raised
      intro!: rel_with_fields rel_then_emit rel_update rel_refl)

lemma rel_feed: "rel s (fst (feed cr h s env))"
proof -
  have "rel s (fst (dispatch cr h (s\<lparr>recv_window := win\<rparr>) rc))" "rel s (s\<lparr>recv_window := win\<rparr>)"
    if "check_and_record (recv_window s) pn = Inr win" for pn win rc
    using rel_trans [OF rel_window [OF that] rel_dispatch] rel_window [OF that] by simp_all
  then show ?thesis
    by (auto simp: feed_def Let_def rel_refl split: sum.splits)
qed

lemma rel_feed_lossy: "rel s (fst (feed_lossy cr h s env))"
  using rel_feed [of s h env]
  by (auto simp: feed_lossy_def split: prod.splits sum.splits SessionError.splits ReplayError.splits intro: rel_then_emit)

lemma rel_step_keep:
  assumes "\<And>d hops p rid. c \<noteq> COpen d hops p rid"
  shows "rel s (session_step cr h s c)"
proof (cases c)
  case (CSendOpenResult f)
  have "rel s (fst (send_open_result cr h s f))" unfolding send_open_result_def
    by (rule rel_andthen [OF rel_control]) (simp add: rel_ready rel_close)
  with CSendOpenResult show ?thesis by simp
next
  case (CSendHelloOk f)
  have "rel s (fst (send_hello_ok cr h s f))" unfolding send_hello_ok_def
    by (rule rel_andthen [OF rel_control]) (simp add: rel_set_state)
  with CSendHelloOk show ?thesis by simp
next
  case (CSendBye r)
  have "rel s (fst (send_bye cr s r))" unfolding send_bye_def
    by (rule rel_andthen [OF rel_control]) (simp add: rel_set_state)
  with CSendBye show ?thesis by simp
next
  case (CSendProgressNow sid)
  have "rel s (fst (andthen (send_control cr s Progress md) (\<lambda>s _. (s, Inr f))))" for md and f :: ProgressFields
    by (rule rel_andthen [OF rel_control]) (simp add: rel_refl)
  with CSendProgressNow show ?thesis by (auto simp: send_progress_now_def rel_refl split: sum.splits)
qed (use assms in \<open>auto simp: rel_feed rel_feed_lossy rel_set_state rel_send rel_ready rel_data rel_fin rel_reset
    rel_consume rel_close rel_gone send_hello_def send_resume_def send_cancel_candidate_def send_ping_def send_pong_def
    send_peer_list_def send_datagram_def rel_control\<close>)

end

text \<open>Opening a stream also takes the next stream id.\<close>

locale session_frame = session_keep +
  assumes rel_ids: "rel s (s\<lparr>next_stream_id := (next_stream_id s + 2) mod 2 ^ 64\<rparr>)"
begin

lemma rel_open: "rel s (fst (session_open cr h s d hops p rid))"
  unfolding session_open_def
proof (rule rel_andthen)
  show "rel s (fst (allocate_stream_id s))"
    using rel_ids [of s] by (simp add: allocate_stream_id_def Let_def split: option.splits)
next
  fix s' sid
  have "rel s' (put_stream s' sid (StreamEntry_new (cfg_flow_window (config s'))))"
    by (intro rel_put created)
  then show "rel s' (fst (if cfg_max_streams (config s') \<le> length (streams s')
      then (s', Inl (TooManyStreams (length (streams s'))))
      else let s = put_stream s' sid (StreamEntry_new (cfg_flow_window (config s')));
               f = \<lparr>open_request_id = rid, open_stream_id = sid, open_proto = p, open_destination = d, open_via = hops\<rparr>
           in andthen (send_control cr s Open (open_to_canonical h f)) (\<lambda>s _. (s, Inr (sid, rid)))))"
    by (auto simp: Let_def rel_refl intro!: rel_andthen intro: rel_trans [OF _ rel_control])
qed

lemma rel_step: "rel s (session_step cr h s c)"
proof (cases "\<exists>d hops p rid. c = COpen d hops p rid")
  case True
  then show ?thesis using rel_open by auto
next
  case False
  then show ?thesis by (intro rel_step_keep) auto
qed

lemma rel_run: "rel s (session_run cr h s calls)"
  unfolding session_run_def
  by (induction calls arbitrary: s) (auto simp: rel_refl intro: rel_trans [OF rel_step])

end

section \<open>Well-formed sessions\<close>

definition envelope_packet_no :: "bytes \<Rightarrow> nat" where
  "envelope_packet_no env = of_be_bytes (take 8 (drop 17 env))"

definition entry_ok :: "StreamEntry \<Rightarrow> bool" where
  "entry_ok en \<longleftrightarrow> rb_inv (recv en) \<and> credit_inv (credit en) \<and> received (credit en) \<le> rb_next (recv en)
     \<and> send_offset en \<le> send_limit en"

definition session_inv :: "Session \<Rightarrow> bool" where
  "session_inv s \<longleftrightarrow>
     hm_inv (streams s)
   \<and> (\<forall>(sid, en) \<in> set (streams s). entry_ok en)
   \<and> even (next_stream_id s) = (cfg_side (config s) = HubSide)
   \<and> length (ctx_session_epoch (ctx s)) = SESSION_EPOCH_LEN
   \<and> sorted_wrt (<) (map envelope_packet_no (outbound s))
   \<and> (\<forall>env \<in> set (outbound s). envelope_packet_no env < next_no (send_allocator s))
   \<and> next_no (send_allocator s) \<le> EXHAUSTED"

lemma entry_ok_new: "entry_ok (StreamEntry_new w)"
  using credit_inv_new [of "min STREAM_INITIAL_CREDIT w" w] rb_inv_new [of 0]
  by (simp add: entry_ok_def StreamEntry_new_def Let_def STREAM_INITIAL_CREDIT_def kib_def u64_max_def
      credit_new_def rb_new_def rb_with_limit_def min_le_iff_disj del: min.bounded_iff)

text \<open>Recording the blocks that the reorder buffer delivers advances the received offset to the end of the
  last one recorded, never past the delivered bytes.\<close>

lemma record_all_ok:
  "credit_inv c \<Longrightarrow> received c \<le> a \<Longrightarrow> contiguous a ds e \<Longrightarrow> record_all c ds = (c', r) \<Longrightarrow>
   credit_inv c' \<and> received c' \<le> e \<and> received c \<le> received c'"
proof (induction c ds arbitrary: a rule: record_all.induct)
  case (1 c)
  then show ?case by simp
next
  case (2 c off d rest)
  show ?case
  proof (cases "record_received c off (length d)")
    case (Inl er)
    with 2 contiguous_bytes [of a "(off, d) # rest" e] show ?thesis by auto
  next
    case (Inr c1)
    then have c1: "credit_inv c1" "received c \<le> received c1" "received c1 \<le> a + length d"
      using "2.prems" record_received_inv [OF "2.prems"(1) Inr]
      by (auto simp: record_received_def result_simps split: if_splits)
    from "2.IH" [OF Inr c1(1,3)] "2.prems" Inr c1(2) show ?thesis by auto
  qed
qed

lemma entry_step_ok: "entry_step w prev en \<Longrightarrow> (\<And>en0. prev = Some en0 \<Longrightarrow> entry_ok en0) \<Longrightarrow> entry_ok en"
proof (induction rule: entry_step.induct)
  case (delivered en off pl b ds c r)
  then have ok: "rb_inv (recv en)" "credit_inv (credit en)" "received (credit en) \<le> rb_next (recv en)"
    "send_offset en \<le> send_limit en" by (simp_all add: entry_ok_def)
  note ins = insert_offsets_step [OF ok(1) delivered.hyps(1)]
  from record_all_ok [OF ok(2,3) ins(2) delivered.hyps(2)] ins(1) ok(4) show ?case by (simp add: entry_ok_def)
next
  case (consumed en n c g)
  then have "credit_inv (credit en)" by (simp add: entry_ok_def)
  from credit_consume_inv [OF this consumed.hyps] consumed show ?case
    by (auto simp: entry_ok_def credit_consume_def result_simps Let_def split: if_splits)
next
  case (created en)
  show ?case by (rule entry_ok_new)
qed (auto simp: entry_ok_def)

lemma put_stream_ok:
  assumes "hm_inv (streams s)" "\<forall>(sid, en) \<in> set (streams s). entry_ok en"
    "entry_step w (map_of (streams s) sid) en"
  shows "hm_inv (hm_insert sid en (streams s)) \<and> (\<forall>(k, en) \<in> set (hm_insert sid en (streams s)). entry_ok en)"
proof -
  have inv: "hm_inv (hm_insert sid en (streams s))" using assms(1) by (rule hm.inv_insert)
  have "entry_ok en"
    by (rule entry_step_ok [OF assms(3)]) (use assms(2) in \<open>auto dest: map_of_SomeD\<close>)
  moreover have "map_of (hm_insert sid en (streams s)) k = Some v" if "(k, v) \<in> set (hm_insert sid en (streams s))" for k v
    using that inv by (simp add: hm_inv_def)
  ultimately show ?thesis using inv assms(2)
    by (fastforce simp: update_conv' dest: map_of_SomeD split: if_splits)
qed

lemma sealed_packet_no:
  assumes "seal cr key cx dir pn msg = Inr env" "length (ctx_session_epoch cx) = SESSION_EPOCH_LEN" "pn \<le> u64_max"
  shows "envelope_packet_no env = pn"
  using assms by (auto simp: seal_Inr envelope_packet_no_def limit_defs of_be_bytes_u64)

text \<open>Sending either adds nothing to the outbound queue, or one envelope under the allocator's number.\<close>

lemma send_cases:
  obtains (quiet) "outbound (fst (send cr s k md pl)) = outbound s"
      "next_no (send_allocator s) \<le> next_no (send_allocator (fst (send cr s k md pl))) \<or>
       next_no (send_allocator (fst (send cr s k md pl))) = EXHAUSTED"
      "next_no (send_allocator s) \<le> EXHAUSTED \<Longrightarrow> next_no (send_allocator (fst (send cr s k md pl))) \<le> EXHAUSTED"
  | (sealed) msg env where "\<not> spent (next_no (send_allocator s))"
      "seal cr (send_key s) (ctx s) (send_direction (cfg_side (config s))) (next_no (send_allocator s)) msg = Inr env"
      "outbound (fst (send cr s k md pl)) = outbound s @ [env]"
      "next_no (send_allocator (fst (send cr s k md pl))) = next_no (send_allocator s) + 1"
proof (cases "\<exists>msg. encode (outgoing k md pl) = Inr msg
    \<and> \<not> spent (next_no (send_allocator s))")
  case False
  have "outbound (fst (send cr s k md pl)) = outbound s \<and>
      (send_allocator (fst (send cr s k md pl)) = send_allocator s \<or> next_no (send_allocator (fst (send cr s k md pl))) = EXHAUSTED)"
    using False by (auto simp: send_def allocate_def Let_def split: sum.splits)
  with quiet show thesis by fastforce
next
  case True
  then obtain msg where m: "encode (outgoing k md pl) = Inr msg"
    and ns: "\<not> spent (next_no (send_allocator s))" by blast
  have bnd: "Suc (next_no (send_allocator s)) \<le> EXHAUSTED" using ns by (auto simp: spent_def packet_no_defs)
  show thesis
  proof (cases "seal cr (send_key s) (ctx s) (send_direction (cfg_side (config s))) (next_no (send_allocator s)) msg")
    case (Inl e)
    with m ns bnd quiet show thesis by (auto simp: send_def allocate_def Let_def send_key_def)
  next
    case (Inr env)
    with m ns bnd quiet sealed show thesis
      by (cases "carrier_gone s") (auto simp: send_def allocate_def Let_def send_key_def)
  qed
qed

lemma send_keeps_inv: "session_inv s \<Longrightarrow> session_inv (fst (send cr s k md pl))"
proof (cases rule: send_cases [of cr s k md pl])
  case quiet
  assume "session_inv s"
  with quiet show ?thesis by (fastforce simp: session_inv_def send_frame)
next
  case (sealed msg env)
  assume inv: "session_inv s"
  have "envelope_packet_no env = next_no (send_allocator s)"
    using inv sealed(1) by (intro sealed_packet_no [OF sealed(2)]) (auto simp: session_inv_def spent_def packet_no_defs)
  with inv sealed show ?thesis
    by (auto simp: session_inv_def send_frame sorted_wrt_append spent_def packet_no_defs)
qed

definition sealed_by_session :: "crypto_crate \<Rightarrow> Session \<Rightarrow> bool" where
  "sealed_by_session cr s \<longleftrightarrow>
     (\<forall>env \<in> set (outbound s). \<exists>msg. seal cr (send_key s) (ctx s) (send_direction (cfg_side (config s)))
        (envelope_packet_no env) msg = Inr env)"

lemma send_sealed:
  assumes "session_inv s" "sealed_by_session cr s"
  shows "sealed_by_session cr (fst (send cr s k md pl))"
proof -
  have key: "send_key (fst (send cr s k md pl)) = send_key s" by (simp add: send_key_def send_frame)
  show ?thesis
  proof (cases rule: send_cases [of cr s k md pl])
    case quiet
    with assms key show ?thesis by (auto simp: sealed_by_session_def send_frame)
  next
    case (sealed msg env)
    have "envelope_packet_no env = next_no (send_allocator s)"
      using assms(1) sealed(1)
      by (intro sealed_packet_no [OF sealed(2)]) (auto simp: session_inv_def spent_def packet_no_defs)
    with assms(2) sealed key show ?thesis by (auto simp: sealed_by_session_def send_frame)
  qed
qed

interpretation si: session_frame cr
  "\<lambda>s s'. session_inv s \<and> sealed_by_session cr s \<longrightarrow> session_inv s' \<and> sealed_by_session cr s'" for cr
proof (unfold_locales, goal_cases)
  case (2 s s' s'')
  then show ?case by blast
next
  case (10 s)
  have "even ((n + 2) mod 2 ^ 64) = even n" for n :: nat by (simp add: even_mod_2_iff dvd_mod_iff)
  then show ?case by (auto simp: session_inv_def sealed_by_session_def send_key_def)
next
  case (7 s sid en)
  then show ?case using put_stream_ok [of s _ sid en]
    by (auto simp: session_inv_def sealed_by_session_def send_key_def put_stream_def)
next
  case (8 s sid)
  show ?case using hm.inv_remove [of "streams s" sid]
    by (auto simp: session_inv_def sealed_by_session_def send_key_def close_stream_def AList.delete_eq)
next
  case (9 s k md pl)
  show ?case using send_keeps_inv send_sealed by blast
qed (simp_all add: session_inv_def sealed_by_session_def send_key_def)

text \<open>What no method changes, and that both channels only grow.\<close>

interpretation sx: session_frame cr
  "\<lambda>s s'. config s' = config s \<and> ctx s' = ctx s \<and> keys s' = keys s \<and> prefix (outbound s) (outbound s') \<and> prefix (events s) (events s')"
  for cr
proof (unfold_locales, goal_cases)
  case (9 s k md pl)
  show ?case by (cases rule: send_cases [of cr s k md pl]) (simp_all add: send_frame)
qed (auto simp: put_stream_def close_stream_def)

text \<open>Only opening a stream moves the next stream id.\<close>

interpretation sk: session_keep cr "\<lambda>s s'. next_stream_id s' = next_stream_id s" for cr
  by unfold_locales (simp_all add: send_frame put_stream_def close_stream_def)

text \<open>The replay window stands for a set of accepted numbers, which only grows.\<close>

definition remembers :: "ReplayWindow \<Rightarrow> nat set \<Rightarrow> bool" where
  "remembers win A \<longleftrightarrow> (\<exists>f. window_sim win f \<and> A \<subseteq> accepted f)"

lemma remembers_check:
  assumes "remembers win A" "check_and_record win n = Inr win'"
  shows "remembers win' (insert n A)" "n \<notin> A"
proof -
  from assms(1) obtain f where f: "window_sim win f" "A \<subseteq> accepted f" by (auto simp: remembers_def)
  then have h: "\<exists>g. window_sim win g \<and> accepted g = accepted f" by blast
  from rw.admits [OF h assms(2)] f(2) show "remembers win' (insert n A)" by (auto simp: remembers_def)
  from rw.refuses [OF h, of n win'] assms(2) f(2) show "n \<notin> A" by blast
qed

lemma remembers_subset: "remembers win B \<Longrightarrow> A \<subseteq> B \<Longrightarrow> remembers win A"
  by (auto simp: remembers_def)

interpretation sw: session_frame cr "\<lambda>s s'. \<forall>A. remembers (recv_window s) A \<longrightarrow> remembers (recv_window s') A" for cr
proof (unfold_locales, goal_cases)
  case (6 s pn win)
  show ?case using remembers_check(1) [OF _ 6] remembers_subset [OF _ subset_insertI] by fastforce
qed (auto simp: send_frame put_stream_def close_stream_def)

lemma session_inv_new:
  "length (cfg_session_epoch cfg) = SESSION_EPOCH_LEN \<Longrightarrow> session_inv (Session_new cfg ks) \<and> sealed_by_session cr (Session_new cfg ks)"
  by (cases "cfg_side cfg") (simp_all add: session_inv_def sealed_by_session_def Session_new_def hm_inv_def new_allocator_def)

lemma remembers_new: "remembers (recv_window (Session_new cfg ks)) {}"
  using window_sim_new by (auto simp: remembers_def Session_new_def)

lemma run_constants:
  "config (session_run cr h s calls) = config s" "ctx (session_run cr h s calls) = ctx s"
  "keys (session_run cr h s calls) = keys s"
  using sx.rel_run [where cr = cr and s = s and h = h and calls = calls] by simp_all

lemma feed_constants:
  "config (fst (feed cr h s env)) = config s" "ctx (fst (feed cr h s env)) = ctx s" "keys (fst (feed cr h s env)) = keys s"
  using sx.rel_feed [where cr = cr and s = s and h = h and env = env] by simp_all

section \<open>Before Ready\<close>

lemma events_emit [simp]: "events (emit s ev) = events s @ [ev]"
  by (simp add: emit_def)

definition opens_nothing :: "Session \<Rightarrow> Session \<Rightarrow> bool" where
  "opens_nothing s s' \<longleftrightarrow>
     fst ` set (streams s') \<subseteq> fst ` set (streams s) \<and>
     (\<exists>evs. events s' = events s @ evs \<and> (\<forall>f. EvOpen f \<notin> set evs))"

lemma opens_nothing_refl [simp]: "opens_nothing s s"
  by (simp add: opens_nothing_def)

lemma opens_nothing_emit [intro]: "opens_nothing s s' \<Longrightarrow> (\<forall>f. ev \<noteq> EvOpen f) \<Longrightarrow> opens_nothing s (emit s' ev)"
  by (auto simp: opens_nothing_def emit_def)

lemma opens_nothing_set_state [intro]: "opens_nothing s (set_state s st)"
  by (auto simp: opens_nothing_def set_state_def emit_def)

lemma opens_nothing_close [intro]: "opens_nothing s (close_stream s sid)"
  by (simp add: opens_nothing_def close_stream_def dom_delete_subset)

lemma opens_nothing_put: "map_of (streams s) sid = Some en0 \<Longrightarrow> opens_nothing s (put_stream s sid en)"
  by (simp add: opens_nothing_def put_stream_def dom_update insert_absorb image_iff) (metis fst_conv map_of_SomeD)

lemma opens_nothing_update [intro]: "opens_nothing s (update_stream s sid f)"
  by (auto simp: update_stream_def opens_nothing_put split: option.splits)

lemma opens_nothing_deliver [intro]: "opens_nothing s (fst (deliver_data s f pl))"
proof -
  have emits: "opens_nothing s (foldl (\<lambda>s (off, d). emit s (EvData sid off d)) s' xs)"
    if "opens_nothing s s'" for s s' sid xs
    using that by (induction xs arbitrary: s') auto
  then show ?thesis
    by (auto simp: deliver_data_def Let_def opens_nothing_put split: option.splits sum.splits prod.splits)
qed

lemma opens_nothing_reset: "opens_nothing s (fst (send_reset cr s sid r))"
proof -
  have "opens_nothing s (fst (send_control cr s k md))" for k md
    by (simp add: opens_nothing_def send_control_def send_frame)
  moreover have "opens_nothing s (close_stream (fst (send_control cr s k md)) sid)" for k md
    by (simp add: opens_nothing_def close_stream_def send_control_def send_frame dom_delete_subset)
  ultimately show ?thesis by (simp add: send_reset_def fst_andthen split: sum.splits)
qed

lemma opens_nothing_fields:
  "(\<And>x. r = Inr x \<Longrightarrow> opens_nothing s (fst (f x))) \<Longrightarrow> opens_nothing s (fst (with_fields s r f))"
  by (auto simp: with_fields_def split: sum.splits)

lemma opens_nothing_dispatch:
  assumes "state s \<noteq> StReady"
  shows "opens_nothing s (fst (dispatch cr h s rc))"
proof -
  have "opens_nothing s (fst (dispatch_open cr h s f))" for f
    using assms opens_nothing_reset by (simp add: dispatch_open_def)
  then show ?thesis unfolding dispatch_def
    by (cases "kind rc")
      (auto intro!: opens_nothing_fields opens_nothing_emit opens_nothing_set_state opens_nothing_close opens_nothing_update)
qed

section \<open>Properties\<close>

text \<open>C27: Every state that any sequence of public calls, feeds of arbitrary bytes included, leads a session to
  is well formed: stream ids are unique, every stream's reorder buffer and credit account satisfy their
  invariants, no stream has sent past the limit its peer advertised, the ids the session allocates keep the
  parity of its side, and the outbound packet numbers are strictly increasing and below the allocator's next.\<close>

theorem session_always_well_formed:
  assumes "length (cfg_session_epoch cfg) = SESSION_EPOCH_LEN"
  shows "session_inv (session_run cr h (Session_new cfg ks) calls)"
  using si.rel_run session_inv_new [OF assms] by blast

definition sample_cfg :: "Side \<Rightarrow> SessionConfig" where
  "sample_cfg side = SessionConfig_new ''hub'' ''node-1'' (replicate 16 1) (replicate 16 2) side"

definition sample_keys :: SessionKeys where
  "sample_keys = derive null_crate (replicate 32 9) [1] [2]"

theorem session_always_well_formed_witness:
  "session_inv (session_run null_crate lower_hex (Session_new (sample_cfg NodeSide) sample_keys) [CSendPing, CFeed [1, 2], CSendBye ''x''])"
  by (rule session_always_well_formed) (simp add: sample_cfg_def SessionConfig_new_def limit_defs)

text \<open>C4: No AEAD nonce is used twice under a session's sending key: in every run, every envelope that left the
  session is the sealing, under its sending key, context and direction, of some record at the packet number in
  its header, and no two of them have the same nonce.\<close>

theorem session_nonces_never_repeat:
  assumes "length (cfg_session_epoch cfg) = SESSION_EPOCH_LEN" "s = session_run cr h (Session_new cfg ks) calls"
  shows "(\<forall>env \<in> set (outbound s). \<exists>msg.
            seal cr (send_key s) (ctx s) (send_direction (cfg_side cfg)) (envelope_packet_no env) msg = Inr env)
       \<and> distinct (map (\<lambda>env. build_nonce (envelope_packet_no env)) (outbound s))"
proof -
  from si.rel_run session_inv_new [OF assms(1)] have inv: "session_inv s" "sealed_by_session cr s"
    unfolding assms(2) by blast+
  have cfg: "config s = cfg" unfolding assms(2) by (simp add: run_constants Session_new_def)
  have "envelope_packet_no env \<le> u64_max" if "env \<in> set (outbound s)" for env
    using inv(1) that by (fastforce simp: session_inv_def packet_no_defs)
  then have "inj_on build_nonce (set (map envelope_packet_no (outbound s)))"
    by (auto intro!: inj_onI build_nonce_inj)
  moreover have "distinct (map envelope_packet_no (outbound s))"
    using inv(1) strict_sorted_iff by (auto simp: session_inv_def)
  ultimately have "distinct (map build_nonce (map envelope_packet_no (outbound s)))"
    by (simp add: distinct_map comp_inj_on)
  with inv(2) cfg show ?thesis by (simp add: sealed_by_session_def comp_def)
qed

theorem session_nonces_never_repeat_witness:
  "let s = session_run null_crate lower_hex (Session_new (sample_cfg NodeSide) sample_keys) [CSendPing, CSendPing]
   in distinct (map (\<lambda>env. build_nonce (envelope_packet_no env)) (outbound s))"
  unfolding Let_def
  by (rule conjunct2 [OF session_nonces_never_repeat [OF _ refl]]) (simp add: sample_cfg_def SessionConfig_new_def limit_defs)

text \<open>The business barrier: while a session is not Ready, feeding it any envelope whatever opens nothing:
  no stream is added and no Open is surfaced, and an authentic Open is answered with the NotReady error.\<close>

theorem nothing_opens_before_ready:
  assumes "state s \<noteq> StReady"
  shows "opens_nothing s (fst (feed cr h s env))
       \<and> snd (dispatch_open cr h s f) = Inl NotReady"
proof -
  have "opens_nothing s (s\<lparr>recv_window := win\<rparr>)" for win by (simp add: opens_nothing_def)
  moreover have "opens_nothing s (fst (dispatch cr h (s\<lparr>recv_window := win\<rparr>) rc))" for win rc
    using opens_nothing_dispatch [of "s\<lparr>recv_window := win\<rparr>" cr h rc] assms by (simp add: opens_nothing_def)
  ultimately show ?thesis using assms
    by (auto simp: feed_def Let_def dispatch_open_def split: sum.splits)
qed

theorem nothing_opens_before_ready_witness:
  "opens_nothing (Session_new (sample_cfg HubSide) sample_keys)
     (fst (feed null_crate lower_hex (Session_new (sample_cfg HubSide) sample_keys) [1, 2]))
   \<and> snd (dispatch_open null_crate lower_hex (Session_new (sample_cfg HubSide) sample_keys) sample_open) = Inl NotReady"
  by (rule nothing_opens_before_ready) (simp add: Session_new_def)

end
