(* ===== verification/Session_Peer.thy ===== *)
theory Session_Peer
  imports Session_Run
begin

text \<open>
  Two session engines joined by a carrier: what one sends is what the other dispatches, stream data arrives
  whole and in order, and an envelope is processed at most once.
\<close>

section \<open>The two ends of a session\<close>

definition peers :: "Session \<Rightarrow> Session \<Rightarrow> bool" where
  "peers a b \<longleftrightarrow> keys a = keys b \<and> ctx a = ctx b \<and> cfg_side (config a) \<noteq> cfg_side (config b)
     \<and> length (ctx_session_epoch (ctx a)) = SESSION_EPOCH_LEN"

lemma peers_direction:
  "peers a b \<Longrightarrow> recv_direction (cfg_side (config b)) = send_direction (cfg_side (config a))"
  by (cases "cfg_side (config a)"; cases "cfg_side (config b)") (auto simp: peers_def recv_direction_def)

lemma peers_key: "peers a b \<Longrightarrow> recv_key b = send_key a"
  by (simp add: recv_key_def send_key_def peers_direction) (auto simp: peers_def)

lemma peers_run: "peers a b \<Longrightarrow> peers (session_run cr h a calls) (session_run cr h b calls')"
  by (auto simp: peers_def run_constants)

lemma send_Inr:
  assumes "send cr s k md pl = (s', Inr u)"
  obtains msg env where "encode (outgoing k md pl) = Inr msg"
    "seal cr (send_key s) (ctx s) (send_direction (cfg_side (config s))) (next_no (send_allocator s)) msg = Inr env"
    "s' = s\<lparr>send_allocator := \<lparr>next_no = next_no (send_allocator s) + 1\<rparr>, outbound := outbound s @ [env]\<rparr>"
    "\<not> spent (next_no (send_allocator s))"
  using assms that
  by (auto simp: send_def allocate_def Let_def send_key_def split: sum.splits if_splits)

lemma outgoing_sel [simp]: "kind (outgoing k md pl) = k" "metadata (outgoing k md pl) = md" "payload (outgoing k md pl) = pl"
  by (simp_all add: outgoing_def record_new_def with_payload_def)

lemma feed_sent:
  assumes laws: "aead_laws cr" and ab: "peers a b" and md: "deep_ok 0 md"
    and sent: "send cr a k md pl = (a', Inr u)"
  obtains env where "outbound a' = outbound a @ [env]"
    "a' = a\<lparr>send_allocator := \<lparr>next_no = next_no (send_allocator a) + 1\<rparr>, outbound := outbound a @ [env]\<rparr>"
    "feed cr h b env = (case check_and_record (recv_window b) (next_no (send_allocator a)) of
         Inl e \<Rightarrow> (b, Inl (ReplayErr e))
       | Inr win \<Rightarrow> dispatch cr h (b\<lparr>recv_window := win\<rparr>) (outgoing k md pl))"
proof -
  from sent obtain msg env where m: "encode (outgoing k md pl) = Inr msg"
    and e: "seal cr (send_key a) (ctx a) (send_direction (cfg_side (config a))) (next_no (send_allocator a)) msg = Inr env"
    and a': "a' = a\<lparr>send_allocator := \<lparr>next_no = next_no (send_allocator a) + 1\<rparr>, outbound := outbound a @ [env]\<rparr>"
    and ns: "\<not> spent (next_no (send_allocator a))"
    by (rule send_Inr)
  have "length msg \<le> MAX_RECORD_PLAINTEXT"
    using m by (auto simp: encode_Inr encode_into_def RECORD_OVERHEAD_def)
  then have dec: "decode msg = Inr (outgoing k md pl)"
    using decode_prefix_encode [of "outgoing k md pl" msg "[]"] md m by (simp add: decode_def)
  have "open_envelope cr (recv_key b) (ctx b) (recv_direction (cfg_side (config b))) env
      = Inr \<lparr>packet_no = next_no (send_allocator a), plaintext = msg\<rparr>"
    using e ns ab by (intro open_seal [OF laws]) (auto simp: peers_key peers_direction peers_def spent_def packet_no_defs)
  with dec have "feed cr h b env = (case check_and_record (recv_window b) (next_no (send_allocator a)) of
         Inl e \<Rightarrow> (b, Inl (ReplayErr e))
       | Inr win \<Rightarrow> dispatch cr h (b\<lparr>recv_window := win\<rparr>) (outgoing k md pl))"
    by (simp add: feed_def Let_def split: sum.splits)
  with a' that show thesis by simp
qed

lemma send_outbound_length:
  "length (outbound (fst (send cr s k md pl))) \<le> length (outbound s) + 1"
  "snd (send cr s k md pl) = Inr u \<Longrightarrow> length (outbound (fst (send cr s k md pl))) = length (outbound s) + 1"
proof -
  show "length (outbound (fst (send cr s k md pl))) \<le> length (outbound s) + 1"
    by (cases rule: send_cases [of cr s k md pl]) simp_all
  show "length (outbound (fst (send cr s k md pl))) = length (outbound s) + 1" if "snd (send cr s k md pl) = Inr u"
  proof -
    from that have "send cr s k md pl = (fst (send cr s k md pl), Inr u)" by (simp add: prod_eq_iff)
    then show ?thesis by (elim send_Inr) simp
  qed
qed

lemma chunk_count:
  "length (outbound (fst (send_chunks cr s sid off pl)))
     \<le> length (outbound s) + (length pl + MAX_TCP_PAYLOAD - 1) div MAX_TCP_PAYLOAD"
  "snd (send_chunks cr s sid off pl) = Inr u \<Longrightarrow> length (outbound (fst (send_chunks cr s sid off pl)))
     = length (outbound s) + (length pl + MAX_TCP_PAYLOAD - 1) div MAX_TCP_PAYLOAD"
proof -
  let ?M = MAX_TCP_PAYLOAD
  have "length (outbound (fst (send_chunks cr s sid off pl))) \<le> length (outbound s) + (length pl + ?M - 1) div ?M \<and>
    (snd (send_chunks cr s sid off pl) = Inr u \<longrightarrow> length (outbound (fst (send_chunks cr s sid off pl)))
       = length (outbound s) + (length pl + ?M - 1) div ?M)"
  proof (induction pl arbitrary: s off rule: length_induct)
    case (1 pl)
    show ?case
    proof (cases "pl = []")
      case True
      then show ?thesis by (subst (1 2 3) send_chunks.simps) (simp add: limit_defs)
    next
      case False
      define k where "k = min (length pl) ?M"
      have k: "length (drop k pl) < length pl" "k \<le> length pl" using False by (auto simp: k_def limit_defs)
      have num: "(length pl + ?M - 1) div ?M = Suc ((length (drop k pl) + ?M - 1) div ?M)"
        using False by (cases "length pl \<le> ?M") (auto simp: k_def limit_defs div_if Suc_le_eq)
      let ?out = "send cr s Data (data_to_canonical \<lparr>data_stream_id = sid, data_offset = off\<rparr>) (take k pl)"
      obtain s1 r1 where out: "?out = (s1, r1)" by fastforce
      let ?s = "case map_of (streams s1) sid of Some en \<Rightarrow> put_stream s1 sid (en\<lparr>send_offset := off + k\<rparr>) | None \<Rightarrow> s1"
      have ch: "send_chunks cr s sid off pl = (case r1 of Inl e \<Rightarrow> (s1, Inl e)
          | Inr v \<Rightarrow> send_chunks cr ?s sid (off + k) (drop k pl))"
        unfolding send_chunks.simps [of cr s sid off pl] Let_def k_def [symmetric] if_not_P [OF False] andthen_def out
        by simp
      have o: "outbound ?s = outbound s1" by (simp add: put_stream_def split: option.splits)
      show ?thesis
      proof (cases r1)
        case (Inl e)
        with send_outbound_length(1) [of cr s Data _ "take k pl"] out show ?thesis
          by (metis (no_types, lifting) add_le_cancel_left ch fst_conv le_add1 le_trans num old.sum.simps(5) plus_1_eq_Suc
              snd_conv sum.simps(4))
      next
        case (Inr v)
        have "length (outbound ?s) = length (outbound s) + 1" unfolding o
          using send_outbound_length(2) [of cr s Data _ "take k pl"] out Inr by (metis fst_conv snd_conv)
        with "1.IH" [rule_format, OF k(1), of ?s "off + k"] Inr show ?thesis unfolding ch num by simp
      qed
    qed
  qed
  then show "length (outbound (fst (send_chunks cr s sid off pl)))
     \<le> length (outbound s) + (length pl + ?M - 1) div ?M"
    "snd (send_chunks cr s sid off pl) = Inr u \<Longrightarrow> length (outbound (fst (send_chunks cr s sid off pl)))
     = length (outbound s) + (length pl + ?M - 1) div ?M" by simp_all
qed

section \<open>Stream data over an in-order carrier\<close>

definition feed_all :: "crypto_crate \<Rightarrow> hex_crate \<Rightarrow> Session \<Rightarrow> bytes list \<Rightarrow> Session" where
  "feed_all cr h b envs = foldl (\<lambda>b env. fst (feed cr h b env)) b envs"

text \<open>The receiver has seen every packet number below \<open>n\<close> that it will see, and \<open>n\<close> is not too far ahead.\<close>

definition window_ready :: "ReplayWindow \<Rightarrow> nat \<Rightarrow> bool" where
  "window_ready win n \<longleftrightarrow> (\<forall>hi. highest win = Some hi \<longrightarrow> hi < n \<and> n \<le> hi + REPLAY_MAX_FORWARD_JUMP)"

lemma window_ready_next:
  assumes "window_ready win n"
  obtains win' where "check_and_record win n = Inr win'" "window_ready win' (n + 1)"
proof (cases "highest win")
  case None
  with that show thesis by (simp add: check_and_record_def window_ready_def limit_defs)
next
  case (Some hi)
  define win' where "win' = win\<lparr>highest := Some n, seen := set_bit_of
      (if n - hi \<ge> REPLAY_WINDOW then map (\<lambda>_. 0) (seen win) else foldl clear_bit_of (seen win) [hi + 1..<n + 1]) n\<rparr>"
  show thesis
  proof (rule that)
    show "check_and_record win n = Inr win'"
      using Some assms by (auto simp: check_and_record_def window_ready_def Let_def win'_def)
    show "window_ready win' (n + 1)" by (simp add: window_ready_def win'_def limit_defs)
  qed
qed

text \<open>Both ends of a stream agree: everything sent was delivered, and the receiver granted what the sender
  may use.\<close>

definition in_sync :: "nat \<Rightarrow> Session \<Rightarrow> Session \<Rightarrow> bool" where
  "in_sync sid a b \<longleftrightarrow> sid \<le> u64_max \<and>
     (\<exists>ea eb. map_of (streams a) sid = Some ea \<and> map_of (streams b) sid = Some eb
       \<and> pending (recv eb) = [] \<and> buffered (recv eb) = 0 \<and> MAX_TCP_PAYLOAD \<le> limit_bytes (recv eb)
       \<and> rb_next (recv eb) = send_offset ea \<and> received (credit eb) = send_offset ea
       \<and> send_limit ea \<le> limit (credit eb) \<and> limit (credit eb) \<le> u64_max)"

lemma insert_next_into_empty:
  assumes "pending b = []" "buffered b = 0" "d \<noteq> []" "length d \<le> limit_bytes b" "rb_next b + length d \<le> u64_max"
  shows "insert_offsets b (rb_next b) d
    = Inr (b\<lparr>rb_next := rb_next b + length d, pending := [], buffered := 0\<rparr>, [(rb_next b, d)])"
  using assms
  by (simp add: insert_offsets_def overlap_check_def block_at_or_before_def block_at_or_after_def Let_def
      checked_add_def drain.simps bt_remove_def)

lemma deliver_in_order:
  assumes eb: "map_of (streams b) sid = Some eb"
    and buf: "pending (recv eb) = []" "buffered (recv eb) = 0" "length d \<le> limit_bytes (recv eb)"
    and at: "rb_next (recv eb) = off" "received (credit eb) = off" "off + length d \<le> limit (credit eb)"
    and d: "d \<noteq> []" "off + length d \<le> u64_max"
  obtains eb' where "deliver_data b \<lparr>data_stream_id = sid, data_offset = off\<rparr> d
      = (emit (put_stream b sid eb') (EvData sid off d), Inr ())"
    "pending (recv eb') = []" "buffered (recv eb') = 0" "limit_bytes (recv eb') = limit_bytes (recv eb)"
    "rb_next (recv eb') = off + length d" "received (credit eb') = off + length d" "limit (credit eb') = limit (credit eb)"
proof -
  have ins: "insert_offsets (recv eb) off d
      = Inr ((recv eb)\<lparr>rb_next := off + length d, pending := [], buffered := 0\<rparr>, [(off, d)])"
    using insert_next_into_empty [OF buf(1,2) d(1) buf(3)] at d by simp
  have cr: "record_all (credit eb) [(off, d)] = ((credit eb)\<lparr>received := off + length d\<rparr>, Inr ())"
    using at d by (simp add: record_received_def checked_add_def)
  show thesis
    by (rule that [of "eb\<lparr>recv := (recv eb)\<lparr>rb_next := off + length d, pending := [], buffered := 0\<rparr>,
          credit := (credit eb)\<lparr>received := off + length d\<rparr>\<rparr>"])
      (simp_all add: deliver_data_def eb ins cr del: record_all.simps)
qed

lemma peers_cong: "peers a b \<Longrightarrow> keys a' = keys a \<Longrightarrow> ctx a' = ctx a \<Longrightarrow> config a' = config a \<Longrightarrow>
   keys b' = keys b \<Longrightarrow> ctx b' = ctx b \<Longrightarrow> config b' = config b \<Longrightarrow> peers a' b'"
  by (auto simp: peers_def)

text \<open>One chunk: sent by one end, delivered by the other, and the ends agree again.\<close>

lemma chunk_arrives:
  assumes laws: "aead_laws cr" and ab: "peers a b" and sync: "in_sync sid a b"
    and win: "window_ready (recv_window b) (next_no (send_allocator a))"
    and ea: "map_of (streams a) sid = Some ea"
    and d: "d \<noteq> []" "length d \<le> MAX_TCP_PAYLOAD" "send_offset ea + length d \<le> send_limit ea"
    and sent: "send cr a Data (data_to_canonical \<lparr>data_stream_id = sid, data_offset = send_offset ea\<rparr>) d = (a', Inr u)"
  obtains env b' where "outbound a' = outbound a @ [env]" "feed cr h b env = (b', Inr ())"
    "events b' = events b @ [EvData sid (send_offset ea) d]"
    "streams a' = streams a"
    "let a1 = put_stream a' sid (ea\<lparr>send_offset := send_offset ea + length d\<rparr>) in
       peers a1 b' \<and> in_sync sid a1 b' \<and> window_ready (recv_window b') (next_no (send_allocator a1))"
proof -
  from sync ea obtain eb where eb: "map_of (streams b) sid = Some eb" "pending (recv eb) = []" "buffered (recv eb) = 0"
      "MAX_TCP_PAYLOAD \<le> limit_bytes (recv eb)" "rb_next (recv eb) = send_offset ea"
      "received (credit eb) = send_offset ea" "send_limit ea \<le> limit (credit eb)" "limit (credit eb) \<le> u64_max"
    and sid: "sid \<le> u64_max"
    by (auto simp: in_sync_def)
  let ?f = "\<lparr>data_stream_id = sid, data_offset = send_offset ea\<rparr>"
  have ty: "data_typed ?f" using sid d eb by (simp add: data_typed_def)
  obtain env where out: "outbound a' = outbound a @ [env]"
    and a': "a' = a\<lparr>send_allocator := \<lparr>next_no = next_no (send_allocator a) + 1\<rparr>, outbound := outbound a @ [env]\<rparr>"
    and fed: "feed cr h b env = (case check_and_record (recv_window b) (next_no (send_allocator a)) of
         Inl e \<Rightarrow> (b, Inl (ReplayErr e))
       | Inr win \<Rightarrow> dispatch cr h (b\<lparr>recv_window := win\<rparr>) (outgoing Data (data_to_canonical ?f) d))"
    using feed_sent [OF laws ab data.enc_ok [OF ty] sent] by blast
  obtain win' where w: "check_and_record (recv_window b) (next_no (send_allocator a)) = Inr win'"
    "window_ready win' (next_no (send_allocator a) + 1)"
    using window_ready_next [OF win] .
  have len: "length d \<le> limit_bytes (recv eb)" "send_offset ea + length d \<le> limit (credit eb)"
    "send_offset ea + length d \<le> u64_max" using d eb by auto
  obtain eb' where del: "deliver_data (b\<lparr>recv_window := win'\<rparr>) ?f d
      = (emit (put_stream (b\<lparr>recv_window := win'\<rparr>) sid eb') (EvData sid (send_offset ea) d), Inr ())"
    "pending (recv eb') = []" "buffered (recv eb') = 0" "limit_bytes (recv eb') = limit_bytes (recv eb)"
    "rb_next (recv eb') = send_offset ea + length d" "received (credit eb') = send_offset ea + length d"
    "limit (credit eb') = limit (credit eb)"
    using deliver_in_order [of "b\<lparr>recv_window := win'\<rparr>" sid eb d "send_offset ea"] eb len d by auto
  let ?b = "emit (put_stream (b\<lparr>recv_window := win'\<rparr>) sid eb') (EvData sid (send_offset ea) d)"
  have "feed cr h b env = (?b, Inr ())"
    using fed w(1) data.dec_enc [OF ty] del(1) by (simp add: dispatch_def with_fields_def)
  moreover have "peers (put_stream a' sid (ea\<lparr>send_offset := send_offset ea + length d\<rparr>)) ?b"
    by (rule peers_cong [OF ab]) (simp_all add: a' put_stream_def emit_def)
  moreover have "in_sync sid (put_stream a' sid (ea\<lparr>send_offset := send_offset ea + length d\<rparr>)) ?b"
    using del eb sid by (auto simp: in_sync_def a' put_stream_def emit_def update_conv')
  moreover have "window_ready (recv_window ?b)
      (next_no (send_allocator (put_stream a' sid (ea\<lparr>send_offset := send_offset ea + length d\<rparr>))))"
    using w(2) by (simp add: a' put_stream_def emit_def)
  ultimately show thesis
    using out by (intro that [of env ?b]) (simp_all add: a' put_stream_def Let_def)
qed

lemma chunks_arrive:
  assumes laws: "aead_laws cr"
  shows "peers a b \<Longrightarrow> in_sync sid a b \<Longrightarrow> window_ready (recv_window b) (next_no (send_allocator a)) \<Longrightarrow>
     map_of (streams a) sid = Some ea \<Longrightarrow> send_offset ea + length pl \<le> send_limit ea \<Longrightarrow>
     send_chunks cr a sid (send_offset ea) pl = (a', Inr u) \<Longrightarrow>
     \<exists>envs blocks. outbound a' = outbound a @ envs \<and>
       contiguous (send_offset ea) blocks (send_offset ea + length pl) \<and> concat (map snd blocks) = pl \<and>
       events (feed_all cr h b envs) = events b @ map (\<lambda>(off, d). EvData sid off d) blocks \<and>
       peers a' (feed_all cr h b envs) \<and> in_sync sid a' (feed_all cr h b envs)"
proof (induction pl arbitrary: a b ea rule: length_induct)
  case (1 pl)
  show ?case
  proof (cases "pl = []")
    case True
    then have "a' = a" using "1.prems"(6) by (subst (asm) send_chunks.simps) simp
    with True "1.prems" show ?thesis
      by (intro exI [of _ "[]"] exI [of _ "[]"]) (simp add: feed_all_def)
  next
    case False
    define k where "k = min (length pl) MAX_TCP_PAYLOAD"
    have k: "length (take k pl) = k" "k \<le> length pl" "k \<le> MAX_TCP_PAYLOAD" "take k pl \<noteq> []"
      "length (drop k pl) < length pl"
      using False by (auto simp: k_def limit_defs)
    let ?f = "\<lparr>data_stream_id = sid, data_offset = send_offset ea\<rparr>"
    from "1.prems"(6) obtain a1 v where s1: "send cr a Data (data_to_canonical ?f) (take k pl) = (a1, Inr v)"
      and s2: "send_chunks cr (case map_of (streams a1) sid of Some en \<Rightarrow> put_stream a1 sid (en\<lparr>send_offset := send_offset ea + k\<rparr>)
           | None \<Rightarrow> a1) sid (send_offset ea + k) (drop k pl) = (a', Inr u)"
      unfolding send_chunks.simps [of cr a] Let_def k_def [symmetric] if_not_P [OF False] andthen_def
      by (auto split: prod.splits sum.splits)
    have room: "send_offset ea + length (take k pl) \<le> send_limit ea" using k "1.prems"(5) by simp
    obtain env b1 where e1: "outbound a1 = outbound a @ [env]" "feed cr h b env = (b1, Inr ())"
        "events b1 = events b @ [EvData sid (send_offset ea) (take k pl)]" "streams a1 = streams a"
      and again: "let a2 = put_stream a1 sid (ea\<lparr>send_offset := send_offset ea + length (take k pl)\<rparr>) in
         peers a2 b1 \<and> in_sync sid a2 b1 \<and> window_ready (recv_window b1) (next_no (send_allocator a2))"
      using chunk_arrives [OF laws "1.prems"(1-4) k(4) _ room s1] k by auto
    let ?ea = "ea\<lparr>send_offset := send_offset ea + k\<rparr>"
    let ?a2 = "put_stream a1 sid ?ea"
    have a2: "peers ?a2 b1" "in_sync sid ?a2 b1" "window_ready (recv_window b1) (next_no (send_allocator ?a2))"
      "map_of (streams ?a2) sid = Some ?ea" "send_offset ?ea + length (drop k pl) \<le> send_limit ?ea"
      "outbound ?a2 = outbound a @ [env]"
      using again "1.prems"(5) k e1 by (simp_all add: Let_def put_stream_def update_conv')
    have rest: "send_chunks cr ?a2 sid (send_offset ?ea) (drop k pl) = (a', Inr u)"
      using s2 e1(4) "1.prems"(4) by simp
    from "1.IH" [rule_format, OF k(5) a2(1-5) rest] obtain envs blocks where
      IH: "outbound a' = outbound ?a2 @ envs" "contiguous (send_offset ?ea) blocks (send_offset ?ea + length (drop k pl))"
        "concat (map snd blocks) = drop k pl"
        "events (feed_all cr h b1 envs) = events b1 @ map (\<lambda>(off, d). EvData sid off d) blocks"
        "peers a' (feed_all cr h b1 envs)" "in_sync sid a' (feed_all cr h b1 envs)"
      by blast
    have all: "feed_all cr h b (env # envs) = feed_all cr h b1 envs" by (simp add: feed_all_def e1(2))
    show ?thesis
      by (rule exI [of _ "env # envs"], rule exI [of _ "(send_offset ea, take k pl) # blocks"])
        (use IH a2(6) e1(3) k in \<open>simp add: all\<close>)
  qed
qed

section \<open>A concrete pair of ends\<close>

lemma send_null_crate:
  assumes "is_ok (encode (outgoing k md pl))" "\<not> spent (next_no (send_allocator s))" "\<not> carrier_gone s"
  obtains s' where "send null_crate s k md pl = (s', Inr ())"
  using assms by (auto simp: send_def allocate_def Let_def seal_def null_crate_def is_ok_def split: sum.splits)

definition sample_end :: "Side \<Rightarrow> Session" where
  "sample_end side = put_stream (Session_new (sample_cfg side) sample_keys) 1 (StreamEntry_new FLOW_WINDOW_BYTES)"

lemmas sample_end_defs = sample_end_def put_stream_def Session_new_def sample_cfg_def SessionConfig_new_def new_allocator_def
  new_window_def

lemma sample_peers: "peers (sample_end NodeSide) (sample_end HubSide)"
  by (simp add: peers_def sample_end_defs limit_defs)

lemma sample_in_sync: "in_sync 1 (sample_end NodeSide) (sample_end HubSide)"
  by (simp add: in_sync_def sample_end_defs StreamEntry_new_def Let_def rb_new_def rb_with_limit_def credit_new_def limit_defs u64_max_def)

lemmas write_eval = to_bytes_def object_def bt_of_list_def write_json_string_def chars_ascii write_char_def encode_ascii
  u64_decimal_def dec.simps digit_char_def int_to_string_def limit_defs RECORD_OVERHEAD_def max_payload_def

lemma sample_ping: "is_ok (encode (outgoing Ping empty_metadata []))"
  by (simp add: is_ok_iff encode_Inr outgoing_def record_new_def carries_payload_def
      empty_metadata_def empty_object_def write_eval)

lemma sample_data: "is_ok (encode (outgoing Data (data_to_canonical \<lparr>data_stream_id = 1, data_offset = 0\<rparr>) [7, 8, 9]))"
  by (simp add: is_ok_iff encode_Inr outgoing_def with_payload_def data_to_canonical_def write_eval)

section \<open>Properties\<close>

text \<open>What one end sends is what the other end acts on: feeding the envelope that \<open>send\<close> queued to the peer
  makes it dispatch exactly the record that was sent, unless its replay window refuses the packet number, in
  which case nothing changes.\<close>

theorem peer_dispatches_what_was_sent:
  assumes "aead_laws cr" "peers a b" "deep_ok 0 md" "send cr a k md pl = (a', Inr ())"
  shows "\<exists>env. outbound a' = outbound a @ [env] \<and>
     feed cr h b env = (case check_and_record (recv_window b) (next_no (send_allocator a)) of
         Inl e \<Rightarrow> (b, Inl (ReplayErr e))
       | Inr win \<Rightarrow> dispatch cr h (b\<lparr>recv_window := win\<rparr>) (outgoing k md pl))"
  using feed_sent [OF assms] by blast

theorem peer_dispatches_what_was_sent_witness:
  "\<exists>a' env. send null_crate (sample_end NodeSide) Ping empty_metadata [] = (a', Inr ())
     \<and> outbound a' = [env] \<and> snd (feed null_crate lower_hex (sample_end HubSide) env) = Inr ()
     \<and> events (fst (feed null_crate lower_hex (sample_end HubSide) env)) = [EvPing]"
proof -
  have al: "\<not> spent (next_no (send_allocator (sample_end NodeSide)))" "\<not> carrier_gone (sample_end NodeSide)"
    by (simp_all add: sample_end_defs spent_def packet_no_defs)
  obtain a' where a': "send null_crate (sample_end NodeSide) Ping empty_metadata [] = (a', Inr ())"
    using send_null_crate [OF sample_ping al] .
  have "deep_ok 0 empty_metadata" by (simp add: empty_metadata_def empty_object_def deep_ok_def)
  from peer_dispatches_what_was_sent [OF null_crate_laws sample_peers this a', of lower_hex]
  obtain env where env: "outbound a' = outbound (sample_end NodeSide) @ [env]"
    "feed null_crate lower_hex (sample_end HubSide) env
       = (case check_and_record (recv_window (sample_end HubSide)) (next_no (send_allocator (sample_end NodeSide))) of
           Inl e \<Rightarrow> (sample_end HubSide, Inl (ReplayErr e))
         | Inr win \<Rightarrow> dispatch null_crate lower_hex (sample_end HubSide\<lparr>recv_window := win\<rparr>) (outgoing Ping empty_metadata []))"
    by blast
  have "outbound (sample_end NodeSide) = []" "events (sample_end HubSide) = []" "highest (recv_window (sample_end HubSide)) = None"
    by (simp_all add: sample_end_defs)
  with a' env show ?thesis by (simp add: check_and_record_def dispatch_def)
qed

text \<open>C1: Stream data arrives whole and in order: when both ends of a stream agree, \<open>send_data\<close> of any payload
  within the advertised limit queues envelopes that, fed to the peer in order, surface as Data events at
  consecutive offsets whose payloads make up the payload sent, and the ends agree again.\<close>

theorem stream_data_arrives:
  assumes "aead_laws cr" "peers a b" "in_sync sid a b" "window_ready (recv_window b) (next_no (send_allocator a))"
    and ea: "map_of (streams a) sid = Some ea" and sent: "send_data cr a sid pl = (a', Inr n)"
  shows "n = length pl \<and> (\<exists>envs blocks. outbound a' = outbound a @ envs \<and>
       contiguous (send_offset ea) blocks (send_offset ea + n) \<and> concat (map snd blocks) = pl \<and>
       events (feed_all cr h b envs) = events b @ map (\<lambda>(off, d). EvData sid off d) blocks \<and>
       peers a' (feed_all cr h b envs) \<and> in_sync sid a' (feed_all cr h b envs))"
proof (cases "pl = []")
  case True
  with sent have "a' = a" "n = 0" by (auto simp: send_data_def)
  with True assms show ?thesis by (auto intro!: exI [of _ "[]"] simp: feed_all_def)
next
  case False
  with sent ea have lim: "send_offset ea + length pl \<le> send_limit ea" and n: "n = length pl"
    and ch: "\<exists>u. send_chunks cr a sid (send_offset ea) pl = (a', Inr u)"
    by (auto simp: send_data_def andthen_def split: option.splits if_splits prod.splits sum.splits)
  from ch obtain u where "send_chunks cr a sid (send_offset ea) pl = (a', Inr u)" by blast
  from chunks_arrive [OF assms(1-4) ea lim this] n show ?thesis by simp
qed

theorem stream_data_arrives_witness:
  "\<exists>a' envs blocks. send_data null_crate (sample_end NodeSide) 1 [7, 8, 9] = (a', Inr 3) \<and> outbound a' = envs
     \<and> contiguous 0 blocks 3 \<and> concat (map snd blocks) = [7, 8, 9]
     \<and> events (feed_all null_crate lower_hex (sample_end HubSide) envs) = map (\<lambda>(off, d). EvData 1 off d) blocks"
proof -
  let ?a = "sample_end NodeSide" and ?b = "sample_end HubSide" and ?en = "StreamEntry_new FLOW_WINDOW_BYTES"
  have al: "\<not> spent (next_no (send_allocator ?a))" "\<not> carrier_gone ?a"
    by (simp_all add: sample_end_defs spent_def packet_no_defs)
  obtain a1 where a1: "send null_crate ?a Data (data_to_canonical \<lparr>data_stream_id = 1, data_offset = 0\<rparr>) [7, 8, 9] = (a1, Inr ())"
    using send_null_crate [OF sample_data al] .
  have st: "map_of (streams ?a) 1 = Some ?en" "send_offset ?en = 0" "send_limit ?en = 262144"
    by (simp_all add: sample_end_defs StreamEntry_new_def Let_def limit_defs)
  have "snd (send_chunks null_crate ?a 1 0 [7, 8, 9]) = Inr ()"
    by (subst send_chunks.simps, simp add: limit_defs Let_def andthen_def a1 [simplified], subst send_chunks.simps, simp)
  then have "snd (send_data null_crate ?a 1 [7, 8, 9]) = Inr 3"
    using st by (auto simp: send_data_def checked_add_def u64_max_def andthen_def split: prod.splits)
  then obtain a' where a': "send_data null_crate ?a 1 [7, 8, 9] = (a', Inr 3)" by (metis prod.collapse)
  have w: "window_ready (recv_window ?b) (next_no (send_allocator ?a))" by (simp add: window_ready_def sample_end_defs)
  have "outbound ?a = []" "events ?b = []" by (simp_all add: sample_end_defs)
  with stream_data_arrives [OF null_crate_laws sample_peers sample_in_sync w st(1) a', of lower_hex] a' st(2)
  show ?thesis by auto
qed

text \<open>C40: The sending loop ends: whatever \<open>send_data\<close> returns, it queued at most one record for every started
  \<open>MAX_TCP_PAYLOAD\<close> bytes of the payload, and exactly that many when it reports the payload sent.\<close>

theorem send_data_record_count:
  assumes "send_data cr s sid pl = (s', r)"
  shows "length (outbound s') \<le> length (outbound s) + (length pl + MAX_TCP_PAYLOAD - 1) div MAX_TCP_PAYLOAD
       \<and> (r = Inr n \<longrightarrow> length (outbound s') = length (outbound s) + (length pl + MAX_TCP_PAYLOAD - 1) div MAX_TCP_PAYLOAD)"
proof -
  consider (early) "s' = s" "pl = [] \<or> (\<forall>n. r \<noteq> Inr n)"
    | (loop) off where "s' = fst (send_chunks cr s sid off pl)" "(\<exists>n. r = Inr n) \<longrightarrow> snd (send_chunks cr s sid off pl) = Inr ()"
  proof (cases "\<exists>en. map_of (streams s) sid = Some en \<and> send_offset en + length pl \<le> u64_max
      \<and> send_offset en + length pl \<le> send_limit en \<and> pl \<noteq> []")
    case False
    with assms early show thesis
      by (auto simp: send_data_def checked_add_def not_le not_less split: option.splits if_splits)
  next
    case True
    then obtain en where en: "map_of (streams s) sid = Some en" "send_offset en + length pl \<le> u64_max"
      "send_offset en + length pl \<le> send_limit en" "pl \<noteq> []" by blast
    obtain s1 r1 where "send_chunks cr s sid (send_offset en) pl = (s1, r1)" by fastforce
    with assms en loop [of "send_offset en"] show thesis
      by (cases r1) (auto simp: send_data_def checked_add_def andthen_def)
  qed
  then show ?thesis
  proof cases
    case early
    then show ?thesis by (auto simp: limit_defs)
  next
    case loop
    with chunk_count [of cr s sid off pl] show ?thesis by blast
  qed
qed

theorem send_data_record_count_witness:
  "length (outbound (fst (send_data null_crate (sample_end NodeSide) 1 [7, 8, 9]))) \<le> 1"
  using send_data_record_count [OF surjective_pairing, of null_crate "sample_end NodeSide" 1 "[7, 8, 9]"]
  by (simp add: sample_end_defs limit_defs)

text \<open>C3: An envelope that got past the replay window once is never processed again: whatever calls the session
  makes in between, feeding the same bytes a second time returns a replay error and leaves the state as it was.\<close>

theorem session_processes_envelope_once:
  assumes s: "s = session_run cr h (Session_new cfg ks) calls"
    and fed: "feed cr h s env = (s1, r)"
    and past: "\<forall>e. r \<noteq> Inl (EnvelopeErr e)" "\<forall>e. r \<noteq> Inl (ReplayErr e)"
    and later: "s2 = session_run cr h s1 calls'"
  shows "\<exists>e. feed cr h s2 env = (s2, Inl (ReplayErr e))"
proof -
  from fed past obtain oe where oe: "open_envelope cr (recv_key s) (ctx s) (recv_direction (cfg_side (config s))) env = Inr oe"
    by (auto simp: feed_def split: sum.splits)
  from fed past oe obtain win where win: "check_and_record (recv_window s) (packet_no oe) = Inr win"
    by (auto simp: feed_def split: sum.splits)
  have "remembers (recv_window s) {}" using sw.rel_run remembers_new unfolding s by blast
  from remembers_check(1) [OF this win] have r0: "remembers win {packet_no oe}" .
  have "remembers (recv_window s1) {packet_no oe}"
  proof (cases "decode (plaintext oe)")
    case (Inl e)
    with fed oe win r0 show ?thesis by (auto simp: feed_def Let_def)
  next
    case (Inr rc)
    with fed oe win have "s1 = fst (dispatch cr h (s\<lparr>recv_window := win\<rparr>) rc)" by (auto simp: feed_def Let_def)
    with r0 sw.rel_dispatch [where cr = cr and s = "s\<lparr>recv_window := win\<rparr>" and h = h and rc = rc] show ?thesis by simp
  qed
  with sw.rel_run have "remembers (recv_window s2) {packet_no oe}" unfolding later by blast
  from remembers_check(2) [OF this, of "packet_no oe"] obtain e
    where e: "check_and_record (recv_window s2) (packet_no oe) = Inl e"
    by (cases "check_and_record (recv_window s2) (packet_no oe)") auto
  have "config s2 = config s" "ctx s2 = ctx s" "keys s2 = keys s"
    using feed_constants [of cr h s env] fed unfolding later by (simp_all add: run_constants)
  with oe e show ?thesis by (auto simp: feed_def recv_key_def)
qed

theorem session_processes_envelope_once_witness:
  "\<exists>env e. let b = Session_new (sample_cfg HubSide) sample_keys; b1 = fst (feed null_crate lower_hex b env) in
     events b1 = [EvPing] \<and> feed null_crate lower_hex (set_state b1 StReady) env = (set_state b1 StReady, Inl (ReplayErr e))"
proof -
  let ?a = "Session_new (sample_cfg NodeSide) sample_keys" and ?b = "Session_new (sample_cfg HubSide) sample_keys"
  have al: "\<not> spent (next_no (send_allocator ?a))" "\<not> carrier_gone ?a"
    by (simp_all add: sample_end_defs spent_def packet_no_defs)
  obtain a' where a': "send null_crate ?a Ping empty_metadata [] = (a', Inr ())"
    using send_null_crate [OF sample_ping al] .
  have ab: "peers ?a ?b" by (simp add: peers_def sample_end_defs limit_defs)
  have md: "deep_ok 0 empty_metadata" by (simp add: empty_metadata_def empty_object_def deep_ok_def)
  obtain env where env: "feed null_crate lower_hex ?b env
       = (case check_and_record (recv_window ?b) (next_no (send_allocator ?a)) of
           Inl e \<Rightarrow> (?b, Inl (ReplayErr e))
         | Inr win \<Rightarrow> dispatch null_crate lower_hex (?b\<lparr>recv_window := win\<rparr>) (outgoing Ping empty_metadata []))"
    using feed_sent [OF null_crate_laws ab md a'] by blast
  have "highest (recv_window ?b) = None" "events ?b = []" by (simp_all add: sample_end_defs)
  with env have fed: "\<exists>b1. feed null_crate lower_hex ?b env = (b1, Inr ()) \<and> events b1 = [EvPing]"
    by (simp add: check_and_record_def dispatch_def)
  then obtain b1 where b1: "feed null_crate lower_hex ?b env = (b1, Inr ())" "events b1 = [EvPing]" by blast
  have "?b = session_run null_crate lower_hex ?b []" "set_state b1 StReady = session_run null_crate lower_hex b1 [CSetState StReady]"
    by (simp_all add: session_run_def)
  from session_processes_envelope_once [OF this(1) b1(1) _ _ this(2)] obtain e
    where "feed null_crate lower_hex (set_state b1 StReady) env = (set_state b1 StReady, Inl (ReplayErr e))" by auto
  with b1 show ?thesis unfolding Let_def by (intro exI [of _ env] exI [of _ e]) simp
qed

end
