(* ===== verification/Socks_Wire.thy ===== *)
theory Socks_Wire
  imports Net Budgets
begin

text \<open>
  \<open>crates/wsnet-socks/src/wire.rs\<close> and \<open>error.rs\<close>: the RFC 1928 and RFC 1929 messages. A reader is a function on
  the bytes the client has sent before it closes or stalls: \<open>read_exact\<close> takes a prefix or fails with \<open>Io\<close>, and
  what was not read is returned. A writer returns the bytes it appends.
\<close>

section \<open>Addresses\<close>

record SocketAddr =
  sa_ip :: IpAddr
  sa_port :: nat

text \<open>\<open>octets()\<close> and \<open>from(octets)\<close> of both address families.\<close>

fun pairs :: "'a list \<Rightarrow> ('a \<times> 'a) list" where
  "pairs (a # b # r) = (a, b) # pairs r"
| "pairs _ = []"

primrec ip_octets :: "IpAddr \<Rightarrow> bytes" where
  "ip_octets (V4 os) = map word_of_nat os"
| "ip_octets (V6 gs) = concat (map (be_bytes 2) gs)"

definition v4_from :: "bytes \<Rightarrow> IpAddr" where
  "v4_from os = V4 (map unat os)"

definition v6_from :: "bytes \<Rightarrow> IpAddr" where
  "v6_from os = V6 (map (\<lambda>(a, b). unat a * 256 + unat b) (pairs os))"

primrec ip_ok :: "IpAddr \<Rightarrow> bool" where
  "ip_ok (V4 os) \<longleftrightarrow> length os = 4 \<and> list_all (\<lambda>n. n < 256) os"
| "ip_ok (V6 gs) \<longleftrightarrow> length gs = 8 \<and> list_all (\<lambda>n. n < 65536) gs"

primrec is_ipv4 :: "IpAddr \<Rightarrow> bool" where
  "is_ipv4 (V4 _) = True"
| "is_ipv4 (V6 _) = False"

section \<open>Errors and replies\<close>

datatype SocksError =
    Io
  | BadVersion u8
  | Malformed string
  | UnsupportedAtyp u8
  | UnsupportedCommand u8
  | PortZero
  | AuthRejected
  | SocksAuthFailed
  | SourceDenied IpAddr
  | NonLoopbackListen SocketAddr
  | UnsafeListenAddress SocketAddr
  | SocksConfigErr string
  | InvalidIpPrefix string
  | UdpDisabled
  | AssociationClosed
  | SocksPayloadTooLarge nat
  | ConnectRefused
  | Handler string

datatype ReplyCode =
    Succeeded | GeneralFailure | ConnectionNotAllowed | NetworkUnreachable | HostUnreachable
  | ConnectionRefused | TtlExpired | CommandNotSupported | AddressTypeNotSupported

primrec reply_code_as_u8 :: "ReplyCode \<Rightarrow> u8" where
  "reply_code_as_u8 Succeeded = 0x00"
| "reply_code_as_u8 GeneralFailure = 0x01"
| "reply_code_as_u8 ConnectionNotAllowed = 0x02"
| "reply_code_as_u8 NetworkUnreachable = 0x03"
| "reply_code_as_u8 HostUnreachable = 0x04"
| "reply_code_as_u8 ConnectionRefused = 0x05"
| "reply_code_as_u8 TtlExpired = 0x06"
| "reply_code_as_u8 CommandNotSupported = 0x07"
| "reply_code_as_u8 AddressTypeNotSupported = 0x08"

definition reply_code_from_u8 :: "u8 \<Rightarrow> ReplyCode option" where
  "reply_code_from_u8 v =
     (if v = 0x00 then Some Succeeded
      else if v = 0x01 then Some GeneralFailure
      else if v = 0x02 then Some ConnectionNotAllowed
      else if v = 0x03 then Some NetworkUnreachable
      else if v = 0x04 then Some HostUnreachable
      else if v = 0x05 then Some ConnectionRefused
      else if v = 0x06 then Some TtlExpired
      else if v = 0x07 then Some CommandNotSupported
      else if v = 0x08 then Some AddressTypeNotSupported
      else None)"

definition reply_code :: "SocksError \<Rightarrow> ReplyCode" where
  "reply_code e =
     (case e of
        UnsupportedAtyp _ \<Rightarrow> AddressTypeNotSupported
      | UnsupportedCommand _ \<Rightarrow> CommandNotSupported
      | UdpDisabled \<Rightarrow> CommandNotSupported
      | ConnectRefused \<Rightarrow> ConnectionRefused
      | _ \<Rightarrow> GeneralFailure)"

section \<open>Targets, commands, methods\<close>

definition ATYP_IPV4 :: u8 where "ATYP_IPV4 = 0x01"
definition ATYP_DOMAIN :: u8 where "ATYP_DOMAIN = 0x03"
definition ATYP_IPV6 :: u8 where "ATYP_IPV6 = 0x04"
definition UDP_HEADER_MAX :: nat where "UDP_HEADER_MAX = 262"

lemmas atyp_defs = ATYP_IPV4_def ATYP_DOMAIN_def ATYP_IPV6_def

datatype SocksTarget = Domain string | Ip IpAddr

primrec atyp :: "SocksTarget \<Rightarrow> u8" where
  "atyp (Domain host) = ATYP_DOMAIN"
| "atyp (Ip ip) = (case ip of V4 _ \<Rightarrow> ATYP_IPV4 | V6 _ \<Rightarrow> ATYP_IPV6)"

primrec as_domain :: "SocksTarget \<Rightarrow> string option" where
  "as_domain (Domain host) = Some host"
| "as_domain (Ip ip) = None"

record SocksRequest =
  sr_to :: SocksTarget
  sr_port :: nat

datatype Command = Connect | BindCmd | UdpAssociate

definition command_from_u8 :: "u8 \<Rightarrow> SocksError + Command" where
  "command_from_u8 v =
     (if v = 0x01 then Inr Connect else if v = 0x02 then Inr BindCmd else if v = 0x03 then Inr UdpAssociate
      else Inl (UnsupportedCommand v))"

primrec command_as_u8 :: "Command \<Rightarrow> u8" where
  "command_as_u8 Connect = 0x01"
| "command_as_u8 BindCmd = 0x02"
| "command_as_u8 UdpAssociate = 0x03"

datatype AuthMethod = NoAuth | UserPassMethod | UnknownMethod u8

definition method_from_u8 :: "u8 \<Rightarrow> AuthMethod" where
  "method_from_u8 v = (if v = 0x00 then NoAuth else if v = 0x02 then UserPassMethod else UnknownMethod v)"

primrec method_as_u8 :: "AuthMethod \<Rightarrow> u8" where
  "method_as_u8 NoAuth = 0x00"
| "method_as_u8 UserPassMethod = 0x02"
| "method_as_u8 (UnknownMethod v) = v"

section \<open>Readers\<close>

type_synonym 'a reader = "bytes \<Rightarrow> SocksError + ('a \<times> bytes)"

definition read_exact :: "nat \<Rightarrow> bytes reader" where
  "read_exact n s = (if n \<le> length s then Inr (take n s, drop n s) else Inl Io)"

definition read_u8 :: "u8 reader" where
  "read_u8 s = (case s of [] \<Rightarrow> Inl Io | b # r \<Rightarrow> Inr (b, r))"

definition greeting_read :: "AuthMethod list reader" where
  "greeting_read s =
     rbind (read_exact 2 s) (\<lambda>(head, s).
       if head ! 0 \<noteq> 0x05 then Inl (BadVersion (head ! 0))
       else if head ! 1 = 0 then Inl (Malformed ''greeting offered no authentication methods'')
       else rbind (read_exact (unat (head ! 1)) s) (\<lambda>(methods, s). Inr (map method_from_u8 methods, s)))"

definition offers :: "AuthMethod list \<Rightarrow> AuthMethod \<Rightarrow> bool" where
  "offers methods m \<longleftrightarrow> m \<in> set methods"

definition choose_method :: "AuthMethod list \<Rightarrow> 'c option \<Rightarrow> AuthMethod option" where
  "choose_method methods credentials =
     (let acceptable = (case credentials of Some _ \<Rightarrow> UserPassMethod | None \<Rightarrow> NoAuth)
      in if offers methods acceptable then Some acceptable else None)"

record Credentials =
  username :: string
  password :: string

definition read_length_prefixed :: "string reader" where
  "read_length_prefixed s =
     rbind (read_u8 s) (\<lambda>(len, s).
       rbind (read_exact (unat len) s) (\<lambda>(buf, s).
         rbind (ok_or (Malformed ''RFC 1929 field is not valid UTF-8'') (from_utf8 buf)) (\<lambda>t. Inr (t, s))))"

definition credentials_read :: "Credentials reader" where
  "credentials_read s =
     rbind (read_u8 s) (\<lambda>(version, s).
       if version \<noteq> 0x01 then Inl (Malformed ''RFC 1929 sub-negotiation version must be 1'')
       else rbind (read_length_prefixed s) (\<lambda>(u, s).
         rbind (read_length_prefixed s) (\<lambda>(p, s). Inr (\<lparr>username = u, password = p\<rparr>, s))))"

definition read_target_with :: "u8 \<Rightarrow> bool \<Rightarrow> (SocksTarget \<times> nat) reader" where
  "read_target_with aty allow_zero_port s =
     rbind
       (if aty = ATYP_IPV4 then rbind (read_exact 4 s) (\<lambda>(os, s). Inr (Ip (v4_from os), s))
        else if aty = ATYP_IPV6 then rbind (read_exact 16 s) (\<lambda>(os, s). Inr (Ip (v6_from os), s))
        else if aty = ATYP_DOMAIN then
          rbind (read_u8 s) (\<lambda>(len, s).
            if len = 0 then Inl (Malformed ''domain name is empty'')
            else rbind (read_exact (unat len) s) (\<lambda>(buf, s).
              rbind (ok_or (Malformed ''domain name is not valid UTF-8'') (from_utf8 buf)) (\<lambda>host. Inr (Domain host, s))))
        else Inl (UnsupportedAtyp aty))
       (\<lambda>(target, s).
          rbind (read_exact 2 s) (\<lambda>(port, s).
            if of_be_bytes port = 0 \<and> \<not> allow_zero_port then Inl PortZero
            else Inr ((target, of_be_bytes port), s)))"

definition read_target :: "u8 \<Rightarrow> (SocksTarget \<times> nat) reader" where
  "read_target aty s = read_target_with aty False s"

record Request =
  rq_command :: Command
  rq_target :: SocksTarget
  rq_port :: nat

definition request_read :: "Request reader" where
  "request_read s =
     rbind (read_exact 4 s) (\<lambda>(head, s).
       if head ! 0 \<noteq> 0x05 then Inl (BadVersion (head ! 0))
       else rbind (command_from_u8 (head ! 1)) (\<lambda>command.
         if head ! 2 \<noteq> 0x00 then Inl (Malformed ''request RSV must be zero'')
         else rbind (read_target_with (head ! 3) (command = UdpAssociate) s) (\<lambda>((target, port), s).
           Inr (\<lparr>rq_command = command, rq_target = target, rq_port = port\<rparr>, s))))"

definition socks_request :: "Request \<Rightarrow> SocksRequest" where
  "socks_request rq = \<lparr>sr_to = rq_target rq, sr_port = rq_port rq\<rparr>"

section \<open>Writers\<close>

primrec encode_target :: "SocksTarget \<Rightarrow> SocksError + bytes" where
  "encode_target (Ip ip) = Inr ((case ip of V4 _ \<Rightarrow> ATYP_IPV4 | V6 _ \<Rightarrow> ATYP_IPV6) # ip_octets ip)"
| "encode_target (Domain host) =
     (let b = as_bytes host in
      if b = [] \<or> length b > 255 then Inl (Malformed ''domain name must be 1..=255 bytes to be encodable'')
      else Inr (ATYP_DOMAIN # word_of_nat (length b) # b))"

record Reply =
  rep_code :: ReplyCode
  rep_bind :: SocketAddr

definition reply_new :: "ReplyCode \<Rightarrow> SocketAddr \<Rightarrow> Reply" where
  "reply_new code bind = \<lparr>rep_code = code, rep_bind = bind\<rparr>"

definition reply_failure :: "ReplyCode \<Rightarrow> Reply" where
  "reply_failure code = \<lparr>rep_code = code, rep_bind = \<lparr>sa_ip = V4 [0, 0, 0, 0], sa_port = 0\<rparr>\<rparr>"

definition reply_write :: "Reply \<Rightarrow> SocksError + bytes" where
  "reply_write r =
     rbind (encode_target (Ip (sa_ip (rep_bind r)))) (\<lambda>t.
       Inr ([0x05, reply_code_as_u8 (rep_code r), 0x00] @ t @ be_bytes 2 (sa_port (rep_bind r))))"

record UdpHeader =
  uh_frag :: u8
  uh_target :: SocksTarget
  uh_port :: nat

definition udp_header_parse :: "bytes \<Rightarrow> SocksError + (UdpHeader \<times> nat)" where
  "udp_header_parse buf =
     (if length buf < 4 then Inl (Malformed ''UDP datagram shorter than its header'')
      else if buf ! 0 \<noteq> 0x00 \<or> buf ! 1 \<noteq> 0x00 then Inl (Malformed ''UDP RSV must be zero'')
      else
        rbind
          (if buf ! 3 = ATYP_IPV4 then
             if length buf < 4 + 4 + 2 then Inl (Malformed ''truncated IPv4 UDP header'')
             else Inr (Ip (v4_from (take 4 (drop 4 buf))), 4 + 4)
           else if buf ! 3 = ATYP_IPV6 then
             if length buf < 4 + 16 + 2 then Inl (Malformed ''truncated IPv6 UDP header'')
             else Inr (Ip (v6_from (take 16 (drop 4 buf))), 4 + 16)
           else if buf ! 3 = ATYP_DOMAIN then
             if length buf < 5 then Inl (Malformed ''truncated domain UDP header'')
             else let len = unat (buf ! 4) in
               if len = 0 then Inl (Malformed ''domain name is empty'')
               else let stop = 5 + len in
                 if length buf < stop + 2 then Inl (Malformed ''truncated domain UDP header'')
                 else rbind (ok_or (Malformed ''domain name is not valid UTF-8'') (from_utf8 (take len (drop 5 buf))))
                        (\<lambda>host. Inr (Domain host, stop))
           else Inl (UnsupportedAtyp (buf ! 3)))
          (\<lambda>(target, offset).
             let port = of_be_bytes [buf ! offset, buf ! (offset + 1)] in
             if port = 0 then Inl PortZero
             else Inr (\<lparr>uh_frag = buf ! 2, uh_target = target, uh_port = port\<rparr>, offset + 2)))"

definition udp_header_encode :: "UdpHeader \<Rightarrow> SocksError + bytes" where
  "udp_header_encode uh =
     rbind (encode_target (uh_target uh)) (\<lambda>t. Inr ([0x00, 0x00, 0x00] @ t @ be_bytes 2 (uh_port uh)))"

definition encode_udp_datagram :: "SocksTarget \<Rightarrow> nat \<Rightarrow> bytes \<Rightarrow> SocksError + bytes" where
  "encode_udp_datagram target port pl =
     rbind (encode_target target) (\<lambda>t. Inr ([0x00, 0x00, 0x00] @ t @ be_bytes 2 port @ pl))"

definition encode_udp_reply :: "SocketAddr \<Rightarrow> bytes \<Rightarrow> SocksError + bytes" where
  "encode_udp_reply source pl = encode_udp_datagram (Ip (sa_ip source)) (sa_port source) pl"

section \<open>Writers and readers fit\<close>

definition target_ok :: "SocksTarget \<Rightarrow> bool" where
  "target_ok t \<longleftrightarrow> (case t of Ip ip \<Rightarrow> ip_ok ip | Domain host \<Rightarrow> valid_utf8 (as_bytes host))"

definition request_ok :: "Request \<Rightarrow> bool" where
  "request_ok rq \<longleftrightarrow> target_ok (rq_target rq) \<and> rq_port rq \<le> u16_max \<and> (rq_port rq = 0 \<longrightarrow> rq_command rq = UdpAssociate)"

lemma read_exact_Inr [result_simps]: "read_exact n s = Inr (b, r) \<longleftrightarrow> s = b @ r \<and> length b = n"
  by (auto simp: read_exact_def)

lemma read_u8_Inr [result_simps]: "read_u8 s = Inr (b, r) \<longleftrightarrow> s = b # r"
  by (auto simp: read_u8_def split: list.splits)

lemma v4_from_octets: "ip_ok (V4 os) \<Longrightarrow> v4_from (ip_octets (V4 os)) = V4 os"
  by (auto simp: v4_from_def list_all_iff unat_of_nat intro!: map_idI)

lemma v4_octets_from: "length os = 4 \<Longrightarrow> ip_octets (v4_from os) = os \<and> ip_ok (v4_from os)"
  by (auto simp: v4_from_def list_all_iff comp_def unat_u8_bound)

lemma be2: "be_bytes 2 n = [word_of_nat (n div 256), word_of_nat n]"
  by (simp add: numeral_2_eq_2)

lemma unat_pair: "n < 65536 \<Longrightarrow> unat (word_of_nat (n div 256) :: u8) * 256 + unat (word_of_nat n :: u8) = n"
  by (simp add: unat_of_nat)

lemma pairs_octets: "pairs (concat (map (be_bytes 2) gs)) = map (\<lambda>g. (word_of_nat (g div 256), word_of_nat g)) gs"
  by (induction gs) (auto simp: be2)

lemma v6_from_octets: "ip_ok (V6 gs) \<Longrightarrow> v6_from (ip_octets (V6 gs)) = V6 gs"
  by (auto simp: v6_from_def pairs_octets comp_def list_all_iff unat_pair intro!: map_idI)

lemma length_ip_octets: "ip_ok ip \<Longrightarrow> length (ip_octets ip) = (case ip of V4 _ \<Rightarrow> 4 | V6 _ \<Rightarrow> 16)"
  by (cases ip) (auto simp: length_concat comp_def sum_list_triv)

lemma pair_octets: "be_bytes 2 (unat a * 256 + unat b) = [a, b]" for a b :: u8
proof -
  have "of_be_bytes [a, b] = unat a * 256 + unat b" "length [a, b] = 2" by (simp_all add: of_be_bytes_Cons)
  with be_bytes_of_be_bytes [of "[a, b]"] show ?thesis by metis
qed

lemma pairs_inverse: "even (length os) \<Longrightarrow> concat (map (be_bytes 2) (map (\<lambda>(a, b). unat a * 256 + unat b) (pairs os))) = os"
  by (induction os rule: pairs.induct) (auto simp: pair_octets)

lemma length_pairs: "length (pairs os) = length os div 2"
  by (induction os rule: pairs.induct) auto

lemma v6_octets_from:
  assumes "length os = 16"
  shows "ip_octets (v6_from os) = os \<and> ip_ok (v6_from os)"
proof -
  have "unat a * 256 + unat b < 65536" for a b :: u8
    using unat_u8_bound [of a] unat_u8_bound [of b] by simp
  with assms pairs_inverse [of os] show ?thesis
    by (auto simp: v6_from_def length_pairs list_all_iff)
qed

lemma encode_from:
  "length os = 4 \<Longrightarrow> encode_target (Ip (v4_from os)) = Inr (ATYP_IPV4 # os)"
  "length os = 16 \<Longrightarrow> encode_target (Ip (v6_from os)) = Inr (ATYP_IPV6 # os)"
  using v4_octets_from [of os] v6_octets_from [of os] by (simp_all add: v4_from_def v6_from_def)

lemma as_bytes_Nil_iff [simp]: "as_bytes s = [] \<longleftrightarrow> s = []"
  by (simp add: as_bytes_def)

lemma from_utf8_Some: "from_utf8 b = Some t \<longleftrightarrow> b = as_bytes t \<and> valid_utf8 b"
  by (auto simp: from_utf8_def)

lemma of_be_bytes2: "length b = 2 \<Longrightarrow> be_bytes 2 (of_be_bytes b) = b \<and> of_be_bytes b \<le> u16_max"
  using be_bytes_of_be_bytes [of b] of_be_bytes_bound [of b] by (simp add: u16_max_def)

lemma port_bytes [simp]: "p \<le> u16_max \<Longrightarrow> of_be_bytes (be_bytes 2 p) = p"
  by (rule of_be_bytes_u16)

text \<open>The address readers accept exactly the encodings of well-formed targets.\<close>

lemma read_target_complete:
  assumes "target_ok t" "p \<le> u16_max" "p = 0 \<longrightarrow> z" "encode_target t = Inr (aty # a)"
  shows "read_target_with aty z (a @ be_bytes 2 p @ r) = Inr ((t, p), r)"
proof (cases t)
  case (Ip ip)
  with assms length_ip_octets [of ip] v4_from_octets v6_from_octets show ?thesis
    by (cases ip) (auto simp: read_target_with_def read_exact_def atyp_defs target_ok_def)
next
  case (Domain host)
  let ?b = "as_bytes host"
  have b: "?b \<noteq> []" "length ?b \<le> 255" and ata: "aty = ATYP_DOMAIN" "a = word_of_nat (length ?b) # ?b"
    using assms(4) Domain by (simp_all add: Let_def not_le split: if_splits)
  have u: "unat (word_of_nat (length ?b) :: u8) = length ?b" using b(2) by (simp add: unat_of_nat)
  then have nz: "(word_of_nat (length ?b) :: u8) \<noteq> 0" using b(1) by (metis length_0_conv unat_0)
  have port0: "0 < p \<or> z" using assms(3) by auto
  have utf: "from_utf8 ?b = Some host" using assms(1) Domain by (simp add: target_ok_def from_utf8_as_bytes)
  show ?thesis
    using assms(2) port0 nz u utf Domain
    by (simp add: ata read_target_with_def read_exact_def read_u8_def atyp_defs)
qed

lemma read_target_sound:
  assumes "read_target_with aty z s = Inr ((t, p), r)"
  shows "target_ok t \<and> p \<le> u16_max \<and> (p = 0 \<longrightarrow> z)
    \<and> (\<exists>a. encode_target t = Inr (aty # a) \<and> s = a @ be_bytes 2 p @ r)"
proof -
  consider (v4) "aty = ATYP_IPV4" | (v6) "aty = ATYP_IPV6" | (dom) "aty = ATYP_DOMAIN"
    using assms by (auto simp: read_target_with_def split: if_splits)
  then show ?thesis
  proof cases
    case v4
    with assms show ?thesis
      by (auto simp: read_target_with_def result_simps target_ok_def v4_octets_from of_be_bytes2 encode_from
          simp del: encode_target.simps split: if_splits)
  next
    case v6
    with assms v6_octets_from show ?thesis
      by (auto simp: read_target_with_def result_simps target_ok_def of_be_bytes2 atyp_defs encode_from [unfolded atyp_defs]
          simp del: encode_target.simps split: if_splits)
  next
    case dom
    then obtain len host pb where s: "s = len # as_bytes host @ pb @ r" "len \<noteq> 0" "length host = unat len" "length pb = 2"
      and t: "t = Domain host" "valid_utf8 (as_bytes host)" "p = of_be_bytes pb" "p = 0 \<longrightarrow> z"
      using assms by (auto simp: read_target_with_def result_simps atyp_defs from_utf8_Some split: if_splits)
    have "host \<noteq> []" using s(2,3) by (auto simp: unat_eq_zero)
    moreover have "length host \<le> 255" using s(3) unat_u8_bound [of len] by simp
    ultimately show ?thesis using s t dom of_be_bytes2 [of pb] by (auto simp: target_ok_def Let_def)
  qed
qed

lemma encode_target_head: "encode_target t = Inr b \<Longrightarrow> \<exists>a. b = atyp t # a"
  by (cases t) (auto simp: Let_def split: if_splits)

text \<open>The bytes of a request, as a client writes them.\<close>

definition request_bytes :: "Request \<Rightarrow> SocksError + bytes" where
  "request_bytes rq =
     rbind (encode_target (rq_target rq)) (\<lambda>t. Inr ([0x05, command_as_u8 (rq_command rq), 0x00] @ t @ be_bytes 2 (rq_port rq)))"

lemma command_from_as [simp]: "command_from_u8 (command_as_u8 c) = Inr c"
  by (cases c) (simp_all add: command_from_u8_def)

lemma command_from_u8_Inr [result_simps]: "command_from_u8 v = Inr c \<longleftrightarrow> v = command_as_u8 c"
  by (cases c) (auto simp: command_from_u8_def)

lemma udp_header_parse_encode:
  assumes "target_ok t" "p \<le> u16_max" "p \<noteq> 0" "encode_target t = Inr b"
  shows "udp_header_parse ([0x00, 0x00, frag] @ b @ be_bytes 2 p @ pl)
    = Inr (\<lparr>uh_frag = frag, uh_target = t, uh_port = p\<rparr>, length b + 5)"
proof (cases t)
  case (Ip ip)
  have port: "of_be_bytes [word_of_nat (p div 256), word_of_nat p] = p" using port_bytes [OF assms(2)] by (simp add: be2)
  show ?thesis
  proof (cases ip)
    case (V4 os)
    then have os: "length os = 4" "v4_from (ip_octets (V4 os)) = V4 os" "b = ATYP_IPV4 # ip_octets (V4 os)"
      using assms Ip v4_from_octets [of os] by (auto simp: target_ok_def)
    with port assms(3) Ip V4 show ?thesis
      by (simp add: udp_header_parse_def be2 nth_append Let_def)
  next
    case (V6 gs)
    then have gs: "length (ip_octets (V6 gs)) = 16" "v6_from (ip_octets (V6 gs)) = V6 gs" "b = ATYP_IPV6 # ip_octets (V6 gs)"
      using assms Ip v6_from_octets [of gs] length_ip_octets [of "V6 gs"] by (auto simp: target_ok_def)
    with port assms(3) Ip V6 show ?thesis
      by (simp add: udp_header_parse_def be2 nth_append Let_def atyp_defs del: ip_octets.simps)
  qed
next
  case (Domain host)
  let ?b = "as_bytes host"
  have port: "of_be_bytes [word_of_nat (p div 256), word_of_nat p] = p" using port_bytes [OF assms(2)] by (simp add: be2)
  have b: "?b \<noteq> []" "length ?b \<le> 255" "b = ATYP_DOMAIN # word_of_nat (length ?b) # ?b"
    using assms(4) Domain by (simp_all add: Let_def not_le split: if_splits)
  have u: "unat (word_of_nat (length ?b) :: u8) = length ?b" using b(2) by (simp add: unat_of_nat)
  have utf: "from_utf8 ?b = Some host" using assms(1) Domain by (simp add: target_ok_def from_utf8_as_bytes)
  from b u utf port assms(3) Domain show ?thesis
    by (simp add: udp_header_parse_def be2 nth_append Let_def atyp_defs)
qed

section \<open>Properties\<close>

text \<open>The request parser accepts exactly the well-formed requests: for every input, a request and a rest are
  returned if and only if the input is the encoding of a request with a four- or sixteen-octet address or a
  UTF-8 name of 1 to 255 bytes, and a port that is zero at most for UDP ASSOCIATE, followed by that rest.\<close>

theorem socks_request_read_iff:
  "request_read s = Inr (rq, rest) \<longleftrightarrow>
     request_ok rq \<and> (\<exists>b. request_bytes rq = Inr b \<and> s = b @ rest)"
proof
  assume "request_read s = Inr (rq, rest)"
  then obtain head s1 c t p where h: "s = head @ s1" "length head = 4" "head ! 0 = 0x05" "head ! 1 = command_as_u8 c" "head ! 2 = 0"
    and r: "read_target_with (head ! 3) (c = UdpAssociate) s1 = Inr ((t, p), rest)"
    and rq: "rq = \<lparr>rq_command = c, rq_target = t, rq_port = p\<rparr>"
    by (auto simp: request_read_def result_simps split: if_splits)
  have head: "head = [0x05, command_as_u8 c, 0, head ! 3]"
    using h by (auto simp: list_eq_iff_nth_eq less_Suc_eq numeral_nat)
  from read_target_sound [OF r] obtain a where "target_ok t" "p \<le> u16_max" "p = 0 \<longrightarrow> c = UdpAssociate"
    "encode_target t = Inr (head ! 3 # a)" "s1 = a @ be_bytes 2 p @ rest" by blast
  with h(1) head rq show "request_ok rq \<and> (\<exists>b. request_bytes rq = Inr b \<and> s = b @ rest)"
    by (auto simp: request_ok_def request_bytes_def)
next
  assume "request_ok rq \<and> (\<exists>b. request_bytes rq = Inr b \<and> s = b @ rest)"
  then obtain a where ok: "request_ok rq" and a: "encode_target (rq_target rq) = Inr (atyp (rq_target rq) # a)"
    and s: "s = [0x05, command_as_u8 (rq_command rq), 0, atyp (rq_target rq)] @ a @ be_bytes 2 (rq_port rq) @ rest"
    using encode_target_head [of "rq_target rq"] by (fastforce simp: request_bytes_def result_simps)
  have "read_target_with (atyp (rq_target rq)) (rq_command rq = UdpAssociate) (a @ be_bytes 2 (rq_port rq) @ rest)
      = Inr ((rq_target rq, rq_port rq), rest)"
    using ok a by (intro read_target_complete) (auto simp: request_ok_def)
  then show "request_read s = Inr (rq, rest)"
    by (simp add: s request_read_def read_exact_def)
qed

text \<open>A UDP datagram written for a target is read back with that target, port and payload, unfragmented.\<close>

theorem socks_udp_datagram_roundtrip:
  assumes "target_ok t" "p \<le> u16_max" "p \<noteq> 0" "encode_udp_datagram t p pl = Inr w"
  shows "\<exists>n. udp_header_parse w = Inr (\<lparr>uh_frag = 0, uh_target = t, uh_port = p\<rparr>, n) \<and> drop n w = pl
    \<and> n \<le> UDP_HEADER_MAX"
proof -
  from assms(4) obtain b where b: "encode_target t = Inr b" "w = [0x00, 0x00, 0x00] @ b @ be_bytes 2 p @ pl"
    by (auto simp: encode_udp_datagram_def result_simps)
  have "length b + 5 \<le> UDP_HEADER_MAX"
    using b(1) assms(1) length_ip_octets
    by (cases t) (auto simp: UDP_HEADER_MAX_def Let_def target_ok_def simp del: ip_octets.simps split: if_splits IpAddr.splits)
  moreover have "drop (length b + 5) ([0x00, 0x00, 0x00] @ b @ be_bytes 2 p @ pl) = pl"
    by (simp add: numeral_eq_Suc del: be_bytes.simps)
  ultimately show ?thesis using udp_header_parse_encode [OF assms(1-3) b(1), of 0 pl] b(2) by metis
qed

theorem socks_udp_datagram_roundtrip_witness:
  "\<exists>w n. encode_udp_datagram (Domain ''a.b'') 53 [1, 2] = Inr w
     \<and> udp_header_parse w = Inr (\<lparr>uh_frag = 0, uh_target = Domain ''a.b'', uh_port = 53\<rparr>, n) \<and> drop n w = [1, 2]"
proof -
  have t: "target_ok (Domain ''a.b'')"
    unfolding target_ok_def SocksTarget.case by (rule valid_utf8_ascii) (simp add: as_bytes_def byte_of_char_def)
  obtain w where w: "encode_udp_datagram (Domain ''a.b'') 53 [1, 2] = Inr w"
    by (simp add: encode_udp_datagram_def Let_def)
  from socks_udp_datagram_roundtrip [OF t _ _ w] w show ?thesis by (auto simp: u16_max_def)
qed

end
