(* ===== verification/Socks_Config.thy ===== *)
theory Socks_Config
  imports Socks_Wire
begin

unbundle bit_operations_syntax

text \<open>
  \<open>crates/wsnet-socks/src/config.rs\<close>: address prefixes, credentials and the listener configuration with its
  checks. A \<open>Duration\<close> is its number of nanoseconds.
\<close>

section \<open>Displaying addresses\<close>

text \<open>\<open>Display\<close> of \<open>IpAddr\<close> in the standard library: dotted decimal; colon-separated hexadecimal with the first
  longest run of at least two zero groups as a double colon, and mapped IPv4 addresses in dotted form.\<close>

function hex_digits :: "nat \<Rightarrow> string" where
  "hex_digits n = (let c = ''0123456789abcdef'' ! (n mod 16) in if n < 16 then [c] else hex_digits (n div 16) @ [c])"
  by pat_completeness auto
termination by (relation "measure id") auto

declare hex_digits.simps [simp del]

fun join_with :: "string \<Rightarrow> string list \<Rightarrow> string" where
  "join_with sep [] = []"
| "join_with sep [x] = x"
| "join_with sep (x # y # r) = x @ sep @ join_with sep (y # r)"

fun longest_zeros :: "nat \<Rightarrow> nat list \<Rightarrow> (nat \<times> nat) \<Rightarrow> (nat \<times> nat) \<Rightarrow> nat \<times> nat" where
  "longest_zeros i [] longest current = longest"
| "longest_zeros i (g # gs) (ls, ll) (cs, cl) =
     (if g = 0 then
        let cs = (if cl = 0 then i else cs); cl = cl + 1 in
        longest_zeros (i + 1) gs (if cl > ll then (cs, cl) else (ls, ll)) (cs, cl)
      else longest_zeros (i + 1) gs (ls, ll) (0, 0))"

primrec ip_to_string :: "IpAddr \<Rightarrow> string" where
  "ip_to_string (V4 os) = join_with ''.'' (map dec os)"
| "ip_to_string (V6 gs) =
     (if take 6 gs = [0, 0, 0, 0, 0, 0xffff] then
        ''::ffff:'' @ join_with ''.'' (map dec [gs ! 6 div 256, gs ! 6 mod 256, gs ! 7 div 256, gs ! 7 mod 256])
      else let (start, len) = longest_zeros 0 gs (0, 0) (0, 0) in
        if len > 1 then join_with '':'' (map hex_digits (take start gs)) @ ''::'' @ join_with '':'' (map hex_digits (drop (start + len) gs))
        else join_with '':'' (map hex_digits gs))"

definition is_loopback :: "IpAddr \<Rightarrow> bool" where
  "is_loopback ip = (case ip of V4 os \<Rightarrow> os ! 0 = 127 | V6 gs \<Rightarrow> gs = [0, 0, 0, 0, 0, 0, 0, 1])"

definition is_unspecified :: "IpAddr \<Rightarrow> bool" where
  "is_unspecified ip = (case ip of V4 os \<Rightarrow> os = [0, 0, 0, 0] | V6 gs \<Rightarrow> gs = [0, 0, 0, 0, 0, 0, 0, 0])"

section \<open>Prefixes\<close>

record IpPrefix =
  px_addr :: IpAddr
  px_len :: nat

definition family_bits :: "IpAddr \<Rightarrow> nat" where
  "family_bits ip = (if is_ipv4 ip then 32 else 128)"

definition prefix_new :: "IpAddr \<Rightarrow> nat \<Rightarrow> SocksError + IpPrefix" where
  "prefix_new addr prefix_len =
     (if prefix_len > family_bits addr then Inl (InvalidIpPrefix (ip_to_string addr @ ''/'' @ dec prefix_len))
      else Inr \<lparr>px_addr = addr, px_len = prefix_len\<rparr>)"

definition prefix_host :: "IpAddr \<Rightarrow> IpPrefix" where
  "prefix_host addr = \<lparr>px_addr = addr, px_len = family_bits addr\<rparr>"

definition v4_mask :: "nat \<Rightarrow> 32 word" where
  "v4_mask prefix_len = (if prefix_len = 0 then 0 else push_bit (32 - prefix_len) (- 1))"

definition v6_mask :: "nat \<Rightarrow> 128 word" where
  "v6_mask prefix_len = (if prefix_len = 0 then 0 else push_bit (128 - prefix_len) (- 1))"

definition ip_number :: "IpAddr \<Rightarrow> nat" where
  "ip_number ip = of_be_bytes (ip_octets ip)"

definition prefix_contains :: "IpPrefix \<Rightarrow> IpAddr \<Rightarrow> bool" where
  "prefix_contains p ip =
     (case (px_addr p, ip) of
        (V4 _, V4 _) \<Rightarrow>
          (let m = v4_mask (px_len p) in word_of_nat (ip_number (px_addr p)) AND m = word_of_nat (ip_number ip) AND m)
      | (V6 _, V6 _) \<Rightarrow>
          (let m = v6_mask (px_len p) in word_of_nat (ip_number (px_addr p)) AND m = word_of_nat (ip_number ip) AND m)
      | _ \<Rightarrow> False)"

definition prefix_from_str :: "string \<Rightarrow> SocksError + IpPrefix" where
  "prefix_from_str text =
     (case split_once (CHR ''/'') text of
        None \<Rightarrow> (case parse_ip text of Some ip \<Rightarrow> Inr (prefix_host ip) | None \<Rightarrow> Inl (InvalidIpPrefix text))
      | Some (addr, len) \<Rightarrow>
          rbind (ok_or (InvalidIpPrefix text) (parse_ip addr)) (\<lambda>addr.
            rbind (ok_or (InvalidIpPrefix text) (parse_unsigned 255 len)) (\<lambda>prefix_len.
              map_err (\<lambda>_. InvalidIpPrefix text) (prefix_new addr prefix_len))))"

definition prefix_to_string :: "IpPrefix \<Rightarrow> string" where
  "prefix_to_string p = ip_to_string (px_addr p) @ ''/'' @ dec (px_len p)"

section \<open>Credentials\<close>

record UserPass =
  up_username :: string
  up_password :: string

definition userpass_new :: "string \<Rightarrow> string \<Rightarrow> SocksError + UserPass" where
  "userpass_new u p =
     (if u = [] \<or> p = [] then Inl (SocksConfigErr ''username and password must both be non-empty'')
      else if length (as_bytes u) > 255 \<or> length (as_bytes p) > 255
      then Inl (SocksConfigErr ''username and password must be at most 255 bytes (RFC 1929)'')
      else Inr \<lparr>up_username = u, up_password = p\<rparr>)"

definition byte_at :: "bytes \<Rightarrow> nat \<Rightarrow> u8" where
  "byte_at bs i = (if i < length bs then bs ! i else 0)"

definition ct_eq_bytes :: "bytes \<Rightarrow> bytes \<Rightarrow> u8" where
  "ct_eq_bytes expected rcvd =
     foldl (\<lambda>diff i. diff OR (byte_at expected i XOR byte_at rcvd i))
       (ucast ((word_of_nat (length expected) :: 64 word) XOR word_of_nat (length rcvd)))
       [0..<max (length expected) (length rcvd)]"

definition userpass_matches :: "UserPass \<Rightarrow> string \<Rightarrow> string \<Rightarrow> bool" where
  "userpass_matches up u p \<longleftrightarrow>
     (0 OR ct_eq_bytes (as_bytes (up_username up)) (as_bytes u)) OR ct_eq_bytes (as_bytes (up_password up)) (as_bytes p) = 0"

definition credentials_verify :: "Credentials \<Rightarrow> UserPass \<Rightarrow> bool" where
  "credentials_verify c expected = userpass_matches expected (username c) (password c)"

section \<open>Listener configuration\<close>

record SocksConfig =
  loopback_only :: bool
  source_allowlist :: "IpPrefix list"
  udp_enabled :: bool
  max_udp_payload :: nat
  userpass :: "UserPass option"
  udp_advertise :: "SocketAddr option"
  udp_queue_ttl :: nat
  udp_idle_timeout :: nat
  handshake_timeout :: nat
  max_unauth_connections_per_ip :: nat

definition UDP_HEADER_MARGIN :: nat where "UDP_HEADER_MARGIN = 264"

definition from_millis :: "nat \<Rightarrow> nat" where "from_millis n = n * 1000000"
definition from_secs :: "nat \<Rightarrow> nat" where "from_secs n = n * 1000000000"
definition as_millis :: "nat \<Rightarrow> nat" where "as_millis d = d div 1000000"

definition socks_config_default :: SocksConfig where
  "socks_config_default =
     \<lparr>loopback_only = True, source_allowlist = [], udp_enabled = True, max_udp_payload = UDP_MAX_PAYLOAD_DEFAULT,
      userpass = None, udp_advertise = None, udp_queue_ttl = from_millis UDP_QUEUE_TTL_DEFAULT_MS,
      udp_idle_timeout = from_secs UDP_ASSOCIATION_IDLE_SECS, handshake_timeout = from_millis HANDSHAKE_TIMEOUT_MS,
      max_unauth_connections_per_ip = MAX_UNAUTH_CONNECTIONS_PER_IP\<rparr>"

definition with_credentials :: "SocksConfig \<Rightarrow> UserPass \<Rightarrow> SocksConfig" where
  "with_credentials c up = c\<lparr>userpass := Some up\<rparr>"

definition with_source_allowlist :: "SocksConfig \<Rightarrow> string list \<Rightarrow> SocksError + SocksConfig" where
  "with_source_allowlist c entries = rbind (collect_r prefix_from_str entries) (\<lambda>al. Inr (c\<lparr>source_allowlist := al\<rparr>))"

definition source_allows :: "SocksConfig \<Rightarrow> IpAddr \<Rightarrow> bool" where
  "source_allows c ip \<longleftrightarrow> source_allowlist c = [] \<or> list_ex (\<lambda>p. prefix_contains p ip) (source_allowlist c)"

definition socks_validate :: "SocksConfig \<Rightarrow> SocksError + unit" where
  "socks_validate c =
     (let ttl_ms = as_millis (udp_queue_ttl c) mod 2 ^ 64 in
      if max_udp_payload c = 0 then Inl (SocksConfigErr ''max_udp_payload must be positive'')
      else if max_udp_payload c > UDP_MAX_PAYLOAD_DEFAULT
      then Inl (SocksConfigErr ''max_udp_payload must not exceed UDP_MAX_PAYLOAD_DEFAULT'')
      else if max_udp_payload c + UDP_HEADER_MARGIN > MAX_UDP_PAYLOAD
      then Inl (SocksConfigErr ''max_udp_payload plus the SOCKS5 UDP header exceeds MAX_UDP_PAYLOAD'')
      else if \<not> (UDP_QUEUE_TTL_MIN_MS \<le> ttl_ms \<and> ttl_ms \<le> UDP_QUEUE_TTL_MAX_MS)
      then Inl (SocksConfigErr ''udp_queue_ttl must be inside UDP_QUEUE_TTL_MIN_MS..=UDP_QUEUE_TTL_MAX_MS'')
      else if udp_idle_timeout c = 0 \<or> udp_idle_timeout c > from_secs UDP_ASSOCIATION_IDLE_SECS
      then Inl (SocksConfigErr ''udp_idle_timeout must be positive and at most UDP_ASSOCIATION_IDLE_SECS'')
      else if handshake_timeout c = 0 then Inl (SocksConfigErr ''handshake_timeout must be positive'')
      else if max_unauth_connections_per_ip c = 0
      then Inl (SocksConfigErr ''max_unauth_connections_per_ip must be positive'')
      else case userpass c of
        None \<Rightarrow> Inr ()
      | Some up \<Rightarrow>
          if up_username up = [] \<or> up_password up = [] \<or> length (as_bytes (up_username up)) > 255
             \<or> length (as_bytes (up_password up)) > 255
          then Inl (SocksConfigErr ''credentials must be 1..=255 bytes in both fields (RFC 1929)'')
          else Inr ())"

definition validate_for :: "SocksConfig \<Rightarrow> SocketAddr \<Rightarrow> SocksError + unit" where
  "validate_for c local =
     rbind (socks_validate c) (\<lambda>_.
       rbind (if \<not> is_loopback (sa_ip local) then
                if loopback_only c then Inl (NonLoopbackListen local)
                else if userpass c = None \<or> source_allowlist c = [] then Inl (UnsafeListenAddress local)
                else Inr ()
              else Inr ()) (\<lambda>_.
         case udp_advertise c of
           Some advertise \<Rightarrow>
             if is_ipv4 (sa_ip advertise) \<noteq> is_ipv4 (sa_ip local) \<and> \<not> is_unspecified (sa_ip local)
             then Inl (SocksConfigErr ''udp_advertise must use the same address family as the listen address'')
             else Inr ()
         | None \<Rightarrow> Inr ()))"

definition wildcard_for :: "SocketAddr \<Rightarrow> IpAddr" where
  "wildcard_for local = (if is_ipv4 (sa_ip local) then V4 [0, 0, 0, 0] else V6 [0, 0, 0, 0, 0, 0, 0, 0])"

section \<open>The constant-time comparison\<close>

lemma or_eq_0: "a OR b = 0 \<longleftrightarrow> a = 0 \<and> b = 0" for a b :: "'a::len word"
  by (auto simp: bit_eq_iff bit_simps)

lemma xor_eq_0: "a XOR b = 0 \<longleftrightarrow> a = b" for a b :: "'a::len word"
  by (auto simp: bit_eq_iff bit_simps)

lemma foldl_or_eq_0: "foldl (\<lambda>d i. d OR g i) a is = 0 \<longleftrightarrow> a = 0 \<and> (\<forall>i \<in> set is. g i = 0)" for a :: "'a::len word"
  by (induction "is" arbitrary: a) (auto simp: or_eq_0)

lemma ct_eq_bytes_0:
  assumes "length e \<le> 255" "length r \<le> 255"
  shows "ct_eq_bytes e r = 0 \<longleftrightarrow> e = r"
proof -
  have "(ucast ((word_of_nat (length e) :: 64 word) XOR word_of_nat (length r)) :: u8) = 0 \<longleftrightarrow> length e = length r"
  proof -
    have "(ucast ((word_of_nat (length e) :: 64 word) XOR word_of_nat (length r)) :: u8)
        = word_of_nat (length e) XOR word_of_nat (length r)"
      by (simp add: bit_eq_iff bit_simps)
    moreover have "(word_of_nat (length e) :: u8) = word_of_nat (length r) \<longleftrightarrow> length e = length r"
    proof -
      have "unat (word_of_nat (length e) :: u8) = length e" "unat (word_of_nat (length r) :: u8) = length r"
        using assms by (simp_all add: unat_of_nat)
      then show ?thesis by metis
    qed
    ultimately show ?thesis by (simp add: xor_eq_0)
  qed
  then have "ct_eq_bytes e r = 0 \<longleftrightarrow> length e = length r \<and> (\<forall>i < max (length e) (length r). byte_at e i = byte_at r i)"
    unfolding ct_eq_bytes_def foldl_or_eq_0 xor_eq_0 by (simp add: Ball_def)
  also have "\<dots> \<longleftrightarrow> e = r" by (auto simp: byte_at_def list_eq_iff_nth_eq)
  finally show ?thesis .
qed

section \<open>Prefix membership\<close>

lemma masked_eq_iff:
  "a AND NOT (mask k) = b AND NOT (mask k) \<longleftrightarrow> drop_bit k a = drop_bit k b" for a b :: "'a::len word"
proof
  assume m: "a AND NOT (mask k) = b AND NOT (mask k)"
  have "bit a i = bit b i" if "k \<le> i" for i
    using arg_cong [OF m, of "\<lambda>w. bit w i"] that by (cases "i < LENGTH('a)") (auto simp: bit_simps dest: bit_imp_le_length)
  then show "drop_bit k a = drop_bit k b" by (simp add: bit_eq_iff bit_simps)
next
  assume d: "drop_bit k a = drop_bit k b"
  have "bit a i = bit b i" if "k \<le> i" for i
    using arg_cong [OF d, of "\<lambda>w. bit w (i - k)"] that by (simp add: bit_simps)
  then show "a AND NOT (mask k) = b AND NOT (mask k)" by (auto simp: bit_eq_iff bit_simps)
qed

lemma v4_mask_eq: "n \<le> 32 \<Longrightarrow> v4_mask n = NOT (mask (32 - n))"
  by (cases n) (auto simp: v4_mask_def intro!: bit_word_eqI simp: bit_simps)

lemma v6_mask_eq: "n \<le> 128 \<Longrightarrow> v6_mask n = NOT (mask (128 - n))"
  by (cases n) (auto simp: v6_mask_def intro!: bit_word_eqI simp: bit_simps)

lemma drop_bit_numbers:
  "x < 2 ^ LENGTH('a) \<Longrightarrow> y < 2 ^ LENGTH('a) \<Longrightarrow>
   drop_bit k (word_of_nat x :: 'a::len word) = drop_bit k (word_of_nat y) \<longleftrightarrow> x div 2 ^ k = y div 2 ^ k"
  by (metis drop_bit_eq_div mod_less unat_drop_bit_eq unat_of_nat word_unat_eq_iff)

lemma ip_number_bound: "ip_ok ip \<Longrightarrow> ip_number ip < 2 ^ family_bits ip"
  using of_be_bytes_bound [of "ip_octets ip"] length_ip_octets [of ip]
  by (cases ip) (simp_all add: ip_number_def family_bits_def del: ip_octets.simps)

section \<open>Properties\<close>

text \<open>A prefix contains exactly the addresses of its family whose leading bits are those of its address:
  the masked comparison agrees with dividing both addresses by the power of two of the host part, for every
  prefix length from zero to the full width.\<close>

theorem prefix_contains_iff:
  assumes "ip_ok (px_addr p)" "ip_ok ip" "px_len p \<le> family_bits (px_addr p)"
  shows "prefix_contains p ip \<longleftrightarrow>
     is_ipv4 (px_addr p) = is_ipv4 ip
   \<and> ip_number (px_addr p) div 2 ^ (family_bits ip - px_len p) = ip_number ip div 2 ^ (family_bits ip - px_len p)"
proof -
  note bnd = ip_number_bound [OF assms(1)] ip_number_bound [OF assms(2)]
  show ?thesis
  proof (cases "px_addr p"; cases ip)
    fix a b assume "px_addr p = V4 a" "ip = V4 b"
    with assms(3) bnd show ?thesis
      by (simp add: prefix_contains_def Let_def family_bits_def v4_mask_eq masked_eq_iff drop_bit_numbers)
  next
    fix a b assume "px_addr p = V6 a" "ip = V6 b"
    with assms(3) bnd show ?thesis
      by (simp add: prefix_contains_def Let_def family_bits_def v6_mask_eq masked_eq_iff drop_bit_numbers)
  qed (simp_all add: prefix_contains_def)
qed

theorem prefix_contains_iff_witness:
  "prefix_contains \<lparr>px_addr = V4 [10, 0, 0, 0], px_len = 8\<rparr> (V4 [10, 1, 2, 3])
   \<and> \<not> prefix_contains \<lparr>px_addr = V4 [10, 0, 0, 0], px_len = 8\<rparr> (V4 [11, 1, 2, 3])"
proof -
  let ?p = "\<lparr>px_addr = V4 [10, 0, 0, 0], px_len = 8\<rparr>"
  have "prefix_contains ?p (V4 [b, 1, 2, 3]) \<longleftrightarrow> b = 10" if "b < 256" for b
    using prefix_contains_iff [of ?p "V4 [b, 1, 2, 3]"] that
    by (simp add: family_bits_def ip_number_def of_be_bytes_Cons unat_of_nat)
  from this [of 10] this [of 11] show ?thesis by simp
qed

end
