(* ===== verification/Socks_Server.thy ===== *)
theory Socks_Server
  imports Socks_Config
begin

text \<open>
  \<open>crates/wsnet-socks/src/stats.rs\<close> and \<open>server.rs\<close>: the counters, the per-source budget of unauthenticated
  connections, method negotiation and the service of one accepted connection. The client is the bytes it sends
  and whether it then stalls (so that the deadline expires) or closes; writes to it succeed and are collected.
  The handler is a parameter.
\<close>

section \<open>Counters\<close>

datatype Counter =
    CntConnectionsAccepted | CntConnectionLimitDropped | CntSourceDenied | CntHandshakeTimeout |
    CntMethodNoAuthAccepted | CntMethodUserPassAccepted | CntMethodRejected | CntAuthFailed |
    CntRequestMalformed | CntUnsupportedAtyp | CntUnsupportedCommand | CntPortZeroRejected |
    CntConnectSucceeded | CntConnectFailed | CntUdpAssociateStarted | CntUdpAssociationEnded |
    CntUdpRelayed | CntUdpRepliesSent | CntUdpSendFailed | CntUdpFragDropped | CntUdpMalformedDropped |
    CntUdpOversizedDropped | CntUdpSourceMismatchDropped | CntUdpSourceDriftDropped |
    CntUdpTargetLimitDropped | CntUdpQueueOverflowDropped | CntUdpTtlExpiredDropped |
    CntUdpUnmappedReplyDropped | CntUdpUnexpectedSourceDropped

definition COUNTER_COUNT :: nat where "COUNTER_COUNT = 29"

definition COUNTER_ALL :: "Counter list" where
  "COUNTER_ALL =
     [CntConnectionsAccepted, CntConnectionLimitDropped, CntSourceDenied, CntHandshakeTimeout,
      CntMethodNoAuthAccepted, CntMethodUserPassAccepted, CntMethodRejected, CntAuthFailed,
      CntRequestMalformed, CntUnsupportedAtyp, CntUnsupportedCommand, CntPortZeroRejected,
      CntConnectSucceeded, CntConnectFailed, CntUdpAssociateStarted, CntUdpAssociationEnded,
      CntUdpRelayed, CntUdpRepliesSent, CntUdpSendFailed, CntUdpFragDropped, CntUdpMalformedDropped,
      CntUdpOversizedDropped, CntUdpSourceMismatchDropped, CntUdpSourceDriftDropped,
      CntUdpTargetLimitDropped, CntUdpQueueOverflowDropped, CntUdpTtlExpiredDropped,
      CntUdpUnmappedReplyDropped, CntUdpUnexpectedSourceDropped]"

primrec counter_as_str :: "Counter \<Rightarrow> string" where
  "counter_as_str CntConnectionsAccepted = ''connections_accepted''"
| "counter_as_str CntConnectionLimitDropped = ''connection_limit_dropped''"
| "counter_as_str CntSourceDenied = ''source_denied''"
| "counter_as_str CntHandshakeTimeout = ''handshake_timeout''"
| "counter_as_str CntMethodNoAuthAccepted = ''method_no_auth_accepted''"
| "counter_as_str CntMethodUserPassAccepted = ''method_userpass_accepted''"
| "counter_as_str CntMethodRejected = ''method_rejected''"
| "counter_as_str CntAuthFailed = ''auth_failed''"
| "counter_as_str CntRequestMalformed = ''request_malformed''"
| "counter_as_str CntUnsupportedAtyp = ''unsupported_atyp''"
| "counter_as_str CntUnsupportedCommand = ''unsupported_command''"
| "counter_as_str CntPortZeroRejected = ''port_zero_rejected''"
| "counter_as_str CntConnectSucceeded = ''connect_succeeded''"
| "counter_as_str CntConnectFailed = ''connect_failed''"
| "counter_as_str CntUdpAssociateStarted = ''udp_associate_started''"
| "counter_as_str CntUdpAssociationEnded = ''udp_association_ended''"
| "counter_as_str CntUdpRelayed = ''udp_relayed''"
| "counter_as_str CntUdpRepliesSent = ''udp_replies_sent''"
| "counter_as_str CntUdpSendFailed = ''udp_send_failed''"
| "counter_as_str CntUdpFragDropped = ''udp_frag_dropped''"
| "counter_as_str CntUdpMalformedDropped = ''udp_malformed_dropped''"
| "counter_as_str CntUdpOversizedDropped = ''udp_oversized_dropped''"
| "counter_as_str CntUdpSourceMismatchDropped = ''udp_source_mismatch_dropped''"
| "counter_as_str CntUdpSourceDriftDropped = ''udp_source_drift_dropped''"
| "counter_as_str CntUdpTargetLimitDropped = ''udp_target_limit_dropped''"
| "counter_as_str CntUdpQueueOverflowDropped = ''udp_queue_overflow_dropped''"
| "counter_as_str CntUdpTtlExpiredDropped = ''udp_ttl_expired_dropped''"
| "counter_as_str CntUdpUnmappedReplyDropped = ''udp_unmapped_reply_dropped''"
| "counter_as_str CntUdpUnexpectedSourceDropped = ''udp_unexpected_source_dropped''"

text \<open>The discriminant of a fieldless enum: its position in the declaration.\<close>

definition counter_index :: "Counter \<Rightarrow> nat" where
  "counter_index c = length (takeWhile (\<lambda>x. x \<noteq> c) COUNTER_ALL)"

record Counters =
  slots :: "nat list"

definition counters_new :: Counters where
  "counters_new = \<lparr>slots = replicate COUNTER_COUNT 0\<rparr>"

definition counters_add :: "Counters \<Rightarrow> Counter \<Rightarrow> nat \<Rightarrow> Counters" where
  "counters_add cs c n =
     cs\<lparr>slots := (slots cs)[counter_index c := (slots cs ! counter_index c + n) mod 2 ^ 64]\<rparr>"

definition counters_inc :: "Counters \<Rightarrow> Counter \<Rightarrow> Counters" where
  "counters_inc cs c = counters_add cs c 1"

definition counters_get :: "Counters \<Rightarrow> Counter \<Rightarrow> nat" where
  "counters_get cs c = slots cs ! counter_index c"

definition counters_snapshot :: "Counters \<Rightarrow> nat list" where
  "counters_snapshot cs = map (\<lambda>i. slots cs ! i) [0..<COUNTER_COUNT]"

definition stats_get :: "nat list \<Rightarrow> Counter \<Rightarrow> nat" where
  "stats_get stats c = stats ! counter_index c"

text \<open>What the \<open>Debug\<close> output lists: the counters that are not zero.\<close>

definition stats_entries :: "nat list \<Rightarrow> (string \<times> nat) list" where
  "stats_entries stats =
     map (\<lambda>c. (counter_as_str c, stats_get stats c)) (filter (\<lambda>c. stats_get stats c \<noteq> 0) COUNTER_ALL)"

section \<open>Budget of unauthenticated connections\<close>

record UnauthLimiter =
  ul_max :: nat
  inflight :: "(IpAddr \<times> nat) list"

definition limiter_new :: "nat \<Rightarrow> UnauthLimiter" where
  "limiter_new mx = \<lparr>ul_max = mx, inflight = []\<rparr>"

definition limiter_acquire :: "UnauthLimiter \<Rightarrow> IpAddr \<Rightarrow> UnauthLimiter \<times> bool" where
  "limiter_acquire l ip =
     (let count = (case map_of (inflight l) ip of Some n \<Rightarrow> n | None \<Rightarrow> 0);
          l = (if map_of (inflight l) ip = None then l\<lparr>inflight := hm_insert ip 0 (inflight l)\<rparr> else l)
      in if count \<ge> ul_max l then (l, False)
         else (l\<lparr>inflight := hm_insert ip (count + 1) (inflight l)\<rparr>, True))"

definition limiter_release :: "UnauthLimiter \<Rightarrow> IpAddr \<Rightarrow> UnauthLimiter" where
  "limiter_release l ip =
     (case map_of (inflight l) ip of
        None \<Rightarrow> l
      | Some n \<Rightarrow>
          if n - 1 = 0 then l\<lparr>inflight := hm_remove ip (hm_insert ip (n - 1) (inflight l))\<rparr>
          else l\<lparr>inflight := hm_insert ip (n - 1) (inflight l)\<rparr>)"

text \<open>A slot releases its budget once, on \<open>release\<close> or when it is dropped.\<close>

record UnauthSlot =
  slot_ip :: IpAddr
  slot_held :: bool

definition slot_release :: "UnauthLimiter \<Rightarrow> UnauthSlot \<Rightarrow> UnauthLimiter \<times> UnauthSlot" where
  "slot_release l sl = (if slot_held sl then (limiter_release l (slot_ip sl), sl\<lparr>slot_held := False\<rparr>) else (l, sl))"

section \<open>Negotiation\<close>

type_synonym 'a exchange = "Counters \<times> bytes \<times> (SocksError + 'a)"

definition negotiate :: "SocksConfig \<Rightarrow> Counters \<Rightarrow> bytes \<Rightarrow> bytes exchange" where
  "negotiate cfg cs input =
     (case greeting_read input of
        Inl e \<Rightarrow> (cs, [], Inl e)
      | Inr (greeting, s) \<Rightarrow>
          (case choose_method greeting (userpass cfg) of
             None \<Rightarrow> (counters_inc cs CntMethodRejected, [0x05, 0xFF], Inl AuthRejected)
           | Some NoAuth \<Rightarrow> (counters_inc cs CntMethodNoAuthAccepted, [0x05, method_as_u8 NoAuth], Inr s)
           | Some UserPassMethod \<Rightarrow>
               (case credentials_read s of
                  Inl e \<Rightarrow> (cs, [0x05, method_as_u8 UserPassMethod], Inl e)
                | Inr (cred, s) \<Rightarrow>
                    if (case userpass cfg of Some expected \<Rightarrow> credentials_verify cred expected | None \<Rightarrow> False)
                    then (counters_inc cs CntMethodUserPassAccepted, [0x05, method_as_u8 UserPassMethod, 0x01, 0x00], Inr s)
                    else (counters_inc cs CntAuthFailed, [0x05, method_as_u8 UserPassMethod, 0x01, 0x01], Inl SocksAuthFailed))
           | Some (UnknownMethod v) \<Rightarrow>
               (counters_inc cs CntMethodRejected, [0x05, v, 0x05, 0xFF], Inl AuthRejected)))"

definition count_request_error :: "Counters \<Rightarrow> SocksError \<Rightarrow> Counters" where
  "count_request_error cs e =
     counters_inc cs
       (case e of
          UnsupportedAtyp _ \<Rightarrow> CntUnsupportedAtyp
        | UnsupportedCommand _ \<Rightarrow> CntUnsupportedCommand
        | UdpDisabled \<Rightarrow> CntUnsupportedCommand
        | PortZero \<Rightarrow> CntPortZeroRejected
        | AuthRejected \<Rightarrow> CntMethodRejected
        | SocksAuthFailed \<Rightarrow> CntAuthFailed
        | _ \<Rightarrow> CntRequestMalformed)"

section \<open>One connection\<close>

record ServerInner =
  sv_config :: SocksConfig
  sv_counters :: Counters
  sv_unauth :: UnauthLimiter
  sv_associations :: nat

definition server_new :: "SocketAddr \<Rightarrow> SocksConfig \<Rightarrow> SocksError + ServerInner" where
  "server_new local cfg =
     rbind (validate_for cfg local) (\<lambda>_.
       Inr \<lparr>sv_config = cfg, sv_counters = counters_new,
            sv_unauth = limiter_new (max_unauth_connections_per_ip cfg), sv_associations = 0\<rparr>)"

text \<open>What a connection ends in: nothing, a relay to what the handler opened, or a UDP association.\<close>

datatype 'd served = Nothing | Relay 'd | Association nat

definition written :: "SocksError + bytes \<Rightarrow> bytes" where
  "written r = (case r of Inr b \<Rightarrow> b | Inl _ \<Rightarrow> [])"

definition refuse :: "ReplyCode \<Rightarrow> bytes" where
  "refuse code = written (reply_write (reply_failure code))"

definition connect ::
    "(SocksRequest \<Rightarrow> SocksError + 'd) \<Rightarrow> Counters \<Rightarrow> SocketAddr \<Rightarrow> Request \<Rightarrow> Counters \<times> bytes \<times> 'd served" where
  "connect handler cs local request =
     (case handler (socks_request request) of
        Inr upstream \<Rightarrow>
          (counters_inc cs CntConnectSucceeded, written (reply_write (reply_new Succeeded local)), Relay upstream)
      | Inl e \<Rightarrow> (counters_inc cs CntConnectFailed, refuse (reply_code e), Nothing))"

definition serve_request ::
    "(SocksRequest \<Rightarrow> SocksError + 'd) \<Rightarrow> ServerInner \<Rightarrow> SocketAddr \<Rightarrow> bytes \<Rightarrow> bool \<Rightarrow> ServerInner \<times> bytes \<times> 'd served" where
  "serve_request handler sv local input stalls =
     (case request_read input of
        Inl e \<Rightarrow>
          if e = Io \<and> stalls then (sv\<lparr>sv_counters := counters_inc (sv_counters sv) CntHandshakeTimeout\<rparr>, [], Nothing)
          else (sv\<lparr>sv_counters := count_request_error (sv_counters sv) e\<rparr>, refuse (reply_code e), Nothing)
      | Inr (request, _) \<Rightarrow>
          (case rq_command request of
             Connect \<Rightarrow>
               (let (cs, out, end) = connect handler (sv_counters sv) local request
                in (sv\<lparr>sv_counters := cs\<rparr>, out, end))
           | UdpAssociate \<Rightarrow>
               if \<not> udp_enabled (sv_config sv)
               then (sv\<lparr>sv_counters := counters_inc (sv_counters sv) CntUnsupportedCommand\<rparr>, refuse CommandNotSupported, Nothing)
               else (sv\<lparr>sv_associations := (sv_associations sv + 1) mod 2 ^ 64\<rparr>, [],
                     Association ((sv_associations sv + 1) mod 2 ^ 64))
           | BindCmd \<Rightarrow>
               (sv\<lparr>sv_counters := counters_inc (sv_counters sv) CntUnsupportedCommand\<rparr>, refuse CommandNotSupported, Nothing)))"

definition serve_connection ::
    "(SocksRequest \<Rightarrow> SocksError + 'd) \<Rightarrow> ServerInner \<Rightarrow> SocketAddr \<Rightarrow> SocketAddr option \<Rightarrow> bytes \<Rightarrow> bool
       \<Rightarrow> ServerInner \<times> bytes \<times> 'd served" where
  "serve_connection handler sv peer local_addr input stalls =
     (if \<not> source_allows (sv_config sv) (sa_ip peer)
      then (sv\<lparr>sv_counters := counters_inc (sv_counters sv) CntSourceDenied\<rparr>, [], Nothing)
      else case limiter_acquire (sv_unauth sv) (sa_ip peer) of
        (l, False) \<Rightarrow>
          (sv\<lparr>sv_unauth := l, sv_counters := counters_inc (sv_counters sv) CntConnectionLimitDropped\<rparr>, [], Nothing)
      | (l, True) \<Rightarrow>
          let released = limiter_release l (sa_ip peer) in
          (case local_addr of
             None \<Rightarrow> (sv\<lparr>sv_unauth := released\<rparr>, [], Nothing)
           | Some local \<Rightarrow>
               (case negotiate (sv_config sv) (sv_counters sv) input of
                  (cs, out, Inl e) \<Rightarrow>
                    (sv\<lparr>sv_unauth := released,
                        sv_counters := (if e = Io \<and> stalls then counters_inc cs CntHandshakeTimeout else cs)\<rparr>, out, Nothing)
                | (cs, out, Inr rest) \<Rightarrow>
                    let (sv, out', end) =
                          serve_request handler (sv\<lparr>sv_unauth := released, sv_counters := cs\<rparr>) local rest stalls
                    in (sv, out @ out', end))))"

section \<open>Counters are in range\<close>

lemma length_COUNTER_ALL: "length COUNTER_ALL = COUNTER_COUNT"
  by (simp add: COUNTER_ALL_def COUNTER_COUNT_def)

lemma counter_in_ALL: "c \<in> set COUNTER_ALL"
  by (cases c) (simp_all add: COUNTER_ALL_def)

lemma length_takeWhile_neq: "x \<in> set xs \<Longrightarrow> length (takeWhile (\<lambda>y. y \<noteq> x) xs) < length xs"
  by (induction xs) auto

lemma counter_index_less: "counter_index c < COUNTER_COUNT"
  unfolding counter_index_def length_COUNTER_ALL [symmetric]
  by (rule length_takeWhile_neq [OF counter_in_ALL])

lemma counter_index_nth: "COUNTER_ALL ! counter_index c = c"
  using nth_length_takeWhile [of "\<lambda>x. x \<noteq> c" COUNTER_ALL] counter_index_less [of c]
  by (simp add: counter_index_def length_COUNTER_ALL)

lemma counter_index_inj: "counter_index c = counter_index d \<longleftrightarrow> c = d"
  by (metis counter_index_nth)

lemma counters_get_inc:
  "length (slots cs) = COUNTER_COUNT \<Longrightarrow>
   counters_get (counters_inc cs c) d = (if c = d then (counters_get cs c + 1) mod 2 ^ 64 else counters_get cs d)"
  using counter_index_less by (simp add: counters_get_def counters_inc_def counters_add_def nth_list_update counter_index_inj)

section \<open>The limiter counts the live slots\<close>

text \<open>The connections that hold a slot, as a list of their sources; a step takes a slot for a new connection
  or ends one that holds it.\<close>

datatype limiter_op = OpAcquire IpAddr | OpRelease IpAddr

fun limiter_step :: "UnauthLimiter \<times> IpAddr list \<Rightarrow> limiter_op \<Rightarrow> UnauthLimiter \<times> IpAddr list" where
  "limiter_step (l, live) (OpAcquire ip) =
     (case limiter_acquire l ip of (l, True) \<Rightarrow> (l, ip # live) | (l, False) \<Rightarrow> (l, live))"
| "limiter_step (l, live) (OpRelease ip) =
     (if ip \<in> set live then (limiter_release l ip, remove1 ip live) else (l, live))"

definition limiter_inv :: "UnauthLimiter \<times> IpAddr list \<Rightarrow> bool" where
  "limiter_inv = (\<lambda>(l, live).
     hm_inv (inflight l) \<and> 0 < ul_max l
   \<and> (\<forall>ip. map_of (inflight l) ip = (if count_list live ip = 0 then None else Some (count_list live ip)))
   \<and> (\<forall>ip. count_list live ip \<le> ul_max l))"

lemma count_list_remove1: "x \<in> set xs \<Longrightarrow> count_list (remove1 x xs) y = (if x = y then count_list xs y - 1 else count_list xs y)"
  by (induction xs) (auto simp: count_list_0_iff Suc_leI)

lemma limiter_step_inv:
  assumes inv: "limiter_inv (l, live)"
  shows "limiter_inv (limiter_step (l, live) op) \<and> ul_max (fst (limiter_step (l, live) op)) = ul_max l"
proof (cases op)
  case (OpAcquire ip)
  from inv have m: "hm_inv (inflight l)" "0 < ul_max l"
    "\<And>ip. map_of (inflight l) ip = (if count_list live ip = 0 then None else Some (count_list live ip))"
    "\<And>ip. count_list live ip \<le> ul_max l" by (auto simp: limiter_inv_def)
  show ?thesis
  proof (cases "count_list live ip < ul_max l")
    case True
    with m OpAcquire show ?thesis
      by (auto simp: limiter_inv_def limiter_acquire_def Let_def hm.inv_insert update_conv')
  next
    case False
    with m(2) have "count_list live ip \<noteq> 0" by auto
    with m OpAcquire False show ?thesis
      by (auto simp: limiter_inv_def limiter_acquire_def Let_def)
  qed
next
  case (OpRelease ip)
  from inv have m: "hm_inv (inflight l)" "0 < ul_max l"
    "\<And>ip. map_of (inflight l) ip = (if count_list live ip = 0 then None else Some (count_list live ip))"
    "\<And>ip. count_list live ip \<le> ul_max l" by (auto simp: limiter_inv_def)
  show ?thesis
  proof (cases "ip \<in> set live")
    case True
    then have "count_list live ip \<noteq> 0" by (simp add: count_list_0_iff)
    moreover have "count_list live ip' - 1 \<le> ul_max l" for ip' using m(4) [of ip'] by simp
    ultimately show ?thesis using m OpRelease True
      by (auto simp: limiter_inv_def limiter_release_def count_list_remove1 hm.inv_insert hm.inv_remove update_conv' delete_conv')
  next
    case False
    with inv OpRelease show ?thesis by simp
  qed
qed

lemma limiter_run_inv:
  "limiter_inv st \<Longrightarrow> limiter_inv (foldl limiter_step st ops) \<and> ul_max (fst (foldl limiter_step st ops)) = ul_max (fst st)"
proof (induction ops arbitrary: st)
  case Nil
  then show ?case by simp
next
  case (Cons op ops)
  obtain l live where st: "st = (l, live)" by fastforce
  from limiter_step_inv [of l live op] Cons.prems have "limiter_inv (limiter_step st op)"
    "ul_max (fst (limiter_step st op)) = ul_max (fst st)" by (simp_all add: st)
  with Cons.IH [of "limiter_step st op"] show ?case by simp
qed

lemma limiter_inv_new: "0 < n \<Longrightarrow> limiter_inv (limiter_new n, [])"
  by (simp add: limiter_inv_def limiter_new_def hm_inv_def)

section \<open>What negotiation accepts\<close>

definition greeting_bytes :: "bytes \<Rightarrow> bytes" where
  "greeting_bytes ms = [0x05, word_of_nat (length ms)] @ ms"

definition credential_bytes :: "string \<Rightarrow> string \<Rightarrow> bytes" where
  "credential_bytes u p =
     [0x01, word_of_nat (length (as_bytes u))] @ as_bytes u @ [word_of_nat (length (as_bytes p))] @ as_bytes p"

lemma word_of_unat_length: "length b = unat n \<Longrightarrow> (word_of_nat (length b) :: u8) = n"
  by simp

lemma greeting_read_Inr:
  assumes "greeting_read s = Inr (g, r)"
  obtains ms where "s = greeting_bytes ms @ r" "g = map method_from_u8 ms" "ms \<noteq> []" "length ms \<le> 255"
proof -
  from assms obtain hd2 ms where h: "s = hd2 @ ms @ r" "length hd2 = 2" "hd2 ! 0 = 0x05" "hd2 ! 1 \<noteq> 0"
    "length ms = unat (hd2 ! 1)" "g = map method_from_u8 ms"
    by (auto simp: greeting_read_def result_simps split: if_splits)
  then have "hd2 = [0x05, word_of_nat (length ms)]"
    by (auto simp: list_eq_iff_nth_eq less_Suc_eq numeral_nat)
  moreover have "ms \<noteq> []" "length ms \<le> 255"
    using h(4,5) unat_u8_bound [of "hd2 ! 1"] by (auto simp: unat_eq_zero)
  ultimately show thesis using h(1,6) by (intro that [of ms]) (simp_all add: greeting_bytes_def)
qed

lemma read_length_prefixed_Inr [result_simps]:
  "read_length_prefixed s = Inr (t, r) \<longleftrightarrow>
     length (as_bytes t) \<le> 255 \<and> valid_utf8 (as_bytes t) \<and> s = word_of_nat (length (as_bytes t)) # as_bytes t @ r"
proof
  assume "read_length_prefixed s = Inr (t, r)"
  then obtain n where "s = n # as_bytes t @ r" "length (as_bytes t) = unat n" "valid_utf8 (as_bytes t)"
    by (auto simp: read_length_prefixed_def result_simps from_utf8_Some)
  then show "length (as_bytes t) \<le> 255 \<and> valid_utf8 (as_bytes t) \<and> s = word_of_nat (length (as_bytes t)) # as_bytes t @ r"
    using unat_u8_bound [of n] by simp
next
  assume *: "length (as_bytes t) \<le> 255 \<and> valid_utf8 (as_bytes t) \<and> s = word_of_nat (length (as_bytes t)) # as_bytes t @ r"
  then have "unat (word_of_nat (length (as_bytes t)) :: u8) = length (as_bytes t)" by (simp add: unat_of_nat)
  with * show "read_length_prefixed s = Inr (t, r)"
    by (simp add: read_length_prefixed_def read_u8_def read_exact_def from_utf8_as_bytes)
qed

lemma credentials_read_Inr:
  assumes "credentials_read s = Inr (c, r)"
  shows "s = credential_bytes (username c) (password c) @ r"
    "length (as_bytes (username c)) \<le> 255" "length (as_bytes (password c)) \<le> 255"
  using assms by (auto simp: credentials_read_def result_simps credential_bytes_def split: if_splits)

lemma credentials_verify_iff:
  assumes "length (as_bytes (username c)) \<le> 255" "length (as_bytes (password c)) \<le> 255"
    "length (as_bytes (up_username up)) \<le> 255" "length (as_bytes (up_password up)) \<le> 255"
  shows "credentials_verify c up \<longleftrightarrow> username c = up_username up \<and> password c = up_password up"
  unfolding credentials_verify_def userpass_matches_def or_eq_0
  using assms by (auto simp: ct_eq_bytes_0)

lemma method_userpass: "method_from_u8 v = UserPassMethod \<longleftrightarrow> v = 0x02"
  by (auto simp: method_from_u8_def)

lemma negotiate_userpass:
  assumes up: "userpass cfg = Some up" "length (as_bytes (up_username up)) \<le> 255" "length (as_bytes (up_password up)) \<le> 255"
    and ok: "negotiate cfg cs input = (cs', out, Inr rest)"
  obtains ms where "0x02 \<in> set ms" "length ms \<le> 255"
    "input = greeting_bytes ms @ credential_bytes (up_username up) (up_password up) @ rest"
proof -
  from ok obtain g s where g: "greeting_read input = Inr (g, s)"
    by (auto simp: negotiate_def split: sum.splits)
  from greeting_read_Inr [OF g] obtain ms where ms: "input = greeting_bytes ms @ s" "g = map method_from_u8 ms" "length ms \<le> 255" .
  have ch: "choose_method g (userpass cfg) = Some UserPassMethod"
    using ok g up(1) by (auto simp: negotiate_def choose_method_def split: option.splits if_splits)
  then have two: "0x02 \<in> set ms"
    using up(1) ms(2) by (auto simp: choose_method_def offers_def method_userpass dest!: sym [of UserPassMethod] split: if_splits)
  from ok g ch up(1) obtain c where c: "credentials_read s = Inr (c, rest)" "credentials_verify c up"
    by (auto simp: negotiate_def split: sum.splits if_splits)
  with credentials_read_Inr [OF c(1)] up credentials_verify_iff [of c up]
  have "s = credential_bytes (up_username up) (up_password up) @ rest" by simp
  with ms two that show thesis by simp
qed

lemma validated_userpass:
  "socks_validate cfg = Inr u \<Longrightarrow> userpass cfg = Some up \<Longrightarrow>
   length (as_bytes (up_username up)) \<le> 255 \<and> length (as_bytes (up_password up)) \<le> 255"
  by (auto simp: socks_validate_def Let_def split: if_splits)

section \<open>Properties\<close>

text \<open>C15: A listener reachable from outside is never an open proxy: when a server was accepted on an address that
  is not loopback, a connection reaches the handler or gets a UDP association only if its source is inside a
  prefix of a non-empty allowlist and its bytes are a greeting offering RFC 1929 followed by exactly the
  configured username and password.\<close>

theorem socks_outside_listener_requires_credentials:
  assumes new: "server_new local cfg = Inr sv0" and out: "\<not> is_loopback (sa_ip local)"
    and cfg: "sv_config sv = cfg"
    and served: "serve_connection handler sv peer la input stalls = (sv', written', srv)" "srv \<noteq> Nothing"
  shows "\<exists>up ms rest. userpass cfg = Some up
     \<and> list_ex (\<lambda>p. prefix_contains p (sa_ip peer)) (source_allowlist cfg)
     \<and> 0x02 \<in> set ms \<and> length ms \<le> 255
     \<and> input = greeting_bytes ms @ credential_bytes (up_username up) (up_password up) @ rest"
proof -
  from new out obtain up where up: "userpass cfg = Some up" "source_allowlist cfg \<noteq> []" "socks_validate cfg = Inr ()"
    by (auto simp: server_new_def validate_for_def result_simps split: if_splits)
  from served cfg up(2) have src: "list_ex (\<lambda>p. prefix_contains p (sa_ip peer)) (source_allowlist cfg)"
    by (auto simp: serve_connection_def source_allows_def split: if_splits)
  have "\<exists>cs out rest. negotiate cfg (sv_counters sv) input = (cs, out, Inr rest)"
  proof (rule ccontr)
    assume "\<nexists>cs out rest. negotiate cfg (sv_counters sv) input = (cs, out, Inr rest)"
    then obtain cs out e where "negotiate cfg (sv_counters sv) input = (cs, out, Inl e)"
      by (metis surj_pair sum.exhaust_sel sumE)
    with served cfg show False
      by (auto simp: serve_connection_def Let_def split: if_splits prod.splits bool.splits option.splits)
  qed
  then obtain cs out rest where "negotiate cfg (sv_counters sv) input = (cs, out, Inr rest)" by blast
  from negotiate_userpass [OF up(1) _ _ this] validated_userpass [OF up(3,1)] up(1) src show ?thesis by metis
qed

text \<open>A public listener with one allowed network and one user, and a client that connects to port 80.\<close>

definition sample_config :: SocksConfig where
  "sample_config = socks_config_default\<lparr>loopback_only := False, userpass := Some \<lparr>up_username = ''u'', up_password = ''p''\<rparr>,
     source_allowlist := [\<lparr>px_addr = V4 [10, 0, 0, 0], px_len = 8\<rparr>]\<rparr>"

definition sample_listen :: SocketAddr where "sample_listen = \<lparr>sa_ip = V4 [192, 0, 2, 1], sa_port = 1080\<rparr>"
definition sample_peer :: SocketAddr where "sample_peer = \<lparr>sa_ip = V4 [10, 1, 2, 3], sa_port = 4000\<rparr>"

lemma sample_server:
  obtains sv where "server_new sample_listen sample_config = Inr sv" "sv_config sv = sample_config"
    "sv_unauth sv = limiter_new 20"
  by (simp add: server_new_def validate_for_def socks_validate_def sample_config_def socks_config_default_def sample_listen_def
      is_loopback_def limit_defs UDP_HEADER_MARGIN_def as_millis_def from_millis_def from_secs_def Let_def)

lemma sample_negotiates: "\<exists>cs out. negotiate sample_config cs0 (greeting_bytes [2] @ credential_bytes ''u'' ''p'' @ r) = (cs, out, Inr r)"
proof -
  have utf: "valid_utf8 (as_bytes ''u'')" "valid_utf8 (as_bytes ''p'')"
    by (rule valid_utf8_ascii, simp add: as_bytes_def byte_of_char_def)+
  have l: "read_length_prefixed (1 # as_bytes ''u'' @ x) = Inr (''u'', x)"
    "read_length_prefixed (1 # as_bytes ''p'' @ x) = Inr (''p'', x)" for x
    using utf by (simp_all add: read_length_prefixed_Inr del: as_bytes_Cons)
  have c: "credentials_read (credential_bytes ''u'' ''p'' @ r) = Inr (\<lparr>username = ''u'', password = ''p''\<rparr>, r)"
    using l by (simp add: credentials_read_def credential_bytes_def read_u8_def del: as_bytes_Cons)
  have g: "greeting_read (greeting_bytes [2] @ s) = Inr ([UserPassMethod], s)" for s
    by (simp add: greeting_read_def greeting_bytes_def read_exact_def method_from_u8_def)
  have v: "credentials_verify \<lparr>username = ''u'', password = ''p''\<rparr> \<lparr>up_username = ''u'', up_password = ''p''\<rparr>"
    by (simp add: credentials_verify_iff)
  show ?thesis
    using v by (simp add: negotiate_def g c choose_method_def offers_def sample_config_def)
qed

theorem socks_outside_listener_requires_credentials_witness:
  "\<exists>sv sv' out. server_new sample_listen sample_config = Inr sv \<and>
     serve_connection (\<lambda>_. Inr ()) sv sample_peer (Some sample_listen)
       (greeting_bytes [2] @ credential_bytes ''u'' ''p'' @ [5, 1, 0, 1, 192, 0, 2, 5, 0, 80]) False = (sv', out, Relay ())
   \<and> (\<exists>up ms rest. userpass sample_config = Some up \<and> 0x02 \<in> set ms
        \<and> greeting_bytes [2] @ credential_bytes ''u'' ''p'' @ [5, 1, 0, 1, 192, 0, 2, 5, 0, 80]
          = greeting_bytes ms @ credential_bytes (up_username up) (up_password up) @ rest)"
proof -
  let ?rq = "[5, 1, 0, 1, 192, 0, 2, 5, 0, 80] :: bytes"
  let ?in = "greeting_bytes [2] @ credential_bytes ''u'' ''p'' @ ?rq"
  obtain sv where sv: "server_new sample_listen sample_config = Inr sv" "sv_config sv = sample_config" "sv_unauth sv = limiter_new 20"
    by (rule sample_server)
  obtain cs out where n: "negotiate sample_config (sv_counters sv) ?in = (cs, out, Inr ?rq)" using sample_negotiates by blast
  have src: "source_allows sample_config (sa_ip sample_peer)"
    by (simp add: source_allows_def sample_config_def sample_peer_def prefix_contains_def v4_mask_def ip_number_def Let_def
        of_be_bytes_Cons masked_eq_iff drop_bit_eq_div)
  have rq: "\<exists>t. request_read ?rq = Inr (\<lparr>rq_command = Connect, rq_target = t, rq_port = 80\<rparr>, [])"
    by (simp add: request_read_def read_exact_def command_from_u8_def read_target_with_def ATYP_IPV4_def of_be_bytes_Cons)
  have "\<exists>sv' out'. serve_connection (\<lambda>_. Inr ()) sv sample_peer (Some sample_listen) ?in False = (sv', out', Relay ())"
    using src n rq sv(2,3)
    by (auto simp: serve_connection_def serve_request_def connect_def limiter_acquire_def limiter_new_def Let_def)
  then obtain sv' out' where s: "serve_connection (\<lambda>_. Inr ()) sv sample_peer (Some sample_listen) ?in False = (sv', out', Relay ())"
    by blast
  have "\<not> is_loopback (sa_ip sample_listen)" by (simp add: is_loopback_def sample_listen_def)
  from socks_outside_listener_requires_credentials [OF sv(1) this sv(2) s] have
    "\<exists>up ms rest. userpass sample_config = Some up \<and> 0x02 \<in> set ms
        \<and> ?in = greeting_bytes ms @ credential_bytes (up_username up) (up_password up) @ rest" by blast
  with sv(1) s show ?thesis by blast
qed

text \<open>The budget of unauthenticated connections holds: over any sequence of connections taking and ending
  slots, no source holds more than the configured maximum, the table counts exactly the live slots of every
  source, and it keeps no entry for a source without one.\<close>

theorem unauth_budget_holds:
  assumes "0 < n" "foldl limiter_step (limiter_new n, []) ops = (l, live)"
  shows "count_list live ip \<le> n
    \<and> map_of (inflight l) ip = (if count_list live ip = 0 then None else Some (count_list live ip))"
  using limiter_run_inv [OF limiter_inv_new [OF assms(1)], of ops] assms(2)
  by (auto simp: limiter_inv_def limiter_new_def)

theorem unauth_budget_holds_witness:
  "\<exists>l live. foldl limiter_step (limiter_new 1, []) [OpAcquire (V4 [1, 2, 3, 4]), OpAcquire (V4 [1, 2, 3, 4])] = (l, live)
     \<and> count_list live (V4 [1, 2, 3, 4]) \<le> 1 \<and> live = [V4 [1, 2, 3, 4]]"
proof -
  let ?ip = "V4 [1, 2, 3, 4]"
  obtain l where l: "foldl limiter_step (limiter_new 1, []) [OpAcquire ?ip, OpAcquire ?ip] = (l, [?ip])"
    by (simp add: limiter_new_def limiter_acquire_def Let_def)
  from unauth_budget_holds [OF _ l, of ?ip] l show ?thesis by simp
qed

end
