(* ===== verification/Socks_Udp.thy ===== *)
theory Socks_Udp
  imports Socks_Server
begin

text \<open>
  \<open>crates/wsnet-socks/src/udp.rs\<close>: the UDP association. Instants and durations are nanoseconds. The channel to the
  handler is a bounded queue that the handler empties; binding the socket is a parameter; one turn of the
  \<open>select!\<close> loop takes the event that became ready.
\<close>

section \<open>Datagrams and replies\<close>

record UdpDatagram =
  ud_association_id :: nat
  ud_datagram_id :: nat
  ud_target :: SocksTarget
  ud_port :: nat
  ud_payload :: bytes
  ud_received_at :: nat
  ud_deadline :: nat

definition remaining_ttl :: "UdpDatagram \<Rightarrow> nat \<Rightarrow> nat" where
  "remaining_ttl d now = ud_deadline d - now"

definition is_expired :: "UdpDatagram \<Rightarrow> nat \<Rightarrow> bool" where
  "is_expired d now \<longleftrightarrow> now \<ge> ud_deadline d"

record UdpReply =
  ur_target :: SocksTarget
  ur_port :: nat
  ur_source :: SocketAddr
  ur_payload :: bytes

section \<open>Association state\<close>

record TargetState =
  pinned_source :: "IpAddr option"
  last_seen :: nat

record Association =
  peer_ip :: IpAddr
  allowlist :: "IpPrefix list"
  client :: "SocketAddr option"
  targets :: "((SocksTarget \<times> nat) \<times> TargetState) list"
  udp_queue :: "UdpDatagram list"
  queued_bytes :: nat
  next_datagram_id :: nat
  association_id :: nat
  as_counters :: Counters
  as_max_payload :: nat
  queue_ttl :: nat
  idle :: nat
  last_activity :: nat

definition association_new :: "SocksConfig \<Rightarrow> Counters \<Rightarrow> nat \<Rightarrow> IpAddr \<Rightarrow> nat \<Rightarrow> Association" where
  "association_new cfg cs aid ip now =
     \<lparr>peer_ip = ip, allowlist = source_allowlist cfg, client = None, targets = [], udp_queue = [], queued_bytes = 0,
      next_datagram_id = 0, association_id = aid, as_counters = cs, as_max_payload = max_udp_payload cfg,
      queue_ttl = udp_queue_ttl cfg, idle = udp_idle_timeout cfg, last_activity = now\<rparr>"

definition count_in :: "Association \<Rightarrow> Counter \<Rightarrow> Association" where
  "count_in a c = a\<lparr>as_counters := counters_inc (as_counters a) c\<rparr>"

definition source_allowed :: "Association \<Rightarrow> IpAddr \<Rightarrow> bool" where
  "source_allowed a ip \<longleftrightarrow> ip = peer_ip a \<or> list_ex (\<lambda>e. prefix_contains e ip) (allowlist a)"

definition reap_targets :: "Association \<Rightarrow> nat \<Rightarrow> Association" where
  "reap_targets a now = a\<lparr>targets := filter (\<lambda>(k, st). now - last_seen st < idle a) (targets a)\<rparr>"

definition lock_client :: "Association \<Rightarrow> SocketAddr \<Rightarrow> (Association, Association) sum" where
  "lock_client a source =
     (case client a of
        None \<Rightarrow> Inr (a\<lparr>client := Some source\<rparr>)
      | Some locked \<Rightarrow> if locked \<noteq> source then Inl (count_in a CntUdpSourceDriftDropped) else Inr a)"

definition check_header :: "Association \<Rightarrow> bytes \<Rightarrow> bool \<Rightarrow> Counter + (UdpHeader \<times> bytes)" where
  "check_header a datagram truncated =
     (if truncated then Inl CntUdpOversizedDropped
      else if length datagram < 4 then Inl CntUdpMalformedDropped
      else if datagram ! 0 \<noteq> 0x00 \<or> datagram ! 1 \<noteq> 0x00 then Inl CntUdpMalformedDropped
      else if datagram ! 2 \<noteq> 0x00 then Inl CntUdpFragDropped
      else case udp_header_parse datagram of
        Inl _ \<Rightarrow> Inl CntUdpMalformedDropped
      | Inr (header, offset) \<Rightarrow>
          if length (drop offset datagram) > as_max_payload a then Inl CntUdpOversizedDropped
          else Inr (header, drop offset datagram))"

definition register_target :: "Association \<Rightarrow> SocksTarget \<times> nat \<Rightarrow> nat \<Rightarrow> Counter + Association" where
  "register_target a key now =
     (case map_of (targets a) key of
        Some st \<Rightarrow> Inr (a\<lparr>targets := hm_insert key (st\<lparr>last_seen := now\<rparr>) (targets a)\<rparr>)
      | None \<Rightarrow>
          if length (targets a) \<ge> MAX_UDP_TARGETS_PER_ASSOCIATION then Inl CntUdpTargetLimitDropped
          else Inr (a\<lparr>targets := hm_insert key
                 \<lparr>pinned_source = (case fst key of Ip ip \<Rightarrow> Some ip | Domain _ \<Rightarrow> None), last_seen = now\<rparr> (targets a)\<rparr>))"

definition accept_datagram ::
    "Association \<Rightarrow> SocketAddr \<Rightarrow> bytes \<Rightarrow> bool \<Rightarrow> nat \<Rightarrow> Association \<times> UdpDatagram option" where
  "accept_datagram a source datagram truncated now =
     (let a = reap_targets a now in
      if \<not> source_allowed a (sa_ip source) then (count_in a CntUdpSourceMismatchDropped, None)
      else case lock_client a source of
        Inl a \<Rightarrow> (a, None)
      | Inr a \<Rightarrow>
          (case check_header a datagram truncated of
             Inl c \<Rightarrow> (count_in a c, None)
           | Inr (header, pl) \<Rightarrow>
               (case register_target a (uh_target header, uh_port header) now of
                  Inl c \<Rightarrow> (count_in a c, None)
                | Inr a \<Rightarrow>
                    let a = a\<lparr>last_activity := now, next_datagram_id := (next_datagram_id a + 1) mod 2 ^ 64\<rparr> in
                    (a, Some \<lparr>ud_association_id = association_id a, ud_datagram_id = next_datagram_id a,
                          ud_target = uh_target header, ud_port = uh_port header, ud_payload = pl,
                          ud_received_at = now, ud_deadline = now + queue_ttl a\<rparr>))))"

text \<open>The eviction loop of \<open>enqueue\<close>, over the queue.\<close>

fun evict :: "nat \<Rightarrow> UdpDatagram list \<Rightarrow> nat \<Rightarrow> Counters \<Rightarrow> UdpDatagram list \<times> nat \<times> Counters" where
  "evict len [] bytes cs = ([], bytes, cs)"
| "evict len (d # q) bytes cs =
     (if length (d # q) \<ge> MAX_QUEUED_DATAGRAMS_PER_ASSOCIATION \<or> bytes + len > MAX_QUEUED_DATAGRAM_BYTES
      then evict len q (bytes - length (ud_payload d)) (counters_inc cs CntUdpQueueOverflowDropped)
      else (d # q, bytes, cs))"

definition enqueue :: "Association \<Rightarrow> UdpDatagram \<Rightarrow> Association" where
  "enqueue a d =
     (if length (ud_payload d) > MAX_QUEUED_DATAGRAM_BYTES then count_in a CntUdpQueueOverflowDropped
      else let (q, bytes, cs) = evict (length (ud_payload d)) (udp_queue a) (queued_bytes a) (as_counters a) in
        a\<lparr>udp_queue := q @ [d], queued_bytes := bytes + length (ud_payload d), as_counters := cs\<rparr>)"

fun pop_loop :: "UdpDatagram list \<Rightarrow> nat \<Rightarrow> Counters \<Rightarrow> nat \<Rightarrow> UdpDatagram list \<times> nat \<times> Counters \<times> UdpDatagram option" where
  "pop_loop [] bytes cs now = ([], bytes, cs, None)"
| "pop_loop (d # q) bytes cs now =
     (if is_expired d now then pop_loop q (bytes - length (ud_payload d)) (counters_inc cs CntUdpTtlExpiredDropped) now
      else (q, bytes - length (ud_payload d), cs, Some d))"

definition pop_ready :: "Association \<Rightarrow> nat \<Rightarrow> Association \<times> UdpDatagram option" where
  "pop_ready a now =
     (let (q, bytes, cs, d) = pop_loop (udp_queue a) (queued_bytes a) (as_counters a) now
      in (a\<lparr>udp_queue := q, queued_bytes := bytes, as_counters := cs\<rparr>, d))"

definition on_reply :: "Association \<Rightarrow> UdpReply \<Rightarrow> nat \<Rightarrow> Association \<times> SocketAddr option" where
  "on_reply a r now =
     (case client a of
        None \<Rightarrow> (count_in a CntUdpUnmappedReplyDropped, None)
      | Some c \<Rightarrow>
          (case map_of (targets a) (ur_target r, ur_port r) of
             None \<Rightarrow> (count_in a CntUdpUnmappedReplyDropped, None)
           | Some st \<Rightarrow>
               (case pinned_source st of
                  Some pinned \<Rightarrow>
                    if pinned \<noteq> sa_ip (ur_source r) then (count_in a CntUdpUnexpectedSourceDropped, None)
                    else (a\<lparr>targets := hm_insert (ur_target r, ur_port r) (st\<lparr>last_seen := now\<rparr>) (targets a),
                            last_activity := now\<rparr>, Some c)
                | None \<Rightarrow>
                    (a\<lparr>targets := hm_insert (ur_target r, ur_port r)
                          (st\<lparr>pinned_source := Some (sa_ip (ur_source r)), last_seen := now\<rparr>) (targets a),
                       last_activity := now\<rparr>, Some c))))"

definition is_idle :: "Association \<Rightarrow> nat \<Rightarrow> bool" where
  "is_idle a now \<longleftrightarrow> now - last_activity a \<ge> idle a"

definition next_deadline :: "Association \<Rightarrow> nat" where
  "next_deadline a =
     (let idle_deadline = last_activity a + idle a in
      case udp_queue a of
        front # _ \<Rightarrow> if ud_deadline front < idle_deadline then ud_deadline front else idle_deadline
      | [] \<Rightarrow> idle_deadline)"

section \<open>The control handle\<close>

text \<open>\<open>recv\<close> and \<open>try_recv\<close>: the next datagram of the channel that has not expired.\<close>

fun control_recv :: "UdpDatagram list \<Rightarrow> Counters \<Rightarrow> nat \<Rightarrow> UdpDatagram list \<times> Counters \<times> UdpDatagram option" where
  "control_recv [] cs now = ([], cs, None)"
| "control_recv (d # q) cs now =
     (if is_expired d now then control_recv q (counters_inc cs CntUdpTtlExpiredDropped) now else (q, cs, Some d))"

section \<open>Socket\<close>

definition bind_udp :: "(SocketAddr \<Rightarrow> SocketAddr option) \<Rightarrow> SocksConfig \<Rightarrow> SocketAddr \<Rightarrow> SocketAddr option" where
  "bind_udp bind cfg local =
     (case udp_advertise cfg of
        Some advertise \<Rightarrow>
          (case bind advertise of
             Some sock \<Rightarrow> Some sock
           | None \<Rightarrow> bind \<lparr>sa_ip = sa_ip advertise, sa_port = 0\<rparr>)
      | None \<Rightarrow>
          (case bind \<lparr>sa_ip = sa_ip local, sa_port = 0\<rparr> of
             Some sock \<Rightarrow> Some sock
           | None \<Rightarrow> bind \<lparr>sa_ip = wildcard_for local, sa_port = 0\<rparr>))"

definition advertised_address :: "SocksConfig \<Rightarrow> SocketAddr \<Rightarrow> SocketAddr \<Rightarrow> SocketAddr" where
  "advertised_address cfg bound local =
     (case (udp_advertise cfg, is_unspecified (sa_ip bound)) of
        (Some advertise, _) \<Rightarrow> \<lparr>sa_ip = sa_ip advertise, sa_port = sa_port bound\<rparr>
      | (None, True) \<Rightarrow> \<lparr>sa_ip = sa_ip local, sa_port = sa_port bound\<rparr>
      | (None, False) \<Rightarrow> bound)"

section \<open>The association loop\<close>

datatype send_result = Sent | Full | Closed

record UdpRun =
  core :: Association
  channel :: "UdpDatagram list"          \<comment> \<open>handed over and not yet received by the handler\<close>
  channel_open :: bool
  to_client :: "(bytes \<times> SocketAddr) list"
  finished :: bool                       \<comment> \<open>the handler has finished\<close>
  ended :: bool

definition try_send :: "UdpRun \<Rightarrow> UdpDatagram \<Rightarrow> UdpRun \<times> send_result" where
  "try_send st d =
     (if \<not> channel_open st then (st, Closed)
      else if length (channel st) \<ge> MAX_QUEUED_DATAGRAMS_PER_ASSOCIATION then (st, Full)
      else (st\<lparr>channel := channel st @ [d]\<rparr>, Sent))"

text \<open>What the loop does with a datagram: hand it over and count it, queue it, or notice the handler is gone.\<close>

definition hand_over :: "UdpRun \<Rightarrow> UdpDatagram \<Rightarrow> UdpRun \<times> send_result" where
  "hand_over st d =
     (case try_send st d of
        (st, Sent) \<Rightarrow> (st\<lparr>core := count_in (core st) CntUdpRelayed\<rparr>, Sent)
      | (st, Full) \<Rightarrow> (st\<lparr>core := enqueue (core st) d\<rparr>, Full)
      | (st, Closed) \<Rightarrow> (st\<lparr>finished := True\<rparr>, Closed))"

lemma pop_loop_shorter: "pop_loop q bytes cs now = (q', bytes', cs', Some d) \<Longrightarrow> length q' < length q"
  by (induction q arbitrary: bytes cs) (auto split: if_splits dest: less_SucI)

lemma pop_ready_shorter: "pop_ready a now = (a', Some d) \<Longrightarrow> length (udp_queue a') < length (udp_queue a)"
  by (auto simp: pop_ready_def Let_def split: prod.splits dest: pop_loop_shorter)

lemma hand_over_queue: "hand_over st d = (st', Sent) \<Longrightarrow> udp_queue (core st') = udp_queue (core st)"
  by (auto simp: hand_over_def try_send_def count_in_def split: prod.splits send_result.splits if_splits)

function flush :: "UdpRun \<Rightarrow> nat \<Rightarrow> UdpRun" where
  "flush st now =
     (case pop_ready (core st) now of
        (a, None) \<Rightarrow> st\<lparr>core := a\<rparr>
      | (a, Some d) \<Rightarrow>
          (case hand_over (st\<lparr>core := a\<rparr>) d of
             (st, Sent) \<Rightarrow> flush st now
           | (st, _) \<Rightarrow> st))"
  by pat_completeness auto
termination
  by (relation "measure (\<lambda>(st, now). length (udp_queue (core st)))")
    (auto dest!: pop_ready_shorter [OF sym] hand_over_queue [OF sym])

declare flush.simps [simp del]

datatype udp_event =
    HandlerDone
  | Control bool                       \<comment> \<open>whether the read reported the end of the stream or an error\<close>
  | Reply "UdpReply option" bool       \<comment> \<open>a reply or the closed channel; whether \<open>send_to\<close> succeeds\<close>
  | Received "(bytes \<times> SocketAddr) option"
  | Timer
  | HandlerReads                       \<comment> \<open>the handler takes a datagram from the channel\<close>
  | HandlerDrops                       \<comment> \<open>the handler drops its receiver\<close>

definition read_buffer_len :: "Association \<Rightarrow> nat" where
  "read_buffer_len a = as_max_payload a + UDP_HEADER_MAX + 1"

definition on_event :: "UdpRun \<Rightarrow> nat \<Rightarrow> udp_event \<Rightarrow> UdpRun" where
  "on_event st now ev =
     (case ev of
        HandlerDone \<Rightarrow> st\<lparr>finished := True, ended := True\<rparr>
      | Control gone \<Rightarrow> if gone then st\<lparr>ended := True\<rparr> else st
      | Reply None _ \<Rightarrow> st\<lparr>finished := True, ended := True\<rparr>
      | Reply (Some r) send_ok \<Rightarrow>
          (case on_reply (core st) r now of
             (a, None) \<Rightarrow> st\<lparr>core := a\<rparr>
           | (a, Some c) \<Rightarrow>
               if length (ur_payload r) > as_max_payload a then st\<lparr>core := count_in a CntUdpOversizedDropped\<rparr>
               else (case encode_udp_reply (ur_source r) (ur_payload r) of
                       Inl _ \<Rightarrow> st\<lparr>core := a\<rparr>
                     | Inr wire \<Rightarrow>
                         if send_ok then st\<lparr>core := count_in a CntUdpRepliesSent, to_client := to_client st @ [(wire, c)]\<rparr>
                         else st\<lparr>core := count_in a CntUdpSendFailed\<rparr>))
      | Received None \<Rightarrow> st\<lparr>ended := True\<rparr>
      | Received (Some (datagram, source)) \<Rightarrow>
          (let buf = take (read_buffer_len (core st)) datagram in
           case accept_datagram (core st) source buf (length buf = read_buffer_len (core st)) now of
             (a, None) \<Rightarrow> st\<lparr>core := a\<rparr>
           | (a, Some d) \<Rightarrow>
               (case hand_over (st\<lparr>core := a\<rparr>) d of
                  (st, Closed) \<Rightarrow> st\<lparr>ended := True\<rparr>
                | (st, _) \<Rightarrow> st))
      | Timer \<Rightarrow> st
      | HandlerReads \<Rightarrow> st\<lparr>channel := tl (channel st)\<rparr>
      | HandlerDrops \<Rightarrow> st\<lparr>channel_open := False\<rparr>)"

text \<open>One turn of the loop: flush the queue, stop when the handler is gone or the association idle, else
  take the event.\<close>

definition udp_turn :: "UdpRun \<Rightarrow> nat \<times> udp_event \<Rightarrow> UdpRun" where
  "udp_turn st = (\<lambda>(now, ev).
     if ended st then st
     else let st = flush st now in
       if finished st \<or> is_idle (core st) now then st\<lparr>ended := True\<rparr> else on_event st now ev)"

definition udp_start :: "SocksConfig \<Rightarrow> Counters \<Rightarrow> nat \<Rightarrow> IpAddr \<Rightarrow> nat \<Rightarrow> UdpRun" where
  "udp_start cfg cs aid ip now =
     \<lparr>core = association_new cfg (counters_inc cs CntUdpAssociateStarted) aid ip now, channel = [], channel_open = True,
      to_client = [], finished = False, ended = False\<rparr>"

definition udp_run :: "UdpRun \<Rightarrow> (nat \<times> udp_event) list \<Rightarrow> UdpRun" where
  "udp_run st evs = foldl udp_turn st evs"

section \<open>Relations kept by the association's operations\<close>

text \<open>What a claim about an association has to show: a reflexive and transitive relation that the five
  operations on the association keep. It then holds between the ends of every run of the loop.\<close>

locale association_frame =
  fixes rel :: "Association \<Rightarrow> Association \<Rightarrow> bool"
  assumes rel_refl: "rel a a"
    and rel_trans: "rel a b \<Longrightarrow> rel b c \<Longrightarrow> rel a c"
    and rel_count: "rel a (count_in a cn)"
    and rel_accept: "rel a (fst (accept_datagram a source datagram trunc now))"
    and rel_enqueue: "rel a (enqueue a d)"
    and rel_pop: "rel a (fst (pop_ready a now))"
    and rel_reply: "rel a (fst (on_reply a r now))"
begin

lemma rel_hand_over: "rel (core st) (core (fst (hand_over st d)))"
  by (auto simp: hand_over_def try_send_def rel_refl rel_count rel_enqueue split: prod.splits send_result.splits if_splits)

lemma rel_flush: "rel (core st) (core (flush st now))"
proof (induction st now rule: flush.induct)
  case (1 st now)
  obtain a dopt where p: "pop_ready (core st) now = (a, dopt)" by fastforce
  have a: "rel (core st) a" using rel_pop [of "core st" now] p by simp
  show ?case
  proof (cases dopt)
    case None
    with a p show ?thesis by (subst flush.simps) simp
  next
    case (Some d)
    obtain st' r where h: "hand_over (st\<lparr>core := a\<rparr>) d = (st', r)" by fastforce
    have b: "rel a (core st')" using rel_hand_over [of "st\<lparr>core := a\<rparr>" d] h by simp
    have "rel (core st') (core (flush st' now))" if "r = Sent"
      using 1 [OF p [symmetric] Some h [symmetric] that] .
    with h a b p Some show ?thesis by (subst flush.simps) (cases r; auto intro: rel_trans)
  qed
qed

lemma rel_event: "rel (core st) (core (on_event st now ev))"
proof (cases ev)
  case (Reply ro ok)
  show ?thesis
  proof (cases ro)
    case None
    with Reply show ?thesis by (simp add: on_event_def rel_refl)
  next
    case (Some r)
    obtain a co where "on_reply (core st) r now = (a, co)" by fastforce
    moreover from this have "rel (core st) a" using rel_reply [of "core st" r now] by simp
    ultimately show ?thesis using Reply Some rel_trans [OF _ rel_count, of "core st" a]
      by (auto simp: on_event_def split: option.splits sum.splits)
  qed
next
  case (Received ro)
  show ?thesis
  proof (cases ro)
    case None
    with Received show ?thesis by (simp add: on_event_def rel_refl)
  next
    case (Some ds)
    obtain datagram source where ds: "ds = (datagram, source)" by fastforce
    let ?buf = "take (read_buffer_len (core st)) datagram"
    obtain a dopt where acc: "accept_datagram (core st) source ?buf (length ?buf = read_buffer_len (core st)) now = (a, dopt)"
      by fastforce
    then have "rel (core st) a"
      using rel_accept [of "core st" source ?buf "length ?buf = read_buffer_len (core st)" now] by simp
    moreover have "rel a (core st')" if "hand_over (st\<lparr>core := a\<rparr>) d = (st', sr)" for d st' sr
      using rel_hand_over [of "st\<lparr>core := a\<rparr>" d] that by simp
    ultimately show ?thesis using Received Some ds acc
      by (auto simp: on_event_def Let_def split: option.splits prod.splits send_result.splits intro: rel_trans)
  qed
qed (auto simp: on_event_def rel_refl)

lemma rel_turn: "rel (core st) (core (udp_turn st te))"
  by (cases te) (auto simp: udp_turn_def Let_def rel_refl intro: rel_flush rel_trans [OF rel_flush rel_event])

lemma rel_run: "rel (core st) (core (udp_run st evs))"
  unfolding udp_run_def by (induction evs arbitrary: st) (auto simp: rel_refl intro: rel_trans [OF rel_turn])

end

section \<open>Bounds and pins\<close>

definition queue_bytes :: "UdpDatagram list \<Rightarrow> nat" where
  "queue_bytes q = sum_list (map (\<lambda>d. length (ud_payload d)) q)"

definition pins_ok :: "((SocksTarget \<times> nat) \<times> TargetState) list \<Rightarrow> bool" where
  "pins_ok m \<longleftrightarrow> (\<forall>ip p st. map_of m (Ip ip, p) = Some st \<longrightarrow> pinned_source st = Some ip)"

definition assoc_inv :: "Association \<Rightarrow> bool" where
  "assoc_inv a \<longleftrightarrow>
     hm_inv (targets a) \<and> length (targets a) \<le> MAX_UDP_TARGETS_PER_ASSOCIATION \<and> pins_ok (targets a)
   \<and> length (udp_queue a) \<le> MAX_QUEUED_DATAGRAMS_PER_ASSOCIATION
   \<and> queued_bytes a = queue_bytes (udp_queue a) \<and> queued_bytes a \<le> MAX_QUEUED_DATAGRAM_BYTES"

lemma queue_bytes_simps [simp]: "queue_bytes [] = 0" "queue_bytes (d # q) = length (ud_payload d) + queue_bytes q"
  "queue_bytes (q @ q') = queue_bytes q + queue_bytes q'"
  by (simp_all add: queue_bytes_def)

lemma evict_ok:
  "evict len q bytes cs = (q', bytes', cs') \<Longrightarrow> bytes = queue_bytes q \<Longrightarrow> bytes \<le> MAX_QUEUED_DATAGRAM_BYTES \<Longrightarrow>
   len \<le> MAX_QUEUED_DATAGRAM_BYTES \<Longrightarrow>
   bytes' = queue_bytes q' \<and> bytes' + len \<le> MAX_QUEUED_DATAGRAM_BYTES \<and> length q' < MAX_QUEUED_DATAGRAMS_PER_ASSOCIATION"
proof (induction len q bytes cs rule: evict.induct)
  case (1 len bytes cs)
  then show ?case by (simp add: limit_defs)
next
  case (2 len d q bytes cs)
  show ?case
  proof (cases "length (d # q) \<ge> MAX_QUEUED_DATAGRAMS_PER_ASSOCIATION \<or> bytes + len > MAX_QUEUED_DATAGRAM_BYTES")
    case True
    with "2.prems" show ?thesis by (intro "2.IH") auto
  next
    case False
    with "2.prems" show ?thesis by auto
  qed
qed

lemma pop_loop_ok:
  "pop_loop q bytes cs now = (q', bytes', cs', d) \<Longrightarrow> bytes = queue_bytes q \<Longrightarrow>
   bytes' = queue_bytes q' \<and> bytes' \<le> bytes \<and> length q' \<le> length q"
  by (induction q bytes cs now rule: pop_loop.induct) (fastforce split: if_splits)+

lemma pins_ok_insert:
  "pins_ok m \<Longrightarrow> (\<And>ip. fst key = Ip ip \<Longrightarrow> pinned_source st = Some ip) \<Longrightarrow> pins_ok (hm_insert key st m)"
  by (auto simp: pins_ok_def update_conv' split: if_splits)

lemma enqueue_inv: "assoc_inv a \<Longrightarrow> assoc_inv (enqueue a d)"
  using evict_ok [of "length (ud_payload d)" "udp_queue a" "queued_bytes a" "as_counters a"]
  by (auto simp: assoc_inv_def enqueue_def count_in_def Let_def split: prod.splits)

lemma pop_inv: "assoc_inv a \<Longrightarrow> assoc_inv (fst (pop_ready a now))"
  using pop_loop_ok [of "udp_queue a" "queued_bytes a" "as_counters a" now]
  by (fastforce simp: assoc_inv_def pop_ready_def Let_def split: prod.splits)

lemma reply_inv:
  assumes "assoc_inv a"
  shows "assoc_inv (fst (on_reply a r now))"
proof -
  let ?k = "(ur_target r, ur_port r)"
  from assms have m: "hm_inv (targets a)" "length (targets a) \<le> MAX_UDP_TARGETS_PER_ASSOCIATION" "pins_ok (targets a)"
    by (simp_all add: assoc_inv_def)
  have "hm_inv (hm_insert ?k st' (targets a)) \<and> length (hm_insert ?k st' (targets a)) \<le> MAX_UDP_TARGETS_PER_ASSOCIATION
      \<and> pins_ok (hm_insert ?k st' (targets a))"
    if "map_of (targets a) ?k = Some st" "\<And>ip. ur_target r = Ip ip \<Longrightarrow> pinned_source st' = Some ip" for st st'
    using m that hm.inv_insert [of "targets a" ?k st'] hm.len_insert_present [of "targets a" ?k st'] pins_ok_insert [of "targets a" ?k st']
    by auto
  moreover have "pinned_source st = Some ip" if "map_of (targets a) ?k = Some st" "ur_target r = Ip ip" for st ip
    using m(3) that by (auto simp: pins_ok_def)
  ultimately show ?thesis using assms
    by (fastforce simp: on_reply_def assoc_inv_def count_in_def split: option.splits)
qed

lemma reap_inv: "assoc_inv a \<Longrightarrow> assoc_inv (reap_targets a now)"
proof -
  assume a: "assoc_inv a"
  let ?m = "filter (\<lambda>(k, st). now - last_seen st < idle a) (targets a)"
  have "hm_inv (targets a)" "pins_ok (targets a)" using a by (simp_all add: assoc_inv_def)
  then have "pins_ok ?m" "hm_inv ?m"
    by (auto simp: pins_ok_def hm.get_filter [of "targets a" "\<lambda>k st. now - last_seen st < idle a"] hm_inv_def
        distinct_map_filter split: option.splits if_splits)
  moreover have "length ?m \<le> MAX_UDP_TARGETS_PER_ASSOCIATION"
    using a by (auto simp: assoc_inv_def intro: le_trans [OF length_filter_le])
  ultimately show ?thesis using a by (auto simp: assoc_inv_def reap_targets_def)
qed

lemma register_target_inv: "assoc_inv a \<Longrightarrow> register_target a key now = Inr b \<Longrightarrow> assoc_inv b"
proof (cases "map_of (targets a) key")
  case None
  assume a: "assoc_inv a" and r: "register_target a key now = Inr b"
  let ?st = "\<lparr>pinned_source = (case fst key of Ip ip \<Rightarrow> Some ip | Domain _ \<Rightarrow> None), last_seen = now\<rparr>"
  from None r have b: "b = a\<lparr>targets := hm_insert key ?st (targets a)\<rparr>" "length (targets a) < MAX_UDP_TARGETS_PER_ASSOCIATION"
    by (auto simp: register_target_def split: if_splits)
  have m: "hm_inv (targets a)" "pins_ok (targets a)" using a by (simp_all add: assoc_inv_def)
  have "length (hm_insert key ?st (targets a)) = Suc (length (targets a))" using hm.len_insert_fresh [OF m(1) None] .
  moreover have "pins_ok (hm_insert key ?st (targets a))" by (rule pins_ok_insert [OF m(2)]) simp
  ultimately show ?thesis using a b hm.inv_insert [OF m(1)] by (simp add: assoc_inv_def)
next
  case (Some st)
  assume a: "assoc_inv a" and r: "register_target a key now = Inr b"
  let ?st = "st\<lparr>last_seen := now\<rparr>"
  from Some r have b: "b = a\<lparr>targets := hm_insert key ?st (targets a)\<rparr>" by (simp add: register_target_def)
  have m: "hm_inv (targets a)" "pins_ok (targets a)" using a by (simp_all add: assoc_inv_def)
  have "pins_ok (hm_insert key ?st (targets a))"
    using m(2) Some by (intro pins_ok_insert [OF m(2)]) (cases key, auto simp: pins_ok_def)
  moreover have "length (hm_insert key ?st (targets a)) = length (targets a)"
    using hm.len_insert_present [OF m(1)] Some by simp
  ultimately show ?thesis using a b hm.inv_insert [OF m(1)] by (simp add: assoc_inv_def)
qed

lemma assoc_inv_frame:
  "assoc_inv (count_in a cn) = assoc_inv a" "assoc_inv (a\<lparr>client := c\<rparr>) = assoc_inv a"
  "assoc_inv (a\<lparr>last_activity := t, next_datagram_id := n\<rparr>) = assoc_inv a"
  by (simp_all add: assoc_inv_def count_in_def)

lemma lock_inv: "assoc_inv a \<Longrightarrow> case lock_client a source of Inl b \<Rightarrow> assoc_inv b | Inr b \<Rightarrow> assoc_inv b"
  by (auto simp: lock_client_def assoc_inv_frame split: option.splits)

lemma accept_inv: "assoc_inv a \<Longrightarrow> assoc_inv (fst (accept_datagram a source datagram trunc now))"
  using reap_inv [of a now] lock_inv [of "reap_targets a now" source]
  by (auto simp: accept_datagram_def Let_def assoc_inv_frame split: sum.splits prod.splits dest: register_target_inv)

interpretation ai: association_frame "\<lambda>a b. assoc_inv a \<longrightarrow> assoc_inv b"
  by unfold_locales (auto simp: assoc_inv_frame intro: accept_inv enqueue_inv pop_inv reply_inv)

section \<open>The locked client\<close>

text \<open>The first admitted source is the client for good; it was an allowed source when it was locked.\<close>

definition keeps_lock :: "Association \<Rightarrow> Association \<Rightarrow> bool" where
  "keeps_lock a b \<longleftrightarrow> peer_ip b = peer_ip a \<and> allowlist b = allowlist a
     \<and> (\<forall>c. client a = Some c \<longrightarrow> client b = Some c)
     \<and> (\<forall>c. client b = Some c \<longrightarrow> client a = Some c \<or> source_allowed a (sa_ip c))"

lemma source_allowed_cong: "peer_ip b = peer_ip a \<Longrightarrow> allowlist b = allowlist a \<Longrightarrow> source_allowed b = source_allowed a"
  by (simp add: source_allowed_def fun_eq_iff)

lemma keeps_lock_trans: "keeps_lock a b \<Longrightarrow> keeps_lock b c \<Longrightarrow> keeps_lock a c"
  using source_allowed_cong [of b a] unfolding keeps_lock_def by metis

lemma keeps_lock_same:
  "peer_ip b = peer_ip a \<Longrightarrow> allowlist b = allowlist a \<Longrightarrow> client b = client a \<Longrightarrow> keeps_lock a b"
  by (simp add: keeps_lock_def)

lemma register_frame:
  "register_target a key now = Inr b \<Longrightarrow> peer_ip b = peer_ip a \<and> allowlist b = allowlist a \<and> client b = client a"
  by (auto simp: register_target_def split: option.splits if_splits)

lemma lock_keeps:
  "source_allowed a (sa_ip source) \<Longrightarrow> case lock_client a source of Inl b \<Rightarrow> keeps_lock a b | Inr b \<Rightarrow> keeps_lock a b"
  by (auto simp: lock_client_def keeps_lock_def count_in_def split: option.splits)

lemma accept_keeps_lock: "keeps_lock a (fst (accept_datagram a source datagram trunc now))"
proof -
  let ?a = "reap_targets a now"
  have r: "keeps_lock a ?a" by (rule keeps_lock_same) (simp_all add: reap_targets_def)
  show ?thesis
  proof (cases "source_allowed ?a (sa_ip source)")
    case False
    then show ?thesis using keeps_lock_same [of "count_in ?a CntUdpSourceMismatchDropped" a]
      by (simp add: accept_datagram_def Let_def count_in_def reap_targets_def)
  next
    case True
    note l = lock_keeps [OF True]
    show ?thesis
    proof (cases "lock_client ?a source")
      case (Inl b)
      with l r True show ?thesis by (auto simp: accept_datagram_def Let_def intro: keeps_lock_trans)
    next
      case (Inr b)
      with l have ab: "keeps_lock a b" using keeps_lock_trans [OF r] by simp
      have same: "keeps_lock a b'" if "peer_ip b' = peer_ip b" "allowlist b' = allowlist b" "client b' = client b" for b'
        using keeps_lock_trans [OF ab keeps_lock_same [OF that]] .
      show ?thesis using True Inr
        by (auto simp: accept_datagram_def Let_def count_in_def split: sum.splits prod.splits intro!: same dest: register_frame)
    qed
  qed
qed

interpretation al: association_frame keeps_lock
proof (unfold_locales, goal_cases)
  case (2 a b c)
  then show ?case by (rule keeps_lock_trans)
next
  case (4 a source datagram trunc now)
  show ?case by (rule accept_keeps_lock)
qed (auto intro!: keeps_lock_same simp: count_in_def enqueue_def pop_ready_def on_reply_def Let_def split: prod.splits option.splits)

text \<open>Everything sent goes to the locked client.\<close>

definition sends_locked :: "UdpRun \<Rightarrow> bool" where
  "sends_locked st \<longleftrightarrow> (\<forall>(w, c) \<in> set (to_client st). client (core st) = Some c)"

lemma sends_locked_mono: "sends_locked st \<Longrightarrow> to_client st' = to_client st \<Longrightarrow> keeps_lock (core st) (core st') \<Longrightarrow> sends_locked st'"
  by (auto simp: sends_locked_def keeps_lock_def)

lemma to_client_hand_over: "to_client (fst (hand_over st d)) = to_client st"
  by (auto simp: hand_over_def try_send_def split: send_result.splits prod.splits if_splits)

lemma to_client_flush: "to_client (flush st now) = to_client st"
proof (induction st now rule: flush.induct)
  case (1 st now)
  have "to_client st' = to_client st" if "hand_over (st\<lparr>core := a\<rparr>) d = (st', r)" for a d st' r
    using to_client_hand_over [of "st\<lparr>core := a\<rparr>" d] that by simp
  with 1 show ?case by (subst flush.simps) (fastforce split: prod.splits option.splits send_result.splits)
qed

lemma on_reply_client: "on_reply a r now = (b, Some c) \<Longrightarrow> client a = Some c"
  by (auto simp: on_reply_def split: option.splits if_splits)

lemma event_sends:
  "to_client (on_event st now ev) = to_client st
   \<or> (\<exists>w c. to_client (on_event st now ev) = to_client st @ [(w, c)] \<and> client (core st) = Some c)"
proof (cases "\<exists>d. ev = Received (Some d)")
  case True
  then obtain g src where ev: "ev = Received (Some (g, src))" by auto
  have "to_client st' = to_client st" if "hand_over (st\<lparr>core := a\<rparr>) d = (st', r)" for a d st' r
    using to_client_hand_over [of "st\<lparr>core := a\<rparr>" d] that by simp
  then show ?thesis using ev
    by (auto simp: on_event_def Let_def split: prod.splits option.splits send_result.splits)
next
  case False
  then show ?thesis
    by (auto simp: on_event_def split: udp_event.splits prod.splits option.splits sum.splits dest: on_reply_client)
qed

lemma turn_sends_locked: "sends_locked st \<Longrightarrow> sends_locked (udp_turn st te)"
proof -
  assume s: "sends_locked st"
  obtain now ev where te: "te = (now, ev)" by fastforce
  have f: "sends_locked (flush st now)" by (rule sends_locked_mono [OF s to_client_flush al.rel_flush])
  then have "sends_locked (on_event (flush st now) now ev)"
    using event_sends [of "flush st now" now ev] al.rel_event [of "flush st now" now ev]
    by (fastforce simp: sends_locked_def keeps_lock_def)
  with s f show ?thesis by (auto simp: udp_turn_def te Let_def sends_locked_def)
qed

lemma run_sends_locked: "sends_locked st \<Longrightarrow> sends_locked (udp_run st evs)"
  unfolding udp_run_def by (induction evs arbitrary: st) (auto intro: turn_sends_locked)

text \<open>A client asks for a datagram to a name server and the answer comes back.\<close>

definition sample_client :: SocketAddr where "sample_client = \<lparr>sa_ip = V4 [127, 0, 0, 1], sa_port = 5000\<rparr>"
definition sample_server_addr :: SocketAddr where "sample_server_addr = \<lparr>sa_ip = V4 [192, 0, 2, 53], sa_port = 53\<rparr>"

definition sample_turns :: "(nat \<times> udp_event) list" where
  "sample_turns =
     [(1, Received (Some ([0, 0, 0, 1, 192, 0, 2, 53, 0, 53, 7], sample_client))),
      (2, Reply (Some \<lparr>ur_target = Ip (V4 [192, 0, 2, 53]), ur_port = 53, ur_source = sample_server_addr, ur_payload = [8]\<rparr>) True)]"

lemma sample_run:
  "\<exists>w c. to_client (udp_run (udp_start socks_config_default counters_new 1 (V4 [127, 0, 0, 1]) 0) sample_turns) = [(w, c)]"
proof -
  have flush_empty: "flush st now = st" if "udp_queue (core st) = []" "queued_bytes (core st) = 0" for st now
    using that by (subst flush.simps) (simp add: pop_ready_def Let_def)
  have hd: "udp_header_parse [0, 0, 0, 1, 192, 0, 2, 53, 0, 53, 7]
      = Inr (\<lparr>uh_frag = 0, uh_target = Ip (V4 [192, 0, 2, 53]), uh_port = 53\<rparr>, 10)"
    by (simp add: udp_header_parse_def ATYP_IPV4_def v4_from_def of_be_bytes_Cons Let_def)
  show ?thesis
    by (simp add: udp_run_def sample_turns_def udp_turn_def udp_start_def association_new_def flush_empty is_idle_def
        socks_config_default_def from_secs_def from_millis_def on_event_def limit_defs read_buffer_len_def UDP_HEADER_MAX_def
        accept_datagram_def reap_targets_def source_allowed_def lock_client_def check_header_def hd register_target_def
        hand_over_def try_send_def count_in_def on_reply_def sample_client_def sample_server_addr_def encode_udp_reply_def
        encode_udp_datagram_def Let_def)
qed

section \<open>Properties\<close>

text \<open>C35: A UDP association is not an open relay: in every run of the loop, whatever datagrams arrive from
  whatever sources, everything sent back goes to one single endpoint, and that endpoint's address is the
  controlling connection's peer or inside the source allowlist.\<close>

theorem udp_replies_only_to_one_allowed_client:
  assumes "st = udp_run (udp_start cfg cs aid ip now) evs" "(w, c) \<in> set (to_client st)" "(w', c') \<in> set (to_client st)"
  shows "c' = c \<and> (sa_ip c = ip \<or> list_ex (\<lambda>p. prefix_contains p (sa_ip c)) (source_allowlist cfg))"
proof -
  have "sends_locked (udp_start cfg cs aid ip now)" by (simp add: sends_locked_def udp_start_def)
  from run_sends_locked [OF this, of evs] assms have cl: "client (core st) = Some c" "client (core st) = Some c'"
    by (auto simp: sends_locked_def)
  have "keeps_lock (core (udp_start cfg cs aid ip now)) (core st)" unfolding assms(1) by (rule al.rel_run)
  with cl show ?thesis
    by (auto simp: keeps_lock_def udp_start_def association_new_def source_allowed_def)
qed

theorem udp_replies_only_to_one_allowed_client_witness:
  "\<exists>w c. to_client (udp_run (udp_start socks_config_default counters_new 1 (V4 [127, 0, 0, 1]) 0) sample_turns) = [(w, c)]
     \<and> sa_ip c = V4 [127, 0, 0, 1]"
proof -
  let ?st = "udp_run (udp_start socks_config_default counters_new 1 (V4 [127, 0, 0, 1]) 0) sample_turns"
  obtain w c where wc: "to_client ?st = [(w, c)]" using sample_run by blast
  then have m: "(w, c) \<in> set (to_client ?st)" by simp
  from udp_replies_only_to_one_allowed_client [OF refl m m] wc show ?thesis
    by (auto simp: socks_config_default_def)
qed

text \<open>The association's budgets hold in every run: at most 64 mapped targets, at most 32 queued datagrams of
  at most 256 KiB in all with an exact byte count, and no reply for an address target is delivered unless the
  target is mapped and the reply comes from that very address.\<close>

theorem udp_association_bounded_and_pinned:
  assumes "a = core (udp_run (udp_start cfg cs aid ip now) evs)"
  shows "length (targets a) \<le> MAX_UDP_TARGETS_PER_ASSOCIATION
    \<and> length (udp_queue a) \<le> MAX_QUEUED_DATAGRAMS_PER_ASSOCIATION
    \<and> queued_bytes a = queue_bytes (udp_queue a) \<and> queued_bytes a \<le> MAX_QUEUED_DATAGRAM_BYTES
    \<and> (\<forall>r t b c. on_reply a r t = (b, Some c) \<longrightarrow>
         (ur_target r, ur_port r) \<in> fst ` set (targets a) \<and> (\<forall>ip. ur_target r = Ip ip \<longrightarrow> sa_ip (ur_source r) = ip))"
proof -
  have "assoc_inv (core (udp_start cfg cs aid ip now))"
    by (simp add: udp_start_def association_new_def assoc_inv_def hm_inv_def pins_ok_def)
  then have inv: "assoc_inv a" using ai.rel_run unfolding assms by blast
  have "(ur_target r, ur_port r) \<in> fst ` set (targets a) \<and> (\<forall>ip. ur_target r = Ip ip \<longrightarrow> sa_ip (ur_source r) = ip)"
    if "on_reply a r t = (b, Some c)" for r t b c
  proof -
    from that obtain st where st: "map_of (targets a) (ur_target r, ur_port r) = Some st"
      "\<forall>p. pinned_source st = Some p \<longrightarrow> p = sa_ip (ur_source r)"
      by (auto simp: on_reply_def split: option.splits if_splits)
    with inv show ?thesis
      by (force simp: assoc_inv_def pins_ok_def dest: map_of_SomeD)
  qed
  with inv show ?thesis by (simp add: assoc_inv_def)
qed

theorem udp_association_bounded_and_pinned_witness:
  "length (targets (core (udp_run (udp_start socks_config_default counters_new 1 (V4 [127, 0, 0, 1]) 0) sample_turns)))
     \<le> MAX_UDP_TARGETS_PER_ASSOCIATION"
  using udp_association_bounded_and_pinned [OF refl] by blast

end
