(* ===== verification/Transport.thy ===== *)
theory Transport
  imports Codec
begin

text \<open>
  \<open>crates/wsnet-transport\<close>: how each carrier frames sealed envelopes (WebSocket message, POST body, server-sent
  events, JSON and template profiles). The \<open>base64\<close> crate is a parameter with its laws: decoding inverts
  encoding, the encoding uses the standard alphabet, and only nothing encodes to nothing.
\<close>

section \<open>Errors and base64\<close>

datatype CarrierError =
    TooManyRecords nat nat             \<comment> \<open>actual, limit\<close>
  | BodyTooLarge nat nat
  | EnvelopeTooLarge nat nat
  | Truncated string
  | TrailingData nat
  | InvalidBase64 string
  | InvalidUtf8 string
  | SseEventTooLarge nat nat
  | IncompleteEvent
  | MalformedProfile string string     \<comment> \<open>profile, reason\<close>
  | UnsupportedProfileVersion string nat

record base64_crate =
  b64_enc :: "bytes \<Rightarrow> string"
  b64_dec :: "bytes \<Rightarrow> bytes option"

definition B64_ALPHABET :: string where
  "B64_ALPHABET = ''ABCDEFGHIJKLMNOPQRSTUVWXYZabcdefghijklmnopqrstuvwxyz0123456789+/=''"

definition b64_laws :: "base64_crate \<Rightarrow> bool" where
  "b64_laws b \<longleftrightarrow> (\<forall>x. b64_dec b (as_bytes (b64_enc b x)) = Some x \<and> set (b64_enc b x) \<subseteq> set B64_ALPHABET
     \<and> (b64_enc b x = [] \<longleftrightarrow> x = []))"

section \<open>WebSocket\<close>

definition check_envelope :: "bytes \<Rightarrow> CarrierError + unit" where
  "check_envelope env =
     (if length env > MAX_CARRIER_RECORD then Inl (EnvelopeTooLarge (length env) MAX_CARRIER_RECORD) else Inr ())"

definition ws_encode :: "bytes \<Rightarrow> CarrierError + bytes" where
  "ws_encode env = rbind (check_envelope env) (\<lambda>_. Inr env)"

definition ws_decode :: "bytes \<Rightarrow> CarrierError + bytes" where
  "ws_decode msg = rbind (check_envelope msg) (\<lambda>_. Inr msg)"

definition ws_decode_ref :: "bytes \<Rightarrow> CarrierError + bytes" where
  "ws_decode_ref msg = rbind (check_envelope msg) (\<lambda>_. Inr msg)"

section \<open>POST\<close>

fun post_total :: "nat \<Rightarrow> bytes list \<Rightarrow> CarrierError + nat" where
  "post_total tot [] = Inr tot"
| "post_total tot (env # es) =
     rbind (check_envelope env) (\<lambda>_. post_total (tot + (4 + length env)) es)"

definition post_encode :: "bytes list \<Rightarrow> CarrierError + bytes" where
  "post_encode es =
     (if length es > MAX_POST_BATCH_RECORDS then Inl (TooManyRecords (length es) MAX_POST_BATCH_RECORDS)
      else rbind (post_total 0 es) (\<lambda>tot.
        if tot > MAX_POST_BATCH_BYTES then Inl (BodyTooLarge tot MAX_POST_BATCH_BYTES)
        else Inr (concat (map (\<lambda>env. be_bytes 4 (length env) @ env) es))))"

text \<open>The cursor loop, over the bytes from the cursor on; \<open>n\<close> records have been read.\<close>

function post_loop :: "nat \<Rightarrow> bytes \<Rightarrow> CarrierError + bytes list" where
  "post_loop n body =
     (if body = [] then Inr []
      else if n \<ge> MAX_POST_BATCH_RECORDS then Inl (TooManyRecords (n + 1) MAX_POST_BATCH_RECORDS)
      else if length body < 4 then Inl (Truncated ''envelope_len'')
      else
        let len = of_be_bytes (take 4 body); rest = drop 4 body in
        if len > MAX_CARRIER_RECORD then Inl (EnvelopeTooLarge len MAX_CARRIER_RECORD)
        else if length rest < len then Inl (Truncated ''envelope'')
        else rbind (post_loop (n + 1) (drop len rest)) (\<lambda>es. Inr (take len rest # es)))"
  by pat_completeness auto
termination by (relation "measure (\<lambda>(n, body). length body)") auto

declare post_loop.simps [simp del]

definition post_decode :: "bytes \<Rightarrow> CarrierError + bytes list" where
  "post_decode body =
     (if length body > MAX_POST_BATCH_BYTES then Inl (BodyTooLarge (length body) MAX_POST_BATCH_BYTES)
      else post_loop 0 body)"

section \<open>Server-sent events\<close>

definition LF :: u8 where "LF = 0x0A"
definition CR :: u8 where "CR = 0x0D"
definition COLON :: u8 where "COLON = 0x3A"
definition SPACE :: u8 where "SPACE = 0x20"

fun sse_encode_loop :: "base64_crate \<Rightarrow> bytes \<Rightarrow> bytes list \<Rightarrow> CarrierError + bytes" where
  "sse_encode_loop b out [] = Inr out"
| "sse_encode_loop b out (env # es) =
     rbind (check_envelope env) (\<lambda>_.
       let encoded = b64_enc b env in
       if length encoded + 8 > MAX_SSE_EVENT then Inl (SseEventTooLarge (length encoded + 8) MAX_SSE_EVENT)
       else sse_encode_loop b (out @ as_bytes ''data: '' @ as_bytes encoded @ [LF, LF]) es)"

definition sse_encode :: "base64_crate \<Rightarrow> bytes list \<Rightarrow> CarrierError + bytes" where
  "sse_encode b es = sse_encode_loop b [] es"

record SseDecoder =
  sse_pending :: bytes
  sse_data :: string
  has_data :: bool

definition sse_new :: SseDecoder where
  "sse_new = \<lparr>sse_pending = [], sse_data = [], has_data = False\<rparr>"

definition sse_dispatch :: "base64_crate \<Rightarrow> SseDecoder \<Rightarrow> bytes list \<Rightarrow> SseDecoder \<times> (CarrierError + bytes list)" where
  "sse_dispatch b d fin =
     (if \<not> has_data d then (d, Inr fin)
      else
        let pl = sse_data d; d = d\<lparr>sse_data := [], has_data := False\<rparr> in
        case b64_dec b (as_bytes pl) of
          None \<Rightarrow> (d, Inl (InvalidBase64 ''sse event''))
        | Some env \<Rightarrow>
            if length env > MAX_CARRIER_RECORD then (d, Inl (EnvelopeTooLarge (length env) MAX_CARRIER_RECORD))
            else (d, Inr (fin @ [env])))"

definition handle_line :: "base64_crate \<Rightarrow> SseDecoder \<Rightarrow> bytes \<Rightarrow> bytes list \<Rightarrow> SseDecoder \<times> (CarrierError + bytes list)" where
  "handle_line b d line fin =
     (if line = [] then sse_dispatch b d fin
      else if line ! 0 = COLON then (d, Inr fin)
      else
        let fld = takeWhile (\<lambda>c. c \<noteq> COLON) line; v = drop 1 (dropWhile (\<lambda>c. c \<noteq> COLON) line) in
        if fld \<noteq> as_bytes ''data'' then (d, Inr fin)
        else
          let v = (case v of c # r \<Rightarrow> if c = SPACE then r else v | [] \<Rightarrow> v) in
          case from_utf8 v of
            None \<Rightarrow> (d, Inl (InvalidUtf8 ''sse data field''))
          | Some t \<Rightarrow>
              let d = d\<lparr>sse_data := (if has_data d then sse_data d @ [CHR 0x0A] else sse_data d) @ t, has_data := True\<rparr> in
              if length (as_bytes (sse_data d)) > MAX_SSE_EVENT
              then (d, Inl (SseEventTooLarge (length (as_bytes (sse_data d))) MAX_SSE_EVENT))
              else (d, Inr fin))"

text \<open>The scanning loop of \<open>feed\<close>: \<open>line\<close> holds the bytes from \<open>line_start\<close> to the index. It ends with the
  unterminated line and the finished events, or with the error of a line.\<close>

definition skip_lf :: "bytes \<Rightarrow> bytes" where
  "skip_lf r = (case r of c # r' \<Rightarrow> if c = LF then r' else r | [] \<Rightarrow> r)"

lemma length_skip_lf: "length (skip_lf r) \<le> length r"
  by (simp add: skip_lf_def split: list.splits)

function sse_scan :: "base64_crate \<Rightarrow> SseDecoder \<Rightarrow> bytes \<Rightarrow> bytes \<Rightarrow> bytes list
    \<Rightarrow> SseDecoder \<times> (CarrierError + (bytes \<times> bytes list))" where
  "sse_scan b d line [] fin = (d, Inr (line, fin))"
| "sse_scan b d line (c # r) fin =
     (if c = LF then
        (case handle_line b d line fin of
           (d, Inl e) \<Rightarrow> (d, Inl e)
         | (d, Inr fin) \<Rightarrow> sse_scan b d [] r fin)
      else if c = CR then
        (case handle_line b d line fin of
           (d, Inl e) \<Rightarrow> (d, Inl e)
         | (d, Inr fin) \<Rightarrow> sse_scan b d [] (skip_lf r) fin)
      else sse_scan b d (line @ [c]) r fin)"
  by pat_completeness auto
termination
  by (relation "measure (\<lambda>(b, d, line, r, fin). length r)") (auto simp: le_imp_less_Suc length_skip_lf)

definition sse_feed :: "base64_crate \<Rightarrow> SseDecoder \<Rightarrow> bytes \<Rightarrow> SseDecoder \<times> (CarrierError + bytes list)" where
  "sse_feed b d chunk =
     (let d = d\<lparr>sse_pending := sse_pending d @ chunk\<rparr> in
      case sse_scan b d [] (sse_pending d) [] of
        (d, Inl e) \<Rightarrow> (d, Inl e)
      | (d, Inr (rest, fin)) \<Rightarrow>
          let d = d\<lparr>sse_pending := rest\<rparr> in
          if length rest > MAX_SSE_EVENT then (d, Inl (SseEventTooLarge (length rest) MAX_SSE_EVENT)) else (d, Inr fin))"

definition sse_finish :: "SseDecoder \<Rightarrow> CarrierError + unit" where
  "sse_finish d = (if sse_pending d \<noteq> [] \<or> has_data d then Inl IncompleteEvent else Inr ())"

definition sse_decode :: "base64_crate \<Rightarrow> bytes \<Rightarrow> CarrierError + bytes list" where
  "sse_decode b body =
     (case sse_feed b sse_new body of
        (d, Inl e) \<Rightarrow> Inl e
      | (d, Inr es) \<Rightarrow> rbind (sse_finish d) (\<lambda>_. Inr es))"

section \<open>JSON profile\<close>

definition PROFILE_VERSION :: int where "PROFILE_VERSION = 1"
definition TEMPLATE_MARKER :: bytes where "TEMPLATE_MARKER = as_bytes ''wsnet:v1:''"
definition DATA_KEY :: string where "DATA_KEY = ''d''"
definition VERSION_KEY :: string where "VERSION_KEY = ''v''"

definition json_encode :: "base64_crate \<Rightarrow> bytes list \<Rightarrow> CarrierError + bytes" where
  "json_encode b es =
     rbind (collect_r (\<lambda>env. rbind (check_envelope env) (\<lambda>_. Inr (Str (b64_enc b env)))) es) (\<lambda>items.
       let body = to_bytes (object [(DATA_KEY, Array items), (VERSION_KEY, Integer PROFILE_VERSION)]) in
       if length body > MAX_HTTP_BODY then Inl (BodyTooLarge (length body) MAX_HTTP_BODY) else Inr body)"

definition json_item :: "base64_crate \<Rightarrow> Canonical \<Rightarrow> CarrierError + bytes" where
  "json_item b item =
     (case item of
        Str s \<Rightarrow>
          rbind (ok_or (InvalidBase64 ''json data item'') (b64_dec b (as_bytes s))) (\<lambda>env.
            rbind (check_envelope env) (\<lambda>_. Inr env))
      | _ \<Rightarrow> Inl (MalformedProfile ''json'' ''data array must contain only strings''))"

definition json_decode :: "base64_crate \<Rightarrow> bytes \<Rightarrow> CarrierError + bytes list" where
  "json_decode b body =
     rbind (map_err (\<lambda>_. MalformedProfile ''json'' ''body is not canonical JSON within the body bound'')
        (from_bytes_bounded body MAX_HTTP_BODY)) (\<lambda>document.
       rbind (map_err (\<lambda>_. MalformedProfile ''json'' ''missing or non-integer version field'') (get_i64 document VERSION_KEY)) (\<lambda>version.
         if version \<noteq> PROFILE_VERSION then Inl (UnsupportedProfileVersion ''json'' (nat \<bar>version\<bar>))
         else rbind (map_err (\<lambda>_. MalformedProfile ''json'' ''missing data array'') (get_array document DATA_KEY)) (\<lambda>items.
           collect_r (json_item b) items)))"

section \<open>Template profiles\<close>

record TemplateProfile =
  tp_name :: string
  tp_open :: bytes
  tp_close :: bytes

definition TP_HTML :: TemplateProfile where
  "TP_HTML = \<lparr>tp_name = ''html'', tp_open = as_bytes ''<!--'', tp_close = as_bytes ''-->''\<rparr>"
definition TP_CSS :: TemplateProfile where
  "TP_CSS = \<lparr>tp_name = ''css'', tp_open = as_bytes ''/*'', tp_close = as_bytes ''*/''\<rparr>"
definition TP_JS :: TemplateProfile where
  "TP_JS = \<lparr>tp_name = ''js'', tp_open = as_bytes ''/*'', tp_close = as_bytes ''*/''\<rparr>"

fun template_lines :: "base64_crate \<Rightarrow> nat \<Rightarrow> bytes list \<Rightarrow> CarrierError + bytes" where
  "template_lines b index [] = Inr []"
| "template_lines b index (env # es) =
     rbind (check_envelope env) (\<lambda>_.
       rbind (template_lines b (index + 1) es) (\<lambda>r.
         Inr ((if index > 0 then [LF] else []) @ as_bytes (b64_enc b env) @ r)))"

definition template_encode :: "base64_crate \<Rightarrow> TemplateProfile \<Rightarrow> bytes list \<Rightarrow> CarrierError + bytes" where
  "template_encode b p es =
     rbind (template_lines b 0 es) (\<lambda>ls.
       let out = tp_open p @ TEMPLATE_MARKER @ ls @ tp_close p in
       if length out > MAX_HTTP_BODY then Inl (BodyTooLarge (length out) MAX_HTTP_BODY) else Inr out)"

text \<open>\<open>windows(n).position(eq)\<close>: the first offset at which \<open>needle\<close> occurs.\<close>

fun find_at :: "bytes \<Rightarrow> bytes \<Rightarrow> nat option" where
  "find_at needle [] = None"
| "find_at needle (c # r) =
     (if length (c # r) < length needle then None
      else if take (length needle) (c # r) = needle then Some 0
      else map_option Suc (find_at needle r))"

definition find :: "bytes \<Rightarrow> bytes \<Rightarrow> nat option" where
  "find haystack needle = (if needle = [] \<or> length haystack < length needle then None else find_at needle haystack)"

definition template_line :: "base64_crate \<Rightarrow> string \<Rightarrow> CarrierError + bytes" where
  "template_line b line =
     rbind (ok_or (InvalidBase64 ''template payload line'') (b64_dec b (as_bytes line))) (\<lambda>env.
       rbind (check_envelope env) (\<lambda>_. Inr env))"

definition template_decode :: "base64_crate \<Rightarrow> TemplateProfile \<Rightarrow> bytes \<Rightarrow> CarrierError + bytes list" where
  "template_decode b p document =
     (if length document > MAX_HTTP_BODY then Inl (BodyTooLarge (length document) MAX_HTTP_BODY)
      else rbind (ok_or (MalformedProfile (tp_name p) ''opening delimiter not found'') (find document (tp_open p))) (\<lambda>open_at.
        let after_open = drop (open_at + length (tp_open p)) document in
        rbind (ok_or (MalformedProfile (tp_name p) ''closing delimiter not found'') (find after_open (tp_close p))) (\<lambda>close_at.
          let region = take close_at after_open in
          if take (length TEMPLATE_MARKER) region \<noteq> TEMPLATE_MARKER
          then Inl (MalformedProfile (tp_name p) ''payload region is missing the wsnet marker'')
          else rbind (ok_or (InvalidUtf8 ''template payload'') (from_utf8 (drop (length TEMPLATE_MARKER) region))) (\<lambda>text.
            collect_r (template_line b) (filter (\<lambda>l. l \<noteq> []) (map trim (split_on (CHR 0x0A) text)))))))"

section \<open>Carriers\<close>

datatype Carrier = Ws | Post | Sse | JsonProfile | HtmlProfile | CssProfile | JsProfile

primrec carrier_name :: "Carrier \<Rightarrow> string" where
  "carrier_name Ws = ''ws''"
| "carrier_name Post = ''post''"
| "carrier_name Sse = ''sse''"
| "carrier_name JsonProfile = ''json-profile''"
| "carrier_name HtmlProfile = ''html-profile''"
| "carrier_name CssProfile = ''css-profile''"
| "carrier_name JsProfile = ''js-profile''"

definition is_uplink_capable :: "Carrier \<Rightarrow> bool" where
  "is_uplink_capable c \<longleftrightarrow> c \<in> {Ws, Post, JsonProfile, HtmlProfile, CssProfile, JsProfile}"

primrec carrier_template :: "Carrier \<Rightarrow> TemplateProfile option" where
  "carrier_template HtmlProfile = Some TP_HTML"
| "carrier_template CssProfile = Some TP_CSS"
| "carrier_template JsProfile = Some TP_JS"
| "carrier_template Ws = None"
| "carrier_template Post = None"
| "carrier_template Sse = None"
| "carrier_template JsonProfile = None"

definition carrier_encode :: "base64_crate \<Rightarrow> Carrier \<Rightarrow> bytes list \<Rightarrow> CarrierError + bytes" where
  "carrier_encode b c es =
     (case c of
        Ws \<Rightarrow> (case es of [single] \<Rightarrow> ws_encode single
              | _ \<Rightarrow> Inl (MalformedProfile ''ws'' ''a WebSocket message carries exactly one envelope''))
      | Post \<Rightarrow> post_encode es
      | Sse \<Rightarrow> sse_encode b es
      | JsonProfile \<Rightarrow> json_encode b es
      | other \<Rightarrow> template_encode b (the (carrier_template other)) es)"

definition carrier_decode :: "base64_crate \<Rightarrow> Carrier \<Rightarrow> bytes \<Rightarrow> CarrierError + bytes list" where
  "carrier_decode b c body =
     (case c of
        Ws \<Rightarrow> rbind (ws_decode body) (\<lambda>env. Inr [env])
      | Post \<Rightarrow> post_decode body
      | Sse \<Rightarrow> sse_decode b body
      | JsonProfile \<Rightarrow> json_decode b body
      | other \<Rightarrow> template_decode b (the (carrier_template other)) body)"

section \<open>The contract of a carrier\<close>

locale carrier_codec =
  fixes enc :: "bytes list \<Rightarrow> CarrierError + bytes"
    and dec :: "bytes \<Rightarrow> CarrierError + bytes list"
    and ok :: "bytes list \<Rightarrow> bool"
  assumes dec_enc: "ok es \<Longrightarrow> enc es = Inr body \<Longrightarrow> dec body = Inr es"
begin

lemma enc_inj: "ok es \<Longrightarrow> ok es' \<Longrightarrow> enc es = Inr body \<Longrightarrow> enc es' = Inr body \<Longrightarrow> es = es'"
  by (metis dec_enc sum.inject(2))

end

lemma check_envelope_Inr [result_simps]: "check_envelope env = Inr u \<longleftrightarrow> length env \<le> MAX_CARRIER_RECORD"
  by (auto simp: check_envelope_def)

subsection \<open>POST\<close>

lemma post_total_Inr:
  "post_total t es = Inr n \<longleftrightarrow> (\<forall>env \<in> set es. length env \<le> MAX_CARRIER_RECORD)
     \<and> n = t + length (concat (map (\<lambda>env. be_bytes 4 (length env) @ env) es))"
  by (induction es arbitrary: t) (auto simp: result_simps algebra_simps)

lemma be_bytes_4_not_Nil [simp]: "be_bytes 4 n \<noteq> []"
  by (metis length_be_bytes list.size(3) zero_neq_numeral)

lemma post_loop_encoded:
  "\<forall>env \<in> set es. length env \<le> MAX_CARRIER_RECORD \<Longrightarrow> n + length es \<le> MAX_POST_BATCH_RECORDS \<Longrightarrow>
   post_loop n (concat (map (\<lambda>env. be_bytes 4 (length env) @ env) es)) = Inr es"
proof (induction es arbitrary: n)
  case Nil
  then show ?case by (subst post_loop.simps) simp
next
  case (Cons env es)
  have len: "of_be_bytes (be_bytes 4 (length env)) = length env"
    using Cons.prems(1) by (intro of_be_bytes_u32) (simp add: u32_max_def limit_defs)
  show ?case using Cons len by (subst post_loop.simps) (simp add: Let_def)
qed

interpretation post: carrier_codec post_encode post_decode "\<lambda>es. True"
proof
  fix es body
  assume "post_encode es = Inr body"
  then have "length es \<le> MAX_POST_BATCH_RECORDS" "\<forall>env \<in> set es. length env \<le> MAX_CARRIER_RECORD"
    "body = concat (map (\<lambda>env. be_bytes 4 (length env) @ env) es)" "length body \<le> MAX_POST_BATCH_BYTES"
    by (auto simp: post_encode_def result_simps post_total_Inr split: if_splits)
  then show "post_decode body = Inr es" by (simp add: post_decode_def post_loop_encoded)
qed

lemma post_loop_bounds:
  "post_loop n body = Inr es \<Longrightarrow> n \<le> MAX_POST_BATCH_RECORDS \<Longrightarrow>
   n + length es \<le> MAX_POST_BATCH_RECORDS \<and> (\<forall>env \<in> set es. length env \<le> MAX_CARRIER_RECORD)
   \<and> body = concat (map (\<lambda>env. be_bytes 4 (length env) @ env) es)"
proof (induction n body arbitrary: es rule: post_loop.induct)
  case (1 n body)
  show ?case
  proof (cases "body = []")
    case True
    with 1 show ?thesis by (subst (asm) (2) post_loop.simps) simp
  next
    case False
    let ?len = "of_be_bytes (take 4 body)" and ?rest = "drop 4 body"
    from "1.prems" False obtain es' where c: "n < MAX_POST_BATCH_RECORDS" "4 \<le> length body" "?len \<le> MAX_CARRIER_RECORD"
      "?len \<le> length ?rest" "post_loop (n + 1) (drop ?len ?rest) = Inr es'" "es = take ?len ?rest # es'"
      by (subst (asm) post_loop.simps) (auto simp: Let_def result_simps not_less not_le split: if_splits)
    have "be_bytes 4 ?len = take 4 body" using be_bytes_of_be_bytes [of "take 4 body"] c(2) by simp
    moreover have "length (take ?len ?rest) = ?len" using c(4) by simp
    ultimately have "be_bytes 4 (length (take ?len ?rest)) @ take ?len ?rest @ drop ?len ?rest = body"
      by (simp only: append_take_drop_id)
    moreover from "1.IH" [OF False] c have "n + 1 + length es' \<le> MAX_POST_BATCH_RECORDS
        \<and> (\<forall>env \<in> set es'. length env \<le> MAX_CARRIER_RECORD)
        \<and> drop ?len ?rest = concat (map (\<lambda>env. be_bytes 4 (length env) @ env) es')" by simp
    ultimately show ?thesis using c by auto
  qed
qed

subsection \<open>Server-sent events\<close>

lemma b64_bytes:
  assumes "b64_laws b"
  shows "LF \<notin> set (as_bytes (b64_enc b x))" "CR \<notin> set (as_bytes (b64_enc b x))" "valid_utf8 (as_bytes (b64_enc b x))"
    "COLON \<notin> set (as_bytes (b64_enc b x))" "SPACE \<notin> set (as_bytes (b64_enc b x))"
proof -
  have s: "set (b64_enc b x) \<subseteq> set B64_ALPHABET" using assms by (simp add: b64_laws_def)
  have al: "\<forall>c \<in> set B64_ALPHABET. unat (byte_of_char c) < 128 \<and> byte_of_char c \<notin> {LF, CR, COLON, SPACE}"
    by (simp add: B64_ALPHABET_def byte_of_char_def LF_def CR_def COLON_def SPACE_def)
  have all: "\<forall>v \<in> set (as_bytes (b64_enc b x)). unat v < 128 \<and> v \<notin> {LF, CR, COLON, SPACE}"
  proof
    fix v assume "v \<in> set (as_bytes (b64_enc b x))"
    then obtain c where "c \<in> set B64_ALPHABET" "v = byte_of_char c" using s by (auto simp: as_bytes_def)
    with al [rule_format, of c] show "unat v < 128 \<and> v \<notin> {LF, CR, COLON, SPACE}" by simp
  qed
  then show "LF \<notin> set (as_bytes (b64_enc b x))" "CR \<notin> set (as_bytes (b64_enc b x))"
    "COLON \<notin> set (as_bytes (b64_enc b x))" "SPACE \<notin> set (as_bytes (b64_enc b x))"
    by blast+
  show "valid_utf8 (as_bytes (b64_enc b x))"
    by (rule valid_utf8_ascii) (use all in auto)
qed

lemma scan_plain:
  "LF \<notin> set xs \<Longrightarrow> CR \<notin> set xs \<Longrightarrow> sse_scan b d line (xs @ r) fin = sse_scan b d (line @ xs) r fin"
  by (induction xs arbitrary: line) auto

lemma scan_append:
  "CR \<notin> set xs \<Longrightarrow>
   sse_scan b d line (xs @ ys) fin =
     (case sse_scan b d line xs fin of (d, Inl e) \<Rightarrow> (d, Inl e) | (d, Inr (rest, fin)) \<Rightarrow> sse_scan b d rest ys fin)"
proof (induction xs arbitrary: d line fin)
  case Nil
  then show ?case by simp
next
  case (Cons c xs)
  then show ?case by (auto split: prod.splits sum.splits)
qed

text \<open>The bytes of one encoded event, and what scanning them does.\<close>

definition sse_event :: "base64_crate \<Rightarrow> bytes \<Rightarrow> bytes" where
  "sse_event b env = as_bytes ''data: '' @ as_bytes (b64_enc b env) @ [LF, LF]"

definition sse_fits :: "base64_crate \<Rightarrow> bytes \<Rightarrow> bool" where
  "sse_fits b env \<longleftrightarrow> length env \<le> MAX_CARRIER_RECORD \<and> length (b64_enc b env) + 8 \<le> MAX_SSE_EVENT"

lemma sse_encode_loop_Inr:
  "sse_encode_loop b out es = Inr body \<longleftrightarrow> (\<forall>env \<in> set es. sse_fits b env) \<and> body = out @ concat (map (sse_event b) es)"
  by (induction es arbitrary: out) (auto simp: result_simps Let_def sse_fits_def sse_event_def)

lemma data_bytes:
  "as_bytes ''data: '' = as_bytes ''data'' @ [COLON, SPACE]" "COLON \<notin> set (as_bytes ''data'')"
  "LF \<notin> set (as_bytes ''data: '')" "CR \<notin> set (as_bytes ''data: '')" "as_bytes ''data: '' ! 0 \<noteq> COLON" "length (as_bytes ''data: '') = 6"
  by (simp_all add: as_bytes_def byte_of_char_def COLON_def SPACE_def LF_def CR_def)

lemma handle_data_line:
  assumes "b64_laws b" "sse_fits b env" "\<not> has_data d" "sse_data d = []"
  shows "handle_line b d (as_bytes ''data: '' @ as_bytes (b64_enc b env)) fin
    = (d\<lparr>sse_data := b64_enc b env, has_data := True\<rparr>, Inr fin)"
proof -
  let ?e = "as_bytes (b64_enc b env)" and ?line = "as_bytes ''data: '' @ as_bytes (b64_enc b env)"
  have line: "?line = as_bytes ''data'' @ COLON # SPACE # ?e" by (simp add: data_bytes(1) del: as_bytes_Cons)
  have dc: "\<forall>c \<in> set (as_bytes ''data''). c \<noteq> COLON" using data_bytes(2) by blast
  have tw: "takeWhile (\<lambda>c. c \<noteq> COLON) ?line = as_bytes ''data''" "dropWhile (\<lambda>c. c \<noteq> COLON) ?line = COLON # SPACE # ?e"
    unfolding line using dc by (simp_all add: takeWhile_append2 dropWhile_append2 del: as_bytes_Cons)
  have ne: "?line \<noteq> []" using data_bytes(6) by (metis append_is_Nil_conv list.size(3) zero_neq_numeral)
  have nc: "?line ! 0 \<noteq> COLON" using data_bytes(5,6) by (simp add: nth_append del: as_bytes_Cons)
  have utf: "from_utf8 ?e = Some (b64_enc b env)" using b64_bytes(3) [OF assms(1)] by (rule from_utf8_as_bytes)
  have "length ?e \<le> MAX_SSE_EVENT" using assms(2) by (simp add: sse_fits_def)
  then show ?thesis unfolding handle_line_def tw if_not_P [OF ne] if_not_P [OF nc] Let_def
    using utf assms(3,4) by (simp del: as_bytes_Cons)
qed

lemma scan_event:
  assumes "b64_laws b" "sse_fits b env" "\<not> has_data d" "sse_data d = []"
  shows "sse_scan b d [] (sse_event b env @ r) fin = sse_scan b d [] r (fin @ [env])"
proof -
  let ?line = "as_bytes ''data: '' @ as_bytes (b64_enc b env)"
  have no: "LF \<notin> set ?line" "CR \<notin> set ?line"
    using b64_bytes(1,2) [OF assms(1)] data_bytes(3,4) by (simp_all del: as_bytes_Cons)
  have dec: "b64_dec b (as_bytes (b64_enc b env)) = Some env" using assms(1) by (simp add: b64_laws_def)
  have "sse_event b env @ r = ?line @ LF # LF # r" by (simp add: sse_event_def del: as_bytes_Cons)
  then have "sse_scan b d [] (sse_event b env @ r) fin = sse_scan b d ?line (LF # LF # r) fin"
    using scan_plain [OF no] by simp
  also have "\<dots> = sse_scan b (d\<lparr>sse_data := b64_enc b env, has_data := True\<rparr>) [] (LF # r) fin"
    by (simp add: handle_data_line [OF assms] del: as_bytes_Cons)
  also have "\<dots> = sse_scan b (d\<lparr>sse_data := [], has_data := False\<rparr>) [] r (fin @ [env])"
    using dec assms by (simp add: handle_line_def sse_dispatch_def Let_def sse_fits_def)
  also have "d\<lparr>sse_data := [], has_data := False\<rparr> = d" using assms by (cases d) simp
  finally show ?thesis .
qed

lemma scan_events:
  "b64_laws b \<Longrightarrow> \<forall>env \<in> set es. sse_fits b env \<Longrightarrow> \<not> has_data d \<Longrightarrow> sse_data d = [] \<Longrightarrow>
   sse_scan b d [] (concat (map (sse_event b) es)) fin = (d, Inr ([], fin @ es))"
  by (induction es arbitrary: fin) (auto simp: scan_event)

interpretation sse: carrier_codec "sse_encode b" "sse_decode b" "\<lambda>es. b64_laws b" for b
proof
  fix es body
  assume b: "b64_laws b" and e: "sse_encode b es = Inr body"
  then have "\<forall>env \<in> set es. sse_fits b env" "body = concat (map (sse_event b) es)"
    by (auto simp: sse_encode_def sse_encode_loop_Inr)
  with scan_events [OF b, of es "sse_new\<lparr>sse_pending := body\<rparr>" "[]"] show "sse_decode b body = Inr es"
    by (simp add: sse_decode_def sse_feed_def sse_new_def sse_finish_def)
qed

subsection \<open>Chunking\<close>

fun sse_feeds :: "base64_crate \<Rightarrow> SseDecoder \<Rightarrow> bytes list \<Rightarrow> SseDecoder \<times> (CarrierError + bytes list)" where
  "sse_feeds b d [] = (d, Inr [])"
| "sse_feeds b d (chunk # chunks) =
     (case sse_feed b d chunk of
        (d, Inl e) \<Rightarrow> (d, Inl e)
      | (d, Inr es) \<Rightarrow> (case sse_feeds b d chunks of (d, Inl e) \<Rightarrow> (d, Inl e) | (d, Inr es') \<Rightarrow> (d, Inr (es @ es'))))"

definition short_lines :: "nat \<Rightarrow> bytes \<Rightarrow> bool" where
  "short_lines n body \<longleftrightarrow> (\<forall>u v w. body = u @ v @ w \<longrightarrow> LF \<notin> set v \<longrightarrow> length v \<le> n)"

lemma short_lines_event:
  assumes "length x \<le> n" "short_lines n y"
  shows "short_lines n (x @ LF # y)"
  unfolding short_lines_def
proof (intro allI impI)
  fix u v w
  assume eq: "x @ LF # y = u @ v @ w" and v: "LF \<notin> set v"
  show "length v \<le> n"
  proof (cases "length u \<le> length x")
    case False
    then obtain us where "u = x @ us" "us \<noteq> []" "LF # y = us @ v @ w"
      using eq by (auto simp: append_eq_append_conv2)
    then obtain u' where "y = u' @ v @ w" by (cases us) auto
    with assms(2) v show ?thesis by (auto simp: short_lines_def)
  next
    case True
    define x' where "x' = drop (length u) x"
    have "take (length u) (x @ LF # y) = u" using eq by simp
    then have x: "x = u @ x'" using True by (metis append_take_drop_id take_append take_all_iff x'_def append_Nil2 diff_is_0_eq take0)
    with eq have "v @ w = x' @ LF # y" by simp
    note x = x this
    then have "length v \<le> length x'"
      using v by (auto simp: append_eq_append_conv2 append_eq_Cons_conv)
    with x(1) assms(1) show ?thesis by simp
  qed
qed

lemma short_lines_events:
  "\<forall>env \<in> set es. sse_fits b env \<Longrightarrow> short_lines MAX_SSE_EVENT (concat (map (sse_event b) es))"
proof (induction es)
  case Nil
  then show ?case by (simp add: short_lines_def)
next
  case (Cons env es)
  have "sse_event b env = (as_bytes ''data: '' @ as_bytes (b64_enc b env)) @ LF # [] @ LF # []"
    by (simp add: sse_event_def del: as_bytes_Cons)
  moreover have "length (as_bytes ''data: '' @ as_bytes (b64_enc b env)) \<le> MAX_SSE_EVENT"
    using Cons.prems data_bytes(6) by (simp add: sse_fits_def del: as_bytes_Cons)
  moreover have "short_lines MAX_SSE_EVENT ([] @ LF # concat (map (sse_event b) es))"
    using Cons by (intro short_lines_event) simp_all
  ultimately show ?case
    using short_lines_event [of "as_bytes ''data: '' @ as_bytes (b64_enc b env)" MAX_SSE_EVENT "[] @ LF # concat (map (sse_event b) es)"]
    by (simp del: as_bytes_Cons)
qed

text \<open>Where a scan stops: the rest is the unterminated last line.\<close>

lemma handle_line_pending: "handle_line b d line fin = (d', r) \<Longrightarrow> sse_pending d' = sse_pending d"
  by (auto simp: handle_line_def sse_dispatch_def Let_def split: if_splits option.splits)

lemma scan_rest:
  "CR \<notin> set xs \<Longrightarrow> LF \<notin> set line \<Longrightarrow> CR \<notin> set line \<Longrightarrow> sse_scan b d line xs fin = (d', Inr (rest, fin')) \<Longrightarrow>
   LF \<notin> set rest \<and> CR \<notin> set rest \<and> (\<exists>u. line @ xs = u @ rest)"
proof (induction xs arbitrary: d line fin)
  case Nil
  then show ?case by auto
next
  case (Cons c xs)
  show ?case
  proof (cases "c = LF")
    case True
    with Cons.prems obtain d1 fin1 where "sse_scan b d1 [] xs fin1 = (d', Inr (rest, fin'))"
      by (auto split: prod.splits sum.splits)
    from Cons.IH [OF _ _ _ this] Cons.prems obtain u where "LF \<notin> set rest" "CR \<notin> set rest" "xs = u @ rest" by auto
    with True show ?thesis by (auto intro: exI [of _ "line @ c # u"])
  next
    case False
    with Cons.prems have "sse_scan b d (line @ [c]) xs fin = (d', Inr (rest, fin'))" by auto
    from Cons.IH [OF _ _ _ this] Cons.prems False show ?thesis by auto
  qed
qed

text \<open>Feeding a chunk is scanning it from the pending line.\<close>

lemma feed_scan:
  assumes "LF \<notin> set (sse_pending d)" "CR \<notin> set (sse_pending d)"
  shows "sse_feed b d chunk =
    (case sse_scan b (d\<lparr>sse_pending := sse_pending d @ chunk\<rparr>) (sse_pending d) chunk [] of
        (d, Inl e) \<Rightarrow> (d, Inl e)
      | (d, Inr (rest, fin)) \<Rightarrow>
          let d = d\<lparr>sse_pending := rest\<rparr> in
          if length rest > MAX_SSE_EVENT then (d, Inl (SseEventTooLarge (length rest) MAX_SSE_EVENT)) else (d, Inr fin))"
  unfolding sse_feed_def Let_def using scan_plain [OF assms, of b _ "[]"] by simp

lemma handle_line_frame:
  "handle_line b (d\<lparr>sse_pending := p\<rparr>) line fin = (let (d', r) = handle_line b d line fin in (d'\<lparr>sse_pending := p\<rparr>, r))"
  by (simp add: handle_line_def sse_dispatch_def Let_def split: option.splits)

lemma scan_frame:
  "sse_scan b (d\<lparr>sse_pending := p\<rparr>) line xs fin = (let (d', r) = sse_scan b d line xs fin in (d'\<lparr>sse_pending := p\<rparr>, r))"
  by (induction b d line xs fin rule: sse_scan.induct)
    (auto simp: handle_line_frame Let_def split: prod.splits sum.splits)

lemma scan_fin:
  "sse_scan b d line xs (f1 @ f2) = (case sse_scan b d line xs f2 of (d, Inl e) \<Rightarrow> (d, Inl e) | (d, Inr (r, f)) \<Rightarrow> (d, Inr (r, f1 @ f)))"
proof (induction b d line xs f2 rule: sse_scan.induct)
  case (1 b d line fin)
  then show ?case by simp
next
  case (2 b d line c r fin)
  have h: "handle_line b d line (f1 @ fin) = (case handle_line b d line fin of (d, Inl e) \<Rightarrow> (d, Inl e) | (d, Inr f) \<Rightarrow> (d, Inr (f1 @ f)))"
    by (simp add: handle_line_def sse_dispatch_def Let_def split: option.splits)
  show ?case using 2 by (auto simp: h split: prod.splits sum.splits)
qed

lemma short_lines_suffix: "short_lines n (u @ v) \<Longrightarrow> short_lines n v"
  unfolding short_lines_def by (metis append.assoc)

lemma feeds_scan:
  "sse_scan b d (sse_pending d) (concat chunks) [] = (d', Inr (rest, fin)) \<Longrightarrow>
   LF \<notin> set (sse_pending d) \<Longrightarrow> CR \<notin> set (sse_pending d) \<Longrightarrow> CR \<notin> set (concat chunks) \<Longrightarrow>
   short_lines MAX_SSE_EVENT (sse_pending d @ concat chunks) \<Longrightarrow>
   sse_feeds b d chunks = (d'\<lparr>sse_pending := rest\<rparr>, Inr fin)"
proof (induction chunks arbitrary: d d' fin)
  case Nil
  then show ?case by (cases d) auto
next
  case (Cons chunk chunks)
  let ?p = "sse_pending d"
  have cr: "CR \<notin> set chunk" "CR \<notin> set (concat chunks)" using Cons.prems(4) by auto
  from Cons.prems(1) obtain d1 r1 f1 where s1: "sse_scan b d ?p chunk [] = (d1, Inr (r1, f1))"
    and s2: "sse_scan b d1 r1 (concat chunks) f1 = (d', Inr (rest, fin))"
    by (simp add: scan_append [OF cr(1)] split: prod.splits sum.splits)
  from scan_rest [OF cr(1) Cons.prems(2,3) s1] obtain u where r1: "LF \<notin> set r1" "CR \<notin> set r1" "?p @ chunk = u @ r1"
    by blast
  then have "?p @ concat (chunk # chunks) = u @ r1 @ concat chunks" by (metis append.assoc concat.simps(2))
  with Cons.prems(5) have sl: "short_lines MAX_SSE_EVENT (r1 @ concat chunks)"
    using short_lines_suffix by metis
  then have "length r1 \<le> MAX_SSE_EVENT" using r1(1) unfolding short_lines_def by (metis append_Nil)
  then have fd: "sse_feed b d chunk = (d1\<lparr>sse_pending := r1\<rparr>, Inr f1)"
    unfolding feed_scan [OF Cons.prems(2,3)] scan_frame s1 by (simp add: Let_def)
  from s2 scan_fin [of b d1 r1 "concat chunks" f1 "[]"] obtain f2
    where f2: "sse_scan b d1 r1 (concat chunks) [] = (d', Inr (rest, f2))" "fin = f1 @ f2"
    by (auto split: prod.splits sum.splits)
  have "sse_feeds b (d1\<lparr>sse_pending := r1\<rparr>) chunks = (d'\<lparr>sse_pending := r1\<rparr>\<lparr>sse_pending := rest\<rparr>, Inr f2)"
    by (rule Cons.IH) (use f2 r1 cr sl in \<open>simp_all add: scan_frame\<close>)
  with fd f2(2) show ?case by simp
qed

lemma events_no_cr: "b64_laws b \<Longrightarrow> CR \<notin> set (concat (map (sse_event b) es))"
  using b64_bytes(2) data_bytes(4) by (auto simp: sse_event_def LF_def CR_def simp del: as_bytes_Cons)

subsection \<open>JSON profile\<close>

lemma b64_is_str: "b64_laws b \<Longrightarrow> is_str (b64_enc b x)"
  using b64_bytes(3) by (simp add: is_str_def)

interpretation json: carrier_codec "json_encode b" "json_decode b" "\<lambda>es. b64_laws b" for b
proof
  fix es body
  assume b: "b64_laws b" and e: "json_encode b es = Inr body"
  let ?doc = "object [(DATA_KEY, Array (map (\<lambda>env. Str (b64_enc b env)) es)), (VERSION_KEY, Integer PROFILE_VERSION)]"
  have items: "collect_r (\<lambda>env. rbind (check_envelope env) (\<lambda>_. Inr (Str (b64_enc b env)))) es = Inr items \<longleftrightarrow>
      (\<forall>env \<in> set es. length env \<le> MAX_CARRIER_RECORD) \<and> items = map (\<lambda>env. Str (b64_enc b env)) es" for items
    by (induction es arbitrary: items) (auto simp: result_simps)
  from e have es: "\<forall>env \<in> set es. length env \<le> MAX_CARRIER_RECORD" and body: "body = to_bytes ?doc" "length body \<le> MAX_HTTP_BODY"
    by (auto simp: json_encode_def result_simps items Let_def split: if_splits)
  have "deep_ok 0 ?doc"
    by (rule deep_ok_object)
      (use b64_is_str [OF b] in \<open>auto simp: DATA_KEY_def VERSION_KEY_def PROFILE_VERSION_def MAX_CANON_DEPTH_def deep_ok_Array
        i64_range_def i64_max_def i64_min_def\<close>)
  then have parse: "from_bytes_bounded body MAX_HTTP_BODY = Inr ?doc"
    using body from_bytes_bounded_write by simp
  have dec: "collect_r (json_item b) (map (\<lambda>env. Str (b64_enc b env)) es) = Inr es"
    using es b by (induction es) (auto simp: json_item_def result_simps b64_laws_def check_envelope_def)
  show "json_decode b body = Inr es"
    using dec by (simp add: json_decode_def parse get_i64_def get_array_def DATA_KEY_def VERSION_KEY_def PROFILE_VERSION_def)
qed

subsection \<open>Template profiles\<close>

lemma find_at_first:
  "needle \<noteq> [] \<Longrightarrow> hd needle \<notin> set xs \<Longrightarrow> find_at needle (xs @ needle @ r) = Some (length xs)"
proof (induction xs)
  case Nil
  then show ?case by (cases needle) simp_all
next
  case (Cons x xs)
  obtain c n where needle: "needle = c # n" using Cons.prems(1) by (cases needle) auto
  with Cons.prems have "take (length needle) ((x # xs) @ needle @ r) \<noteq> needle" by auto
  with Cons needle show ?case by simp
qed

lemma find_first: "needle \<noteq> [] \<Longrightarrow> hd needle \<notin> set xs \<Longrightarrow> find (xs @ needle @ r) needle = Some (length xs)"
  by (simp add: find_def find_at_first)

text \<open>The payload text: the encoded envelopes, one a line.\<close>

fun lines_text :: "string list \<Rightarrow> string" where
  "lines_text [] = []"
| "lines_text [l] = l"
| "lines_text (l # l' # ls) = l @ CHR 0x0A # lines_text (l' # ls)"

lemma byte_LF: "byte_of_char (CHR 0x0A) = LF"
  by (simp add: byte_of_char_def LF_def)

lemma template_lines_Inr:
  "template_lines b i es = Inr ls \<longleftrightarrow> (\<forall>env \<in> set es. length env \<le> MAX_CARRIER_RECORD)
     \<and> ls = (if i > 0 \<and> es \<noteq> [] then [LF] else []) @ as_bytes (lines_text (map (b64_enc b) es))"
proof (induction es arbitrary: i ls)
  case Nil
  then show ?case by auto
next
  case (Cons env es)
  have "as_bytes (lines_text (map (b64_enc b) (env # es)))
      = as_bytes (b64_enc b env) @ (if es \<noteq> [] then [LF] else []) @ as_bytes (lines_text (map (b64_enc b) es))"
    by (cases es) (simp_all add: as_bytes_append byte_LF)
  then show ?case
    by (simp only: template_lines.simps rbind_eq_Inr Cons.IH) (auto simp: check_envelope_def split: if_splits)
qed

lemma split_lines_text:
  "ls \<noteq> [] \<Longrightarrow> \<forall>l \<in> set ls. CHR 0x0A \<notin> set l \<Longrightarrow> split_on (CHR 0x0A) (lines_text ls) = ls"
  by (induction ls rule: lines_text.induct) (auto simp: split_on_app split_on_last)

lemma set_lines_text: "set (lines_text ls) \<subseteq> insert (CHR 0x0A) (\<Union>l \<in> set ls. set l)"
  by (induction ls rule: lines_text.induct) auto

lemma b64_plain:
  assumes "b64_laws b"
  shows "trim (b64_enc b x) = b64_enc b x" "CHR 0x0A \<notin> set (b64_enc b x)"
    "c \<in> set (b64_enc b x) \<Longrightarrow> c \<in> set B64_ALPHABET"
proof -
  have s: "set (b64_enc b x) \<subseteq> set B64_ALPHABET" using assms by (simp add: b64_laws_def)
  have al: "\<forall>c \<in> set B64_ALPHABET. 0x20 < (of_char c :: nat) \<and> (of_char c :: nat) < 0x80 \<and> c \<noteq> CHR 0x0A"
    by (simp add: B64_ALPHABET_def)
  show "trim (b64_enc b x) = b64_enc b x" by (rule trim_plain) (use s al in blast)
  show "CHR 0x0A \<notin> set (b64_enc b x)" using s al by blast
  show "c \<in> set (b64_enc b x) \<Longrightarrow> c \<in> set B64_ALPHABET" using s by blast
qed

definition template_ok :: "TemplateProfile \<Rightarrow> bool" where
  "template_ok p \<longleftrightarrow> tp_open p \<noteq> [] \<and> tp_close p \<noteq> []
     \<and> hd (tp_close p) \<notin> set TEMPLATE_MARKER \<union> {LF} \<union> set (as_bytes B64_ALPHABET)"

lemma template_profiles_ok: "template_ok TP_HTML" "template_ok TP_CSS" "template_ok TP_JS"
  by (simp_all add: template_ok_def TP_HTML_def TP_CSS_def TP_JS_def TEMPLATE_MARKER_def B64_ALPHABET_def LF_def byte_of_char_def
      as_bytes_def)

lemma template_decode_encode:
  assumes p: "template_ok p" and b: "b64_laws b" and ne: "[] \<notin> set es" and e: "template_encode b p es = Inr body"
  shows "template_decode b p body = Inr es"
proof -
  let ?ls = "map (b64_enc b) es"
  let ?t = "lines_text ?ls"
  from e have es: "\<forall>env \<in> set es. length env \<le> MAX_CARRIER_RECORD"
    and body: "body = tp_open p @ TEMPLATE_MARKER @ as_bytes ?t @ tp_close p" and len: "length body \<le> MAX_HTTP_BODY"
    by (auto simp: template_encode_def result_simps template_lines_Inr Let_def split: if_splits)
  have tc: "set ?t \<subseteq> insert (CHR 0x0A) (set B64_ALPHABET)" using set_lines_text [of ?ls] b64_plain(3) [OF b] by fastforce
  then have tb: "set (as_bytes ?t) \<subseteq> insert LF (set (as_bytes B64_ALPHABET))"
    using byte_LF by (fastforce simp: as_bytes_def)
  have utf: "from_utf8 (as_bytes ?t) = Some ?t"
  proof (rule from_utf8_as_bytes [OF valid_utf8_ascii])
    have "\<forall>c \<in> insert (CHR 0x0A) (set B64_ALPHABET). unat (byte_of_char c) < 0x80"
      by (simp add: B64_ALPHABET_def byte_of_char_def)
    with tc show "\<forall>v \<in> set (as_bytes ?t). unat v < 0x80" by (auto simp: as_bytes_def)
  qed
  have op: "find body (tp_open p) = Some 0"
    using find_first [of "tp_open p" "[]"] p by (simp add: body template_ok_def)
  have "hd (tp_close p) \<notin> set (TEMPLATE_MARKER @ as_bytes ?t)" using p tb by (auto simp: template_ok_def)
  from find_first [OF _ this, of "[]"] p have cl: "find (TEMPLATE_MARKER @ as_bytes ?t @ tp_close p) (tp_close p)
      = Some (length (TEMPLATE_MARKER @ as_bytes ?t))" by (simp add: template_ok_def)
  have ls: "filter (\<lambda>l. l \<noteq> []) (map trim (split_on (CHR 0x0A) ?t)) = ?ls"
  proof (cases "es = []")
    case True
    then show ?thesis using trim_plain [of "[]"] by simp
  next
    case False
    then have "split_on (CHR 0x0A) ?t = ?ls" using b64_plain(2) [OF b] by (intro split_lines_text) auto
    moreover have "map trim ?ls = ?ls" using b64_plain(1) [OF b] by simp
    moreover have "b64_enc b x = [] \<longleftrightarrow> x = []" for x using b by (simp add: b64_laws_def)
    then have "filter (\<lambda>l. l \<noteq> []) ?ls = ?ls" using ne by (intro filter_True) auto
    ultimately show ?thesis by (simp only:)
  qed
  have dec: "collect_r (template_line b) ?ls = Inr es"
    using es b by (induction es) (auto simp: template_line_def result_simps b64_laws_def check_envelope_def)
  show ?thesis
  proof -
    have mk: "take (length TEMPLATE_MARKER) (TEMPLATE_MARKER @ as_bytes ?t) = TEMPLATE_MARKER"
      "drop (length TEMPLATE_MARKER) (TEMPLATE_MARKER @ as_bytes ?t) = as_bytes ?t" by simp_all
    have rg: "drop (0 + length (tp_open p)) body = (TEMPLATE_MARKER @ as_bytes ?t) @ tp_close p"
      "take (length (TEMPLATE_MARKER @ as_bytes ?t)) ((TEMPLATE_MARKER @ as_bytes ?t) @ tp_close p) = TEMPLATE_MARKER @ as_bytes ?t"
      by (simp_all add: body)
    show ?thesis
      unfolding template_decode_def op Let_def ok_or.simps rbind.simps rg cl [folded append.assoc] mk utf ls dec
      using len by simp
  qed
qed

interpretation html: carrier_codec "template_encode b TP_HTML" "template_decode b TP_HTML" "\<lambda>es. b64_laws b \<and> [] \<notin> set es" for b
  by unfold_locales (use template_decode_encode [OF template_profiles_ok(1)] in blast)

interpretation css: carrier_codec "template_encode b TP_CSS" "template_decode b TP_CSS" "\<lambda>es. b64_laws b \<and> [] \<notin> set es" for b
  by unfold_locales (use template_decode_encode [OF template_profiles_ok(2)] in blast)

interpretation js: carrier_codec "template_encode b TP_JS" "template_decode b TP_JS" "\<lambda>es. b64_laws b \<and> [] \<notin> set es" for b
  by unfold_locales (use template_decode_encode [OF template_profiles_ok(3)] in blast)

interpretation ws: carrier_codec "carrier_encode b Ws" "carrier_decode b Ws" "\<lambda>es. True" for b
  by unfold_locales
    (auto simp: carrier_encode_def carrier_decode_def ws_encode_def ws_decode_def check_envelope_def result_simps
      split: list.splits if_splits)

section \<open>A concrete text encoding\<close>

text \<open>Lowercase hexadecimal satisfies the laws.\<close>

definition hex64 :: base64_crate where
  "hex64 = \<lparr>b64_enc = hex_enc lower_hex, b64_dec = (\<lambda>s. hex_dec lower_hex (string_of_bytes s))\<rparr>"

lemma hex64_laws: "b64_laws hex64"
proof -
  have "set ''0123456789abcdef'' \<subseteq> set B64_ALPHABET" by (simp add: B64_ALPHABET_def)
  moreover have "hex_dec lower_hex (hex_enc lower_hex x) = Some x" "set (hex_enc lower_hex x) \<subseteq> set ''0123456789abcdef''" for x
    using lower_hex_laws unfolding hex_laws_def by blast+
  moreover have "hex_enc lower_hex x = [] \<longleftrightarrow> x = []" for x by (simp add: lower_hex_def)
  ultimately show ?thesis by (auto simp: b64_laws_def hex64_def)
qed

text \<open>A line end that a chunk boundary cuts is read twice: the two data lines of this body are one event, whose
  joined payload is refused; cut between the carriage return and the line feed, the same bytes give two events.\<close>

lemma sse_cut_line_end:
  defines "c1 \<equiv> as_bytes ''data: 01'' @ [CR]" and "c2 \<equiv> [LF] @ as_bytes ''data: 02'' @ [CR, LF, CR, LF]"
  shows "sse_decode hex64 (c1 @ c2) = Inl (InvalidBase64 ''sse event'')"
    and "sse_feeds hex64 sse_new [c1, c2] = (sse_new, Inr [[1], [2]])"
  unfolding c1_def c2_def
  by (simp_all add: sse_decode_def sse_feed_def sse_new_def handle_line_def sse_dispatch_def skip_lf_def Let_def
      LF_def CR_def COLON_def SPACE_def byte_of_char_def char_of_byte_def from_utf8_def valid_utf8_ascii string_of_bytes_def
      hex64_def lower_hex_def to_digit_def limit_defs)

section \<open>Properties\<close>

text \<open>C19: Every carrier delivers the batch it was given: what a carrier encodes, it decodes to exactly the same
  list of envelopes. For the WebSocket, POST, server-sent event and JSON carriers this holds for every batch, empty
  envelopes included; for the three document templates (HTML, CSS, JS), whose decoder skips empty lines, it holds for the
  batches without an empty envelope.\<close>

theorem carrier_roundtrip:
  assumes "b64_laws b" "c \<in> {HtmlProfile, CssProfile, JsProfile} \<longrightarrow> [] \<notin> set es" "carrier_encode b c es = Inr body"
  shows "carrier_decode b c body = Inr es"
  using assms post.dec_enc sse.dec_enc json.dec_enc html.dec_enc css.dec_enc js.dec_enc ws.dec_enc
  by (cases c) (auto simp: carrier_encode_def carrier_decode_def)

theorem carrier_roundtrip_witness:
  "carrier_decode hex64 JsProfile (as_bytes ''/*wsnet:v1:0102'' @ [LF] @ as_bytes ''ff*/'') = Inr [[1, 2], [255]]
   \<and> carrier_decode hex64 Sse (as_bytes ''data: '' @ [LF, LF] @ as_bytes ''data: ff'' @ [LF, LF]) = Inr [[], [255]]"
proof
  show "carrier_decode hex64 JsProfile (as_bytes ''/*wsnet:v1:0102'' @ [LF] @ as_bytes ''ff*/'') = Inr [[1, 2], [255]]"
    by (rule carrier_roundtrip [OF hex64_laws])
      (simp_all add: carrier_encode_def template_encode_def TP_JS_def hex64_def lower_hex_def nibble_char_def
        check_envelope_def TEMPLATE_MARKER_def limit_defs byte_of_char_def)
  show "carrier_decode hex64 Sse (as_bytes ''data: '' @ [LF, LF] @ as_bytes ''data: ff'' @ [LF, LF]) = Inr [[], [255]]"
    by (rule carrier_roundtrip [OF hex64_laws])
      (simp_all add: carrier_encode_def sse_encode_def hex64_def lower_hex_def nibble_char_def check_envelope_def limit_defs byte_of_char_def)
qed

text \<open>C20: A server-sent event stream survives any chunking: however the body that the encoder wrote is cut into
  network chunks, byte by byte or inside a field, feeding them one after another yields exactly the encoded
  envelopes, and the decoder is clean at the end.\<close>

theorem sse_survives_any_chunking:
  assumes b: "b64_laws b" and e: "sse_encode b es = Inr body" and ch: "concat chunks = body"
  shows "\<exists>d. sse_feeds b sse_new chunks = (d, Inr es) \<and> sse_finish d = Inr ()"
proof -
  from e have fit: "\<forall>env \<in> set es. sse_fits b env" and body: "body = concat (map (sse_event b) es)"
    by (auto simp: sse_encode_def sse_encode_loop_Inr)
  have "sse_scan b sse_new (sse_pending sse_new) (concat chunks) [] = (sse_new, Inr ([], es))"
    using scan_events [OF b fit, of sse_new "[]"] by (simp add: ch body sse_new_def)
  then have "sse_feeds b sse_new chunks = (sse_new\<lparr>sse_pending := []\<rparr>, Inr es)"
    by (rule feeds_scan) (use events_no_cr [OF b, of es] short_lines_events [OF fit] in \<open>simp_all add: sse_new_def ch body\<close>)
  then show ?thesis by (simp add: sse_new_def sse_finish_def)
qed

theorem sse_survives_any_chunking_witness:
  "\<exists>d. sse_feeds hex64 sse_new [as_bytes ''dat'', as_bytes ''a: 0'', as_bytes ''102'' @ [LF], [LF] @ as_bytes ''data: ff'' @ [LF, LF]]
     = (d, Inr [[1, 2], [255]]) \<and> sse_finish d = Inr ()"
  by (rule sse_survives_any_chunking [OF hex64_laws, where body = "as_bytes ''data: 0102'' @ [LF, LF] @ as_bytes ''data: ff'' @ [LF, LF]"])
    (simp_all add: sse_encode_def hex64_def lower_hex_def nibble_char_def check_envelope_def limit_defs byte_of_char_def)

text \<open>A POST body is within both of its bounds and determines its batch: an accepted body holds at most 64
  envelopes, each within the carrier bound, and is byte for byte what encoding them gives.\<close>

theorem post_decode_accepts_only_encodings:
  "post_decode body = Inr es \<longleftrightarrow> post_encode es = Inr body"
proof
  assume d: "post_decode body = Inr es"
  then have "post_loop 0 body = Inr es" "length body \<le> MAX_POST_BATCH_BYTES" by (auto simp: post_decode_def split: if_splits)
  from post_loop_bounds [OF this(1)] this(2) show "post_encode es = Inr body"
    by (auto simp: post_encode_def result_simps post_total_Inr)
next
  assume "post_encode es = Inr body"
  then show "post_decode body = Inr es" by (rule post.dec_enc [OF TrueI])
qed

end
