(* ===== verification/Hub_Session.thy ===== *)
theory Hub_Session
  imports Session_Run
begin

text \<open>
  \<open>crates/wsnet-hub/src/session.rs\<close>: one Hub-side session (the engine, the downlink fan-out, the stream sinks and the
  carrier ownership) and the session table. Entries are shared (\<open>Arc\<close>): a handler keeps its entry after the table
  has forgotten it, so entries live in a heap and are named by their index, and the table maps session ids to indices.
  The engine's event and outbound channels are its logs, read here from a cursor; the downlink is the log of what was
  published to the carriers. A sink is the log of what was sent to a stream task.
\<close>

section \<open>Entries\<close>

definition DOWNLINK_CAPACITY :: nat where "DOWNLINK_CAPACITY = 256"

record Sink =
  sink_log :: "SessionEvent list"
  sink_open :: bool                       \<comment> \<open>the task still holds the receiver\<close>

record SessionEntry =
  se_session_id :: bytes
  se_epoch :: bytes
  se_node_id :: string
  se_key_id :: string
  se_expires_at :: int
  se_keys :: SessionKeys
  se_engine :: Session
  se_downlink :: "bytes list"
  se_closed :: bool
  se_events_read :: nat
  se_outbound_read :: nat
  se_streams :: "(nat \<times> Sink) list"
  se_next_sse :: nat
  se_sse_owner :: "nat option"
  se_next_ws :: nat
  se_ws_owner :: "nat option"

definition entry_new :: "bytes \<Rightarrow> bytes \<Rightarrow> string \<Rightarrow> string \<Rightarrow> int \<Rightarrow> SessionKeys \<Rightarrow> Session \<Rightarrow> SessionEntry" where
  "entry_new session_id epoch node_id key_id expires_at ks session =
     \<lparr>se_session_id = session_id, se_epoch = epoch, se_node_id = node_id, se_key_id = key_id,
      se_expires_at = expires_at, se_keys = ks, se_engine = session, se_downlink = [], se_closed = False,
      se_events_read = 0, se_outbound_read = 0, se_streams = [], se_next_sse = 0, se_sse_owner = None,
      se_next_ws = 0, se_ws_owner = None\<rparr>"

definition claim_sse_owner :: "SessionEntry \<Rightarrow> SessionEntry \<times> nat" where
  "claim_sse_owner e =
     (let g = (se_next_sse e + 1) mod 2 ^ 64 in (e\<lparr>se_next_sse := g, se_sse_owner := Some g\<rparr>, g))"

definition owns_sse :: "SessionEntry \<Rightarrow> nat \<Rightarrow> bool" where
  "owns_sse e g \<longleftrightarrow> se_sse_owner e = Some g"

definition claim_ws_owner :: "SessionEntry \<Rightarrow> SessionEntry \<times> nat" where
  "claim_ws_owner e =
     (let g = (se_next_ws e + 1) mod 2 ^ 64 in (e\<lparr>se_next_ws := g, se_ws_owner := Some g\<rparr>, g))"

definition owns_ws :: "SessionEntry \<Rightarrow> nat \<Rightarrow> bool" where
  "owns_ws e g \<longleftrightarrow> se_ws_owner e = Some g"

definition claim_stream :: "SessionEntry \<Rightarrow> nat \<Rightarrow> SessionEntry \<times> bool" where
  "claim_stream e sid =
     (if map_of (se_streams e) sid \<noteq> None then (e, False)
      else (e\<lparr>se_streams := hm_insert sid \<lparr>sink_log = [], sink_open = True\<rparr> (se_streams e)\<rparr>, True))"

definition unregister_stream :: "SessionEntry \<Rightarrow> nat \<Rightarrow> SessionEntry" where
  "unregister_stream e sid = e\<lparr>se_streams := hm_remove sid (se_streams e)\<rparr>"

definition route_stream_event :: "SessionEntry \<Rightarrow> nat \<Rightarrow> SessionEvent \<Rightarrow> SessionEntry \<times> bool" where
  "route_stream_event e sid ev =
     (case map_of (se_streams e) sid of
        None \<Rightarrow> (e, False)
      | Some sink \<Rightarrow>
          if sink_open sink
          then (e\<lparr>se_streams := hm_insert sid (sink\<lparr>sink_log := sink_log sink @ [ev]\<rparr>) (se_streams e)\<rparr>, True)
          else (e, False))"

definition close_streams :: "SessionEntry \<Rightarrow> SessionEntry" where
  "close_streams e = e\<lparr>se_streams := []\<rparr>"

definition live_streams :: "SessionEntry \<Rightarrow> nat" where
  "live_streams e = length (se_streams e)"

text \<open>Moving what the engine produced: everything from the cursor on.\<close>

definition flush_outbound :: "SessionEntry \<Rightarrow> SessionEntry" where
  "flush_outbound e =
     e\<lparr>se_downlink := se_downlink e @ drop (se_outbound_read e) (outbound (se_engine e)),
       se_outbound_read := length (outbound (se_engine e))\<rparr>"

definition drain_events :: "SessionEntry \<Rightarrow> SessionEntry \<times> SessionEvent list" where
  "drain_events e =
     (let e = flush_outbound e in
      (e\<lparr>se_events_read := length (events (se_engine e))\<rparr>, drop (se_events_read e) (events (se_engine e))))"

definition needs_pump :: "SessionEntry \<Rightarrow> bool" where
  "needs_pump e \<longleftrightarrow> se_events_read e < length (events (se_engine e)) \<or> se_outbound_read e < length (outbound (se_engine e))"

primrec state_name :: "SessionState \<Rightarrow> string" where
  "state_name StOffline = ''offline''"
| "state_name StAuthenticating = ''authenticating''"
| "state_name StBinding = ''binding''"
| "state_name StHelloPending = ''hello-pending''"
| "state_name StReady = ''ready''"
| "state_name StDegraded = ''degraded''"
| "state_name StClosed = ''closed''"

section \<open>The table\<close>

type_synonym entries = "SessionEntry list"

definition update_entry :: "entries \<Rightarrow> nat \<Rightarrow> (SessionEntry \<Rightarrow> SessionEntry) \<Rightarrow> entries" where
  "update_entry es r f = es[r := f (es ! r)]"

record Sessions =
  ss_heap :: entries
  ss_table :: "(bytes \<times> nat) list"

definition sessions_new :: Sessions where
  "sessions_new = \<lparr>ss_heap = [], ss_table = []\<rparr>"

definition sessions_insert :: "Sessions \<Rightarrow> SessionEntry \<Rightarrow> Sessions \<times> nat" where
  "sessions_insert s e =
     (let r = length (ss_heap s) in
      (s\<lparr>ss_heap := ss_heap s @ [e], ss_table := hm_insert (se_session_id e) r (ss_table s)\<rparr>, r))"

definition sessions_get :: "Sessions \<Rightarrow> bytes \<Rightarrow> nat option" where
  "sessions_get s session_id = map_of (ss_table s) session_id"

definition remove_if_epoch :: "Sessions \<Rightarrow> bytes \<Rightarrow> bytes \<Rightarrow> Sessions \<times> bool" where
  "remove_if_epoch s session_id epoch =
     (case map_of (ss_table s) session_id of
        Some r \<Rightarrow>
          if se_epoch (ss_heap s ! r) = epoch then (s\<lparr>ss_table := hm_remove session_id (ss_table s)\<rparr>, True) else (s, False)
      | None \<Rightarrow> (s, False))"

definition sessions_len :: "Sessions \<Rightarrow> nat" where
  "sessions_len s = length (ss_table s)"

definition sessions_snapshot :: "Sessions \<Rightarrow> nat list" where
  "sessions_snapshot s = map snd (ss_table s)"

definition sessions_expired :: "Sessions \<Rightarrow> int \<Rightarrow> nat list" where
  "sessions_expired s now = filter (\<lambda>r. se_expires_at (ss_heap s ! r) < now) (map snd (ss_table s))"

text \<open>A call of the engine handle of one entry.\<close>

definition engine_call :: "(Session \<Rightarrow> 'a outcome) \<Rightarrow> entries \<Rightarrow> nat \<Rightarrow> entries \<times> (SessionError + 'a)" where
  "engine_call f es r =
     (let (s, res) = f (se_engine (es ! r)) in (update_entry es r (\<lambda>e. e\<lparr>se_engine := s\<rparr>), res))"

definition engine_do :: "(Session \<Rightarrow> Session) \<Rightarrow> entries \<Rightarrow> nat \<Rightarrow> entries" where
  "engine_do f es r = update_entry es r (\<lambda>e. e\<lparr>se_engine := f (se_engine e)\<rparr>)"

section \<open>Facts\<close>

lemma length_update_entry [simp]: "length (update_entry es r f) = length es"
  by (simp add: update_entry_def)

lemma nth_update_entry: "r < length es \<Longrightarrow> update_entry es r f ! r' = (if r' = r then f (es ! r) else es ! r')"
  by (simp add: update_entry_def nth_list_update)

text \<open>The downlink is always what the engine sent up to the cursor, in order and without loss.\<close>

definition entry_inv :: "SessionEntry \<Rightarrow> bool" where
  "entry_inv e \<longleftrightarrow> se_outbound_read e \<le> length (outbound (se_engine e))
     \<and> se_downlink e = take (se_outbound_read e) (outbound (se_engine e))
     \<and> se_events_read e \<le> length (events (se_engine e))"

lemma flush_inv: "entry_inv e \<Longrightarrow> entry_inv (flush_outbound e) \<and> se_downlink (flush_outbound e) = outbound (se_engine e)"
  by (simp add: entry_inv_def flush_outbound_def)

lemma drain_inv:
  "entry_inv e \<Longrightarrow> drain_events e = (e', evs) \<Longrightarrow>
   entry_inv e' \<and> take (se_events_read e) (events (se_engine e)) @ evs = events (se_engine e')"
  by (auto simp: entry_inv_def drain_events_def flush_outbound_def Let_def)

text \<open>A generation that was replaced is never the owner again, as long as the counter has not gone round.\<close>

lemma claim_sse_replaces:
  "claim_sse_owner e = (e', g) \<Longrightarrow> se_next_sse e + 1 < 2 ^ 64 \<Longrightarrow> se_next_sse e < g \<and> owns_sse e' g \<and> (\<forall>g' \<noteq> g. \<not> owns_sse e' g')"
  by (auto simp: claim_sse_owner_def owns_sse_def Let_def)

end
