(* ===== verification/Guard.thy ===== *)
theory Guard
  imports Complex_Main Net Budgets
begin

text \<open>
  \<open>crates/wsnet-hub/src/guard.rs\<close>: the per-source budgets of the Hub. The token bucket works on \<open>f64\<close> values: a value
  is the rational number it denotes and every operation is the exact one followed by the rounding \<open>rnd\<close>, of which only
  the IEEE laws in \<open>f64_rounding\<close> are used: monotone, exact on the integers up to \<open>2 ^ 53\<close>, and for the finite range a relative
  error of \<open>2 ^ -53\<close> plus, for the subnormal results, an absolute error of half the smallest subnormal, \<open>2 ^ -1075\<close>.
\<close>

section \<open>Budgets\<close>

datatype GuardError = TooManyConnections | RateLimited

record Bucket =
  bk_tokens :: rat
  bk_last_ms :: nat

record DosGuards =
  dg_connections :: "(IpAddr \<times> nat) list"
  dg_buckets :: "(IpAddr \<times> Bucket) list"

definition guards_new :: DosGuards where
  "guards_new = \<lparr>dg_connections = [], dg_buckets = []\<rparr>"

definition begin_unauthenticated :: "DosGuards \<Rightarrow> IpAddr \<Rightarrow> DosGuards \<times> (GuardError + IpAddr)" where
  "begin_unauthenticated g ip =
     (let n = (case map_of (dg_connections g) ip of Some n \<Rightarrow> n | None \<Rightarrow> 0) in
      if n \<ge> MAX_UNAUTH_CONNECTIONS_PER_IP
      then (g\<lparr>dg_connections := hm_insert ip n (dg_connections g)\<rparr>, Inl TooManyConnections)
      else (g\<lparr>dg_connections := hm_insert ip (n + 1) (dg_connections g)\<rparr>, Inr ip))"

text \<open>\<open>Drop\<close> of the charged connection.\<close>

definition drop_unauthenticated :: "DosGuards \<Rightarrow> IpAddr \<Rightarrow> DosGuards" where
  "drop_unauthenticated g ip =
     (case map_of (dg_connections g) ip of
        None \<Rightarrow> g
      | Some n \<Rightarrow>
          if n - 1 = 0 then g\<lparr>dg_connections := hm_remove ip (dg_connections g)\<rparr>
          else g\<lparr>dg_connections := hm_insert ip (n - 1) (dg_connections g)\<rparr>)"

definition refill :: "(rat \<Rightarrow> rat) \<Rightarrow> nat \<Rightarrow> rat" where
  "refill rnd elapsed_ms = rnd (rnd (rnd (of_nat elapsed_ms) / 1000) * of_nat AUTH_RATE_PER_SEC)"

definition spend_auth_token :: "(rat \<Rightarrow> rat) \<Rightarrow> DosGuards \<Rightarrow> IpAddr \<Rightarrow> nat \<Rightarrow> DosGuards \<times> (GuardError + unit)" where
  "spend_auth_token rnd g ip now_ms =
     (let b = (case map_of (dg_buckets g) ip of Some b \<Rightarrow> b | None \<Rightarrow> \<lparr>bk_tokens = of_nat AUTH_BURST, bk_last_ms = now_ms\<rparr>);
          t = min (rnd (bk_tokens b + refill rnd (now_ms - bk_last_ms b))) (of_nat AUTH_BURST)
      in if t < 1 then (g\<lparr>dg_buckets := hm_insert ip \<lparr>bk_tokens = t, bk_last_ms = now_ms\<rparr> (dg_buckets g)\<rparr>, Inl RateLimited)
         else (g\<lparr>dg_buckets := hm_insert ip \<lparr>bk_tokens = rnd (t - 1), bk_last_ms = now_ms\<rparr> (dg_buckets g)\<rparr>, Inr ()))"

definition unauthenticated_for :: "DosGuards \<Rightarrow> IpAddr \<Rightarrow> nat" where
  "unauthenticated_for g ip = (case map_of (dg_connections g) ip of Some n \<Rightarrow> n | None \<Rightarrow> 0)"

section \<open>Rounding\<close>

definition half_subnormal :: rat where
  "half_subnormal = 1 / 2 ^ 1075"

definition f64_rounding :: "(rat \<Rightarrow> rat) \<Rightarrow> bool" where
  "f64_rounding rnd \<longleftrightarrow> mono rnd \<and> (\<forall>n \<le> 2 ^ 53. rnd (of_nat n) = of_nat n)
     \<and> (\<forall>x. 0 \<le> x \<and> x \<le> 2 ^ 1023 \<longrightarrow> rnd x \<le> x + x / 2 ^ 53 + half_subnormal)"

lemma half_subnormal_bounds: "0 \<le> half_subnormal" "half_subnormal \<le> 1 / 2 ^ 60"
  by (simp_all add: half_subnormal_def frac_le)

lemma rounding_facts:
  assumes "f64_rounding rnd"
  shows "x \<le> y \<Longrightarrow> rnd x \<le> rnd y" "n \<le> 2 ^ 53 \<Longrightarrow> rnd (of_nat n) = of_nat n"
    "0 \<le> x \<Longrightarrow> x \<le> 2 ^ 60 \<Longrightarrow> rnd x \<le> x * (1 + 1 / 2 ^ 53) + 1 / 2 ^ 60" "0 \<le> x \<Longrightarrow> 0 \<le> rnd x"
proof -
  have m: "mono rnd" and i: "\<And>n. n \<le> 2 ^ 53 \<Longrightarrow> rnd (of_nat n) = of_nat n"
    and e: "\<And>x. 0 \<le> x \<Longrightarrow> x \<le> 2 ^ 1023 \<Longrightarrow> rnd x \<le> x + x / 2 ^ 53 + half_subnormal"
    using assms by (auto simp: f64_rounding_def)
  show "x \<le> y \<Longrightarrow> rnd x \<le> rnd y" using m by (rule monoD)
  show "n \<le> 2 ^ 53 \<Longrightarrow> rnd (of_nat n) = of_nat n" by (rule i)
  show "rnd x \<le> x * (1 + 1 / 2 ^ 53) + 1 / 2 ^ 60" if "0 \<le> x" "x \<le> 2 ^ 60"
  proof -
    have "(2 :: rat) ^ 60 \<le> 2 ^ 1023" by (rule power_increasing) simp_all
    with that(2) have "x \<le> 2 ^ 1023" by (rule order_trans)
    with e [OF that(1)] half_subnormal_bounds(2) have "rnd x \<le> x + x / 2 ^ 53 + 1 / 2 ^ 60" by (meson add_left_mono order_trans)
    then show ?thesis by (simp only: distrib_left mult_1_right times_divide_eq_right)
  qed
  show "0 \<le> x \<Longrightarrow> 0 \<le> rnd x" using monoD [OF m, of 0 x] i [of 0] by simp
qed

definition rate_factor :: rat where
  "rate_factor = (1 + 1 / 2 ^ 53) ^ 2"

lemma refill_nonneg:
  assumes "f64_rounding rnd"
  shows "0 \<le> refill rnd e"
  unfolding refill_def by (intro rounding_facts(4) [OF assms] mult_nonneg_nonneg divide_nonneg_nonneg) simp_all

lemma refill_zero:
  assumes "f64_rounding rnd"
  shows "refill rnd 0 = 0"
  using rounding_facts(2) [OF assms, of 0] by (simp add: refill_def)

lemma refill_bound:
  assumes "f64_rounding rnd" and e: "e \<le> 2 ^ 40"
  shows "refill rnd e \<le> of_nat e / 200 * rate_factor + 7 / 2 ^ 60"
proof -
  note r = rounding_facts [OF assms(1)]
  define k :: rat where "k = 1 + 1 / 2 ^ 53"
  note r3 = r(3) [folded k_def]
  have k: "0 \<le> k" "5 / 2 ^ 60 * k \<le> 6 / 2 ^ 60" and f: "rate_factor = k ^ 2" by (simp_all add: k_def rate_factor_def)
  have e40: "(of_nat e :: rat) \<le> 2 ^ 40" using e of_nat_le_iff [of e "2 ^ 40", where ?'a = rat] by simp
  have "e \<le> 2 ^ 53" using e by simp
  then have ex: "rnd (of_nat e) = of_nat e" by (rule r(2))
  let ?b = "rnd (of_nat e / 1000)"
  have b: "0 \<le> ?b" "?b \<le> of_nat e / 1000 * k + 1 / 2 ^ 60"
    using r(4) [of "of_nat e / 1000"] r3 [of "of_nat e / 1000"] e40 by simp_all
  have "of_nat e / 1000 * k \<le> 2 ^ 40 / 1000 * k" using e40 k by (intro mult_right_mono divide_right_mono) simp_all
  also have "\<dots> \<le> 2 ^ 40" by (simp add: k_def)
  finally have "?b * 5 \<le> 2 ^ 60" using b(2) by simp
  with b(1) have "rnd (?b * 5) \<le> ?b * 5 * k + 1 / 2 ^ 60" using r3 [of "?b * 5"] by simp
  also have "?b * 5 * k \<le> (of_nat e / 1000 * k + 1 / 2 ^ 60) * 5 * k"
    using b(2) k(1) by (intro mult_right_mono) simp_all
  also have "(of_nat e / 1000 * k + 1 / 2 ^ 60) * 5 * k = of_nat e / 200 * rate_factor + 5 / 2 ^ 60 * k"
    by (simp add: f power2_eq_square field_simps)
  finally have "rnd (?b * 5) \<le> of_nat e / 200 * rate_factor + 7 / 2 ^ 60" using k(2) by simp
  then show ?thesis by (simp add: refill_def ex AUTH_RATE_PER_SEC_def)
qed

section \<open>One attempt\<close>

text \<open>A source without a bucket is a source with a full one, whenever it was last looked at.\<close>

definition bucket_of :: "nat \<Rightarrow> DosGuards \<Rightarrow> IpAddr \<Rightarrow> Bucket" where
  "bucket_of l g ip = (case map_of (dg_buckets g) ip of Some b \<Rightarrow> b | None \<Rightarrow> \<lparr>bk_tokens = 10, bk_last_ms = l\<rparr>)"

definition bucket_ok :: "nat \<Rightarrow> Bucket \<Rightarrow> bool" where
  "bucket_ok l b \<longleftrightarrow> 0 \<le> bk_tokens b \<and> bk_tokens b \<le> 10 \<and> bk_last_ms b \<le> l"

definition tiny :: rat where
  "tiny = 22 / 2 ^ 53"

lemma scaled_le:
  fixes x c :: rat
  assumes "x \<le> c"
  shows "x * (1 + 1 / 2 ^ 53) \<le> x + c / 2 ^ 53"
proof -
  have "x * (1 + 1 / 2 ^ 53) = x + x / 2 ^ 53" by (simp only: distrib_left mult_1_right times_divide_eq_right)
  moreover have "x / 2 ^ 53 \<le> c / 2 ^ 53" using assms by (intro divide_right_mono) simp_all
  ultimately show ?thesis by simp
qed

text \<open>What one attempt of the source itself does: the bucket keeps within the burst, whatever it held and however long ago
  it was last looked at.\<close>

lemma spend_own:
  assumes rnd: "f64_rounding rnd" and ok: "bucket_ok l (bucket_of l g ip)" and now: "l \<le> now"
    and sp: "spend_auth_token rnd g ip now = (g', r)"
  defines "b \<equiv> bucket_of l g ip"
  defines "t \<equiv> min (rnd (bk_tokens b + refill rnd (now - bk_last_ms b))) 10"
  shows "bucket_of now g' ip = \<lparr>bk_tokens = (if t < 1 then t else rnd (t - 1)), bk_last_ms = now\<rparr>"
    "r = (if t < 1 then Inl RateLimited else Inr ())"
    "bucket_ok now (bucket_of now g' ip)"
    "bk_tokens (bucket_of now g' ip) + (if r = Inr () then 1 else 0) \<le> t + 11 / 2 ^ 53"
proof -
  note r = rounding_facts [OF rnd]
  have r10: "rnd 10 = 10" using r(2) [of 10] by simp
  have full: "min (rnd (10 + refill rnd e)) 10 = 10" for e
    using r(1) [of 10 "10 + refill rnd e"] refill_nonneg [OF rnd] r10 by simp
  have t_eq: "t = min (rnd (bk_tokens (case map_of (dg_buckets g) ip of Some b \<Rightarrow> b | None \<Rightarrow> \<lparr>bk_tokens = 10, bk_last_ms = now\<rparr>)
      + refill rnd (now - bk_last_ms (case map_of (dg_buckets g) ip of Some b \<Rightarrow> b | None \<Rightarrow> \<lparr>bk_tokens = 10, bk_last_ms = now\<rparr>)))) 10"
    unfolding t_def b_def bucket_of_def by (cases "map_of (dg_buckets g) ip") (simp_all add: full)
  have "0 \<le> bk_tokens b" using ok by (simp add: bucket_ok_def b_def)
  then have t: "0 \<le> t" "t \<le> 10"
    using r(4) [of "bk_tokens b + refill rnd (now - bk_last_ms b)"] refill_nonneg [OF rnd, of "now - bk_last_ms b"] by (simp_all add: t_def)
  have down: "0 \<le> rnd (t - 1)" "rnd (t - 1) \<le> t - 1 + 11 / 2 ^ 53" "rnd (t - 1) \<le> 10" if "1 \<le> t"
  proof -
    show "0 \<le> rnd (t - 1)" using r(4) that by simp
    have "rnd (t - 1) \<le> (t - 1) * (1 + 1 / 2 ^ 53) + 1 / 2 ^ 60" by (rule r(3)) (use that t(2) in simp_all)
    also have "(t - 1) * (1 + 1 / 2 ^ 53) \<le> t - 1 + 10 / 2 ^ 53" by (rule scaled_le) (use t(2) in simp)
    finally show "rnd (t - 1) \<le> t - 1 + 11 / 2 ^ 53" by simp
    show "rnd (t - 1) \<le> 10" using r(1) [of "t - 1" 10] t(2) r10 by simp
  qed
  have burst: "(of_nat AUTH_BURST :: rat) = 10" by (simp add: AUTH_BURST_def)
  from sp show res: "bucket_of now g' ip = \<lparr>bk_tokens = (if t < 1 then t else rnd (t - 1)), bk_last_ms = now\<rparr>"
    "r = (if t < 1 then Inl RateLimited else Inr ())"
    unfolding spend_auth_token_def Let_def burst t_eq [symmetric] by (auto simp: bucket_of_def update_conv' split: if_splits)
  show "bucket_ok now (bucket_of now g' ip)"
    using t down by (auto simp: res bucket_ok_def not_less)
  show "bk_tokens (bucket_of now g' ip) + (if r = Inr () then 1 else 0) \<le> t + 11 / 2 ^ 53"
    using down(2) by (auto simp: res)
qed

lemma spend_own_burst:
  assumes "f64_rounding rnd" "bucket_ok l (bucket_of l g ip)" "l \<le> now" "spend_auth_token rnd g ip now = (g', r)"
  shows "bk_tokens (bucket_of now g' ip) + (if r = Inr () then 1 else 0) \<le> 10 + tiny"
  using spend_own(4) [OF assms] by (simp add: tiny_def min_le_iff_disj min_def split: if_splits)

lemma spend_own_rate:
  assumes rnd: "f64_rounding rnd" and ok: "bucket_ok l (bucket_of l g ip)" and now: "l \<le> now"
    and sp: "spend_auth_token rnd g ip now = (g', r)" and short: "now - bk_last_ms (bucket_of l g ip) \<le> 2 ^ 40"
  shows "bk_tokens (bucket_of now g' ip) + (if r = Inr () then 1 else 0)
       \<le> bk_tokens (bucket_of l g ip) + of_nat (now - bk_last_ms (bucket_of l g ip)) / 200 * rate_factor + tiny"
proof -
  let ?b = "bucket_of l g ip"
  let ?f = "refill rnd (now - bk_last_ms ?b)"
  let ?t = "min (rnd (bk_tokens ?b + ?f)) 10"
  have tb: "0 \<le> bk_tokens ?b" using ok by (simp add: bucket_ok_def)
  note f0 = refill_nonneg [OF rnd, of "now - bk_last_ms ?b"] and fb = refill_bound [OF rnd short]
  have up: "?t \<le> bk_tokens ?b + ?f + 10 / 2 ^ 53 + 1 / 2 ^ 60"
  proof (cases "10 \<le> bk_tokens ?b + ?f")
    case True
    then show ?thesis by (simp add: add_increasing2 min.coboundedI2)
  next
    case False
    have "?t \<le> rnd (bk_tokens ?b + ?f)" by simp
    also have "\<dots> \<le> (bk_tokens ?b + ?f) * (1 + 1 / 2 ^ 53) + 1 / 2 ^ 60"
      by (rule rounding_facts(3) [OF rnd]) (use tb f0 False in simp_all)
    also have "(bk_tokens ?b + ?f) * (1 + 1 / 2 ^ 53) \<le> bk_tokens ?b + ?f + 10 / 2 ^ 53" by (rule scaled_le) (use False in simp)
    finally show ?thesis by simp
  qed
  define x where "x = bk_tokens (bucket_of now g' ip) + (if r = Inr () then 1 else 0)"
  define y where "y = of_nat (now - bk_last_ms ?b) / 200 * rate_factor"
  have "x \<le> ?t + 11 / 2 ^ 53" using spend_own(4) [OF rnd ok now sp] by (simp only: x_def)
  moreover have "?f \<le> y + 7 / 2 ^ 60" using fb by (simp only: y_def)
  ultimately have "x \<le> bk_tokens ?b + y + tiny" using up unfolding tiny_def by simp
  then show ?thesis by (simp only: x_def y_def)
qed

section \<open>Runs of attempts\<close>

fun spend_run :: "(rat \<Rightarrow> rat) \<Rightarrow> DosGuards \<Rightarrow> (IpAddr \<times> nat) list \<Rightarrow> (GuardError + unit) list" where
  "spend_run rnd g [] = []"
| "spend_run rnd g ((ip, now) # r) = (let (g, res) = spend_auth_token rnd g ip now in res # spend_run rnd g r)"

fun spend_state :: "(rat \<Rightarrow> rat) \<Rightarrow> DosGuards \<Rightarrow> (IpAddr \<times> nat) list \<Rightarrow> DosGuards" where
  "spend_state rnd g [] = g"
| "spend_state rnd g ((ip, now) # r) = spend_state rnd (fst (spend_auth_token rnd g ip now)) r"

text \<open>How many of the attempts of one source were granted.\<close>

definition grants :: "(rat \<Rightarrow> rat) \<Rightarrow> DosGuards \<Rightarrow> IpAddr \<Rightarrow> (IpAddr \<times> nat) list \<Rightarrow> nat" where
  "grants rnd g ip atts = length (filter (\<lambda>((ip', _), r). ip' = ip \<and> r = Inr ()) (zip atts (spend_run rnd g atts)))"

lemma grants_Cons:
  "spend_auth_token rnd g ip' now = (g', r) \<Longrightarrow>
   grants rnd g ip ((ip', now) # atts) = (if ip' = ip \<and> r = Inr () then 1 else 0) + grants rnd g' ip atts"
  by (simp add: grants_def)

lemma spend_keeps_bucket:
  assumes rnd: "f64_rounding rnd" and ok: "bucket_ok l (bucket_of l g ip)" and now: "l \<le> now"
    and sp: "spend_auth_token rnd g ip' now = (g', r)"
  shows "bucket_ok now (bucket_of now g' ip)"
proof (cases "ip' = ip")
  case True
  with spend_own(3) [OF rnd ok now] sp show ?thesis by simp
next
  case False
  have "map_of (dg_buckets g') ip = map_of (dg_buckets g) ip"
    using sp False by (auto simp: spend_auth_token_def Let_def update_conv' split: if_splits)
  then show ?thesis using ok now by (auto simp: bucket_of_def bucket_ok_def split: option.splits)
qed

lemma spend_state_bucket:
  assumes rnd: "f64_rounding rnd"
  shows "bucket_ok l (bucket_of l g ip) \<Longrightarrow> sorted (l # map snd past) \<Longrightarrow>
     bucket_ok (last (l # map snd past)) (bucket_of (last (l # map snd past)) (spend_state rnd g past) ip)"
proof (induction past arbitrary: l g)
  case (Cons a past)
  obtain ip' now where a: "a = (ip', now)" by fastforce
  obtain g' r where sp: "spend_auth_token rnd g ip' now = (g', r)" by fastforce
  have now: "l \<le> now" and srt: "sorted (now # map snd past)" using Cons.prems(2) by (simp_all add: a)
  from Cons.IH [OF spend_keeps_bucket [OF rnd Cons.prems(1) now sp] srt] show ?case by (simp add: a sp)
qed simp

lemma sorted_last_ge: "sorted (n # ns) \<Longrightarrow> (n :: nat) \<le> last (n # ns)"
  using last_in_set [of ns] by (cases "ns = []") auto

lemma grants_bound:
  assumes rnd: "f64_rounding rnd"
  shows "bucket_ok l (bucket_of l g ip) \<Longrightarrow> sorted (l # map snd atts) \<Longrightarrow>
     last (l # map snd atts) - bk_last_ms (bucket_of l g ip) \<le> 2 ^ 40 \<Longrightarrow>
     of_nat (grants rnd g ip atts) \<le> bk_tokens (bucket_of l g ip)
       + of_nat (last (l # map snd atts) - bk_last_ms (bucket_of l g ip)) / 200 * rate_factor + of_nat (length atts) * tiny"
proof (induction atts arbitrary: l g)
  case Nil
  have "0 \<le> rate_factor" by (simp add: rate_factor_def)
  with Nil show ?case by (simp add: grants_def bucket_ok_def)
next
  case (Cons a atts)
  obtain ip' now where a: "a = (ip', now)" by fastforce
  obtain g' r where sp: "spend_auth_token rnd g ip' now = (g', r)" by fastforce
  have now: "l \<le> now" and srt: "sorted (now # map snd atts)" using Cons.prems(2) by (simp_all add: a)
  let ?e = "last (now # map snd atts)" and ?b = "bucket_of l g ip" and ?b' = "bucket_of now g' ip"
  have end_le: "now \<le> ?e" using srt by (rule sorted_last_ge)
  have short: "?e - bk_last_ms ?b \<le> 2 ^ 40" using Cons.prems(3) by (simp add: a)
  have lb: "bk_last_ms ?b \<le> l" using Cons.prems(1) by (simp add: bucket_ok_def)
  have tiny: "0 \<le> tiny" by (simp add: tiny_def)
  have rf: "0 \<le> rate_factor" by (simp add: rate_factor_def)
  note ok' = spend_keeps_bucket [OF rnd Cons.prems(1) now sp]
  show ?case
  proof (cases "ip' = ip")
    case True
    note sp' = sp [unfolded True]
    have l': "bk_last_ms ?b' = now" using spend_own(1) [OF rnd Cons.prems(1) now sp'] by simp
    have "now - bk_last_ms ?b \<le> 2 ^ 40" using short end_le by linarith
    note own = spend_own_rate [OF rnd Cons.prems(1) now sp' this]
    have split: "(of_nat (?e - bk_last_ms ?b) :: rat) = of_nat (?e - now) + of_nat (now - bk_last_ms ?b)"
      using end_le now lb by (simp flip: of_nat_add)
    have "?e - bk_last_ms ?b' \<le> 2 ^ 40" using short now lb l' by linarith
    then have "of_nat (grants rnd g' ip atts) \<le> bk_tokens ?b' + of_nat (?e - now) / 200 * rate_factor + of_nat (length atts) * tiny"
      using Cons.IH [OF ok' srt] l' by simp
    then have "of_nat (grants rnd g ip ((ip, now) # atts)) \<le> (bk_tokens ?b' + (if r = Inr () then 1 else 0))
        + of_nat (?e - now) / 200 * rate_factor + of_nat (length atts) * tiny"
      using sp True by (simp add: grants_Cons)
    also have "\<dots> \<le> bk_tokens ?b + of_nat (now - bk_last_ms ?b) / 200 * rate_factor + tiny
        + of_nat (?e - now) / 200 * rate_factor + of_nat (length atts) * tiny" using own by linarith
    also have "\<dots> = bk_tokens ?b + of_nat (?e - bk_last_ms ?b) / 200 * rate_factor + of_nat (length ((ip, now) # atts)) * tiny"
      unfolding split by (simp add: algebra_simps add_divide_distrib)
    finally show ?thesis using a True by simp
  next
    case False
    have same: "map_of (dg_buckets g') ip = map_of (dg_buckets g) ip"
      using sp False by (auto simp: spend_auth_token_def Let_def update_conv' split: if_splits)
    then have b': "bk_tokens ?b' = bk_tokens ?b" "bk_last_ms ?b \<le> bk_last_ms ?b'"
      using Cons.prems(1) now by (auto simp: bucket_of_def bucket_ok_def split: option.splits)
    have "(of_nat (?e - bk_last_ms ?b') :: rat) \<le> of_nat (?e - bk_last_ms ?b)" using b'(2) by simp
    then have "of_nat (?e - bk_last_ms ?b') / 200 * rate_factor \<le> of_nat (?e - bk_last_ms ?b) / 200 * rate_factor"
      using rf by (intro mult_right_mono divide_right_mono) simp_all
    moreover have "grants rnd g ip (a # atts) = grants rnd g' ip atts" using sp False by (simp add: a grants_Cons)
    moreover have "?e - bk_last_ms ?b' \<le> 2 ^ 40" using short b'(2) by linarith
    then have "of_nat (grants rnd g' ip atts) \<le> bk_tokens ?b
        + of_nat (?e - bk_last_ms ?b') / 200 * rate_factor + of_nat (length atts) * tiny"
      using Cons.IH [OF ok' srt] b'(1) by simp
    ultimately show ?thesis using tiny by (simp add: a algebra_simps)
  qed
qed

text \<open>However long the source has been idle, a window starts with at most the burst.\<close>

lemma window_bound:
  assumes rnd: "f64_rounding rnd"
  shows "bucket_ok l (bucket_of l g ip) \<Longrightarrow> sorted (l # now # map snd atts) \<Longrightarrow> last (now # map snd atts) - now \<le> 2 ^ 40 \<Longrightarrow>
     of_nat (grants rnd g ip ((ip', now) # atts))
       \<le> 10 + of_nat (last (now # map snd atts) - now) / 200 * rate_factor + of_nat (Suc (length atts)) * tiny"
proof (induction atts arbitrary: l g ip' now)
  case Nil
  obtain g' r where sp: "spend_auth_token rnd g ip' now = (g', r)" by fastforce
  then show ?case by (simp add: grants_Cons) (simp add: grants_def tiny_def)
next
  case (Cons a atts)
  obtain ip2 now2 where a: "a = (ip2, now2)" by fastforce
  obtain g' r where sp: "spend_auth_token rnd g ip' now = (g', r)" by fastforce
  have now: "l \<le> now" and srt: "sorted (now # now2 # map snd atts)" using Cons.prems(2) by (simp_all add: a)
  note ok' = spend_keeps_bucket [OF rnd Cons.prems(1) now sp]
  let ?e = "last (now2 # map snd atts)"
  have e: "last (now # map snd (a # atts)) = ?e" by (simp add: a)
  have rf: "0 \<le> rate_factor" by (simp add: rate_factor_def)
  show ?case
  proof (cases "ip' = ip")
    case True
    note sp' = sp [unfolded True]
    have l': "bk_last_ms (bucket_of now g' ip) = now" using spend_own(1) [OF rnd Cons.prems(1) now sp'] by simp
    have "of_nat (grants rnd g' ip (a # atts)) \<le> bk_tokens (bucket_of now g' ip)
        + of_nat (?e - now) / 200 * rate_factor + of_nat (Suc (length atts)) * tiny"
      using grants_bound [OF rnd ok', of "a # atts"] srt Cons.prems(3) l' by (simp add: a)
    with spend_own_burst [OF rnd Cons.prems(1) now sp'] show ?thesis
      unfolding e using sp True by (simp add: grants_Cons algebra_simps split: if_splits)
  next
    case False
    have le: "now \<le> now2" using srt by simp
    then have "(of_nat (?e - now2) :: rat) \<le> of_nat (?e - now)" by simp
    then have "of_nat (?e - now2) / 200 * rate_factor \<le> of_nat (?e - now) / 200 * rate_factor"
      using rf by (intro mult_right_mono divide_right_mono) simp_all
    moreover have "?e - now2 \<le> 2 ^ 40" using Cons.prems(3) le e by linarith
    with Cons.IH [OF ok' srt] have "of_nat (grants rnd g' ip (a # atts))
        \<le> 10 + of_nat (?e - now2) / 200 * rate_factor + of_nat (Suc (length atts)) * tiny" by (simp add: a)
    moreover have "of_nat (Suc (length atts)) * tiny \<le> of_nat (Suc (length (a # atts))) * tiny"
      by (intro mult_right_mono) (simp_all add: tiny_def)
    moreover have "grants rnd g ip ((ip', now) # a # atts) = grants rnd g' ip (a # atts)" using sp False by (simp add: grants_Cons)
    ultimately show ?thesis unfolding e by linarith
  qed
qed

text \<open>The accumulated rounding over a window of up to \<open>2 ^ 40\<close> attempts and milliseconds stays below one two-hundredth of a
  token, the smallest step of the exact refill.\<close>

lemma window_rounding:
  assumes g: "of_nat n \<le> 10 + of_nat T / 200 * rate_factor + of_nat k * tiny" and short: "k \<le> 2 ^ 40" "T \<le> 2 ^ 40"
  shows "n \<le> 10 + T div 200"
proof -
  have "of_nat T / 200 * (rate_factor - 1) \<le> 2 ^ 40 / 200 * (rate_factor - 1)"
  proof (intro mult_right_mono divide_right_mono)
    show "of_nat T \<le> (2 ^ 40 :: rat)" using short(2) of_nat_le_iff [of T "2 ^ 40", where ?'a = rat] by simp
  qed (simp_all add: rate_factor_def power2_eq_square)
  also have "\<dots> \<le> 1 / 1000" by (simp add: rate_factor_def power2_eq_square)
  finally have "of_nat T / 200 * rate_factor - of_nat T / 200 \<le> 1 / 1000" by (simp only: right_diff_distrib mult_1_right)
  then have "of_nat T / 200 * rate_factor \<le> of_nat T / 200 + 1 / 1000" by linarith
  moreover have "of_nat k * tiny \<le> 2 ^ 40 * tiny"
  proof (intro mult_right_mono)
    show "of_nat k \<le> (2 ^ 40 :: rat)" using short(1) of_nat_le_iff [of k "2 ^ 40", where ?'a = rat] by simp
  qed (simp add: tiny_def)
  moreover have "2 ^ 40 * tiny \<le> 3 / 1000" by (simp add: tiny_def)
  moreover have "of_nat T / 200 \<le> (of_nat (T div 200) + 199 / 200 :: rat)"
  proof -
    have "T \<le> T div 200 * 200 + 199" using div_mult_mod_eq [of T 200] mod_less_divisor [of 200 T] by linarith
    then have "of_nat T \<le> (of_nat (T div 200 * 200 + 199) :: rat)" by (simp only: of_nat_le_iff)
    then show ?thesis by simp
  qed
  ultimately have "of_nat n < (of_nat (11 + T div 200) :: rat)" using g by simp
  then show ?thesis by (simp only: of_nat_less_iff)
qed

text \<open>A source that makes its attempts at one instant is granted exactly the tokens it holds.\<close>

lemma burst_granted:
  assumes rnd: "f64_rounding rnd"
  shows "bucket_of now g ip = \<lparr>bk_tokens = of_nat k, bk_last_ms = now\<rparr> \<Longrightarrow> k \<le> 10 \<Longrightarrow>
     grants rnd g ip (replicate n (ip, now)) = min n k"
proof (induction n arbitrary: g k)
  case 0
  then show ?case by (simp add: grants_def)
next
  case (Suc n)
  obtain g' r where sp: "spend_auth_token rnd g ip now = (g', r)" by fastforce
  have ok: "bucket_ok now (bucket_of now g ip)" using Suc.prems by (simp add: bucket_ok_def)
  have k: "k \<le> 2 ^ 53" "k - 1 \<le> 2 ^ 53" using Suc.prems(2) by simp_all
  have t: "min (rnd (bk_tokens (bucket_of now g ip) + refill rnd (now - bk_last_ms (bucket_of now g ip)))) 10 = of_nat k"
    using rounding_facts(2) [OF rnd k(1)] refill_zero [OF rnd] Suc.prems by simp
  note own = spend_own(1,2) [OF rnd ok order_refl sp, unfolded t]
  show ?case
  proof (cases k)
    case 0
    then have "bucket_of now g' ip = \<lparr>bk_tokens = of_nat 0, bk_last_ms = now\<rparr>" "r = Inl RateLimited" using own by simp_all
    with Suc.IH [of g' 0] sp 0 show ?thesis by (simp add: grants_Cons)
  next
    case (Suc m)
    then have "bucket_of now g' ip = \<lparr>bk_tokens = of_nat m, bk_last_ms = now\<rparr>" "r = Inr ()"
      using own rounding_facts(2) [OF rnd k(2)] by simp_all
    with Suc.IH [of g' m] Suc.prems(2) sp Suc show ?thesis by (simp add: grants_Cons)
  qed
qed

section \<open>Properties\<close>

text \<open>C34: The authentication rate holds for every source and in every window: after any history of attempts by any
  sources in the order of time, and however long a source has been idle, a further run of attempts (of at most
  \<open>2 ^ 40\<close> attempts over at most \<open>2 ^ 40\<close> milliseconds) grants one source at most ten, the burst, plus one per
  \<open>200\<close> ms of that run, five per second. The bound is reached: of \<open>n\<close> attempts made at one instant, a source not seen
  before is granted exactly \<open>min n 10\<close>. The floating point rounding is any function with the IEEE laws of
  \<open>f64_rounding\<close>.\<close>

theorem auth_rate_limited:
  assumes rnd: "f64_rounding rnd" and srt: "sorted (map snd (past @ atts))" "atts \<noteq> []"
    and short: "length atts \<le> 2 ^ 40" "snd (last atts) - snd (hd atts) \<le> 2 ^ 40"
  shows "grants rnd (spend_state rnd guards_new past) ip atts \<le> 10 + (snd (last atts) - snd (hd atts)) div 200
    \<and> grants rnd guards_new ip (replicate n (ip, now)) = min n 10"
proof
  obtain ip' t r where atts: "atts = (ip', t) # r" using srt(2) by (cases atts) auto
  let ?p = "last (0 # map snd past)"
  have fresh: "bucket_of l guards_new ip = \<lparr>bk_tokens = 10, bk_last_ms = l\<rparr>" for l by (simp add: bucket_of_def guards_new_def)
  have "bucket_ok ?p (bucket_of ?p (spend_state rnd guards_new past) ip)"
    by (rule spend_state_bucket [OF rnd]) (use srt(1) in \<open>simp_all add: fresh bucket_ok_def sorted_append\<close>)
  moreover have "sorted (?p # t # map snd r)"
    using srt(1) last_in_set [of past] by (cases "past = []") (auto simp: atts sorted_append last_map)
  moreover have e: "last (t # map snd r) = snd (last atts)" by (simp add: atts last_map)
  ultimately have "of_nat (grants rnd (spend_state rnd guards_new past) ip atts)
      \<le> 10 + of_nat (snd (last atts) - snd (hd atts)) / 200 * rate_factor + of_nat (length atts) * tiny"
    using window_bound [OF rnd, of ?p _ ip t r ip'] short(2) unfolding e by (simp add: atts)
  then show "grants rnd (spend_state rnd guards_new past) ip atts \<le> 10 + (snd (last atts) - snd (hd atts)) div 200"
    using short by (rule window_rounding)
  show "grants rnd guards_new ip (replicate n (ip, now)) = min n 10"
    by (rule burst_granted [OF rnd]) (simp_all add: fresh)
qed

text \<open>The witness: thirty attempts at one instant, a minute of silence, then thirty more.\<close>

theorem auth_rate_limited_witness:
  "f64_rounding id \<and> grants id (spend_state id guards_new (replicate 30 (V4 [192, 0, 2, 7], 1000))) (V4 [192, 0, 2, 7])
     (replicate 30 (V4 [192, 0, 2, 7], 61000)) \<le> 10 \<and> grants id guards_new (V4 [192, 0, 2, 7]) (replicate 30 (V4 [192, 0, 2, 7], 1000)) = 10"
proof -
  have r: "f64_rounding id" by (simp add: f64_rounding_def mono_def half_subnormal_def)
  show ?thesis
    using r auth_rate_limited [OF r, of "replicate 30 (V4 [192, 0, 2, 7], 1000)" "replicate 30 (V4 [192, 0, 2, 7], 61000)" "V4 [192, 0, 2, 7]" 30 1000]
    by (simp add: sorted_append)
qed

end
