(* ===== verification/Egress.thy ===== *)
theory Egress
  imports Acl Socks_Config
begin

unbundle bit_operations_syntax

text \<open>
  \<open>crates/wsnet-hub/src/egress.rs\<close>: which class an address belongs to, and the policy that decides whether an
  already resolved address may be dialled. The classification is proved equal to a table of address ranges, and the
  policy to a first-match reading of the configured rules.
\<close>

section \<open>Address classes\<close>

definition METADATA_V4 :: "nat list" where "METADATA_V4 = [169, 254, 169, 254]"
definition METADATA_ECS_V4 :: "nat list" where "METADATA_ECS_V4 = [169, 254, 170, 2]"

datatype AddressClass =
  Public | Loopback | Private | LinkLocal | CloudMetadata | UniqueLocal | Unspecified | Broadcast | Shared | Multicast | Reserved

definition is_public :: "AddressClass \<Rightarrow> bool" where
  "is_public c \<longleftrightarrow> c = Public"

primrec class_detail :: "AddressClass \<Rightarrow> string" where
  "class_detail Public = ''a globally routable address''"
| "class_detail Loopback = ''a loopback address''"
| "class_detail Private = ''a private address''"
| "class_detail LinkLocal = ''a link-local address''"
| "class_detail CloudMetadata = ''a cloud instance-metadata address''"
| "class_detail UniqueLocal = ''an IPv6 unique-local address''"
| "class_detail Unspecified = ''the unspecified address''"
| "class_detail Broadcast = ''the broadcast address''"
| "class_detail Shared = ''a shared (carrier-grade NAT) address''"
| "class_detail Multicast = ''a multicast address''"
| "class_detail Reserved = ''a reserved address''"

text \<open>\<open>u32::from(ip) & mask == net & mask\<close>.\<close>

definition v4_in :: "nat list \<Rightarrow> nat \<Rightarrow> nat list \<Rightarrow> bool" where
  "v4_in net prefix ip =
     (let m = (if prefix = 0 then 0 else push_bit (32 - prefix) (- 1)) :: 32 word in
      word_of_nat (ip_number (V4 ip)) AND m = word_of_nat (ip_number (V4 net)) AND m)"

text \<open>The predicates of \<open>std::net::Ipv4Addr\<close> on its four octets.\<close>

definition v4_is_private :: "nat list \<Rightarrow> bool" where
  "v4_is_private os \<longleftrightarrow> os ! 0 = 10 \<or> os ! 0 = 172 \<and> 16 \<le> os ! 1 \<and> os ! 1 \<le> 31 \<or> os ! 0 = 192 \<and> os ! 1 = 168"

definition classify_v4 :: "nat list \<Rightarrow> AddressClass" where
  "classify_v4 os =
     (if os = [255, 255, 255, 255] then Broadcast
      else if os ! 0 = 127 then Loopback
      else if v4_is_private os then Private
      else if os ! 0 = 169 \<and> os ! 1 = 254 then (if os = METADATA_V4 \<or> os = METADATA_ECS_V4 then CloudMetadata else LinkLocal)
      else if os ! 0 = 0 then Unspecified
      else if 224 \<le> os ! 0 \<and> os ! 0 \<le> 239 then Multicast
      else if v4_in [100, 64, 0, 0] 10 os then Shared
      else if v4_in [192, 0, 0, 0] 24 os \<or> v4_in [192, 0, 2, 0] 24 os \<or> v4_in [192, 88, 99, 0] 24 os
        \<or> v4_in [198, 18, 0, 0] 15 os \<or> v4_in [198, 51, 100, 0] 24 os \<or> v4_in [203, 0, 113, 0] 24 os \<or> os ! 0 \<ge> 240
      then Reserved
      else Public)"

definition embedded_v4 :: "nat \<Rightarrow> nat \<Rightarrow> nat list" where
  "embedded_v4 high low = [high div 256, high mod 256, low div 256, low mod 256]"

text \<open>A masked comparison of one 16-bit segment.\<close>

definition seg_is :: "nat \<Rightarrow> 16 word \<Rightarrow> 16 word \<Rightarrow> bool" where
  "seg_is seg m v \<longleftrightarrow> word_of_nat seg AND m = v"

definition classify_v6 :: "nat list \<Rightarrow> AddressClass" where
  "classify_v6 gs =
     (if take 6 gs = [0, 0, 0, 0, 0, 0xffff] then classify_v4 (embedded_v4 (gs ! 6) (gs ! 7))
      else if gs = [0, 0, 0, 0, 0, 0, 0, 0] then Unspecified
      else if gs = [0, 0, 0, 0, 0, 0, 0, 1] then Loopback
      else if seg_is (gs ! 0) 0xff00 0xff00 then Multicast
      else if seg_is (gs ! 0) 0xfe00 0xfc00 then UniqueLocal
      else if seg_is (gs ! 0) 0xffc0 0xfe80 then LinkLocal
      else if gs ! 0 = 0x0064 \<and> gs ! 1 = 0xff9b \<and> gs ! 2 = 0 \<and> gs ! 3 = 0 \<and> gs ! 4 = 0 \<and> gs ! 5 = 0
      then classify_v4 (embedded_v4 (gs ! 6) (gs ! 7))
      else if gs ! 0 = 0x2002 then classify_v4 (embedded_v4 (gs ! 1) (gs ! 2))
      else if gs ! 0 = 0x2001 \<and> gs ! 1 = 0 then Reserved
      else if gs ! 0 = 0x2001 \<and> gs ! 1 = 0x0db8 then Reserved
      else if gs ! 0 = 0x0100 \<and> gs ! 1 = 0 \<and> gs ! 2 = 0 \<and> gs ! 3 = 0 then Reserved
      else if seg_is (gs ! 0) 0xffc0 0xfec0 then Reserved
      else if gs ! 0 = 0x2001 \<and> (gs ! 1 = 0x0002 \<or> seg_is (gs ! 1) 0xfff0 0x0010) then Reserved
      else Public)"

primrec classify :: "IpAddr \<Rightarrow> AddressClass" where
  "classify (V4 os) = classify_v4 os"
| "classify (V6 gs) = classify_v6 gs"

section \<open>Policy\<close>

datatype EgressRefusal = Special AddressClass | NotPermitted

primrec refusal_detail :: "EgressRefusal \<Rightarrow> string" where
  "refusal_detail (Special c) = ''egress refused '' @ class_detail c @ '': no explicit allowlist rule permits it''"
| "refusal_detail NotPermitted = ''egress refused: no acl rule permits this resolved address''"

record 'net EgressPolicy =
  ep_all :: "'net AclTable"
  ep_explicit :: "'net AclTable"

definition public_only :: "'net EgressPolicy" where
  "public_only = \<lparr>ep_all = deny_all, ep_explicit = deny_all\<rparr>"

definition table_or_deny :: "AclError + 'net AclTable \<Rightarrow> 'net AclTable" where
  "table_or_deny r = (case r of Inl _ \<Rightarrow> deny_all | Inr t \<Rightarrow> t)"

definition from_rules :: "'net ipnet_crate \<Rightarrow> AclRule list \<Rightarrow> 'net EgressPolicy" where
  "from_rules c rules =
     \<lparr>ep_all = table_or_deny (AclTable_new c rules),
      ep_explicit = table_or_deny (AclTable_new c (filter (\<lambda>r. rule_host_cidr r \<noteq> None) rules))\<rparr>"

definition egress_check :: "'net ipnet_crate \<Rightarrow> 'net EgressPolicy \<Rightarrow> AclQuery \<Rightarrow> IpAddr \<Rightarrow> EgressRefusal + unit" where
  "egress_check c p query ip =
     (let concrete = query\<lparr>query_ip := Some ip\<rparr>; cls = classify ip in
      if is_public cls then (if acl_check c (ep_all p) concrete = Allowed then Inr () else Inl NotPermitted)
      else if acl_check c (ep_explicit p) concrete = Allowed then Inr () else Inl (Special cls))"

section \<open>The ranges\<close>

text \<open>The reference reading: an address is its number, a range is a number of leading bits. The tables list what the
  code treats as special, in the order of the address space; a mapped, NAT64 or 6to4 address is judged by the IPv4
  address it carries.\<close>

definition in_range :: "nat \<Rightarrow> nat \<Rightarrow> nat \<times> nat \<Rightarrow> bool" where
  "in_range bits n r \<longleftrightarrow> n div 2 ^ (bits - snd r) = fst r div 2 ^ (bits - snd r)"

definition quad :: "nat \<Rightarrow> nat \<Rightarrow> nat \<Rightarrow> nat \<Rightarrow> nat" where
  "quad a b c d = ((a * 256 + b) * 256 + c) * 256 + d"

definition SPECIAL_V4 :: "(nat \<times> nat) list" where
  "SPECIAL_V4 = [(quad 0 0 0 0, 8), (quad 10 0 0 0, 8), (quad 100 64 0 0, 10), (quad 127 0 0 0, 8), (quad 169 254 0 0, 16),
     (quad 172 16 0 0, 12), (quad 192 0 0 0, 24), (quad 192 0 2 0, 24), (quad 192 88 99 0, 24), (quad 192 168 0 0, 16),
     (quad 198 18 0 0, 15), (quad 198 51 100 0, 24), (quad 203 0 113 0, 24), (quad 224 0 0 0, 4), (quad 240 0 0 0, 4)]"

definition SPECIAL_V6 :: "(nat \<times> nat) list" where
  "SPECIAL_V6 = [(0, 128), (1, 128), (0x0100 * 2 ^ 112, 64), (0x2001 * 2 ^ 112, 32), (0x20010002 * 2 ^ 96, 32),
     (0x20010010 * 2 ^ 96, 28), (0x20010db8 * 2 ^ 96, 32), (0xfc00 * 2 ^ 112, 7), (0xfe80 * 2 ^ 112, 10),
     (0xfec0 * 2 ^ 112, 10), (0xff00 * 2 ^ 112, 8)]"

definition special_v4 :: "nat \<Rightarrow> bool" where
  "special_v4 n \<longleftrightarrow> list_ex (in_range 32 n) SPECIAL_V4"

definition special_v6 :: "nat \<Rightarrow> bool" where
  "special_v6 n \<longleftrightarrow>
     (if in_range 128 n (0xffff * 2 ^ 32, 96) \<or> in_range 128 n (0x64ff9b * 2 ^ 96, 96) then special_v4 (n mod 2 ^ 32)
      else if in_range 128 n (0x2002 * 2 ^ 112, 16) then special_v4 (n div 2 ^ 80 mod 2 ^ 32)
      else list_ex (in_range 128 n) SPECIAL_V6)"

definition special_address :: "IpAddr \<Rightarrow> bool" where
  "special_address ip \<longleftrightarrow> (case ip of V4 _ \<Rightarrow> special_v4 (ip_number ip) | V6 _ \<Rightarrow> special_v6 (ip_number ip))"

text \<open>The addresses on which the code and its comments part, which the equivalence below leaves out. The comments call
  every range that is not globally routable special, and name \<open>2001:20::/28\<close>; the code takes as public the
  IPv4-compatible \<open>::a.b.c.d\<close>, \<open>64:ff9b:1::/48\<close>, \<open>3fff::/20\<close>, \<open>5f00::/16\<close> and the part of the protocol assignments
  \<open>2001::/23\<close> it does not test for, and takes as reserved \<open>2001:2::/32\<close> where the comment says \<open>2001:2::/48\<close>. Inside these
  ranges the two agree on \<open>::\<close>, \<open>::1\<close>, \<open>2001::/32\<close>, \<open>2001:2::/48\<close> and \<open>2001:10::/28\<close>.\<close>

definition DISPUTED_V6 :: "(nat \<times> nat) list" where
  "DISPUTED_V6 = [(0, 96), (0x64ff9b0001 * 2 ^ 80, 48), (0x2001 * 2 ^ 112, 23), (0x3fff * 2 ^ 112, 20), (0x5f00 * 2 ^ 112, 16)]"

definition AGREED_V6 :: "(nat \<times> nat) list" where
  "AGREED_V6 = [(0, 128), (1, 128), (0x2001 * 2 ^ 112, 32), (0x20010002 * 2 ^ 96, 48), (0x20010010 * 2 ^ 96, 28)]"

definition disputed_address :: "IpAddr \<Rightarrow> bool" where
  "disputed_address ip \<longleftrightarrow> (case ip of V4 _ \<Rightarrow> False
     | V6 _ \<Rightarrow> list_ex (in_range 128 (ip_number ip)) DISPUTED_V6 \<and> \<not> list_ex (in_range 128 (ip_number ip)) AGREED_V6)"

subsection \<open>Numbers of addresses\<close>

lemma ip_number_V4:
  assumes "a < 256" "b < 256" "c < 256" "d < 256"
  shows "ip_number (V4 [a, b, c, d]) = quad a b c d"
  using assms by (simp add: ip_number_def of_be_bytes_Cons quad_def unat_of_nat)

lemma quad_div:
  assumes "a < 256" "b < 256" "c < 256" "d < 256"
  shows "quad a b c d div 2 ^ 24 = a" "quad a b c d div 2 ^ 16 = a * 256 + b" "quad a b c d div 2 ^ 8 = (a * 256 + b) * 256 + c"
  using assms by (simp_all add: quad_def div_mult2_eq)

lemma v4_in_iff:
  assumes "ip_ok (V4 os)" "ip_ok (V4 net)" "k \<le> 32"
  shows "v4_in net k os \<longleftrightarrow> in_range 32 (ip_number (V4 os)) (ip_number (V4 net), k)"
proof -
  have m: "(if k = 0 then 0 else push_bit (32 - k) (- 1) :: 32 word) = NOT (mask (32 - k))"
    using v4_mask_eq [OF assms(3)] by (simp add: v4_mask_def)
  show ?thesis
    using ip_number_bound [OF assms(1)] ip_number_bound [OF assms(2)]
    unfolding v4_in_def Let_def m masked_eq_iff by (simp add: drop_bit_numbers in_range_def family_bits_def)
qed

lemma digit_eq: "b < m \<Longrightarrow> d < m \<Longrightarrow> a * m + b = c * m + d \<longleftrightarrow> a = c \<and> b = d" for a b c d m :: nat
  by (metis add_diff_cancel_left' div_mult_self3 div_less add.right_neutral nat_neq_iff not_less_zero)

lemma div16: "x div 16 = k \<longleftrightarrow> 16 * k \<le> x \<and> x \<le> 16 * k + 15" for x k :: nat
  by (intro iffI conjI; linarith)

lemma if_neq: "x \<noteq> z \<Longrightarrow> (if P then x else y) = z \<longleftrightarrow> \<not> P \<and> y = z"
  by simp

lemma octet_list:
  assumes "ip_ok (V4 os)"
  obtains a b c d where "os = [a, b, c, d]" "a < 256" "b < 256" "c < 256" "d < 256"
proof -
  from assms have "length os = 4" "\<forall>x \<in> set os. x < 256" by (auto simp: list_all_iff)
  then obtain a b c d where "os = [a, b, c, d]" by (auto simp: length_Suc_conv eval_nat_numeral)
  with \<open>\<forall>x \<in> set os. x < 256\<close> that show ?thesis by simp
qed

lemma classify_v4_public:
  assumes "ip_ok (V4 os)"
  shows "classify_v4 os = Public \<longleftrightarrow> \<not> special_v4 (ip_number (V4 os))"
proof -
  obtain a b c d where os: "os = [a, b, c, d]" and bd: "a < 256" "b < 256" "c < 256" "d < 256"
    using assms by (rule octet_list)
  let ?n = "quad a b c d"
  note q = quad_div [OF bd]
  have n: "ip_number (V4 os) = ?n" using ip_number_V4 [OF bd] os by simp
  have range: "v4_in [x, y, z, w] k os \<longleftrightarrow> in_range 32 ?n (quad x y z w, k)"
    if "x < 256" "y < 256" "z < 256" "w < 256" "k \<le> 32" for x y z w k
    using v4_in_iff [OF assms, of "[x, y, z, w]" k] that ip_number_V4 [OF that(1-4)] n by simp
  have more: "?n div 2 ^ 20 = (a * 256 + b) div 16" "?n div 2 ^ 28 = a div 16"
    using div_mult2_eq [of ?n "2 ^ 16" 16] div_mult2_eq [of ?n "2 ^ 24" 16] q by simp_all
  have d8: "in_range 32 ?n (quad x 0 0 0, 8) \<longleftrightarrow> a = x" if "x < 256" for x
    using that q(1) quad_div(1) [of x 0 0 0] by (simp add: in_range_def)
  have d16: "in_range 32 ?n (quad x y 0 0, 16) \<longleftrightarrow> a = x \<and> b = y" if "x < 256" "y < 256" for x y
  proof -
    have "a * 256 + b = x * 256 + y \<longleftrightarrow> a = x \<and> b = y" using bd(2) that(2) by (rule digit_eq)
    with that q(2) quad_div(2) [of x y 0 0] show ?thesis by (simp add: in_range_def)
  qed
  have d12: "in_range 32 ?n (quad 172 16 0 0, 12) \<longleftrightarrow> a = 172 \<and> 16 \<le> b \<and> b \<le> 31"
  proof -
    have "(a * 256 + b) div 16 = a * 16 + b div 16" using div_mult_self3 [of 16 "a * 16" b] by simp
    moreover have "a * 16 + b div 16 = 172 * 16 + 1 \<longleftrightarrow> a = 172 \<and> b div 16 = 1" using bd(2) by (intro digit_eq) simp_all
    moreover have "b div 16 = 1 \<longleftrightarrow> 16 \<le> b \<and> b \<le> 31" using div16 [of b 1] by simp
    ultimately have "(a * 256 + b) div 16 = 2753 \<longleftrightarrow> a = 172 \<and> 16 \<le> b \<and> b \<le> 31" by simp
    with more(1) show ?thesis by (simp add: in_range_def quad_def [of 172])
  qed
  have d4: "in_range 32 ?n (quad 224 0 0 0, 4) \<longleftrightarrow> 224 \<le> a \<and> a \<le> 239" "in_range 32 ?n (quad 240 0 0 0, 4) \<longleftrightarrow> 240 \<le> a"
  proof -
    have "a div 16 = 14 \<longleftrightarrow> 224 \<le> a \<and> a \<le> 239" "a div 16 = 15 \<longleftrightarrow> 240 \<le> a"
      using bd(1) div16 [of a 14] div16 [of a 15] by simp_all
    with more(2) show "in_range 32 ?n (quad 224 0 0 0, 4) \<longleftrightarrow> 224 \<le> a \<and> a \<le> 239" "in_range 32 ?n (quad 240 0 0 0, 4) \<longleftrightarrow> 240 \<le> a"
      by (simp_all add: in_range_def quad_def [of 224] quad_def [of 240])
  qed
  have pr: "v4_is_private os \<longleftrightarrow> a = 10 \<or> a = 172 \<and> 16 \<le> b \<and> b \<le> 31 \<or> a = 192 \<and> b = 168"
    and bc: "os = [255, 255, 255, 255] \<Longrightarrow> 240 \<le> a" and hd: "os ! 0 = a" "os ! 1 = b"
    by (auto simp: v4_is_private_def os)
  have rs: "v4_in [100, 64, 0, 0] 10 os \<longleftrightarrow> in_range 32 ?n (quad 100 64 0 0, 10)"
    "v4_in [192, 0, 0, 0] 24 os \<longleftrightarrow> in_range 32 ?n (quad 192 0 0 0, 24)"
    "v4_in [192, 0, 2, 0] 24 os \<longleftrightarrow> in_range 32 ?n (quad 192 0 2 0, 24)"
    "v4_in [192, 88, 99, 0] 24 os \<longleftrightarrow> in_range 32 ?n (quad 192 88 99 0, 24)"
    "v4_in [198, 18, 0, 0] 15 os \<longleftrightarrow> in_range 32 ?n (quad 198 18 0 0, 15)"
    "v4_in [198, 51, 100, 0] 24 os \<longleftrightarrow> in_range 32 ?n (quad 198 51 100 0, 24)"
    "v4_in [203, 0, 113, 0] 24 os \<longleftrightarrow> in_range 32 ?n (quad 203 0 113 0, 24)"
    by (rule range; simp)+
  let ?odd = "in_range 32 ?n (quad 192 0 0 0, 24) \<or> in_range 32 ?n (quad 192 0 2 0, 24) \<or> in_range 32 ?n (quad 192 88 99 0, 24)
    \<or> in_range 32 ?n (quad 198 18 0 0, 15) \<or> in_range 32 ?n (quad 198 51 100 0, 24) \<or> in_range 32 ?n (quad 203 0 113 0, 24)"
  have "classify_v4 os = Public \<longleftrightarrow> \<not> (os = [255, 255, 255, 255] \<or> a = 127
      \<or> (a = 10 \<or> a = 172 \<and> 16 \<le> b \<and> b \<le> 31 \<or> a = 192 \<and> b = 168) \<or> a = 169 \<and> b = 254 \<or> a = 0
      \<or> 224 \<le> a \<and> a \<le> 239 \<or> in_range 32 ?n (quad 100 64 0 0, 10) \<or> ?odd \<or> 240 \<le> a)"
    unfolding classify_v4_def pr hd rs by (simp only: if_neq if_cancel AddressClass.distinct de_Morgan_disj conj_assoc simp_thms split: if_split)
  moreover have "special_v4 ?n \<longleftrightarrow> a = 127
      \<or> (a = 10 \<or> a = 172 \<and> 16 \<le> b \<and> b \<le> 31 \<or> a = 192 \<and> b = 168) \<or> a = 169 \<and> b = 254 \<or> a = 0
      \<or> 224 \<le> a \<and> a \<le> 239 \<or> in_range 32 ?n (quad 100 64 0 0, 10) \<or> ?odd \<or> 240 \<le> a"
    unfolding special_v4_def SPECIAL_V4_def list_ex_Cons_iff list_ex_Nil_iff
    by (simp only: d8 d16 d12 d4 disj_ac simp_thms)
  ultimately show ?thesis unfolding n using bc by (cases "os = [255, 255, 255, 255]") (simp_all only: simp_thms)
qed

subsection \<open>IPv6 groups\<close>

definition num6 :: "nat list \<Rightarrow> nat" where
  "num6 gs = foldl (\<lambda>a g. a * 65536 + g) 0 gs"

lemma num6_append: "num6 (xs @ ys) = num6 xs * 65536 ^ length ys + num6 ys"
proof (induction ys rule: rev_induct)
  case (snoc y ys)
  have "num6 (xs @ ys @ [y]) = num6 (xs @ ys) * 65536 + y" "num6 (ys @ [y]) = num6 ys * 65536 + y"
    by (simp_all add: num6_def)
  with snoc show ?case by (simp add: algebra_simps)
qed (simp add: num6_def)

lemma num6_simps [simp]: "num6 [] = 0" "num6 [g] = g" "num6 [g, h] = g * 65536 + h"
  by (simp_all add: num6_def)

lemma num6_bound: "\<forall>g \<in> set gs. g < 65536 \<Longrightarrow> num6 gs < 65536 ^ length gs"
proof (induction gs rule: rev_induct)
  case (snoc g gs)
  then have "num6 gs + 1 \<le> 65536 ^ length gs" "g < 65536" by simp_all
  then have "(num6 gs + 1) * 65536 \<le> 65536 ^ length gs * 65536" by (intro mult_le_mono1)
  with \<open>g < 65536\<close> show ?case by (simp add: num6_append)
qed simp

lemma ip_number_V6: "\<forall>g \<in> set gs. g < 65536 \<Longrightarrow> ip_number (V6 gs) = num6 gs"
proof (induction gs)
  case (Cons g gs)
  let ?r = "concat (map (be_bytes 2) gs)" and ?u = "unat (word_of_nat (g div 256) :: u8)" and ?v = "unat (word_of_nat g :: u8)"
  have "length ?r = 2 * length gs" by (induction gs) simp_all
  then have len: "256 ^ length ?r = (65536 :: nat) ^ length gs" by (simp add: power_mult)
  have "ip_number (V6 (g # gs)) = (?u * 256 + ?v) * 256 ^ length ?r + ip_number (V6 gs)"
    by (simp only: ip_number_def ip_octets.simps be2 list.map concat.simps append_Cons append_Nil of_be_bytes_Cons
        list.size power_Suc add_0 add_Suc_right plus_1_eq_Suc) (simp add: algebra_simps)
  then have "ip_number (V6 (g # gs)) = g * 65536 ^ length gs + ip_number (V6 gs)"
    using unat_pair [of g] Cons.prems unfolding len by simp
  with Cons num6_append [of "[g]" gs] show ?case by simp
qed (simp add: ip_number_def)

lemma num6_split:
  assumes "\<forall>g \<in> set ys. g < 65536"
  shows "num6 (xs @ ys) div 2 ^ (16 * length ys) = num6 xs" "num6 (xs @ ys) mod 2 ^ (16 * length ys) = num6 ys"
proof -
  have "(65536 :: nat) ^ length ys = 2 ^ (16 * length ys)" by (simp add: power_mult)
  with num6_bound [OF assms] show "num6 (xs @ ys) div 2 ^ (16 * length ys) = num6 xs" "num6 (xs @ ys) mod 2 ^ (16 * length ys) = num6 ys"
    by (simp_all add: num6_append)
qed

lemma num6_inj:
  "length xs = length ys \<Longrightarrow> \<forall>g \<in> set xs \<union> set ys. g < 65536 \<Longrightarrow> num6 xs = num6 ys \<longleftrightarrow> xs = ys"
proof (induction xs ys rule: rev_induct2)
  case (4 x xs y ys)
  then show ?case using digit_eq [of x 65536 y "num6 xs" "num6 ys"] by (simp add: num6_append)
qed simp_all

lemma seg_is_iff:
  assumes "g < 65536" "v < 65536" "NOT (mask k) = m" "word_of_nat v AND m = w" 
  shows "seg_is g m w \<longleftrightarrow> g div 2 ^ k = v div 2 ^ k"
  using masked_eq_iff [of "word_of_nat g" k "word_of_nat v :: 16 word"] drop_bit_numbers [where ?'a = 16, of g v k] assms
  by (simp add: seg_is_def)

lemma group_list:
  assumes "ip_ok (V6 gs)"
  obtains a b c d e f g h where "gs = [a, b, c, d, e, f, g, h]" "\<forall>x \<in> {a, b, c, d, e, f, g, h}. x < 65536"
proof -
  from assms have "length gs = 8" "\<forall>x \<in> set gs. x < 65536" by (auto simp: list_all_iff)
  moreover from this(1) have "gs = map ((!) gs) [0, 1, 2, 3, 4, 5, 6, 7]" using map_nth [of gs] by (simp add: upt_rec eval_nat_numeral)
  then have "gs = [gs ! 0, gs ! 1, gs ! 2, gs ! 3, gs ! 4, gs ! 5, gs ! 6, gs ! 7]" by (simp only: list.map)
  ultimately show ?thesis by (intro that [of "gs ! 0" "gs ! 1" "gs ! 2" "gs ! 3" "gs ! 4" "gs ! 5" "gs ! 6" "gs ! 7"]) auto
qed

text \<open>A range of whole groups holds the addresses that start with them.\<close>

lemma in_range_groups:
  assumes "length gs = 8" "\<forall>g \<in> set gs \<union> set ps. g < 65536" "length ps = k" "k \<le> 8" "base = num6 (ps @ replicate (8 - k) 0)"
    "len = 16 * k"
  shows "in_range 128 (num6 gs) (base, len) \<longleftrightarrow> take k gs = ps"
proof -
  have l: "length (drop k gs) = 8 - k" "length (replicate (8 - k) (0 :: nat)) = 8 - k" using assms by simp_all
  have "\<forall>g \<in> set (drop k gs). g < 65536" using assms(2) by (meson UnI1 in_set_dropD)
  from num6_split(1) [OF this, of "take k gs"] l have "num6 gs div 2 ^ (128 - len) = num6 (take k gs)"
    using assms(1,6) by (simp add: right_diff_distrib')
  moreover have "base div 2 ^ (128 - len) = num6 ps"
    using num6_split(1) [of "replicate (8 - k) 0" ps] l assms(5,6) by (simp add: right_diff_distrib')
  moreover have "num6 (take k gs) = num6 ps \<longleftrightarrow> take k gs = ps"
    using assms by (intro num6_inj) (auto dest: in_set_takeD)
  ultimately show ?thesis by (simp add: in_range_def)
qed

text \<open>A range inside the first group, and one inside the second.\<close>

lemma in_range_first:
  assumes "length gs = 8" "\<forall>g \<in> set gs. g < 65536" "len = 16 - j" "j \<le> 16"
  shows "in_range 128 (num6 gs) (v * 2 ^ 112, len) \<longleftrightarrow> gs ! 0 div 2 ^ j = v div 2 ^ j"
proof -
  obtain a r where gs: "gs = [a] @ r" "length r = 7" using assms(1) by (auto simp: length_Suc_conv eval_nat_numeral)
  then have "num6 gs div 2 ^ 112 = a" using num6_split(1) [of r "[a]"] assms(2) by simp
  moreover have "128 - len = 112 + j" using assms by simp
  ultimately show ?thesis using gs by (simp add: in_range_def power_add div_mult2_eq)
qed

lemma in_range_orchid:
  assumes "length gs = 8" "\<forall>g \<in> set gs. g < 65536"
  shows "in_range 128 (num6 gs) (0x20010010 * 2 ^ 96, 28) \<longleftrightarrow> gs ! 0 = 0x2001 \<and> gs ! 1 div 16 = 1"
proof -
  obtain a b r where gs: "gs = [a, b] @ r" "length r = 6" using assms(1) by (auto simp: length_Suc_conv eval_nat_numeral)
  then have "num6 gs div 2 ^ 96 = a * 65536 + b" using num6_split(1) [of r "[a, b]"] assms(2) by simp
  then have "num6 gs div 2 ^ 100 = (a * 65536 + b) div 16" using div_mult2_eq [of "num6 gs" "2 ^ 96" 16] by simp
  also have "\<dots> = a * 4096 + b div 16" using div_mult_self3 [of 16 "a * 4096" b] by simp
  finally have "in_range 128 (num6 gs) (0x20010010 * 2 ^ 96, 28) \<longleftrightarrow> a * 4096 + b div 16 = 0x2001 * 4096 + 1"
    by (simp add: in_range_def)
  also have "\<dots> \<longleftrightarrow> a = 0x2001 \<and> b div 16 = 1" using assms(2) gs less_mult_imp_div_less [of b 4096 16] by (intro digit_eq) simp_all
  finally show ?thesis using gs by simp
qed

lemma embedded_v4_number:
  assumes "hi < 65536" "lo < 65536"
  shows "ip_ok (V4 (embedded_v4 hi lo))" "ip_number (V4 (embedded_v4 hi lo)) = hi * 65536 + lo"
proof -
  have b: "hi div 256 < 256" "hi mod 256 < 256" "lo div 256 < 256" "lo mod 256 < 256" using assms by simp_all
  then show "ip_ok (V4 (embedded_v4 hi lo))" by (simp add: embedded_v4_def)
  have "hi = hi div 256 * 256 + hi mod 256" "lo = lo div 256 * 256 + lo mod 256" by simp_all
  then show "ip_number (V4 (embedded_v4 hi lo)) = hi * 65536 + lo"
    unfolding embedded_v4_def ip_number_V4 [OF b] quad_def by (simp add: algebra_simps)
qed

lemma mask_segs: "NOT (mask 8) = (0xff00 :: 16 word)" "NOT (mask 9) = (0xfe00 :: 16 word)" "NOT (mask 6) = (0xffc0 :: 16 word)"
  "NOT (mask 4) = (0xfff0 :: 16 word)"
  by (simp_all add: mask_eq_exp_minus_1)

lemma num6_zeros: "num6 (replicate n 0) = 0"
  by (induction n rule: nat_induct) (simp_all add: num6_append [of "[0]", simplified])

lemma classify_v6_public:
  assumes "ip_ok (V6 gs)"
  shows "classify_v6 gs = Public \<longleftrightarrow> \<not> special_v6 (ip_number (V6 gs))"
proof -
  obtain a b c d e f g h where gs: "gs = [a, b, c, d, e, f, g, h]" and bd: "\<forall>x \<in> {a, b, c, d, e, f, g, h}. x < 65536"
    using assms by (rule group_list)
  have l: "length gs = 8" and bs: "\<forall>x \<in> set gs. x < 65536" using gs bd by simp_all
  let ?n = "num6 gs"
  have n: "ip_number (V6 gs) = ?n" using bs by (rule ip_number_V6)
  have v4: "classify_v4 (embedded_v4 x y) = Public \<longleftrightarrow> \<not> special_v4 (x * 65536 + y)" if "x < 65536" "y < 65536" for x y
    using classify_v4_public [OF embedded_v4_number(1) [OF that]] embedded_v4_number(2) [OF that] by simp
  have low: "?n mod 2 ^ 32 = g * 65536 + h" using num6_split(2) [of "[g, h]" "[a, b, c, d, e, f]"] bd gs by simp
  have mid: "?n div 2 ^ 80 mod 2 ^ 32 = b * 65536 + c"
    using num6_split(1) [of "[d, e, f, g, h]" "[a, b, c]"] num6_split(2) [of "[b, c]" "[a]"] bd gs by simp
  have whole: "in_range 128 ?n (base, len) \<longleftrightarrow> take k gs = ps"
    if "length ps = k" "k \<le> 8" "\<forall>x \<in> set ps. x < 65536" "base = num6 ps * 2 ^ (128 - 16 * k)" "len = 16 * k" for base len k ps
  proof -
    have "(65536 :: nat) ^ (8 - k) = 2 ^ (128 - 16 * k)" using power_mult [of "2 :: nat" 16 "8 - k"] by (simp add: right_diff_distrib')
    then have "base = num6 (ps @ replicate (8 - k) 0)" using that(4) by (simp add: num6_append num6_zeros)
    from in_range_groups [OF l _ that(1,2) this that(5)] bs that(3) show ?thesis by blast
  qed
  have r: "in_range 128 ?n (0xffff * 2 ^ 32, 96) \<longleftrightarrow> take 6 gs = [0, 0, 0, 0, 0, 0xffff]"
    "in_range 128 ?n (0x64ff9b * 2 ^ 96, 96) \<longleftrightarrow> take 6 gs = [0x64, 0xff9b, 0, 0, 0, 0]"
    "in_range 128 ?n (0x2002 * 2 ^ 112, 16) \<longleftrightarrow> take 1 gs = [0x2002]"
    "in_range 128 ?n (0, 128) \<longleftrightarrow> take 8 gs = [0, 0, 0, 0, 0, 0, 0, 0]"
    "in_range 128 ?n (1, 128) \<longleftrightarrow> take 8 gs = [0, 0, 0, 0, 0, 0, 0, 1]"
    "in_range 128 ?n (0x0100 * 2 ^ 112, 64) \<longleftrightarrow> take 4 gs = [0x0100, 0, 0, 0]"
    "in_range 128 ?n (0x2001 * 2 ^ 112, 32) \<longleftrightarrow> take 2 gs = [0x2001, 0]"
    "in_range 128 ?n (0x20010002 * 2 ^ 96, 32) \<longleftrightarrow> take 2 gs = [0x2001, 2]"
    "in_range 128 ?n (0x20010db8 * 2 ^ 96, 32) \<longleftrightarrow> take 2 gs = [0x2001, 0x0db8]"
    by (rule whole; simp add: num6_def)+
  have ix: "gs ! 0 = a" "gs ! 1 = b" "gs ! 2 = c" "gs ! 3 = d" "gs ! 4 = e" "gs ! 5 = f" "gs ! 6 = g" "gs ! 7 = h"
    by (simp_all add: gs)
  have tk: "take 6 gs = [a, b, c, d, e, f]" "take 1 gs = [a]" "take 8 gs = gs" "take 4 gs = [a, b, c, d]" "take 2 gs = [a, b]"
    by (simp_all add: gs)
  have sg: "seg_is a 0xff00 0xff00 \<longleftrightarrow> in_range 128 ?n (0xff00 * 2 ^ 112, 8)"
    "seg_is a 0xfe00 0xfc00 \<longleftrightarrow> in_range 128 ?n (0xfc00 * 2 ^ 112, 7)"
    "seg_is a 0xffc0 0xfe80 \<longleftrightarrow> in_range 128 ?n (0xfe80 * 2 ^ 112, 10)"
    "seg_is a 0xffc0 0xfec0 \<longleftrightarrow> in_range 128 ?n (0xfec0 * 2 ^ 112, 10)"
    using in_range_first [OF l bs, of 8 8 "0xff00"] in_range_first [OF l bs, of 7 9 "0xfc00"]
      in_range_first [OF l bs, of 10 6 "0xfe80"] in_range_first [OF l bs, of 10 6 "0xfec0"]
      seg_is_iff [of a "0xff00" 8] seg_is_iff [of a "0xfc00" 9] seg_is_iff [of a "0xfe80" 6] seg_is_iff [of a "0xfec0" 6] bd
    by (simp_all add: ix mask_segs)
  have orchid: "a = 0x2001 \<and> seg_is b 0xfff0 0x0010 \<longleftrightarrow> in_range 128 ?n (0x20010010 * 2 ^ 96, 28)"
    using in_range_orchid [OF l bs, unfolded ix] seg_is_iff [of b "0x0010" 4] bd by (simp add: mask_segs)
  let ?nat64 = "a = 0x64 \<and> b = 0xff9b \<and> c = 0 \<and> d = 0 \<and> e = 0 \<and> f = 0"
  have cls: "classify_v6 gs = Public \<longleftrightarrow>
      (if [a, b, c, d, e, f] = [0, 0, 0, 0, 0, 0xffff] then \<not> special_v4 (g * 65536 + h)
       else gs \<noteq> [0, 0, 0, 0, 0, 0, 0, 0] \<and> gs \<noteq> [0, 0, 0, 0, 0, 0, 0, 1]
         \<and> \<not> seg_is a 0xff00 0xff00 \<and> \<not> seg_is a 0xfe00 0xfc00 \<and> \<not> seg_is a 0xffc0 0xfe80
         \<and> (if ?nat64 then \<not> special_v4 (g * 65536 + h) else if a = 0x2002 then \<not> special_v4 (b * 65536 + c)
            else \<not> (a = 0x2001 \<and> b = 0) \<and> \<not> (a = 0x2001 \<and> b = 0x0db8) \<and> \<not> (a = 0x0100 \<and> b = 0 \<and> c = 0 \<and> d = 0)
              \<and> \<not> seg_is a 0xffc0 0xfec0 \<and> \<not> (a = 0x2001 \<and> (b = 2 \<or> seg_is b 0xfff0 0x0010))))"
    using v4 [of g h] v4 [of b c] bd unfolding classify_v6_def ix tk by (simp del: One_nat_def)
  have spc: "special_v6 ?n \<longleftrightarrow>
      (if [a, b, c, d, e, f] = [0, 0, 0, 0, 0, 0xffff] \<or> [a, b, c, d, e, f] = [0x64, 0xff9b, 0, 0, 0, 0] then special_v4 (g * 65536 + h)
       else if [a] = [0x2002] then special_v4 (b * 65536 + c)
       else gs = [0, 0, 0, 0, 0, 0, 0, 0] \<or> gs = [0, 0, 0, 0, 0, 0, 0, 1] \<or> [a, b, c, d] = [0x0100, 0, 0, 0] \<or> [a, b] = [0x2001, 0]
         \<or> [a, b] = [0x2001, 2] \<or> a = 0x2001 \<and> seg_is b 0xfff0 0x0010 \<or> [a, b] = [0x2001, 0x0db8] \<or> seg_is a 0xfe00 0xfc00
         \<or> seg_is a 0xffc0 0xfe80 \<or> seg_is a 0xffc0 0xfec0 \<or> seg_is a 0xff00 0xff00)"
    unfolding special_v6_def SPECIAL_V6_def list_ex_Cons_iff list_ex_Nil_iff r sg orchid low mid tk by (simp only: simp_thms)
  have sm: "\<not> seg_is x 0xff00 0xff00" "\<not> seg_is x 0xfe00 0xfc00" "\<not> seg_is x 0xffc0 0xfe80" "\<not> seg_is x 0xffc0 0xfec0"
    if "x = 0x64 \<or> x = 0x2002" for x
    using that by (auto simp: seg_is_def)
  consider "a = 0x64" ?nat64 | "a = 0x64" "\<not> ?nat64" | "a = 0x2002" | "a \<noteq> 0x64" "a \<noteq> 0x2002" by blast
  then show ?thesis
  proof cases
    case 1
    then show ?thesis unfolding n cls spc by (simp add: sm gs)
  next
    case 2
    then show ?thesis unfolding n cls spc by (auto simp: sm gs)
  next
    case 3
    then show ?thesis unfolding n cls spc by (simp add: sm gs)
  next
    case 4
    then show ?thesis unfolding n cls spc list.inject
      by (cases "a = 0 \<and> b = 0 \<and> c = 0 \<and> d = 0 \<and> e = 0 \<and> f = 0xffff"; simp only: simp_thms if_True if_False; blast?)
  qed
qed

lemma classify_public: "ip_ok ip \<Longrightarrow> is_public (classify ip) \<longleftrightarrow> \<not> special_address ip"
  using classify_v4_public classify_v6_public by (cases ip) (simp_all add: is_public_def special_address_def)

section \<open>The policy reads the rules\<close>

lemma explicit_compiles:
  assumes "AclTable_new c rules = Inr t"
  obtains t' where "AclTable_new c (filter P rules) = Inr t'"
proof -
  have "\<forall>r \<in> set rules. \<exists>k. compile_rule c r = Inr k"
    using assms unfolding AclTable_new_rules list_all2_conv_all_nth by (metis in_set_conv_nth)
  then have "\<forall>r \<in> set (filter P rules). \<exists>k. compile_rule c r = Inr k" by simp
  then obtain ks where "list_all2 (\<lambda>r k. compile_rule c r = Inr k) (filter P rules) ks"
    by (metis (mono_tags, lifting) list_all2_map2 list.rel_map(2) list_all2_same)
  then have "AclTable_new c (filter P rules) = Inr \<lparr>acl_rules = ks\<rparr>" by (simp add: AclTable_new_rules)
  then show ?thesis by (rule that)
qed

text \<open>An access that is already allowed without a concrete address stays allowed for one that an address rule allows.\<close>

lemma covers_without_cidr:
  "rule_host_cidr r = None \<Longrightarrow> rule_covers c r (q\<lparr>query_ip := i\<rparr>) = rule_covers c r (q\<lparr>query_ip := j\<rparr>)"
  by (simp add: rule_covers_def)

lemma first_hit_merge:
  assumes "first_hit (\<lambda>r. \<not> cov r) (\<lambda>r. alw r \<and> cov r) (filter P rs)"
    and "first_hit (\<lambda>r. \<not> cov r) (\<lambda>r. alw r \<and> cov r) (filter (\<lambda>r. \<not> P r) rs)"
  shows "first_hit (\<lambda>r. \<not> cov r) (\<lambda>r. alw r \<and> cov r) rs"
  using assms by (induction rs) (auto split: if_splits)

lemma first_hit_cong:
  "(\<And>x. x \<in> set xs \<Longrightarrow> skip x = skip' x \<and> hit x = hit' x) \<Longrightarrow> first_hit skip hit xs = first_hit skip' hit' xs"
  by (induction xs) auto

lemma first_hit_drop: "(\<forall>r. P r \<longrightarrow> skip r \<and> \<not> hit r) \<Longrightarrow> first_hit skip hit (filter (\<lambda>r. \<not> P r) rs) = first_hit skip hit rs"
  by (induction rs) auto

lemma egress_tables:
  assumes "AclTable_new c rules = Inr t"
  shows "acl_check c (ep_all (from_rules c rules)) q = Allowed \<longleftrightarrow>
      first_hit (\<lambda>r. \<not> rule_covers c r q) (\<lambda>r. rule_allow r \<and> rule_covers c r q) rules"
    and "acl_check c (ep_explicit (from_rules c rules)) q = Allowed \<longleftrightarrow>
      first_hit (\<lambda>r. \<not> rule_covers c r q) (\<lambda>r. rule_allow r \<and> rule_covers c r q) (filter (\<lambda>r. rule_host_cidr r \<noteq> None) rules)"
proof -
  obtain t' where t': "AclTable_new c (filter (\<lambda>r. rule_host_cidr r \<noteq> None) rules) = Inr t'"
    using assms by (rule explicit_compiles)
  show "acl_check c (ep_all (from_rules c rules)) q = Allowed \<longleftrightarrow>
      first_hit (\<lambda>r. \<not> rule_covers c r q) (\<lambda>r. rule_allow r \<and> rule_covers c r q) rules"
    using acl_check_first_covering [OF assms, of q] by (simp add: from_rules_def table_or_deny_def assms first_hit_def conj_assoc)
  show "acl_check c (ep_explicit (from_rules c rules)) q = Allowed \<longleftrightarrow>
      first_hit (\<lambda>r. \<not> rule_covers c r q) (\<lambda>r. rule_allow r \<and> rule_covers c r q) (filter (\<lambda>r. rule_host_cidr r \<noteq> None) rules)"
    unfolding from_rules_def table_or_deny_def EgressPolicy.simps t' sum.case acl_check_first_covering [OF t', of q]
    by (simp add: first_hit_def conj_assoc)
qed

lemma egress_check_Inr:
  "egress_check c p q ip = Inr u \<longleftrightarrow>
   acl_check c (if is_public (classify ip) then ep_all p else ep_explicit p) (q\<lparr>query_ip := Some ip\<rparr>) = Allowed"
  by (simp add: egress_check_def Let_def)

text \<open>The two gates together: when the access list allows the access as it was asked for (a name, so no address yet)
  and the egress policy allows a resolved address, then the whole access list allows that address.\<close>

lemma egress_within_acl:
  assumes t: "AclTable_new c rules = Inr t" and name: "acl_check c t (q\<lparr>query_ip := None\<rparr>) = Allowed"
    and ok: "egress_check c (from_rules c rules) q ip = Inr u"
  shows "acl_check c t (q\<lparr>query_ip := Some ip\<rparr>) = Allowed"
proof -
  let ?q = "q\<lparr>query_ip := Some ip\<rparr>" and ?nm = "q\<lparr>query_ip := None\<rparr>" and ?cidr = "\<lambda>r. rule_host_cidr r \<noteq> None"
  note all = egress_tables(1) [OF t] and expl = egress_tables(2) [OF t]
  have tt: "ep_all (from_rules c rules) = t" by (simp add: from_rules_def table_or_deny_def t)
  show ?thesis
  proof (cases "is_public (classify ip)")
    case True
    with ok show ?thesis by (simp add: egress_check_Inr tt)
  next
    case False
    with ok have e: "first_hit (\<lambda>r. \<not> rule_covers c r ?q) (\<lambda>r. rule_allow r \<and> rule_covers c r ?q) (filter ?cidr rules)"
      by (simp only: egress_check_Inr expl [of ?q] if_False)
    have none: "\<forall>r. ?cidr r \<longrightarrow> \<not> rule_covers c r ?nm \<and> \<not> (rule_allow r \<and> rule_covers c r ?nm)"
      by (simp add: rule_covers_def)
    from name have "first_hit (\<lambda>r. \<not> rule_covers c r ?nm) (\<lambda>r. rule_allow r \<and> rule_covers c r ?nm) rules"
      using all [of ?nm] by (simp only: tt simp_thms)
    then have "first_hit (\<lambda>r. \<not> rule_covers c r ?nm) (\<lambda>r. rule_allow r \<and> rule_covers c r ?nm) (filter (\<lambda>r. \<not> ?cidr r) rules)"
      by (simp only: first_hit_drop [OF none])
    then have "first_hit (\<lambda>r. \<not> rule_covers c r ?q) (\<lambda>r. rule_allow r \<and> rule_covers c r ?q) (filter (\<lambda>r. \<not> ?cidr r) rules)"
      by (rule iffD1 [OF first_hit_cong, rotated]) (auto simp: covers_without_cidr [where i = "Some ip" and j = None])
    with e have "first_hit (\<lambda>r. \<not> rule_covers c r ?q) (\<lambda>r. rule_allow r \<and> rule_covers c r ?q) rules" by (rule first_hit_merge)
    then show ?thesis using all [of ?q] by (simp only: tt simp_thms)
  qed
qed

text \<open>Disputed addresses: ORCHIDv2, \<open>2001:20::/28\<close>, which the comment names as reserved, the carried loopback
  \<open>::127.0.0.1\<close>, and \<open>2001:2:1::\<close>, outside the benchmarking range the comment names.\<close>

lemma disputed_classes:
  "classify (V6 [0x2001, 0x0020, 0, 0, 0, 0, 0, 1]) = Public" "classify (V6 [0, 0, 0, 0, 0, 0, 0x7f00, 1]) = Public"
  "classify (V6 [0x2001, 2, 1, 0, 0, 0, 0, 0]) = Reserved"
  by (simp_all add: classify_v6_def seg_is_def)

section \<open>Properties\<close>

text \<open>C28: What public egress may dial, for every address on which the code and its comments agree (the few disputed
  ranges of \<open>disputed_address\<close> are left out): an address is allowed exactly when, reading the configured rules in order
  and for this caller, port and protocol, the first rule that covers the concrete address allows it, where for an address
  inside one of the special ranges (loopback, private, link-local and metadata, unique-local, shared, multicast,
  reserved, also when carried in a mapped, NAT64 or 6to4 address) only the rules that write an address range down are
  read. A general "any address" rule never opens a special address.\<close>

theorem egress_allows_iff:
  assumes "AclTable_new c rules = Inr t" "ip_ok ip" "\<not> disputed_address ip"
  shows "egress_check c (from_rules c rules) q ip = Inr () \<longleftrightarrow>
    (\<exists>pre r post. (if special_address ip then filter (\<lambda>r. rule_host_cidr r \<noteq> None) rules else rules) = pre @ r # post
       \<and> rule_allow r \<and> rule_covers c r (q\<lparr>query_ip := Some ip\<rparr>)
       \<and> (\<forall>r' \<in> set pre. \<not> rule_covers c r' (q\<lparr>query_ip := Some ip\<rparr>)))"
  using egress_tables [OF assms(1), of "q\<lparr>query_ip := Some ip\<rparr>"] classify_public [OF assms(2)]
  by (simp add: egress_check_Inr first_hit_def conj_assoc)

text \<open>A concrete net crate: a net is the list of leading octets it fixes.\<close>

definition octet_nets :: "nat list ipnet_crate" where
  "octet_nets = \<lparr>parse_net = (\<lambda>s. if s = ''127.0.0.0/8'' then Some [127] else None),
     net_contains = (\<lambda>net ip. case ip of V4 os \<Rightarrow> take (length net) os = net | V6 _ \<Rightarrow> False)\<rparr>"

definition any_address :: AclRule where
  "any_address = \<lparr>rule_caller = ''a'', rule_action = ConnectAddress, rule_allow = True, rule_node = None,
     rule_service = None, rule_host_cidr = None, rule_ports = None, rule_proto = None\<rparr>"

theorem egress_allows_iff_witness:
  "let q = \<lparr>query_caller = ''a'', query_action = ConnectAddress, query_node = None, query_service = None,
        query_ip = None, query_port = Some 80, query_proto = Tcp\<rparr>;
      loop = any_address\<lparr>rule_host_cidr := Some ''127.0.0.0/8''\<rparr>
   in egress_check octet_nets (from_rules octet_nets [any_address]) q (V4 [127, 0, 0, 1]) \<noteq> Inr ()
    \<and> egress_check octet_nets (from_rules octet_nets [any_address, loop]) q (V4 [127, 0, 0, 1]) = Inr ()"
proof -
  let ?q = "\<lparr>query_caller = ''a'', query_action = ConnectAddress, query_node = None, query_service = None,
        query_ip = None, query_port = Some 80, query_proto = Tcp\<rparr>"
  let ?loop = "any_address\<lparr>rule_host_cidr := Some ''127.0.0.0/8''\<rparr>"
  have sp: "special_address (V4 [127, 0, 0, 1])"
    using ip_number_V4 [of 127 0 0 1] by (simp add: special_address_def special_v4_def SPECIAL_V4_def in_range_def quad_def)
  have c1: "AclTable_new octet_nets [any_address] = Inr \<lparr>acl_rules = [\<lparr>compiled_rule = any_address, compiled_net = None\<rparr>]\<rparr>"
    by (simp add: AclTable_new_def compile_rule_def any_address_def)
  have c2: "AclTable_new octet_nets [any_address, ?loop] = Inr \<lparr>acl_rules = [\<lparr>compiled_rule = any_address, compiled_net = None\<rparr>,
      \<lparr>compiled_rule = ?loop, compiled_net = Some [127]\<rparr>]\<rparr>"
    by (simp add: AclTable_new_def compile_rule_def any_address_def octet_nets_def)
  have ok: "ip_ok (V4 [127, 0, 0, 1])" by simp
  have "rule_covers octet_nets ?loop (?q\<lparr>query_ip := Some (V4 [127, 0, 0, 1])\<rparr>)"
    by (simp add: rule_covers_def any_address_def octet_nets_def)
  then have "[?loop] = [] @ ?loop # [] \<and> rule_allow ?loop \<and> rule_covers octet_nets ?loop (?q\<lparr>query_ip := Some (V4 [127, 0, 0, 1])\<rparr>)
      \<and> (\<forall>r' \<in> set []. \<not> rule_covers octet_nets r' (?q\<lparr>query_ip := Some (V4 [127, 0, 0, 1])\<rparr>))"
    by (simp add: any_address_def)
  moreover have "filter (\<lambda>r. rule_host_cidr r \<noteq> None) [any_address, ?loop] = [?loop]"
    "filter (\<lambda>r. rule_host_cidr r \<noteq> None) [any_address] = []" by (simp_all add: any_address_def)
  moreover have nd: "\<not> disputed_address (V4 [127, 0, 0, 1])" by (simp add: disputed_address_def)
  ultimately show ?thesis
    unfolding Let_def egress_allows_iff [OF c1 ok nd] egress_allows_iff [OF c2 ok nd] using sp by (metis Nil_is_append_conv list.discI)
qed

end
