(* ===== verification/Hub_Core.thy ===== *)
theory Hub_Core
  imports Hub_Session Guard Egress Router Registry Handshake Nonce Bind Transport
begin

text \<open>
  \<open>crates/wsnet-hub/src/hub.rs\<close>, first half: credentials, authentication, authorisation of an \<open>Open\<close>, the directory
  broadcast and the teardown of a session. Time and randomness are arguments: \<open>now\<close> is the reading of the Hub's clock,
  \<open>fresh\<close> the session id, epoch and nonce drawn for a new session.
\<close>

section \<open>Constants and plans\<close>

definition DEFAULT_SESSION_TTL_SECS :: int where "DEFAULT_SESSION_TTL_SECS = 900"
definition CARRIER_PATHS :: "string list" where "CARRIER_PATHS = [''/m'', ''/e'', ''/w'']"
definition MAX_PUMP_ROUNDS :: nat where "MAX_PUMP_ROUNDS = 8"

definition DETAIL_INVALID_DESTINATION :: string where "DETAIL_INVALID_DESTINATION = ''destination is not a valid target''"
definition DETAIL_CHAIN_LOOP :: string where "DETAIL_CHAIN_LOOP = ''via chain loops back to the caller''"
definition DETAIL_CHAIN_DUPLICATE :: string where "DETAIL_CHAIN_DUPLICATE = ''via chain repeats a node''"
definition DETAIL_CHAIN_TOO_LONG :: string where "DETAIL_CHAIN_TOO_LONG = ''via chain exceeds the hop budget''"
definition DETAIL_CHAIN_INVALID :: string where "DETAIL_CHAIN_INVALID = ''via chain is not a chain of node slugs''"
definition DETAIL_CHAIN_PUBLISHER :: string where "DETAIL_CHAIN_PUBLISHER = ''via chain names the destination node''"
definition DETAIL_ACL_DENIED :: string where "DETAIL_ACL_DENIED = ''no acl rule permits this access''"
definition DETAIL_RELAY_NOT_ALLOWED :: string where
  "DETAIL_RELAY_NOT_ALLOWED = ''relay_allow does not permit a hop in this chain''"
definition DETAIL_RELAY_ACL_DENIED :: string where
  "DETAIL_RELAY_ACL_DENIED = ''no acl rule permits relaying through this hop''"
definition DETAIL_SERVICE_OFFLINE :: string where
  "DETAIL_SERVICE_OFFLINE = ''the publishing node has no live lease on this hub''"
definition DETAIL_SERVICE_PROTO :: string where
  "DETAIL_SERVICE_PROTO = ''the published service protocol differs from the open''"
definition DETAIL_SERVICE_STALE :: string where "DETAIL_SERVICE_STALE = ''the pinned service revision is stale''"

datatype ExitPlan =
    HubExit string nat                    \<comment> \<open>host, port\<close>
  | ServiceExit string string string nat  \<comment> \<open>node, service, target, revision\<close>
  | NodeExit string string nat            \<comment> \<open>node, host, port\<close>
  | RelayPlan "string list"               \<comment> \<open>hops\<close>

record OpenRefusal =
  ref_status :: OpenStatus
  ref_detail :: string

definition denied :: "string \<Rightarrow> OpenRefusal" where "denied d = \<lparr>ref_status = StatusDenied, ref_detail = d\<rparr>"
definition refused :: "string \<Rightarrow> OpenRefusal" where "refused d = \<lparr>ref_status = Refused, ref_detail = d\<rparr>"
definition offline :: "string \<Rightarrow> OpenRefusal" where "offline d = \<lparr>ref_status = Offline, ref_detail = d\<rparr>"

datatype AuthFailure =
    AuthMalformed
  | UnknownNode
  | AuthBadMac
  | AuthNonce AuthStoreError
  | AuthUnsupportedCapability
  | AuthRateLimited

record ProfilePaths =
  pp_page :: string
  pp_script :: string
  pp_style :: string
  pp_json :: string

definition profile_paths_default :: ProfilePaths where
  "profile_paths_default =
     \<lparr>pp_page = ''/transport/page'', pp_script = ''/transport/script'', pp_style = ''/transport/style'',
      pp_json = ''/transport/api''\<rparr>"

definition profile_entries :: "ProfilePaths \<Rightarrow> (string \<times> Carrier) list" where
  "profile_entries p =
     [(pp_page p, HtmlProfile), (pp_script p, JsProfile), (pp_style p, CssProfile), (pp_json p, JsonProfile)]"

definition carrier_for :: "ProfilePaths \<Rightarrow> string \<Rightarrow> Carrier option" where
  "carrier_for p path = map_option snd (List.find (\<lambda>(candidate, _). candidate = path) (profile_entries p))"

section \<open>Credentials\<close>

type_synonym NodeSecrets = "((string \<times> string) \<times> Psk) list"

definition secrets_insert :: "NodeSecrets \<Rightarrow> string \<Rightarrow> string \<Rightarrow> Psk \<Rightarrow> NodeSecrets" where
  "secrets_insert s node_id key_id psk = bt_insert (key_id, node_id) psk s"

definition secrets_get :: "NodeSecrets \<Rightarrow> string \<Rightarrow> string \<Rightarrow> Psk option" where
  "secrets_get s key_id node_id = map_of s (key_id, node_id)"

definition result_ok :: "'e + 'a \<Rightarrow> 'a option" where
  "result_ok r = (case r of Inl _ \<Rightarrow> None | Inr x \<Rightarrow> Some x)"

definition parse_secret :: "hex_crate \<Rightarrow> bytes \<Rightarrow> Psk option" where
  "parse_secret h bs =
     (case from_utf8 bs of
        Some text \<Rightarrow>
          (let trimmed = trim text in
           if length trimmed = 64 then
             (case hex_dec h trimmed of
                Some raw \<Rightarrow> result_ok (try_from_slice raw)
              | None \<Rightarrow> result_ok (try_from_slice bs))
           else result_ok (try_from_slice bs))
      | None \<Rightarrow> result_ok (try_from_slice bs))"

section \<open>The Hub\<close>

record 'net Hub =
  hb_hub_id :: string
  hb_secrets :: NodeSecrets
  hb_profiles :: ProfilePaths
  hb_acl :: "'net AclTable"
  hb_relay :: RelayAllow
  hb_egress :: "'net EgressPolicy"
  hb_nonces :: NonceStore
  hb_registry :: Registry
  hb_sessions :: Sessions
  hb_guards :: DosGuards
  hb_session_ttl :: int

definition carrier_for_path :: "'net Hub \<Rightarrow> string \<Rightarrow> Carrier" where
  "carrier_for_path hub path =
     (if path = ''/m'' then Post else case carrier_for (hb_profiles hub) path of Some c \<Rightarrow> c | None \<Rightarrow> Post)"

abbreviation entry_at :: "'net Hub \<Rightarrow> nat \<Rightarrow> SessionEntry" where
  "entry_at hub r \<equiv> ss_heap (hb_sessions hub) ! r"

definition with_heap :: "'net Hub \<Rightarrow> entries \<Rightarrow> 'net Hub" where
  "with_heap hub es = hub\<lparr>hb_sessions := (hb_sessions hub)\<lparr>ss_heap := es\<rparr>\<rparr>"

definition on_entry :: "'net Hub \<Rightarrow> nat \<Rightarrow> (SessionEntry \<Rightarrow> SessionEntry) \<Rightarrow> 'net Hub" where
  "on_entry hub r f = with_heap hub (update_entry (ss_heap (hb_sessions hub)) r f)"

definition on_engine :: "'net Hub \<Rightarrow> nat \<Rightarrow> (Session \<Rightarrow> 'a outcome) \<Rightarrow> 'net Hub \<times> (SessionError + 'a)" where
  "on_engine hub r f = (let (es, res) = engine_call f (ss_heap (hb_sessions hub)) r in (with_heap hub es, res))"

definition session_for_node :: "'net Hub \<Rightarrow> string \<Rightarrow> nat option" where
  "session_for_node hub node_id =
     (case node (hb_registry hub) node_id of
        None \<Rightarrow> None
      | Some lease \<Rightarrow>
          (case sessions_get (hb_sessions hub) (nl_session_id lease) of
             None \<Rightarrow> None
           | Some r \<Rightarrow>
               if se_closed (entry_at hub r) \<or> se_node_id (entry_at hub r) \<noteq> node_id then None else Some r))"

section \<open>The directory\<close>

definition peer_list_canonical :: "PeerList \<Rightarrow> Canonical" where
  "peer_list_canonical l =
     object
       [(''hub'', Str (pl_hub_id l)),
        (''services'', Array (concat (map (\<lambda>n. map (\<lambda>s.
           object [(''name'', Str (sd_service_name s)), (''node'', Str (sd_node_id s)),
             (''proto'', Str (proto_as_str (sd_proto s))), (''revision'', u64_decimal (sd_revision s))])
           (pn_services n)) (pl_nodes l)))),
        (''version'', u64_decimal (pl_revision l))]"

definition send_directory :: "crypto_crate \<Rightarrow> 'net ipnet_crate \<Rightarrow> 'net Hub \<Rightarrow> nat \<Rightarrow> 'net Hub" where
  "send_directory cr c hub r =
     (if se_closed (entry_at hub r) then hub
      else
        let l = peer_list c (hb_registry hub) (se_node_id (entry_at hub r)) (hb_acl hub) in
        case on_engine hub r (\<lambda>s. send_peer_list cr s (peer_list_canonical l)) of
          (hub, Inl _) \<Rightarrow> hub
        | (hub, Inr _) \<Rightarrow> on_entry hub r flush_outbound)"

definition broadcast_peer_lists :: "crypto_crate \<Rightarrow> 'net ipnet_crate \<Rightarrow> 'net Hub \<Rightarrow> 'net Hub" where
  "broadcast_peer_lists cr c hub = foldl (send_directory cr c) hub (sessions_snapshot (hb_sessions hub))"

section \<open>Teardown\<close>

definition close_session :: "crypto_crate \<Rightarrow> 'net ipnet_crate \<Rightarrow> 'net Hub \<Rightarrow> bytes \<Rightarrow> bytes \<Rightarrow> 'net Hub" where
  "close_session cr c hub session_id epoch =
     (case sessions_get (hb_sessions hub) session_id of
        None \<Rightarrow> hub
      | Some r \<Rightarrow>
          if se_epoch (entry_at hub r) \<noteq> epoch then hub
          else
            let (ss, removed) = remove_if_epoch (hb_sessions hub) session_id epoch in
            if \<not> removed then hub
            else
              let hub = on_entry (hub\<lparr>hb_sessions := ss\<rparr>) r (\<lambda>e.
                    close_streams (e\<lparr>se_closed := True, se_engine := set_state (se_engine e) StClosed\<rparr>));
                  (reg, res) = unregister (hb_registry hub) (se_node_id (entry_at hub r)) session_id epoch;
                  hub = hub\<lparr>hb_registry := reg\<rparr>
              in if res = Inr True then broadcast_peer_lists cr c hub else hub)"

definition reap_expired_sessions :: "crypto_crate \<Rightarrow> 'net ipnet_crate \<Rightarrow> 'net Hub \<Rightarrow> Now \<Rightarrow> 'net Hub \<times> nat" where
  "reap_expired_sessions cr c hub now =
     (let expired = sessions_expired (hb_sessions hub) (wall_secs now) in
      (foldl (\<lambda>hub r. close_session cr c hub (se_session_id (entry_at hub r)) (se_epoch (entry_at hub r))) hub expired,
       length expired))"

section \<open>Authentication\<close>

record fresh =
  fr_session_id :: bytes
  fr_epoch :: bytes
  fr_nonce :: bytes

definition create_session ::
    "crypto_crate \<Rightarrow> hex_crate \<Rightarrow> 'net Hub \<Rightarrow> Now \<Rightarrow> fresh \<Rightarrow> Psk \<Rightarrow> AuthFields \<Rightarrow> string list \<Rightarrow> 'net Hub \<times> nat \<times> Record" where
  "create_session cr h hub now fr psk flds capabilities =
     (let authok = \<lparr>aok_session_id = fr_session_id fr, aok_session_epoch = fr_epoch fr,
            aok_attempt_id = auth_attempt_id flds, aok_server_nonce = fr_nonce fr,
            aok_expires_at = wrap_i64 (wall_secs now + hb_session_ttl hub), aok_capabilities = capabilities\<rparr>;
          m = authok_mac cr psk (auth_mac cr psk flds) authok;
          authok_record = record_new AuthOk (auth_ok_to_canonical h (authok, m));
          ks = session_keys cr h psk flds authok;
          cfg = SessionConfig_new (hb_hub_id hub) (auth_node_id flds) (fr_session_id fr) (fr_epoch fr) HubSide;
          session = set_state (Session_new cfg ks) StBinding;
          e = entry_new (fr_session_id fr) (fr_epoch fr) (auth_node_id flds) (auth_key_id flds) (aok_expires_at authok) ks session;
          (ss, r) = sessions_insert (hb_sessions hub) e
      in (hub\<lparr>hb_sessions := ss\<rparr>, r, authok_record))"

definition authenticate ::
    "(rat \<Rightarrow> rat) \<Rightarrow> crypto_crate \<Rightarrow> hex_crate \<Rightarrow> 'net Hub \<Rightarrow> Now \<Rightarrow> fresh \<Rightarrow> Record \<Rightarrow> IpAddr
     \<Rightarrow> 'net Hub \<times> (AuthFailure + nat \<times> Record)" where
  "authenticate rnd cr h hub now fr rc peer_ip =
     (if kind rc \<noteq> Auth \<or> payload rc \<noteq> [] then (hub, Inl AuthMalformed)
      else case auth_from_canonical h (metadata rc) of
        Inl _ \<Rightarrow> (hub, Inl AuthMalformed)
      | Inr (flds, presented) \<Rightarrow>
      case spend_auth_token rnd (hb_guards hub) peer_ip (monotonic_ms now) of
        (g, Inl _) \<Rightarrow> (hub\<lparr>hb_guards := g\<rparr>, Inl AuthRateLimited)
      | (g, Inr _) \<Rightarrow>
      let hub = hub\<lparr>hb_guards := g\<rparr> in
      if auth_hub_id flds \<noteq> hb_hub_id hub then (hub, Inl UnknownNode)
      else case secrets_get (hb_secrets hub) (auth_key_id flds) (auth_node_id flds) of
        None \<Rightarrow> (hub, Inl UnknownNode)
      | Some psk \<Rightarrow>
      case verify_auth cr h psk (metadata rc) of
        Inl _ \<Rightarrow> (hub, Inl AuthBadMac)
      | Inr _ \<Rightarrow>
      case negotiate_capabilities (auth_capabilities flds) of
        Inl _ \<Rightarrow> (hub, Inl AuthUnsupportedCapability)
      | Inr capabilities \<Rightarrow>
      case register (hb_nonces hub)
             \<lparr>nk_hub_id = hb_hub_id hub, nk_key_id = auth_key_id flds, nk_node_id = auth_node_id flds, nk_nonce = auth_nonce flds\<rparr>
             (auth_ts flds) now of
        (ns, Inl e) \<Rightarrow> (hub\<lparr>hb_nonces := ns\<rparr>, Inl (AuthNonce e))
      | (ns, Inr _) \<Rightarrow>
      let (hub, r, authok) = create_session cr h (hub\<lparr>hb_nonces := ns\<rparr>) now fr psk flds capabilities in
      (hub, Inr (r, authok)))"

section \<open>Authorisation\<close>

primrec chain_detail :: "RouteError \<Rightarrow> string" where
  "chain_detail (TooManyHops _ _) = DETAIL_CHAIN_TOO_LONG"
| "chain_detail (DuplicateHop _) = DETAIL_CHAIN_DUPLICATE"
| "chain_detail (SelfLoop _) = DETAIL_CHAIN_LOOP"
| "chain_detail (DestinationInPath _) = DETAIL_CHAIN_PUBLISHER"
| "chain_detail (HopNotASlug _) = DETAIL_CHAIN_INVALID"
| "chain_detail (InvalidPattern _) = DETAIL_CHAIN_INVALID"

definition open_query :: "string \<Rightarrow> OpenFields \<Rightarrow> AclQuery" where
  "open_query caller f =
     (case open_destination f of
        Address host port \<Rightarrow>
          \<lparr>query_caller = caller, query_action = ConnectAddress, query_node = None, query_service = None,
           query_ip = parse_ip host, query_port = Some port, query_proto = open_proto f\<rparr>
      | Service nd name _ \<Rightarrow>
          \<lparr>query_caller = caller, query_action = ConnectService, query_node = Some nd, query_service = Some name,
           query_ip = None, query_port = None, query_proto = open_proto f\<rparr>
      | NodeAddress nd host port \<Rightarrow>
          \<lparr>query_caller = caller, query_action = ConnectNodeAddress, query_node = Some nd, query_service = None,
           query_ip = parse_ip host, query_port = Some port, query_proto = open_proto f\<rparr>)"

definition relay_query :: "string \<Rightarrow> OpenFields \<Rightarrow> string \<Rightarrow> AclQuery" where
  "relay_query caller f hop =
     \<lparr>query_caller = caller, query_action = Relay, query_node = Some hop, query_service = None, query_ip = None,
      query_port = None, query_proto = open_proto f\<rparr>"

fun relay_hops :: "'net ipnet_crate \<Rightarrow> 'net Hub \<Rightarrow> string \<Rightarrow> OpenFields \<Rightarrow> string list \<Rightarrow> OpenRefusal + unit" where
  "relay_hops c hub caller f [] = Inr ()"
| "relay_hops c hub caller f (hop # hops) =
     (if \<not> relay_is_allowed (hb_relay hub) hop then Inl (denied DETAIL_RELAY_NOT_ALLOWED)
      else if \<not> is_allowed (acl_check c (hb_acl hub) (relay_query caller f hop)) then Inl (denied DETAIL_RELAY_ACL_DENIED)
      else relay_hops c hub caller f hops)"

definition final_leg :: "'net Hub \<Rightarrow> OpenFields \<Rightarrow> OpenRefusal + ExitPlan" where
  "final_leg hub f =
     (case open_destination f of
        Service nd name revision \<Rightarrow>
          (case lookup (hb_registry hub) nd name of
             None \<Rightarrow> Inl (offline DETAIL_SERVICE_OFFLINE)
           | Some lease \<Rightarrow>
               if sl_proto lease \<noteq> open_proto f then Inl (refused DETAIL_SERVICE_PROTO)
               else if (case revision of Some pinned \<Rightarrow> pinned \<noteq> sl_revision lease | None \<Rightarrow> False)
               then Inl (refused DETAIL_SERVICE_STALE)
               else Inr (ServiceExit (sl_node_id lease) (sl_service_name lease) (sl_target lease) (sl_revision lease)))
      | NodeAddress nd host port \<Rightarrow>
          if node (hb_registry hub) nd = None then Inl (offline DETAIL_SERVICE_OFFLINE) else Inr (NodeExit nd host port)
      | Address host port \<Rightarrow> Inr (HubExit host port))"

definition authorize_open :: "'net ipnet_crate \<Rightarrow> 'net Hub \<Rightarrow> string \<Rightarrow> OpenFields \<Rightarrow> OpenRefusal + ExitPlan" where
  "authorize_open c hub caller f =
     (if \<not> is_ok (dest_validate (open_destination f)) then Inl (denied DETAIL_INVALID_DESTINATION)
      else case validate_chain caller (open_via f) (open_destination f) of
        Inl e \<Rightarrow> Inl (denied (chain_detail e))
      | Inr _ \<Rightarrow>
          if \<not> is_allowed (acl_check c (hb_acl hub) (open_query caller f)) then Inl (denied DETAIL_ACL_DENIED)
          else if open_via f \<noteq> [] then rbind (relay_hops c hub caller f (open_via f)) (\<lambda>_. Inr (RelayPlan (open_via f)))
          else final_leg hub f)"

definition refuse_open :: "crypto_crate \<Rightarrow> hex_crate \<Rightarrow> 'net Hub \<Rightarrow> nat \<Rightarrow> OpenFields \<Rightarrow> OpenStatus \<Rightarrow> string \<Rightarrow> 'net Hub" where
  "refuse_open cr h hub r f status detail =
     on_entry (fst (on_engine hub r (\<lambda>s. send_open_result cr h s
       \<lparr>res_request_id = open_request_id f, res_stream_id = open_stream_id f, res_status = status, res_detail = detail\<rparr>)))
       r flush_outbound"

section \<open>The listen address\<close>

datatype HubStartError = NonLoopbackListen string | InvalidListen string

definition parse_listen :: "string \<Rightarrow> HubStartError + IpAddr \<times> nat" where
  "parse_listen value =
     rbind (case strip_prefix ''['' value of
              Some rest \<Rightarrow>
                (case split_once (CHR '']'') rest of
                   None \<Rightarrow> Inl (InvalidListen value)
                 | Some (host, after) \<Rightarrow>
                     (case strip_prefix '':'' after of None \<Rightarrow> Inl (InvalidListen value) | Some port \<Rightarrow> Inr (host, port)))
            | None \<Rightarrow>
                (case rsplit_once (CHR '':'') value of
                   None \<Rightarrow> Inl (InvalidListen value)
                 | Some (host, port) \<Rightarrow> if CHR '':'' \<in> set host then Inl (InvalidListen value) else Inr (host, port)))
       (\<lambda>(host, port_text).
          rbind (ok_or (InvalidListen value) (parse_unsigned 65535 port_text)) (\<lambda>port.
          rbind (if eq_ignore_ascii_case host ''localhost'' then Inr (V4 [127, 0, 0, 1])
                 else ok_or (InvalidListen value) (parse_ip host)) (\<lambda>ip.
            if \<not> is_loopback ip then Inl (NonLoopbackListen value) else Inr (ip, port))))"

section \<open>Authorisation against the configured rules\<close>

text \<open>The rules permit an access: the first one that covers it allows it.\<close>

definition permitted :: "'net ipnet_crate \<Rightarrow> AclRule list \<Rightarrow> AclQuery \<Rightarrow> bool" where
  "permitted c rules q \<longleftrightarrow>
     (\<exists>pre r post. rules = pre @ r # post \<and> rule_allow r \<and> rule_covers c r q \<and> (\<forall>r' \<in> set pre. \<not> rule_covers c r' q))"

lemma acl_permitted:
  assumes "AclTable_new c rules = Inr t"
  shows "is_allowed (acl_check c t q) \<longleftrightarrow> permitted c rules q"
  using acl_check_first_covering [OF assms, of q] by (cases "acl_check c t q") (simp_all add: permitted_def)

lemma relay_hops_ok:
  assumes "AclTable_new c rules = Inr (hb_acl hub)"
  shows "relay_hops c hub caller f hops = Inr () \<longleftrightarrow>
    (\<forall>hop \<in> set hops. relay_is_allowed (hb_relay hub) hop \<and> permitted c rules (relay_query caller f hop))"
  by (induction hops) (auto simp: acl_permitted [OF assms])

lemma lookup_names:
  assumes "reg_inv r" "lookup r nd name = Some lease"
  shows "sl_node_id lease = nd \<and> sl_service_name lease = name"
  using assms by (auto simp: lookup_def reg_inv_def lease_ok_def service_ok_def split: option.splits)

definition final_leg_ok :: "'net Hub \<Rightarrow> OpenFields \<Rightarrow> ExitPlan \<Rightarrow> bool" where
  "final_leg_ok hub f plan =
     (case open_destination f of
        Address host port \<Rightarrow> plan = HubExit host port
      | NodeAddress nd host port \<Rightarrow> is_registered (hb_registry hub) nd \<and> plan = NodeExit nd host port
      | Service nd name revision \<Rightarrow>
          (\<exists>lease. lookup (hb_registry hub) nd name = Some lease \<and> sl_proto lease = open_proto f
             \<and> (revision = None \<or> revision = Some (sl_revision lease))
             \<and> plan = ServiceExit nd name (sl_target lease) (sl_revision lease)))"

lemma final_leg_iff:
  assumes "reg_inv (hb_registry hub)"
  shows "final_leg hub f = Inr plan \<longleftrightarrow> final_leg_ok hub f plan"
proof (cases "open_destination f")
  case (Service nd name revision)
  show ?thesis
  proof (cases "lookup (hb_registry hub) nd name")
    case (Some lease)
    with lookup_names [OF assms Some] Service show ?thesis
      by (auto simp: final_leg_def final_leg_ok_def split: option.splits)
  qed (use Service in \<open>simp add: final_leg_def final_leg_ok_def\<close>)
qed (auto simp: final_leg_def final_leg_ok_def is_registered_def node_def)

lemma authorize_open_iff:
  assumes "AclTable_new c rules = Inr (hb_acl hub)" "reg_inv (hb_registry hub)"
  shows "authorize_open c hub caller f = Inr plan \<longleftrightarrow>
     is_ok (dest_validate (open_destination f)) \<and> validate_chain caller (open_via f) (open_destination f) = Inr ()
     \<and> permitted c rules (open_query caller f)
     \<and> (if open_via f = [] then final_leg_ok hub f plan
        else plan = RelayPlan (open_via f)
          \<and> (\<forall>hop \<in> set (open_via f). relay_is_allowed (hb_relay hub) hop \<and> permitted c rules (relay_query caller f hop)))"
proof (cases "validate_chain caller (open_via f) (open_destination f)")
  case (Inr u)
  then show ?thesis
    using relay_hops_ok [OF assms(1), of caller f "open_via f"] final_leg_iff [OF assms(2), of f plan]
    by (cases "relay_hops c hub caller f (open_via f)")
      (auto simp: authorize_open_def acl_permitted [OF assms(1)])
qed (auto simp: authorize_open_def)

section \<open>Authentication\<close>

definition auth_key :: "AuthFields \<Rightarrow> NonceKey" where
  "auth_key flds = \<lparr>nk_hub_id = auth_hub_id flds, nk_key_id = auth_key_id flds, nk_node_id = auth_node_id flds,
     nk_nonce = auth_nonce flds\<rparr>"

inductive auth_accepted ::
    "(rat \<Rightarrow> rat) \<Rightarrow> crypto_crate \<Rightarrow> hex_crate \<Rightarrow> 'net Hub \<Rightarrow> Now \<Rightarrow> fresh \<Rightarrow> Record \<Rightarrow> IpAddr
     \<Rightarrow> AuthFields \<Rightarrow> Psk \<Rightarrow> 'net Hub \<Rightarrow> nat \<Rightarrow> Record \<Rightarrow> bool"
  for rnd cr h hub now fr rc ip where
  accepted: "auth_accepted rnd cr h hub now fr rc ip flds psk hub' r ok"
  if "kind rc = Auth" "payload rc = []" "auth_hub_id flds = hb_hub_id hub"
    "verify_auth cr h psk (metadata rc) = Inr flds"
    "secrets_get (hb_secrets hub) (auth_key_id flds) (auth_node_id flds) = Some psk"
    "spend_auth_token rnd (hb_guards hub) ip (monotonic_ms now) = (g, Inr u)"
    "negotiate_capabilities (auth_capabilities flds) = Inr caps"
    "register (hb_nonces hub) (auth_key flds) (auth_ts flds) now = (ns, Inr v)"
    "create_session cr h (hub\<lparr>hb_guards := g, hb_nonces := ns\<rparr>) now fr psk flds caps = (hub', r, ok)"

inductive_cases auth_acceptedE: "auth_accepted rnd cr h hub now fr rc ip flds psk hub' r ok"

lemma verify_auth_fields: "verify_auth cr h psk v = Inr f \<Longrightarrow> \<exists>tag. auth_from_canonical h v = Inr (f, tag)"
  by (auto simp: verify_auth_iff)

lemma authenticate_Inr:
  assumes "authenticate rnd cr h hub now fr rc ip = (hub', Inr (r, ok))"
  obtains flds psk where "auth_accepted rnd cr h hub now fr rc ip flds psk hub' r ok"
proof -
  have k: "kind rc = Auth" "payload rc = []" using assms by (auto simp: authenticate_def split: if_splits)
  obtain flds tag where f: "auth_from_canonical h (metadata rc) = Inr (flds, tag)"
    using assms k by (cases "auth_from_canonical h (metadata rc)") (auto simp: authenticate_def)
  obtain g where g: "spend_auth_token rnd (hb_guards hub) ip (monotonic_ms now) = (g, Inr ())"
    using assms k f by (cases "spend_auth_token rnd (hb_guards hub) ip (monotonic_ms now)"; cases "snd (spend_auth_token rnd (hb_guards hub) ip (monotonic_ms now))")
      (auto simp: authenticate_def)
  have hid: "auth_hub_id flds = hb_hub_id hub" using assms k f g by (auto simp: authenticate_def Let_def split: if_splits)
  obtain psk where p: "secrets_get (hb_secrets hub) (auth_key_id flds) (auth_node_id flds) = Some psk"
    using assms k f g hid by (cases "secrets_get (hb_secrets hub) (auth_key_id flds) (auth_node_id flds)") (auto simp: authenticate_def)
  obtain flds' where va: "verify_auth cr h psk (metadata rc) = Inr flds'"
    using assms k f g hid p by (cases "verify_auth cr h psk (metadata rc)") (auto simp: authenticate_def)
  with verify_auth_fields [OF va] f have va: "verify_auth cr h psk (metadata rc) = Inr flds" by auto
  obtain caps where n: "negotiate_capabilities (auth_capabilities flds) = Inr caps"
    using assms k f g hid p va by (cases "negotiate_capabilities (auth_capabilities flds)") (auto simp: authenticate_def)
  have key: "\<lparr>nk_hub_id = hb_hub_id hub, nk_key_id = auth_key_id flds, nk_node_id = auth_node_id flds, nk_nonce = auth_nonce flds\<rparr>
      = auth_key flds" by (simp add: auth_key_def hid)
  obtain ns res where rg: "register (hb_nonces hub) (auth_key flds) (auth_ts flds) now = (ns, res)" by fastforce
  with assms k f g hid p va n key obtain u where "res = Inr u" by (cases res) (auto simp: authenticate_def)
  with assms k f g hid p va n key rg
  have "create_session cr h (hub\<lparr>hb_guards := g, hb_nonces := ns\<rparr>) now fr psk flds caps = (hub', r, ok)"
    by (auto simp: authenticate_def split: prod.splits)
  with k hid va p g n rg \<open>res = Inr u\<close> show ?thesis by (intro that accepted) simp_all
qed

lemma authenticate_nonces:
  assumes "authenticate rnd cr h hub now fr rc ip = (hub', Inl e)"
  shows "hb_hub_id hub' = hb_hub_id hub \<and> (hb_nonces hub' = hb_nonces hub
    \<or> (\<exists>flds tag x. auth_from_canonical h (metadata rc) = Inr (flds, tag)
         \<and> register (hb_nonces hub) (auth_key flds) (auth_ts flds) now = (hb_nonces hub', Inl x)))"
  using assms unfolding authenticate_def
  by (auto simp: auth_key_def Let_def split: if_splits sum.splits prod.splits option.splits)

text \<open>The Hub under its clock: authentication attempts, teardowns and reaper passes in any order.\<close>

datatype hub_call =
    CallAuthenticate Now fresh Record IpAddr
  | CallClose bytes bytes
  | CallReap Now

definition clock_reads :: "clock \<Rightarrow> int \<Rightarrow> Now \<Rightarrow> bool" where
  "clock_reads ck b now \<longleftrightarrow> reads b now \<and> base ck \<le> b \<and> mono ck \<le> monotonic_ms now"

definition auth_identity :: "hex_crate \<Rightarrow> Record \<Rightarrow> (NonceKey \<times> int) option" where
  "auth_identity h rc =
     (case auth_from_canonical h (metadata rc) of Inr (flds, _) \<Rightarrow> Some (auth_key flds, auth_ts flds) | Inl _ \<Rightarrow> None)"

fun hub_auth_step ::
    "(rat \<Rightarrow> rat) \<Rightarrow> crypto_crate \<Rightarrow> 'net ipnet_crate \<Rightarrow> hex_crate \<Rightarrow> 'net Hub \<Rightarrow> hub_call
     \<Rightarrow> 'net Hub \<times> (NonceKey \<times> int) option" where
  "hub_auth_step rnd cr c h hub (CallAuthenticate now fr rc ip) =
     (case authenticate rnd cr h hub now fr rc ip of (hub', res) \<Rightarrow> (hub', if is_ok res then auth_identity h rc else None))"
| "hub_auth_step rnd cr c h hub (CallClose session_id epoch) = (close_session cr c hub session_id epoch, None)"
| "hub_auth_step rnd cr c h hub (CallReap now) = (fst (reap_expired_sessions cr c hub now), None)"

text \<open>The condition on the clock of a run: every attempt reads wall and monotonic times that agree with one time, which
  does not go back, and the wall clock is stepped forward at most. Each call carries the wall time, in milliseconds, at
  monotonic zero; teardowns and reaper passes may read any time.\<close>

fun hub_clock_steady :: "clock \<Rightarrow> (int \<times> hub_call) list \<Rightarrow> bool" where
  "hub_clock_steady ck [] \<longleftrightarrow> True"
| "hub_clock_steady ck ((b, CallAuthenticate now fr rc ip) # calls) \<longleftrightarrow>
     clock_reads ck b now \<and> hub_clock_steady \<lparr>base = b, mono = monotonic_ms now\<rparr> calls"
| "hub_clock_steady ck ((b, CallClose session_id epoch) # calls) \<longleftrightarrow> hub_clock_steady ck calls"
| "hub_clock_steady ck ((b, CallReap now) # calls) \<longleftrightarrow> hub_clock_steady ck calls"

text \<open>The Hub with the clock beside it.\<close>

definition hub_tick :: "clock \<Rightarrow> int \<times> hub_call \<Rightarrow> clock" where
  "hub_tick ck bc = (case snd bc of CallAuthenticate now fr rc ip \<Rightarrow> \<lparr>base = fst bc, mono = monotonic_ms now\<rparr> | _ \<Rightarrow> ck)"

definition hub_clocked_step ::
    "(rat \<Rightarrow> rat) \<Rightarrow> crypto_crate \<Rightarrow> 'net ipnet_crate \<Rightarrow> hex_crate \<Rightarrow> 'net Hub \<times> clock \<Rightarrow> int \<times> hub_call
     \<Rightarrow> ('net Hub \<times> clock) \<times> (NonceKey \<times> int) option" where
  "hub_clocked_step rnd cr c h st bc =
     (case hub_auth_step rnd cr c h (fst st) (snd bc) of (hub', grant) \<Rightarrow> ((hub', hub_tick (snd st) bc), grant))"

definition hub_clock_ok :: "'net Hub \<times> clock \<Rightarrow> int \<times> hub_call \<Rightarrow> bool" where
  "hub_clock_ok st bc \<longleftrightarrow> (case snd bc of CallAuthenticate now fr rc ip \<Rightarrow> clock_reads (snd st) (fst bc) now | _ \<Rightarrow> True)"

lemma hub_clocked_run:
  "admissible hub_clock_ok (hub_clocked_step rnd cr c h) (hub, ck) calls \<longleftrightarrow> hub_clock_steady ck calls"
  "granted (hub_clocked_step rnd cr c h) (hub, ck) calls = granted (hub_auth_step rnd cr c h) hub (map snd calls)"
proof (induction calls arbitrary: hub ck)
  case (Cons bc calls)
  obtain b call where bc: "bc = (b, call)" by fastforce
  { case 1 show ?case using Cons(1)
      by (cases call) (simp_all add: bc hub_clocked_step_def hub_clock_ok_def hub_tick_def split: prod.split)
  next case 2 show ?case using Cons(2) by (simp add: bc hub_clocked_step_def split: prod.split option.split) }
qed simp_all

lemma nonces_kept [simp]:
  "hb_nonces (with_heap hub es) = hb_nonces hub" "hb_nonces (on_entry hub r f) = hb_nonces hub"
  "on_engine hub r g = (hub', res) \<Longrightarrow> hb_nonces hub' = hb_nonces hub"
  by (auto simp: with_heap_def on_entry_def on_engine_def split: prod.splits)

lemma send_directory_nonces: "hb_nonces (send_directory cr c hub r) = hb_nonces hub"
  by (auto simp: send_directory_def Let_def split: prod.splits sum.splits)

lemma broadcast_nonces: "hb_nonces (broadcast_peer_lists cr c hub) = hb_nonces hub"
proof -
  have "hb_nonces (foldl (send_directory cr c) hub rs) = hb_nonces hub" for rs
    by (induction rs arbitrary: hub) (simp_all add: send_directory_nonces)
  then show ?thesis by (simp add: broadcast_peer_lists_def)
qed

lemma close_session_nonces: "hb_nonces (close_session cr c hub session_id epoch) = hb_nonces hub"
  by (auto simp: close_session_def Let_def broadcast_nonces split: option.splits prod.splits)

lemma reap_nonces: "hb_nonces (fst (reap_expired_sessions cr c hub now)) = hb_nonces hub"
proof -
  have "hb_nonces (foldl (\<lambda>hub r. close_session cr c hub (se_session_id (entry_at hub r)) (se_epoch (entry_at hub r))) hub rs)
      = hb_nonces hub" for rs
    by (induction rs arbitrary: hub) (simp_all add: close_session_nonces)
  then show ?thesis by (simp add: reap_expired_sessions_def Let_def)
qed

lemma get_u64_range: "get_u64 v key = Inr n \<Longrightarrow> n \<le> u64_max"
  by (auto simp: get_u64_def result_simps parse_unsigned_def Let_def split: if_splits list.splits)

lemma auth_ts_range: "auth_from_canonical h v = Inr (flds, tag) \<Longrightarrow> i64_range (auth_ts flds)"
  by (auto simp: auth_from_canonical_def result_simps decimal_field_def get_u64_range intro!: u64_as_i64_range)

lemma create_session_nonces: "create_session cr h hub now fr psk flds caps = (hub', x) \<Longrightarrow> hb_nonces hub' = hb_nonces hub"
  by (auto simp: create_session_def Let_def split: prod.splits)

text \<open>An attempt either leaves the nonce store alone and fails, or makes one registration that decides it.\<close>

lemma authenticate_registers:
  assumes "authenticate rnd cr h hub now fr rc ip = (hub', res)"
  shows "hb_nonces hub' = hb_nonces hub \<and> \<not> is_ok res
    \<or> (\<exists>flds v. auth_identity h rc = Some (auth_key flds, auth_ts flds) \<and> i64_range (auth_ts flds)
         \<and> register (hb_nonces hub) (auth_key flds) (auth_ts flds) now = (hb_nonces hub', v) \<and> is_ok v = is_ok res)"
proof (cases res)
  case (Inl e)
  with authenticate_nonces [OF assms [unfolded Inl]] show ?thesis
    by (auto simp: auth_identity_def dest: auth_ts_range)
next
  case (Inr x)
  then obtain r ok where "res = Inr (r, ok)" by (cases x) auto
  with assms obtain flds psk where "auth_accepted rnd cr h hub now fr rc ip flds psk hub' r ok" by (auto elim: authenticate_Inr)
  then show ?thesis
  proof cases
    case (accepted g u caps ns v)
    with create_session_nonces [OF accepted(9)] verify_auth_fields [OF accepted(4)] Inr show ?thesis
      by (auto simp: auth_identity_def dest: auth_ts_range)
  qed
qed

definition hub_clock_inv :: "'net Hub \<times> clock \<Rightarrow> bool" where
  "hub_clock_inv = (\<lambda>(hub, ck). nonce_clock_inv (hb_nonces hub, ck))"

definition auth_spent :: "'net Hub \<times> clock \<Rightarrow> NonceKey \<times> int \<Rightarrow> bool" where
  "auth_spent = (\<lambda>(hub, ck). nonce_spent (hb_nonces hub, ck))"

lemma hub_clocked_step_cases:
  assumes "hub_clocked_step rnd cr c h (hub, ck) (b, call) = ((hub', ck'), grant)" "hub_clock_ok (hub, ck) (b, call)"
  obtains (quiet) "hb_nonces hub' = hb_nonces hub" "grant = None" "ck' = ck"
  | (failed) now where "clock_reads ck b now" "hb_nonces hub' = hb_nonces hub" "grant = None"
      "ck' = \<lparr>base = b, mono = monotonic_ms now\<rparr>"
  | (asked) now key ts v where "clock_allows (hb_nonces hub) ck b (CallRegister key ts now)"
      "register (hb_nonces hub) key ts now = (hb_nonces hub', v)" "grant = (if is_ok v then Some (key, ts) else None)"
      "ck' = \<lparr>base = b, mono = monotonic_ms now\<rparr>"
proof (cases call)
  case (CallAuthenticate now fr rc ip)
  have rd: "clock_reads ck b now" using assms(2) CallAuthenticate by (simp add: hub_clock_ok_def)
  obtain res where au: "authenticate rnd cr h hub now fr rc ip = (hub', res)"
    and g: "grant = (if is_ok res then auth_identity h rc else None)" and ck: "ck' = \<lparr>base = b, mono = monotonic_ms now\<rparr>"
    using assms(1) CallAuthenticate by (auto simp: hub_clocked_step_def hub_tick_def split: prod.splits)
  from authenticate_registers [OF au] show ?thesis
  proof (elim disjE exE conjE)
    assume "hb_nonces hub' = hb_nonces hub" "\<not> is_ok res"
    with failed rd g ck show ?thesis by simp
  next
    fix flds v
    assume a: "auth_identity h rc = Some (auth_key flds, auth_ts flds)" "i64_range (auth_ts flds)"
      "register (hb_nonces hub) (auth_key flds) (auth_ts flds) now = (hb_nonces hub', v)" "is_ok v = is_ok res"
    moreover have "clock_allows (hb_nonces hub) ck b (CallRegister (auth_key flds) (auth_ts flds) now)"
      using rd a(2) by (simp add: clock_allows_def clock_reads_def)
    ultimately show ?thesis using asked g ck by simp
  qed
next
  case (CallClose session_id epoch)
  with assms(1) close_session_nonces [of cr c hub session_id epoch] show ?thesis
    by (intro quiet) (auto simp: hub_clocked_step_def hub_tick_def)
next
  case (CallReap now)
  with assms(1) reap_nonces [of cr c hub now] show ?thesis by (intro quiet) (auto simp: hub_clocked_step_def hub_tick_def)
qed

lemma clock_inv_tick:
  assumes "nonce_clock_inv (s, ck)" "clock_reads ck b now"
  shows "nonce_clock_inv (s, \<lparr>base = b, mono = monotonic_ms now\<rparr>)"
proof (rule clock_inv_later [OF assms(1)])
  show "ns_inv s" "ns_config s = ns_config s" using assms(1) by (simp_all add: nonce_clock_inv_def)
  show "base ck + int (mono ck) \<le> b + int (monotonic_ms now)" using assms(2) by (simp add: clock_reads_def)
  show "r \<le> monotonic_ms now + (2 * window_secs (ns_config s) + 10) * 1000" if "paused_until_ms s = Some r" for r
    using assms that by (auto simp: nonce_clock_inv_def clock_reads_def intro: order_trans)
qed blast

interpretation au: once_if hub_clock_ok "hub_clocked_step rnd cr c h" auth_spent hub_clock_inv for rnd cr c h
proof unfold_locales
  fix st :: "'a Hub \<times> clock" and op :: "int \<times> hub_call" and i st'
  assume inv: "hub_clock_inv st" and ok: "hub_clock_ok st op"
  obtain hub ck where st: "st = (hub, ck)" by fastforce
  obtain b call where op: "op = (b, call)" by fastforce
  obtain hub' ck' grant where step: "hub_clocked_step rnd cr c h (hub, ck) (b, call) = ((hub', ck'), grant)"
    by (metis prod.exhaust)
  note inv = inv [unfolded st hub_clock_inv_def prod.case]
  note cases = hub_clocked_step_cases [OF step ok [unfolded st op]]
  have fs: "fst (hub_clocked_step rnd cr c h st op) = (hub', ck')" by (simp add: st op step)
  have gr: "st' = (hub', ck') \<and> grant = Some i" if "hub_clocked_step rnd cr c h st op = (st', Some i)"
    using that by (simp add: st op step)
  have late: "nonce_spent (s, ck) i \<Longrightarrow> clock_reads ck b now \<Longrightarrow>
      nonce_spent (s, \<lparr>base = b, mono = monotonic_ms now\<rparr>) i" for now s
    by (rule nonce_spent_later) (auto simp: clock_reads_def)
  show "hub_clock_inv (fst (hub_clocked_step rnd cr c h st op))"
    unfolding fs hub_clock_inv_def prod.case
  proof (cases rule: cases)
    case (3 now key ts v)
    have "nonce_call_step (hb_nonces hub) (CallRegister key ts now)
        = (hb_nonces hub', snd (nonce_call_step (hb_nonces hub) (CallRegister key ts now)))"
      using 3(2) by (auto split: sum.split)
    from nonce_call_clock_inv [OF inv 3(1) this] 3(4) show "nonce_clock_inv (hb_nonces hub', ck')" by simp
  qed (use inv clock_inv_tick [OF inv] in auto)
  show "auth_spent (fst (hub_clocked_step rnd cr c h st op)) i" if "auth_spent st i"
  proof (cases rule: cases)
    case (3 now key ts v)
    with register_spent [OF inv 3(1,2)] that show ?thesis by (simp add: auth_spent_def fs) (simp add: st)
  qed (use late that fs in \<open>auto simp: auth_spent_def st\<close>)
  show "\<not> auth_spent st i \<and> auth_spent st' i" if "hub_clocked_step rnd cr c h st op = (st', Some i)"
  proof (cases rule: cases)
    case (3 now key ts v)
    with gr [OF that] obtain u where "v = Inr u" "i = (key, ts)" by (cases v) auto
    with register_admits [OF inv 3(1), of "hb_nonces hub'" u] 3 gr [OF that]
    show ?thesis by (simp add: auth_spent_def st)
  qed (use gr [OF that] in auto)
qed

section \<open>The session an attempt creates\<close>

lemma hex_field_length: "hex_field h n v fld kd = Inr bs \<Longrightarrow> length bs = n"
  by (auto simp: hex_field_def result_simps split: if_splits)

lemma auth_attempt_length: "auth_from_canonical h v = Inr (flds, tag) \<Longrightarrow> length (auth_attempt_id flds) = 16"
  by (auto simp: auth_from_canonical_def result_simps hex_field_length)

lemma supported_is_str: "cap \<in> set SUPPORTED_CAPABILITIES \<Longrightarrow> is_str cap"
  by (auto simp: SUPPORTED_CAPABILITIES_def)

definition fresh_ok :: "fresh \<Rightarrow> bool" where
  "fresh_ok fr \<longleftrightarrow> length (fr_session_id fr) = 16 \<and> length (fr_epoch fr) = 16 \<and> length (fr_nonce fr) = 32"

lemma create_session_agrees:
  assumes cs: "create_session cr h hub now fr psk flds caps = (hub', r, ok)"
    and laws: "hex_laws h" "mac_len_law cr" and fr: "fresh_ok fr" and att: "length (auth_attempt_id flds) = 16"
    and caps: "list_all is_str caps" and ttl: "0 \<le> wall_secs now + hb_session_ttl hub" "wall_secs now + hb_session_ttl hub \<le> i64_max"
  obtains g where "verify_authok cr h psk (auth_attempt_id flds) (auth_mac cr psk flds) (metadata ok) = Inr g"
    "sessions_get (hb_sessions hub') (aok_session_id g) = Some r" "aok_expires_at g = wall_secs now + hb_session_ttl hub"
    "entry_at hub' r = entry_new (aok_session_id g) (aok_session_epoch g) (auth_node_id flds) (auth_key_id flds)
       (wall_secs now + hb_session_ttl hub) (session_keys cr h psk flds g)
       (set_state (Session_new (SessionConfig_new (hb_hub_id hub) (auth_node_id flds) (aok_session_id g) (aok_session_epoch g)
          HubSide) (session_keys cr h psk flds g)) StBinding)"
proof -
  have w: "wrap_i64 (wall_secs now + hb_session_ttl hub) = wall_secs now + hb_session_ttl hub"
    using ttl by (intro wrap_i64_id) (simp add: i64_range_def int_range_defs)
  define g where "g = \<lparr>aok_session_id = fr_session_id fr, aok_session_epoch = fr_epoch fr,
      aok_attempt_id = auth_attempt_id flds, aok_server_nonce = fr_nonce fr,
      aok_expires_at = wall_secs now + hb_session_ttl hub, aok_capabilities = caps\<rparr>"
  let ?m = "authok_mac cr psk (auth_mac cr psk flds) g"
  have ok: "metadata ok = auth_ok_to_canonical h (g, ?m)"
    and r: "r = length (ss_heap (hb_sessions hub))"
    using cs by (auto simp: create_session_def Let_def w g_def record_new_def sessions_insert_def)
  have ty: "auth_ok_typed (g, ?m)" "0 \<le> aok_expires_at g"
    using laws fr att caps ttl by (simp_all add: g_def auth_ok_typed_def fresh_ok_def i64_range_def int_range_defs)
  have "auth_ok_from_canonical h (metadata ok) = Inr (g, ?m)"
    unfolding ok using laws ty by (intro auth_ok.dec_enc) simp
  then have v: "verify_authok cr h psk (auth_attempt_id flds) (auth_mac cr psk flds) (metadata ok) = Inr g"
    using laws(2) by (simp add: verify_authok_iff MAC_LEN_def) (simp add: g_def)
  show ?thesis
    by (rule that [OF v]) (use cs in \<open>auto simp: create_session_def Let_def w g_def sessions_insert_def sessions_get_def
      entry_new_def update_conv' r\<close>)
qed

lemma authenticate_creates:
  assumes au: "authenticate rnd cr h hub now fr rc ip = (hub', Inr (r, ok))"
    and laws: "hex_laws h" "mac_len_law cr" and fr: "fresh_ok fr"
    and ttl: "0 \<le> wall_secs now + hb_session_ttl hub" "wall_secs now + hb_session_ttl hub \<le> i64_max"
  obtains flds psk g where "auth_hub_id flds = hb_hub_id hub"
    "secrets_get (hb_secrets hub) (auth_key_id flds) (auth_node_id flds) = Some psk"
    "verify_auth cr h psk (metadata rc) = Inr flds"
    "verify_authok cr h psk (auth_attempt_id flds) (auth_mac cr psk flds) (metadata ok) = Inr g"
    "sessions_get (hb_sessions hub') (aok_session_id g) = Some r" "aok_expires_at g = wall_secs now + hb_session_ttl hub"
    "entry_at hub' r = entry_new (aok_session_id g) (aok_session_epoch g) (auth_node_id flds) (auth_key_id flds)
       (wall_secs now + hb_session_ttl hub) (session_keys cr h psk flds g)
       (set_state (Session_new (SessionConfig_new (hb_hub_id hub) (auth_node_id flds) (aok_session_id g) (aok_session_epoch g)
          HubSide) (session_keys cr h psk flds g)) StBinding)"
  using au
proof (rule authenticate_Inr)
  fix flds psk
  assume "auth_accepted rnd cr h hub now fr rc ip flds psk hub' r ok"
  then show thesis
  proof cases
    case (accepted gd u caps ns v)
    obtain tag where f: "auth_from_canonical h (metadata rc) = Inr (flds, tag)" using verify_auth_fields [OF accepted(4)] by blast
    have caps: "list_all is_str caps"
      using accepted(7) by (auto simp: negotiate_ok list_all_iff supported_is_str)
    show thesis
      by (rule create_session_agrees [OF accepted(9) laws fr auth_attempt_length [OF f] caps])
        (use ttl accepted(3,4,5) that in simp_all)
  qed
qed

section \<open>Properties\<close>

text \<open>With hops the registry is not consulted at all, although step 4 of the comment on \<open>authorize_open\<close> asks a named
  service to resolve to a live lease before the hops are checked.\<close>

lemma chained_open_ignores_leases:
  "open_via f \<noteq> [] \<Longrightarrow> authorize_open c (hub\<lparr>hb_registry := r\<rparr>) caller f = authorize_open c hub caller f"
proof -
  have "relay_hops c (hub\<lparr>hb_registry := r\<rparr>) caller f hops = relay_hops c hub caller f hops" for hops
    by (induction hops) simp_all
  then show "open_via f \<noteq> [] \<Longrightarrow> ?thesis" by (simp add: authorize_open_def split: sum.split)
qed

text \<open>C7: The Hub grants an \<open>Open\<close> exactly when the configuration does, for every \<open>Open\<close> without hops and for every chained
  \<open>Open\<close> to an address: the destination is well formed, the chain of hops is one the design allows, the first access rule
  that covers the request allows it, and then, with no hops, the named service is leased now with the protocol and revision
  asked for (or the node is registered, or the Hub itself dials), and with hops, every hop has the relay switch on and a
  rule that lets this caller relay through it. The plan names the node, target and revision of that lease, or the hops, and
  nothing else. A chained \<open>Open\<close> to a service or to an address at a node is left out: the Hub grants it without looking at
  the leases, against the comment on \<open>authorize_open\<close>.\<close>

theorem open_authorised_iff:
  assumes "AclTable_new c rules = Inr (hb_acl hub)" "reg_inv (hb_registry hub)"
    and "open_via f \<noteq> [] \<longrightarrow> (\<exists>host port. open_destination f = Address host port)"
  shows "authorize_open c hub caller f = Inr plan \<longleftrightarrow>
     dest_validate (open_destination f) = Inr ()
     \<and> length (open_via f) \<le> 4 \<and> list_all is_slug (open_via f) \<and> distinct (caller # open_via f)
     \<and> list_all (\<lambda>hop. named_node (open_destination f) \<noteq> Some hop) (open_via f)
     \<and> permitted c rules (open_query caller f)
     \<and> (if open_via f = [] then final_leg_ok hub f plan
        else plan = RelayPlan (open_via f)
          \<and> (\<forall>hop \<in> set (open_via f). relay_is_allowed (hb_relay hub) hop \<and> permitted c rules (relay_query caller f hop)))"
proof -
  have "is_ok (dest_validate (open_destination f)) \<longleftrightarrow> dest_validate (open_destination f) = Inr ()"
    by (cases "dest_validate (open_destination f)") simp_all
  then show ?thesis unfolding authorize_open_iff [OF assms(1,2)] validate_chain_ok by auto
qed

definition no_nets :: "unit ipnet_crate" where
  "no_nets = \<lparr>parse_net = (\<lambda>_. None), net_contains = (\<lambda>_ _. False)\<rparr>"

definition web_rule :: AclRule where
  "web_rule = \<lparr>rule_caller = ''b'', rule_action = ConnectService, rule_allow = True, rule_node = Some ''a'',
     rule_service = Some ''w'', rule_host_cidr = None, rule_ports = None, rule_proto = None\<rparr>"

definition sample_store :: NonceStore where
  "sample_store = \<lparr>ns_config = NonceStoreConfig_default, entries = [], per_node = [], last_wall_secs = None, paused_until_ms = None\<rparr>"

definition sample_hub :: "unit Hub" where
  "sample_hub =
     \<lparr>hb_hub_id = ''h'', hb_secrets = [((''k'', ''n''), [])], hb_profiles = profile_paths_default,
      hb_acl = \<lparr>acl_rules = [\<lparr>compiled_rule = web_rule, compiled_net = None\<rparr>]\<rparr>, hb_relay = RelayAllow_new [],
      hb_egress = public_only, hb_nonces = sample_store,
      hb_registry = reg_run (Registry_new ''h'') [Register ''a'' [1] [1], Publish ''a'' [1] [1] ''w'' Tcp ''h:1''],
      hb_sessions = sessions_new, hb_guards = guards_new, hb_session_ttl = DEFAULT_SESSION_TTL_SECS\<rparr>"

definition web_open :: OpenFields where
  "web_open = \<lparr>open_request_id = sample_id, open_stream_id = 1, open_proto = Tcp, open_destination = Service ''a'' ''w'' (Some 1),
     open_via = []\<rparr>"

lemma sample_registry:
  "hb_registry sample_hub = \<lparr>reg_hub_id = ''h'', reg_nodes = [(''a'', \<lparr>nl_session_id = [1], nl_epoch = [1], nl_services =
      [(''w'', \<lparr>sl_hub_id = ''h'', sl_node_id = ''a'', sl_service_name = ''w'', sl_proto = Tcp, sl_revision = 1,
        sl_target = ''h:1'', sl_session_id = [1], sl_epoch = [1]\<rparr>)]\<rparr>)], reg_revision = 2\<rparr>"
  using target_examples by (simp add: sample_hub_def reg_run_def Registry_new_def register_ready_def publish_def owns_def
      reg_bump_def next_revision_def sat_add_def u64_max_def Let_def)

lemma sample_lookup:
  "lookup (hb_registry sample_hub) ''a'' ''w'' = Some \<lparr>sl_hub_id = ''h'', sl_node_id = ''a'', sl_service_name = ''w'',
     sl_proto = Tcp, sl_revision = 1, sl_target = ''h:1'', sl_session_id = [1], sl_epoch = [1]\<rparr>"
  by (simp add: sample_registry lookup_def)

theorem open_authorised_iff_witness:
  "authorize_open no_nets sample_hub ''b'' web_open = Inr (ServiceExit ''a'' ''w'' ''h:1'' 1)
   \<and> authorize_open no_nets sample_hub ''b'' web_open \<noteq> Inr (HubExit ''h'' 1)"
proof -
  have acl: "AclTable_new no_nets [web_rule] = Inr (hb_acl sample_hub)"
    by (simp add: AclTable_new_rules sample_hub_def compile_rule_def web_rule_def result_simps)
  have reg: "reg_inv (hb_registry sample_hub)" unfolding sample_hub_def by (simp add: reg_run_inv reg_inv_new)
  have v: "dest_validate (open_destination web_open) = Inr ()"
    by (simp add: web_open_def dest_validate_def is_slug_def MAX_SLUG_LEN_def is_ascii_alphanumeric_def slug_byte_def)
  have "permitted no_nets [web_rule] (open_query ''b'' web_open)"
    unfolding permitted_def by (rule exI [of _ "[]"]) (simp add: web_rule_def rule_covers_def open_query_def web_open_def)
  moreover have via: "open_via web_open \<noteq> [] \<longrightarrow> (\<exists>host port. open_destination web_open = Address host port)"
    by (simp add: web_open_def)
  ultimately show ?thesis
    unfolding open_authorised_iff [OF acl reg via] using v
    by (simp add: final_leg_ok_def web_open_def sample_lookup)
qed

text \<open>C6: Authentication is mutual and keyed: a session exists only for an \<open>Auth\<close> whose MAC verifies under the secret
  configured for exactly that key id and node and that names this Hub. The \<open>AuthOk\<close> the Hub answers with is accepted by
  the node that sent the \<open>Auth\<close>, both ends hold the same session keys, and the new session is in the table under the id
  sent, bound to the authenticated node, its engine new and keyed with those keys for exactly that Hub, node, session and
  epoch, still waiting for its bind proof and with no carrier or stream.\<close>

theorem authenticated_session_agrees:
  assumes "authenticate rnd cr h hub now fr rc ip = (hub', Inr (r, ok))"
    and "hex_laws h" "mac_len_law cr" "fresh_ok fr"
    and "0 \<le> wall_secs now + hb_session_ttl hub" "wall_secs now + hb_session_ttl hub \<le> i64_max"
  shows "\<exists>flds psk g. auth_hub_id flds = hb_hub_id hub
    \<and> secrets_get (hb_secrets hub) (auth_key_id flds) (auth_node_id flds) = Some psk
    \<and> verify_auth cr h psk (metadata rc) = Inr flds
    \<and> verify_authok cr h psk (auth_attempt_id flds) (auth_mac cr psk flds) (metadata ok) = Inr g
    \<and> sessions_get (hb_sessions hub') (aok_session_id g) = Some r
    \<and> (let e = entry_at hub' r in
         se_keys e = session_keys cr h psk flds g \<and> se_node_id e = auth_node_id flds \<and> se_epoch e = aok_session_epoch g
       \<and> se_expires_at e = aok_expires_at g \<and> state (se_engine e) = StBinding \<and> se_streams e = [] \<and> \<not> se_closed e
       \<and> se_engine e = set_state (Session_new (SessionConfig_new (hb_hub_id hub) (auth_node_id flds) (aok_session_id g)
           (aok_session_epoch g) HubSide) (session_keys cr h psk flds g)) StBinding)"
proof (rule authenticate_creates [OF assms])
  fix flds psk g
  assume f: "auth_hub_id flds = hb_hub_id hub" "secrets_get (hb_secrets hub) (auth_key_id flds) (auth_node_id flds) = Some psk"
      "verify_auth cr h psk (metadata rc) = Inr flds"
      "verify_authok cr h psk (auth_attempt_id flds) (auth_mac cr psk flds) (metadata ok) = Inr g"
      "sessions_get (hb_sessions hub') (aok_session_id g) = Some r" "aok_expires_at g = wall_secs now + hb_session_ttl hub"
    and e: "entry_at hub' r = entry_new (aok_session_id g) (aok_session_epoch g) (auth_node_id flds) (auth_key_id flds)
       (wall_secs now + hb_session_ttl hub) (session_keys cr h psk flds g)
       (set_state (Session_new (SessionConfig_new (hb_hub_id hub) (auth_node_id flds) (aok_session_id g) (aok_session_epoch g)
          HubSide) (session_keys cr h psk flds g)) StBinding)"
  show ?thesis
    by (intro exI [of _ flds] exI [of _ psk] exI [of _ g] conjI f) (simp add: e f(6) entry_new_def Let_def set_state_def emit_def)
qed

definition sample_fresh :: fresh where
  "sample_fresh = \<lparr>fr_session_id = sample_id, fr_epoch = sample_id, fr_nonce = sample_id @ sample_id\<rparr>"

definition auth_record :: Record where
  "auth_record = record_new Auth (auth_to_canonical lower_hex (sample_auth, sample_id @ sample_id))"

abbreviation sample_now :: Now where "sample_now \<equiv> \<lparr>wall_secs = 6, monotonic_ms = 0\<rparr>"

lemma sample_laws: "mac_len_law sample_crate" "fresh_ok sample_fresh" "auth_mac sample_crate k f = sample_id @ sample_id"
  by (simp_all add: mac_len_law_def sample_crate_def sample_id_def fresh_ok_def sample_fresh_def auth_mac_def mac_def)

lemma sample_auth_fields: "auth_from_canonical lower_hex (metadata auth_record) = Inr (sample_auth, sample_id @ sample_id)"
proof -
  have "auth_typed (sample_auth, sample_id @ sample_id)" "0 \<le> auth_ts sample_auth"
    by (simp_all add: auth_typed_def sample_auth_def sample_id_def i64_range_def int_range_defs)
  then show ?thesis using lower_hex_laws by (simp add: auth_record_def record_new_def auth.dec_enc)
qed

lemma sample_identity: "\<exists>i. auth_identity lower_hex auth_record = Some i"
  by (simp add: auth_identity_def sample_auth_fields)

lemma sample_authenticates: "is_ok (snd (authenticate id sample_crate lower_hex sample_hub sample_now sample_fresh auth_record (V4 [10, 0, 0, 1])))"
proof -
  note f = sample_auth_fields
  have "verify_auth sample_crate lower_hex [] (metadata auth_record) = Inr sample_auth"
    using f by (simp add: verify_auth_iff sample_laws MAC_LEN_def) (simp add: sample_id_def)
  moreover obtain g where "spend_auth_token id (hb_guards sample_hub) (V4 [10, 0, 0, 1]) 0 = (g, Inr ())"
    by (simp add: spend_auth_token_def sample_hub_def guards_new_def Let_def refill_def limit_defs)
  moreover obtain ns where "register sample_store \<lparr>nk_hub_id = ''h'', nk_key_id = ''k'', nk_node_id = ''n'',
      nk_nonce = sample_id @ sample_id\<rparr> 5 sample_now = (ns, Inr ())"
    by (simp add: sample_store_def nonce_eval)
  moreover obtain caps where "negotiate_capabilities [''flow.credit''] = Inr caps" using negotiate_ok [of "[''flow.credit'']"] by auto
  moreover have "kind auth_record = Auth" "payload auth_record = []" by (simp_all add: auth_record_def record_new_def)
  moreover have "hb_hub_id sample_hub = ''h''" "hb_nonces sample_hub = sample_store"
    "secrets_get (hb_secrets sample_hub) ''k'' ''n'' = Some []" by (simp_all add: sample_hub_def secrets_get_def)
  moreover have "auth_hub_id sample_auth = ''h''" "auth_key_id sample_auth = ''k''" "auth_node_id sample_auth = ''n''"
    "auth_ts sample_auth = 5" "auth_nonce sample_auth = sample_id @ sample_id" "auth_capabilities sample_auth = [''flow.credit'']"
    by (simp_all add: sample_auth_def)
  ultimately show ?thesis using f by (simp add: authenticate_def split: prod.split)
qed

theorem authenticated_session_agrees_witness:
  "\<exists>hub' r ok. authenticate id sample_crate lower_hex sample_hub sample_now sample_fresh auth_record (V4 [10, 0, 0, 1]) = (hub', Inr (r, ok))
     \<and> se_node_id (entry_at hub' r) = ''n''"
proof -
  obtain hub' r ok where au: "authenticate id sample_crate lower_hex sample_hub sample_now sample_fresh auth_record (V4 [10, 0, 0, 1])
      = (hub', Inr (r, ok))"
    using sample_authenticates
    by (cases "authenticate id sample_crate lower_hex sample_hub sample_now sample_fresh auth_record (V4 [10, 0, 0, 1])";
        cases "snd (authenticate id sample_crate lower_hex sample_hub sample_now sample_fresh auth_record (V4 [10, 0, 0, 1]))") auto
  have ttl: "0 \<le> wall_secs sample_now + hb_session_ttl sample_hub" "wall_secs sample_now + hb_session_ttl sample_hub \<le> i64_max"
    by (simp_all add: sample_hub_def DEFAULT_SESSION_TTL_SECS_def int_range_defs)
  from authenticated_session_agrees [OF au lower_hex_laws sample_laws(1,2) ttl] obtain flds :: AuthFields and psk where
    s: "secrets_get (hb_secrets sample_hub) (auth_key_id flds) (auth_node_id flds) = Some psk"
    and e: "se_node_id (entry_at hub' r) = auth_node_id flds" unfolding Let_def by blast
  from s have "auth_node_id flds = ''n''" by (auto simp: sample_hub_def secrets_get_def split: if_splits)
  with au e show ?thesis by simp
qed

text \<open>C10: An \<open>Auth\<close> opens at most one session. Over every run of authentication attempts, teardowns and reaper passes
  whose clock is steady, however often a recorded \<open>Auth\<close> is presented again and from any address, no hub, key, node,
  nonce and timestamp is accepted twice. The clock is steady when the wall and monotonic times the attempts read agree
  with one time that does not go back, the wall clock being stepped forward at most; a wall clock that lags or is set
  back is not covered.\<close>

theorem auth_accepted_at_most_once:
  assumes "nonce_new cfg = Inr (hb_nonces hub)" and "hub_clock_steady \<lparr>base = b, mono = m\<rparr> calls"
  shows "distinct (granted (hub_auth_step rnd cr c h) hub (map snd calls))"
proof -
  from ns_inv_new [OF assms(1)] assms(1) have "hub_clock_inv (hub, \<lparr>base = b, mono = m\<rparr>)"
    by (auto simp: hub_clock_inv_def nonce_clock_inv_def nonce_new_Inr)
  from au.admitted_distinct [OF this, of rnd cr c h calls] assms(2) show ?thesis by (simp add: hub_clocked_run)
qed

text \<open>The \<open>Auth\<close> of a node is presented twice, the second time from another address: one session.\<close>

theorem auth_accepted_at_most_once_witness:
  "length (granted (hub_auth_step id sample_crate no_nets lower_hex) sample_hub
     [CallAuthenticate sample_now sample_fresh auth_record (V4 [10, 0, 0, 1]),
      CallAuthenticate sample_now sample_fresh auth_record (V4 [10, 0, 0, 2])]) = 1"
proof -
  let ?s = "hub_auth_step id sample_crate no_nets lower_hex"
  let ?c1 = "CallAuthenticate sample_now sample_fresh auth_record (V4 [10, 0, 0, 1])"
  let ?c2 = "CallAuthenticate sample_now sample_fresh auth_record (V4 [10, 0, 0, 2])"
  have new: "nonce_new NonceStoreConfig_default = Inr (hb_nonces sample_hub)"
    by (simp add: nonce_new_Inr sample_hub_def sample_store_def NonceStoreConfig_default_def limit_defs)
  have "hub_clock_steady \<lparr>base = 6000, mono = 0\<rparr> [(6000, ?c1), (6000, ?c2)]" by (simp add: clock_reads_def reads_def)
  from auth_accepted_at_most_once [OF new this, of id sample_crate no_nets lower_hex]
  have d: "distinct (granted ?s sample_hub [?c1, ?c2])" by (simp only: list.map snd_conv)
  have two: "snd (?s hub ?c2) \<in> {None, auth_identity lower_hex auth_record}" for hub :: "unit Hub"
    by (auto split: prod.split)
  obtain hub' where one: "?s sample_hub ?c1 = (hub', auth_identity lower_hex auth_record)"
    using sample_authenticates
    by (cases "authenticate id sample_crate lower_hex sample_hub sample_now sample_fresh auth_record (V4 [10, 0, 0, 1])") simp
  obtain i where i: "auth_identity lower_hex auth_record = Some i"
    using sample_identity by blast
  show ?thesis using d one i two [of hub'] by (cases "?s hub' ?c2") (auto split: option.splits)
qed

end
