(* ===== verification/Dataplane.thy ===== *)
theory Dataplane
  imports Hub_Core Session_Peer
begin

text \<open>
  \<open>crates/wsnet-hub/src/dataplane.rs\<close>: the task of one Hub-exit stream. Resolution and sockets are the environment: what
  \<open>lookup_host\<close> returned, how each connection attempt ended and what the socket produced are inputs, and a socket is the
  log of what was read from it and written to it. A task waits in \<open>select\<close>, handles one input and goes through the head
  of its loop; other tasks change the session's engine between those two steps.
\<close>

section \<open>Addresses as text\<close>

text \<open>\<open>Display\<close> of \<open>IpAddr\<close>.\<close>

definition hex_digit :: "nat \<Rightarrow> char" where
  "hex_digit d = char_of (if d < 10 then 48 + d else 87 + d)"

fun hex_text :: "nat \<Rightarrow> string" where
  "hex_text n = (if n < 16 then [hex_digit n] else hex_text (n div 16) @ [hex_digit (n mod 16)])"

declare hex_text.simps [simp del]

fun joined :: "char \<Rightarrow> string list \<Rightarrow> string" where
  "joined c [] = []"
| "joined c [s] = s"
| "joined c (s # ss) = s @ c # joined c ss"

definition v4_text :: "nat list \<Rightarrow> string" where
  "v4_text os = joined CHR ''.'' (map dec os)"

text \<open>The loop over the segments: the longest run of zeros so far and the current one, each with its start.\<close>

fun zero_run :: "nat \<Rightarrow> nat \<times> nat \<Rightarrow> nat \<times> nat \<Rightarrow> nat list \<Rightarrow> nat \<times> nat" where
  "zero_run i longest current [] = longest"
| "zero_run i longest current (g # gs) =
     (if g = 0 then
        let current = (if snd current = 0 then i else fst current, snd current + 1) in
        zero_run (i + 1) (if snd current > snd longest then current else longest) current gs
      else zero_run (i + 1) longest (0, 0) gs)"

definition v6_text :: "nat list \<Rightarrow> string" where
  "v6_text gs =
     (if take 6 gs = [0, 0, 0, 0, 0, 65535]
      then ''::ffff:'' @ v4_text [gs ! 6 div 256, gs ! 6 mod 256, gs ! 7 div 256, gs ! 7 mod 256]
      else
        let (start, len) = zero_run 0 (0, 0) (0, 0) gs in
        if len > 1
        then joined CHR '':'' (map hex_text (take start gs)) @ ''::'' @ joined CHR '':'' (map hex_text (drop (start + len) gs))
        else joined CHR '':'' (map hex_text gs))"

primrec ip_to_string :: "IpAddr \<Rightarrow> string" where
  "ip_to_string (V4 os) = v4_text os"
| "ip_to_string (V6 gs) = v6_text gs"

section \<open>Dialling\<close>

definition READ_CHUNK :: nat where "READ_CHUNK = MAX_TCP_PAYLOAD"
definition DETAIL_NO_RUNTIME :: string where "DETAIL_NO_RUNTIME = ''hub exit needs an async runtime to dial''"
definition DETAIL_CONNECTED :: string where "DETAIL_CONNECTED = ''hub exit connected''"
definition DETAIL_UDP_ROUTE_READY :: string where "DETAIL_UDP_ROUTE_READY = ''hub udp route ready''"

record DialFailure =
  df_status :: OpenStatus
  df_detail :: string

definition failure :: "OpenStatus \<Rightarrow> string \<Rightarrow> DialFailure" where
  "failure st detail = \<lparr>df_status = st, df_detail = detail\<rparr>"

text \<open>\<open>HubExit\<close> and \<open>UdpExit\<close>; the latter has no protocol field, its queries say UDP.\<close>

record 'net HubExitTask =
  hx_policy :: "'net EgressPolicy"
  hx_caller :: string
  hx_proto :: Proto
  hx_request_id :: bytes
  hx_stream_id :: nat
  hx_host :: string
  hx_port :: nat

definition exit_query :: "'net HubExitTask \<Rightarrow> IpAddr \<Rightarrow> AclQuery" where
  "exit_query x ip =
     \<lparr>query_caller = hx_caller x, query_action = ConnectAddress, query_node = None, query_service = None,
      query_ip = Some ip, query_port = Some (hx_port x), query_proto = hx_proto x\<rparr>"

definition udp_exit_query :: "'net HubExitTask \<Rightarrow> IpAddr \<Rightarrow> AclQuery" where
  "udp_exit_query x ip =
     \<lparr>query_caller = hx_caller x, query_action = ConnectAddress, query_node = None, query_service = None,
      query_ip = Some ip, query_port = Some (hx_port x), query_proto = Udp\<rparr>"

datatype resolution = Resolved "SocketAddr list" | ResolveFailed string | ResolveTimedOut

datatype connect_outcome = Connected | ConnectRefused | ConnectTimedOut | ConnectFailed string | ConnectElapsed

datatype udp_outcome = UdpConnected | UdpConnectFailed string | UdpBindFailed string

definition candidates :: "resolution \<Rightarrow> DialFailure + SocketAddr list" where
  "candidates rs =
     (case rs of
        Resolved addrs \<Rightarrow> Inr addrs
      | ResolveFailed error \<Rightarrow> Inl (failure Unreachable (''cannot resolve the destination: '' @ error))
      | ResolveTimedOut \<Rightarrow> Inl (failure Unreachable ''resolving the destination timed out''))"

primrec connect_failure :: "connect_outcome \<Rightarrow> DialFailure option" where
  "connect_failure Connected = None"
| "connect_failure ConnectRefused = Some (failure Refused ''the target refused the connection'')"
| "connect_failure ConnectTimedOut = Some (failure Unreachable ''connecting to the destination timed out'')"
| "connect_failure (ConnectFailed other) = Some (failure Unreachable (''connect failed: '' @ other))"
| "connect_failure ConnectElapsed = Some (failure Unreachable ''connecting to the destination timed out'')"

primrec udp_failure :: "udp_outcome \<Rightarrow> DialFailure option" where
  "udp_failure UdpConnected = None"
| "udp_failure (UdpConnectFailed error) = Some (failure Unreachable (''cannot connect the udp socket: '' @ error))"
| "udp_failure (UdpBindFailed error) = Some (failure Unreachable (''cannot bind a udp socket: '' @ error))"

text \<open>The loop over the candidates, the same in both \<open>dial\<close>s: check, then try. It returns the addresses a connection was
  attempted to, in order, beside the result; \<open>attempt\<close> is the environment, by attempt and address.\<close>

fun try_candidates ::
    "'net ipnet_crate \<Rightarrow> 'net EgressPolicy \<Rightarrow> (IpAddr \<Rightarrow> AclQuery) \<Rightarrow> (nat \<Rightarrow> SocketAddr \<Rightarrow> DialFailure option)
     \<Rightarrow> nat \<Rightarrow> DialFailure option \<Rightarrow> SocketAddr list \<Rightarrow> SocketAddr list \<times> (DialFailure + SocketAddr)" where
  "try_candidates c policy query attempt n prev [] =
     ([], Inl (case prev of Some f \<Rightarrow> f | None \<Rightarrow> failure Unreachable ''the destination is unreachable''))"
| "try_candidates c policy query attempt n prev (a # rest) =
     (case egress_check c policy (query (sa_ip a)) (sa_ip a) of
        Inl refusal \<Rightarrow>
          try_candidates c policy query attempt n (Some (failure StatusDenied (refusal_detail refusal))) rest
      | Inr _ \<Rightarrow>
          (case attempt n a of
             None \<Rightarrow> ([a], Inr a)
           | Some f \<Rightarrow>
               let (tried, res) = try_candidates c policy query attempt (n + 1) (Some f) rest in (a # tried, res)))"

definition dial ::
    "'net ipnet_crate \<Rightarrow> 'net HubExitTask \<Rightarrow> resolution \<Rightarrow> (nat \<Rightarrow> SocketAddr \<Rightarrow> connect_outcome)
     \<Rightarrow> SocketAddr list \<times> (DialFailure + SocketAddr)" where
  "dial c x rs connect =
     (case candidates rs of
        Inl f \<Rightarrow> ([], Inl f)
      | Inr addrs \<Rightarrow>
          if addrs = [] then ([], Inl (failure Unreachable ''the destination resolved to no address''))
          else try_candidates c (hx_policy x) (exit_query x) (\<lambda>n a. connect_failure (connect n a)) 0 None addrs)"

definition udp_dial ::
    "'net ipnet_crate \<Rightarrow> 'net HubExitTask \<Rightarrow> resolution \<Rightarrow> (nat \<Rightarrow> SocketAddr \<Rightarrow> udp_outcome)
     \<Rightarrow> SocketAddr list \<times> (DialFailure + SocketAddr)" where
  "udp_dial c x rs connect =
     (case candidates rs of
        Inl f \<Rightarrow> ([], Inl f)
      | Inr addrs \<Rightarrow> try_candidates c (hx_policy x) (udp_exit_query x) (\<lambda>n a. udp_failure (connect n a)) 0 None addrs)"

section \<open>Answers\<close>

definition on_session :: "SessionEntry \<Rightarrow> (Session \<Rightarrow> 'a outcome) \<Rightarrow> SessionEntry \<times> (SessionError + 'a)" where
  "on_session e f = (let (s, res) = f (se_engine e) in (e\<lparr>se_engine := s\<rparr>, res))"

definition exit_result :: "'net HubExitTask \<Rightarrow> OpenStatus \<Rightarrow> string \<Rightarrow> OpenResultFields" where
  "exit_result x st detail =
     \<lparr>res_request_id = hx_request_id x, res_stream_id = hx_stream_id x, res_status = st, res_detail = detail\<rparr>"

definition exit_refuse :: "crypto_crate \<Rightarrow> hex_crate \<Rightarrow> 'net HubExitTask \<Rightarrow> SessionEntry \<Rightarrow> DialFailure \<Rightarrow> SessionEntry" where
  "exit_refuse cr h x e f =
     flush_outbound (fst (on_session e (\<lambda>s. send_open_result cr h s (exit_result x (df_status f) (df_detail f)))))"

definition answer_ok :: "crypto_crate \<Rightarrow> hex_crate \<Rightarrow> 'net HubExitTask \<Rightarrow> SessionEntry \<Rightarrow> SessionEntry \<times> bool" where
  "answer_ok cr h x e =
     (let (e, res) = on_session e (\<lambda>s. send_open_result cr h s (exit_result x StatusOk DETAIL_CONNECTED)) in (e, is_ok res))"

definition udp_answer_ok :: "crypto_crate \<Rightarrow> hex_crate \<Rightarrow> 'net HubExitTask \<Rightarrow> SessionEntry \<Rightarrow> SessionEntry \<times> bool" where
  "udp_answer_ok cr h x e =
     (let (e, res) = on_session e (\<lambda>s. send_open_result cr h s (exit_result x StatusOk DETAIL_UDP_ROUTE_READY)) in (e, is_ok res))"

definition reset_stream :: "crypto_crate \<Rightarrow> 'net HubExitTask \<Rightarrow> SessionEntry \<Rightarrow> ResetReason \<Rightarrow> SessionEntry" where
  "reset_stream cr x e reason = flush_outbound (fst (on_session e (\<lambda>s. send_reset cr s (hx_stream_id x) reason)))"

text \<open>The end of \<open>run\<close>: the stream is unregistered whatever happened before.\<close>

definition exit_cleanup :: "'net HubExitTask \<Rightarrow> SessionEntry \<Rightarrow> SessionEntry" where
  "exit_cleanup x e =
     (let e = unregister_stream e (hx_stream_id x) in flush_outbound (e\<lparr>se_engine := close_stream (se_engine e) (hx_stream_id x)\<rparr>))"

section \<open>Handing target bytes to the peer\<close>

text \<open>The result is the session, the bytes still pending and whether the stream can continue.\<close>

function deliver :: "crypto_crate \<Rightarrow> Session \<Rightarrow> nat \<Rightarrow> bytes \<Rightarrow> Session \<times> bytes \<times> bool" where
  "deliver cr s sid pend =
     (if pend = [] then (s, [], True)
      else (case send_data cr s sid pend of
        (s, Inr _) \<Rightarrow> (s, [], True)
      | (s, Inl (StreamErr (CreditExceeded _ _))) \<Rightarrow>
          (case offsets s sid of
             None \<Rightarrow> (s, pend, False)
           | Some (off, hi, _) \<Rightarrow>
               (let avail = hi - off; n = min avail (length pend) in
                if avail = 0 then (s, pend, True)
                else (case send_data cr s sid (take n pend) of
                   (s, Inl _) \<Rightarrow> (s, pend, False)
                 | (s, Inr _) \<Rightarrow> deliver cr s sid (drop n pend))))
      | (s, Inl _) \<Rightarrow> (s, pend, False)))"
  by pat_completeness auto
termination
  by (relation "measure (\<lambda>(cr, s, sid, pend). length pend)") auto

declare deliver.simps [simp del]

section \<open>The TCP task\<close>

record TcpPump =
  tp_pending :: bytes
  tp_eof :: bool
  tp_fin_sent :: bool
  tp_final :: "nat option"
  tp_written :: nat
  tp_shutdown :: bool
  tp_in :: bytes      \<comment> \<open>the socket: what was read from it\<close>
  tp_out :: bytes     \<comment> \<open>the socket: what was written to it\<close>

definition pump_new :: TcpPump where
  "pump_new = \<lparr>tp_pending = [], tp_eof = False, tp_fin_sent = False, tp_final = None, tp_written = 0, tp_shutdown = False,
     tp_in = [], tp_out = []\<rparr>"

datatype phase = AtHead | Waiting | Finished

text \<open>The head of the loop after the delivery: the shutdown of the write half and the exit test.\<close>

definition pump_shutdown :: "SessionEntry \<times> TcpPump \<Rightarrow> SessionEntry \<times> TcpPump \<times> phase" where
  "pump_shutdown = (\<lambda>(e, p).
     let p = (case tp_final p of
                Some off \<Rightarrow> if \<not> tp_shutdown p \<and> tp_written p \<ge> off then p\<lparr>tp_shutdown := True\<rparr> else p
              | None \<Rightarrow> p)
     in (e, p, if tp_fin_sent p \<and> tp_shutdown p then Finished else Waiting))"

definition pump_head :: "crypto_crate \<Rightarrow> 'net HubExitTask \<Rightarrow> SessionEntry \<times> TcpPump \<Rightarrow> SessionEntry \<times> TcpPump \<times> phase" where
  "pump_head cr x = (\<lambda>(e, p).
     let sid = hx_stream_id x; (s, rest, ok) = deliver cr (se_engine e) sid (tp_pending p);
         e = e\<lparr>se_engine := s\<rparr>; p = p\<lparr>tp_pending := rest\<rparr>
     in if \<not> ok then (reset_stream cr x e ResetUnreachable, p, Finished)
        else
          let e = flush_outbound e in
          if tp_eof p \<and> tp_pending p = [] \<and> \<not> tp_fin_sent p then
            (case on_session e (\<lambda>s. send_fin cr s sid) of
               (e, Inl _) \<Rightarrow> (e, p, Finished)
             | (e, Inr _) \<Rightarrow> pump_shutdown (flush_outbound e, p\<lparr>tp_fin_sent := True\<rparr>))
          else pump_shutdown (e, p))"

datatype pump_input =
    SockRead bytes                             \<comment> \<open>one read of the socket, empty at its end\<close>
  | SockFailed
  | PumpEvent "SessionEvent option" bool       \<comment> \<open>the channel's next event, and whether the socket write succeeds\<close>

definition pump_input_step ::
    "crypto_crate \<Rightarrow> 'net HubExitTask \<Rightarrow> SessionEntry \<times> TcpPump \<Rightarrow> pump_input \<Rightarrow> SessionEntry \<times> TcpPump \<times> phase" where
  "pump_input_step cr x = (\<lambda>(e, p) i.
     case i of
       SockRead bs \<Rightarrow>
         if tp_eof p \<or> tp_pending p \<noteq> [] \<or> length bs > READ_CHUNK then (e, p, Waiting)
         else if bs = [] then (e, p\<lparr>tp_eof := True\<rparr>, AtHead)
         else (e, p\<lparr>tp_pending := tp_pending p @ bs, tp_in := tp_in p @ bs\<rparr>, AtHead)
     | SockFailed \<Rightarrow>
         if tp_eof p \<or> tp_pending p \<noteq> [] then (e, p, Waiting)
         else (reset_stream cr x e ResetUnreachable, p, Finished)
     | PumpEvent None _ \<Rightarrow> (e, p, Finished)
     | PumpEvent (Some (EvData _ _ data)) written_ok \<Rightarrow>
         if \<not> written_ok then (reset_stream cr x e ResetUnreachable, p, Finished)
         else
           let p = p\<lparr>tp_written := (tp_written p + length data) mod 2 ^ 64, tp_out := tp_out p @ data\<rparr> in
           (case on_session e (\<lambda>s. consume cr s (hx_stream_id x) (length data)) of
              (e, Inl _) \<Rightarrow> (reset_stream cr x e ProtocolError, p, Finished)
            | (e, Inr _) \<Rightarrow> (flush_outbound e, p, AtHead))
     | PumpEvent (Some (EvFin f)) _ \<Rightarrow> (e, p\<lparr>tp_final := Some (fin_final_offset f)\<rparr>, AtHead)
     | PumpEvent (Some (EvReset _)) _ \<Rightarrow> (e, p, Finished)
     | PumpEvent (Some _) _ \<Rightarrow> (e, p, AtHead))"

text \<open>The task among the others: a step of the task in its phase, or a change another task made to the engine. A change
  keeps what the task relies on: no one else sends on its stream, though the stream may be closed.\<close>

definition keeps_stream :: "nat \<Rightarrow> Session \<Rightarrow> Session \<Rightarrow> bool" where
  "keeps_stream sid s s' \<longleftrightarrow>
     (\<forall>en'. map_of (streams s') sid = Some en' \<longrightarrow>
        (\<exists>en. map_of (streams s) sid = Some en \<and> send_offset en' = send_offset en))"

datatype pump_op = Head | Input pump_input | Others Session

definition pump_step ::
    "crypto_crate \<Rightarrow> 'net HubExitTask \<Rightarrow> SessionEntry \<times> TcpPump \<times> phase \<Rightarrow> pump_op \<Rightarrow> SessionEntry \<times> TcpPump \<times> phase" where
  "pump_step cr x = (\<lambda>(e, p, ph) op.
     case op of
       Head \<Rightarrow> if ph = AtHead then pump_head cr x (e, p) else (e, p, ph)
     | Input i \<Rightarrow> if ph = Waiting then pump_input_step cr x (e, p) i else (e, p, ph)
     | Others s \<Rightarrow> if keeps_stream (hx_stream_id x) (se_engine e) s then (e\<lparr>se_engine := s\<rparr>, p, ph) else (e, p, ph))"

definition pump_run ::
    "crypto_crate \<Rightarrow> 'net HubExitTask \<Rightarrow> SessionEntry \<times> TcpPump \<times> phase \<Rightarrow> pump_op list \<Rightarrow> SessionEntry \<times> TcpPump \<times> phase" where
  "pump_run cr x = foldl (pump_step cr x)"

section \<open>The UDP route\<close>

record UdpPump =
  up_association :: "nat option"
  up_next_id :: nat
  up_out :: "bytes list"       \<comment> \<open>the socket: the datagrams given to it\<close>

definition udp_pump_new :: UdpPump where
  "udp_pump_new = \<lparr>up_association = None, up_next_id = 0, up_out = []\<rparr>"

datatype udp_input =
    UdpReceived bytes SocketAddr
  | UdpRecvFailed
  | UdpEvent "SessionEvent option"

definition udp_reply :: "'net HubExitTask \<Rightarrow> nat \<Rightarrow> nat \<Rightarrow> SocketAddr \<Rightarrow> DatagramFields" where
  "udp_reply x association n source =
     \<lparr>dg_stream_id = hx_stream_id x, dg_association_id = association, dg_datagram_id = n,
      dg_host = ip_to_string (sa_ip source), dg_port = sa_port source, dg_remaining_ttl_ms = UDP_QUEUE_TTL_DEFAULT_MS\<rparr>"

text \<open>One turn of the loop; the last component says whether the loop goes on.\<close>

definition udp_pump_step ::
    "crypto_crate \<Rightarrow> 'net HubExitTask \<Rightarrow> SessionEntry \<times> UdpPump \<Rightarrow> udp_input \<Rightarrow> SessionEntry \<times> UdpPump \<times> bool" where
  "udp_pump_step cr x = (\<lambda>(e, p) i.
     case i of
       UdpRecvFailed \<Rightarrow> (e, p, True)
     | UdpReceived data source \<Rightarrow>
         (case up_association p of
            None \<Rightarrow> (e, p, True)
          | Some association \<Rightarrow>
              (case checked_add (up_next_id p) 1 of
                 None \<Rightarrow> (e, p, False)
               | Some n \<Rightarrow>
                   (let p = p\<lparr>up_next_id := n\<rparr> in
                    case on_session e (\<lambda>s. send_datagram cr s (datagram_to_canonical (udp_reply x association n source))
                           (take MAX_UDP_PAYLOAD data)) of
                      (e, Inl _) \<Rightarrow> (e, p, False)
                    | (e, Inr _) \<Rightarrow> (flush_outbound e, p, True))))
     | UdpEvent None \<Rightarrow> (e, p, False)
     | UdpEvent (Some (EvDatagram md data)) \<Rightarrow>
         (case datagram_from_canonical md of
            Inl _ \<Rightarrow> (e, p, True)
          | Inr f \<Rightarrow>
              if dg_stream_id f \<noteq> hx_stream_id x then (e, p, True)
              else if (case up_association p of Some known \<Rightarrow> known \<noteq> dg_association_id f | None \<Rightarrow> False) then (e, p, True)
              else
                let p = p\<lparr>up_association := Some (dg_association_id f)\<rparr> in
                if dg_remaining_ttl_ms f = 0 then (e, p, True) else (e, p\<lparr>up_out := up_out p @ [data]\<rparr>, True))
     | UdpEvent (Some (EvFin f)) \<Rightarrow> (e, p, fin_stream_id f \<noteq> hx_stream_id x)
     | UdpEvent (Some (EvReset f)) \<Rightarrow> (e, p, reset_stream_id f \<noteq> hx_stream_id x)
     | UdpEvent (Some _) \<Rightarrow> (e, p, True))"

section \<open>Starting a task\<close>

definition exit_task :: "'net Hub \<Rightarrow> nat \<Rightarrow> OpenFields \<Rightarrow> string \<Rightarrow> nat \<Rightarrow> 'net HubExitTask" where
  "exit_task hub r f host port =
     \<lparr>hx_policy = hb_egress hub, hx_caller = se_node_id (entry_at hub r), hx_proto = open_proto f,
      hx_request_id = open_request_id f, hx_stream_id = open_stream_id f, hx_host = host, hx_port = port\<rparr>"

definition start_exit ::
    "crypto_crate \<Rightarrow> hex_crate \<Rightarrow> 'net Hub \<Rightarrow> nat \<Rightarrow> OpenFields \<Rightarrow> string \<Rightarrow> nat \<Rightarrow> bool \<Rightarrow> 'net Hub \<times> 'net HubExitTask option" where
  "start_exit cr h hub r f host port runtime =
     (if \<not> runtime then (refuse_open cr h hub r f Unreachable DETAIL_NO_RUNTIME, None)
      else
        let (e, claimed) = claim_stream (entry_at hub r) (open_stream_id f) in
        if \<not> claimed then (hub, None) else (on_entry hub r (\<lambda>_. e), Some (exit_task hub r f host port)))"

definition spawn_udp_exit ::
    "crypto_crate \<Rightarrow> hex_crate \<Rightarrow> 'net Hub \<Rightarrow> nat \<Rightarrow> OpenFields \<Rightarrow> string \<Rightarrow> nat \<Rightarrow> bool \<Rightarrow> 'net Hub \<times> 'net HubExitTask option" where
  "spawn_udp_exit cr h hub r f host port runtime = start_exit cr h hub r f host port runtime"

definition spawn_hub_exit ::
    "crypto_crate \<Rightarrow> hex_crate \<Rightarrow> 'net Hub \<Rightarrow> nat \<Rightarrow> OpenFields \<Rightarrow> string \<Rightarrow> nat \<Rightarrow> bool \<Rightarrow> 'net Hub \<times> 'net HubExitTask option" where
  "spawn_hub_exit cr h hub r f host port runtime =
     (if open_proto f = Udp then spawn_udp_exit cr h hub r f host port runtime
      else start_exit cr h hub r f host port runtime)"

section \<open>Dialled addresses\<close>

lemma try_candidates_checked:
  "try_candidates c policy query attempt n prev addrs = (tried, res) \<Longrightarrow>
   set tried \<subseteq> set addrs \<and> (\<forall>a \<in> set tried. egress_check c policy (query (sa_ip a)) (sa_ip a) = Inr ())
   \<and> (\<forall>a. res = Inr a \<longrightarrow> tried \<noteq> [] \<and> a = List.last tried)"
proof (induction addrs arbitrary: n prev tried)
  case (Cons a rest)
  show ?case
  proof (cases "egress_check c policy (query (sa_ip a)) (sa_ip a)")
    case (Inl refusal)
    with Cons.prems Cons.IH [of n "Some (failure StatusDenied (refusal_detail refusal))" tried] show ?thesis by auto
  next
    case (Inr u)
    show ?thesis
    proof (cases "attempt n a")
      case None
      with Inr Cons.prems show ?thesis by auto
    next
      case (Some f)
      with Inr Cons.prems obtain tried' where t: "tried = a # tried'"
        "try_candidates c policy query attempt (n + 1) (Some f) rest = (tried', res)"
        by (auto split: prod.splits)
      from Cons.IH [OF t(2)] t(1) Inr show ?thesis by auto
    qed
  qed
qed auto

lemma dial_checked:
  assumes "dial c x rs connect = (tried, res)" "a \<in> set tried"
  obtains addrs where "rs = Resolved addrs" "a \<in> set addrs" "egress_check c (hx_policy x) (exit_query x (sa_ip a)) (sa_ip a) = Inr ()"
  using assms try_candidates_checked [of c "hx_policy x" "exit_query x" _ 0 None _ tried res]
  by (fastforce simp: dial_def candidates_def split: resolution.splits if_splits)

lemma udp_dial_checked:
  assumes "udp_dial c x rs connect = (tried, res)" "a \<in> set tried"
  obtains addrs where "rs = Resolved addrs" "a \<in> set addrs" "egress_check c (hx_policy x) (udp_exit_query x (sa_ip a)) (sa_ip a) = Inr ()"
  using assms try_candidates_checked [of c "hx_policy x" "udp_exit_query x" _ 0 None _ tried res]
  by (fastforce simp: udp_dial_def candidates_def split: resolution.splits)

lemma authorize_hub_exit:
  assumes "authorize_open c hub caller f = Inr (HubExit host port)"
  shows "open_destination f = Address host port \<and> is_allowed (acl_check c (hb_acl hub) (open_query caller f))"
  using assms unfolding authorize_open_def final_leg_def rbind_def
  by (auto split: if_splits sum.splits Destination.splits option.splits)

text \<open>What the Hub relies on of the resolver: it returns addresses, and a numeric host is its own address.\<close>

definition resolver_law :: "string \<Rightarrow> SocketAddr list \<Rightarrow> bool" where
  "resolver_law host addrs \<longleftrightarrow> (\<forall>a \<in> set addrs. ip_ok (sa_ip a) \<and> (\<forall>ip. parse_ip host = Some ip \<longrightarrow> sa_ip a = ip))"

definition address_query :: "string \<Rightarrow> Proto \<Rightarrow> nat \<Rightarrow> IpAddr \<Rightarrow> AclQuery" where
  "address_query caller proto port ip =
     \<lparr>query_caller = caller, query_action = ConnectAddress, query_node = None, query_service = None,
      query_ip = Some ip, query_port = Some port, query_proto = proto\<rparr>"

lemma checked_is_permitted:
  assumes t: "AclTable_new c rules = Inr (hb_acl hub)" and plan: "authorize_open c hub caller f = Inr (HubExit host port)"
    and a: "resolver_law host addrs" "a \<in> set addrs"
    and ok: "egress_check c (from_rules c rules) (address_query caller (open_proto f) port (sa_ip a)) (sa_ip a) = Inr ()"
  shows "permitted c rules (address_query caller (open_proto f) port (sa_ip a))
    \<and> (special_address (sa_ip a) \<longrightarrow>
         permitted c (filter (\<lambda>r. rule_host_cidr r \<noteq> None) rules) (address_query caller (open_proto f) port (sa_ip a)))"
proof
  let ?q = "address_query caller (open_proto f) port (sa_ip a)"
  have ad: "open_destination f = Address host port" "is_allowed (acl_check c (hb_acl hub) (open_query caller f))"
    using authorize_hub_exit [OF plan] by auto
  have q: "open_query caller f = ?q\<lparr>query_ip := parse_ip host\<rparr>" by (simp add: open_query_def ad(1) address_query_def)
  have "acl_check c (hb_acl hub) ?q = Allowed"
  proof (cases "parse_ip host")
    case None
    with ad(2) q have "acl_check c (hb_acl hub) (?q\<lparr>query_ip := None\<rparr>) = Allowed"
      by (cases "acl_check c (hb_acl hub) (open_query caller f)") simp_all
    from egress_within_acl [OF t this ok] show ?thesis by (simp add: address_query_def)
  next
    case (Some ip)
    with a have "sa_ip a = ip" by (simp add: resolver_law_def)
    with Some q have "open_query caller f = ?q" by (simp add: address_query_def)
    with ad(2) show ?thesis by (cases "acl_check c (hb_acl hub) ?q") simp_all
  qed
  then show "permitted c rules ?q" using acl_permitted [OF t, of ?q] by simp
  show "special_address (sa_ip a) \<longrightarrow> permitted c (filter (\<lambda>r. rule_host_cidr r \<noteq> None) rules) ?q"
  proof
    assume sp: "special_address (sa_ip a)"
    have "ip_ok (sa_ip a)" using a by (simp add: resolver_law_def)
    with sp have "\<not> is_public (classify (sa_ip a))" by (simp add: classify_public)
    with ok have "acl_check c (ep_explicit (from_rules c rules)) (?q\<lparr>query_ip := Some (sa_ip a)\<rparr>) = Allowed"
      by (simp add: egress_check_Inr)
    with egress_tables(2) [OF t, of "?q\<lparr>query_ip := Some (sa_ip a)\<rparr>"]
    show "permitted c (filter (\<lambda>r. rule_host_cidr r \<noteq> None) rules) ?q"
      by (simp add: permitted_def first_hit_def address_query_def)
  qed
qed

section \<open>Delivery\<close>

lemma send_chunks_entry:
  "map_of (streams s) sid = Some en \<Longrightarrow> send_chunks cr s sid (send_offset en) pl = (s', Inr u) \<Longrightarrow>
   map_of (streams s') sid = Some (en\<lparr>send_offset := send_offset en + length pl\<rparr>)"
proof (induction pl arbitrary: s en rule: length_induct)
  case (1 pl)
  show ?case
  proof (cases "pl = []")
    case True
    with "1.prems" show ?thesis by (subst (asm) send_chunks.simps) simp
  next
    case False
    define k where "k = min (length pl) MAX_TCP_PAYLOAD"
    have k: "length (drop k pl) < length pl" "k + length (drop k pl) = length pl" using False by (auto simp: k_def limit_defs)
    from "1.prems"(2) obtain s1 v where s1: "send cr s Data (data_to_canonical \<lparr>data_stream_id = sid, data_offset = send_offset en\<rparr>)
        (take k pl) = (s1, Inr v)"
      and s2: "send_chunks cr (case map_of (streams s1) sid of Some en' \<Rightarrow> put_stream s1 sid (en'\<lparr>send_offset := send_offset en + k\<rparr>)
           | None \<Rightarrow> s1) sid (send_offset en + k) (drop k pl) = (s', Inr u)"
      unfolding send_chunks.simps [of cr s] Let_def k_def [symmetric] if_not_P [OF False] andthen_def
      by (auto split: prod.splits sum.splits)
    let ?en = "en\<lparr>send_offset := send_offset en + k\<rparr>"
    have "streams s1 = streams s" using s1 send_frame(1) by (metis fst_conv)
    with "1.prems"(1) s2 have s2: "send_chunks cr (put_stream s1 sid ?en) sid (send_offset ?en) (drop k pl) = (s', Inr u)" by simp
    have "map_of (streams (put_stream s1 sid ?en)) sid = Some ?en" by (simp add: put_stream_def update_conv')
    from "1.IH" [rule_format, OF k(1) this s2] k(2) show ?thesis by (simp add: add.assoc)
  qed
qed

lemma send_data_Inr:
  assumes "send_data cr s sid pl = (s', Inr n)" "pl \<noteq> []"
  obtains en u where "map_of (streams s) sid = Some en" "n = length pl" "send_offset en + length pl \<le> send_limit en"
    "send_offset en + length pl \<le> u64_max"
    "send_chunks cr s sid (send_offset en) pl = (s', Inr u)"
    "map_of (streams s') sid = Some (en\<lparr>send_offset := send_offset en + length pl\<rparr>)"
proof -
  from assms obtain en e u where en: "map_of (streams s) sid = Some en" "checked_add (send_offset en) (length pl) = Some e"
      "\<not> e > send_limit en" "send_chunks cr s sid (send_offset en) pl = (s', Inr u)" "n = length pl"
    by (auto simp: send_data_def andthen_def split: option.splits if_splits prod.splits sum.splits)
  moreover have "e = send_offset en + length pl" "e \<le> u64_max" using en(2) by (auto simp: checked_add_def split: if_splits)
  ultimately show thesis using that send_chunks_entry [OF en(1,4)] by simp
qed

lemma send_data_CreditExceeded:
  assumes "send_data cr s sid pl = (s', Inl (StreamErr (CreditExceeded e l)))" "map_of (streams s) sid \<noteq> None"
  shows "s' = s"
proof -
  obtain en where en: "map_of (streams s) sid = Some en" using assms(2) by blast
  have no: "snd (send_chunks cr s0 sid off bs) \<noteq> Inl (StreamErr (CreditExceeded e l))" for s0 off bs
  proof (induction bs arbitrary: s0 off rule: length_induct)
    case (1 bs)
    then show ?case
      by (subst send_chunks.simps) (auto simp: Let_def andthen_def send_def limit_defs split: prod.splits sum.splits option.splits)
  qed
  from assms(1) en show ?thesis
    using no [of s "send_offset en" pl]
    by (auto simp: send_data_def andthen_def split: option.splits if_splits prod.splits sum.splits)
qed

lemma deliver_error:
  assumes "deliver cr s sid pend = (s', rest, True)" "pend \<noteq> []" "send_data cr s sid pend = (s1, Inl err)"
  obtains e l where "err = StreamErr (CreditExceeded e l)"
proof (cases "\<exists>x. err = StreamErr x")
  case True
  then obtain x where x: "err = StreamErr x" by blast
  show thesis
  proof (cases "\<exists>e l. x = CreditExceeded e l")
    case False
    then have "deliver cr s sid pend = (s1, pend, False)"
      using assms(2,3) x by (subst deliver.simps, cases x) simp_all
    with assms(1) show thesis by simp
  qed (use x that in blast)
next
  case False
  then have "deliver cr s sid pend = (s1, pend, False)"
    using assms(2,3) by (subst deliver.simps, cases err) simp_all
  with assms(1) show thesis by simp
qed

text \<open>A delivery that lets the stream continue made at most one successful \<open>send_data\<close>, of a prefix of the pending bytes,
  and kept bytes back only when the credit was used up.\<close>

lemma deliver_prefix:
  assumes "deliver cr s sid pend = (s', rest, True)" "map_of (streams s) sid = Some en"
  obtains sent where "pend = sent @ rest" "sent = [] \<and> s' = s \<or> send_data cr s sid sent = (s', Inr (length sent))"
    "rest \<noteq> [] \<longrightarrow> send_limit en \<le> send_offset en + length sent"
proof (cases "pend = []")
  case True
  with assms that [of "[]"] show thesis by (subst (asm) deliver.simps) simp
next
  case ne: False
  obtain s1 res where sd: "send_data cr s sid pend = (s1, res)" by fastforce
  show thesis
  proof (cases res)
    case (Inr n)
    with assms ne sd have "rest = []" "s' = s1" by (subst (asm) deliver.simps, simp)+
    moreover have "n = length pend" using send_data_Inr [OF sd [unfolded Inr] ne] .
    ultimately show thesis using that [of pend] sd Inr by simp
  next
    case (Inl err)
    obtain e l where err: "err = StreamErr (CreditExceeded e l)"
      by (rule deliver_error [OF assms(1) ne sd [unfolded Inl]])
    have s1: "s1 = s" using send_data_CreditExceeded [OF sd [unfolded Inl err]] assms(2) by simp
    define n where "n = min (send_limit en - send_offset en) (length pend)"
    have off: "offsets s sid = Some (send_offset en, send_limit en, received (credit en))" by (simp add: offsets_def assms(2))
    show thesis
    proof (cases "send_limit en - send_offset en = 0")
      case True
      with assms ne sd Inl err s1 off have "s' = s" "rest = pend" by (subst (asm) deliver.simps, simp)+
      with that [of "[]"] True show thesis by simp
    next
      case False
      obtain s2 res2 where sd2: "send_data cr s sid (take n pend) = (s2, res2)" by fastforce
      have d: "deliver cr s sid pend = (case (s2, res2) of (s, Inl _) \<Rightarrow> (s, pend, False) | (s, Inr _) \<Rightarrow> deliver cr s sid (drop n pend))"
        using ne sd Inl err s1 off False sd2 [unfolded n_def] by (subst deliver.simps) (simp add: Let_def n_def split: sum.split)
      with assms(1) obtain m where m: "res2 = Inr m" by (cases res2) auto
      with d assms(1) have d2: "deliver cr s2 sid (drop n pend) = (s', rest, True)" by simp
      have tk: "take n pend \<noteq> []" "length (take n pend) = n" using ne False by (auto simp: n_def)
      from sd2 m have sd2: "send_data cr s sid (take n pend) = (s2, Inr m)" by simp
      obtain en0 where en2: "map_of (streams s) sid = Some en0" "m = n"
        "map_of (streams s2) sid = Some (en0\<lparr>send_offset := send_offset en0 + n\<rparr>)"
        using send_data_Inr [OF sd2 tk(1)] tk(2) by metis
      have "s' = s2 \<and> rest = drop n pend"
      proof (cases "drop n pend = []")
        case True
        with d2 show ?thesis by (subst (asm) deliver.simps) simp
      next
        case dn: False
        then have n: "n = send_limit en - send_offset en" by (auto simp: n_def)
        have off2: "offsets s2 sid = Some (send_limit en, send_limit en, received (credit en))"
          using en2 assms(2) n False by (simp add: offsets_def)
        obtain s3 res3 where sd3: "send_data cr s2 sid (drop n pend) = (s3, res3)" by fastforce
        have "\<not> is_ok res3"
        proof
          assume "is_ok res3"
          then obtain k where "res3 = Inr k" by (cases res3) auto
          with sd3 have sd3: "send_data cr s2 sid (drop n pend) = (s3, Inr k)" by simp
          obtain en3 where en3: "map_of (streams s2) sid = Some en3" "send_offset en3 + length (drop n pend) \<le> send_limit en3"
            by (rule send_data_Inr [OF sd3 dn])
          from en3(1) en2 assms(2) n have "en3 = en\<lparr>send_offset := send_offset en + (send_limit en - send_offset en)\<rparr>" by simp
          with en3(2) False dn show False by simp
        qed
        then obtain err3 where "res3 = Inl err3" by (cases res3) auto
        then obtain e3 l3 where e3: "res3 = Inl (StreamErr (CreditExceeded e3 l3))"
          using deliver_error [OF d2 dn] sd3 by metis
        have "s3 = s2" using send_data_CreditExceeded [OF sd3 [unfolded e3]] en2 by simp
        with d2 dn sd3 e3 off2 show ?thesis by (subst (asm) deliver.simps) simp
      qed
      with that [of "take n pend"] sd2 en2(2) tk(2) show thesis by (auto simp: n_def min_def split: if_splits)
    qed
  qed
qed

section \<open>The task keeps the stream\<close>

lemma keeps_stream_refl [simp]: "keeps_stream sid s s"
  by (simp add: keeps_stream_def)

lemma keeps_stream_trans: "keeps_stream sid s s' \<Longrightarrow> keeps_stream sid s' s'' \<Longrightarrow> keeps_stream sid s s''"
  unfolding keeps_stream_def by fastforce

lemma keeps_stream_send: "keeps_stream sid s (fst (send cr s k md pl))"
  by (simp add: keeps_stream_def send_frame)

lemma keeps_stream_put:
  "map_of (streams s) sid' = Some en \<Longrightarrow> send_offset en' = send_offset en \<Longrightarrow> keeps_stream sid s (put_stream s sid' en')"
  by (simp add: keeps_stream_def put_stream_def update_conv')

lemma keeps_stream_close: "keeps_stream sid s (close_stream s sid')"
  by (simp add: keeps_stream_def close_stream_def delete_conv' restrict_map_def)

lemma keeps_stream_emit: "keeps_stream sid s s' \<Longrightarrow> keeps_stream sid s (emit s' ev)"
  by (simp add: keeps_stream_def emit_def)

lemma keeps_stream_state: "keeps_stream sid s (set_state s st)"
  by (simp add: keeps_stream_def set_state_def emit_def)

lemma send_fin_keeps: "keeps_stream sid s (fst (send_fin cr s sid'))"
proof (cases "map_of (streams s) sid'")
  case (Some en)
  let ?s = "put_stream s sid' (en\<lparr>fin_sent := True\<rparr>)"
  have "keeps_stream sid s ?s" using Some by (rule keeps_stream_put) simp
  moreover have "keeps_stream sid ?s (fst (send_control cr ?s Fin md))" for md
    by (simp add: send_control_def keeps_stream_send)
  ultimately show ?thesis using Some
    by (auto simp: send_fin_def fst_andthen Let_def intro: keeps_stream_trans split: sum.split)
qed (simp add: send_fin_def)

lemma consume_keeps: "keeps_stream sid s (fst (consume cr s sid' n))"
proof (cases "map_of (streams s) sid'")
  case (Some en)
  show ?thesis
  proof (cases "credit_consume (credit en) n")
    case (Inr cg)
    obtain c g where cg: "cg = (c, g)" by fastforce
    let ?s = "put_stream s sid' (en\<lparr>credit := c\<rparr>)"
    have "keeps_stream sid s ?s" using Some by (rule keeps_stream_put) simp
    moreover have "keeps_stream sid ?s (fst (send_control cr ?s Progress md))" for md
      by (simp add: send_control_def keeps_stream_send)
    ultimately show ?thesis using Some Inr cg
      by (auto simp: consume_def fst_andthen Let_def intro: keeps_stream_trans split: sum.split)
  qed (use Some in \<open>simp add: consume_def\<close>)
qed (simp add: consume_def)

text \<open>What the reader of the session does to the engine is such a change, as long as the peer does not open the stream anew.\<close>

lemma deliver_data_keeps: "keeps_stream sid s (fst (deliver_data s f pl))"
proof (cases "map_of (streams s) (data_stream_id f)")
  case (Some en)
  have em: "keeps_stream sid s (foldl (\<lambda>s (off, d). emit s (EvData i off d)) s' ds)" if "keeps_stream sid s s'" for s' i ds
    using that by (induction ds arbitrary: s') (auto intro: keeps_stream_emit)
  have put: "keeps_stream sid s (put_stream s (data_stream_id f) (en\<lparr>recv := b, credit := c\<rparr>))" for b c
    using Some by (rule keeps_stream_put) simp
  show ?thesis using Some put em by (auto simp: deliver_data_def Let_def split: sum.split prod.split)
qed (simp add: deliver_data_def)

lemma update_stream_keeps:
  "(\<And>en. send_offset (g en) = send_offset en) \<Longrightarrow> keeps_stream sid s (update_stream s sid' g)"
  by (auto simp: update_stream_def intro: keeps_stream_put split: option.split)

lemma with_fields_keeps: "(\<And>x. r = Inr x \<Longrightarrow> keeps_stream sid s (fst (f x))) \<Longrightarrow> keeps_stream sid s (fst (with_fields s r f))"
  by (auto simp: with_fields_def split: sum.split)

lemma dispatch_keeps: "k \<noteq> Open \<Longrightarrow> keeps_stream sid s (fst (dispatch_kind cr h s md pl k))"
  by (cases k) (auto intro!: with_fields_keeps keeps_stream_emit keeps_stream_state keeps_stream_close deliver_data_keeps
      update_stream_keeps)

section \<open>The invariant of the TCP task\<close>

definition pump_inv :: "'net HubExitTask \<Rightarrow> SessionEntry \<times> TcpPump \<times> phase \<Rightarrow> bool" where
  "pump_inv x = (\<lambda>(e, p, ph). tp_written p = length (tp_out p) mod 2 ^ 64 \<and>
     (ph \<noteq> Finished \<longrightarrow> length (tp_pending p) \<le> READ_CHUNK
        \<and> (tp_fin_sent p \<longrightarrow> tp_eof p \<and> tp_pending p = [])
        \<and> (\<forall>en. map_of (streams (se_engine e)) (hx_stream_id x) = Some en \<longrightarrow>
             send_offset en \<le> length (tp_in p) \<and> tp_pending p = drop (send_offset en) (tp_in p))))"

lemma flush_engine [simp]: "se_engine (flush_outbound e) = se_engine e"
  by (simp add: flush_outbound_def)

lemma on_session_engine: "on_session e f = (e', res) \<Longrightarrow> se_engine e' = fst (f (se_engine e))"
  by (auto simp: on_session_def split: prod.splits)

lemma pump_inv_engine:
  assumes "pump_inv x (e, p, ph)" "keeps_stream (hx_stream_id x) (se_engine e) (se_engine e')"
  shows "pump_inv x (e', p, ph)"
  using assms unfolding pump_inv_def keeps_stream_def by fastforce

lemma pump_inv_finished: "pump_inv x (e, p, ph) \<Longrightarrow> tp_written p' = tp_written p \<Longrightarrow> tp_out p' = tp_out p \<Longrightarrow> pump_inv x (e', p', Finished)"
  by (simp add: pump_inv_def)

lemma pump_shutdown_inv:
  assumes "\<And>ph. pump_inv x (e, p, ph)"
  shows "pump_inv x (pump_shutdown (e, p))"
  using assms [of Waiting] by (auto simp: pump_shutdown_def pump_inv_def Let_def split: option.split)

text \<open>Delivery from a buffer that holds what was received and not yet sent keeps it so.\<close>

lemma deliver_leg:
  assumes inv: "\<And>en. map_of (streams s) sid = Some en \<Longrightarrow> send_offset en \<le> length got \<and> buf = drop (send_offset en) got"
    and d: "deliver cr s sid buf = (s', rest, True)"
  shows "\<exists>sent. buf = sent @ rest"
    and "map_of (streams s') sid = Some en' \<Longrightarrow> send_offset en' \<le> length got \<and> rest = drop (send_offset en') got"
proof -
  have "(\<exists>sent. buf = sent @ rest) \<and> (\<forall>en'. map_of (streams s') sid = Some en' \<longrightarrow>
      send_offset en' \<le> length got \<and> rest = drop (send_offset en') got)"
  proof (cases "map_of (streams s) sid")
    case None
    have "buf = []"
    proof (rule ccontr)
      assume "buf \<noteq> []"
      with d None show False by (subst (asm) deliver.simps) (simp add: send_data_def)
    qed
    moreover from this d have "s' = s" "rest = []" by (subst (asm) deliver.simps, simp)+
    ultimately show ?thesis using None by simp
  next
    case (Some en)
    from deliver_prefix [OF d Some] obtain sent where sent: "buf = sent @ rest"
      "sent = [] \<and> s' = s \<or> send_data cr s sid sent = (s', Inr (length sent))" by metis
    have st: "map_of (streams s') sid = Some (en\<lparr>send_offset := send_offset en + length sent\<rparr>)"
    proof (cases "sent = []")
      case True
      with sent(2) Some show ?thesis by (auto simp: send_data_def)
    next
      case False
      with sent(2) have "send_data cr s sid sent = (s', Inr (length sent))" by simp
      from send_data_Inr [OF this False] Some show ?thesis by (metis option.inject)
    qed
    have pend: "buf = drop (send_offset en) got" "send_offset en \<le> length got" using inv [OF Some] by auto
    have "rest = drop (length sent) buf" using sent(1) by simp
    then have "rest = drop (send_offset en + length sent) got" by (simp add: pend(1) add.commute)
    moreover have "send_offset en + length sent \<le> length got" using arg_cong [OF sent(1), of length] pend by simp
    ultimately show ?thesis using sent(1) st by simp
  qed
  then show "\<exists>sent. buf = sent @ rest"
    "map_of (streams s') sid = Some en' \<Longrightarrow> send_offset en' \<le> length got \<and> rest = drop (send_offset en') got" by auto
qed

lemma deliver_inv:
  assumes inv: "pump_inv x (e, p, AtHead)" and d: "deliver cr (se_engine e) (hx_stream_id x) (tp_pending p) = (s, rest, True)"
  shows "pump_inv x (e\<lparr>se_engine := s\<rparr>, p\<lparr>tp_pending := rest\<rparr>, ph)"
proof -
  have leg: "send_offset en \<le> length (tp_in p) \<and> tp_pending p = drop (send_offset en) (tp_in p)"
    if "map_of (streams (se_engine e)) (hx_stream_id x) = Some en" for en
    using inv that by (simp add: pump_inv_def)
  from deliver_leg(1) [OF leg d] obtain sent where "tp_pending p = sent @ rest" by blast
  then have "length rest \<le> READ_CHUNK" "tp_fin_sent p \<longrightarrow> tp_eof p \<and> rest = []" using inv by (auto simp: pump_inv_def)
  with inv deliver_leg(2) [OF leg d] show ?thesis by (simp add: pump_inv_def)
qed

lemma pump_head_inv:
  assumes inv: "pump_inv x (e, p, AtHead)"
  shows "pump_inv x (pump_head cr x (e, p))"
proof -
  obtain s rest ok where d: "deliver cr (se_engine e) (hx_stream_id x) (tp_pending p) = (s, rest, ok)" by (metis prod.exhaust)
  show ?thesis
  proof (cases ok)
    case False
    with d inv show ?thesis by (auto simp: pump_head_def Let_def intro: pump_inv_finished)
  next
    case True
    let ?e = "flush_outbound (e\<lparr>se_engine := s\<rparr>)" and ?p = "p\<lparr>tp_pending := rest\<rparr>"
    from d True have d': "deliver cr (se_engine e) (hx_stream_id x) (tp_pending p) = (s, rest, True)" by simp
    have i1: "pump_inv x (?e, ?p, ph)" for ph
      by (rule pump_inv_engine [OF deliver_inv [OF inv d']]) simp
    show ?thesis
    proof (cases "tp_eof ?p \<and> tp_pending ?p = [] \<and> \<not> tp_fin_sent ?p")
      case False
      have "pump_head cr x (e, p) = pump_shutdown (?e, ?p)"
        using d' False by (auto simp: pump_head_def Let_def)
      then show ?thesis using pump_shutdown_inv [OF i1] by simp
    next
      case fin: True
      obtain e2 res where sf: "on_session ?e (\<lambda>s. send_fin cr s (hx_stream_id x)) = (e2, res)" by fastforce
      have i2: "pump_inv x (e2, ?p, ph)" for ph
        by (rule pump_inv_engine [OF i1]) (simp add: on_session_engine [OF sf] send_fin_keeps)
      have i3: "pump_inv x (flush_outbound e2, ?p\<lparr>tp_fin_sent := True\<rparr>, ph)" for ph
        using i2 [of ph] fin by (simp add: pump_inv_def)
      show ?thesis
      proof (cases res)
        case (Inl err)
        have "pump_head cr x (e, p) = (e2, ?p, Finished)" using d True fin sf Inl by (simp add: pump_head_def Let_def)
        with i2 show ?thesis by simp
      next
        case (Inr v)
        have "pump_head cr x (e, p) = pump_shutdown (flush_outbound e2, ?p\<lparr>tp_fin_sent := True\<rparr>)"
          using d True fin sf Inr by (simp add: pump_head_def Let_def)
        with pump_shutdown_inv [OF i3] show ?thesis by simp
      qed
    qed
  qed
qed

lemma pump_input_inv:
  assumes inv: "pump_inv x (e, p, Waiting)"
  shows "pump_inv x (pump_input_step cr x (e, p) i)"
proof (cases i)
  case (SockRead bs)
  show ?thesis
  proof (cases "tp_eof p \<or> tp_pending p \<noteq> [] \<or> length bs > READ_CHUNK")
    case True
    with SockRead inv show ?thesis by (simp add: pump_input_step_def)
  next
    case False
    have "send_offset en = length (tp_in p)" if "map_of (streams (se_engine e)) (hx_stream_id x) = Some en" for en
      using inv that False by (auto simp: pump_inv_def)
    with SockRead inv False show ?thesis by (simp add: pump_input_step_def pump_inv_def)
  qed
next
  case SockFailed
  with inv show ?thesis by (auto simp: pump_input_step_def intro: pump_inv_finished)
next
  case (PumpEvent ev ok)
  show ?thesis
  proof (cases "\<exists>a b data. ev = Some (EvData a b data) \<and> ok")
    case True
    then obtain a b data where ev: "ev = Some (EvData a b data)" "ok" by blast
    let ?p = "p\<lparr>tp_written := (tp_written p + length data) mod 2 ^ 64, tp_out := tp_out p @ data\<rparr>"
    have i1: "pump_inv x (e, ?p, ph)" for ph using inv by (auto simp: pump_inv_def mod_simps)
    obtain e2 res where c: "on_session e (\<lambda>s. consume cr s (hx_stream_id x) (length data)) = (e2, res)" by fastforce
    have i2: "pump_inv x (flush_outbound e2, ?p, ph)" for ph
      by (rule pump_inv_engine [OF i1]) (simp add: on_session_engine [OF c] consume_keeps)
    show ?thesis
    proof (cases res)
      case (Inl err)
      with PumpEvent ev c have "pump_input_step cr x (e, p) i = (reset_stream cr x e2 ProtocolError, ?p, Finished)"
        by (simp add: pump_input_step_def Let_def)
      then show ?thesis using pump_inv_finished [OF i1] by simp
    next
      case (Inr v)
      with PumpEvent ev c have "pump_input_step cr x (e, p) i = (flush_outbound e2, ?p, AtHead)"
        by (simp add: pump_input_step_def Let_def)
      then show ?thesis using i2 by simp
    qed
  next
    case False
    with PumpEvent inv show ?thesis
      by (auto simp: pump_input_step_def pump_inv_def split: option.split SessionEvent.split)
  qed
qed

lemma pump_step_inv: "pump_inv x st \<Longrightarrow> pump_inv x (pump_step cr x st op)"
proof -
  assume inv: "pump_inv x st"
  obtain e p ph where st: "st = (e, p, ph)" by (metis prod.exhaust)
  show ?thesis
  proof (cases op)
    case Head
    with inv st show ?thesis by (auto simp: pump_step_def intro: pump_head_inv)
  next
    case (Input i)
    with inv st show ?thesis by (auto simp: pump_step_def intro: pump_input_inv)
  next
    case (Others s)
    with inv st show ?thesis by (auto simp: pump_step_def intro: pump_inv_engine)
  qed
qed

lemma pump_run_inv: "pump_inv x st \<Longrightarrow> pump_inv x (pump_run cr x st ops)"
  unfolding pump_run_def by (induction ops arbitrary: st) (simp_all add: pump_step_inv)

text \<open>The write half is shut down only when everything below the peer's final offset was written.\<close>

lemma shutdown_after_all:
  assumes "pump_inv x st" "pump_step cr x st op = (e', p', ph')" "\<not> tp_shutdown (fst (snd st))" "tp_shutdown p'"
  shows "\<exists>off. tp_final p' = Some off \<and> off \<le> tp_written p'"
proof -
  obtain e p ph where st: "st = (e, p, ph)" by (metis prod.exhaust)
  have sh: "\<exists>off. tp_final p' = Some off \<and> off \<le> tp_written p'"
    if "pump_shutdown (e0, p0) = (e', p', ph')" "\<not> tp_shutdown p0" for e0 p0
    using that assms(4) by (auto simp: pump_shutdown_def Let_def split: option.splits if_splits)
  have "op = Head \<and> ph = AtHead"
    using assms(2-4) st
    by (cases op) (auto simp: pump_step_def pump_input_step_def Let_def
        split: pump_input.splits option.splits SessionEvent.splits if_splits prod.splits sum.splits)
  with assms(2,3,4) st show ?thesis
    by (auto simp: pump_step_def pump_head_def Let_def split: prod.splits if_splits sum.splits intro: sh)
qed

section \<open>The UDP route as a filter\<close>

definition udp_run ::
    "crypto_crate \<Rightarrow> 'net HubExitTask \<Rightarrow> SessionEntry \<times> UdpPump \<times> bool \<Rightarrow> udp_input list \<Rightarrow> SessionEntry \<times> UdpPump \<times> bool" where
  "udp_run cr x = foldl (\<lambda>(e, p, go) i. if go then udp_pump_step cr x (e, p) i else (e, p, go))"

text \<open>The datagrams of the stream that parse: association, remaining time and data.\<close>

fun route_datagram_of :: "'net HubExitTask \<Rightarrow> udp_input \<Rightarrow> (nat \<times> nat \<times> bytes) list" where
  "route_datagram_of x (UdpEvent (Some (EvDatagram md data))) =
     (case datagram_from_canonical md of
        Inl _ \<Rightarrow> []
      | Inr f \<Rightarrow> if dg_stream_id f = hx_stream_id x then [(dg_association_id f, dg_remaining_ttl_ms f, data)] else [])"
| "route_datagram_of x _ = []"

definition route_datagrams :: "'net HubExitTask \<Rightarrow> udp_input list \<Rightarrow> (nat \<times> nat \<times> bytes) list" where
  "route_datagrams x is = concat (map (route_datagram_of x) is)"

definition first_association :: "(nat \<times> nat \<times> bytes) list \<Rightarrow> nat option" where
  "first_association ds = (case ds of [] \<Rightarrow> None | (a, _) # _ \<Rightarrow> Some a)"

definition forwarded :: "(nat \<times> nat \<times> bytes) list \<Rightarrow> bytes list" where
  "forwarded ds = map (\<lambda>(a, t, d). d) (filter (\<lambda>(a, t, d). first_association ds = Some a \<and> t \<noteq> 0) ds)"

lemma first_association_snoc:
  "first_association (ds @ [d]) = (case first_association ds of Some a \<Rightarrow> Some a | None \<Rightarrow> Some (fst d))"
  by (cases ds) (auto simp: first_association_def split: prod.split)

lemma forwarded_snoc:
  "forwarded (ds @ [(a, t, d)]) = forwarded ds @ (if (first_association ds = None \<or> first_association ds = Some a) \<and> t \<noteq> 0 then [d] else [])"
proof (cases ds)
  case (Cons y ys)
  then have "first_association (ds @ [(a, t, d)]) = first_association ds" by (simp add: first_association_def split: prod.split)
  with Cons show ?thesis by (auto simp: forwarded_def) (simp add: first_association_def split: prod.splits)
qed (simp add: forwarded_def first_association_def)

lemma udp_step_filter:
  assumes "udp_pump_step cr x (e, p) i = (e', p', True)"
    and "up_association p = first_association ds" "up_out p = forwarded ds"
  shows "up_association p' = first_association (ds @ route_datagram_of x i) \<and> up_out p' = forwarded (ds @ route_datagram_of x i)"
proof (cases "\<exists>md data. i = UdpEvent (Some (EvDatagram md data))")
  case False
  then have "route_datagram_of x i = []"
    by (cases "(x, i)" rule: route_datagram_of.cases) auto
  moreover have "up_association p' = up_association p \<and> up_out p' = up_out p"
    using assms(1) False
    by (auto simp: udp_pump_step_def Let_def split: udp_input.splits option.splits SessionEvent.splits prod.splits sum.splits)
  ultimately show ?thesis using assms(2,3) by simp
next
  case True
  then obtain md data where i: "i = UdpEvent (Some (EvDatagram md data))" by blast
  show ?thesis
  proof (cases "datagram_from_canonical md")
    case (Inl err)
    with i assms show ?thesis by (simp add: udp_pump_step_def)
  next
    case (Inr f)
    with i assms show ?thesis
      by (auto simp: udp_pump_step_def Let_def first_association_snoc forwarded_snoc split: if_splits option.splits)
  qed
qed

lemma udp_run_filter:
  assumes "udp_run cr x (e, udp_pump_new, True) is = (e', p', True)"
  shows "up_association p' = first_association (route_datagrams x is) \<and> up_out p' = forwarded (route_datagrams x is)"
  using assms
proof (induction "is" arbitrary: e' p' rule: rev_induct)
  case Nil
  then show ?case by (auto simp: udp_run_def udp_pump_new_def route_datagrams_def first_association_def forwarded_def)
next
  case (snoc i "is")
  obtain e1 p1 go where r: "udp_run cr x (e, udp_pump_new, True) is = (e1, p1, go)" by (metis prod.exhaust)
  with snoc.prems have go: "go" and st: "udp_pump_step cr x (e1, p1) i = (e', p', True)"
    by (auto simp: udp_run_def split: if_splits)
  from udp_step_filter [OF st] snoc.IH r go show ?case by (simp add: route_datagrams_def)
qed

section \<open>Properties\<close>

text \<open>C2: Whatever a name resolves to, the Hub opens a connection only to addresses the configuration permits. For an
  \<open>Open\<close> it authorised with itself as the exit, over TCP and over UDP, every address a connection is attempted to was in
  the one answer of the resolver, the access rules permit this caller that very address, port and protocol, and an
  address in a special range is permitted by rules that write an address range down. A name that is rebound to an
  internal address after the decision gains nothing.\<close>

theorem hub_dials_only_permitted:
  assumes "AclTable_new c rules = Inr (hb_acl hub)" "hb_egress hub = from_rules c rules"
    and "authorize_open c hub (se_node_id (entry_at hub r)) f = Inr (HubExit host port)"
    and "\<And>addrs. rs = Resolved addrs \<Longrightarrow> resolver_law host addrs"
    and "open_proto f = Tcp \<and> dial c (exit_task hub r f host port) rs connect = (tried, res)
      \<or> open_proto f = Udp \<and> udp_dial c (exit_task hub r f host port) rs udp_connect = (tried, res)"
    and "a \<in> set tried"
  shows "(\<exists>addrs. rs = Resolved addrs \<and> a \<in> set addrs)
    \<and> permitted c rules (address_query (se_node_id (entry_at hub r)) (open_proto f) port (sa_ip a))
    \<and> (special_address (sa_ip a) \<longrightarrow> permitted c (filter (\<lambda>r. rule_host_cidr r \<noteq> None) rules)
         (address_query (se_node_id (entry_at hub r)) (open_proto f) port (sa_ip a)))"
proof -
  let ?x = "exit_task hub r f host port" and ?q = "address_query (se_node_id (entry_at hub r)) (open_proto f) port (sa_ip a)"
  have q: "exit_query ?x (sa_ip a) = ?q" "open_proto f = Udp \<Longrightarrow> udp_exit_query ?x (sa_ip a) = ?q"
    by (simp_all add: exit_query_def udp_exit_query_def exit_task_def address_query_def)
  obtain addrs where a: "rs = Resolved addrs" "a \<in> set addrs" "egress_check c (from_rules c rules) ?q (sa_ip a) = Inr ()"
    using assms(5)
  proof (elim disjE conjE)
    assume "dial c ?x rs connect = (tried, res)"
    from dial_checked [OF this assms(6)] that q(1) assms(2) show thesis by (metis exit_task_def HubExitTask.select_convs(1))
  next
    assume "udp_dial c ?x rs udp_connect = (tried, res)" "open_proto f = Udp"
    from udp_dial_checked [OF this(1) assms(6)] that q(2) [OF this(2)] assms(2) show thesis
      by (metis exit_task_def HubExitTask.select_convs(1))
  qed
  from checked_is_permitted [OF assms(1,3) assms(4) [OF a(1)] a(2,3)] a(1,2) show ?thesis by simp
qed

definition open_hub :: "nat list Hub" where
  "open_hub =
     \<lparr>hb_hub_id = ''h'', hb_secrets = [], hb_profiles = profile_paths_default,
      hb_acl = \<lparr>acl_rules = [\<lparr>compiled_rule = any_address, compiled_net = None\<rparr>]\<rparr>, hb_relay = RelayAllow_new [],
      hb_egress = from_rules octet_nets [any_address], hb_nonces = sample_store, hb_registry = Registry_new ''h'',
      hb_sessions = fst (sessions_insert sessions_new (entry_new [1] [1] ''a'' ''k'' 0 sample_keys (Session_new (sample_cfg HubSide) sample_keys))),
      hb_guards = guards_new, hb_session_ttl = DEFAULT_SESSION_TTL_SECS\<rparr>"

definition name_open :: OpenFields where
  "name_open = \<lparr>open_request_id = sample_id, open_stream_id = 1, open_proto = Tcp, open_destination = Address ''x.test'' 80, open_via = []\<rparr>"

abbreviation rebound :: "SocketAddr list" where
  "rebound \<equiv> [\<lparr>sa_ip = V4 [127, 0, 0, 1], sa_port = 80\<rparr>, \<lparr>sa_ip = V4 [93, 184, 216, 34], sa_port = 80\<rparr>]"

text \<open>A name that resolves to the loopback address and a public one, under a rule for any address: only the public
  address is dialled.\<close>

theorem hub_dials_only_permitted_witness:
  "set (fst (dial octet_nets (exit_task open_hub 0 name_open ''x.test'' 80) (Resolved rebound) (\<lambda>_ _. ConnectRefused)))
   \<subseteq> {\<lparr>sa_ip = V4 [93, 184, 216, 34], sa_port = 80\<rparr>}"
proof -
  have t: "AclTable_new octet_nets [any_address] = Inr (hb_acl open_hub)" "hb_egress open_hub = from_rules octet_nets [any_address]"
    by (simp_all add: AclTable_new_def compile_rule_def any_address_def open_hub_def)
  have nd: "se_node_id (entry_at open_hub 0) = ''a''"
    by (simp add: open_hub_def sessions_insert_def sessions_new_def entry_new_def Let_def)
  have np: "parse_ip ''x.test'' = None"
  proof -
    have n: "read_number radix mxd z mx ''x.test'' = None" if "radix = 10 \<or> radix = 16" for radix mxd z mx
      using that by (auto simp: read_number_def to_digit_def)
    have v4: "read_ipv4_addr ''x.test'' = None"
      using n [of 10] by (simp add: read_ipv4_addr_def read_octets.simps(2) [of 0 3, simplified] read_separator_def)
    have "read_groups 0 8 ''x.test'' = ([], False, ''x.test'')"
      using n [of 16] v4 by (simp add: read_groups.simps(2) [of 0 7, simplified] read_separator_def)
    with v4 show ?thesis by (simp add: parse_ip_def read_ipv6_addr_def)
  qed
  have plan: "authorize_open octet_nets open_hub (se_node_id (entry_at open_hub 0)) name_open = Inr (HubExit ''x.test'' 80)"
    unfolding nd by (simp add: authorize_open_def final_leg_def name_open_def validate_chain_def open_query_def np open_hub_def
        acl_check_def acl_matches_def any_address_def limit_defs MAX_CHAIN_HOPS_def Let_def)
  have law: "resolver_law ''x.test'' addrs" if "Resolved rebound = Resolved addrs" for addrs
    using that np by (auto simp: resolver_law_def)
  obtain tried res where d: "dial octet_nets (exit_task open_hub 0 name_open ''x.test'' 80) (Resolved rebound) (\<lambda>_ _. ConnectRefused) = (tried, res)"
    by fastforce
  have tcp: "open_proto name_open = Tcp" by (simp add: name_open_def)
  have sp: "special_address (V4 [127, 0, 0, 1])"
    using ip_number_V4 [of 127 0 0 1] by (simp add: special_address_def special_v4_def SPECIAL_V4_def in_range_def quad_def)
  have e: "filter (\<lambda>r. rule_host_cidr r \<noteq> None) [any_address] = []" "\<not> permitted octet_nets [] q" for q
    by (simp_all add: any_address_def permitted_def)
  have "a \<in> {\<lparr>sa_ip = V4 [93, 184, 216, 34], sa_port = 80\<rparr>}" if "a \<in> set tried" for a
  proof -
    note safe = hub_dials_only_permitted [OF t plan law disjI1 [OF conjI [OF tcp d]] that, unfolded e(1)]
    have "a \<in> set rebound" "\<not> special_address (sa_ip a)" using safe e(2) by auto
    with sp show ?thesis by auto
  qed
  with d show ?thesis by auto
qed

text \<open>C12: Delivery to the caller is exact: \<open>deliver\<close> always returns, and when the stream can go on it has sent a prefix of
  the pending bytes, never past the peer's limit, kept the rest, and kept bytes back only when the limit is reached. Fed
  to the peer, what it sent surfaces as data at consecutive offsets from the stream's offset on, and the ends agree
  again: no byte is dropped, none is sent twice.\<close>

theorem hub_exit_delivers_in_order:
  assumes "aead_laws cr" "peers s b" "in_sync sid s b" "window_ready (recv_window b) (next_no (send_allocator s))"
    and en: "map_of (streams s) sid = Some en" and d: "deliver cr s sid pend = (s', rest, True)"
  shows "\<exists>sent envs blocks. pend = sent @ rest \<and> outbound s' = outbound s @ envs
    \<and> contiguous (send_offset en) blocks (send_offset en + length sent) \<and> concat (map snd blocks) = sent
    \<and> events (feed_all cr h b envs) = events b @ map (\<lambda>(off, d). EvData sid off d) blocks
    \<and> in_sync sid s' (feed_all cr h b envs)
    \<and> (sent \<noteq> [] \<longrightarrow> send_offset en + length sent \<le> send_limit en)
    \<and> (rest \<noteq> [] \<longrightarrow> send_limit en \<le> send_offset en + length sent)"
proof -
  obtain sent where s: "pend = sent @ rest" "sent = [] \<and> s' = s \<or> send_data cr s sid sent = (s', Inr (length sent))"
    "rest \<noteq> [] \<longrightarrow> send_limit en \<le> send_offset en + length sent"
    by (rule deliver_prefix [OF d en])
  show ?thesis
  proof (cases "sent = []")
    case True
    with s(2) have "s' = s" by (auto simp: send_data_def)
    with True s assms(3) show ?thesis
      by (intro exI [of _ "[]"]) (simp add: feed_all_def)
  next
    case False
    with s(2) have sd: "send_data cr s sid sent = (s', Inr (length sent))" by simp
    obtain en' u where en': "map_of (streams s) sid = Some en'" "send_offset en' + length sent \<le> send_limit en'"
      "send_chunks cr s sid (send_offset en') sent = (s', Inr u)" by (rule send_data_Inr [OF sd False])
    from en en'(1) have eq: "en' = en" by simp
    from chunks_arrive [OF assms(1-4) en'(1,2,3), of h] obtain envs blocks where
      a: "outbound s' = outbound s @ envs" "contiguous (send_offset en) blocks (send_offset en + length sent)"
        "concat (map snd blocks) = sent" "events (feed_all cr h b envs) = events b @ map (\<lambda>(off, d). EvData sid off d) blocks"
        "in_sync sid s' (feed_all cr h b envs)" unfolding eq by blast
    show ?thesis
      by (intro exI [of _ sent] exI [of _ envs] exI [of _ blocks] conjI a s impI) (use en'(2) eq s in simp_all)
  qed
qed

theorem hub_exit_delivers_in_order_witness:
  "\<exists>s' envs blocks. deliver null_crate (sample_end NodeSide) 1 [7, 8, 9] = (s', [], True)
     \<and> concat (map snd blocks) = [7, 8, 9]
     \<and> events (feed_all null_crate lower_hex (sample_end HubSide) envs) = map (\<lambda>(off, d). EvData 1 off d) blocks"
proof -
  let ?a = "sample_end NodeSide" and ?b = "sample_end HubSide" and ?en = "StreamEntry_new FLOW_WINDOW_BYTES"
  have al: "\<not> spent (next_no (send_allocator ?a))" "\<not> carrier_gone ?a"
    by (simp_all add: sample_end_defs spent_def packet_no_defs)
  obtain a1 where a1: "send null_crate ?a Data (data_to_canonical \<lparr>data_stream_id = 1, data_offset = 0\<rparr>) [7, 8, 9] = (a1, Inr ())"
    using send_null_crate [OF sample_data al] .
  have st: "map_of (streams ?a) 1 = Some ?en" "send_offset ?en = 0" "send_limit ?en = 262144"
    by (simp_all add: sample_end_defs StreamEntry_new_def Let_def limit_defs)
  have "snd (send_chunks null_crate ?a 1 0 [7, 8, 9]) = Inr ()"
    by (subst send_chunks.simps, simp add: limit_defs Let_def andthen_def a1 [simplified], subst send_chunks.simps, simp)
  then have "snd (send_data null_crate ?a 1 [7, 8, 9]) = Inr 3"
    using st by (auto simp: send_data_def checked_add_def u64_max_def andthen_def split: prod.splits)
  then obtain a' where "send_data null_crate ?a 1 [7, 8, 9] = (a', Inr 3)" by (metis prod.collapse)
  then have d: "deliver null_crate ?a 1 [7, 8, 9] = (a', [], True)" by (subst deliver.simps) simp
  have w: "window_ready (recv_window ?b) (next_no (send_allocator ?a))" by (simp add: window_ready_def sample_end_defs)
  have "events ?b = []" by (simp add: sample_end_defs)
  with hub_exit_delivers_in_order [OF null_crate_laws sample_peers sample_in_sync w st(1) d, of lower_hex] d
  show ?thesis by auto
qed

text \<open>C32: A Hub exit loses nothing in between: at every point of a running task, however reads, events and other tasks
  interleave, the bytes waiting are exactly those read from the target and not yet sent on the stream, they fit one read,
  and the stream's offset counts the bytes read: byte \<open>n\<close> of the target travels at offset \<open>n\<close>. A \<open>Fin\<close> is sent only
  after the target's end and with every byte sent, so its final offset is the length of what the target sent.\<close>

theorem hub_exit_loses_nothing:
  assumes "\<forall>en. map_of (streams (se_engine e0)) (hx_stream_id x) = Some en \<longrightarrow> send_offset en = 0"
    and "pump_run cr x (e0, pump_new, AtHead) ops = (e, p, ph)" "ph \<noteq> Finished"
    and "map_of (streams (se_engine e)) (hx_stream_id x) = Some en"
  shows "tp_pending p = drop (send_offset en) (tp_in p) \<and> send_offset en + length (tp_pending p) = length (tp_in p)
    \<and> length (tp_pending p) \<le> MAX_TCP_PAYLOAD
    \<and> (tp_fin_sent p \<longrightarrow> tp_eof p \<and> send_offset en = length (tp_in p))"
proof -
  have "pump_inv x (e0, pump_new, AtHead)" using assms(1) by (auto simp: pump_inv_def pump_new_def)
  from pump_run_inv [OF this, of cr ops] assms(2,3,4) show ?thesis
    by (auto simp: pump_inv_def READ_CHUNK_def)
qed

definition sample_entry :: SessionEntry where
  "sample_entry = entry_new [1] [1] ''a'' ''k'' 0 sample_keys (sample_end HubSide)"

definition sample_task :: "unit HubExitTask" where
  "sample_task = \<lparr>hx_policy = public_only, hx_caller = ''a'', hx_proto = Tcp, hx_request_id = sample_id, hx_stream_id = 1,
     hx_host = ''x.test'', hx_port = 80\<rparr>"

theorem hub_exit_loses_nothing_witness:
  "\<exists>e p. pump_run null_crate sample_task (sample_entry, pump_new, AtHead) [Head, Input (SockRead [7, 8, 9])] = (e, p, AtHead)
     \<and> tp_in p = [7, 8, 9] \<and> tp_pending p = [7, 8, 9]"
proof -
  let ?en = "StreamEntry_new FLOW_WINDOW_BYTES"
  have st: "map_of (streams (se_engine sample_entry)) 1 = Some ?en" "send_offset ?en = 0"
    by (simp_all add: sample_entry_def entry_new_def sample_end_defs StreamEntry_new_def Let_def limit_defs)
  have d: "deliver null_crate s 1 [] = (s, [], True)" for s by (subst deliver.simps) simp
  define e where "e = flush_outbound sample_entry"
  have e: "e\<lparr>se_engine := se_engine e\<rparr> = e" "se_engine e = se_engine sample_entry" by (simp_all add: e_def)
  obtain p where run: "pump_run null_crate sample_task (sample_entry, pump_new, AtHead) [Head, Input (SockRead [7, 8, 9])] = (e, p, AtHead)"
    and pin: "tp_in p = [7, 8, 9]"
    using d by (simp add: pump_run_def pump_step_def pump_head_def pump_new_def pump_shutdown_def Let_def
        pump_input_step_def READ_CHUNK_def limit_defs sample_task_def e_def)
  have "\<forall>en. map_of (streams (se_engine sample_entry)) (hx_stream_id sample_task) = Some en \<longrightarrow> send_offset en = 0"
    "map_of (streams (se_engine e)) (hx_stream_id sample_task) = Some ?en"
    using st e by (simp_all add: sample_task_def)
  from hub_exit_loses_nothing [OF this(1) run _ this(2)] st(2) pin have "tp_pending p = [7, 8, 9]" by simp
  with run pin show ?thesis by blast
qed

text \<open>C33: A UDP route serves one association: while it runs, the datagrams it handed to its target are, in order, exactly
  those of its stream that parse, belong to the association of the first of them and have time left. Datagrams of another
  association or stream, expired or malformed ones never reach the target.\<close>

theorem udp_route_serves_one_association:
  assumes "udp_run cr x (e, udp_pump_new, True) is = (e', p', True)"
  shows "up_out p' = forwarded (route_datagrams x is) \<and> up_association p' = first_association (route_datagrams x is)"
  using udp_run_filter [OF assms] by simp

theorem udp_route_serves_one_association_witness:
  "let f = \<lparr>dg_stream_id = 1, dg_association_id = 5, dg_datagram_id = 1, dg_host = ''h'', dg_port = 9, dg_remaining_ttl_ms = 10\<rparr>;
       is = [UdpEvent (Some (EvDatagram (datagram_to_canonical f) [1])),
             UdpEvent (Some (EvDatagram (datagram_to_canonical (f\<lparr>dg_association_id := 6\<rparr>)) [2])),
             UdpEvent (Some (EvDatagram (datagram_to_canonical (f\<lparr>dg_remaining_ttl_ms := 0\<rparr>)) [3]))]
   in \<exists>p'. udp_run null_crate sample_task (sample_entry, udp_pump_new, True) is = (sample_entry, p', True) \<and> up_out p' = [[1]]"
proof -
  let ?f = "\<lparr>dg_stream_id = 1, dg_association_id = 5, dg_datagram_id = 1, dg_host = ''h'', dg_port = 9, dg_remaining_ttl_ms = 10\<rparr>"
  let ?is = "[UdpEvent (Some (EvDatagram (datagram_to_canonical ?f) [1])),
             UdpEvent (Some (EvDatagram (datagram_to_canonical (?f\<lparr>dg_association_id := 6\<rparr>)) [2])),
             UdpEvent (Some (EvDatagram (datagram_to_canonical (?f\<lparr>dg_remaining_ttl_ms := 0\<rparr>)) [3]))]"
  have dec: "datagram_from_canonical (datagram_to_canonical g) = Inr g"
    if "g \<in> {?f, ?f\<lparr>dg_association_id := 6\<rparr>, ?f\<lparr>dg_remaining_ttl_ms := 0\<rparr>}" for g
    using that by (intro datagram.dec_enc) (auto simp: datagram_typed_def int_range_defs)
  obtain p' where run: "udp_run null_crate sample_task (sample_entry, udp_pump_new, True) ?is = (sample_entry, p', True)"
    by (simp add: udp_run_def udp_pump_step_def dec udp_pump_new_def sample_task_def Let_def)
  from udp_route_serves_one_association [OF run] have "up_out p' = [[1]]"
    by (simp add: route_datagrams_def dec forwarded_def first_association_def sample_task_def)
  with run show ?thesis unfolding Let_def by blast
qed

end
