(* ===== verification/Node_Stream.thy ===== *)
theory Node_Stream
  imports Dataplane
begin

text \<open>
  \<open>crates/wsnet-node/src/stream.rs\<close>: a session stream as an asynchronous byte stream. The engine the handle stands for is
  passed explicitly. The receiver of the driver's channel is the messages that wait in it and whether the driver still has
  the sender; a poll returns the new state and \<open>PollPending\<close> or \<open>PollReady\<close>. Counters of bytes are natural numbers: the
  engine refuses offsets beyond \<open>2 ^ 64\<close> before they could wrap.
\<close>

section \<open>State\<close>

datatype StreamMsg =
    MData bytes
  | MDatagram DatagramFields bytes
  | MCredit
  | MFin nat
  | MReset ResetReason

record SessionStream =
  st_id :: nat
  st_rx :: "StreamMsg list"
  st_rx_open :: bool
  st_read_buf :: bytes
  st_delivered :: nat
  st_fin_at :: "nat option"
  st_reset :: "ResetReason option"
  st_write_buf :: bytes
  st_fin_sent :: bool
  st_write_closed :: bool
  st_datagrams :: "(DatagramFields \<times> bytes) list"
  st_datagram_bytes :: nat

definition stream_new :: "nat \<Rightarrow> SessionStream" where
  "stream_new sid =
     \<lparr>st_id = sid, st_rx = [], st_rx_open = True, st_read_buf = [], st_delivered = 0, st_fin_at = None, st_reset = None,
      st_write_buf = [], st_fin_sent = False, st_write_closed = False, st_datagrams = [], st_datagram_bytes = 0\<rparr>"

datatype 'a poll = PollPending | PollReady 'a

datatype io_error =
    StreamGone
  | UnsentData
  | WriteHalfClosed
  | SendFailed SessionError
  | ResetByPeer ResetReason

section \<open>Messages of the driver\<close>

fun make_room :: "nat \<Rightarrow> (DatagramFields \<times> bytes) list \<Rightarrow> nat \<Rightarrow> (DatagramFields \<times> bytes) list \<times> nat" where
  "make_room n [] held = ([], held)"
| "make_room n (d # ds) held =
     (if MAX_QUEUED_DATAGRAMS_PER_ASSOCIATION \<le> length (d # ds) \<or> held + n > MAX_QUEUED_DATAGRAM_BYTES
      then make_room n ds (held - length (snd d)) else (d # ds, held))"

definition queue_datagram :: "SessionStream \<Rightarrow> DatagramFields \<Rightarrow> bytes \<Rightarrow> SessionStream" where
  "queue_datagram st f pl =
     (let (ds, held) = make_room (length pl) (st_datagrams st) (st_datagram_bytes st) in
      st\<lparr>st_datagrams := ds @ [(f, pl)], st_datagram_bytes := held + length pl\<rparr>)"

definition take_datagram :: "SessionStream \<Rightarrow> SessionStream \<times> (DatagramFields \<times> bytes) option" where
  "take_datagram st =
     (case st_datagrams st of
        [] \<Rightarrow> (st, None)
      | (f, pl) # ds \<Rightarrow> (st\<lparr>st_datagrams := ds, st_datagram_bytes := st_datagram_bytes st - length pl\<rparr>, Some (f, pl)))"

primrec absorb :: "SessionStream \<Rightarrow> StreamMsg \<Rightarrow> SessionStream" where
  "absorb st (MData pl) = st\<lparr>st_read_buf := st_read_buf st @ pl\<rparr>"
| "absorb st (MDatagram f pl) = queue_datagram st f pl"
| "absorb st MCredit = st"
| "absorb st (MFin off) = st\<lparr>st_fin_at := Some (case st_fin_at st of Some previous \<Rightarrow> max previous off | None \<Rightarrow> off)\<rparr>"
| "absorb st (MReset reason) = st\<lparr>st_reset := Some reason\<rparr>"

definition absorb_queued :: "SessionStream \<Rightarrow> SessionStream" where
  "absorb_queued st = foldl absorb (st\<lparr>st_rx := []\<rparr>) (st_rx st)"

definition recv_datagram :: "SessionStream \<Rightarrow> SessionStream \<times> (DatagramFields \<times> bytes) option poll" where
  "recv_datagram st =
     (let st = absorb_queued st in
      case take_datagram st of
        (st, Some d) \<Rightarrow> (st, PollReady (Some d))
      | (st, None) \<Rightarrow> (st, if st_rx_open st then PollPending else PollReady None))"

definition stream_send_datagram :: "crypto_crate \<Rightarrow> Session \<Rightarrow> DatagramFields \<Rightarrow> bytes \<Rightarrow> unit outcome" where
  "stream_send_datagram cr s f pl = send_datagram cr s (datagram_to_canonical f) pl"

section \<open>Writing\<close>

function flush_writes :: "crypto_crate \<Rightarrow> Session \<Rightarrow> nat \<Rightarrow> bytes \<Rightarrow> Session \<times> bytes \<times> (io_error + unit)" where
  "flush_writes cr s sid buf =
     (if buf = [] then (s, [], Inr ())
      else (case send_data cr s sid buf of
        (s, Inr n) \<Rightarrow> if n = 0 then (s, buf, Inr ()) else flush_writes cr s sid (drop n buf)
      | (s, Inl (StreamErr (CreditExceeded _ _))) \<Rightarrow> (s, buf, Inr ())
      | (s, Inl (UnknownStream _)) \<Rightarrow> (s, [], Inl StreamGone)
      | (s, Inl err) \<Rightarrow> (s, buf, Inl (SendFailed err))))"
  by pat_completeness auto
termination
  by (relation "measure (\<lambda>(cr, s, sid, buf). length buf)") auto

declare flush_writes.simps [simp del]

definition stream_pump :: "crypto_crate \<Rightarrow> Session \<Rightarrow> SessionStream \<Rightarrow> Session \<times> SessionStream \<times> (io_error + unit)" where
  "stream_pump cr s st =
     (let st = absorb_queued st;
          st = (if st_rx_open st then st else st\<lparr>st_write_closed := True\<rparr>);
          (s, buf, res) = flush_writes cr s (st_id st) (st_write_buf st)
      in (s, st\<lparr>st_write_buf := buf\<rparr>, res))"

definition poll_write :: "crypto_crate \<Rightarrow> Session \<Rightarrow> SessionStream \<Rightarrow> bytes \<Rightarrow> Session \<times> SessionStream \<times> (io_error + nat) poll" where
  "poll_write cr s st buf =
     (if st_write_closed st then (s, st, PollReady (Inl WriteHalfClosed))
      else case stream_pump cr s st of
        (s, st, Inl e) \<Rightarrow> (s, st, PollReady (Inl e))
      | (s, st, Inr _) \<Rightarrow>
          if st_write_buf st \<noteq> [] then (s, st, if st_write_closed st then PollReady (Inl UnsentData) else PollPending)
          else if length (st_write_buf st) + length buf > STREAM_MAX_CREDIT then (s, st, PollPending)
          else (case send_data cr s (st_id st) buf of
             (s, Inr n) \<Rightarrow> (s, st, PollReady (Inr n))
           | (s, Inl (StreamErr (CreditExceeded _ _))) \<Rightarrow>
               (case stream_pump cr s (st\<lparr>st_write_buf := st_write_buf st @ buf\<rparr>) of
                  (s, st, Inl e) \<Rightarrow> (s, st, PollReady (Inl e))
                | (s, st, Inr _) \<Rightarrow> (s, st, PollReady (Inr (length buf))))
           | (s, Inl (UnknownStream _)) \<Rightarrow> (s, st, PollReady (Inl StreamGone))
           | (s, Inl err) \<Rightarrow> (s, st, PollReady (Inl (SendFailed err)))))"

definition poll_flush :: "crypto_crate \<Rightarrow> Session \<Rightarrow> SessionStream \<Rightarrow> Session \<times> SessionStream \<times> (io_error + unit) poll" where
  "poll_flush cr s st =
     (case stream_pump cr s st of
        (s, st, Inl e) \<Rightarrow> (s, st, PollReady (Inl e))
      | (s, st, Inr _) \<Rightarrow>
          (s, st, if st_write_buf st = [] then PollReady (Inr ()) else if st_write_closed st then PollReady (Inl UnsentData) else PollPending))"

definition poll_shutdown :: "crypto_crate \<Rightarrow> Session \<Rightarrow> SessionStream \<Rightarrow> Session \<times> SessionStream \<times> (io_error + unit) poll" where
  "poll_shutdown cr s st =
     (if st_fin_sent st then (s, st, PollReady (Inr ()))
      else case send_fin cr s (st_id st) of
        (s, Inr _) \<Rightarrow> (s, st\<lparr>st_fin_sent := True\<rparr>, PollReady (Inr ()))
      | (s, Inl (UnknownStream _)) \<Rightarrow> (s, st, PollReady (Inr ()))
      | (s, Inl err) \<Rightarrow> (s, st, PollReady (Inl (SendFailed err))))"

section \<open>Reading\<close>

definition take_read :: "crypto_crate \<Rightarrow> Session \<Rightarrow> SessionStream \<Rightarrow> nat \<Rightarrow> Session \<times> SessionStream \<times> bytes" where
  "take_read cr s st n =
     (let k = min n (length (st_read_buf st)) in
      (fst (consume cr s (st_id st) k),
       st\<lparr>st_read_buf := drop k (st_read_buf st), st_delivered := st_delivered st + k\<rparr>, take k (st_read_buf st)))"

fun read_loop :: "crypto_crate \<Rightarrow> Session \<Rightarrow> SessionStream \<Rightarrow> nat \<Rightarrow> StreamMsg list \<Rightarrow> Session \<times> SessionStream \<times> (io_error + bytes) poll" where
  "read_loop cr s st n rx =
     (if st_read_buf st \<noteq> [] then (let (s, st, out) = take_read cr s st n in (s, st\<lparr>st_rx := rx\<rparr>, PollReady (Inr out)))
      else case st_reset st of
        Some reason \<Rightarrow> (s, st\<lparr>st_rx := rx\<rparr>, PollReady (Inl (ResetByPeer reason)))
      | None \<Rightarrow>
          if (case st_fin_at st of Some f \<Rightarrow> f \<le> st_delivered st | None \<Rightarrow> False) then (s, st\<lparr>st_rx := rx\<rparr>, PollReady (Inr []))
          else (case rx of
            [] \<Rightarrow> (s, st\<lparr>st_rx := []\<rparr>, if st_rx_open st then PollPending else PollReady (Inr []))
          | m # rx \<Rightarrow> read_loop cr s (absorb st m) n rx))"

declare read_loop.simps [simp del]

definition poll_read :: "crypto_crate \<Rightarrow> Session \<Rightarrow> SessionStream \<Rightarrow> nat \<Rightarrow> Session \<times> SessionStream \<times> (io_error + bytes) poll" where
  "poll_read cr s st n = read_loop cr s st n (st_rx st)"

definition stream_drop :: "Session \<Rightarrow> SessionStream \<Rightarrow> Session" where
  "stream_drop s st = close_stream s (st_id st)"

section \<open>A stream over time\<close>

text \<open>The calls of the application, the messages of the driver and what the other tasks do to the engine, in any order; the
  log keeps the data the driver pushed, the bytes handed to the application and the bytes accepted from it, and whether a
  write or flush has failed.\<close>

record stream_log =
  lg_got :: bytes
  lg_out :: bytes
  lg_accepted :: bytes
  lg_failed :: bool

datatype stream_op =
    SRead nat
  | SRecvDatagram
  | SWrite bytes
  | SFlush
  | SShutdown
  | SPush StreamMsg
  | SDriverGone
  | SOthers Session

fun msg_data :: "StreamMsg \<Rightarrow> bytes" where
  "msg_data (MData pl) = pl"
| "msg_data _ = []"

fun stream_step :: "crypto_crate \<Rightarrow> Session \<times> SessionStream \<times> stream_log \<Rightarrow> stream_op \<Rightarrow> Session \<times> SessionStream \<times> stream_log" where
  "stream_step cr (s, st, lg) (SRead n) =
     (case poll_read cr s st n of
        (s, st, PollReady (Inr out)) \<Rightarrow> (s, st, lg\<lparr>lg_out := lg_out lg @ out\<rparr>)
      | (s, st, _) \<Rightarrow> (s, st, lg))"
| "stream_step cr (s, st, lg) SRecvDatagram = (s, fst (recv_datagram st), lg)"
| "stream_step cr (s, st, lg) (SWrite buf) =
     (case poll_write cr s st buf of
        (s, st, PollReady (Inr n)) \<Rightarrow> (s, st, lg\<lparr>lg_accepted := lg_accepted lg @ take n buf\<rparr>)
      | (s, st, PollReady (Inl _)) \<Rightarrow> (s, st, lg\<lparr>lg_failed := True\<rparr>)
      | (s, st, PollPending) \<Rightarrow> (s, st, lg))"
| "stream_step cr (s, st, lg) SFlush =
     (case poll_flush cr s st of
        (s, st, PollReady (Inl _)) \<Rightarrow> (s, st, lg\<lparr>lg_failed := True\<rparr>)
      | (s, st, _) \<Rightarrow> (s, st, lg))"
| "stream_step cr (s, st, lg) SShutdown = (let (s, st, _) = poll_shutdown cr s st in (s, st, lg))"
| "stream_step cr (s, st, lg) (SPush m) =
     (if st_rx_open st then (s, st\<lparr>st_rx := st_rx st @ [m]\<rparr>, lg\<lparr>lg_got := lg_got lg @ msg_data m\<rparr>) else (s, st, lg))"
| "stream_step cr (s, st, lg) SDriverGone = (s, st\<lparr>st_rx_open := False\<rparr>, lg)"
| "stream_step cr (s, st, lg) (SOthers s') = (if keeps_stream (st_id st) s s' then (s', st, lg) else (s, st, lg))"

definition stream_run :: "crypto_crate \<Rightarrow> Session \<times> SessionStream \<times> stream_log \<Rightarrow> stream_op list \<Rightarrow> Session \<times> SessionStream \<times> stream_log" where
  "stream_run cr = foldl (stream_step cr)"

definition no_log :: stream_log where
  "no_log = \<lparr>lg_got = [], lg_out = [], lg_accepted = [], lg_failed = False\<rparr>"

text \<open>The read side: what the driver pushed is what was handed out, what is buffered and what still waits in the channel.\<close>

abbreviation rx_data :: "StreamMsg list \<Rightarrow> bytes" where
  "rx_data rx \<equiv> concat (map msg_data rx)"

definition read_ok :: "SessionStream \<Rightarrow> stream_log \<Rightarrow> bool" where
  "read_ok st lg \<longleftrightarrow> lg_got lg = lg_out lg @ st_read_buf st @ rx_data (st_rx st) \<and> st_delivered st = length (lg_out lg)"

text \<open>The write side: the engine has sent a prefix of what was accepted, the rest waits.\<close>

definition leg_at :: "Session \<Rightarrow> nat \<Rightarrow> bytes \<Rightarrow> bytes \<Rightarrow> bool" where
  "leg_at s sid buf total_bytes \<longleftrightarrow>
     (\<forall>en. map_of (streams s) sid = Some en \<longrightarrow> send_offset en \<le> length total_bytes \<and> buf = drop (send_offset en) total_bytes)"

definition stream_inv :: "nat \<Rightarrow> Session \<times> SessionStream \<times> stream_log \<Rightarrow> bool" where
  "stream_inv sid = (\<lambda>(s, st, lg). st_id st = sid \<and> read_ok st lg \<and> (lg_failed lg \<or> leg_at s sid (st_write_buf st) (lg_accepted lg)))"

lemma leg_keeps: "leg_at s sid buf acc \<Longrightarrow> keeps_stream sid s s' \<Longrightarrow> leg_at s' sid buf acc"
  unfolding leg_at_def keeps_stream_def by fastforce

lemma absorb_frame [simp]:
  "st_id (absorb st m) = st_id st" "st_rx (absorb st m) = st_rx st" "st_rx_open (absorb st m) = st_rx_open st"
  "st_delivered (absorb st m) = st_delivered st" "st_write_buf (absorb st m) = st_write_buf st"
  "st_read_buf (absorb st m) = st_read_buf st @ msg_data m" "st_fin_sent (absorb st m) = st_fin_sent st"
  "st_write_closed (absorb st m) = st_write_closed st"
  by (cases m; simp add: queue_datagram_def split_beta)+

lemma absorb_all_frame:
  "st_id (foldl absorb st ms) = st_id st" "st_rx (foldl absorb st ms) = st_rx st" "st_rx_open (foldl absorb st ms) = st_rx_open st"
  "st_delivered (foldl absorb st ms) = st_delivered st" "st_write_buf (foldl absorb st ms) = st_write_buf st"
  "st_read_buf (foldl absorb st ms) = st_read_buf st @ rx_data ms"
  by (induction ms arbitrary: st) simp_all

lemma absorb_queued_frame [simp]:
  "st_id (absorb_queued st) = st_id st" "st_rx (absorb_queued st) = []" "st_rx_open (absorb_queued st) = st_rx_open st"
  "st_delivered (absorb_queued st) = st_delivered st" "st_write_buf (absorb_queued st) = st_write_buf st"
  "st_read_buf (absorb_queued st) = st_read_buf st @ rx_data (st_rx st)"
  by (simp_all add: absorb_queued_def absorb_all_frame)

lemma flush_writes_Inr:
  assumes "flush_writes cr s sid buf = (s', rest, Inr u)"
  shows "rest = buf \<and> s' = s \<or> rest = [] \<and> send_data cr s sid buf = (s', Inr (length buf))"
proof (cases "buf = []")
  case True
  with assms show ?thesis by (subst (asm) flush_writes.simps) simp
next
  case False
  obtain s1 res where sd: "send_data cr s sid buf = (s1, res)" by fastforce
  show ?thesis
  proof (cases res)
    case (Inr n)
    from send_data_Inr [OF sd [unfolded Inr] False] have n: "n = length buf" by metis
    have "flush_writes cr s1 sid [] = (s1, [], Inr ())" by (subst flush_writes.simps) simp
    with assms sd Inr n False show ?thesis by (subst (asm) flush_writes.simps) simp
  next
    case (Inl e)
    show ?thesis
    proof (cases "\<exists>a b. e = StreamErr (CreditExceeded a b)")
      case True
      then obtain a b where e: "e = StreamErr (CreditExceeded a b)" by blast
      have "s' = s1" "rest = buf" using assms sd Inl e False by (subst (asm) flush_writes.simps, simp)+
      moreover have "map_of (streams s) sid \<noteq> None" using sd Inl e False by (cases "map_of (streams s) sid") (simp_all add: send_data_def)
      ultimately show ?thesis using send_data_CreditExceeded [OF sd [unfolded Inl e]] by simp
    next
      case no: False
      have "snd (snd (flush_writes cr s sid buf)) \<noteq> Inr u"
        using sd Inl False no by (subst flush_writes.simps) (cases e; simp split: StreamError.split)
      with assms show ?thesis by simp
    qed
  qed
qed

lemma send_data_leg:
  assumes "send_data cr s sid buf = (s', Inr n)" "leg_at s sid [] acc"
  shows "n = length buf \<and> leg_at s' sid [] (acc @ buf)"
proof (cases "buf = []")
  case True
  with assms show ?thesis by (auto simp: send_data_def)
next
  case False
  from send_data_Inr [OF assms(1) False] obtain en where en: "map_of (streams s) sid = Some en" "n = length buf"
    "map_of (streams s') sid = Some (en\<lparr>send_offset := send_offset en + length buf\<rparr>)" by metis
  with assms(2) show ?thesis by (auto simp: leg_at_def)
qed

lemma send_whole_leg:
  assumes "send_data cr s sid buf = (s', Inr n)" "leg_at s sid buf acc"
  shows "leg_at s' sid [] acc"
proof (cases "buf = []")
  case True
  with assms show ?thesis by (auto simp: send_data_def)
next
  case False
  from send_data_Inr [OF assms(1) False] obtain en where en: "map_of (streams s) sid = Some en" "n = length buf"
    "map_of (streams s') sid = Some (en\<lparr>send_offset := send_offset en + length buf\<rparr>)" by metis
  with assms(2) show ?thesis by (auto simp: leg_at_def)
qed

lemma flush_leg:
  assumes "flush_writes cr s sid buf = (s', rest, Inr u)" "leg_at s sid buf acc"
  shows "leg_at s' sid rest acc"
  using flush_writes_Inr [OF assms(1)] send_whole_leg [of cr s sid buf s'] assms(2) by auto

lemma read_loop_out:
  assumes "read_loop cr s st n rx = (s', st', res)" "lg_got lg = lg_out lg @ st_read_buf st @ rx_data rx" "st_delivered st = length (lg_out lg)"
  shows "st_id st' = st_id st \<and> st_write_buf st' = st_write_buf st \<and> keeps_stream (st_id st) s s'
    \<and> read_ok st' (case res of PollReady (Inr out) \<Rightarrow> lg\<lparr>lg_out := lg_out lg @ out\<rparr> | _ \<Rightarrow> lg)"
  using assms
proof (induction cr s st n rx rule: read_loop.induct)
  case (1 cr s st n rx)
  note prems = "1.prems" [unfolded read_loop.simps [of cr s st n rx]]
  consider (data) "st_read_buf st \<noteq> []" | (reset) r where "st_read_buf st = []" "st_reset st = Some r"
    | (eof) "st_read_buf st = []" "st_reset st = None" "case st_fin_at st of Some f \<Rightarrow> f \<le> st_delivered st | None \<Rightarrow> False"
    | (dry) "st_read_buf st = []" "st_reset st = None" "\<not> (case st_fin_at st of Some f \<Rightarrow> f \<le> st_delivered st | None \<Rightarrow> False)" "rx = []"
    | (more) m ms where "st_read_buf st = []" "st_reset st = None" "\<not> (case st_fin_at st of Some f \<Rightarrow> f \<le> st_delivered st | None \<Rightarrow> False)" "rx = m # ms"
    by (cases "st_reset st"; cases rx) blast+
  then show ?case
  proof cases
    case data
    let ?k = "min n (length (st_read_buf st))"
    have "st_read_buf st = take ?k (st_read_buf st) @ drop ?k (st_read_buf st)" by simp
    with data prems show ?thesis
      by (auto simp: take_read_def Let_def read_ok_def consume_keeps)
  next
    case reset
    with prems show ?thesis by (auto simp: read_ok_def)
  next
    case eof
    with prems show ?thesis by (auto simp: read_ok_def)
  next
    case dry
    with prems show ?thesis by (cases "st_rx_open st") (auto simp: read_ok_def)
  next
    case more
    have "read_loop cr s (absorb st m) n ms = (s', st', res)" using prems(1) more by simp
    moreover have "lg_got lg = lg_out lg @ st_read_buf (absorb st m) @ rx_data ms" using prems(2) more by simp
    moreover have "st_delivered (absorb st m) = length (lg_out lg)" using prems(3) by simp
    ultimately show ?thesis using "1.IH" more by (auto split: option.splits)
  qed
qed

lemma poll_read_ok:
  assumes "poll_read cr s st n = (s', st', res)" "read_ok st lg"
  shows "st_id st' = st_id st \<and> st_write_buf st' = st_write_buf st \<and> keeps_stream (st_id st) s s'
    \<and> read_ok st' (case res of PollReady (Inr out) \<Rightarrow> lg\<lparr>lg_out := lg_out lg @ out\<rparr> | _ \<Rightarrow> lg)"
  using read_loop_out assms unfolding poll_read_def read_ok_def by blast

lemma stream_pump_ok:
  assumes "stream_pump cr s st = (s', st', res)" "read_ok st lg"
  shows "st_id st' = st_id st" "read_ok st' lg"
    "res = Inr u \<Longrightarrow> leg_at s (st_id st) (st_write_buf st) acc \<Longrightarrow> leg_at s' (st_id st) (st_write_buf st') acc"
proof -
  obtain s1 buf r where f: "flush_writes cr s (st_id st) (st_write_buf st) = (s1, buf, r)" by (metis prod_cases3)
  with assms(1) have st': "s' = s1" "res = r"
    "st' = (if st_rx_open st then absorb_queued st else (absorb_queued st)\<lparr>st_write_closed := True\<rparr>)\<lparr>st_write_buf := buf\<rparr>"
    unfolding stream_pump_def Let_def by (cases "st_rx_open st"; auto)+
  then show "st_id st' = st_id st" by simp
  show "read_ok st' lg" using assms(2) by (auto simp: st'(3) read_ok_def)
  show "leg_at s' (st_id st) (st_write_buf st') acc" if "res = Inr u" "leg_at s (st_id st) (st_write_buf st) acc"
    using flush_leg [OF f [folded st'(2), unfolded that(1)] that(2)] by (simp add: st')
qed

lemma poll_write_ok:
  assumes "poll_write cr s st buf = (s', st', res)" and ok: "read_ok st lg"
  shows "st_id st' = st_id st" "read_ok st' lg"
    "leg_at s (st_id st) (st_write_buf st) acc \<Longrightarrow> case res of
       PollPending \<Rightarrow> leg_at s' (st_id st) (st_write_buf st') acc
     | PollReady (Inr n) \<Rightarrow> leg_at s' (st_id st) (st_write_buf st') (acc @ take n buf)
     | PollReady (Inl _) \<Rightarrow> True"
proof -
  have "st_id st' = st_id st \<and> read_ok st' lg \<and> (leg_at s (st_id st) (st_write_buf st) acc \<longrightarrow> (case res of
       PollPending \<Rightarrow> leg_at s' (st_id st) (st_write_buf st') acc
     | PollReady (Inr n) \<Rightarrow> leg_at s' (st_id st) (st_write_buf st') (acc @ take n buf)
     | PollReady (Inl _) \<Rightarrow> True))"
  proof (cases "st_write_closed st")
    case True
    with assms show ?thesis by (auto simp: poll_write_def)
  next
    case False
    obtain s1 st1 r where p: "stream_pump cr s st = (s1, st1, r)" by (metis prod_cases3)
    note pump = stream_pump_ok [OF p ok]
    show ?thesis
    proof (cases r)
      case (Inl e)
      with assms False p pump(1,2) show ?thesis by (auto simp: poll_write_def)
    next
      case (Inr u)
      note leg = pump(3) [OF Inr]
      show ?thesis
      proof (cases "st_write_buf st1 \<noteq> [] \<or> length buf > STREAM_MAX_CREDIT")
        case True
        with assms False p Inr pump(1,2) leg [of acc] show ?thesis by (auto simp: poll_write_def split: if_splits)
      next
        case free: False
        obtain s2 q where sd: "send_data cr s1 (st_id st) buf = (s2, q)" by fastforce
        have leg1: "leg_at s (st_id st) (st_write_buf st) acc \<Longrightarrow> leg_at s1 (st_id st) [] acc" using leg [of acc] free by simp
        show ?thesis
        proof (cases "\<exists>a b. q = Inl (StreamErr (CreditExceeded a b))")
          case True
          then obtain a b where q: "q = Inl (StreamErr (CreditExceeded a b))" by blast
          have "map_of (streams s1) (st_id st) \<noteq> None" using sd q by (cases "map_of (streams s1) (st_id st)") (auto simp: send_data_def split: if_splits)
          with send_data_CreditExceeded [OF sd [unfolded q]] have s2: "s2 = s1" by simp
          let ?st2 = "st1\<lparr>st_write_buf := st_write_buf st1 @ buf\<rparr>"
          obtain s3 st3 r3 where p3: "stream_pump cr s1 ?st2 = (s3, st3, r3)" by (metis prod_cases3)
          have "read_ok ?st2 lg" using pump(2) by (simp add: read_ok_def)
          note pump3 = stream_pump_ok [OF p3 this]
          have "leg_at s1 (st_id st) [] acc \<Longrightarrow> leg_at s1 (st_id st) buf (acc @ buf)" by (auto simp: leg_at_def)
          with leg1 pump3(3) [where acc = "acc @ buf"] pump(1) free
          have "leg_at s (st_id st) (st_write_buf st) acc \<Longrightarrow> r3 = Inr () \<Longrightarrow> leg_at s3 (st_id st) (st_write_buf st3) (acc @ buf)" by auto
          with assms False p Inr free sd q s2 p3 pump(1) pump3(1,2) show ?thesis
            by (cases r3) (auto simp: poll_write_def)
        next
          case no: False
          have "poll_write cr s st buf = (s2, st1, PollReady (case q of Inr n \<Rightarrow> Inr n | Inl (UnknownStream _) \<Rightarrow> Inl StreamGone | Inl e \<Rightarrow> Inl (SendFailed e)))"
            using False p Inr free sd no pump(1) unfolding poll_write_def
            by (cases q) (auto split: SessionError.split StreamError.split)
          with assms(1) have r: "s' = s2" "st' = st1"
            "res = PollReady (case q of Inr n \<Rightarrow> Inr n | Inl (UnknownStream _) \<Rightarrow> Inl StreamGone | Inl e \<Rightarrow> Inl (SendFailed e))" by auto
          show ?thesis
          proof (cases q)
            case (Inl e)
            with r pump(1,2) show ?thesis by (cases e) auto
          next
            case ok: (Inr n)
            with r pump(1,2) leg1 send_data_leg [OF sd [unfolded ok]] free show ?thesis by auto
          qed
        qed
      qed
    qed
  qed
  then show "st_id st' = st_id st" "read_ok st' lg"
    "leg_at s (st_id st) (st_write_buf st) acc \<Longrightarrow> case res of
       PollPending \<Rightarrow> leg_at s' (st_id st) (st_write_buf st') acc
     | PollReady (Inr n) \<Rightarrow> leg_at s' (st_id st) (st_write_buf st') (acc @ take n buf)
     | PollReady (Inl _) \<Rightarrow> True" by blast+
qed

lemma poll_shutdown_ok:
  assumes "poll_shutdown cr s st = (s', st', res)"
  shows "st_id st' = st_id st \<and> st_write_buf st' = st_write_buf st \<and> st_read_buf st' = st_read_buf st \<and> st_rx st' = st_rx st
    \<and> st_delivered st' = st_delivered st \<and> keeps_stream (st_id st) s s'"
proof -
  obtain s1 r where f: "send_fin cr s (st_id st) = (s1, r)" by fastforce
  have "keeps_stream (st_id st) s s1" using send_fin_keeps [of "st_id st" s cr "st_id st"] f by simp
  with assms f show ?thesis
    by (cases r) (auto simp: poll_shutdown_def split: if_splits SessionError.splits)
qed

lemma stream_step_inv: "stream_inv sid (s, st, lg) \<Longrightarrow> stream_inv sid (stream_step cr (s, st, lg) op)"
proof -
  assume inv: "stream_inv sid (s, st, lg)"
  then have ok: "read_ok st lg" and id: "st_id st = sid" by (simp_all add: stream_inv_def)
  show "stream_inv sid (stream_step cr (s, st, lg) op)"
  proof (cases op)
    case (SRead n)
    obtain s' st' res where p: "poll_read cr s st n = (s', st', res)" by (metis prod_cases3)
    from poll_read_ok [OF p ok] inv show ?thesis unfolding SRead stream_step.simps p prod.case
      by (auto simp: stream_inv_def intro: leg_keeps split: poll.splits sum.splits)
  next
    case SRecvDatagram
    have "fst (recv_datagram st) = fst (take_datagram (absorb_queued st))"
      by (auto simp: recv_datagram_def Let_def split: prod.split option.split)
    moreover have "read_ok (fst (take_datagram x)) lg = read_ok x lg" "st_id (fst (take_datagram x)) = st_id x"
      "st_write_buf (fst (take_datagram x)) = st_write_buf x" for x
      by (auto simp: take_datagram_def read_ok_def split: list.split prod.split)
    ultimately show ?thesis using inv by (simp add: SRecvDatagram stream_inv_def read_ok_def)
  next
    case (SWrite buf)
    obtain s' st' res where p: "poll_write cr s st buf = (s', st', res)" by (metis prod_cases3)
    note w = poll_write_ok [OF p ok]
    from w(1,2) w(3) [of "lg_accepted lg"] inv show ?thesis unfolding SWrite stream_step.simps p prod.case
      by (auto simp: stream_inv_def read_ok_def split: poll.splits sum.splits)
  next
    case SFlush
    obtain s' st' res where p: "stream_pump cr s st = (s', st', res)" by (metis prod_cases3)
    note w = stream_pump_ok [OF p ok]
    from w(1,2) w(3) [of "()" "lg_accepted lg"] inv show ?thesis unfolding SFlush stream_step.simps poll_flush_def p prod.case
      by (cases res) (auto simp: stream_inv_def read_ok_def)
  next
    case SShutdown
    obtain s' st' res where p: "poll_shutdown cr s st = (s', st', res)" by (metis prod_cases3)
    from poll_shutdown_ok [OF p] inv show ?thesis unfolding SShutdown stream_step.simps p prod.case Let_def
      by (auto simp: stream_inv_def read_ok_def intro: leg_keeps)
  next
    case (SPush m)
    with inv show ?thesis by (auto simp: stream_inv_def read_ok_def)
  next
    case SDriverGone
    with inv show ?thesis by (auto simp: stream_inv_def read_ok_def)
  next
    case (SOthers s')
    with inv show ?thesis by (auto simp: stream_inv_def intro: leg_keeps)
  qed
qed

lemma stream_run_inv: "stream_inv sid x \<Longrightarrow> stream_inv sid (stream_run cr x ops)"
proof (induction ops arbitrary: x)
  case (Cons op ops)
  obtain s st lg where x: "x = (s, st, lg)" by (metis prod_cases3)
  from Cons.IH [OF stream_step_inv [OF Cons.prems [unfolded x]]] show ?case by (simp add: x stream_run_def)
qed (simp add: stream_run_def)

section \<open>The datagram queue\<close>

abbreviation queue_bytes :: "(DatagramFields \<times> bytes) list \<Rightarrow> nat" where
  "queue_bytes ds \<equiv> sum_list (map (\<lambda>d. length (snd d)) ds)"

fun msg_fits :: "StreamMsg \<Rightarrow> bool" where
  "msg_fits (MDatagram f pl) \<longleftrightarrow> length pl \<le> MAX_QUEUED_DATAGRAM_BYTES"
| "msg_fits _ \<longleftrightarrow> True"

definition queue_ok :: "SessionStream \<Rightarrow> bool" where
  "queue_ok st \<longleftrightarrow> st_datagram_bytes st = queue_bytes (st_datagrams st)
     \<and> length (st_datagrams st) \<le> MAX_QUEUED_DATAGRAMS_PER_ASSOCIATION \<and> st_datagram_bytes st \<le> MAX_QUEUED_DATAGRAM_BYTES
     \<and> list_all msg_fits (st_rx st)"

lemma make_room_spec:
  "make_room n ds (queue_bytes ds) = (ds', held) \<Longrightarrow> held = queue_bytes ds' \<and> suffix ds' ds
    \<and> (ds' = [] \<or> length ds' < MAX_QUEUED_DATAGRAMS_PER_ASSOCIATION \<and> held + n \<le> MAX_QUEUED_DATAGRAM_BYTES)"
proof (induction ds)
  case (Cons d ds)
  show ?case
  proof (cases "MAX_QUEUED_DATAGRAMS_PER_ASSOCIATION \<le> length (d # ds) \<or> queue_bytes (d # ds) + n > MAX_QUEUED_DATAGRAM_BYTES")
    case True
    with Cons.prems Cons.IH show ?thesis by (auto intro: suffix_ConsI)
  next
    case False
    with Cons.prems have "ds' = d # ds" "held = queue_bytes (d # ds)" by auto
    with False show ?thesis by auto
  qed
qed simp

lemma queue_datagram_ok:
  assumes "queue_ok st" "length pl \<le> MAX_QUEUED_DATAGRAM_BYTES"
  shows "queue_ok (queue_datagram st f pl)"
proof -
  obtain ds held where m: "make_room (length pl) (st_datagrams st) (st_datagram_bytes st) = (ds, held)" by fastforce
  have "held = queue_bytes ds \<and> (ds = [] \<or> length ds < MAX_QUEUED_DATAGRAMS_PER_ASSOCIATION \<and> held + length pl \<le> MAX_QUEUED_DATAGRAM_BYTES)"
    using make_room_spec [of "length pl" "st_datagrams st" ds held] m assms(1) by (auto simp: queue_ok_def)
  with m assms show ?thesis by (auto simp: queue_datagram_def queue_ok_def limit_defs)
qed

lemma absorb_ok: "queue_ok st \<Longrightarrow> msg_fits m \<Longrightarrow> queue_ok (absorb st m)"
proof (cases m)
  case (MDatagram f pl)
  assume "queue_ok st" "msg_fits m"
  with MDatagram queue_datagram_ok show ?thesis by simp
qed (simp_all add: queue_ok_def)

lemma absorb_all_ok: "queue_ok st \<Longrightarrow> list_all msg_fits ms \<Longrightarrow> queue_ok (foldl absorb st ms)"
  by (induction ms arbitrary: st) (simp_all add: absorb_ok)

lemma absorb_queued_ok: "queue_ok st \<Longrightarrow> queue_ok (absorb_queued st)"
  unfolding absorb_queued_def by (rule absorb_all_ok) (simp_all add: queue_ok_def)

lemma take_datagram_queue: "queue_ok st \<Longrightarrow> queue_ok (fst (take_datagram st))"
  by (auto simp: take_datagram_def queue_ok_def split: list.split prod.split)

lemma queue_ok_cong:
  "queue_ok st \<Longrightarrow> st_datagrams st' = st_datagrams st \<Longrightarrow> st_datagram_bytes st' = st_datagram_bytes st \<Longrightarrow>
   list_all msg_fits (st_rx st') \<Longrightarrow> queue_ok st'"
  by (simp add: queue_ok_def)

lemma read_loop_queue:
  "queue_ok (st\<lparr>st_rx := rx\<rparr>) \<Longrightarrow> queue_ok (fst (snd (read_loop cr s st n rx)))"
proof (induction cr s st n rx rule: read_loop.induct)
  case (1 cr s st n rx)
  have rx: "list_all msg_fits rx" using "1.prems" by (simp add: queue_ok_def)
  show ?case
  proof (cases "st_read_buf st \<noteq> [] \<or> st_reset st \<noteq> None \<or> (case st_fin_at st of Some f \<Rightarrow> f \<le> st_delivered st | None \<Rightarrow> False) \<or> rx = []")
    case True
    with "1.prems" rx show ?thesis
      by (subst read_loop.simps) (auto simp: take_read_def Let_def queue_ok_def split: option.splits list.splits)
  next
    case False
    then obtain m ms where ms: "rx = m # ms" by (cases rx) auto
    have "queue_ok (absorb (st\<lparr>st_rx := ms\<rparr>) m)" using "1.prems" ms by (intro absorb_ok) (auto simp: queue_ok_def)
    moreover have "(absorb st m)\<lparr>st_rx := ms\<rparr> = absorb (st\<lparr>st_rx := ms\<rparr>) m"
      by (cases m) (simp_all add: queue_datagram_def split_beta)
    ultimately have "queue_ok (fst (snd (read_loop cr s (absorb st m) n ms)))" using "1.IH" False ms by auto
    then show ?thesis using False ms by (subst read_loop.simps) auto
  qed
qed

lemma stream_pump_queue: "queue_ok st \<Longrightarrow> queue_ok (fst (snd (stream_pump cr s st)))"
  using absorb_queued_ok [of st] by (auto simp: stream_pump_def Let_def queue_ok_def split: prod.split)

lemma poll_write_queue: "queue_ok st \<Longrightarrow> queue_ok (fst (snd (poll_write cr s st buf)))"
proof -
  assume q: "queue_ok st"
  obtain s1 st1 r where p: "stream_pump cr s st = (s1, st1, r)" by (metis prod_cases3)
  have q1: "queue_ok st1" using stream_pump_queue [OF q, of cr s] p by simp
  have q2: "queue_ok (fst (snd (stream_pump cr s2 (st1\<lparr>st_write_buf := b\<rparr>))))" for s2 b
    by (rule stream_pump_queue) (use q1 in \<open>simp add: queue_ok_def\<close>)
  then have q3: "stream_pump cr s2 (st1\<lparr>st_write_buf := b\<rparr>) = (s3, st3, r3) \<Longrightarrow> queue_ok st3" for s2 b s3 st3 r3
    by (metis fst_conv snd_conv)
  show ?thesis using q q1 q3 p unfolding poll_write_def
    by (auto split: sum.splits prod.splits SessionError.splits StreamError.splits)
qed

primrec push_fits :: "stream_op \<Rightarrow> bool" where
  "push_fits (SRead n) \<longleftrightarrow> True"
| "push_fits SRecvDatagram \<longleftrightarrow> True"
| "push_fits (SWrite buf) \<longleftrightarrow> True"
| "push_fits SFlush \<longleftrightarrow> True"
| "push_fits SShutdown \<longleftrightarrow> True"
| "push_fits (SPush m) \<longleftrightarrow> msg_fits m"
| "push_fits SDriverGone \<longleftrightarrow> True"
| "push_fits (SOthers s) \<longleftrightarrow> True"

lemma stream_step_queue:
  assumes q: "queue_ok st" and f: "push_fits op"
  shows "queue_ok (fst (snd (stream_step cr (s, st, lg) op)))"
proof (cases op)
  case (SRead n)
  have "queue_ok (fst (snd (poll_read cr s st n)))" unfolding poll_read_def using q by (intro read_loop_queue) simp
  then show ?thesis unfolding SRead by (auto split: prod.split poll.split sum.split)
next
  case SRecvDatagram
  have "fst (recv_datagram st) = fst (take_datagram (absorb_queued st))"
    by (auto simp: recv_datagram_def Let_def split: prod.split option.split)
  then show ?thesis using take_datagram_queue [OF absorb_queued_ok [OF q]] by (simp add: SRecvDatagram)
next
  case (SWrite buf)
  from poll_write_queue [OF q, of cr s buf] show ?thesis unfolding SWrite by (auto split: prod.split poll.split sum.split)
next
  case SFlush
  obtain s1 st1 r where p: "stream_pump cr s st = (s1, st1, r)" by (metis prod_cases3)
  with stream_pump_queue [OF q, of cr s] show ?thesis unfolding SFlush by (cases r) (auto simp: poll_flush_def)
next
  case SShutdown
  obtain s1 st1 r where p: "poll_shutdown cr s st = (s1, st1, r)" by (metis prod_cases3)
  then have "queue_ok st1" using q by (auto simp: poll_shutdown_def queue_ok_def split: if_splits prod.splits sum.splits SessionError.splits)
  with p show ?thesis by (simp add: SShutdown)
qed (use q f in \<open>auto simp: queue_ok_def\<close>)

lemma stream_run_queue:
  "queue_ok (fst (snd x)) \<Longrightarrow> list_all push_fits ops \<Longrightarrow> queue_ok (fst (snd (stream_run cr x ops)))"
proof (induction ops arbitrary: x)
  case (Cons op ops)
  obtain s st lg where x: "x = (s, st, lg)" by (metis prod_cases3)
  have "queue_ok (fst (snd (stream_step cr x op)))" using stream_step_queue Cons.prems by (simp add: x)
  from Cons.IH [OF this] Cons.prems(2) show ?case by (simp add: stream_run_def)
qed (simp add: stream_run_def)

lemma read_loop_eof:
  assumes "read_loop cr s st n rx = (s', st', PollReady (Inr []))" "0 < n"
  shows "st_read_buf st = [] \<and> ((\<exists>f. st_fin_at st' = Some f \<and> f \<le> st_delivered st)
    \<or> \<not> st_rx_open st \<and> rx_data rx = [])"
  using assms
proof (induction cr s st n rx rule: read_loop.induct)
  case (1 cr s st n rx)
  have e: "st_read_buf st = []" using "1.prems" by (subst (asm) read_loop.simps) (auto simp: take_read_def Let_def min_def split: if_splits)
  show ?case
  proof (cases "st_reset st \<noteq> None \<or> (case st_fin_at st of Some f \<Rightarrow> f \<le> st_delivered st | None \<Rightarrow> False) \<or> rx = []")
    case True
    with "1.prems" e show ?thesis by (subst (asm) read_loop.simps) (auto split: option.splits if_splits list.splits)
  next
    case False
    then obtain m ms where ms: "rx = m # ms" by (cases rx) auto
    have "read_loop cr s (absorb st m) n ms = (s', st', PollReady (Inr []))"
      using "1.prems"(1) False ms e by (subst (asm) read_loop.simps) auto
    with "1.IH" False ms e "1.prems"(2) show ?thesis by auto
  qed
qed

lemma stream_new_inv:
  assumes "\<And>en. map_of (streams s) sid = Some en \<Longrightarrow> send_offset en = 0"
  shows "stream_inv sid (s, stream_new sid, no_log)"
  using assms by (auto simp: stream_inv_def stream_new_def no_log_def read_ok_def leg_at_def)

section \<open>Properties\<close>



text \<open>End of file is never early: when a read with room reports the end of the stream, the application has read everything
  below the final offset of the peer's half-close, or the session is gone and everything that arrived was read. A half-close
  that overtakes its data on another carrier does not cut the stream off.\<close>

theorem node_stream_eof_is_not_early:
  assumes "\<forall>en. map_of (streams s0) sid = Some en \<longrightarrow> send_offset en = 0"
    and "stream_run cr (s0, stream_new sid, no_log) ops = (s, st, lg)"
    and "poll_read cr s st n = (s', st', PollReady (Inr []))" "0 < n"
  shows "(\<exists>final. st_fin_at st' = Some final \<and> final \<le> length (lg_out lg)) \<or> \<not> st_rx_open st \<and> lg_out lg = lg_got lg"
proof -
  have "stream_inv sid (s, st, lg)" using stream_run_inv [OF stream_new_inv, of s0 sid cr ops] assms(1,2) by simp
  with read_loop_eof [OF assms(3) [unfolded poll_read_def] assms(4)] show ?thesis by (auto simp: stream_inv_def read_ok_def)
qed

theorem node_stream_eof_is_not_early_witness:
  "\<exists>s st lg st'. stream_run null_crate (sample_end NodeSide, stream_new 1, no_log) [SPush (MFin 0)] = (s, st, lg)
     \<and> poll_read null_crate s st 5 = (s, st', PollReady (Inr [])) \<and> (\<exists>final. st_fin_at st' = Some final \<and> final \<le> length (lg_out lg))"
proof -
  let ?s = "sample_end NodeSide"
  obtain st lg where run: "stream_run null_crate (?s, stream_new 1, no_log) [SPush (MFin 0)] = (?s, st, lg)"
    and st: "st = (stream_new 1)\<lparr>st_rx := [MFin 0]\<rparr>"
    by (simp add: stream_run_def stream_new_def no_log_def)
  let ?st = "(absorb st (MFin 0))\<lparr>st_rx := []\<rparr>"
  have "read_loop null_crate ?s (absorb st (MFin 0)) 5 [] = (?s, ?st, PollReady (Inr []))"
    unfolding st by (subst read_loop.simps) (simp add: stream_new_def)
  then have rd: "poll_read null_crate ?s st 5 = (?s, ?st, PollReady (Inr []))"
    unfolding poll_read_def st by (subst read_loop.simps) (simp add: stream_new_def)
  have fresh: "\<forall>en. map_of (streams ?s) 1 = Some en \<longrightarrow> send_offset en = 0"
    by (simp add: sample_end_defs StreamEntry_new_def Let_def)
  have "st_rx_open st" by (simp add: st stream_new_def)
  with node_stream_eof_is_not_early [OF fresh run rd] run rd show ?thesis by auto
qed

text \<open>The datagram queue of a route stays inside its budgets: at most 32 datagrams and 256 KiB, counted exactly, whatever
  arrives and however slowly it is taken; older datagrams make room for new ones.\<close>

theorem node_datagram_queue_bounded:
  assumes "list_all push_fits ops" "stream_run cr (s0, stream_new sid, no_log) ops = (s, st, lg)"
  shows "st_datagram_bytes st = sum_list (map (\<lambda>d. length (snd d)) (st_datagrams st))
    \<and> length (st_datagrams st) \<le> 32 \<and> st_datagram_bytes st \<le> 256 * 1024"
proof -
  have "queue_ok (stream_new sid)" by (simp add: queue_ok_def stream_new_def)
  with stream_run_queue [of "(s0, stream_new sid, no_log)" ops cr] assms have "queue_ok st" by simp
  then show ?thesis by (simp add: queue_ok_def limit_defs kib_def)
qed

theorem node_datagram_queue_bounded_witness:
  "\<exists>s st lg. stream_run null_crate (sample_end NodeSide, stream_new 1, no_log)
       [SPush (MDatagram \<lparr>dg_stream_id = 1, dg_association_id = 5, dg_datagram_id = 1, dg_host = ''h'', dg_port = 9, dg_remaining_ttl_ms = 10\<rparr> [1, 2]), SFlush] = (s, st, lg)
     \<and> length (st_datagrams st) \<le> 32"
proof -
  let ?ops = "[SPush (MDatagram \<lparr>dg_stream_id = 1, dg_association_id = 5, dg_datagram_id = 1, dg_host = ''h'', dg_port = 9, dg_remaining_ttl_ms = 10\<rparr> [1, 2]), SFlush]"
  obtain s st lg where run: "stream_run null_crate (sample_end NodeSide, stream_new 1, no_log) ?ops = (s, st, lg)" by (metis prod_cases3)
  have "list_all push_fits ?ops" by (simp add: limit_defs kib_def)
  from node_datagram_queue_bounded [OF this run] run show ?thesis by blast
qed

text \<open>C38: A shutdown does not wait for buffered bytes: called while bytes the application handed over still wait for credit, it
  succeeds at once and sends a \<open>Fin\<close> whose final offset lies below them, by exactly their number.\<close>

theorem shutdown_overtakes_buffered_bytes:
  assumes "\<forall>en. map_of (streams s0) sid = Some en \<longrightarrow> send_offset en = 0"
    and "stream_run cr (s0, stream_new sid, no_log) ops = (s, st, lg)"
    and "\<not> lg_failed lg" "\<not> st_fin_sent st" "send_fin cr s sid = (s', Inr final)"
  shows "poll_shutdown cr s st = (s', st\<lparr>st_fin_sent := True\<rparr>, PollReady (Inr ()))
    \<and> final + length (st_write_buf st) = length (lg_accepted lg)"
proof -
  have inv: "stream_inv sid (s, st, lg)" using stream_run_inv [OF stream_new_inv, of s0 sid cr ops] assms(1,2) by simp
  then have id: "st_id st = sid" by (simp add: stream_inv_def)
  obtain en where en: "map_of (streams s) sid = Some en" "final = send_offset en"
    using assms(5) by (auto simp: send_fin_def andthen_def Let_def split: option.splits if_splits prod.splits sum.splits)
  with inv assms(3) show ?thesis using assms(4,5) id by (auto simp: poll_shutdown_def stream_inv_def leg_at_def)
qed

definition no_credit :: Session where
  "no_credit = put_stream (Session_new (sample_cfg NodeSide) sample_keys) 1 (StreamEntry_new 0)"

theorem shutdown_overtakes_buffered_bytes_witness:
  "\<exists>s st lg s' st'. stream_run null_crate (no_credit, stream_new 1, no_log) [SWrite [7]] = (s, st, lg)
     \<and> lg_accepted lg = [7] \<and> send_fin null_crate s 1 = (s', Inr 0) \<and> poll_shutdown null_crate s st = (s', st', PollReady (Inr ()))"
proof -
  let ?en = "StreamEntry_new 0"
  have en: "map_of (streams no_credit) 1 = Some ?en" "send_offset ?en = 0" "send_limit ?en = 0" "\<not> fin_sent ?en"
    by (simp_all add: no_credit_def put_stream_def StreamEntry_new_def Let_def update_conv')
  have cr: "send_data null_crate no_credit 1 [7] = (no_credit, Inl (StreamErr (CreditExceeded 1 0)))"
    using en by (simp add: send_data_def checked_add_def u64_max_def)
  have fl: "flush_writes null_crate no_credit 1 [7] = (no_credit, [7], Inr ())" "flush_writes null_crate no_credit 1 [] = (no_credit, [], Inr ())"
    using cr by (subst flush_writes.simps, simp)+
  obtain st lg where run: "stream_run null_crate (no_credit, stream_new 1, no_log) [SWrite [7]] = (no_credit, st, lg)"
    and lg: "lg_accepted lg = [7]" "\<not> lg_failed lg" "\<not> st_fin_sent st"
    using cr fl by (simp add: stream_run_def poll_write_def stream_pump_def stream_new_def no_log_def absorb_queued_def limit_defs kib_def Let_def)
  have "is_ok (encode (outgoing Fin (fin_to_canonical \<lparr>fin_stream_id = 1, fin_final_offset = 0\<rparr>) []))"
    by (simp add: is_ok_iff encode_Inr outgoing_def record_new_def carries_payload_def fin_to_canonical_def write_eval)
  moreover have "\<not> spent (next_no (send_allocator (put_stream no_credit 1 (?en\<lparr>fin_sent := True\<rparr>))))"
    "\<not> carrier_gone (put_stream no_credit 1 (?en\<lparr>fin_sent := True\<rparr>))"
    by (simp_all add: no_credit_def put_stream_def Session_new_def new_allocator_def spent_def EXHAUSTED_def PACKET_NO_CEILING_def u64_max_def)
  ultimately obtain s' where "send null_crate (put_stream no_credit 1 (?en\<lparr>fin_sent := True\<rparr>)) Fin
      (fin_to_canonical \<lparr>fin_stream_id = 1, fin_final_offset = 0\<rparr>) [] = (s', Inr ())"
    by (rule send_null_crate)
  then have fin: "send_fin null_crate no_credit 1 = (s', Inr 0)"
    using en by (simp add: send_fin_def send_control_def andthen_def Let_def)
  have fresh: "\<forall>en. map_of (streams no_credit) 1 = Some en \<longrightarrow> send_offset en = 0" using en by simp
  from shutdown_overtakes_buffered_bytes [OF fresh run lg(2,3) fin] run lg(1) fin show ?thesis by blast
qed

end
