(* ===== verification/Node_Select.thy ===== *)
theory Node_Select
  imports Hub_Core
begin

text \<open>
  \<open>crates/wsnet-node/src/select.rs\<close> and \<open>health.rs\<close>: the service directory a node keeps of a Hub, the choice of a Hub and
  the health of a Hub. An \<open>Instant\<close> is a number of nanoseconds.
\<close>

section \<open>The service directory\<close>

datatype HubChoice = Auto | OnHub string

record Advertisement =
  adv_proto :: "Proto option"
  adv_revision :: "nat option"

record ServiceDirectory =
  dir_known :: bool
  dir_services :: "((string \<times> string) \<times> Advertisement) list"
  dir_revision :: "nat option"

definition directory_unknown :: ServiceDirectory where
  "directory_unknown = \<lparr>dir_known = False, dir_services = [], dir_revision = None\<rparr>"

definition known_empty :: ServiceDirectory where
  "known_empty = \<lparr>dir_known = True, dir_services = [], dir_revision = None\<rparr>"

definition advertised_proto :: "string \<Rightarrow> Proto option" where
  "advertised_proto text = (if text = ''tcp'' then Some Tcp else if text = ''udp'' then Some Udp else None)"

definition read_entry :: "((string \<times> string) \<times> Advertisement) list \<Rightarrow> Canonical \<Rightarrow> ((string \<times> string) \<times> Advertisement) list" where
  "read_entry services entry =
     (case (get_str entry ''node'', get_str entry ''name'') of
        (Inr nd, Inr nm) \<Rightarrow>
          bt_insert (nd, nm)
            \<lparr>adv_proto = Option.bind (result_ok (get_str entry ''proto'')) advertised_proto,
             adv_revision = result_ok (get_u64 entry ''revision'')\<rparr> services
      | _ \<Rightarrow> services)"

definition from_peer_list :: "Canonical \<Rightarrow> ServiceDirectory" where
  "from_peer_list value =
     \<lparr>dir_known = True,
      dir_services = (case get_array value ''services'' of Inr es \<Rightarrow> foldl read_entry [] es | Inl _ \<Rightarrow> []),
      dir_revision = result_ok (get_u64 value ''version'')\<rparr>"

definition apply_peer_list :: "ServiceDirectory \<Rightarrow> Canonical \<Rightarrow> ServiceDirectory \<times> bool" where
  "apply_peer_list d value =
     (let incoming = from_peer_list value in
      case (dir_revision d, dir_revision incoming) of
        (Some applied, Some revn) \<Rightarrow> if revn \<le> applied then (d, False) else (incoming, True)
      | _ \<Rightarrow> if dir_known d \<and> dir_revision incoming = None then (d, False) else (incoming, True))"

definition directory_len :: "ServiceDirectory \<Rightarrow> nat" where
  "directory_len d = length (dir_services d)"

definition directory_is_empty :: "ServiceDirectory \<Rightarrow> bool" where
  "directory_is_empty d \<longleftrightarrow> dir_services d = []"

definition directory_entries_of :: "ServiceDirectory \<Rightarrow> (string \<times> string) list" where
  "directory_entries_of d = map fst (dir_services d)"

definition advertisements :: "ServiceDirectory \<Rightarrow> (string \<times> string \<times> Advertisement) list" where
  "advertisements d = map (\<lambda>((nd, nm), a). (nd, nm, a)) (dir_services d)"

definition directory_contains :: "ServiceDirectory \<Rightarrow> string \<Rightarrow> string \<Rightarrow> bool" where
  "directory_contains d nd nm \<longleftrightarrow> map_of (dir_services d) (nd, nm) \<noteq> None"

section \<open>The choice of a Hub\<close>

record Candidate =
  cand_hub_id :: string
  cand_ready :: bool
  cand_healthy :: bool
  cand_directory :: "ServiceDirectory option"

definition select_hub :: "Candidate list \<Rightarrow> Destination \<Rightarrow> Candidate option" where
  "select_hub cands dest =
     (case dest of
        Service nd nm _ \<Rightarrow>
          (case List.find (\<lambda>x. cand_ready x \<and> cand_healthy x
              \<and> (case cand_directory x of Some d \<Rightarrow> directory_contains d nd nm | None \<Rightarrow> False)) cands of
             Some found \<Rightarrow> Some found
           | None \<Rightarrow> List.find (\<lambda>x. cand_ready x \<and> cand_healthy x \<and> cand_directory x = None) cands)
      | _ \<Rightarrow> List.find (\<lambda>x. cand_ready x \<and> cand_healthy x) cands)"

section \<open>Health\<close>

definition stable_before_failback :: nat where
  "stable_before_failback = HEALTH_STABLE_BEFORE_FAILBACK_SECS * 10 ^ 9"

record HealthTracker =
  ht_failures :: nat
  ht_healthy :: bool
  ht_succeeding_since :: "nat option"

definition tracker_new :: HealthTracker where
  "tracker_new = \<lparr>ht_failures = 0, ht_healthy = True, ht_succeeding_since = None\<rparr>"

definition record_success :: "HealthTracker \<Rightarrow> nat \<Rightarrow> HealthTracker" where
  "record_success t now =
     (let t = t\<lparr>ht_failures := 0\<rparr> in
      if ht_healthy t then t\<lparr>ht_succeeding_since := None\<rparr>
      else case ht_succeeding_since t of
        None \<Rightarrow> t\<lparr>ht_succeeding_since := Some now\<rparr>
      | Some since \<Rightarrow>
          if now - since \<ge> stable_before_failback then t\<lparr>ht_healthy := True, ht_succeeding_since := None\<rparr> else t)"

definition record_failure :: "HealthTracker \<Rightarrow> nat \<Rightarrow> HealthTracker" where
  "record_failure t now =
     (let t = t\<lparr>ht_failures := min (ht_failures t + 1) u32_max\<rparr> in
      if ht_failures t \<ge> HEALTH_FAILURES_BEFORE_FAILOVER
      then t\<lparr>ht_healthy := False, ht_succeeding_since := None\<rparr> else t)"

section \<open>What arrives of a directory\<close>

definition adv_of :: "ServiceDescriptor \<Rightarrow> Advertisement" where
  "adv_of d = \<lparr>adv_proto = Some (sd_proto d), adv_revision = Some (sd_revision d)\<rparr>"

lemma read_written_entry:
  assumes "sd_revision d \<le> u64_max"
  shows "read_entry m (object [(''name'', Str (sd_service_name d)), (''node'', Str (sd_node_id d)),
      (''proto'', Str (proto_as_str (sd_proto d))), (''revision'', u64_decimal (sd_revision d))])
    = bt_insert (directory_key d) (adv_of d) m"
  using assms by (cases "sd_proto d")
    (simp_all add: read_entry_def field_readers result_simps ok_or_def result_ok_def advertised_proto_def adv_of_def)

lemma fold_inserts:
  "bt_inv m \<Longrightarrow> map_of (foldl (\<lambda>m x. bt_insert (k x) (a x) m) m ds) = map_of m ++ map_of (rev (map (\<lambda>x. (k x, a x)) ds))"
  by (induction ds arbitrary: m) (simp_all add: bt_inv_insert map_of_bt_insert map_add_assoc [symmetric])

lemma fold_inserts_distinct:
  assumes "distinct (map k ds)"
  shows "map_of (foldl (\<lambda>m x. bt_insert (k x) (a x) m) [] ds) q = Some v \<longleftrightarrow> (\<exists>x \<in> set ds. q = k x \<and> v = a x)"
proof -
  have "distinct (map fst (rev (map (\<lambda>x. (k x, a x)) ds)))" using assms by (simp add: rev_map [symmetric] comp_def)
  then show ?thesis unfolding fold_inserts [OF bt_inv_Nil] by (auto simp: map_of_eq_Some_iff)
qed

lemma directory_written:
  assumes "\<forall>n \<in> set (pl_nodes l). \<forall>d \<in> set (pn_services n). sd_revision d \<le> u64_max" "pl_revision l \<le> u64_max"
  shows "from_peer_list (peer_list_canonical l) =
    \<lparr>dir_known = True,
     dir_services = foldl (\<lambda>m d. bt_insert (directory_key d) (adv_of d) m) [] (concat (map pn_services (pl_nodes l))),
     dir_revision = Some (pl_revision l)\<rparr>"
proof -
  let ?w = "\<lambda>d. object [(''name'', Str (sd_service_name d)), (''node'', Str (sd_node_id d)),
      (''proto'', Str (proto_as_str (sd_proto d))), (''revision'', u64_decimal (sd_revision d))]"
  have "foldl read_entry m (map ?w ds) = foldl (\<lambda>m d. bt_insert (directory_key d) (adv_of d) m) m ds"
    if "\<forall>d \<in> set ds. sd_revision d \<le> u64_max" for ds m
    using that by (induction ds arbitrary: m) (simp_all add: read_written_entry)
  moreover have "concat (map (\<lambda>n. map ?w (pn_services n)) (pl_nodes l)) = map ?w (concat (map pn_services (pl_nodes l)))"
    by (simp add: map_concat comp_def)
  ultimately show ?thesis using assms
    by (simp add: from_peer_list_def peer_list_canonical_def get_array_def get_u64_def get_str_def u64_decimal_def
        result_simps ok_or_def result_ok_def)
qed

section \<open>Snapshots in any order\<close>

definition apply_all :: "ServiceDirectory \<Rightarrow> Canonical list \<Rightarrow> ServiceDirectory" where
  "apply_all = foldl (\<lambda>d v. fst (apply_peer_list d v))"

lemma apply_known: "dir_known (from_peer_list v)"
  by (simp add: from_peer_list_def)

lemma apply_newest:
  assumes "\<forall>v \<in> set vs. dir_revision (from_peer_list v) \<noteq> None" "vs \<noteq> []" "d = directory_unknown \<or> dir_revision d \<noteq> None"
  shows "(apply_all d vs = d \<and> d \<noteq> directory_unknown \<or> (\<exists>v \<in> set vs. apply_all d vs = from_peer_list v))
    \<and> (\<exists>n. dir_revision (apply_all d vs) = Some n \<and> (\<forall>v \<in> set vs. the (dir_revision (from_peer_list v)) \<le> n)
         \<and> (\<forall>m. dir_revision d = Some m \<longrightarrow> m \<le> n))"
  using assms
proof (induction vs arbitrary: d)
  case (Cons v vs)
  obtain n where n: "dir_revision (from_peer_list v) = Some n" using Cons.prems(1) by auto
  let ?d = "fst (apply_peer_list d v)"
  have step: "?d = from_peer_list v \<and> (\<forall>m. dir_revision d = Some m \<longrightarrow> m < n)
      \<or> ?d = d \<and> (\<exists>m. dir_revision d = Some m \<and> n \<le> m)"
    using Cons.prems(3) n by (auto simp: apply_peer_list_def Let_def directory_unknown_def split: option.splits)
  show ?case
  proof (cases "vs = []")
    case True
    with step n Cons.prems(3) show ?thesis by (auto simp: apply_all_def directory_unknown_def)
  next
    case False
    have "?d = directory_unknown \<or> dir_revision ?d \<noteq> None" using step n by auto
    from Cons.IH [OF _ _ this] Cons.prems(1) False
    have IH: "apply_all ?d vs = ?d \<or> (\<exists>v \<in> set vs. apply_all ?d vs = from_peer_list v)"
      "\<exists>n. dir_revision (apply_all ?d vs) = Some n \<and> (\<forall>v \<in> set vs. the (dir_revision (from_peer_list v)) \<le> n)
         \<and> (\<forall>m. dir_revision ?d = Some m \<longrightarrow> m \<le> n)" by auto
    have "apply_all d (v # vs) = apply_all ?d vs" by (simp add: apply_all_def)
    with IH step n show ?thesis by (auto simp: directory_unknown_def)
  qed
qed simp

section \<open>Choosing\<close>

definition viable :: "Candidate \<Rightarrow> bool" where
  "viable x \<longleftrightarrow> cand_ready x \<and> cand_healthy x"

definition listing :: "string \<Rightarrow> string \<Rightarrow> Candidate \<Rightarrow> bool" where
  "listing nd nm x \<longleftrightarrow> (\<exists>d. cand_directory x = Some d \<and> directory_contains d nd nm)"

lemma list_find_first: "List.find P xs = Some x \<longleftrightarrow> (\<exists>a b. xs = a @ x # b \<and> P x \<and> (\<forall>y \<in> set a. \<not> P y))"
proof (induction xs)
  case (Cons y ys)
  show ?case
  proof (cases "P y")
    case True
    then show ?thesis by (auto simp: Cons_eq_append_conv)
  next
    case False
    then have "List.find P (y # ys) = Some x \<longleftrightarrow> (\<exists>a b. ys = a @ x # b \<and> P x \<and> (\<forall>y \<in> set a. \<not> P y))" using Cons.IH by simp
    also have "\<dots> \<longleftrightarrow> (\<exists>a b. y # ys = a @ x # b \<and> P x \<and> (\<forall>y \<in> set a. \<not> P y))"
    proof
      assume "\<exists>a b. ys = a @ x # b \<and> P x \<and> (\<forall>y \<in> set a. \<not> P y)"
      then obtain a b where "ys = a @ x # b" "P x" "\<forall>y \<in> set a. \<not> P y" by blast
      with False show "\<exists>a b. y # ys = a @ x # b \<and> P x \<and> (\<forall>y \<in> set a. \<not> P y)"
        by (intro exI [of _ "y # a"] exI [of _ b]) simp
    qed (use False in \<open>auto simp: Cons_eq_append_conv\<close>)
    finally show ?thesis .
  qed
qed simp

section \<open>Histories of probes\<close>

text \<open>A probe is its instant and whether it succeeded.\<close>

definition tracker_step :: "HealthTracker \<Rightarrow> nat \<times> bool \<Rightarrow> HealthTracker" where
  "tracker_step t = (\<lambda>(now, ok). if ok then record_success t now else record_failure t now)"

definition tracker_run :: "(nat \<times> bool) list \<Rightarrow> HealthTracker" where
  "tracker_run = foldl tracker_step tracker_new"

text \<open>The length of the run of failures the history ends with.\<close>

definition failing :: "(nat \<times> bool) list \<Rightarrow> nat" where
  "failing ps = length (takeWhile (\<lambda>p. \<not> snd p) (rev ps))"

text \<open>No three consecutive failures.\<close>

definition calm :: "(nat \<times> bool) list \<Rightarrow> bool" where
  "calm ps \<longleftrightarrow> (\<forall>a b. ps = a @ b \<longrightarrow> failing a < HEALTH_FAILURES_BEFORE_FAILOVER)"

lemma failing_snoc [simp]: "failing (ps @ [(now, ok)]) = (if ok then 0 else Suc (failing ps))"
  by (simp add: failing_def)

lemma failing_Nil [simp]: "failing [] = 0"
  by (simp add: failing_def)

lemma calm_snoc: "calm (ps @ [p]) \<longleftrightarrow> calm ps \<and> failing (ps @ [p]) < HEALTH_FAILURES_BEFORE_FAILOVER"
  unfolding calm_def by (metis append.assoc append_Nil2 append_butlast_last_id butlast_append butlast_snoc)

lemma tracker_snoc: "tracker_run (ps @ [p]) = tracker_step (tracker_run ps) p"
  by (simp add: tracker_run_def)

lemma tracker_failures: "ht_failures (tracker_run ps) = min (failing ps) u32_max"
proof (induction ps rule: rev_induct)
  case (snoc p ps)
  then show ?case
    by (cases p) (auto simp: tracker_snoc tracker_step_def record_success_def record_failure_def Let_def u32_max_def
        split: option.splits)
qed (simp add: tracker_run_def tracker_new_def)

text \<open>While the tracker is unhealthy and has seen a success, that success began a calm stretch of the history.\<close>

lemma failing_drop_success: "failing (a @ (t, True) # b) = failing ((t, True) # b)"
  by (induction b rule: rev_induct) (auto simp: failing_def takeWhile_append takeWhile_tail)

lemma tracker_stretch:
  "ht_succeeding_since (tracker_run ps) = Some t \<Longrightarrow>
   \<not> ht_healthy (tracker_run ps) \<and> (\<exists>a b. ps = a @ (t, True) # b \<and> calm ((t, True) # b))"
proof (induction ps arbitrary: t rule: rev_induct)
  case (snoc p ps)
  obtain now ok where p: "p = (now, ok)" by fastforce
  let ?t = "tracker_run ps"
  show ?case
  proof (cases "ht_succeeding_since ?t")
    case None
    with snoc.prems have ok: "ok" "\<not> ht_healthy ?t" "t = now"
      by (auto simp: p tracker_snoc tracker_step_def record_success_def record_failure_def Let_def split: if_splits)
    have "calm ([] @ [(now, True)])" unfolding calm_snoc failing_snoc by (simp add: calm_def HEALTH_FAILURES_BEFORE_FAILOVER_def)
    moreover have "\<not> ht_healthy (tracker_run (ps @ [p]))"
      using ok None by (simp add: p tracker_snoc tracker_step_def record_success_def Let_def)
    moreover have "ps @ [p] = ps @ (t, True) # []" using ok by (simp add: p)
    ultimately show ?thesis using ok by (metis append_Nil)
  next
    case (Some t')
    then have t: "t' = t" and step: "\<not> ht_healthy (tracker_run (ps @ [p]))"
        "ok \<or> ht_failures (tracker_run (ps @ [p])) < HEALTH_FAILURES_BEFORE_FAILOVER"
      using snoc.prems snoc.IH [of t']
      by (auto simp: p tracker_snoc tracker_step_def record_success_def record_failure_def Let_def split: if_splits)
    obtain a b where ab: "ps = a @ (t, True) # b" "calm ((t, True) # b)" using snoc.IH [OF Some] t by blast
    have "failing (ps @ [p]) = failing ((t, True) # b @ [p])" unfolding ab(1) by (simp add: failing_drop_success)
    moreover have "failing (ps @ [p]) < HEALTH_FAILURES_BEFORE_FAILOVER"
      using step(2) unfolding tracker_failures by (auto simp: p HEALTH_FAILURES_BEFORE_FAILOVER_def u32_max_def min_def split: if_splits)
    ultimately have "calm ((t, True) # b @ [p])" using ab(2) calm_snoc [where ps = "(t, True) # b" and p = p] by simp
    with step(1) ab(1) show ?thesis by auto
  qed
qed (simp add: tracker_run_def tracker_new_def)

lemma tracker_change:
  assumes "ht_healthy (tracker_run ps) \<noteq> ht_healthy (tracker_run (ps @ [(now, ok)]))"
  shows "if ok
    then \<exists>a t b. ps = a @ (t, True) # b \<and> calm ((t, True) # b) \<and> t + stable_before_failback \<le> now
    else failing (ps @ [(now, ok)]) = HEALTH_FAILURES_BEFORE_FAILOVER"
proof (cases ok)
  case True
  with assms obtain t where t: "ht_succeeding_since (tracker_run ps) = Some t" "now - t \<ge> stable_before_failback"
    by (cases "ht_healthy (tracker_run ps)"; cases "ht_succeeding_since (tracker_run ps)")
      (simp_all add: tracker_snoc tracker_step_def record_success_def Let_def split: if_splits)
  then have "t + stable_before_failback \<le> now"
    by (simp add: stable_before_failback_def HEALTH_STABLE_BEFORE_FAILBACK_SECS_def)
  with tracker_stretch [OF t(1)] True show ?thesis by auto
next
  case False
  have "ht_healthy (tracker_run ps) \<longrightarrow> failing ps < HEALTH_FAILURES_BEFORE_FAILOVER"
  proof (induction ps rule: rev_induct)
    case (snoc p ps)
    obtain now ok where p: "p = (now, ok)" by fastforce
    show ?case
    proof (cases ok)
      case False
      have f: "ht_failures (tracker_run (ps @ [p])) = min (Suc (failing ps)) u32_max" unfolding tracker_failures using False by (simp add: p)
      have "ht_healthy (tracker_run (ps @ [p])) \<longrightarrow> ht_failures (tracker_run (ps @ [p])) < 3"
        using False by (auto simp: p tracker_snoc tracker_step_def record_failure_def Let_def HEALTH_FAILURES_BEFORE_FAILOVER_def u32_max_def)
      with f have "ht_healthy (tracker_run (ps @ [p])) \<longrightarrow> Suc (failing ps) < 3" by (auto simp: u32_max_def)
      moreover have "failing (ps @ [p]) = Suc (failing ps)" using False by (simp add: p)
      ultimately show ?thesis by (simp add: HEALTH_FAILURES_BEFORE_FAILOVER_def)
    qed (simp add: p HEALTH_FAILURES_BEFORE_FAILOVER_def)
  qed (simp add: HEALTH_FAILURES_BEFORE_FAILOVER_def)
  moreover have "ht_failures (tracker_run (ps @ [(now, ok)])) \<ge> HEALTH_FAILURES_BEFORE_FAILOVER" "ht_healthy (tracker_run ps)"
  proof -
    have "tracker_run (ps @ [(now, ok)]) = record_failure (tracker_run ps) now" using False by (simp add: tracker_snoc tracker_step_def)
    moreover have "ht_healthy (record_failure t now) \<longleftrightarrow>
        ht_healthy t \<and> ht_failures (record_failure t now) < HEALTH_FAILURES_BEFORE_FAILOVER" for t
      unfolding record_failure_def Let_def by (auto simp: min_def)
    ultimately show "ht_failures (tracker_run (ps @ [(now, ok)])) \<ge> HEALTH_FAILURES_BEFORE_FAILOVER" "ht_healthy (tracker_run ps)"
      using assms by (metis not_le)+
  qed
  ultimately have "failing ps < 3" "3 \<le> Suc (failing ps)"
    using False unfolding tracker_failures by (simp_all add: HEALTH_FAILURES_BEFORE_FAILOVER_def)
  with False show ?thesis by (simp add: HEALTH_FAILURES_BEFORE_FAILOVER_def)
qed

section \<open>Properties\<close>

text \<open>C37: The directory a node reads from a \<open>PeerList\<close> is the one its Hub holds for it: read from what the Hub writes, it is
  known, carries the registry's revision and lists a node and service exactly when that service is leased at the Hub and the
  access list lets this node discover it, with the protocol and revision of the lease.\<close>

theorem directory_read_is_directory_sent:
  assumes inv: "reg_inv reg" and d: "d = from_peer_list (peer_list_canonical (peer_list c reg caller acl))"
  shows "dir_known d \<and> dir_revision d = Some (reg_revision reg)
    \<and> (map_of (dir_services d) (nd, nm) = Some adv \<longleftrightarrow>
        (\<exists>v. lookup reg nd nm = Some v \<and> discoverable c caller acl v
           \<and> adv = \<lparr>adv_proto = Some (sl_proto v), adv_revision = Some (sl_revision v)\<rparr>))"
proof -
  let ?l = "peer_list c reg caller acl" and ?ds = "concat (map (\<lambda>(_, l). visible_of c caller acl l) (reg_nodes reg))"
  have ds: "concat (map pn_services (pl_nodes ?l)) = ?ds"
    by (simp add: peer_list_def comp_def case_prod_unfold)
  have bound: "sd_revision x \<le> u64_max" if "x \<in> set ?ds" for x
    using that inv unfolding directory_entries [OF inv]
    by (auto simp: lookup_def reg_inv_def lease_ok_def service_ok_def descriptor_def split: option.splits)
  have "\<forall>n \<in> set (pl_nodes ?l). \<forall>x \<in> set (pn_services n). sd_revision x \<le> u64_max"
    using bound unfolding ds [symmetric] by auto
  moreover have "pl_revision ?l \<le> u64_max" using inv by (simp add: peer_list_def reg_inv_def)
  ultimately have "from_peer_list (peer_list_canonical ?l) = \<lparr>dir_known = True,
      dir_services = foldl (\<lambda>m d. bt_insert (directory_key d) (adv_of d) m) [] ?ds, dir_revision = Some (pl_revision ?l)\<rparr>"
    unfolding ds [symmetric] by (rule directory_written)
  then have w: "d = \<lparr>dir_known = True, dir_services = foldl (\<lambda>m d. bt_insert (directory_key d) (adv_of d) m) [] ?ds,
      dir_revision = Some (reg_revision reg)\<rparr>"
    unfolding d by (simp add: peer_list_def)
  have "distinct (map directory_key ?ds)"
    using list_visible_unsorted [OF inv, of c caller acl] by (simp add: strict_sorted_iff)
  from fold_inserts_distinct [OF this]
  have "map_of (dir_services d) (nd, nm) = Some adv \<longleftrightarrow> (\<exists>x \<in> set ?ds. (nd, nm) = directory_key x \<and> adv = adv_of x)"
    unfolding w ServiceDirectory.simps .
  also have "\<dots> \<longleftrightarrow> (\<exists>v. lookup reg nd nm = Some v \<and> discoverable c caller acl v
           \<and> adv = \<lparr>adv_proto = Some (sl_proto v), adv_revision = Some (sl_revision v)\<rparr>)"
    unfolding Bex_def directory_entries [OF inv]
    using lookup_names [OF inv] by (fastforce simp: descriptor_def adv_of_def)
  finally show ?thesis by (simp add: w)
qed

theorem directory_read_is_directory_sent_witness:
  "directory_contains (from_peer_list (peer_list_canonical (peer_list no_nets (hb_registry sample_hub) ''b'' (hb_acl sample_hub)))) ''a'' ''w''
   \<and> \<not> directory_contains (from_peer_list (peer_list_canonical (peer_list no_nets (hb_registry sample_hub) ''z'' (hb_acl sample_hub)))) ''a'' ''w''"
proof -
  have inv: "reg_inv (hb_registry sample_hub)" unfolding sample_hub_def by (simp add: reg_run_inv reg_inv_new)
  obtain v where v: "lookup (hb_registry sample_hub) ''a'' ''w'' = Some v" "sl_node_id v = ''a''" "sl_service_name v = ''w''" "sl_proto v = Tcp"
    using sample_lookup by simp
  have acl: "discoverable no_nets caller (hb_acl sample_hub) v \<longleftrightarrow> caller = ''b''" for caller
    using v(2-4) by (simp add: discoverable_def discovery_query_def sample_hub_def acl_check_def web_rule_def acl_matches_def)
  have "directory_contains (from_peer_list (peer_list_canonical (peer_list no_nets (hb_registry sample_hub) caller (hb_acl sample_hub)))) ''a'' ''w''
      \<longleftrightarrow> caller = ''b''" for caller
    unfolding directory_contains_def acl [symmetric] not_None_eq
    using directory_read_is_directory_sent [OF inv refl, of no_nets caller "hb_acl sample_hub" "''a''" "''w''"] v(1) by auto
  then show ?thesis by simp
qed

text \<open>Snapshots may arrive late, again and in any order: after versioned snapshots a node that knew nothing holds one of
  them, of the highest revision. When equal revisions mean equal snapshots, every order of arrival ends in the same
  directory, so an old snapshot never brings a withdrawn service back.\<close>

theorem newest_snapshot_wins:
  assumes v: "\<forall>v \<in> set vs. dir_revision (from_peer_list v) \<noteq> None" "vs \<noteq> []"
    and same: "\<forall>v \<in> set vs. \<forall>w \<in> set vs. dir_revision (from_peer_list v) = dir_revision (from_peer_list w) \<longrightarrow> v = w"
    and perm: "set ws = set vs"
  shows "(\<exists>v \<in> set vs. apply_all directory_unknown vs = from_peer_list v
      \<and> (\<forall>w \<in> set vs. the (dir_revision (from_peer_list w)) \<le> the (dir_revision (from_peer_list v))))
    \<and> apply_all directory_unknown ws = apply_all directory_unknown vs"
proof -
  have one: "\<exists>v \<in> set us. apply_all directory_unknown us = from_peer_list v
      \<and> (\<forall>w \<in> set us. the (dir_revision (from_peer_list w)) \<le> the (dir_revision (from_peer_list v)))"
    if "set us = set vs" for us
  proof -
    have "us \<noteq> []" "\<forall>v \<in> set us. dir_revision (from_peer_list v) \<noteq> None" using that v by auto
    with apply_newest [of us directory_unknown] show ?thesis by (metis option.sel)
  qed
  from one [OF refl] obtain x where x: "x \<in> set vs" "apply_all directory_unknown vs = from_peer_list x"
    "\<forall>w \<in> set vs. the (dir_revision (from_peer_list w)) \<le> the (dir_revision (from_peer_list x))" by blast
  from one [OF perm] obtain y where y: "y \<in> set vs" "apply_all directory_unknown ws = from_peer_list y"
    "\<forall>w \<in> set vs. the (dir_revision (from_peer_list w)) \<le> the (dir_revision (from_peer_list y))" unfolding perm by blast
  have "the (dir_revision (from_peer_list x)) = the (dir_revision (from_peer_list y))" using x y by (simp add: antisym)
  then have "dir_revision (from_peer_list x) = dir_revision (from_peer_list y)" using v(1) x(1) y(1) by (metis option.expand)
  with same x(1) y(1) have "x = y" by blast
  with x y show ?thesis by auto
qed

definition snapshot_of :: "nat \<Rightarrow> Canonical" where
  "snapshot_of n = object [(''services'', Array []), (''version'', u64_decimal n)]"

theorem newest_snapshot_wins_witness:
  "apply_all directory_unknown [snapshot_of 2, snapshot_of 1] = from_peer_list (snapshot_of 2)
   \<and> apply_all directory_unknown [snapshot_of 1, snapshot_of 2, snapshot_of 1] = from_peer_list (snapshot_of 2)"
proof -
  have r: "dir_revision (from_peer_list (snapshot_of n)) = Some n" if "n \<le> 2" for n
    using that by (simp add: from_peer_list_def snapshot_of_def get_u64_def get_str_def u64_decimal_def result_simps ok_or_def result_ok_def u64_max_def)
  let ?vs = "[snapshot_of 2, snapshot_of 1]"
  have v: "\<forall>v \<in> set ?vs. dir_revision (from_peer_list v) \<noteq> None" "?vs \<noteq> []"
    "\<forall>v \<in> set ?vs. \<forall>w \<in> set ?vs. dir_revision (from_peer_list v) = dir_revision (from_peer_list w) \<longrightarrow> v = w"
    "set [snapshot_of 1, snapshot_of 2, snapshot_of 1] = set ?vs"
    using r by auto
  from newest_snapshot_wins [OF v] r [of 1] r [of 2] show ?thesis by auto
qed

text \<open>The Hub chosen is ready and healthy, and for a service it is the first, in failover order, whose directory lists the
  service, and only when no such Hub does, the first that has said nothing about its services. A Hub whose directory is
  known to lack the service is never chosen, and with no Hub chosen there is none to choose.\<close>

theorem select_hub_iff:
  "select_hub cands dest = Some x \<longleftrightarrow>
    (\<exists>a b. cands = a @ x # b \<and> viable x
       \<and> (case dest of
            Service nd nm _ \<Rightarrow>
              listing nd nm x \<and> (\<forall>y \<in> set a. \<not> (viable y \<and> listing nd nm y))
            \<or> cand_directory x = None \<and> (\<forall>y \<in> set cands. \<not> (viable y \<and> listing nd nm y))
              \<and> (\<forall>y \<in> set a. \<not> (viable y \<and> cand_directory y = None))
          | _ \<Rightarrow> \<forall>y \<in> set a. \<not> viable y))"
proof (cases dest)
  case (Service nd nm revn)
  let ?P = "\<lambda>x. cand_ready x \<and> cand_healthy x \<and> (case cand_directory x of Some d \<Rightarrow> directory_contains d nd nm | None \<Rightarrow> False)"
  have P: "?P y \<longleftrightarrow> viable y \<and> listing nd nm y" for y by (auto simp: viable_def listing_def split: option.splits)
  have Q: "cand_ready y \<and> cand_healthy y \<and> cand_directory y = None \<longleftrightarrow> viable y \<and> cand_directory y = None" for y
    by (simp add: viable_def)
  have no: "listing nd nm y \<Longrightarrow> cand_directory y \<noteq> None" for y by (auto simp: listing_def)
  show ?thesis
  proof (cases "\<exists>y \<in> set cands. viable y \<and> listing nd nm y")
    case True
    then have "List.find (\<lambda>x. viable x \<and> listing nd nm x) cands \<noteq> None" unfolding find_None_iff by blast
    then have e: "select_hub cands dest = List.find (\<lambda>x. viable x \<and> listing nd nm x) cands"
      unfolding select_hub_def Service by (auto simp: P)
    show ?thesis unfolding e list_find_first unfolding Service Destination.case using True by auto
  next
    case False
    then have "List.find (\<lambda>x. viable x \<and> listing nd nm x) cands = None" by (simp add: find_None_iff)
    then have e: "select_hub cands dest = List.find (\<lambda>x. viable x \<and> cand_directory x = None) cands"
      unfolding select_hub_def Service by (simp add: P Q)
    show ?thesis unfolding e list_find_first unfolding Service Destination.case using False by auto
  qed
qed (auto simp: select_hub_def list_find_first viable_def)

text \<open>Fail-over and fail-back happen on evidence only. A Hub becomes unhealthy exactly at a third consecutive failed
  probe, and becomes healthy again only at a success at least thirty seconds after an earlier success since which no three
  consecutive probes failed.\<close>

theorem health_changes_only_on_evidence:
  assumes "ht_healthy (tracker_run ps) \<noteq> ht_healthy (tracker_run (ps @ [(now, ok)]))"
  shows "if ok
    then \<exists>a t b. ps = a @ (t, True) # b \<and> t + 30 * 10 ^ 9 \<le> now
      \<and> (\<forall>u v. (t, True) # b = u @ v \<longrightarrow> failing u < 3)
    else failing (ps @ [(now, ok)]) = 3"
  using tracker_change [OF assms]
  by (auto simp: calm_def stable_before_failback_def HEALTH_STABLE_BEFORE_FAILBACK_SECS_def HEALTH_FAILURES_BEFORE_FAILOVER_def
      split: if_splits)

theorem health_changes_only_on_evidence_witness:
  "failing ([(0, False), (1, False)] @ [(2, False)]) = 3
   \<and> \<not> ht_healthy (tracker_run ([(0, False), (1, False)] @ [(2, False)]))"
proof -
  have n: "ht_healthy (tracker_run [(0, False), (1, False)]) \<noteq> ht_healthy (tracker_run ([(0, False), (1, False)] @ [(2, False)]))"
    by (simp add: tracker_run_def tracker_step_def tracker_new_def record_failure_def Let_def HEALTH_FAILURES_BEFORE_FAILOVER_def u32_max_def)
  have "\<not> ht_healthy (tracker_run ([(0, False), (1, False)] @ [(2, False)]))"
    by (simp add: tracker_run_def tracker_step_def tracker_new_def record_failure_def Let_def HEALTH_FAILURES_BEFORE_FAILOVER_def u32_max_def)
  with health_changes_only_on_evidence [OF n] show ?thesis by simp
qed

text \<open>The stretch before a fail-back is not an uninterrupted run of successes: one or two failures in it neither end it nor
  restart its thirty seconds. A Hub that failed four of its last six probes is preferred again.\<close>

theorem failback_despite_failures:
  "ht_healthy (tracker_run [(0, False), (1 * 10 ^ 9, False), (2 * 10 ^ 9, False), (10 * 10 ^ 9, True), (11 * 10 ^ 9, False),
     (12 * 10 ^ 9, False), (25 * 10 ^ 9, True), (38 * 10 ^ 9, False), (39 * 10 ^ 9, False), (40 * 10 ^ 9, True)])"
  by (simp add: tracker_run_def tracker_step_def tracker_new_def record_failure_def record_success_def Let_def
      stable_before_failback_def HEALTH_STABLE_BEFORE_FAILBACK_SECS_def HEALTH_FAILURES_BEFORE_FAILOVER_def u32_max_def)

end
