(* ===== verification/Relay.thy ===== *)
theory Relay
  imports Dataplane
begin

text \<open>
  \<open>crates/wsnet-hub/src/relay.rs\<close>: the task that bridges a caller's stream to a stream the Hub opens on another node's
  session. Both sessions live in the heap of entries, so the two legs may be streams of one session. A bridge remembers
  what its two receive queues delivered (\<open>bs_from_caller\<close>, \<open>bs_from_publisher\<close>), as a socket remembers what was read.
\<close>

section \<open>Plans and failures\<close>

definition DETAIL_PUBLISHER_OFFLINE :: string where
  "DETAIL_PUBLISHER_OFFLINE = ''the publishing node has no live session on this hub''"
definition DETAIL_PUBLISHER_REFUSED :: string where
  "DETAIL_PUBLISHER_REFUSED = ''the publishing node did not open the stream''"
definition DETAIL_PUBLISHER_GONE :: string where
  "DETAIL_PUBLISHER_GONE = ''the publishing node's session ended before it answered''"
definition DETAIL_PUBLISHER_RESET :: string where
  "DETAIL_PUBLISHER_RESET = ''the publishing node reset the stream before it was ready''"
definition DETAIL_PUBLISHER_EARLY_DATA :: string where
  "DETAIL_PUBLISHER_EARLY_DATA = ''the publishing node sent data before the stream was ready''"
definition DETAIL_PUBLISHER_EARLY_FIN :: string where
  "DETAIL_PUBLISHER_EARLY_FIN = ''the publishing node closed the stream before it was ready''"
definition DETAIL_PUBLISHER_TIMEOUT :: string where
  "DETAIL_PUBLISHER_TIMEOUT = ''the publishing node did not answer the open in time''"
definition DETAIL_PUBLISHER_UNAVAILABLE :: string where
  "DETAIL_PUBLISHER_UNAVAILABLE = ''the publishing node cannot accept another stream''"
definition DETAIL_STREAM_TAKEN :: string where "DETAIL_STREAM_TAKEN = ''the stream id is already in use''"
definition DETAIL_RELAY_NO_RUNTIME :: string where
  "DETAIL_RELAY_NO_RUNTIME = ''bridging to a publishing node needs an async runtime''"
definition DETAIL_RELAY_EMPTY_CHAIN :: string where "DETAIL_RELAY_EMPTY_CHAIN = ''the relay chain has no hops''"
definition DETAIL_BRIDGED :: string where "DETAIL_BRIDGED = ''bridged to the publishing node''"

record RelayFailure =
  rf_status :: OpenStatus
  rf_detail :: string

definition relay_failure :: "OpenStatus \<Rightarrow> string \<Rightarrow> RelayFailure" where
  "relay_failure st detail = \<lparr>rf_status = st, rf_detail = detail\<rparr>"

record Bridge =
  br_caller :: nat
  br_caller_stream :: nat
  br_caller_request :: bytes
  br_publisher :: nat
  br_destination :: Destination
  br_via :: "string list"
  br_proto :: Proto

section \<open>Starting a bridge\<close>

definition spawn_relay_with_via ::
    "crypto_crate \<Rightarrow> hex_crate \<Rightarrow> 'net Hub \<Rightarrow> nat \<Rightarrow> OpenFields \<Rightarrow> string \<Rightarrow> string list \<Rightarrow> bool \<Rightarrow> 'net Hub \<times> Bridge option" where
  "spawn_relay_with_via cr h hub r f node_id hops runtime =
     (case session_for_node hub node_id of
        None \<Rightarrow> (refuse_open cr h hub r f Offline DETAIL_PUBLISHER_OFFLINE, None)
      | Some publisher \<Rightarrow>
          if \<not> runtime then (refuse_open cr h hub r f Unreachable DETAIL_RELAY_NO_RUNTIME, None)
          else
            let (e, claimed) = claim_stream (entry_at hub r) (open_stream_id f) in
            if \<not> claimed then (hub, None)
            else
              (on_entry hub r (\<lambda>_. e),
               Some \<lparr>br_caller = r, br_caller_stream = open_stream_id f, br_caller_request = open_request_id f,
                     br_publisher = publisher, br_destination = open_destination f, br_via = hops,
                     br_proto = open_proto f\<rparr>))"

definition spawn_relay ::
    "crypto_crate \<Rightarrow> hex_crate \<Rightarrow> 'net Hub \<Rightarrow> nat \<Rightarrow> OpenFields \<Rightarrow> string \<Rightarrow> bool \<Rightarrow> 'net Hub \<times> Bridge option" where
  "spawn_relay cr h hub r f node_id runtime = spawn_relay_with_via cr h hub r f node_id [] runtime"

definition spawn_relay_chain ::
    "crypto_crate \<Rightarrow> hex_crate \<Rightarrow> 'net Hub \<Rightarrow> nat \<Rightarrow> OpenFields \<Rightarrow> string list \<Rightarrow> bool \<Rightarrow> 'net Hub \<times> Bridge option" where
  "spawn_relay_chain cr h hub r f hops runtime =
     (case hops of
        [] \<Rightarrow> (refuse_open cr h hub r f Refused DETAIL_RELAY_EMPTY_CHAIN, None)
      | first # rest \<Rightarrow> spawn_relay_with_via cr h hub r f first rest runtime)"

section \<open>Opening on the publisher\<close>

abbreviation flush_at :: "entries \<Rightarrow> nat \<Rightarrow> entries" where
  "flush_at es r \<equiv> update_entry es r flush_outbound"

text \<open>\<open>request_id\<close> is the fresh operation id of the leg.\<close>

definition open_on_publisher ::
    "crypto_crate \<Rightarrow> hex_crate \<Rightarrow> entries \<Rightarrow> Bridge \<Rightarrow> bytes \<Rightarrow> entries \<times> (RelayFailure + nat)" where
  "open_on_publisher cr h es b request_id =
     (let p = br_publisher b in
      case engine_call (\<lambda>s. session_open cr h s (br_destination b) (br_via b) (br_proto b) request_id) es p of
        (es, Inl _) \<Rightarrow> (es, Inl (relay_failure Refused DETAIL_PUBLISHER_UNAVAILABLE))
      | (es, Inr (sid, _)) \<Rightarrow>
          (let (e, claimed) = claim_stream (es ! p) sid in
           if \<not> claimed then
             (flush_at (fst (engine_call (\<lambda>s. send_reset cr s sid Canceled) es p)) p, Inl (relay_failure Refused DETAIL_STREAM_TAKEN))
           else (flush_at (update_entry es p (\<lambda>_. e)) p, Inr sid)))"

datatype await_input = Await SessionEvent | AwaitClosed | AwaitElapsed

text \<open>What the loop returns on the inputs so far, \<open>None\<close> while it still waits.\<close>

fun await_open :: "bool \<Rightarrow> await_input list \<Rightarrow> (RelayFailure + unit) option" where
  "await_open opened [] = None"
| "await_open opened (AwaitElapsed # is) = Some (Inl (relay_failure Timeout DETAIL_PUBLISHER_TIMEOUT))"
| "await_open opened (AwaitClosed # is) = Some (Inl (relay_failure Unreachable DETAIL_PUBLISHER_GONE))"
| "await_open opened (Await ev # is) =
     (case ev of
        EvOpenResult f \<Rightarrow>
          if res_status f \<noteq> StatusOk then Some (Inl (relay_failure (res_status f) DETAIL_PUBLISHER_REFUSED)) else await_open True is
      | EvReady _ \<Rightarrow> if opened then Some (Inr ()) else await_open opened is
      | EvReset _ \<Rightarrow> Some (Inl (relay_failure Unreachable DETAIL_PUBLISHER_RESET))
      | EvFin _ \<Rightarrow> Some (Inl (relay_failure Unreachable DETAIL_PUBLISHER_EARLY_FIN))
      | EvData _ _ _ \<Rightarrow> Some (Inl (relay_failure Unreachable DETAIL_PUBLISHER_EARLY_DATA))
      | _ \<Rightarrow> await_open opened is)"

section \<open>Answering the caller\<close>

definition bridge_result :: "Bridge \<Rightarrow> OpenStatus \<Rightarrow> string \<Rightarrow> OpenResultFields" where
  "bridge_result b st detail =
     \<lparr>res_request_id = br_caller_request b, res_stream_id = br_caller_stream b, res_status = st, res_detail = detail\<rparr>"

definition refuse_caller :: "crypto_crate \<Rightarrow> hex_crate \<Rightarrow> entries \<Rightarrow> Bridge \<Rightarrow> RelayFailure \<Rightarrow> entries" where
  "refuse_caller cr h es b f =
     (if offsets (se_engine (es ! br_caller b)) (br_caller_stream b) = None then es
      else flush_at (fst (engine_call (\<lambda>s. send_open_result cr h s (bridge_result b (rf_status f) (rf_detail f))) es (br_caller b)))
             (br_caller b))"

definition answer_caller :: "crypto_crate \<Rightarrow> hex_crate \<Rightarrow> entries \<Rightarrow> Bridge \<Rightarrow> entries \<times> bool" where
  "answer_caller cr h es b =
     (if offsets (se_engine (es ! br_caller b)) (br_caller_stream b) = None then (es, False)
      else
        let (es, res) = engine_call (\<lambda>s. send_open_result cr h s (bridge_result b StatusOk DETAIL_BRIDGED)) es (br_caller b) in
        (flush_at es (br_caller b), is_ok res))"

definition forget_stream :: "entries \<Rightarrow> nat \<Rightarrow> nat \<Rightarrow> entries" where
  "forget_stream es r sid = engine_do (\<lambda>s. close_stream s sid) (update_entry es r (\<lambda>e. unregister_stream e sid)) r"

definition release_caller :: "entries \<Rightarrow> Bridge \<Rightarrow> entries" where
  "release_caller es b = flush_at (forget_stream es (br_caller b) (br_caller_stream b)) (br_caller b)"

definition release_publisher :: "crypto_crate \<Rightarrow> entries \<Rightarrow> Bridge \<Rightarrow> nat \<Rightarrow> entries" where
  "release_publisher cr es b sid =
     (let p = br_publisher b;
          es = (if offsets (se_engine (es ! p)) sid = None then es else fst (engine_call (\<lambda>s. send_reset cr s sid Canceled) es p))
      in flush_at (forget_stream es p sid) p)"

section \<open>Carrying bytes\<close>

definition push :: "crypto_crate \<Rightarrow> Session \<Rightarrow> nat \<Rightarrow> bytes \<Rightarrow> Session \<times> bytes \<times> bool" where
  "push cr s sid pend = deliver cr s sid pend"

record BridgeState =
  bs_to_publisher :: bytes
  bs_to_caller :: bytes
  bs_caller_fin :: bool
  bs_publisher_fin :: bool
  bs_caller_fin_sent :: bool
  bs_publisher_fin_sent :: bool
  bs_from_caller :: bytes
  bs_from_publisher :: bytes


datatype bridge_phase = BAtHead | BWaiting | BEnded

text \<open>One direction of the head of the loop: push to the destination leg, then let the source leg consume what was taken.\<close>

definition forward_leg ::
    "crypto_crate \<Rightarrow> entries \<Rightarrow> nat \<times> nat \<Rightarrow> nat \<times> nat \<Rightarrow> bytes \<Rightarrow> entries \<times> bytes \<times> bool" where
  "forward_leg cr es src dst pend =
     (let (s, rest, ok) = push cr (se_engine (es ! fst dst)) (snd dst) pend;
          es = engine_do (\<lambda>_. s) es (fst dst); taken = length pend - length rest
      in if \<not> ok then (es, rest, False)
         else if taken > 0 then
           let (es, res) = engine_call (\<lambda>s. consume cr s (snd src) taken) es (fst src) in (es, rest, is_ok res)
         else (es, rest, True))"

text \<open>The teardown after the loop.\<close>

definition bridge_end :: "crypto_crate \<Rightarrow> Bridge \<Rightarrow> nat \<Rightarrow> entries \<Rightarrow> bool \<Rightarrow> bool \<Rightarrow> ResetReason \<Rightarrow> entries" where
  "bridge_end cr b psid es caller_done publisher_done reason =
     (let c = br_caller b; p = br_publisher b;
          es = (if publisher_done then es else fst (engine_call (\<lambda>s. send_reset cr s psid reason) es p));
          es = (if caller_done then es else fst (engine_call (\<lambda>s. send_reset cr s (br_caller_stream b) reason) es c));
          es = forget_stream es c (br_caller_stream b);
          es = forget_stream es p psid
      in flush_at (flush_at es c) p)"

definition bridge_fins ::
    "crypto_crate \<Rightarrow> Bridge \<Rightarrow> nat \<Rightarrow> entries \<Rightarrow> BridgeState \<Rightarrow> entries \<times> BridgeState \<times> bool" where
  "bridge_fins cr b psid es bs =
     (let (es, bs, ok) =
        (if bs_caller_fin bs \<and> \<not> bs_publisher_fin_sent bs \<and> bs_to_publisher bs = [] then
           (case engine_call (\<lambda>s. send_fin cr s psid) es (br_publisher b) of
              (es, Inl _) \<Rightarrow> (es, bs, False)
            | (es, Inr _) \<Rightarrow> (es, bs\<lparr>bs_publisher_fin_sent := True\<rparr>, True))
         else (es, bs, True))
      in if \<not> ok then (es, bs, False)
         else if bs_publisher_fin bs \<and> \<not> bs_caller_fin_sent bs \<and> bs_to_caller bs = [] then
           (case engine_call (\<lambda>s. send_fin cr s (br_caller_stream b)) es (br_caller b) of
              (es, Inl _) \<Rightarrow> (es, bs, False)
            | (es, Inr _) \<Rightarrow> (es, bs\<lparr>bs_caller_fin_sent := True\<rparr>, True))
         else (es, bs, True))"

definition bridge_head :: "crypto_crate \<Rightarrow> Bridge \<Rightarrow> nat \<Rightarrow> entries \<times> BridgeState \<Rightarrow> entries \<times> BridgeState \<times> bridge_phase" where
  "bridge_head cr b psid = (\<lambda>(es, bs).
     let cl = (br_caller b, br_caller_stream b); pl = (br_publisher b, psid);
         (es, rest, ok) = forward_leg cr es cl pl (bs_to_publisher bs); bs = bs\<lparr>bs_to_publisher := rest\<rparr>
     in if \<not> ok then (bridge_end cr b psid es False False ResetUnreachable, bs, BEnded)
        else
          let (es, rest, ok) = forward_leg cr es pl cl (bs_to_caller bs); bs = bs\<lparr>bs_to_caller := rest\<rparr>
          in if \<not> ok then (bridge_end cr b psid es False False ResetUnreachable, bs, BEnded)
             else
               let (es, bs, ok) = bridge_fins cr b psid es bs
               in if \<not> ok then (bridge_end cr b psid es False False ResetUnreachable, bs, BEnded)
                  else
                    let es = flush_at (flush_at es (br_caller b)) (br_publisher b)
                    in if bs_caller_fin_sent bs \<and> bs_publisher_fin_sent bs
                       then (bridge_end cr b psid es True True Canceled, bs, BEnded)
                       else (es, bs, BWaiting))"

datatype bridge_input = FromCaller "SessionEvent option" | FromPublisher "SessionEvent option"

definition bridge_input_step ::
    "crypto_crate \<Rightarrow> Bridge \<Rightarrow> nat \<Rightarrow> entries \<times> BridgeState \<Rightarrow> bridge_input \<Rightarrow> entries \<times> BridgeState \<times> bridge_phase" where
  "bridge_input_step cr b psid = (\<lambda>(es, bs) i.
     case i of
       FromCaller None \<Rightarrow> (bridge_end cr b psid es True False Canceled, bs, BEnded)
     | FromCaller (Some (EvData _ _ data)) \<Rightarrow>
         if bs_caller_fin bs then (bridge_end cr b psid es False False ProtocolError, bs, BEnded)
         else (es, bs\<lparr>bs_to_publisher := bs_to_publisher bs @ data, bs_from_caller := bs_from_caller bs @ data\<rparr>, BAtHead)
     | FromCaller (Some (EvFin _)) \<Rightarrow> (es, bs\<lparr>bs_caller_fin := True\<rparr>, BAtHead)
     | FromCaller (Some (EvReset f)) \<Rightarrow>
         (bridge_end cr b psid (fst (engine_call (\<lambda>s. send_reset cr s psid (reset_reason f)) es (br_publisher b))) True True Canceled,
          bs, BEnded)
     | FromCaller (Some _) \<Rightarrow> (es, bs, BAtHead)
     | FromPublisher None \<Rightarrow> (bridge_end cr b psid es False True Canceled, bs, BEnded)
     | FromPublisher (Some (EvData _ _ data)) \<Rightarrow>
         if bs_publisher_fin bs then (bridge_end cr b psid es False False ProtocolError, bs, BEnded)
         else (es, bs\<lparr>bs_to_caller := bs_to_caller bs @ data, bs_from_publisher := bs_from_publisher bs @ data\<rparr>, BAtHead)
     | FromPublisher (Some (EvFin _)) \<Rightarrow> (es, bs\<lparr>bs_publisher_fin := True\<rparr>, BAtHead)
     | FromPublisher (Some (EvReset f)) \<Rightarrow>
         (bridge_end cr b psid
            (fst (engine_call (\<lambda>s. send_reset cr s (br_caller_stream b) (reset_reason f)) es (br_caller b))) True True Canceled,
          bs, BEnded)
     | FromPublisher (Some _) \<Rightarrow> (es, bs, BAtHead))"

section \<open>The task\<close>

text \<open>\<open>run\<close> up to the wait for the publisher, and from its outcome to the loop.\<close>

definition run_open :: "crypto_crate \<Rightarrow> hex_crate \<Rightarrow> entries \<Rightarrow> Bridge \<Rightarrow> bytes \<Rightarrow> entries \<times> nat option" where
  "run_open cr h es b request_id =
     (case open_on_publisher cr h es b request_id of
        (es, Inl f) \<Rightarrow> (release_caller (refuse_caller cr h es b f) b, None)
      | (es, Inr sid) \<Rightarrow> (es, Some sid))"

definition run_answer :: "crypto_crate \<Rightarrow> hex_crate \<Rightarrow> entries \<Rightarrow> Bridge \<Rightarrow> nat \<Rightarrow> RelayFailure + unit \<Rightarrow> entries \<times> bool" where
  "run_answer cr h es b sid outcome =
     (case outcome of
        Inl f \<Rightarrow> (release_publisher cr (release_caller (refuse_caller cr h es b f) b) b sid, False)
      | Inr _ \<Rightarrow>
          (case answer_caller cr h es b of
             (es, True) \<Rightarrow> (es, True)
           | (es, False) \<Rightarrow> (release_caller (release_publisher cr es b sid) b, False)))"

text \<open>The loop among the other tasks, which change the sessions but send on neither leg.\<close>

definition heap_keeps :: "nat \<times> nat \<Rightarrow> entries \<Rightarrow> entries \<Rightarrow> bool" where
  "heap_keeps leg es es' \<longleftrightarrow> length es \<le> length es' \<and>
     keeps_stream (snd leg) (se_engine (es ! fst leg)) (se_engine (es' ! fst leg))"

datatype bridge_op = BHead | BInput bridge_input | BOthers entries

definition bridge_step ::
    "crypto_crate \<Rightarrow> Bridge \<Rightarrow> nat \<Rightarrow> entries \<times> BridgeState \<times> bridge_phase \<Rightarrow> bridge_op \<Rightarrow> entries \<times> BridgeState \<times> bridge_phase" where
  "bridge_step cr b psid = (\<lambda>(es, bs, ph) op.
     case op of
       BHead \<Rightarrow> if ph = BAtHead then bridge_head cr b psid (es, bs) else (es, bs, ph)
     | BInput i \<Rightarrow> if ph = BWaiting then bridge_input_step cr b psid (es, bs) i else (es, bs, ph)
     | BOthers es' \<Rightarrow>
         if heap_keeps (br_caller b, br_caller_stream b) es es' \<and> heap_keeps (br_publisher b, psid) es es'
         then (es', bs, ph) else (es, bs, ph))"

definition bridge_run ::
    "crypto_crate \<Rightarrow> Bridge \<Rightarrow> nat \<Rightarrow> entries \<times> BridgeState \<times> bridge_phase \<Rightarrow> bridge_op list \<Rightarrow> entries \<times> BridgeState \<times> bridge_phase" where
  "bridge_run cr b psid = foldl (bridge_step cr b psid)"

section \<open>Legs\<close>



lemma heap_keeps_refl [simp]: "heap_keeps leg es es"
  by (simp add: heap_keeps_def)










section \<open>The invariant of a bridge\<close>











lemma forward_leg_empty: "forward_leg cr es src dst [] = (es', rest, ok) \<Longrightarrow> rest = []"
  by (auto simp: forward_leg_def push_def Let_def deliver.simps [of _ _ _ "[]"])










text \<open>Without that condition a stream is cut: a \<open>Fin\<close> that overtakes its data on another carrier is passed on at once,
  and the \<open>Data\<close> that follows ends the bridge with a protocol error and is not forwarded, whatever the final offset says.\<close>

lemma early_fin_cuts_stream:
  fixes f :: FinFields
  assumes "bs_to_publisher bs = []" "\<not> bs_publisher_fin_sent bs"
    and "bridge_run cr b psid (es, bs, BWaiting) [BInput (FromCaller (Some (EvFin f))), BHead] = (es1, bs1, BWaiting)"
  shows "bs_publisher_fin_sent bs1 \<and> bs_from_caller bs1 = bs_from_caller bs
    \<and> (\<exists>es2. bridge_run cr b psid (es1, bs1, BWaiting) [BInput (FromCaller (Some (EvData s off d)))] = (es2, bs1, BEnded))"
proof -
  have h: "bridge_head cr b psid (es, bs\<lparr>bs_caller_fin := True\<rparr>) = (es1, bs1, BWaiting)"
    using assms(3) by (simp add: bridge_run_def bridge_step_def bridge_input_step_def)
  let ?bs = "bs\<lparr>bs_caller_fin := True\<rparr>"
  obtain es2 r1 ok1 where f1: "forward_leg cr es (br_caller b, br_caller_stream b) (br_publisher b, psid) [] = (es2, r1, ok1)"
    by (metis prod.exhaust)
  have r1: "r1 = []" using f1 by (rule forward_leg_empty)
  obtain es3 r2 ok2 where f2: "forward_leg cr es2 (br_publisher b, psid) (br_caller b, br_caller_stream b) (bs_to_caller bs) = (es3, r2, ok2)"
    by (metis prod.exhaust)
  obtain es4 bs4 ok4 where f3: "bridge_fins cr b psid es3 (?bs\<lparr>bs_to_publisher := [], bs_to_caller := r2\<rparr>) = (es4, bs4, ok4)"
    by (metis prod.exhaust)
  from h f1 f2 f3 r1 assms(1) have ok: "ok1" "ok2" "ok4" "bs1 = bs4"
    by (auto simp: bridge_head_def Let_def split: if_splits)
  with f3 assms(2) have "bs_publisher_fin_sent bs1" "bs_from_caller bs1 = bs_from_caller bs" "bs_caller_fin bs1"
    by (auto simp: bridge_fins_def Let_def split: if_splits prod.splits sum.splits)
  then show ?thesis by (simp add: bridge_run_def bridge_step_def bridge_input_step_def)
qed

section \<open>The handshake with the publisher\<close>

lemma await_open_ok: "await_open opened is = Some (Inr ()) \<Longrightarrow>
   (opened \<or> (\<exists>f. Await (EvOpenResult f) \<in> set is \<and> res_status f = StatusOk)) \<and> (\<exists>f. Await (EvReady f) \<in> set is)"
proof (induction opened "is" rule: await_open.induct)
  case (4 opened ev "is")
  then show ?case by (cases ev) (auto split: if_splits)
qed simp_all

section \<open>Properties\<close>




end
