(* ===== verification/Hub.thy ===== *)
theory Hub
  imports Relay
begin

text \<open>
  \<open>crates/wsnet-hub/src/hub.rs\<close>, second half: what the Hub does with the events of a session. A handler returns the tasks
  it started beside the Hub; \<open>rt\<close> says whether there is a runtime to start them on.
\<close>

section \<open>Handlers\<close>

datatype 'net spawned = ExitTask nat "'net HubExitTask" | BridgeTask Bridge

definition exit_spawned :: "nat \<Rightarrow> 'net Hub \<times> 'net HubExitTask option \<Rightarrow> 'net Hub \<times> 'net spawned list" where
  "exit_spawned r = (\<lambda>(hub, x). (hub, case x of None \<Rightarrow> [] | Some x \<Rightarrow> [ExitTask r x]))"

definition bridge_spawned :: "'net Hub \<times> Bridge option \<Rightarrow> 'net Hub \<times> 'net spawned list" where
  "bridge_spawned = (\<lambda>(hub, b). (hub, case b of None \<Rightarrow> [] | Some b \<Rightarrow> [BridgeTask b]))"

definition close_entry :: "crypto_crate \<Rightarrow> 'net ipnet_crate \<Rightarrow> 'net Hub \<Rightarrow> nat \<Rightarrow> 'net Hub" where
  "close_entry cr c hub r = close_session cr c hub (se_session_id (entry_at hub r)) (se_epoch (entry_at hub r))"

definition publish_all :: "Registry \<Rightarrow> SessionEntry \<Rightarrow> ServiceRegistration list \<Rightarrow> Registry" where
  "publish_all reg e services =
     foldl (\<lambda>reg s. fst (publish reg (se_node_id e) (se_session_id e) (se_epoch e) (sr_name s) (sr_proto s) (sr_target s)))
       reg services"

definition on_hello :: "crypto_crate \<Rightarrow> hex_crate \<Rightarrow> 'net ipnet_crate \<Rightarrow> 'net Hub \<Rightarrow> nat \<Rightarrow> HelloFields \<Rightarrow> 'net Hub" where
  "on_hello cr h c hub r f =
     (case negotiate_capabilities (hello_capabilities f) of
        Inl _ \<Rightarrow> close_entry cr c (fst (on_engine hub r (\<lambda>s. send_bye cr s ''unsupported capability''))) r
      | Inr capabilities \<Rightarrow>
          (let e = entry_at hub r;
              reg = fst (register_ready (hb_registry hub) (se_node_id e) (se_session_id e) (se_epoch e));
              hub = hub\<lparr>hb_registry := publish_all reg e (hello_services f)\<rparr>;
              hub = on_entry hub r (\<lambda>e. e\<lparr>se_engine := set_state (se_engine e) StHelloPending\<rparr>)
          in case on_engine hub r (\<lambda>s. send_hello_ok cr h s \<lparr>hok_request_id = hello_request_id f, hok_capabilities = capabilities\<rparr>) of
               (hub, Inl _) \<Rightarrow> close_entry cr c hub r
             | (hub, Inr _) \<Rightarrow> broadcast_peer_lists cr c (on_entry hub r flush_outbound)))"

definition on_open ::
    "crypto_crate \<Rightarrow> hex_crate \<Rightarrow> 'net ipnet_crate \<Rightarrow> bool \<Rightarrow> 'net Hub \<Rightarrow> nat \<Rightarrow> OpenFields \<Rightarrow> 'net Hub \<times> 'net spawned list" where
  "on_open cr h c rt hub r f =
     (case authorize_open c hub (se_node_id (entry_at hub r)) f of
        Inl refusal \<Rightarrow> (refuse_open cr h hub r f (ref_status refusal) (ref_detail refusal), [])
      | Inr (HubExit host port) \<Rightarrow> exit_spawned r (spawn_hub_exit cr h hub r f host port rt)
      | Inr (ServiceExit node_id _ _ _) \<Rightarrow> bridge_spawned (spawn_relay cr h hub r f node_id rt)
      | Inr (NodeExit node_id _ _) \<Rightarrow> bridge_spawned (spawn_relay cr h hub r f node_id rt)
      | Inr (RelayPlan hops) \<Rightarrow> bridge_spawned (spawn_relay_chain cr h hub r f hops rt))"

definition on_route :: "'net Hub \<Rightarrow> nat \<Rightarrow> nat \<Rightarrow> SessionEvent \<Rightarrow> 'net Hub \<times> bool" where
  "on_route hub r sid ev =
     (let (e, routed) = route_stream_event (entry_at hub r) sid ev in (on_entry hub r (\<lambda>_. e), routed))"

definition route_datagram :: "'net Hub \<Rightarrow> nat \<Rightarrow> nat \<Rightarrow> SessionEvent \<Rightarrow> 'net Hub" where
  "route_datagram hub r sid ev = fst (on_route hub r sid ev)"

fun event_stream :: "SessionEvent \<Rightarrow> nat option" where
  "event_stream (EvData sid _ _) = Some sid"
| "event_stream (EvFin f) = Some (fin_stream_id f)"
| "event_stream (EvReset f) = Some (reset_stream_id f)"
| "event_stream (EvProgress f) = Some (prog_stream_id f)"
| "event_stream (EvReady f) = Some (ready_stream_id f)"
| "event_stream (EvOpenResult f) = Some (res_stream_id f)"
| "event_stream _ = None"

definition on_stream_event :: "crypto_crate \<Rightarrow> 'net Hub \<Rightarrow> nat \<Rightarrow> SessionEvent \<Rightarrow> 'net Hub" where
  "on_stream_event cr hub r ev =
     (case event_stream ev of
        None \<Rightarrow> hub
      | Some sid \<Rightarrow>
          (case on_route hub r sid ev of
             (hub, True) \<Rightarrow> hub
           | (hub, False) \<Rightarrow>
               if (case ev of EvReset _ \<Rightarrow> True | _ \<Rightarrow> False) then hub
               else on_entry (fst (on_engine hub r (\<lambda>s. send_reset cr s sid ProtocolError))) r flush_outbound))"

fun on_session_event ::
    "crypto_crate \<Rightarrow> hex_crate \<Rightarrow> 'net ipnet_crate \<Rightarrow> bool \<Rightarrow> nat \<Rightarrow> 'net Hub \<Rightarrow> SessionEvent \<Rightarrow> 'net Hub \<times> 'net spawned list" where
  "on_session_event cr h c rt r hub (EvHello f) = (on_hello cr h c hub r f, [])"
| "on_session_event cr h c rt r hub (EvOpen f) = on_open cr h c rt hub r f"
| "on_session_event cr h c rt r hub EvPing = (fst (on_engine hub r (send_pong cr)), [])"
| "on_session_event cr h c rt r hub (EvBye f) = (close_entry cr c hub r, [])"
| "on_session_event cr h c rt r hub (EvDatagram md data) =
     (case datagram_from_canonical md of
        Inr f \<Rightarrow> (route_datagram hub r (dg_stream_id f) (EvDatagram md data), [])
      | Inl _ \<Rightarrow> (hub, []))"
| "on_session_event cr h c rt r hub ev = (on_stream_event cr hub r ev, [])"

section \<open>Pumping and feeding\<close>

fun on_events ::
    "crypto_crate \<Rightarrow> hex_crate \<Rightarrow> 'net ipnet_crate \<Rightarrow> bool \<Rightarrow> nat \<Rightarrow> 'net Hub \<Rightarrow> SessionEvent list \<Rightarrow> 'net Hub \<times> 'net spawned list" where
  "on_events cr h c rt r hub [] = (hub, [])"
| "on_events cr h c rt r hub (ev # evs) =
     (let (hub, ts) = on_session_event cr h c rt r hub ev; (hub, ts') = on_events cr h c rt r hub evs in (hub, ts @ ts'))"

text \<open>The rounds of \<open>pump_session\<close>.\<close>

fun pump_rounds ::
    "crypto_crate \<Rightarrow> hex_crate \<Rightarrow> 'net ipnet_crate \<Rightarrow> bool \<Rightarrow> nat \<Rightarrow> nat \<Rightarrow> 'net Hub \<Rightarrow> 'net Hub \<times> 'net spawned list" where
  "pump_rounds cr h c rt r 0 hub = (hub, [])"
| "pump_rounds cr h c rt r (Suc n) hub =
     (let (e, evs) = drain_events (entry_at hub r); hub = on_entry hub r (\<lambda>_. e) in
      if evs = [] \<and> \<not> needs_pump e then (hub, [])
      else
        let (hub, ts) = on_events cr h c rt r hub evs in
        if \<not> needs_pump (entry_at hub r) then (hub, ts)
        else let (hub, ts') = pump_rounds cr h c rt r n hub in (hub, ts @ ts'))"

definition pump_session ::
    "crypto_crate \<Rightarrow> hex_crate \<Rightarrow> 'net ipnet_crate \<Rightarrow> bool \<Rightarrow> 'net Hub \<Rightarrow> nat \<Rightarrow> 'net Hub \<times> 'net spawned list" where
  "pump_session cr h c rt hub r = pump_rounds cr h c rt r MAX_PUMP_ROUNDS hub"

definition feed_one :: "crypto_crate \<Rightarrow> hex_crate \<Rightarrow> nat \<Rightarrow> 'net Hub \<Rightarrow> bytes \<Rightarrow> 'net Hub" where
  "feed_one cr h r hub env =
     (case on_engine hub r (\<lambda>s. feed cr h s env) of
        (hub, Inl (UnknownStream sid)) \<Rightarrow> fst (on_engine hub r (\<lambda>s. send_reset cr s sid ProtocolError))
      | (hub, _) \<Rightarrow> hub)"

definition feed_records ::
    "crypto_crate \<Rightarrow> hex_crate \<Rightarrow> 'net ipnet_crate \<Rightarrow> bool \<Rightarrow> 'net Hub \<Rightarrow> nat \<Rightarrow> bytes list \<Rightarrow> 'net Hub \<times> 'net spawned list" where
  "feed_records cr h c rt hub r envs = pump_session cr h c rt (foldl (feed_one cr h r) hub envs) r"

section \<open>What every handler keeps\<close>

text \<open>Who a session belongs to, fixed when it is created.\<close>

definition entry_id :: "SessionEntry \<Rightarrow> bytes \<times> bytes \<times> string \<times> string" where
  "entry_id e = (se_session_id e, se_epoch e, se_node_id e, se_key_id e)"

text \<open>A lease was there before or belongs to a session of the Hub: its node, session and epoch are the session's.\<close>

definition lease_origin :: "'net Hub \<Rightarrow> string \<Rightarrow> NodeLease \<Rightarrow> bool" where
  "lease_origin hub n l \<longleftrightarrow>
     (\<exists>e \<in> set (ss_heap (hb_sessions hub)). se_node_id e = n \<and> se_session_id e = nl_session_id l \<and> se_epoch e = nl_epoch l)"

definition leases_from :: "'net Hub \<Rightarrow> Registry \<Rightarrow> bool" where
  "leases_from hub reg \<longleftrightarrow>
     (reg_inv (hb_registry hub) \<longrightarrow> reg_inv reg \<and>
     (\<forall>n l. map_of (reg_nodes reg) n = Some l \<longrightarrow>
        (\<exists>l0. map_of (reg_nodes (hb_registry hub)) n = Some l0 \<and> nl_session_id l0 = nl_session_id l \<and> nl_epoch l0 = nl_epoch l)
        \<or> lease_origin hub n l))"

text \<open>A relation that every method of an engine keeps holds between the engines of the Hub before and after any handler;
  beside it, no session changes its owner, the table only shrinks and leases come from sessions.\<close>

definition heap_rel :: "(Session \<Rightarrow> Session \<Rightarrow> bool) \<Rightarrow> 'net Hub \<Rightarrow> 'net Hub \<Rightarrow> bool" where
  "heap_rel rel hub hub' \<longleftrightarrow>
     map entry_id (ss_heap (hb_sessions hub')) = map entry_id (ss_heap (hb_sessions hub))
   \<and> (\<forall>r < length (ss_heap (hb_sessions hub)). rel (se_engine (entry_at hub r)) (se_engine (entry_at hub' r)))
   \<and> map_of (ss_table (hb_sessions hub')) \<subseteq>\<^sub>m map_of (ss_table (hb_sessions hub))
   \<and> hb_secrets hub' = hb_secrets hub \<and> hb_hub_id hub' = hb_hub_id hub \<and> leases_from hub (hb_registry hub')"

lemma lease_origin_cong:
  fixes hub hub' :: "'net Hub"
  assumes "map entry_id (ss_heap (hb_sessions hub')) = map entry_id (ss_heap (hb_sessions hub))"
  shows "lease_origin hub' n l = lease_origin hub n l"
proof -
  have eq: "lease_origin hb n l \<longleftrightarrow> (\<exists>k. (nl_session_id l, nl_epoch l, n, k) \<in> set (map entry_id (ss_heap (hb_sessions hb))))"
    for hb :: "'net Hub" by (auto simp: lease_origin_def entry_id_def image_iff) (metis)
  show ?thesis unfolding eq [of hub'] eq [of hub] assms ..
qed

lemma leases_from_refl: "leases_from hub (hb_registry hub)"
  by (auto simp: leases_from_def)

lemma leases_from_trans:
  fixes hub hub' :: "'net Hub"
  assumes "leases_from hub (hb_registry hub')" "leases_from hub' reg"
    and "map entry_id (ss_heap (hb_sessions hub')) = map entry_id (ss_heap (hb_sessions hub))"
  shows "leases_from hub reg"
proof -
  have lo: "lease_origin hub' n l = lease_origin hub n l" for n l by (rule lease_origin_cong [OF assms(3)])
  have same: "nl_session_id l0 = nl_session_id l \<Longrightarrow> nl_epoch l0 = nl_epoch l \<Longrightarrow> lease_origin hub n l0 = lease_origin hub n l" for n l l0
    by (simp add: lease_origin_def)
  show ?thesis
    using assms(1,2) unfolding leases_from_def lo by (metis same)
qed

lemma register_ready_ids:
  "reg_inv reg \<Longrightarrow> map_of (reg_nodes (fst (register_ready reg n sid ep))) m = Some l \<Longrightarrow>
   m = n \<and> nl_session_id l = sid \<and> nl_epoch l = ep \<or> m \<noteq> n \<and> map_of (reg_nodes reg) m = Some l"
  by (auto simp: register_ready_def reg_inv_def Let_def map_of_bt_insert split: if_splits)

lemma publish_ids:
  "reg_inv reg \<Longrightarrow> map_of (reg_nodes (fst (publish reg n sid ep nm pr tg))) m = Some l \<Longrightarrow>
   \<exists>l0. map_of (reg_nodes reg) m = Some l0 \<and> nl_session_id l0 = nl_session_id l \<and> nl_epoch l0 = nl_epoch l"
  by (auto simp: publish_def owns_iff reg_inv_def Let_def map_of_bt_insert split: if_splits option.splits)

lemma publish_all_ids:
  "reg_inv reg \<Longrightarrow> map_of (reg_nodes (publish_all reg e ss)) m = Some l \<Longrightarrow>
   \<exists>l0. map_of (reg_nodes reg) m = Some l0 \<and> nl_session_id l0 = nl_session_id l \<and> nl_epoch l0 = nl_epoch l"
proof (induction ss arbitrary: reg)
  case (Cons s ss)
  let ?reg = "fst (publish reg (se_node_id e) (se_session_id e) (se_epoch e) (sr_name s) (sr_proto s) (sr_target s))"
  have "reg_inv ?reg"
    using reg_step_inv [OF Cons.prems(1), of "Publish (se_node_id e) (se_session_id e) (se_epoch e) (sr_name s) (sr_proto s) (sr_target s)"]
    by simp
  moreover have "map_of (reg_nodes (publish_all ?reg e ss)) m = Some l" using Cons.prems(2) by (simp add: publish_all_def)
  ultimately show ?case using Cons.IH publish_ids [OF Cons.prems(1)] by metis
qed (simp add: publish_all_def)

lemma unregister_ids: "map_of (reg_nodes (fst (unregister reg n sid ep))) m = Some l \<Longrightarrow> map_of (reg_nodes reg) m = Some l"
  by (auto simp: unregister_def map_of_bt_remove split: if_splits)

lemma registry_calls_inv:
  "reg_inv reg \<Longrightarrow> reg_inv (fst (register_ready reg n sid ep))" "reg_inv reg \<Longrightarrow> reg_inv (fst (unregister reg n sid ep))"
  "reg_inv reg \<Longrightarrow> reg_inv (publish_all reg e ss)"
proof -
  show "reg_inv reg \<Longrightarrow> reg_inv (fst (register_ready reg n sid ep))" using reg_step_inv [of reg "Register n sid ep"] by simp
  show "reg_inv reg \<Longrightarrow> reg_inv (fst (unregister reg n sid ep))" using reg_step_inv [of reg "Unregister n sid ep"] by simp
  have "reg_inv reg \<Longrightarrow> reg_inv (fst (publish reg m sid ep nm pr tg))" for reg m sid ep nm pr tg
    using reg_step_inv [of reg "Publish m sid ep nm pr tg"] by simp
  then show "reg_inv reg \<Longrightarrow> reg_inv (publish_all reg e ss)"
    unfolding publish_all_def by (induction ss arbitrary: reg) simp_all
qed

lemma on_entry_simps [simp]:
  "hb_secrets (on_entry hub r f) = hb_secrets hub" "hb_hub_id (on_entry hub r f) = hb_hub_id hub"
  "hb_registry (on_entry hub r f) = hb_registry hub" "ss_table (hb_sessions (on_entry hub r f)) = ss_table (hb_sessions hub)"
  "ss_heap (hb_sessions (on_entry hub r f)) = (ss_heap (hb_sessions hub))[r := f (entry_at hub r)]"
  by (simp_all add: on_entry_def with_heap_def update_entry_def)

lemma on_engine_entry: "fst (on_engine hub r f) = on_entry hub r (\<lambda>e. e\<lparr>se_engine := fst (f (se_engine (entry_at hub r)))\<rparr>)"
  by (auto simp: on_engine_def engine_call_def on_entry_def split: prod.splits)

lemma hello_leases:
  assumes "r < length (ss_heap (hb_sessions hub))"
  shows "leases_from hub (publish_all (fst (register_ready (hb_registry hub) (se_node_id (entry_at hub r))
      (se_session_id (entry_at hub r)) (se_epoch (entry_at hub r)))) (entry_at hub r) ss)"
proof -
  let ?e = "entry_at hub r"
  let ?reg = "fst (register_ready (hb_registry hub) (se_node_id ?e) (se_session_id ?e) (se_epoch ?e))"
  have mem: "?e \<in> set (ss_heap (hb_sessions hub))" using assms by simp
  show ?thesis unfolding leases_from_def
  proof (intro impI conjI allI)
    assume inv: "reg_inv (hb_registry hub)"
    have i1: "reg_inv ?reg" by (rule registry_calls_inv(1) [OF inv])
    show "reg_inv (publish_all ?reg ?e ss)" by (rule registry_calls_inv(3) [OF i1])
    fix n l
    assume "map_of (reg_nodes (publish_all ?reg ?e ss)) n = Some l"
    from publish_all_ids [OF i1 this] obtain l1 where l1: "map_of (reg_nodes ?reg) n = Some l1"
      "nl_session_id l1 = nl_session_id l" "nl_epoch l1 = nl_epoch l" by blast
    from register_ready_ids [OF inv l1(1)] l1(2,3) mem
    show "(\<exists>l0. map_of (reg_nodes (hb_registry hub)) n = Some l0 \<and> nl_session_id l0 = nl_session_id l \<and> nl_epoch l0 = nl_epoch l)
        \<or> lease_origin hub n l"
      by (auto simp: lease_origin_def)
  qed
qed

context session_frame
begin

lemma heap_refl: "heap_rel rel hub hub"
  by (simp add: heap_rel_def rel_refl leases_from_refl)

lemma heap_trans: "heap_rel rel hub hub' \<Longrightarrow> heap_rel rel hub' hub'' \<Longrightarrow> heap_rel rel hub hub''"
proof -
  assume a: "heap_rel rel hub hub'" and b: "heap_rel rel hub' hub''"
  have l: "length (ss_heap (hb_sessions hub')) = length (ss_heap (hb_sessions hub))"
    using a unfolding heap_rel_def by (metis length_map)
  show ?thesis using a b l unfolding heap_rel_def
    by (auto intro: rel_trans map_le_trans leases_from_trans)
qed

lemma heap_set:
  assumes "rel (se_engine (entry_at hub r)) (se_engine (f (entry_at hub r)))" "entry_id (f (entry_at hub r)) = entry_id (entry_at hub r)"
  shows "heap_rel rel hub (on_entry hub r f)"
proof -
  have "map entry_id ((ss_heap (hb_sessions hub))[r := f (entry_at hub r)]) = map entry_id (ss_heap (hb_sessions hub))"
    using assms(2) by (metis list_update_id map_update)
  moreover have "rel (se_engine (entry_at hub q)) (se_engine ((ss_heap (hb_sessions hub))[r := f (entry_at hub r)] ! q))"
    if "q < length (ss_heap (hb_sessions hub))" for q
    using assms(1) that by (cases "q = r") (simp_all add: rel_refl)
  ultimately show ?thesis by (simp add: heap_rel_def leases_from_refl)
qed

lemma heap_registry: "leases_from hub reg \<Longrightarrow> heap_rel rel hub (hub\<lparr>hb_registry := reg\<rparr>)"
  by (simp add: heap_rel_def rel_refl)

lemma heap_table: "map_of t \<subseteq>\<^sub>m map_of (ss_table (hb_sessions hub)) \<Longrightarrow> heap_rel rel hub (hub\<lparr>hb_sessions := (hb_sessions hub)\<lparr>ss_table := t\<rparr>\<rparr>)"
  by (simp add: heap_rel_def rel_refl leases_from_refl)

lemma heap_entry: "(\<And>e. rel (se_engine e) (se_engine (f e))) \<Longrightarrow> (\<And>e. entry_id (f e) = entry_id e) \<Longrightarrow> heap_rel rel hub (on_entry hub r f)"
  by (rule heap_set)

lemma heap_engine: "(\<And>s. rel s (fst (f s))) \<Longrightarrow> heap_rel rel hub (fst (on_engine hub r f))"
  unfolding on_engine_entry by (rule heap_set) (simp_all add: entry_id_def)

lemma heap_flush: "heap_rel rel hub (on_entry hub r flush_outbound)"
  by (rule heap_entry) (simp_all add: rel_refl entry_id_def flush_outbound_def)

lemma heap_put:
  "se_engine e = se_engine (entry_at hub r) \<Longrightarrow> entry_id e = entry_id (entry_at hub r) \<Longrightarrow> heap_rel rel hub (on_entry hub r (\<lambda>_. e))"
  by (rule heap_set) (simp_all add: rel_refl)

lemma heap_foldl: "(\<And>hub x. heap_rel rel hub (f hub x)) \<Longrightarrow> heap_rel rel hub (foldl f hub xs)"
  by (induction xs arbitrary: hub) (auto intro: heap_refl heap_trans)

lemma rel_call: "rel s (fst (send_open_result cr h s f))" "rel s (fst (send_hello_ok cr h s g))" "rel s (fst (send_bye cr s t))"
  "rel s (fst (send_pong cr s))" "rel s (fst (send_peer_list cr s md))" "rel s (fst (send_reset cr s sid rs))"
  using rel_step [of s h "CSendOpenResult f"] rel_step [of s h "CSendHelloOk g"] rel_step [of s h "CSendBye t"]
    rel_step [of s h CSendPong] rel_step [of s h "CSendPeerList md"] rel_step [of s h "CSendReset sid rs"] by simp_all

lemma heap_directory: "heap_rel rel hub (send_directory cr c hub r)"
proof -
  let ?f = "\<lambda>s. send_peer_list cr s (peer_list_canonical (peer_list c (hb_registry hub) (se_node_id (entry_at hub r)) (hb_acl hub)))"
  obtain hub1 res where s: "on_engine hub r ?f = (hub1, res)" by fastforce
  have "heap_rel rel hub hub1" using heap_engine [of ?f hub r] rel_call(5) s by (metis fst_conv)
  then show ?thesis using s heap_trans [OF _ heap_flush] by (cases res) (auto simp: send_directory_def Let_def intro: heap_refl)
qed

lemma heap_broadcast: "heap_rel rel hub (broadcast_peer_lists cr c hub)"
  unfolding broadcast_peer_lists_def by (rule heap_foldl [OF heap_directory])

lemma heap_close: "heap_rel rel hub (close_session cr c hub sid ep)"
proof (cases "sessions_get (hb_sessions hub) sid")
  case (Some r)
  obtain ss removed where rm: "remove_if_epoch (hb_sessions hub) sid ep = (ss, removed)" by fastforce
  define t where "t = ss_table ss"
  have t: "ss = (hb_sessions hub)\<lparr>ss_table := t\<rparr>" "map_of t \<subseteq>\<^sub>m map_of (ss_table (hb_sessions hub))"
    using rm by (auto simp: t_def remove_if_epoch_def delete_conv' map_le_def restrict_map_def split: option.splits if_splits)
  let ?g = "\<lambda>e. close_streams (e\<lparr>se_closed := True, se_engine := set_state (se_engine e) StClosed\<rparr>)"
  let ?hub1 = "on_entry (hub\<lparr>hb_sessions := ss\<rparr>) r ?g"
  obtain reg res where un: "unregister (hb_registry ?hub1) (se_node_id (entry_at ?hub1 r)) sid ep = (reg, res)" by fastforce
  have "heap_rel rel hub (hub\<lparr>hb_sessions := ss\<rparr>)" unfolding t(1) by (rule heap_table [OF t(2)])
  moreover have "heap_rel rel (hub\<lparr>hb_sessions := ss\<rparr>) ?hub1"
    by (rule heap_entry) (simp_all add: close_streams_def rel_set_state entry_id_def)
  moreover have "heap_rel rel ?hub1 (?hub1\<lparr>hb_registry := reg\<rparr>)"
  proof (rule heap_registry)
    have reg: "reg = fst (unregister (hb_registry ?hub1) (se_node_id (entry_at ?hub1 r)) sid ep)" using un by simp
    show "leases_from ?hub1 reg" unfolding leases_from_def reg using unregister_ids registry_calls_inv(2) by blast
  qed
  ultimately have "heap_rel rel hub (?hub1\<lparr>hb_registry := reg\<rparr>)" by (blast intro: heap_trans)
  with heap_broadcast [of "?hub1\<lparr>hb_registry := reg\<rparr>" c] show ?thesis
    using Some rm un by (auto simp: close_session_def Let_def intro: heap_refl heap_trans split: prod.splits)
qed (simp add: close_session_def heap_refl)

lemma heap_reap: "heap_rel rel hub (fst (reap_expired_sessions cr c hub now))"
  unfolding reap_expired_sessions_def Let_def fst_conv by (rule heap_foldl [OF heap_close])

lemma heap_refuse: "heap_rel rel hub (refuse_open cr h hub r f st detail)"
  unfolding refuse_open_def by (rule heap_trans [OF heap_engine heap_flush]) (rule rel_call)

lemma heap_hello:
  assumes r: "r < length (ss_heap (hb_sessions hub))"
  shows "heap_rel rel hub (on_hello cr h c hub r f)"
proof (cases "negotiate_capabilities (hello_capabilities f)")
  case (Inl e)
  have "heap_rel rel hub (fst (on_engine hub r (\<lambda>s. send_bye cr s ''unsupported capability'')))" by (rule heap_engine) (rule rel_call)
  with Inl show ?thesis unfolding on_hello_def close_entry_def by (auto intro: heap_trans heap_close)
next
  case (Inr caps)
  let ?e = "entry_at hub r"
  define hub1 where "hub1 = on_entry (hub\<lparr>hb_registry := publish_all (fst (register_ready (hb_registry hub) (se_node_id ?e)
      (se_session_id ?e) (se_epoch ?e))) ?e (hello_services f)\<rparr>) r (\<lambda>e. e\<lparr>se_engine := set_state (se_engine e) StHelloPending\<rparr>)"
  let ?f = "\<lambda>s. send_hello_ok cr h s \<lparr>hok_request_id = hello_request_id f, hok_capabilities = caps\<rparr>"
  obtain hub2 res where s: "on_engine hub1 r ?f = (hub2, res)" by fastforce
  have "heap_rel rel (hub\<lparr>hb_registry := x\<rparr>) (on_entry (hub\<lparr>hb_registry := x\<rparr>) r (\<lambda>e. e\<lparr>se_engine := set_state (se_engine e) StHelloPending\<rparr>))" for x
    by (rule heap_entry) (simp_all add: rel_set_state entry_id_def)
  then have "heap_rel rel hub hub1" unfolding hub1_def by (rule heap_trans [OF heap_registry [OF hello_leases [OF r]]])
  moreover have "heap_rel rel hub1 hub2" using heap_engine [of ?f hub1 r] rel_call(2) s by (metis fst_conv)
  ultimately have "heap_rel rel hub hub2" by (rule heap_trans)
  moreover have "heap_rel rel hub2 (broadcast_peer_lists cr c (on_entry hub2 r flush_outbound))"
    by (rule heap_trans [OF heap_flush heap_broadcast])
  ultimately show ?thesis using Inr s heap_close [of hub2]
    by (cases res) (auto simp: on_hello_def Let_def hub1_def [symmetric] close_entry_def intro: heap_trans)
qed

lemma claim_engine: "claim_stream e sid = (e', ok) \<Longrightarrow> se_engine e' = se_engine e"
  "claim_stream e sid = (e', ok) \<Longrightarrow> entry_id e' = entry_id e"
  by (auto simp: claim_stream_def entry_id_def split: if_splits)

lemma heap_claim: "claim_stream (entry_at hub r) sid = (e, ok) \<Longrightarrow> heap_rel rel hub (on_entry hub r (\<lambda>_. e))"
  by (rule heap_put) (simp_all add: claim_engine)

lemma heap_exit: "heap_rel rel hub (fst (start_exit cr h hub r f host port rt))"
  by (auto simp: start_exit_def Let_def intro: heap_refuse heap_refl heap_claim split: prod.split)

lemma heap_relay: "heap_rel rel hub (fst (spawn_relay_with_via cr h hub r f nd hops rt))"
  by (auto simp: spawn_relay_with_via_def Let_def intro: heap_refuse heap_refl heap_claim split: prod.split option.split)

lemma heap_open: "heap_rel rel hub (fst (on_open cr h c rt hub r f))"
  using heap_exit heap_relay heap_refuse
  by (auto simp: on_open_def exit_spawned_def bridge_spawned_def spawn_hub_exit_def spawn_udp_exit_def spawn_relay_def
      spawn_relay_chain_def split_beta split: sum.split ExitPlan.split list.split)

lemma heap_route: "heap_rel rel hub (fst (on_route hub r sid ev))"
proof -
  obtain e ok where e: "route_stream_event (entry_at hub r) sid ev = (e, ok)" by fastforce
  then have "se_engine e = se_engine (entry_at hub r)" "entry_id e = entry_id (entry_at hub r)"
    by (auto simp: route_stream_event_def entry_id_def split: option.splits if_splits)
  from heap_put [OF this] e show ?thesis by (simp add: on_route_def)
qed

lemma heap_stream_event: "heap_rel rel hub (on_stream_event cr hub r ev)"
proof (cases "event_stream ev")
  case (Some sid)
  obtain hub1 ok where o: "on_route hub r sid ev = (hub1, ok)" by fastforce
  have a: "heap_rel rel hub hub1" using heap_route [of hub r sid ev] o by simp
  have b: "heap_rel rel hub1 (on_entry (fst (on_engine hub1 r (\<lambda>s. send_reset cr s sid ProtocolError))) r flush_outbound)"
    by (rule heap_trans [OF heap_engine heap_flush]) (rule rel_call)
  have "on_stream_event cr hub r ev \<in> {hub1, on_entry (fst (on_engine hub1 r (\<lambda>s. send_reset cr s sid ProtocolError))) r flush_outbound}"
    using Some o by (cases ok) (auto simp: on_stream_event_def)
  with a heap_trans [OF a b] show ?thesis by auto
qed (simp add: on_stream_event_def heap_refl)

lemma heap_length: "heap_rel rel hub hub' \<Longrightarrow> length (ss_heap (hb_sessions hub')) = length (ss_heap (hb_sessions hub))"
  unfolding heap_rel_def by (metis length_map)

lemma heap_event: "r < length (ss_heap (hb_sessions hub)) \<Longrightarrow> heap_rel rel hub (fst (on_session_event cr h c rt r hub ev))"
proof (cases ev)
  case EvPing
  then show ?thesis using heap_engine [of "send_pong cr" hub r] rel_call(4) by simp
next
  case (EvDatagram md data)
  then show ?thesis using heap_route by (auto simp: route_datagram_def heap_refl split: sum.split)
qed (simp_all add: heap_hello heap_open heap_close heap_stream_event close_entry_def)

lemma heap_events: "r < length (ss_heap (hb_sessions hub)) \<Longrightarrow> heap_rel rel hub (fst (on_events cr h c rt r hub evs))"
proof (induction evs arbitrary: hub)
  case (Cons ev evs)
  have a: "heap_rel rel hub (fst (on_session_event cr h c rt r hub ev))" by (rule heap_event [OF Cons.prems])
  have "r < length (ss_heap (hb_sessions (fst (on_session_event cr h c rt r hub ev))))" using heap_length [OF a] Cons.prems by simp
  from heap_trans [OF a Cons.IH [OF this]] show ?case by (simp add: Let_def split_beta)
qed (simp add: heap_refl)

lemma heap_rounds: "r < length (ss_heap (hb_sessions hub)) \<Longrightarrow> heap_rel rel hub (fst (pump_rounds cr h c rt r n hub))"
proof (induction n arbitrary: hub)
  case (Suc n)
  obtain e evs where d: "drain_events (entry_at hub r) = (e, evs)" by fastforce
  then have "se_engine e = se_engine (entry_at hub r)" "entry_id e = entry_id (entry_at hub r)"
    by (auto simp: drain_events_def flush_outbound_def entry_id_def Let_def)
  from heap_put [OF this] have a: "heap_rel rel hub (on_entry hub r (\<lambda>_. e))" .
  let ?h = "fst (on_events cr h c rt r (on_entry hub r (\<lambda>_. e)) evs)"
  have r1: "r < length (ss_heap (hb_sessions (on_entry hub r (\<lambda>_. e))))" using heap_length [OF a] Suc.prems by simp
  have b: "heap_rel rel hub ?h" by (rule heap_trans [OF a heap_events [OF r1]])
  have "r < length (ss_heap (hb_sessions ?h))" using heap_length [OF b] Suc.prems by simp
  from heap_trans [OF b Suc.IH [OF this]] a b d show ?case by (simp add: Let_def split_beta)
qed (simp add: heap_refl)

lemma heap_feed_one: "heap_rel rel hub (feed_one cr h r hub env)"
proof -
  obtain hub1 res where o: "on_engine hub r (\<lambda>s. feed cr h s env) = (hub1, res)" by fastforce
  have a: "heap_rel rel hub hub1" using heap_engine [of "\<lambda>s. feed cr h s env" hub r] rel_feed o by (metis fst_conv)
  have b: "heap_rel rel hub1 (fst (on_engine hub1 r (\<lambda>s. send_reset cr s sid ProtocolError)))" for sid
    by (rule heap_engine) (rule rel_call)
  have "feed_one cr h r hub env = hub1 \<or> (\<exists>sid. feed_one cr h r hub env = fst (on_engine hub1 r (\<lambda>s. send_reset cr s sid ProtocolError)))"
    using o by (auto simp: feed_one_def split: sum.split SessionError.split)
  with a heap_trans [OF a b] show ?thesis by auto
qed

lemma heap_feed:
  assumes "r < length (ss_heap (hb_sessions hub))"
  shows "heap_rel rel hub (fst (feed_records cr h c rt hub r envs))"
proof -
  have a: "heap_rel rel hub (foldl (feed_one cr h r) hub envs)" by (rule heap_foldl [OF heap_feed_one])
  have "r < length (ss_heap (hb_sessions (foldl (feed_one cr h r) hub envs)))" using heap_length [OF a] assms by simp
  from heap_trans [OF a heap_rounds [OF this]] show ?thesis unfolding feed_records_def pump_session_def .
qed

end

section \<open>The Hub over time\<close>

text \<open>Everything that changes the sessions: authentication, teardown, the reaper, records fed by a carrier, and the calls
  the stream tasks make on the engine of their session.\<close>

datatype hub_op =
    HAuth Now fresh Record IpAddr
  | HClose bytes bytes
  | HReap Now
  | HFeed nat "bytes list"
  | HTask nat session_call

primrec hub_step ::
    "(rat \<Rightarrow> rat) \<Rightarrow> crypto_crate \<Rightarrow> hex_crate \<Rightarrow> 'net ipnet_crate \<Rightarrow> 'net Hub \<Rightarrow> hub_op \<Rightarrow> 'net Hub" where
  "hub_step rnd cr h c hub (HAuth now fr rc ip) = fst (authenticate rnd cr h hub now fr rc ip)"
| "hub_step rnd cr h c hub (HClose sid ep) = close_session cr c hub sid ep"
| "hub_step rnd cr h c hub (HReap now) = fst (reap_expired_sessions cr c hub now)"
| "hub_step rnd cr h c hub (HFeed r envs) =
     (if r < length (ss_heap (hb_sessions hub)) then fst (feed_records cr h c True hub r envs) else hub)"
| "hub_step rnd cr h c hub (HTask r call) = on_entry hub r (\<lambda>e. e\<lparr>se_engine := session_step cr h (se_engine e) call\<rparr>)"

definition hub_run ::
    "(rat \<Rightarrow> rat) \<Rightarrow> crypto_crate \<Rightarrow> hex_crate \<Rightarrow> 'net ipnet_crate \<Rightarrow> 'net Hub \<Rightarrow> hub_op list \<Rightarrow> 'net Hub" where
  "hub_run rnd cr h c = foldl (hub_step rnd cr h c)"

text \<open>The random source returns ids, epochs and nonces of their length.\<close>

primrec hub_op_ok :: "hub_op \<Rightarrow> bool" where
  "hub_op_ok (HAuth now fr rc ip) \<longleftrightarrow> fresh_ok fr"
| "hub_op_ok (HClose sid ep) \<longleftrightarrow> True"
| "hub_op_ok (HReap now) \<longleftrightarrow> True"
| "hub_op_ok (HFeed r envs) \<longleftrightarrow> True"
| "hub_op_ok (HTask r call) \<longleftrightarrow> True"

definition entry_fine :: "crypto_crate \<Rightarrow> 'net Hub \<Rightarrow> SessionEntry \<Rightarrow> bool" where
  "entry_fine cr hub e \<longleftrightarrow>
     session_inv (se_engine e) \<and> sealed_by_session cr (se_engine e)
   \<and> config (se_engine e) = SessionConfig_new (hb_hub_id hub) (se_node_id e) (se_session_id e) (se_epoch e) HubSide
   \<and> (\<exists>psk. secrets_get (hb_secrets hub) (se_key_id e) (se_node_id e) = Some psk)"

definition hub_inv :: "crypto_crate \<Rightarrow> 'net Hub \<Rightarrow> bool" where
  "hub_inv cr hub \<longleftrightarrow>
     reg_inv (hb_registry hub)
   \<and> (\<forall>e \<in> set (ss_heap (hb_sessions hub)). entry_fine cr hub e)
   \<and> (\<forall>sid r. sessions_get (hb_sessions hub) sid = Some r \<longrightarrow>
        r < length (ss_heap (hb_sessions hub)) \<and> se_session_id (entry_at hub r) = sid)
   \<and> (\<forall>n l. map_of (reg_nodes (hb_registry hub)) n = Some l \<longrightarrow> lease_origin hub n l)"

lemma nth_entry_id:
  assumes "map entry_id es' = map entry_id es" "r < length es"
  shows "r < length es'" "entry_id (es' ! r) = entry_id (es ! r)"
proof -
  have "length es' = length es" using assms(1) by (metis length_map)
  with assms(2) show r: "r < length es'" by simp
  from assms(1) have "map entry_id es' ! r = map entry_id es ! r" by simp
  with r assms(2) show "entry_id (es' ! r) = entry_id (es ! r)" by simp
qed

lemma hub_inv_frame:
  assumes inv: "hub_inv cr hub"
    and si: "heap_rel (\<lambda>s s'. session_inv s \<and> sealed_by_session cr s \<longrightarrow> session_inv s' \<and> sealed_by_session cr s') hub hub'"
    and sx: "heap_rel (\<lambda>s s'. config s' = config s \<and> ctx s' = ctx s \<and> keys s' = keys s \<and> prefix (outbound s) (outbound s')
      \<and> prefix (events s) (events s')) hub hub'"
  shows "hub_inv cr hub'"
proof -
  let ?es = "ss_heap (hb_sessions hub)" and ?es' = "ss_heap (hb_sessions hub')"
  have ids: "map entry_id ?es' = map entry_id ?es" using si by (simp add: heap_rel_def)
  then have len: "length ?es' = length ?es" by (metis length_map)
  have st: "hb_secrets hub' = hb_secrets hub" "hb_hub_id hub' = hb_hub_id hub" using si by (simp_all add: heap_rel_def)
  have "entry_fine cr hub' (?es' ! r)" if "r < length ?es'" for r
  proof -
    have r: "r < length ?es" using that len by simp
    with inv have "entry_fine cr hub (?es ! r)" by (simp add: hub_inv_def)
    moreover have "entry_id (?es' ! r) = entry_id (?es ! r)" by (rule nth_entry_id(2) [OF ids r])
    ultimately show ?thesis using si sx r st by (auto simp: entry_fine_def heap_rel_def entry_id_def)
  qed
  then have "\<forall>e \<in> set ?es'. entry_fine cr hub' e" by (auto simp: in_set_conv_nth)
  moreover have "r < length ?es' \<and> se_session_id (?es' ! r) = sid" if "sessions_get (hb_sessions hub') sid = Some r" for sid r
  proof -
    have "sessions_get (hb_sessions hub) sid = Some r"
      using that si by (auto simp: heap_rel_def sessions_get_def map_le_def dom_def)
    with inv have "r < length ?es" "se_session_id (?es ! r) = sid" by (auto simp: hub_inv_def)
    with nth_entry_id [OF ids] show ?thesis by (auto simp: entry_id_def)
  qed
  moreover have "lease_origin hub' n l" if "map_of (reg_nodes (hb_registry hub')) n = Some l" for n l
  proof -
    have "leases_from hub (hb_registry hub')" using si by (simp add: heap_rel_def)
    with inv that obtain l0 where "lease_origin hub n l \<or> lease_origin hub n l0 \<and> nl_session_id l0 = nl_session_id l \<and> nl_epoch l0 = nl_epoch l"
      unfolding leases_from_def hub_inv_def by metis
    then have "lease_origin hub n l" by (auto simp: lease_origin_def)
    then show ?thesis by (simp add: lease_origin_cong [OF ids])
  qed
  moreover have "reg_inv (hb_registry hub')" using inv si by (simp add: heap_rel_def leases_from_def hub_inv_def)
  ultimately show ?thesis by (simp add: hub_inv_def)
qed

lemma authenticate_refused:
  assumes "authenticate rnd cr h hub now fr rc ip = (hub', Inl e)"
  shows "hb_sessions hub' = hb_sessions hub \<and> hb_registry hub' = hb_registry hub \<and> hb_secrets hub' = hb_secrets hub
    \<and> hb_hub_id hub' = hb_hub_id hub"
  using assms unfolding authenticate_def
  by (auto simp: Let_def split: if_splits sum.splits prod.splits option.splits)

lemma new_session_fine:
  assumes "length ep = 16"
  shows "session_inv (set_state (Session_new (SessionConfig_new hid nd sid ep HubSide) ks) StBinding)"
    "sealed_by_session cr (set_state (Session_new (SessionConfig_new hid nd sid ep HubSide) ks) StBinding)"
    "config (set_state (Session_new (SessionConfig_new hid nd sid ep HubSide) ks) StBinding) = SessionConfig_new hid nd sid ep HubSide"
proof -
  let ?s = "Session_new (SessionConfig_new hid nd sid ep HubSide) ks"
  have "length (cfg_session_epoch (SessionConfig_new hid nd sid ep HubSide)) = SESSION_EPOCH_LEN"
    using assms by (simp add: SessionConfig_new_def limit_defs)
  from session_inv_new [OF this] have "session_inv ?s" "sealed_by_session cr ?s" by auto
  then show "session_inv (set_state ?s StBinding)" "sealed_by_session cr (set_state ?s StBinding)"
    using si.rel_set_state [where s = ?s and cr = cr] by blast+
  show "config (set_state ?s StBinding) = SessionConfig_new hid nd sid ep HubSide"
    by (simp add: set_state_def emit_def Session_new_def)
qed

lemma create_session_hub:
  fixes hub hub' :: "'net Hub"
  assumes "create_session cr h (hub\<lparr>hb_guards := g, hb_nonces := ns\<rparr>) now fr psk flds caps = (hub', r, ok)"
  obtains e ks where
    "ss_heap (hb_sessions hub') = ss_heap (hb_sessions hub) @ [e]"
    "ss_table (hb_sessions hub') = hm_insert (se_session_id e) (length (ss_heap (hb_sessions hub))) (ss_table (hb_sessions hub))"
    "hb_registry hub' = hb_registry hub" "hb_secrets hub' = hb_secrets hub" "hb_hub_id hub' = hb_hub_id hub"
    "se_node_id e = auth_node_id flds" "se_key_id e = auth_key_id flds" "se_epoch e = fr_epoch fr" "se_session_id e = fr_session_id fr"
    "se_engine e = set_state (Session_new (SessionConfig_new (hb_hub_id hub) (se_node_id e) (se_session_id e) (se_epoch e) HubSide) ks) StBinding"
proof -
  define authok where "authok = \<lparr>aok_session_id = fr_session_id fr, aok_session_epoch = fr_epoch fr,
    aok_attempt_id = auth_attempt_id flds, aok_server_nonce = fr_nonce fr,
    aok_expires_at = wrap_i64 (wall_secs now + hb_session_ttl hub), aok_capabilities = caps\<rparr>"
  define ks where "ks = session_keys cr h psk flds authok"
  define e where "e = entry_new (fr_session_id fr) (fr_epoch fr) (auth_node_id flds) (auth_key_id flds) (aok_expires_at authok) ks
    (set_state (Session_new (SessionConfig_new (hb_hub_id hub) (auth_node_id flds) (fr_session_id fr) (fr_epoch fr) HubSide) ks) StBinding)"
  have "hub' = hub\<lparr>hb_guards := g, hb_nonces := ns, hb_sessions := fst (sessions_insert (hb_sessions hub) e)\<rparr>"
    using assms unfolding create_session_def e_def ks_def authok_def Let_def by (auto split: prod.splits)
  then show thesis by (intro that [of e ks]) (simp_all add: sessions_insert_def Let_def e_def entry_new_def)
qed

lemma hub_inv_auth:
  assumes inv: "hub_inv cr hub" and fr: "fresh_ok fr"
  shows "hub_inv cr (fst (authenticate rnd cr h hub now fr rc ip))"
proof -
  obtain hub' res where au: "authenticate rnd cr h hub now fr rc ip = (hub', res)" by fastforce
  show ?thesis
  proof (cases res)
    case (Inl e)
    from authenticate_refused [OF au [unfolded Inl]] inv au show ?thesis
      by (simp add: hub_inv_def entry_fine_def lease_origin_def)
  next
    case (Inr x)
    obtain r ok where x: "x = (r, ok)" by fastforce
    obtain flds psk where "auth_accepted rnd cr h hub now fr rc ip flds psk hub' r ok"
      by (rule authenticate_Inr [OF au [unfolded Inr x]])
    then show ?thesis
    proof cases
      case (accepted g u caps ns v)
      let ?es = "ss_heap (hb_sessions hub)"
      obtain e ks where h: "ss_heap (hb_sessions hub') = ?es @ [e]"
        "ss_table (hb_sessions hub') = hm_insert (se_session_id e) (length ?es) (ss_table (hb_sessions hub))"
        "hb_registry hub' = hb_registry hub" "hb_secrets hub' = hb_secrets hub" "hb_hub_id hub' = hb_hub_id hub"
        "se_node_id e = auth_node_id flds" "se_key_id e = auth_key_id flds" "se_epoch e = fr_epoch fr" "se_session_id e = fr_session_id fr"
        and ks: "se_engine e = set_state (Session_new (SessionConfig_new (hb_hub_id hub) (se_node_id e) (se_session_id e) (se_epoch e) HubSide) ks) StBinding"
        by (rule create_session_hub [OF accepted(9)])
      have "entry_fine cr hub e"
        using new_session_fine [where ep = "se_epoch e" and hid = "hb_hub_id hub" and nd = "se_node_id e" and sid = "se_session_id e" and ks = ks] fr h(6-8) accepted(5)
        unfolding entry_fine_def ks by (simp add: fresh_ok_def)
      moreover have "\<forall>sid r. map_of (hm_insert (se_session_id e) (length ?es) (ss_table (hb_sessions hub))) sid = Some r \<longrightarrow>
          r < length (?es @ [e]) \<and> se_session_id ((?es @ [e]) ! r) = sid"
        using inv by (auto simp: hub_inv_def sessions_get_def update_conv' nth_append less_Suc_eq)
      ultimately show ?thesis using inv h(1-5) au Inr
        by (auto simp: hub_inv_def entry_fine_def lease_origin_def sessions_get_def)
    qed
  qed
qed

context session_frame
begin

lemma heap_step:
  assumes "\<And>now fr rc ip. op \<noteq> HAuth now fr rc ip"
  shows "heap_rel rel hub (hub_step rnd cr h c hub op)"
proof (cases op)
  case (HTask r call)
  show ?thesis unfolding HTask hub_step.simps by (rule heap_entry) (simp_all add: rel_step entry_id_def)
qed (use assms in \<open>simp_all add: heap_close heap_reap heap_feed heap_refl\<close>)

end

lemma hub_step_inv:
  assumes inv: "hub_inv cr hub" and ok: "hub_op_ok op"
  shows "hub_inv cr (hub_step rnd cr h c hub op)"
proof (cases "\<exists>now fr rc ip. op = HAuth now fr rc ip")
  case True
  with assms hub_inv_auth show ?thesis by auto
next
  case False
  then show ?thesis by (intro hub_inv_frame [OF inv si.heap_step sx.heap_step]) auto
qed

lemma hub_run_inv: "hub_inv cr hub \<Longrightarrow> list_all hub_op_ok ops \<Longrightarrow> hub_inv cr (hub_run rnd cr h c hub ops)"
  unfolding hub_run_def by (induction ops arbitrary: hub) (simp_all add: hub_step_inv)

lemma hub_inv_start:
  "hb_registry hub = Registry_new (hb_hub_id hub) \<Longrightarrow> hb_sessions hub = sessions_new \<Longrightarrow> hub_inv cr hub"
  using reg_inv_new [of "hb_hub_id hub"] by (auto simp: hub_inv_def sessions_new_def sessions_get_def Registry_new_def)

text \<open>A session stands for an \<open>Auth\<close> that was presented and whose MAC verified under the configured secret.\<close>

definition vouched :: "crypto_crate \<Rightarrow> hex_crate \<Rightarrow> string \<Rightarrow> NodeSecrets \<Rightarrow> hub_op list \<Rightarrow> bytes \<times> bytes \<times> string \<times> string \<Rightarrow> bool" where
  "vouched cr h hid secrets ops = (\<lambda>(sid, ep, nd, key).
     \<exists>now fr rc ip flds psk. HAuth now fr rc ip \<in> set ops \<and> fr_session_id fr = sid \<and> fr_epoch fr = ep
       \<and> auth_hub_id flds = hid \<and> auth_node_id flds = nd \<and> auth_key_id flds = key
       \<and> secrets_get secrets key nd = Some psk \<and> verify_auth cr h psk (metadata rc) = Inr flds)"

lemma vouched_mono: "vouched cr h hid secrets ops i \<Longrightarrow> set ops \<subseteq> set ops' \<Longrightarrow> vouched cr h hid secrets ops' i"
  unfolding vouched_def by (auto split: prod.splits) blast

lemma auth_step_owners:
  fixes hub hub' :: "'net Hub"
  assumes au: "authenticate rnd cr h hub now fr rc ip = (hub', res)"
  shows "hb_secrets hub' = hb_secrets hub \<and> hb_hub_id hub' = hb_hub_id hub \<and> hb_registry hub' = hb_registry hub
    \<and> (\<forall>e \<in> set (ss_heap (hb_sessions hub')).
         e \<in> set (ss_heap (hb_sessions hub)) \<or> vouched cr h (hb_hub_id hub) (hb_secrets hub) [HAuth now fr rc ip] (entry_id e))"
proof (cases res)
  case (Inl x)
  from authenticate_refused [OF au [unfolded Inl]] show ?thesis by simp
next
  case (Inr x)
  obtain r ok where x: "x = (r, ok)" by fastforce
  obtain flds psk where "auth_accepted rnd cr h hub now fr rc ip flds psk hub' r ok"
    by (rule authenticate_Inr [OF au [unfolded Inr x]])
  then show ?thesis
  proof cases
    case (accepted g u caps ns v)
    obtain e ks where e: "ss_heap (hb_sessions hub') = ss_heap (hb_sessions hub) @ [e]"
      "hb_registry hub' = hb_registry hub" "hb_secrets hub' = hb_secrets hub" "hb_hub_id hub' = hb_hub_id hub"
      "entry_id e = (fr_session_id fr, fr_epoch fr, auth_node_id flds, auth_key_id flds)"
      using create_session_hub [OF accepted(9)] unfolding entry_id_def by metis
    have "vouched cr h (hb_hub_id hub) (hb_secrets hub) [HAuth now fr rc ip] (entry_id e)"
      using accepted unfolding vouched_def e(5) by auto
    with e(1-4) show ?thesis by auto
  qed
qed

lemma hub_step_owners:
  fixes hub hub1 :: "'net Hub"
  assumes hub1: "hub_step rnd cr h c hub op = hub1"
  shows "hb_secrets hub1 = hb_secrets hub \<and> hb_hub_id hub1 = hb_hub_id hub
    \<and> (\<forall>i \<in> entry_id ` set (ss_heap (hb_sessions hub1)).
       i \<in> entry_id ` set (ss_heap (hb_sessions hub)) \<or> vouched cr h (hb_hub_id hub) (hb_secrets hub) [op] i)
    \<and> leases_from hub (hb_registry hub1)"
proof (cases "\<exists>now fr rc ip. op = HAuth now fr rc ip")
  case True
  then obtain now fr rc ip where op: "op = HAuth now fr rc ip" by blast
  obtain hub' res where au: "authenticate rnd cr h hub now fr rc ip = (hub', res)" by fastforce
  then have "hub1 = hub'" using hub1 by (simp add: op)
  with auth_step_owners [OF au] leases_from_refl [of hub] show ?thesis unfolding op by auto
next
  case False
  then have f: "heap_rel (\<lambda>s s'. session_inv s \<and> sealed_by_session cr s \<longrightarrow> session_inv s' \<and> sealed_by_session cr s') hub hub1"
    unfolding hub1 [symmetric] by (intro si.heap_step) blast
  then have "entry_id ` set (ss_heap (hb_sessions hub1)) = entry_id ` set (ss_heap (hb_sessions hub))"
    unfolding heap_rel_def by (metis set_map)
  then show ?thesis using f unfolding heap_rel_def by blast
qed

text \<open>A lease of the Hub after a run: one it had before the run, renewed or not, or one of a session created during it.\<close>

definition lease_vouched :: "crypto_crate \<Rightarrow> hex_crate \<Rightarrow> 'net Hub \<Rightarrow> hub_op list \<Rightarrow> string \<Rightarrow> NodeLease \<Rightarrow> bool" where
  "lease_vouched cr h hub ops n l \<longleftrightarrow>
     (\<exists>l0. map_of (reg_nodes (hb_registry hub)) n = Some l0 \<and> nl_session_id l0 = nl_session_id l \<and> nl_epoch l0 = nl_epoch l)
   \<or> (\<exists>key. vouched cr h (hb_hub_id hub) (hb_secrets hub) ops (nl_session_id l, nl_epoch l, n, key))"

lemma hub_run_owners:
  fixes hub :: "'net Hub"
  assumes "reg_inv (hb_registry hub)" "hb_sessions hub = sessions_new"
  shows "hb_secrets (hub_run rnd cr h c hub ops) = hb_secrets hub \<and> hb_hub_id (hub_run rnd cr h c hub ops) = hb_hub_id hub
    \<and> reg_inv (hb_registry (hub_run rnd cr h c hub ops))
    \<and> (\<forall>e \<in> set (ss_heap (hb_sessions (hub_run rnd cr h c hub ops))). vouched cr h (hb_hub_id hub) (hb_secrets hub) ops (entry_id e))
    \<and> (\<forall>n l. map_of (reg_nodes (hb_registry (hub_run rnd cr h c hub ops))) n = Some l \<longrightarrow> lease_vouched cr h hub ops n l)"
proof (induction ops rule: rev_induct)
  case Nil
  with assms show ?case by (auto simp: hub_run_def sessions_new_def lease_vouched_def)
next
  case (snoc op ops)
  define a where "a = hub_run rnd cr h c hub ops"
  define b where "b = hub_run rnd cr h c hub (ops @ [op])"
  have IH: "hb_secrets a = hb_secrets hub" "hb_hub_id a = hb_hub_id hub" "reg_inv (hb_registry a)"
    "\<And>e. e \<in> set (ss_heap (hb_sessions a)) \<Longrightarrow> vouched cr h (hb_hub_id hub) (hb_secrets hub) ops (entry_id e)"
    "\<And>n l. map_of (reg_nodes (hb_registry a)) n = Some l \<Longrightarrow> lease_vouched cr h hub ops n l"
    using snoc.IH unfolding a_def by blast+
  have "hub_step rnd cr h c a op = b" by (simp add: a_def b_def hub_run_def)
  note step = hub_step_owners [OF this, unfolded IH(1,2)]
  have m: "vouched cr h (hb_hub_id hub) (hb_secrets hub) ops i \<Longrightarrow> vouched cr h (hb_hub_id hub) (hb_secrets hub) (ops @ [op]) i"
    "vouched cr h (hb_hub_id hub) (hb_secrets hub) [op] i \<Longrightarrow> vouched cr h (hb_hub_id hub) (hb_secrets hub) (ops @ [op]) i" for i
    by (auto elim: vouched_mono)
  have "lease_vouched cr h hub (ops @ [op]) n l" if l: "map_of (reg_nodes (hb_registry b)) n = Some l" for n l
  proof -
    have "leases_from a (hb_registry b)" using step by blast
    with l IH(3) consider
        l0 where "map_of (reg_nodes (hb_registry a)) n = Some l0" "nl_session_id l0 = nl_session_id l" "nl_epoch l0 = nl_epoch l"
      | "lease_origin a n l" unfolding leases_from_def by blast
    then show ?thesis
    proof cases
      case 1
      with IH(5) [OF 1(1)] m(1) show ?thesis unfolding lease_vouched_def by metis
    next
      case 2
      then obtain e where "e \<in> set (ss_heap (hb_sessions a))" "entry_id e = (nl_session_id l, nl_epoch l, n, se_key_id e)"
        by (auto simp: lease_origin_def entry_id_def)
      with IH(4) m(1) show ?thesis unfolding lease_vouched_def by metis
    qed
  qed
  moreover have "vouched cr h (hb_hub_id hub) (hb_secrets hub) (ops @ [op]) (entry_id e)" if "e \<in> set (ss_heap (hb_sessions b))" for e
  proof -
    from that step have "entry_id e \<in> entry_id ` set (ss_heap (hb_sessions a)) \<or> vouched cr h (hb_hub_id hub) (hb_secrets hub) [op] (entry_id e)"
      by blast
    with IH(4) m show ?thesis by (metis imageE)
  qed
  moreover have "reg_inv (hb_registry b)" using step IH(3) by (auto simp: leases_from_def)
  moreover have "hb_secrets b = hb_secrets hub" "hb_hub_id b = hb_hub_id hub" using step by simp_all
  ultimately show ?case unfolding b_def [symmetric] by simp
qed

section \<open>A Hello after the session was closed\<close>

lemma directory_registry: "hb_registry (send_directory cr c hub r) = hb_registry hub"
proof -
  have "hb_registry (fst (on_engine hub r g)) = hb_registry hub" for g :: "Session \<Rightarrow> Session \<times> (SessionError + unit)"
    by (simp add: on_engine_entry)
  then have "on_engine hub r g = (hub1, res) \<Longrightarrow> hb_registry hub1 = hb_registry hub" for g :: "Session \<Rightarrow> Session \<times> (SessionError + unit)" and hub1 res
    by (metis fst_conv)
  then show ?thesis by (auto simp: send_directory_def Let_def split: prod.split sum.split)
qed

lemma broadcast_registry: "hb_registry (broadcast_peer_lists cr c hub) = hb_registry hub"
proof -
  have "hb_registry (foldl (send_directory cr c) hub rs) = hb_registry hub" for rs
    by (induction rs arbitrary: hub) (simp_all add: directory_registry)
  then show ?thesis by (simp add: broadcast_peer_lists_def)
qed

lemma close_removes:
  assumes "sessions_get (hb_sessions hub) (se_session_id (entry_at hub r)) = Some r"
  shows "sessions_get (hb_sessions (close_session cr c hub (se_session_id (entry_at hub r)) (se_epoch (entry_at hub r))))
    (se_session_id (entry_at hub r)) = None"
proof -
  let ?sid = "se_session_id (entry_at hub r)" and ?ep = "se_epoch (entry_at hub r)"
  let ?ss = "(hb_sessions hub)\<lparr>ss_table := hm_remove ?sid (ss_table (hb_sessions hub))\<rparr>"
  have rm: "remove_if_epoch (hb_sessions hub) ?sid ?ep = (?ss, True)"
    using assms by (simp add: remove_if_epoch_def sessions_get_def)
  let ?hub1 = "on_entry (hub\<lparr>hb_sessions := ?ss\<rparr>) r (\<lambda>e. close_streams (e\<lparr>se_closed := True, se_engine := set_state (se_engine e) StClosed\<rparr>))"
  have t1: "map_of (ss_table (hb_sessions ?hub1)) ?sid = None" by (simp add: delete_conv')
  have "map_of (ss_table (hb_sessions (broadcast_peer_lists cr c (?hub1\<lparr>hb_registry := g\<rparr>)))) ?sid = None" for g
    using si.heap_broadcast [where cr = cr and c = c and hub = "?hub1\<lparr>hb_registry := g\<rparr>"] t1
    by (auto simp: heap_rel_def map_le_def dom_def)
  then show ?thesis
    using assms rm t1 by (simp add: close_session_def sessions_get_def Let_def split_beta)
qed

lemma publish_keeps_ids:
  "reg_inv reg \<Longrightarrow> map_of (reg_nodes reg) m = Some l \<Longrightarrow>
   \<exists>l'. map_of (reg_nodes (fst (publish reg n sid ep nm pr tg))) m = Some l' \<and> nl_session_id l' = nl_session_id l"
  by (auto simp: publish_def owns_iff reg_inv_def Let_def map_of_bt_insert split: option.splits)

lemma publish_all_keeps_ids:
  "reg_inv reg \<Longrightarrow> map_of (reg_nodes reg) m = Some l \<Longrightarrow>
   \<exists>l'. map_of (reg_nodes (publish_all reg e ss)) m = Some l' \<and> nl_session_id l' = nl_session_id l"
proof (induction ss arbitrary: reg l)
  case (Cons s ss)
  let ?reg = "fst (publish reg (se_node_id e) (se_session_id e) (se_epoch e) (sr_name s) (sr_proto s) (sr_target s))"
  have inv: "reg_inv ?reg"
    using reg_step_inv [OF Cons.prems(1), of "Publish (se_node_id e) (se_session_id e) (se_epoch e) (sr_name s) (sr_proto s) (sr_target s)"]
    by simp
  obtain l1 where l1: "map_of (reg_nodes ?reg) m = Some l1" "nl_session_id l1 = nl_session_id l"
    using publish_keeps_ids [OF Cons.prems] by blast
  from Cons.IH [OF inv l1(1)] l1(2) show ?case by (simp add: publish_all_def)
qed (simp add: publish_all_def)

lemma hello_registers:
  fixes hub :: "'net Hub"
  assumes n: "negotiate_capabilities (hello_capabilities f) = Inr caps"
    and inv: "reg_inv (hb_registry hub)"
    and gone: "sessions_get (hb_sessions hub) (se_session_id (entry_at hub r)) = None" and r: "r < length (ss_heap (hb_sessions hub))"
  shows "\<exists>l. map_of (reg_nodes (hb_registry (on_hello cr h c hub r f))) (se_node_id (entry_at hub r)) = Some l
    \<and> nl_session_id l = se_session_id (entry_at hub r)"
proof -
  let ?e = "entry_at hub r"
  let ?before = "fst (register_ready (hb_registry hub) (se_node_id ?e) (se_session_id ?e) (se_epoch ?e))"
  let ?reg = "publish_all ?before ?e (hello_services f)"
  define hub1 where "hub1 = on_entry (hub\<lparr>hb_registry := ?reg\<rparr>) r (\<lambda>e. e\<lparr>se_engine := set_state (se_engine e) StHelloPending\<rparr>)"
  let ?f = "\<lambda>s. send_hello_ok cr h s \<lparr>hok_request_id = hello_request_id f, hok_capabilities = caps\<rparr>"
  obtain hub2 res where s: "on_engine hub1 r ?f = (hub2, res)" by fastforce
  have h2: "hub2 = on_entry hub1 r (\<lambda>e. e\<lparr>se_engine := fst (?f (se_engine (entry_at hub1 r)))\<rparr>)"
    using on_engine_entry [of hub1 r ?f] s by simp
  have reg2: "hb_registry hub2 = ?reg" unfolding h2 by (simp add: hub1_def)
  have same: "se_session_id (entry_at hub2 r) = se_session_id ?e" "ss_table (hb_sessions hub2) = ss_table (hb_sessions hub)"
    using r unfolding h2 hub1_def by simp_all
  have "close_entry cr c hub2 r = hub2"
    using gone same by (simp add: close_entry_def close_session_def sessions_get_def)
  then have "hb_registry (on_hello cr h c hub r f) = ?reg"
    using n s reg2 by (cases res) (simp_all add: on_hello_def Let_def hub1_def [symmetric] broadcast_registry)
  moreover have "map_of (reg_nodes ?before) (se_node_id ?e) = Some \<lparr>nl_session_id = se_session_id ?e, nl_epoch = se_epoch ?e, nl_services = []\<rparr>"
    using inv by (simp add: register_ready_def Let_def reg_inv_def map_of_bt_insert)
  from publish_all_keeps_ids [OF registry_calls_inv(1) [OF inv] this]
  have "\<exists>l. map_of (reg_nodes ?reg) (se_node_id ?e) = Some l \<and> nl_session_id l = se_session_id ?e" by simp
  ultimately show ?thesis by simp
qed

section \<open>Properties\<close>

text \<open>A sample Hub: node \<open>a\<close> publishes a service over one session, node \<open>b\<close> has another.\<close>

definition node_entry :: "bytes \<Rightarrow> string \<Rightarrow> SessionEntry" where
  "node_entry sid nd = entry_new sid [1] nd ''k'' 0 (keys (sample_end HubSide)) (sample_end HubSide)"

definition two_sessions :: "unit Hub" where
  "two_sessions = sample_hub\<lparr>hb_sessions := \<lparr>ss_heap = [node_entry [1] ''a'', node_entry [2] ''b''], ss_table = [([1], 0), ([2], 1)]\<rparr>\<rparr>"

lemma web_open_granted: "authorize_open no_nets two_sessions ''b'' web_open = Inr (ServiceExit ''a'' ''w'' ''h:1'' 1)"
proof -
  have acl: "AclTable_new no_nets [web_rule] = Inr (hb_acl two_sessions)"
    by (simp add: AclTable_new_rules two_sessions_def sample_hub_def compile_rule_def web_rule_def result_simps)
  have reg: "reg_inv (hb_registry two_sessions)" unfolding two_sessions_def sample_hub_def by (simp add: reg_run_inv reg_inv_new)
  have v: "is_ok (dest_validate (open_destination web_open))"
    by (simp add: web_open_def dest_validate_def is_slug_def MAX_SLUG_LEN_def is_ascii_alphanumeric_def slug_byte_def)
  have "permitted no_nets [web_rule] (open_query ''b'' web_open)"
    unfolding permitted_def by (rule exI [of _ "[]"]) (simp add: web_rule_def rule_covers_def open_query_def web_open_def)
  then show ?thesis unfolding authorize_open_iff [OF acl reg] using v
    by (simp add: final_leg_ok_def web_open_def two_sessions_def sample_lookup validate_chain_ok)
qed

lemma web_open_bridge:
  "BridgeTask \<lparr>br_caller = 1, br_caller_stream = 1, br_caller_request = sample_id, br_publisher = 0,
     br_destination = Service ''a'' ''w'' (Some 1), br_via = [], br_proto = Tcp\<rparr>
   \<in> set (snd (on_open sample_crate lower_hex no_nets True two_sessions 1 web_open))"
proof -
  have "session_for_node two_sessions ''a'' = Some 0"
    by (simp add: session_for_node_def two_sessions_def sample_registry node_def sessions_get_def node_entry_def entry_new_def)
  moreover have "se_node_id (entry_at two_sessions 1) = ''b''" "se_streams (entry_at two_sessions 1) = []"
    "se_closed (entry_at two_sessions 1) = False"
    by (simp_all add: two_sessions_def node_entry_def entry_new_def)
  ultimately show ?thesis using web_open_granted
    by (simp add: on_open_def bridge_spawned_def spawn_relay_def spawn_relay_with_via_def claim_stream_def web_open_def Let_def)
qed

text \<open>C11: Typing of the running Hub: from a Hub without sessions and leases, whatever sessions authenticate, close and
  expire, whatever records carriers feed and whatever the stream tasks call on the engines, the registry keeps its
  invariant, the session table points to entries of that id, and the engine of every entry is well formed, seals with its
  own keys only, plays the Hub's side and is configured for the Hub, node, session and epoch of the entry; the node of the
  entry has a configured secret.\<close>

theorem hub_state_well_formed:
  assumes "hb_registry hub = Registry_new (hb_hub_id hub)" "hb_sessions hub = sessions_new" "list_all hub_op_ok ops"
    and hub': "hub_run rnd cr h c hub ops = hub'"
  shows "reg_inv (hb_registry hub')
    \<and> (\<forall>sid r. sessions_get (hb_sessions hub') sid = Some r \<longrightarrow>
         r < length (ss_heap (hb_sessions hub')) \<and> se_session_id (entry_at hub' r) = sid)
    \<and> (\<forall>e \<in> set (ss_heap (hb_sessions hub')). session_inv (se_engine e) \<and> sealed_by_session cr (se_engine e)
         \<and> config (se_engine e) = SessionConfig_new (hb_hub_id hub') (se_node_id e) (se_session_id e) (se_epoch e) HubSide
         \<and> secrets_get (hb_secrets hub') (se_key_id e) (se_node_id e) \<noteq> None)"
  using hub_run_inv [OF hub_inv_start [OF assms(1,2)] assms(3), of cr rnd h c]
  unfolding hub' hub_inv_def entry_fine_def by blast

theorem hub_state_well_formed_witness:
  "\<exists>hub'. hub_run id sample_crate lower_hex no_nets (sample_hub\<lparr>hb_registry := Registry_new ''h''\<rparr>)
      [HAuth sample_now sample_fresh auth_record (V4 [10, 0, 0, 1]), HFeed 0 [[1, 2]], HReap sample_now] = hub'
    \<and> reg_inv (hb_registry hub') \<and> (\<forall>e \<in> set (ss_heap (hb_sessions hub')). session_inv (se_engine e))"
proof -
  let ?hub = "sample_hub\<lparr>hb_registry := Registry_new ''h''\<rparr>"
  let ?ops = "[HAuth sample_now sample_fresh auth_record (V4 [10, 0, 0, 1]), HFeed 0 [[1, 2]], HReap sample_now]"
  have "hb_registry ?hub = Registry_new (hb_hub_id ?hub)" "hb_sessions ?hub = sessions_new" "list_all hub_op_ok ?ops"
    by (simp_all add: sample_hub_def sample_laws)
  from hub_state_well_formed [OF this refl, of id sample_crate lower_hex no_nets] show ?thesis by blast
qed

text \<open>C5: Only authenticated nodes are registered: after any run, every lease of the directory was there before or names the
  session id and epoch drawn for an \<open>Auth\<close> presented during the run, whose MAC verified under the secret configured for its
  key and for exactly the node the lease is listed under. No record, stream call or teardown lists a node otherwise.\<close>

theorem only_authenticated_nodes_registered:
  assumes "reg_inv (hb_registry hub)" "hb_sessions hub = sessions_new"
    and "map_of (reg_nodes (hb_registry (hub_run rnd cr h c hub ops))) n = Some l"
  shows "(\<exists>l0. map_of (reg_nodes (hb_registry hub)) n = Some l0 \<and> nl_session_id l0 = nl_session_id l \<and> nl_epoch l0 = nl_epoch l)
    \<or> (\<exists>now fr rc ip flds psk. HAuth now fr rc ip \<in> set ops
         \<and> fr_session_id fr = nl_session_id l \<and> fr_epoch fr = nl_epoch l
         \<and> auth_hub_id flds = hb_hub_id hub \<and> auth_node_id flds = n
         \<and> secrets_get (hb_secrets hub) (auth_key_id flds) n = Some psk \<and> verify_auth cr h psk (metadata rc) = Inr flds)"
proof -
  have "lease_vouched cr h hub ops n l" using hub_run_owners [OF assms(1,2), of rnd cr h c ops] assms(3) by blast
  then show ?thesis unfolding lease_vouched_def vouched_def prod.case by blast
qed

theorem only_authenticated_nodes_registered_witness:
  "\<exists>hub' l. hub_run id sample_crate lower_hex no_nets sample_hub [HAuth sample_now sample_fresh auth_record (V4 [10, 0, 0, 1])] = hub'
    \<and> map_of (reg_nodes (hb_registry hub')) ''a'' = Some l \<and> nl_session_id l = [1]"
proof -
  let ?ops = "[HAuth sample_now sample_fresh auth_record (V4 [10, 0, 0, 1])]"
  obtain hub' res where au: "authenticate id sample_crate lower_hex sample_hub sample_now sample_fresh auth_record (V4 [10, 0, 0, 1]) = (hub', res)"
    by fastforce
  then have run: "hub_run id sample_crate lower_hex no_nets sample_hub ?ops = hub'" by (simp add: hub_run_def)
  have reg: "hb_registry hub' = hb_registry sample_hub" using auth_step_owners [OF au] by blast
  then obtain l where l: "map_of (reg_nodes (hb_registry hub')) ''a'' = Some l" by (simp add: sample_registry)
  have inv: "reg_inv (hb_registry sample_hub)" unfolding sample_hub_def by (simp add: reg_run_inv reg_inv_new)
  have none: "hb_sessions sample_hub = sessions_new" by (simp add: sample_hub_def)
  have sec: "secrets_get (hb_secrets sample_hub) key ''a'' = None" for key by (simp add: sample_hub_def secrets_get_def)
  have "reg_nodes (hb_registry sample_hub) = [(''a'', snd (hd (reg_nodes (hb_registry sample_hub))))]"
    "nl_session_id (snd (hd (reg_nodes (hb_registry sample_hub)))) = [1]" by (simp_all add: sample_registry)
  with only_authenticated_nodes_registered [OF inv none l [folded run]] sec have "nl_session_id l = [1]"
    by (metis map_of_Cons_code(2) option.inject option.distinct(1))
  with run l show ?thesis by blast
qed

text \<open>C29: An \<open>Open\<close> starts work only when it is authorised, and exactly the authorised work: a Hub exit is started for the
  host and port the plan grants, on the caller's session, as the caller and under the Hub's egress policy; a bridge leads
  to the live session of the node the plan names (the first hop of a chain, with the remaining hops still to go). Without a
  runtime nothing is started.\<close>

theorem open_starts_only_what_is_authorised:
  assumes "t \<in> set (snd (on_open cr h c rt hub r f))"
  shows "rt \<and> (\<exists>plan. authorize_open c hub (se_node_id (entry_at hub r)) f = Inr plan
    \<and> (case t of
         ExitTask q x \<Rightarrow> q = r \<and> plan = HubExit (hx_host x) (hx_port x) \<and> hx_caller x = se_node_id (entry_at hub r)
           \<and> hx_policy x = hb_egress hub \<and> hx_proto x = open_proto f \<and> hx_stream_id x = open_stream_id f
       | BridgeTask b \<Rightarrow> br_caller b = r \<and> br_caller_stream b = open_stream_id f \<and> br_destination b = open_destination f
           \<and> (\<exists>nd. session_for_node hub nd = Some (br_publisher b)
                \<and> (plan = RelayPlan (nd # br_via b)
                   \<or> br_via b = [] \<and> ((\<exists>s t v. plan = ServiceExit nd s t v) \<or> (\<exists>host port. plan = NodeExit nd host port))))))"
proof (cases "authorize_open c hub (se_node_id (entry_at hub r)) f")
  case (Inl e)
  with assms show ?thesis by (simp add: on_open_def)
next
  case (Inr plan)
  with assms show ?thesis
    by (cases plan)
      (auto simp: on_open_def exit_spawned_def bridge_spawned_def spawn_hub_exit_def spawn_udp_exit_def start_exit_def exit_task_def
        spawn_relay_def spawn_relay_chain_def spawn_relay_with_via_def Let_def
        split: if_splits prod.splits option.splits list.splits)
qed

theorem open_starts_only_what_is_authorised_witness:
  "snd (on_open sample_crate lower_hex no_nets True two_sessions 1 web_open) \<noteq> []
   \<and> session_for_node two_sessions ''a'' = Some 0"
proof -
  from open_starts_only_what_is_authorised [OF web_open_bridge] have "session_for_node two_sessions ''a'' = Some 0"
    using web_open_granted by (auto simp: two_sessions_def node_entry_def entry_new_def)
  with web_open_bridge show ?thesis by (metis empty_iff list.set(1))
qed

text \<open>A handler does not ask whether its session is still open: when one batch of records brings a \<open>Bye\<close> and then a
  \<open>Hello\<close>, the teardown removes the session and its lease and the \<open>Hello\<close> registers the node again, under a session the
  table no longer has. The node stays listed, although no stream can be opened to it, and neither a teardown nor the
  reaper, which both go through the table, can remove the lease.\<close>

theorem hello_after_bye_leaves_lease:
  assumes r: "r < length (ss_heap (hb_sessions hub))"
    and "sessions_get (hb_sessions hub) (se_session_id (entry_at hub r)) = Some r"
    and inv: "reg_inv (hb_registry hub)"
    and caps: "negotiate_capabilities (hello_capabilities f) = Inr caps"
    and hub': "fst (on_events cr h c rt r hub [EvBye b, EvHello f]) = hub'"
  shows "is_registered (hb_registry hub') (se_node_id (entry_at hub r))
    \<and> sessions_get (hb_sessions hub') (se_session_id (entry_at hub r)) = None
    \<and> session_for_node hub' (se_node_id (entry_at hub r)) = None"
proof -
  define hub1 where "hub1 = close_entry cr c hub r"
  have h': "hub' = on_hello cr h c hub1 r f" using hub' by (simp add: hub1_def Let_def split_beta)
  have f1: "heap_rel (\<lambda>s s'. session_inv s \<and> sealed_by_session cr s \<longrightarrow> session_inv s' \<and> sealed_by_session cr s') hub hub1"
    unfolding hub1_def close_entry_def by (rule si.heap_close)
  have r1: "r < length (ss_heap (hb_sessions hub1))" using si.heap_length [OF f1] r by simp
  have ids: "entry_id (entry_at hub1 r) = entry_id (entry_at hub r)"
    using f1 r by (intro nth_entry_id(2)) (simp_all add: heap_rel_def)
  have gone: "sessions_get (hb_sessions hub1) (se_session_id (entry_at hub r)) = None"
    unfolding hub1_def close_entry_def by (rule close_removes [OF assms(2)])
  have "reg_inv (hb_registry hub1)" using f1 inv by (simp add: heap_rel_def leases_from_def)
  from hello_registers [OF caps this _ r1, of cr h c] gone ids obtain l where
    l: "map_of (reg_nodes (hb_registry hub')) (se_node_id (entry_at hub r)) = Some l" "nl_session_id l = se_session_id (entry_at hub r)"
    by (auto simp: h' entry_id_def)
  have "heap_rel (\<lambda>s s'. session_inv s \<and> sealed_by_session cr s \<longrightarrow> session_inv s' \<and> sealed_by_session cr s') hub1 hub'"
    unfolding h' by (rule si.heap_hello [OF r1])
  with gone have "sessions_get (hb_sessions hub') (se_session_id (entry_at hub r)) = None"
    by (auto simp: heap_rel_def sessions_get_def map_le_def dom_def)
  with l show ?thesis by (simp add: is_registered_def node_def session_for_node_def)
qed

theorem hello_after_bye_leaves_lease_witness:
  "\<exists>hub'. fst (on_events sample_crate lower_hex no_nets True 1 two_sessions
      [EvBye \<lparr>bye_reason = ''x''\<rparr>, EvHello \<lparr>hello_request_id = sample_id, hello_services = [], hello_capabilities = SUPPORTED_CAPABILITIES\<rparr>]) = hub'
    \<and> is_registered (hb_registry hub') ''b'' \<and> session_for_node hub' ''b'' = None"
proof -
  let ?f = "\<lparr>hello_request_id = sample_id, hello_services = [], hello_capabilities = SUPPORTED_CAPABILITIES\<rparr>"
  have e: "se_node_id (entry_at two_sessions 1) = ''b''" "se_session_id (entry_at two_sessions 1) = [2]"
    by (simp_all add: two_sessions_def node_entry_def entry_new_def)
  have r: "1 < length (ss_heap (hb_sessions two_sessions))"
    "sessions_get (hb_sessions two_sessions) (se_session_id (entry_at two_sessions 1)) = Some 1"
    unfolding e by (simp_all add: two_sessions_def sessions_get_def)
  have inv: "reg_inv (hb_registry two_sessions)" unfolding two_sessions_def sample_hub_def by (simp add: reg_run_inv reg_inv_new)
  obtain caps where "negotiate_capabilities (hello_capabilities ?f) = Inr caps"
    by (simp add: negotiate_capabilities_def SUPPORTED_CAPABILITIES_def REQUIRED_CAPABILITIES_def result_simps)
  from hello_after_bye_leaves_lease [OF r inv this refl, of sample_crate lower_hex no_nets True "\<lparr>bye_reason = ''x''\<rparr>"] e
  show ?thesis by simp
qed

end
