(* ===== verification/Node_Inbound.thy ===== *)
theory Node_Inbound
  imports Node_Stream Node_Select Hub
begin

text \<open>
  \<open>crates/wsnet-node/src/inbound.rs\<close>: a node as the publisher of a service, as an exit and as a hop of a chain. The details of
  refusals, which stay local, are named by constructors. The dial, the target's socket and the driver's channel are the
  inputs of the task; \<open>copy_bidirectional\<close> between the two halves of a chain leg is tokio's.
\<close>

section \<open>Policy\<close>

definition INBOUND_READ_CHUNK :: nat where "INBOUND_READ_CHUNK = 16 * 1024"

record ResolvedTarget =
  rt_host :: string
  rt_port :: nat

datatype inbound_detail =
    ChainNotRelayed string
  | NotInAllowlist string nat
  | NotPublishedByNode string
  | NoSuchService string
  | NoRevision string nat
  | UnusableTarget string
  | AddressOfOtherNode
  | PortZero
  | NotReverseAccess

record InboundRefusal =
  ir_status :: OpenStatus
  ir_detail :: inbound_detail

definition inbound_refusal :: "OpenStatus \<Rightarrow> inbound_detail \<Rightarrow> InboundRefusal" where
  "inbound_refusal status detail = \<lparr>ir_status = status, ir_detail = detail\<rparr>"

record 'net InboundPolicy =
  ip_allow_node_address :: "'net list"
  ip_relay_forward :: bool

definition policy_deny_all :: "'net InboundPolicy" where
  "policy_deny_all = \<lparr>ip_allow_node_address = [], ip_relay_forward = False\<rparr>"

definition allow_node_address :: "'net ipnet_crate \<Rightarrow> 'net InboundPolicy \<Rightarrow> string \<Rightarrow> string + 'net InboundPolicy" where
  "allow_node_address c p cidr =
     (case parse_net c cidr of
        None \<Rightarrow> Inl cidr
      | Some net \<Rightarrow> Inr (p\<lparr>ip_allow_node_address := ip_allow_node_address p @ [net]\<rparr>))"

definition with_relay_forward :: "'net InboundPolicy \<Rightarrow> bool \<Rightarrow> 'net InboundPolicy" where
  "with_relay_forward p allowed = p\<lparr>ip_relay_forward := allowed\<rparr>"

definition permits_node_address :: "'net ipnet_crate \<Rightarrow> 'net InboundPolicy \<Rightarrow> string \<Rightarrow> bool" where
  "permits_node_address c p host \<longleftrightarrow>
     (case parse_ip host of
        Some ip \<Rightarrow> list_ex (\<lambda>net. net_contains c net ip) (ip_allow_node_address p)
      | None \<Rightarrow> False)"

section \<open>Resolution\<close>

datatype InboundPlan = Dial ResolvedTarget | Forward

definition inbound_target :: "string \<Rightarrow> ResolvedTarget option" where
  "inbound_target target =
     (case (case strip_prefix ''['' target of
              Some rest \<Rightarrow>
                (case split_once CHR '']'' rest of
                   Some (host, rest) \<Rightarrow> map_option (\<lambda>port. (host, port)) (strip_prefix '':'' rest)
                 | None \<Rightarrow> None)
            | None \<Rightarrow> rsplit_once CHR '':'' target) of
        None \<Rightarrow> None
      | Some (host, port) \<Rightarrow>
          if host = [] then None
          else (case parse_unsigned u16_max port of
                  None \<Rightarrow> None
                | Some p \<Rightarrow> if p = 0 then None else Some \<lparr>rt_host = host, rt_port = p\<rparr>))"

definition resolve_inbound ::
    "'net ipnet_crate \<Rightarrow> string \<Rightarrow> ServiceRegistration list \<Rightarrow> 'net InboundPolicy \<Rightarrow> OpenFields \<Rightarrow> InboundRefusal + ResolvedTarget" where
  "resolve_inbound c node_id services policy f =
     (case open_destination f of
        Service nd name revision \<Rightarrow>
          if nd \<noteq> node_id then Inl (inbound_refusal StatusDenied (NotPublishedByNode name))
          else (case List.find (\<lambda>s. sr_name s = name) services of
                  None \<Rightarrow> Inl (inbound_refusal Offline (NoSuchService name))
                | Some service \<Rightarrow>
                    if (case revision of Some pinned \<Rightarrow> pinned \<noteq> 1 | None \<Rightarrow> False)
                    then Inl (inbound_refusal Offline (NoRevision name (the revision)))
                    else (case inbound_target (sr_target service) of
                            None \<Rightarrow> Inl (inbound_refusal Unreachable (UnusableTarget name))
                          | Some t \<Rightarrow> Inr t))
      | NodeAddress nd host port \<Rightarrow>
          if nd \<noteq> node_id then Inl (inbound_refusal StatusDenied AddressOfOtherNode)
          else if port = 0 then Inl (inbound_refusal StatusDenied PortZero)
          else if \<not> permits_node_address c policy host then Inl (inbound_refusal StatusDenied (NotInAllowlist host port))
          else Inr \<lparr>rt_host = host, rt_port = port\<rparr>
      | Address host port \<Rightarrow> Inl (inbound_refusal StatusDenied NotReverseAccess))"

definition continue_chain :: "'net InboundPolicy \<Rightarrow> string \<Rightarrow> InboundRefusal + InboundPlan" where
  "continue_chain policy what =
     (if ip_relay_forward policy then Inr Forward else Inl (inbound_refusal StatusDenied (ChainNotRelayed what)))"

definition plan_inbound ::
    "'net ipnet_crate \<Rightarrow> string \<Rightarrow> ServiceRegistration list \<Rightarrow> 'net InboundPolicy \<Rightarrow> OpenFields \<Rightarrow> InboundRefusal + InboundPlan" where
  "plan_inbound c node_id services policy f =
     (if open_via f \<noteq> [] then continue_chain policy ''the open still has hops to run''
      else case open_destination f of
        Address host port \<Rightarrow>
          if port = 0 \<or> \<not> permits_node_address c policy host
          then Inl (inbound_refusal StatusDenied (NotInAllowlist host port))
          else Inr (Dial \<lparr>rt_host = host, rt_port = port\<rparr>)
      | Service nd _ _ \<Rightarrow>
          if nd \<noteq> node_id then continue_chain policy ''the destination belongs to another node''
          else rbind (resolve_inbound c node_id services policy f) (\<lambda>t. Inr (Dial t))
      | NodeAddress nd _ _ \<Rightarrow>
          if nd \<noteq> node_id then continue_chain policy ''the destination belongs to another node''
          else rbind (resolve_inbound c node_id services policy f) (\<lambda>t. Inr (Dial t)))"

section \<open>Serving a target\<close>

definition inbound_result :: "bytes \<Rightarrow> nat \<Rightarrow> OpenStatus \<Rightarrow> string \<Rightarrow> OpenResultFields" where
  "inbound_result request_id sid status detail =
     \<lparr>res_request_id = request_id, res_stream_id = sid, res_status = status, res_detail = detail\<rparr>"

text \<open>The outcome of the dial: connected, refused, or another error.\<close>

datatype inbound_dial = DialConnected | DialRefused | DialFailed

text \<open>The answer to the \<open>Open\<close>, and whether the task goes on.\<close>

definition serve_answer :: "crypto_crate \<Rightarrow> hex_crate \<Rightarrow> Session \<Rightarrow> bytes \<Rightarrow> nat \<Rightarrow> inbound_dial \<Rightarrow> Session \<times> bool" where
  "serve_answer cr h s request_id sid d =
     (case d of
        DialConnected \<Rightarrow>
          (let (s, res) = send_open_result cr h s (inbound_result request_id sid StatusOk ''the published target accepted'') in
           (s, is_ok res))
      | DialRefused \<Rightarrow>
          (fst (send_open_result cr h s (inbound_result request_id sid Refused ''the published target is not reachable'')), False)
      | DialFailed \<Rightarrow>
          (fst (send_open_result cr h s (inbound_result request_id sid Unreachable ''the published target is not reachable'')), False))"

function inbound_deliver :: "crypto_crate \<Rightarrow> Session \<Rightarrow> nat \<Rightarrow> bytes \<Rightarrow> Session \<times> bytes" where
  "inbound_deliver cr s sid pend =
     (if pend = [] then (s, [])
      else (case send_data cr s sid pend of
        (s, Inr n) \<Rightarrow> if n = 0 then (s, pend) else inbound_deliver cr s sid (drop n pend)
      | (s, Inl _) \<Rightarrow> (s, pend)))"
  by pat_completeness auto
termination
  by (relation "measure (\<lambda>(cr, s, sid, pend). length pend)") auto

declare inbound_deliver.simps [simp del]

definition inbound_shutdown :: "Session \<times> TcpPump \<Rightarrow> Session \<times> TcpPump \<times> phase" where
  "inbound_shutdown = (\<lambda>(s, p).
     let p = (case tp_final p of
                Some off \<Rightarrow> if \<not> tp_shutdown p \<and> tp_written p \<ge> off then p\<lparr>tp_shutdown := True\<rparr> else p
              | None \<Rightarrow> p)
     in (s, p, if tp_fin_sent p \<and> tp_shutdown p then Finished else Waiting))"

definition inbound_head :: "crypto_crate \<Rightarrow> nat \<Rightarrow> Session \<times> TcpPump \<Rightarrow> Session \<times> TcpPump \<times> phase" where
  "inbound_head cr sid = (\<lambda>(s, p).
     let (s, rest) = inbound_deliver cr s sid (tp_pending p); p = p\<lparr>tp_pending := rest\<rparr> in
     if tp_eof p \<and> tp_pending p = [] \<and> \<not> tp_fin_sent p then
       (case send_fin cr s sid of
          (s, Inl _) \<Rightarrow> (s, p, Finished)
        | (s, Inr _) \<Rightarrow> inbound_shutdown (s, p\<lparr>tp_fin_sent := True\<rparr>))
     else inbound_shutdown (s, p))"

datatype inbound_input =
    TargetRead bytes                      \<comment> \<open>one read of the target, empty at its end\<close>
  | TargetFailed
  | InboundMsg "StreamMsg option" bool    \<comment> \<open>the channel's next message, and whether the target write succeeds\<close>

definition inbound_input_step :: "crypto_crate \<Rightarrow> nat \<Rightarrow> Session \<times> TcpPump \<Rightarrow> inbound_input \<Rightarrow> Session \<times> TcpPump \<times> phase" where
  "inbound_input_step cr sid = (\<lambda>(s, p) i.
     case i of
       TargetRead bs \<Rightarrow>
         if tp_eof p \<or> tp_pending p \<noteq> [] \<or> length bs > INBOUND_READ_CHUNK then (s, p, Waiting)
         else if bs = [] then (s, p\<lparr>tp_eof := True\<rparr>, AtHead)
         else (s, p\<lparr>tp_pending := tp_pending p @ bs, tp_in := tp_in p @ bs\<rparr>, AtHead)
     | TargetFailed \<Rightarrow>
         if tp_eof p \<or> tp_pending p \<noteq> [] then (s, p, Waiting)
         else (fst (send_reset cr s sid ResetUnreachable), p, Finished)
     | InboundMsg None _ \<Rightarrow> (s, p, Finished)
     | InboundMsg (Some (MData data)) written_ok \<Rightarrow>
         if \<not> written_ok then (fst (send_reset cr s sid ResetUnreachable), p, Finished)
         else (fst (consume cr s sid (length data)),
               p\<lparr>tp_written := (tp_written p + length data) mod 2 ^ 64, tp_out := tp_out p @ data\<rparr>, AtHead)
     | InboundMsg (Some (MFin off)) _ \<Rightarrow> (s, p\<lparr>tp_final := Some off\<rparr>, AtHead)
     | InboundMsg (Some (MReset _)) _ \<Rightarrow> (s, p, Finished)
     | InboundMsg (Some _) _ \<Rightarrow> (s, p, AtHead))"

section \<open>A chain leg\<close>

record ChainLeg =
  cl_destination :: Destination
  cl_via :: "string list"
  cl_proto :: Proto

definition leg_answer :: "crypto_crate \<Rightarrow> hex_crate \<Rightarrow> Session \<Rightarrow> bytes \<Rightarrow> nat \<Rightarrow> Session \<times> bool" where
  "leg_answer cr h s request_id sid =
     (let (s, res) = send_open_result cr h s (inbound_result request_id sid StatusOk ''the chain leg is ready'') in (s, is_ok res))"

definition leg_end :: "crypto_crate \<Rightarrow> Session \<Rightarrow> nat \<Rightarrow> bool \<Rightarrow> Session" where
  "leg_end cr s sid copied = (if copied then s else fst (send_reset cr s sid ResetUnreachable))"

section \<open>The task over time\<close>

datatype inbound_op = InHead | InInput inbound_input | InOthers Session

definition inbound_step :: "crypto_crate \<Rightarrow> nat \<Rightarrow> Session \<times> TcpPump \<times> phase \<Rightarrow> inbound_op \<Rightarrow> Session \<times> TcpPump \<times> phase" where
  "inbound_step cr sid = (\<lambda>(s, p, ph) op.
     case op of
       InHead \<Rightarrow> if ph = AtHead then inbound_head cr sid (s, p) else (s, p, ph)
     | InInput i \<Rightarrow> if ph = Waiting then inbound_input_step cr sid (s, p) i else (s, p, ph)
     | InOthers s' \<Rightarrow> if keeps_stream sid s s' then (s', p, ph) else (s, p, ph))"

definition inbound_run :: "crypto_crate \<Rightarrow> nat \<Rightarrow> Session \<times> TcpPump \<times> phase \<Rightarrow> inbound_op list \<Rightarrow> Session \<times> TcpPump \<times> phase" where
  "inbound_run cr sid = foldl (inbound_step cr sid)"

definition inbound_inv :: "nat \<Rightarrow> Session \<times> TcpPump \<times> phase \<Rightarrow> bool" where
  "inbound_inv sid = (\<lambda>(s, p, ph). ph \<noteq> Finished \<longrightarrow>
     length (tp_pending p) \<le> INBOUND_READ_CHUNK \<and> (tp_fin_sent p \<longrightarrow> tp_eof p \<and> tp_pending p = []) \<and> leg_at s sid (tp_pending p) (tp_in p))"

text \<open>A payload of one record is sent whole or not at all.\<close>

lemma send_data_one_record:
  assumes "send_data cr s sid pl = (s', Inl e)" "length pl \<le> MAX_TCP_PAYLOAD"
  shows "streams s' = streams s"
proof -
  have chunk: "streams (fst (send_chunks cr s sid off pl)) = streams s" if "snd (send_chunks cr s sid off pl) = Inl e" for off
  proof (cases "pl = []")
    case True
    then show ?thesis by (subst send_chunks.simps) simp
  next
    case False
    obtain s1 r where sd: "send cr s Data (data_to_canonical \<lparr>data_stream_id = sid, data_offset = off\<rparr>) pl = (s1, r)" by fastforce
    have nil: "send_chunks cr x sid y [] = (x, Inr ())" for x y by (subst send_chunks.simps) simp
    have "send_chunks cr s sid off pl = (case r of Inl e \<Rightarrow> (s1, Inl e) | Inr _ \<Rightarrow>
        (case map_of (streams s1) sid of Some en \<Rightarrow> put_stream s1 sid (en\<lparr>send_offset := off + length pl\<rparr>) | None \<Rightarrow> s1, Inr ()))"
      using False assms(2) sd nil by (subst send_chunks.simps) (simp add: Let_def andthen_def min_def split: sum.split)
    with that have "fst (send_chunks cr s sid off pl) = s1" by (cases r) auto
    then show ?thesis using sd send_frame(1) by (metis fst_conv)
  qed
  show ?thesis using assms(1) chunk
    by (auto simp: send_data_def andthen_def split: if_splits option.splits prod.splits sum.splits) (metis fst_conv snd_conv)
qed

lemma inbound_deliver_leg:
  assumes "inbound_deliver cr s sid pend = (s', rest)" "leg_at s sid pend acc" "length pend \<le> INBOUND_READ_CHUNK"
  shows "leg_at s' sid rest acc \<and> suffix rest pend"
proof (cases "pend = []")
  case True
  with assms show ?thesis by (subst (asm) inbound_deliver.simps) auto
next
  case False
  obtain s1 r where sd: "send_data cr s sid pend = (s1, r)" by fastforce
  show ?thesis
  proof (cases r)
    case (Inl e)
    have "length pend \<le> MAX_TCP_PAYLOAD" using assms(3) by (simp add: INBOUND_READ_CHUNK_def limit_defs kib_def)
    from send_data_one_record [OF sd [unfolded Inl] this] assms(2) have "leg_at s1 sid pend acc" by (simp add: leg_at_def)
    with assms(1) sd Inl False show ?thesis by (subst (asm) inbound_deliver.simps) auto
  next
    case (Inr n)
    from send_data_Inr [OF sd [unfolded Inr] False] have n: "n = length pend" by metis
    have "inbound_deliver cr s1 sid [] = (s1, [])" by (subst inbound_deliver.simps) simp
    with assms(1) sd Inr n False have "s' = s1" "rest = []" by (subst (asm) inbound_deliver.simps, simp)+
    with send_whole_leg [OF sd [unfolded Inr] assms(2)] show ?thesis by simp
  qed
qed

lemma inbound_shutdown_inv: "(\<And>ph. inbound_inv sid (s, p, ph)) \<Longrightarrow> inbound_inv sid (inbound_shutdown (s, p))"
  by (auto simp: inbound_shutdown_def inbound_inv_def Let_def split: option.split)

lemma inbound_head_inv:
  assumes inv: "inbound_inv sid (s, p, AtHead)"
  shows "inbound_inv sid (inbound_head cr sid (s, p))"
proof -
  obtain s1 rest where d: "inbound_deliver cr s sid (tp_pending p) = (s1, rest)" by fastforce
  let ?p = "p\<lparr>tp_pending := rest\<rparr>"
  have leg: "leg_at s1 sid rest (tp_in p)" "suffix rest (tp_pending p)"
    using inbound_deliver_leg [OF d, of "tp_in p"] inv by (simp_all add: inbound_inv_def)
  then have i1: "inbound_inv sid (s1, ?p, ph)" for ph
    using inv suffix_length_le [OF leg(2)] by (auto simp: inbound_inv_def)
  show ?thesis
  proof (cases "tp_eof ?p \<and> tp_pending ?p = [] \<and> \<not> tp_fin_sent ?p")
    case False
    then show ?thesis using inbound_shutdown_inv [OF i1] d by (auto simp: inbound_head_def Let_def)
  next
    case True
    obtain s2 r where f: "send_fin cr s1 sid = (s2, r)" by fastforce
    have "keeps_stream sid s1 s2" using send_fin_keeps [of sid s1 cr sid] f by simp
    then have i2: "inbound_inv sid (s2, ?p\<lparr>tp_fin_sent := True\<rparr>, ph)" for ph
      using i1 [of ph] True leg_keeps by (auto simp: inbound_inv_def)
    show ?thesis
    proof (cases r)
      case (Inl e)
      then show ?thesis using d True f by (simp add: inbound_head_def Let_def inbound_inv_def)
    next
      case (Inr v)
      then show ?thesis using inbound_shutdown_inv [OF i2] d True f by (simp add: inbound_head_def Let_def)
    qed
  qed
qed

lemma inbound_input_inv:
  assumes inv: "inbound_inv sid (s, p, Waiting)"
  shows "inbound_inv sid (inbound_input_step cr sid (s, p) i)"
proof (cases i)
  case (TargetRead bs)
  have "leg_at s sid [] (tp_in p) \<Longrightarrow> leg_at s sid bs (tp_in p @ bs)" by (auto simp: leg_at_def)
  with inv TargetRead show ?thesis by (auto simp: inbound_input_step_def inbound_inv_def)
next
  case TargetFailed
  with inv show ?thesis by (auto simp: inbound_input_step_def inbound_inv_def)
next
  case (InboundMsg m ok)
  have "leg_at (fst (consume cr s sid n)) sid (tp_pending p) (tp_in p)" if "leg_at s sid (tp_pending p) (tp_in p)" for n
    by (rule leg_keeps [OF that consume_keeps])
  with inv InboundMsg show ?thesis
    by (auto simp: inbound_input_step_def inbound_inv_def split: option.split StreamMsg.split)
qed

lemma inbound_run_inv: "inbound_inv sid x \<Longrightarrow> inbound_inv sid (inbound_run cr sid x ops)"
proof (induction ops arbitrary: x)
  case (Cons op ops)
  obtain s p ph where x: "x = (s, p, ph)" by (metis prod_cases3)
  have "inbound_inv sid (inbound_step cr sid x op)"
  proof (cases op)
    case InHead
    with Cons.prems x inbound_head_inv show ?thesis by (auto simp: inbound_step_def)
  next
    case (InInput i)
    with Cons.prems x inbound_input_inv show ?thesis by (auto simp: inbound_step_def)
  next
    case (InOthers s')
    with Cons.prems x leg_keeps show ?thesis by (auto simp: inbound_step_def inbound_inv_def)
  qed
  from Cons.IH [OF this] show ?case by (simp add: inbound_run_def)
qed (simp add: inbound_run_def)

section \<open>What the Hub and the publisher resolve\<close>

lemma inbound_target_parse: "inbound_target t = map_option (\<lambda>(host, port). \<lparr>rt_host = host, rt_port = port\<rparr>) (parse_target t)"
  unfolding inbound_target_def parse_target_def
  by (auto split: option.split prod.split)

lemma publish_lookup:
  assumes "reg_inv r" "lookup (fst (publish r n sid ep s p t)) m q = Some v"
  shows "lookup r m q = Some v \<or> m = n \<and> q = s \<and> sl_target v = t \<and> sl_proto v = p \<and> (lookup r n s = None \<longrightarrow> sl_revision v = 1)"
proof (cases "fst (publish r n sid ep s p t) = r")
  case True
  with assms(2) show ?thesis by simp
next
  case False
  then obtain lease where l: "map_of (reg_nodes r) n = Some lease"
    and r': "fst (publish r n sid ep s p t) = reg_bump (r\<lparr>reg_nodes := bt_insert n (lease\<lparr>nl_services := bt_insert s
       \<lparr>sl_hub_id = reg_hub_id r, sl_node_id = n, sl_service_name = s, sl_proto = p,
        sl_revision = next_revision (nl_services lease) s p t, sl_target = t, sl_session_id = sid, sl_epoch = ep\<rparr> (nl_services lease)\<rparr>) (reg_nodes r)\<rparr>)"
    by (auto simp: publish_def Let_def split: if_splits option.splits)
  have inv: "bt_inv (reg_nodes r)" "bt_inv (nl_services lease)" using assms(1) l by (auto simp: reg_inv_def lease_ok_def)
  from assms(2) l inv show ?thesis unfolding r'
    by (auto simp: lookup_def reg_bump_def map_of_bt_insert next_revision_def split: option.splits if_splits)
qed

lemma publish_all_lookup:
  assumes "reg_inv reg" "distinct (map sr_name ss)" "lookup (publish_all reg e ss) (se_node_id e) q = Some v"
  shows "lookup reg (se_node_id e) q = Some v
    \<or> (\<exists>sv \<in> set ss. sr_name sv = q \<and> sl_target v = sr_target sv \<and> sl_proto v = sr_proto sv
         \<and> (lookup reg (se_node_id e) q = None \<longrightarrow> sl_revision v = 1))"
  using assms
proof (induction ss arbitrary: reg)
  case (Cons s ss)
  let ?nd = "se_node_id e"
  let ?reg = "fst (publish reg ?nd (se_session_id e) (se_epoch e) (sr_name s) (sr_proto s) (sr_target s))"
  have inv: "reg_inv ?reg"
    using reg_step_inv [OF Cons.prems(1), of "Publish ?nd (se_session_id e) (se_epoch e) (sr_name s) (sr_proto s) (sr_target s)"] by simp
  have lk: "lookup (publish_all ?reg e ss) ?nd q = Some v" using Cons.prems(3) by (simp add: publish_all_def)
  have dist: "distinct (map sr_name ss)" using Cons.prems(2) by simp
  from Cons.IH [OF inv dist lk] show ?case
  proof (elim disjE bexE conjE)
    assume "lookup ?reg ?nd q = Some v"
    from publish_lookup [OF Cons.prems(1) this] show ?thesis
    proof (elim disjE conjE)
      assume *: "q = sr_name s" "sl_target v = sr_target s" "sl_proto v = sr_proto s" "lookup reg ?nd (sr_name s) = None \<longrightarrow> sl_revision v = 1"
      show ?thesis by (rule disjI2, rule bexI [of _ s]) (use * in simp_all)
    qed (rule disjI1)
  next
    fix sv
    assume here: "sv \<in> set ss" "sr_name sv = q" "sl_target v = sr_target sv" "sl_proto v = sr_proto sv"
      "lookup ?reg ?nd q = None \<longrightarrow> sl_revision v = 1"
    then have "q \<in> sr_name ` set ss" by blast
    moreover have "sr_name s \<notin> sr_name ` set ss" using Cons.prems(2) by simp
    ultimately have "q \<noteq> sr_name s" by metis
    then have "lookup reg ?nd q = None \<longrightarrow> lookup ?reg ?nd q = None"
      using publish_lookup [OF Cons.prems(1), of ?nd "se_session_id e" "se_epoch e" "sr_name s" "sr_proto s" "sr_target s" ?nd q]
      by (cases "lookup ?reg ?nd q") simp_all
    with here show ?thesis by (intro disjI2 bexI [of _ sv]) simp_all
  qed
qed (simp add: publish_all_def)

lemma find_named: "distinct (map k xs) \<Longrightarrow> x \<in> set xs \<Longrightarrow> List.find (\<lambda>y. k y = k x) xs = Some x"
  by (induction xs) auto

lemma register_ready_lookup: "reg_inv reg \<Longrightarrow> lookup (fst (register_ready reg n sid ep)) n q = None"
  by (simp add: register_ready_def Let_def lookup_def reg_bump_def reg_inv_def map_of_bt_insert)

lemma permits_iff:
  "permits_node_address c policy host \<longleftrightarrow>
     (\<exists>ip net. parse_ip host = Some ip \<and> net \<in> set (ip_allow_node_address policy) \<and> net_contains c net ip)"
  by (auto simp: permits_node_address_def list_ex_iff split: option.splits)

lemma resolve_service_iff:
  assumes "open_destination f = Service nid name revn"
  shows "resolve_inbound c nid services policy f = Inr t \<longleftrightarrow> (revn = None \<or> revn = Some 1)
    \<and> (\<exists>a sv b. services = a @ sv # b \<and> (\<forall>x \<in> set a. sr_name x \<noteq> name) \<and> sr_name sv = name \<and> inbound_target (sr_target sv) = Some t)"
proof (cases "List.find (\<lambda>s. sr_name s = name) services")
  case None
  then have "\<forall>x \<in> set services. sr_name x \<noteq> name" unfolding find_None_iff by blast
  with None assms show ?thesis by (auto simp: resolve_inbound_def)
next
  case (Some sv)
  have uniq: "(\<exists>a b. services = a @ x # b \<and> sr_name x = name \<and> (\<forall>y \<in> set a. sr_name y \<noteq> name)) \<longleftrightarrow> x = sv" for x
    using Some unfolding list_find_first [of "\<lambda>s. sr_name s = name" services x, symmetric] by auto
  have "resolve_inbound c nid services policy f = Inr t \<longleftrightarrow> (revn = None \<or> revn = Some 1) \<and> inbound_target (sr_target sv) = Some t"
    using Some assms by (auto simp: resolve_inbound_def split: option.split)
  also have "\<dots> \<longleftrightarrow> (revn = None \<or> revn = Some 1) \<and> (\<exists>x. x = sv \<and> inbound_target (sr_target x) = Some t)" by simp
  also have "\<dots> \<longleftrightarrow> (revn = None \<or> revn = Some 1)
    \<and> (\<exists>x. (\<exists>a b. services = a @ x # b \<and> sr_name x = name \<and> (\<forall>y \<in> set a. sr_name y \<noteq> name)) \<and> inbound_target (sr_target x) = Some t)"
    unfolding uniq ..
  finally show ?thesis by (simp only: ex_simps [symmetric] conj_ac) (subst ex_comm, simp only: conj_ac)
qed

section \<open>Properties\<close>

text \<open>C30: What a node does with an inbound \<open>Open\<close> is decided by its own configuration alone. It passes a chain on exactly when
  hops are left or the destination names another node, and only with its consent. It dials exactly the target that its own
  table gives the named service, at the revision it has, or an address its own allowlist contains as a literal; it never
  dials a name it was sent.\<close>

theorem inbound_plan_iff:
  "plan_inbound c nid services policy f = Inr plan \<longleftrightarrow>
    (if open_via f \<noteq> [] \<or> (\<exists>nd. named_node (open_destination f) = Some nd \<and> nd \<noteq> nid)
     then ip_relay_forward policy \<and> plan = Forward
     else (case open_destination f of
        Service _ name revn \<Rightarrow>
          (revn = None \<or> revn = Some 1)
          \<and> (\<exists>a sv b t. services = a @ sv # b \<and> (\<forall>x \<in> set a. sr_name x \<noteq> name) \<and> sr_name sv = name
               \<and> inbound_target (sr_target sv) = Some t \<and> plan = Dial t)
      | Address host port \<Rightarrow>
          port \<noteq> 0 \<and> plan = Dial \<lparr>rt_host = host, rt_port = port\<rparr>
          \<and> (\<exists>ip net. parse_ip host = Some ip \<and> net \<in> set (ip_allow_node_address policy) \<and> net_contains c net ip)
      | NodeAddress _ host port \<Rightarrow>
          port \<noteq> 0 \<and> plan = Dial \<lparr>rt_host = host, rt_port = port\<rparr>
          \<and> (\<exists>ip net. parse_ip host = Some ip \<and> net \<in> set (ip_allow_node_address policy) \<and> net_contains c net ip)))"
proof (cases "open_via f = []")
  case False
  then show ?thesis by (auto simp: plan_inbound_def continue_chain_def)
next
  case True
  show ?thesis
  proof (cases "open_destination f")
    case (Address host port)
    with True show ?thesis by (auto simp: plan_inbound_def permits_iff)
  next
    case (Service nd name revn)
    show ?thesis
    proof (cases "nd = nid")
      case False
      with True Service show ?thesis by (auto simp: plan_inbound_def continue_chain_def)
    next
      case same: True
      have "plan_inbound c nid services policy f = Inr plan \<longleftrightarrow> (\<exists>t. resolve_inbound c nid services policy f = Inr t \<and> plan = Dial t)"
        using True Service same by (auto simp: plan_inbound_def rbind_eq_Inr)
      then show ?thesis using resolve_service_iff [OF Service [unfolded same], of c services policy] True Service same by auto
    qed
  next
    case (NodeAddress nd host port)
    with True show ?thesis
      by (auto simp: plan_inbound_def continue_chain_def resolve_inbound_def permits_iff rbind_eq_Inr)
  qed
qed

theorem inbound_plan_iff_witness:
  "plan_inbound no_nets ''a'' [\<lparr>sr_name = ''w'', sr_proto = Tcp, sr_target = ''h:1''\<rparr>] policy_deny_all (web_open\<lparr>open_via := [''b'']\<rparr>) \<noteq> Inr Forward
   \<and> plan_inbound no_nets ''a'' [\<lparr>sr_name = ''w'', sr_proto = Tcp, sr_target = ''h:1''\<rparr>] (with_relay_forward policy_deny_all True)
        (web_open\<lparr>open_via := [''b'']\<rparr>) = Inr Forward"
  unfolding inbound_plan_iff by (simp add: policy_deny_all_def with_relay_forward_def)

text \<open>The Hub and the publisher mean the same target: when a node's \<open>Hello\<close> registered the services it publishes, under
  distinct names, and the Hub then grants an \<open>Open\<close> of a service of that node, the node resolves the \<open>Open\<close> it is handed to
  exactly the target the Hub granted, pinned revision included.\<close>

theorem hub_and_publisher_agree:
  assumes inv: "reg_inv reg" and d: "distinct (map sr_name services)"
    and reg: "hb_registry hub = publish_all (fst (register_ready reg (se_node_id e) (se_session_id e) (se_epoch e))) e services"
    and au: "authorize_open c hub caller f = Inr (ServiceExit (se_node_id e) name tgt revn)"
  shows "\<exists>host port. parse_target tgt = Some (host, port)
    \<and> plan_inbound c (se_node_id e) services policy f = Inr (Dial \<lparr>rt_host = host, rt_port = port\<rparr>)"
proof -
  let ?nd = "se_node_id e" and ?before = "fst (register_ready reg (se_node_id e) (se_session_id e) (se_epoch e))"
  have i: "reg_inv ?before" "reg_inv (hb_registry hub)" unfolding reg
    using registry_calls_inv(1) [OF inv] registry_calls_inv(3) by blast+
  have via: "open_via f = []" and leg: "final_leg hub f = Inr (ServiceExit ?nd name tgt revn)"
    using au by (auto simp: authorize_open_def rbind_eq_Inr split: if_splits sum.splits)
  from leg obtain nm rv lease where dest: "open_destination f = Service ?nd nm rv" "lookup (hb_registry hub) ?nd nm = Some lease"
      "rv = None \<or> rv = Some (sl_revision lease)" "name = nm" "tgt = sl_target lease"
    unfolding final_leg_iff [OF i(2)] by (auto simp: final_leg_ok_def split: Destination.splits)
  from publish_all_lookup [OF i(1) d] dest(2) register_ready_lookup [OF inv] obtain sv where
    sv: "sv \<in> set services" "sr_name sv = nm" "sl_target lease = sr_target sv" "sl_revision lease = 1"
    unfolding reg by fastforce
  have find: "List.find (\<lambda>s. sr_name s = nm) services = Some sv" using find_named [OF d sv(1)] sv(2) by simp
  have "parse_target tgt \<noteq> None" using dest(2,5) i(2)
    by (auto simp: lookup_def reg_inv_def lease_ok_def service_ok_def split: option.splits)
  then obtain host port where pt: "parse_target tgt = Some (host, port)" by auto
  have "inbound_target (sr_target sv) = Some \<lparr>rt_host = host, rt_port = port\<rparr>"
    using pt sv(3) dest(5) by (simp add: inbound_target_parse)
  with via dest find sv(4) have "plan_inbound c ?nd services policy f = Inr (Dial \<lparr>rt_host = host, rt_port = port\<rparr>)"
    by (auto simp: plan_inbound_def resolve_inbound_def result_simps)
  with pt show ?thesis by blast
qed

theorem hub_and_publisher_agree_witness:
  "plan_inbound no_nets ''a'' [\<lparr>sr_name = ''w'', sr_proto = Tcp, sr_target = ''h:1''\<rparr>] policy_deny_all web_open = Inr (Dial \<lparr>rt_host = ''h'', rt_port = 1\<rparr>)"
proof -
  let ?ss = "[\<lparr>sr_name = ''w'', sr_proto = Tcp, sr_target = ''h:1''\<rparr>]" and ?e = "(node_entry [1] ''a'')\<lparr>se_epoch := [1]\<rparr>"
  have e: "se_node_id ?e = ''a''" "se_session_id ?e = [1]" "se_epoch ?e = [1]" by (simp_all add: node_entry_def entry_new_def)
  have reg: "hb_registry two_sessions
      = publish_all (fst (register_ready (Registry_new ''h'') (se_node_id ?e) (se_session_id ?e) (se_epoch ?e))) ?e ?ss"
    unfolding publish_all_def e by (simp add: two_sessions_def sample_hub_def reg_run_def)
  have "authorize_open no_nets two_sessions ''b'' web_open = Inr (ServiceExit (se_node_id ?e) ''w'' ''h:1'' 1)"
    using web_open_granted e by simp
  from hub_and_publisher_agree [OF reg_inv_new _ reg this, of policy_deny_all] e target_examples show ?thesis by auto
qed

text \<open>An inbound task loses nothing in between: at every point, however reads, messages and other tasks interleave, the
  bytes that wait are those read from the target and not yet sent, so byte \<open>n\<close> of the target travels at offset \<open>n\<close>, and a
  \<open>Fin\<close> is sent only after the target's end and with every byte sent. A send that fails keeps its bytes.\<close>

theorem inbound_loses_nothing:
  assumes "\<forall>en. map_of (streams s0) sid = Some en \<longrightarrow> send_offset en = 0"
    and "inbound_run cr sid (s0, pump_new, AtHead) ops = (s, p, ph)" "ph \<noteq> Finished" "map_of (streams s) sid = Some en"
  shows "tp_in p = take (send_offset en) (tp_in p) @ tp_pending p \<and> length (tp_pending p) \<le> 16384
    \<and> (tp_fin_sent p \<longrightarrow> tp_eof p \<and> send_offset en = length (tp_in p))"
proof -
  have "inbound_inv sid (s0, pump_new, AtHead)" using assms(1) by (auto simp: inbound_inv_def pump_new_def leg_at_def)
  from inbound_run_inv [OF this, of cr ops] assms(2-4) show ?thesis
    by (auto simp: inbound_inv_def leg_at_def INBOUND_READ_CHUNK_def)
qed

theorem inbound_loses_nothing_witness:
  "\<exists>p. inbound_run null_crate 1 (sample_end NodeSide, pump_new, AtHead) [InHead, InInput (TargetRead [7, 8])] = (sample_end NodeSide, p, AtHead)
     \<and> tp_in p = [7, 8] \<and> tp_pending p = [7, 8]"
proof -
  let ?s = "sample_end NodeSide" and ?en = "StreamEntry_new FLOW_WINDOW_BYTES"
  have en: "map_of (streams ?s) 1 = Some ?en" "send_offset ?en = 0"
    by (simp_all add: sample_end_defs StreamEntry_new_def Let_def)
  have d: "inbound_deliver null_crate ?s 1 [] = (?s, [])" by (subst inbound_deliver.simps) simp
  obtain p where run: "inbound_run null_crate 1 (?s, pump_new, AtHead) [InHead, InInput (TargetRead [7, 8])] = (?s, p, AtHead)"
    and pin: "tp_in p = [7, 8]"
    using d by (simp add: inbound_run_def inbound_step_def inbound_head_def inbound_shutdown_def inbound_input_step_def pump_new_def
        INBOUND_READ_CHUNK_def Let_def)
  have fresh: "\<forall>en. map_of (streams ?s) 1 = Some en \<longrightarrow> send_offset en = 0" using en by simp
  from inbound_loses_nothing [OF fresh run _ en(1)] en(2) pin have "tp_pending p = [7, 8]" by simp
  with run pin show ?thesis by blast
qed

end
