(* ===== verification/Config.thy ===== *)
theory Config
  imports Node_Inbound
begin

text \<open>
  \<open>crates/wsnet-config/src/lib.rs\<close>: the schema of \<open>server.toml\<close> and \<open>client.toml\<close>, its defaults and the checks that run
  when a document is loaded. The TOML reader (with the derived deserialisers) and the file system are parameters, \<open>IpNet\<close>
  is \<open>ipnet_crate\<close>; a path is its text. The loops over a list with its indices are \<open>enumerate_r\<close>.
\<close>

section \<open>Errors\<close>

datatype ConfigError =
    Toml string
  | Io string string                         \<comment> \<open>path, message\<close>
  | AuthWindowOutOfRange nat nat nat         \<comment> \<open>value, min, max\<close>
  | InvalidListen string string              \<comment> \<open>field, value; so below\<close>
  | ZeroPort string string
  | InvalidTarget string string
  | InvalidCidr string string
  | NotASlug string string
  | EmptyField string
  | EmptySecretFile string
  | Duplicate string string
  | DuplicateHubId string
  | NonLoopbackWithoutAllowlist string string
  | InvalidUrl string string
  | UnknownHub string string
  | OutOfRange string nat nat nat
  | NotPositive string nat
  | WindowExceedsSession string nat nat
  | InvertedDecoyInterval nat nat
  | UdpPayloadOutOfRange string nat nat
  | UdpDisabled string
  | MissingDestination string
  | EmptyProfiles string
  | UnknownProfile string string
  | InvalidSuffix string string
  | Acl nat AclError
  | RouterError RouteError                   \<comment> \<open>\<open>ConfigError::Router\<close>\<close>
  | Chain string RouteError
  | BadDestination string DestinationError   \<comment> \<open>\<open>ConfigError::Destination\<close>\<close>

section \<open>Default values\<close>

definition default_hub_id :: string where "default_hub_id = ''hub''"
definition default_node_id :: string where "default_node_id = ''node''"
definition default_server_listen :: string where "default_server_listen = ''127.0.0.1:8443''"
definition default_socks_listen :: string where "default_socks_listen = ''127.0.0.1:1080''"
definition default_decoy_site :: string where "default_decoy_site = ''builtin''"
definition default_auth_window :: nat where "default_auth_window = AUTH_WINDOW_DEFAULT_SECS"
definition default_nonce_max :: nat where "default_nonce_max = AUTH_NONCE_PER_NODE_MAX"
definition default_udp_max_payload :: nat where "default_udp_max_payload = UDP_MAX_PAYLOAD_DEFAULT"
definition default_udp_queue_ttl :: nat where "default_udp_queue_ttl = UDP_QUEUE_TTL_DEFAULT_MS"
definition default_data_fallback :: bool where "default_data_fallback = True"
definition default_max_candidates :: nat where "default_max_candidates = MAX_AUTH_CANDIDATES"
definition default_resume_grace :: nat where "default_resume_grace = CARRIER_GRACE_SECS"
definition default_flow_window :: nat where "default_flow_window = FLOW_WINDOW_BYTES"
definition default_session_window :: nat where "default_session_window = SESSION_WINDOW_BYTES"
definition default_control_reserve :: nat where "default_control_reserve = CONTROL_QUEUE_BYTES"
definition default_profiles :: "string list" where "default_profiles = [''binary'']"
definition default_decoy_interval_min :: nat where "default_decoy_interval_min = BACKGROUND_JITTER_MIN_SECS"
definition default_decoy_interval_max :: nat where "default_decoy_interval_max = BACKGROUND_JITTER_MAX_SECS"
definition default_decoy_budget :: nat where "default_decoy_budget = BACKGROUND_BUDGET_BYTES_PER_SEC"
definition default_namespace_suffix :: string where "default_namespace_suffix = ''wsnet.invalid''"
definition default_proto :: Proto where "default_proto = Tcp"
definition default_hub :: string where "default_hub = ''auto''"
definition default_priority :: nat where "default_priority = 1"

lemmas config_defaults = default_hub_id_def default_node_id_def default_server_listen_def default_socks_listen_def
  default_decoy_site_def default_auth_window_def default_nonce_max_def default_udp_max_payload_def
  default_udp_queue_ttl_def default_data_fallback_def default_max_candidates_def default_resume_grace_def
  default_flow_window_def default_session_window_def default_control_reserve_def default_profiles_def
  default_decoy_interval_min_def default_decoy_interval_max_def default_decoy_budget_def default_namespace_suffix_def
  default_proto_def default_hub_def default_priority_def

definition SUPPORTED_PROFILES :: "string list" where
  "SUPPORTED_PROFILES = [''binary'', ''json'', ''html'', ''js'', ''css'']"

section \<open>Checks of fields\<close>

text \<open>A loop \<open>for (index, x) in xs.iter().enumerate()\<close> that carries a state and returns at the first error.\<close>

fun enumerate_r :: "(nat \<Rightarrow> 'a \<Rightarrow> 's \<Rightarrow> 'e + 's) \<Rightarrow> nat \<Rightarrow> 'a list \<Rightarrow> 's \<Rightarrow> 'e + 's" where
  "enumerate_r f i [] s = Inr s"
| "enumerate_r f i (x # xs) s = rbind (f i x s) (enumerate_r f (i + 1) xs)"

text \<open>\<open>format!("{name}[{index}]{tail}")\<close>\<close>

definition at_index :: "string \<Rightarrow> nat \<Rightarrow> string \<Rightarrow> string" where
  "at_index name index rest = name @ ''['' @ dec index @ '']'' @ rest"

definition parse_host_port :: "string \<Rightarrow> (string \<times> nat) option" where
  "parse_host_port value =
     (case (case strip_prefix ''['' value of
              Some rest \<Rightarrow>
                (case split_once CHR '']'' rest of
                   Some (host, trailing) \<Rightarrow> map_option (\<lambda>port_text. (host, port_text)) (strip_prefix '':'' trailing)
                 | None \<Rightarrow> None)
            | None \<Rightarrow>
                (case rsplit_once CHR '':'' value of
                   Some (host, port_text) \<Rightarrow> if CHR '':'' \<in> set host then None else Some (host, port_text)
                 | None \<Rightarrow> None)) of
        None \<Rightarrow> None
      | Some (host, port_text) \<Rightarrow>
          if host = [] \<or> list_ex (\<lambda>c. is_whitespace c \<or> c \<in> {0x2F, 0x40, 0x3F, 0x23}) (chars host) then None
          else map_option (\<lambda>port. (host, port)) (parse_unsigned u16_max port_text))"

definition is_loopback_host :: "string \<Rightarrow> bool" where
  "is_loopback_host host =
     (if eq_ignore_ascii_case host ''localhost'' then True
      else case parse_ip host of Some ip \<Rightarrow> is_loopback ip | None \<Rightarrow> False)"

definition check_allow_from :: "'net ipnet_crate \<Rightarrow> string \<Rightarrow> string list \<Rightarrow> ConfigError + unit" where
  "check_allow_from c fld allow_from =
     enumerate_r (\<lambda>index entry _.
       if parse_net c entry = None then Inl (InvalidCidr (at_index (fld @ ''.allow_from'') index []) entry) else Inr ())
       0 allow_from ()"

definition check_listener :: "'net ipnet_crate \<Rightarrow> string \<Rightarrow> string \<Rightarrow> string list \<Rightarrow> bool \<Rightarrow> ConfigError + unit" where
  "check_listener c fld value allow_from port_zero_allowed =
     (case parse_host_port value of
        None \<Rightarrow> Inl (InvalidListen fld value)
      | Some (host, port) \<Rightarrow>
          if port = 0 \<and> \<not> port_zero_allowed then Inl (ZeroPort fld value)
          else rbind (check_allow_from c fld allow_from) (\<lambda>_.
            if \<not> is_loopback_host host \<and> allow_from = [] then Inl (NonLoopbackWithoutAllowlist fld value) else Inr ()))"

definition check_slug :: "string \<Rightarrow> string \<Rightarrow> ConfigError + unit" where
  "check_slug fld value =
     (if value = [] then Inl (EmptyField fld) else if \<not> is_slug value then Inl (NotASlug fld value) else Inr ())"

definition check_non_empty :: "string \<Rightarrow> string \<Rightarrow> ConfigError + unit" where
  "check_non_empty fld value = (if trim value = [] then Inl (EmptyField fld) else Inr ())"

definition check_secret_file :: "string \<Rightarrow> string \<Rightarrow> ConfigError + unit" where
  "check_secret_file fld path = (if path = [] then Inl (EmptySecretFile fld) else Inr ())"

definition check_url :: "string \<Rightarrow> string \<Rightarrow> ConfigError + unit" where
  "check_url fld value =
     (case (case strip_prefix ''https://'' value of Some a \<Rightarrow> Some a | None \<Rightarrow> strip_prefix ''http://'' value) of
        Some authority \<Rightarrow>
          if authority \<noteq> [] \<and> hd authority \<noteq> CHR ''/'' \<and> \<not> list_ex is_whitespace (chars authority) then Inr ()
          else Inl (InvalidUrl fld value)
      | None \<Rightarrow> Inl (InvalidUrl fld value))"

definition check_range :: "string \<Rightarrow> nat \<Rightarrow> nat \<Rightarrow> nat \<Rightarrow> ConfigError + unit" where
  "check_range fld value mn mx = (if \<not> (mn \<le> value \<and> value \<le> mx) then Inl (OutOfRange fld value mn mx) else Inr ())"

definition check_window :: "string \<Rightarrow> nat \<Rightarrow> nat \<Rightarrow> ConfigError + unit" where
  "check_window fld value session =
     (if value = 0 then Inl (NotPositive fld value)
      else if value > session then Inl (WindowExceedsSession fld value session) else Inr ())"

definition is_valid_dns_suffix :: "string \<Rightarrow> bool" where
  "is_valid_dns_suffix value =
     (if value = [] \<or> length value > 253 then False
      else list_all (\<lambda>label. label \<noteq> [] \<and> length label \<le> 63 \<and> hd label \<noteq> CHR ''-'' \<and> List.last label \<noteq> CHR ''-''
        \<and> list_all (\<lambda>b. is_ascii_alphanumeric b \<or> b = ch CHR ''-'') (as_bytes label)) (split_on CHR ''.'' value))"

definition check_acl_rule :: "'net ipnet_crate \<Rightarrow> nat \<Rightarrow> AclRule \<Rightarrow> ConfigError + unit" where
  "check_acl_rule c index rule =
     rbind (check_slug (at_index ''acl'' index ''.caller'') (rule_caller rule)) (\<lambda>_.
     rbind (case rule_node rule of Some nd \<Rightarrow> check_slug (at_index ''acl'' index ''.node'') nd | None \<Rightarrow> Inr ()) (\<lambda>_.
     rbind (case rule_service rule of Some sv \<Rightarrow> check_slug (at_index ''acl'' index ''.service'') sv | None \<Rightarrow> Inr ()) (\<lambda>_.
     case rule_host_cidr rule of
       Some cidr \<Rightarrow> if parse_net c cidr = None then Inl (Acl index (AclError.InvalidCidr cidr)) else Inr ()
     | None \<Rightarrow> Inr ())))"

definition check_acl :: "'net ipnet_crate \<Rightarrow> AclRule list \<Rightarrow> ConfigError + unit" where
  "check_acl c rules = enumerate_r (\<lambda>index rule _. check_acl_rule c index rule) 0 rules ()"

section \<open>server.toml\<close>

record ServerSection =
  ss_hub_id :: string
  ss_listen :: string
  ss_allow_from :: "string list"
  ss_relay_allow :: "string list"
  ss_auth_window_secs :: nat
  ss_auth_nonce_max_per_node :: nat
  ss_auth_nonce_store :: "string option"
  ss_decoy_site :: string

record NodeConfig =
  nc_id :: string
  nc_key_id :: string
  nc_secret_file :: string

record ServerConfig =
  sc_server :: ServerSection
  sc_nodes :: "NodeConfig list"
  sc_acl :: "AclRule list"

definition server_section_default :: ServerSection where
  "server_section_default =
     \<lparr>ss_hub_id = default_hub_id, ss_listen = default_server_listen, ss_allow_from = [], ss_relay_allow = [],
      ss_auth_window_secs = default_auth_window, ss_auth_nonce_max_per_node = default_nonce_max,
      ss_auth_nonce_store = None, ss_decoy_site = default_decoy_site\<rparr>"

definition server_section_validate :: "'net ipnet_crate \<Rightarrow> ServerSection \<Rightarrow> ConfigError + unit" where
  "server_section_validate c s =
     rbind (check_slug ''server.hub_id'' (ss_hub_id s)) (\<lambda>_.
     rbind (check_listener c ''server.listen'' (ss_listen s) (ss_allow_from s) False) (\<lambda>_.
     rbind (if \<not> (AUTH_WINDOW_MIN_SECS \<le> ss_auth_window_secs s \<and> ss_auth_window_secs s \<le> AUTH_WINDOW_MAX_SECS)
            then Inl (AuthWindowOutOfRange (ss_auth_window_secs s) AUTH_WINDOW_MIN_SECS AUTH_WINDOW_MAX_SECS)
            else Inr ()) (\<lambda>_.
     rbind (check_range ''server.auth_nonce_max_per_node'' (ss_auth_nonce_max_per_node s) 1 AUTH_NONCE_PER_NODE_MAX) (\<lambda>_.
     rbind (case ss_auth_nonce_store s of
              Some store \<Rightarrow> if store = [] then Inl (EmptyField ''server.auth_nonce_store'') else Inr ()
            | None \<Rightarrow> Inr ()) (\<lambda>_.
     check_non_empty ''server.decoy_site'' (ss_decoy_site s))))))"

definition node_validate :: "nat \<Rightarrow> NodeConfig \<Rightarrow> ConfigError + unit" where
  "node_validate index n =
     rbind (check_slug (at_index ''nodes'' index ''.id'') (nc_id n)) (\<lambda>_.
     rbind (check_non_empty (at_index ''nodes'' index ''.key_id'') (nc_key_id n)) (\<lambda>_.
     check_secret_file (at_index ''nodes'' index ''.secret_file'') (nc_secret_file n)))"

definition node_turn :: "nat \<Rightarrow> NodeConfig \<Rightarrow> string list \<Rightarrow> ConfigError + string list" where
  "node_turn index n node_ids =
     rbind (node_validate index n) (\<lambda>_.
       if nc_id n \<in> set node_ids then Inl (Duplicate (at_index ''nodes'' index ''.id'') (nc_id n))
       else Inr (node_ids @ [nc_id n]))"

definition server_validate :: "'net ipnet_crate \<Rightarrow> ServerConfig \<Rightarrow> ConfigError + unit" where
  "server_validate c cfg =
     rbind (server_section_validate c (sc_server cfg)) (\<lambda>_.
     rbind (enumerate_r node_turn 0 (sc_nodes cfg) []) (\<lambda>_.
     rbind (enumerate_r (\<lambda>index nd _. check_slug (at_index ''server.relay_allow'' index []) nd) 0
              (ss_relay_allow (sc_server cfg)) ()) (\<lambda>_.
     check_acl c (sc_acl cfg))))"

definition server_parse_toml :: "(string \<Rightarrow> string + ServerConfig) \<Rightarrow> string \<Rightarrow> ConfigError + ServerConfig" where
  "server_parse_toml toml text = map_err Toml (toml text)"

definition server_from_toml ::
  "'net ipnet_crate \<Rightarrow> (string \<Rightarrow> string + ServerConfig) \<Rightarrow> string \<Rightarrow> ConfigError + ServerConfig" where
  "server_from_toml c toml text =
     rbind (server_parse_toml toml text) (\<lambda>cfg. rbind (server_validate c cfg) (\<lambda>_. Inr cfg))"

definition server_load_from_path ::
  "'net ipnet_crate \<Rightarrow> (string \<Rightarrow> string + ServerConfig) \<Rightarrow> (string \<Rightarrow> string + string) \<Rightarrow> string \<Rightarrow> ConfigError + ServerConfig" where
  "server_load_from_path c toml read_file path = rbind (map_err (Io path) (read_file path)) (server_from_toml c toml)"

definition server_acl_table :: "'net ipnet_crate \<Rightarrow> ServerConfig \<Rightarrow> AclError + 'net AclTable" where
  "server_acl_table c cfg = AclTable_new c (sc_acl cfg)"

definition server_relay_allow :: "ServerConfig \<Rightarrow> RelayAllow" where
  "server_relay_allow cfg = RelayAllow_new (ss_relay_allow (sc_server cfg))"

section \<open>client.toml\<close>

datatype ClientCarrier = AutoCarrier | Post | Ws   \<comment> \<open>\<open>ClientCarrier::Auto\<close> first\<close>

definition default_carrier :: ClientCarrier where "default_carrier = AutoCarrier"

record ClientSection =
  cs_node_id :: string
  cs_socks_listen :: string
  cs_carrier :: ClientCarrier
  cs_allow_from :: "string list"
  cs_udp_enabled :: bool
  cs_allow_node_address :: "string list"
  cs_relay_forward :: bool
  cs_udp_max_payload_bytes :: nat
  cs_udp_queue_ttl_ms :: nat

record ServerEntry =
  sve_hub_id :: string
  sve_url :: string
  sve_key_id :: string
  sve_secret_file :: string
  sve_priority :: nat

record ServiceConfig =
  svc_name :: string
  svc_proto :: Proto
  svc_target :: string

record ForwardConfig =
  fwd_name :: string
  fwd_listen :: string
  fwd_proto :: Proto
  fwd_hub :: string
  fwd_via :: "string list"
  fwd_allow_from :: "string list"
  fwd_destination :: "Destination option"

record SocksNamespace =
  ns_enabled :: bool
  ns_suffix :: string

record TransportSection =
  ts_data_fallback :: bool
  ts_max_candidates :: nat
  ts_resume_grace_secs :: nat
  ts_flow_window_bytes :: nat
  ts_session_window_bytes :: nat
  ts_control_reserve_bytes :: nat
  ts_profiles :: "string list"

record DecoySection =
  ds_enabled :: bool
  ds_interval_min_secs :: nat
  ds_interval_max_secs :: nat
  ds_max_bytes_per_sec :: nat
  ds_allowed_origins :: "string list"

record ClientConfig =
  cc_client :: ClientSection
  cc_servers :: "ServerEntry list"
  cc_router :: Router
  cc_services :: "ServiceConfig list"
  cc_forwards :: "ForwardConfig list"
  cc_acl :: "AclRule list"
  cc_socks_service_namespace :: SocksNamespace
  cc_transport :: TransportSection
  cc_decoy :: DecoySection

definition client_section_default :: ClientSection where
  "client_section_default =
     \<lparr>cs_node_id = default_node_id, cs_socks_listen = default_socks_listen, cs_carrier = default_carrier,
      cs_allow_from = [], cs_udp_enabled = False, cs_allow_node_address = [], cs_relay_forward = False,
      cs_udp_max_payload_bytes = default_udp_max_payload, cs_udp_queue_ttl_ms = default_udp_queue_ttl\<rparr>"

definition client_section_validate :: "'net ipnet_crate \<Rightarrow> ClientSection \<Rightarrow> ConfigError + unit" where
  "client_section_validate c s =
     rbind (check_slug ''client.node_id'' (cs_node_id s)) (\<lambda>_.
     rbind (check_listener c ''client.socks_listen'' (cs_socks_listen s) (cs_allow_from s) False) (\<lambda>_.
     rbind (enumerate_r (\<lambda>index cidr _.
              if parse_net c cidr = None then Inl (InvalidCidr (at_index ''client.allow_node_address'' index []) cidr)
              else Inr ()) 0 (cs_allow_node_address s) ()) (\<lambda>_.
     rbind (if cs_udp_max_payload_bytes s = 0 \<or> cs_udp_max_payload_bytes s > MAX_UDP_PAYLOAD
            then Inl (UdpPayloadOutOfRange ''client.udp_max_payload_bytes'' (cs_udp_max_payload_bytes s) MAX_UDP_PAYLOAD)
            else Inr ()) (\<lambda>_.
     check_range ''client.udp_queue_ttl_ms'' (cs_udp_queue_ttl_ms s) UDP_QUEUE_TTL_MIN_MS UDP_QUEUE_TTL_MAX_MS))))"

definition server_entry_validate :: "nat \<Rightarrow> ServerEntry \<Rightarrow> ConfigError + unit" where
  "server_entry_validate index e =
     rbind (check_slug (at_index ''servers'' index ''.hub_id'') (sve_hub_id e)) (\<lambda>_.
     rbind (check_url (at_index ''servers'' index ''.url'') (sve_url e)) (\<lambda>_.
     rbind (check_non_empty (at_index ''servers'' index ''.key_id'') (sve_key_id e)) (\<lambda>_.
     check_secret_file (at_index ''servers'' index ''.secret_file'') (sve_secret_file e))))"

definition service_validate :: "nat \<Rightarrow> ServiceConfig \<Rightarrow> ConfigError + unit" where
  "service_validate index s =
     rbind (check_slug (at_index ''services'' index ''.name'') (svc_name s)) (\<lambda>_.
     let fld = at_index ''services'' index ''.target'' in
     case parse_host_port (svc_target s) of
       None \<Rightarrow> Inl (InvalidTarget fld (svc_target s))
     | Some (_, port) \<Rightarrow> if port = 0 then Inl (ZeroPort fld (svc_target s)) else Inr ())"

definition forward_validate ::
  "'net ipnet_crate \<Rightarrow> nat \<Rightarrow> ForwardConfig \<Rightarrow> string \<Rightarrow> string list \<Rightarrow> bool \<Rightarrow> ConfigError + unit" where
  "forward_validate c index f nid hub_ids udp_on =
     (let fld = at_index ''forwards'' index [] in
      rbind (check_slug (fld @ ''.name'') (fwd_name f)) (\<lambda>_.
      rbind (check_listener c (fld @ ''.listen'') (fwd_listen f) (fwd_allow_from f) True) (\<lambda>_.
      if fwd_hub f \<noteq> ''auto'' \<and> fwd_hub f \<notin> set hub_ids then Inl (UnknownHub (fld @ ''.hub'') (fwd_hub f))
      else case fwd_destination f of
        None \<Rightarrow> Inl (MissingDestination (fld @ ''.destination''))
      | Some destination \<Rightarrow>
          rbind (map_err (BadDestination (fld @ ''.destination'')) (dest_validate destination)) (\<lambda>_.
          if fwd_proto f = Udp \<and> \<not> udp_on then Inl (UdpDisabled fld)
          else map_err (Chain (at_index ''forwards'' index ''.via'')) (validate_chain nid (fwd_via f) destination)))))"

definition namespace_default :: SocksNamespace where
  "namespace_default = \<lparr>ns_enabled = False, ns_suffix = default_namespace_suffix\<rparr>"

definition namespace_validate :: "SocksNamespace \<Rightarrow> ConfigError + unit" where
  "namespace_validate n =
     (if \<not> ns_enabled n then Inr ()
      else if \<not> is_valid_dns_suffix (ns_suffix n) then Inl (InvalidSuffix ''socks_service_namespace.suffix'' (ns_suffix n))
      else Inr ())"

definition transport_default :: TransportSection where
  "transport_default =
     \<lparr>ts_data_fallback = default_data_fallback, ts_max_candidates = default_max_candidates,
      ts_resume_grace_secs = default_resume_grace, ts_flow_window_bytes = default_flow_window,
      ts_session_window_bytes = default_session_window, ts_control_reserve_bytes = default_control_reserve,
      ts_profiles = default_profiles\<rparr>"

definition profile_turn :: "nat \<Rightarrow> string \<Rightarrow> string list \<Rightarrow> ConfigError + string list" where
  "profile_turn index profile seen_names =
     (let fld = at_index ''transport.profiles'' index [] in
      if profile \<notin> set SUPPORTED_PROFILES then Inl (UnknownProfile fld profile)
      else if profile \<in> set seen_names then Inl (Duplicate fld profile)
      else Inr (seen_names @ [profile]))"

definition transport_validate :: "TransportSection \<Rightarrow> ConfigError + unit" where
  "transport_validate t =
     rbind (check_range ''transport.max_candidates'' (ts_max_candidates t) 1 MAX_AUTH_CANDIDATES) (\<lambda>_.
     rbind (check_range ''transport.resume_grace_secs'' (ts_resume_grace_secs t) 1 CARRIER_GRACE_SECS) (\<lambda>_.
     if ts_session_window_bytes t = 0 then Inl (NotPositive ''transport.session_window_bytes'' 0)
     else
       rbind (check_window ''transport.flow_window_bytes'' (ts_flow_window_bytes t) (ts_session_window_bytes t)) (\<lambda>_.
       rbind (check_window ''transport.control_reserve_bytes'' (ts_control_reserve_bytes t) (ts_session_window_bytes t)) (\<lambda>_.
       if ts_profiles t = [] then Inl (EmptyProfiles ''transport.profiles'')
       else rbind (enumerate_r profile_turn 0 (ts_profiles t) []) (\<lambda>_. Inr ())))))"

definition decoy_default :: DecoySection where
  "decoy_default =
     \<lparr>ds_enabled = False, ds_interval_min_secs = default_decoy_interval_min,
      ds_interval_max_secs = default_decoy_interval_max, ds_max_bytes_per_sec = default_decoy_budget,
      ds_allowed_origins = []\<rparr>"

definition decoy_validate :: "DecoySection \<Rightarrow> ConfigError + unit" where
  "decoy_validate d =
     rbind (check_range ''decoy.interval_min_secs'' (ds_interval_min_secs d) BACKGROUND_JITTER_MIN_SECS BACKGROUND_JITTER_MAX_SECS) (\<lambda>_.
     rbind (check_range ''decoy.interval_max_secs'' (ds_interval_max_secs d) BACKGROUND_JITTER_MIN_SECS BACKGROUND_JITTER_MAX_SECS) (\<lambda>_.
     if ds_interval_min_secs d > ds_interval_max_secs d
     then Inl (InvertedDecoyInterval (ds_interval_min_secs d) (ds_interval_max_secs d))
     else
       rbind (check_range ''decoy.max_bytes_per_sec'' (ds_max_bytes_per_sec d) 1 BACKGROUND_BUDGET_BYTES_PER_SEC) (\<lambda>_.
       enumerate_r (\<lambda>index origin _. check_url (at_index ''decoy.allowed_origins'' index []) origin) 0
         (ds_allowed_origins d) ())))"

definition server_entry_turn :: "nat \<Rightarrow> ServerEntry \<Rightarrow> string list \<Rightarrow> ConfigError + string list" where
  "server_entry_turn index e hub_ids =
     rbind (server_entry_validate index e) (\<lambda>_.
       if sve_hub_id e \<in> set hub_ids then Inl (DuplicateHubId (sve_hub_id e)) else Inr (hub_ids @ [sve_hub_id e]))"

definition service_turn :: "bool \<Rightarrow> nat \<Rightarrow> ServiceConfig \<Rightarrow> string list \<Rightarrow> ConfigError + string list" where
  "service_turn udp_on index s service_names =
     rbind (service_validate index s) (\<lambda>_.
       if svc_proto s = Udp \<and> \<not> udp_on then Inl (UdpDisabled (at_index ''services'' index []))
       else if svc_name s \<in> set service_names then Inl (Duplicate (at_index ''services'' index ''.name'') (svc_name s))
       else Inr (service_names @ [svc_name s]))"

definition forward_turn ::
  "'net ipnet_crate \<Rightarrow> string \<Rightarrow> string list \<Rightarrow> bool \<Rightarrow> nat \<Rightarrow> ForwardConfig \<Rightarrow> string list \<times> string list
   \<Rightarrow> ConfigError + string list \<times> string list" where
  "forward_turn c nid hub_ids udp_on index f = (\<lambda>(names, listens).
     rbind (forward_validate c index f nid hub_ids udp_on) (\<lambda>_.
       if fwd_name f \<in> set names then Inl (Duplicate (at_index ''forwards'' index ''.name'') (fwd_name f))
       else if map_option snd (parse_host_port (fwd_listen f)) = Some 0 then Inr (names @ [fwd_name f], listens)
       else if fwd_listen f \<in> set listens then Inl (Duplicate (at_index ''forwards'' index ''.listen'') (fwd_listen f))
       else Inr (names @ [fwd_name f], listens @ [fwd_listen f])))"

definition client_validate :: "'net ipnet_crate \<Rightarrow> ClientConfig \<Rightarrow> ConfigError + unit" where
  "client_validate c cfg =
     (let nid = cs_node_id (cc_client cfg); udp_on = cs_udp_enabled (cc_client cfg) in
      rbind (client_section_validate c (cc_client cfg)) (\<lambda>_.
      rbind (enumerate_r server_entry_turn 0 (cc_servers cfg) []) (\<lambda>hub_ids.
      rbind (map_err RouterError (RouterTable_new c (cc_router cfg))) (\<lambda>_.
      rbind (enumerate_r (\<lambda>index rule _.
               map_err (Chain (at_index ''router.rules'' index ''.via''))
                 (validate_chain nid (rule_via rule) (mk_address ''chain-check.invalid'' 1)))
               0 (router_rules (cc_router cfg)) ()) (\<lambda>_.
      rbind (enumerate_r (service_turn udp_on) 0 (cc_services cfg) []) (\<lambda>_.
      rbind (enumerate_r (forward_turn c nid hub_ids udp_on) 0 (cc_forwards cfg) ([], [])) (\<lambda>_.
      rbind (check_acl c (cc_acl cfg)) (\<lambda>_.
      rbind (namespace_validate (cc_socks_service_namespace cfg)) (\<lambda>_.
      rbind (transport_validate (cc_transport cfg)) (\<lambda>_.
      decoy_validate (cc_decoy cfg)))))))))))"

definition client_parse_toml :: "(string \<Rightarrow> string + ClientConfig) \<Rightarrow> string \<Rightarrow> ConfigError + ClientConfig" where
  "client_parse_toml toml text = map_err Toml (toml text)"

definition client_from_toml ::
  "'net ipnet_crate \<Rightarrow> (string \<Rightarrow> string + ClientConfig) \<Rightarrow> string \<Rightarrow> ConfigError + ClientConfig" where
  "client_from_toml c toml text =
     rbind (client_parse_toml toml text) (\<lambda>cfg. rbind (client_validate c cfg) (\<lambda>_. Inr cfg))"

definition client_load_from_path ::
  "'net ipnet_crate \<Rightarrow> (string \<Rightarrow> string + ClientConfig) \<Rightarrow> (string \<Rightarrow> string + string) \<Rightarrow> string \<Rightarrow> ConfigError + ClientConfig" where
  "client_load_from_path c toml read_file path = rbind (map_err (Io path) (read_file path)) (client_from_toml c toml)"

definition client_acl_table :: "'net ipnet_crate \<Rightarrow> ClientConfig \<Rightarrow> AclError + 'net AclTable" where
  "client_acl_table c cfg = AclTable_new c (cc_acl cfg)"

definition client_router_table :: "'net ipnet_crate \<Rightarrow> ClientConfig \<Rightarrow> RouteError + 'net RouterTable" where
  "client_router_table c cfg = RouterTable_new c (cc_router cfg)"

text \<open>\<open>#[derive(Default)]\<close>\<close>

definition server_config_default :: ServerConfig where
  "server_config_default = \<lparr>sc_server = server_section_default, sc_nodes = [], sc_acl = []\<rparr>"

definition client_config_default :: ClientConfig where
  "client_config_default =
     \<lparr>cc_client = client_section_default, cc_servers = [], cc_router = default_router, cc_services = [], cc_forwards = [],
      cc_acl = [], cc_socks_service_namespace = namespace_default, cc_transport = transport_default, cc_decoy = decoy_default\<rparr>"

text \<open>What a node registers in its \<open>Hello\<close> (\<open>crates/wsnet-node/src/node.rs\<close>).\<close>

definition registrations :: "ServiceConfig list \<Rightarrow> ServiceRegistration list" where
  "registrations services = map (\<lambda>s. \<lparr>sr_name = svc_name s, sr_proto = svc_proto s, sr_target = svc_target s\<rparr>) services"

section \<open>Loops\<close>

text \<open>A loop that checks each element on its own, and one that also refuses a key it has taken: what the loops of the two
  documents promise, and what follows for the whole list.\<close>

locale check_loop =
  fixes turn :: "nat \<Rightarrow> 'a \<Rightarrow> unit \<Rightarrow> 'e + unit" and ok :: "'a \<Rightarrow> bool"
  assumes turn_ok: "turn i x s = Inr u \<longleftrightarrow> ok x"
begin

lemma loop_ok: "enumerate_r turn i xs s = Inr u \<longleftrightarrow> (\<forall>x \<in> set xs. ok x)"
  by (induction xs arbitrary: i s) (auto simp: turn_ok result_simps)

end

locale unique_loop =
  fixes turn :: "nat \<Rightarrow> 'a \<Rightarrow> 'k list \<Rightarrow> 'e + 'k list" and ok :: "'a \<Rightarrow> bool" and key :: "'a \<Rightarrow> 'k"
  assumes turn_ok: "turn i x taken = Inr taken' \<longleftrightarrow> ok x \<and> key x \<notin> set taken \<and> taken' = taken @ [key x]"
begin

lemma loop_ok:
  "enumerate_r turn i xs taken = Inr taken' \<longleftrightarrow>
     (\<forall>x \<in> set xs. ok x) \<and> distinct (map key xs) \<and> set (map key xs) \<inter> set taken = {} \<and> taken' = taken @ map key xs"
  by (induction xs arbitrary: i taken) (auto simp: turn_ok result_simps)

lemma loop_accepts:
  "(\<exists>taken'. enumerate_r turn i xs [] = Inr taken') \<longleftrightarrow> (\<forall>x \<in> set xs. ok x) \<and> distinct (map key xs)"
  unfolding loop_ok by simp

end

section \<open>What the checks accept\<close>

named_theorems config_ok \<open>what a check of the configuration accepts\<close>

definition listener_ok :: "'net ipnet_crate \<Rightarrow> string \<Rightarrow> string list \<Rightarrow> bool \<Rightarrow> bool" where
  "listener_ok c value allow_from zero \<longleftrightarrow>
     (\<exists>host port. parse_host_port value = Some (host, port) \<and> (port = 0 \<longrightarrow> zero)
        \<and> (is_loopback_host host \<or> allow_from \<noteq> []))
     \<and> (\<forall>x \<in> set allow_from. parse_net c x \<noteq> None)"

definition url_ok :: "string \<Rightarrow> bool" where
  "url_ok value \<longleftrightarrow> (\<exists>authority. (value = ''https://'' @ authority \<or> value = ''http://'' @ authority)
     \<and> authority \<noteq> [] \<and> hd authority \<noteq> CHR ''/'' \<and> (\<forall>x \<in> set (chars authority). \<not> is_whitespace x))"

definition acl_rule_ok :: "'net ipnet_crate \<Rightarrow> AclRule \<Rightarrow> bool" where
  "acl_rule_ok c r \<longleftrightarrow> is_slug (rule_caller r) \<and> (\<forall>n. rule_node r = Some n \<longrightarrow> is_slug n)
     \<and> (\<forall>s. rule_service r = Some s \<longrightarrow> is_slug s) \<and> (\<forall>t. rule_host_cidr r = Some t \<longrightarrow> parse_net c t \<noteq> None)"

definition node_ok :: "NodeConfig \<Rightarrow> bool" where
  "node_ok n \<longleftrightarrow> is_slug (nc_id n) \<and> trim (nc_key_id n) \<noteq> [] \<and> nc_secret_file n \<noteq> []"

definition server_entry_ok :: "ServerEntry \<Rightarrow> bool" where
  "server_entry_ok e \<longleftrightarrow> is_slug (sve_hub_id e) \<and> url_ok (sve_url e) \<and> trim (sve_key_id e) \<noteq> [] \<and> sve_secret_file e \<noteq> []"

definition service_ok_config :: "bool \<Rightarrow> ServiceConfig \<Rightarrow> bool" where
  "service_ok_config udp s \<longleftrightarrow> is_slug (svc_name s)
     \<and> (\<exists>host port. parse_host_port (svc_target s) = Some (host, port) \<and> port \<noteq> 0) \<and> (svc_proto s = Udp \<longrightarrow> udp)"

definition forward_ok :: "'net ipnet_crate \<Rightarrow> string \<Rightarrow> string list \<Rightarrow> bool \<Rightarrow> ForwardConfig \<Rightarrow> bool" where
  "forward_ok c nid hub_ids udp f \<longleftrightarrow> is_slug (fwd_name f) \<and> listener_ok c (fwd_listen f) (fwd_allow_from f) True
     \<and> (fwd_hub f = ''auto'' \<or> fwd_hub f \<in> set hub_ids)
     \<and> (\<exists>d. fwd_destination f = Some d \<and> dest_validate d = Inr () \<and> validate_chain nid (fwd_via f) d = Inr ())
     \<and> (fwd_proto f = Udp \<longrightarrow> udp)"

text \<open>The listeners that name a port.\<close>

definition fixed_listens :: "ForwardConfig list \<Rightarrow> string list" where
  "fixed_listens fs = map fwd_listen (filter (\<lambda>f. map_option snd (parse_host_port (fwd_listen f)) \<noteq> Some 0) fs)"

lemma is_slug_Nil [simp]: "\<not> is_slug []"
  by (simp add: is_slug_def)

lemma check_slug_ok [config_ok]: "check_slug fld v = Inr u \<longleftrightarrow> is_slug v"
  by (auto simp: check_slug_def)

lemma check_non_empty_ok [config_ok]: "check_non_empty fld v = Inr u \<longleftrightarrow> trim v \<noteq> []"
  by (auto simp: check_non_empty_def)

lemma check_secret_file_ok [config_ok]: "check_secret_file fld v = Inr u \<longleftrightarrow> v \<noteq> []"
  by (auto simp: check_secret_file_def)

lemma check_range_ok [config_ok]: "check_range fld v a b = Inr u \<longleftrightarrow> a \<le> v \<and> v \<le> b"
  by (auto simp: check_range_def)

lemma check_window_ok [config_ok]: "check_window fld v session = Inr u \<longleftrightarrow> 0 < v \<and> v \<le> session"
  by (auto simp: check_window_def)

lemma strip_prefix_Some: "strip_prefix p s = Some r \<longleftrightarrow> s = p @ r"
  unfolding strip_prefix_def by (metis append_eq_conv_conj option.distinct(1) option.inject append_take_drop_id)

lemma check_url_ok [config_ok]: "check_url fld v = Inr u \<longleftrightarrow> url_ok v"
proof -
  have x: "strip_prefix ''http://'' v = None" if "strip_prefix ''https://'' v = Some a" for a
    using that unfolding strip_prefix_Some by (simp add: strip_prefix_def)
  have u: "url_ok v \<longleftrightarrow> (\<exists>a. (strip_prefix ''https://'' v = Some a \<or> strip_prefix ''http://'' v = Some a)
     \<and> a \<noteq> [] \<and> hd a \<noteq> CHR ''/'' \<and> (\<forall>x \<in> set (chars a). \<not> is_whitespace x))"
    unfolding url_ok_def strip_prefix_Some ..
  show ?thesis unfolding u check_url_def using x
    by (cases "strip_prefix ''https://'' v"; cases "strip_prefix ''http://'' v") (auto simp: list_ex_iff)
qed

interpretation cidrs: check_loop
  "\<lambda>index entry _. if parse_net c entry = None then Inl (g index entry) else Inr ()" "\<lambda>x. parse_net c x \<noteq> None" for c g
  by unfold_locales auto

interpretation slugs: check_loop "\<lambda>index nd _. check_slug (g index) nd" is_slug for g
  by unfold_locales (simp add: config_ok)

interpretation origins: check_loop "\<lambda>index x _. check_url (g index) x" url_ok for g
  by unfold_locales (simp add: config_ok)

interpretation acl_rules: check_loop "\<lambda>index rule _. check_acl_rule c index rule" "acl_rule_ok c" for c
  by unfold_locales (auto simp: check_acl_rule_def acl_rule_ok_def config_ok result_simps split: option.splits)

interpretation chains: check_loop "\<lambda>index rule _. map_err (g index) (validate_chain nid (rule_via rule) d)"
  "\<lambda>rule. validate_chain nid (rule_via rule) d = Inr ()" for g nid d
  by unfold_locales auto

interpretation nodes: unique_loop node_turn node_ok nc_id
  by unfold_locales (auto simp: node_turn_def node_validate_def node_ok_def config_ok result_simps)

interpretation hubs: unique_loop server_entry_turn server_entry_ok sve_hub_id
  by unfold_locales (auto simp: server_entry_turn_def server_entry_validate_def server_entry_ok_def config_ok result_simps)

interpretation services: unique_loop "service_turn udp" "service_ok_config udp" svc_name for udp
  by unfold_locales
    (auto simp: service_turn_def service_validate_def service_ok_config_def config_ok result_simps Let_def split: option.splits)

interpretation profiles: unique_loop profile_turn "\<lambda>x. x \<in> set SUPPORTED_PROFILES" "\<lambda>x. x"
  by unfold_locales (auto simp: profile_turn_def Let_def)

lemma check_listener_ok [config_ok]: "check_listener c fld v allow zero = Inr u \<longleftrightarrow> listener_ok c v allow zero"
  unfolding check_listener_def check_allow_from_def listener_ok_def
  by (auto simp: cidrs.loop_ok result_simps split: option.splits)

lemma check_acl_ok [config_ok]: "check_acl c rules = Inr u \<longleftrightarrow> (\<forall>r \<in> set rules. acl_rule_ok c r)"
  unfolding check_acl_def by (rule acl_rules.loop_ok)

lemma forward_validate_ok [config_ok]: "forward_validate c i f nid hub_ids udp = Inr u \<longleftrightarrow> forward_ok c nid hub_ids udp f"
  unfolding forward_validate_def forward_ok_def
  by (auto simp: config_ok result_simps Let_def split: option.splits)

lemma forward_turn_ok:
  "forward_turn c nid hub_ids udp i f (ns, ls) = Inr st \<longleftrightarrow>
     forward_ok c nid hub_ids udp f \<and> fwd_name f \<notin> set ns \<and> set (fixed_listens [f]) \<inter> set ls = {}
     \<and> st = (ns @ [fwd_name f], ls @ fixed_listens [f])"
  by (cases "map_option snd (parse_host_port (fwd_listen f)) = Some 0")
    (auto simp: forward_turn_def result_simps config_ok fixed_listens_def)

lemma fixed_listens_Cons: "fixed_listens (f # fs) = fixed_listens [f] @ fixed_listens fs"
  by (simp add: fixed_listens_def)

lemma forward_loop_ok:
  "enumerate_r (forward_turn c nid hub_ids udp) i fs (ns, ls) = Inr st \<longleftrightarrow>
     (\<forall>f \<in> set fs. forward_ok c nid hub_ids udp f) \<and> distinct (map fwd_name fs) \<and> set (map fwd_name fs) \<inter> set ns = {}
     \<and> distinct (fixed_listens fs) \<and> set (fixed_listens fs) \<inter> set ls = {}
     \<and> st = (ns @ map fwd_name fs, ls @ fixed_listens fs)"
proof (induction fs arbitrary: i ns ls)
  case (Cons f fs)
  have "distinct (fixed_listens [f])" by (simp add: fixed_listens_def)
  then show ?case unfolding fixed_listens_Cons [of f fs]
    by (auto simp: forward_turn_ok Cons.IH result_simps)
qed (auto simp: fixed_listens_def)

lemma acl_compiles:
  "(\<forall>r \<in> set rules. acl_rule_ok c r) \<Longrightarrow> \<exists>t. AclTable_new c rules = Inr t \<and> map compiled_rule (acl_rules t) = rules"
proof -
  assume a: "\<forall>r \<in> set rules. acl_rule_ok c r"
  let ?g = "\<lambda>r. \<lparr>compiled_rule = r, compiled_net = Option.bind (rule_host_cidr r) (parse_net c)\<rparr>"
  have "collect_r (compile_rule c) rules = Inr (map ?g rules)"
    by (rule collect_r_all_ok) (use a in \<open>auto simp: compile_rule_net acl_rule_ok_def split: option.splits\<close>)
  then show ?thesis by (simp add: AclTable_new_def comp_def)
qed

lemma collect_ok_iff: "(\<exists>ys. collect_r f xs = Inr ys) \<longleftrightarrow> (\<forall>x \<in> set xs. \<exists>y. f x = Inr y)"
  by (induction xs) (auto simp: result_simps)

lemma transport_ok [config_ok]:
  "transport_validate t = Inr u \<longleftrightarrow>
     1 \<le> ts_max_candidates t \<and> ts_max_candidates t \<le> MAX_AUTH_CANDIDATES
     \<and> 1 \<le> ts_resume_grace_secs t \<and> ts_resume_grace_secs t \<le> CARRIER_GRACE_SECS
     \<and> 0 < ts_flow_window_bytes t \<and> ts_flow_window_bytes t \<le> ts_session_window_bytes t
     \<and> 0 < ts_control_reserve_bytes t \<and> ts_control_reserve_bytes t \<le> ts_session_window_bytes t
     \<and> ts_profiles t \<noteq> [] \<and> set (ts_profiles t) \<subseteq> set SUPPORTED_PROFILES \<and> distinct (ts_profiles t)"
  unfolding transport_validate_def by (auto simp: config_ok result_simps profiles.loop_ok)

lemma decoy_ok [config_ok]:
  "decoy_validate d = Inr u \<longleftrightarrow>
     BACKGROUND_JITTER_MIN_SECS \<le> ds_interval_min_secs d \<and> ds_interval_min_secs d \<le> ds_interval_max_secs d
     \<and> ds_interval_max_secs d \<le> BACKGROUND_JITTER_MAX_SECS
     \<and> 1 \<le> ds_max_bytes_per_sec d \<and> ds_max_bytes_per_sec d \<le> BACKGROUND_BUDGET_BYTES_PER_SEC
     \<and> (\<forall>x \<in> set (ds_allowed_origins d). url_ok x)"
  unfolding decoy_validate_def by (auto simp: config_ok result_simps origins.loop_ok)

lemma namespace_ok [config_ok]: "namespace_validate n = Inr u \<longleftrightarrow> (ns_enabled n \<longrightarrow> is_valid_dns_suffix (ns_suffix n))"
  by (auto simp: namespace_validate_def)

lemma client_section_ok [config_ok]:
  "client_section_validate c s = Inr u \<longleftrightarrow>
     is_slug (cs_node_id s) \<and> listener_ok c (cs_socks_listen s) (cs_allow_from s) False
     \<and> (\<forall>x \<in> set (cs_allow_node_address s). parse_net c x \<noteq> None)
     \<and> 0 < cs_udp_max_payload_bytes s \<and> cs_udp_max_payload_bytes s \<le> MAX_UDP_PAYLOAD
     \<and> UDP_QUEUE_TTL_MIN_MS \<le> cs_udp_queue_ttl_ms s \<and> cs_udp_queue_ttl_ms s \<le> UDP_QUEUE_TTL_MAX_MS"
  unfolding client_section_validate_def by (auto simp: config_ok result_simps cidrs.loop_ok)

lemma server_section_ok [config_ok]:
  "server_section_validate c s = Inr u \<longleftrightarrow>
     is_slug (ss_hub_id s) \<and> listener_ok c (ss_listen s) (ss_allow_from s) False
     \<and> AUTH_WINDOW_MIN_SECS \<le> ss_auth_window_secs s \<and> ss_auth_window_secs s \<le> AUTH_WINDOW_MAX_SECS
     \<and> 1 \<le> ss_auth_nonce_max_per_node s \<and> ss_auth_nonce_max_per_node s \<le> AUTH_NONCE_PER_NODE_MAX
     \<and> ss_auth_nonce_store s \<noteq> Some [] \<and> trim (ss_decoy_site s) \<noteq> []"
  unfolding server_section_validate_def by (auto simp: config_ok result_simps split: option.splits)

lemma server_validate_ok [config_ok]:
  "server_validate c cfg = Inr u \<longleftrightarrow>
     server_section_validate c (sc_server cfg) = Inr () \<and> (\<forall>n \<in> set (sc_nodes cfg). node_ok n)
     \<and> distinct (map nc_id (sc_nodes cfg)) \<and> (\<forall>n \<in> set (ss_relay_allow (sc_server cfg)). is_slug n)
     \<and> (\<forall>r \<in> set (sc_acl cfg). acl_rule_ok c r)"
  unfolding server_validate_def by (auto simp: check_acl_ok result_simps nodes.loop_ok slugs.loop_ok)

lemma client_validate_ok [config_ok]:
  "client_validate c cfg = Inr u \<longleftrightarrow>
     client_section_validate c (cc_client cfg) = Inr ()
     \<and> (\<forall>e \<in> set (cc_servers cfg). server_entry_ok e) \<and> distinct (map sve_hub_id (cc_servers cfg))
     \<and> (\<exists>t. RouterTable_new c (cc_router cfg) = Inr t)
     \<and> (\<forall>r \<in> set (router_rules (cc_router cfg)).
          validate_chain (cs_node_id (cc_client cfg)) (rule_via r) (mk_address ''chain-check.invalid'' 1) = Inr ())
     \<and> (\<forall>s \<in> set (cc_services cfg). service_ok_config (cs_udp_enabled (cc_client cfg)) s)
     \<and> distinct (map svc_name (cc_services cfg))
     \<and> (\<forall>f \<in> set (cc_forwards cfg). forward_ok c (cs_node_id (cc_client cfg)) (map sve_hub_id (cc_servers cfg))
          (cs_udp_enabled (cc_client cfg)) f)
     \<and> distinct (map fwd_name (cc_forwards cfg)) \<and> distinct (fixed_listens (cc_forwards cfg))
     \<and> (\<forall>r \<in> set (cc_acl cfg). acl_rule_ok c r)
     \<and> namespace_validate (cc_socks_service_namespace cfg) = Inr ()
     \<and> transport_validate (cc_transport cfg) = Inr () \<and> decoy_validate (cc_decoy cfg) = Inr ()"
  unfolding client_validate_def Let_def
  by (auto simp: check_acl_ok result_simps hubs.loop_ok services.loop_ok chains.loop_ok forward_loop_ok)

section \<open>Services as configured\<close>

lemma host_port_target: "parse_host_port t = Some (host, port) \<Longrightarrow> port \<noteq> 0 \<Longrightarrow> parse_target t = Some (host, port)"
  unfolding parse_host_port_def parse_target_def by (auto split: option.splits if_splits)

lemma publish_keeps_owner: "owns (fst (publish r n sid ep s p t)) n sid ep \<longleftrightarrow> owns r n sid ep" if "reg_inv r"
  using that by (auto simp: publish_def owns_def Let_def reg_bump_def reg_inv_def map_of_bt_insert split: option.splits)

lemma publish_listed:
  assumes "reg_inv r" "owns r n sid ep" "is_slug s" "parse_target t \<noteq> None"
  shows "\<exists>v. lookup (fst (publish r n sid ep s p t)) n s = Some v \<and> sl_target v = t \<and> sl_proto v = p"
  using assms
  by (auto simp: publish_def owns_def lookup_def Let_def reg_bump_def reg_inv_def lease_ok_def map_of_bt_insert
      split: option.splits)

lemma publish_other:
  assumes "reg_inv r" "q \<noteq> s"
  shows "lookup (fst (publish r n sid ep s p t)) n q = lookup r n q"
  using assms
  by (auto simp: publish_def lookup_def Let_def reg_bump_def reg_inv_def lease_ok_def map_of_bt_insert split: option.splits)

lemma publish_all_lists:
  assumes "reg_inv r" "owns r (se_node_id e) (se_session_id e) (se_epoch e)" "distinct (map sr_name ss)"
    "\<forall>s \<in> set ss. is_slug (sr_name s) \<and> parse_target (sr_target s) \<noteq> None" "sv \<in> set ss"
  shows "\<exists>v. lookup (publish_all r e ss) (se_node_id e) (sr_name sv) = Some v \<and> sl_target v = sr_target sv \<and> sl_proto v = sr_proto sv"
  using assms
proof (induction ss arbitrary: r)
  case (Cons s ss)
  let ?r = "fst (publish r (se_node_id e) (se_session_id e) (se_epoch e) (sr_name s) (sr_proto s) (sr_target s))"
  have r: "publish_all r e (s # ss) = publish_all ?r e ss" by (simp add: publish_all_def)
  have inv: "reg_inv ?r"
    using reg_step_inv [OF Cons.prems(1), of "Publish (se_node_id e) (se_session_id e) (se_epoch e) (sr_name s) (sr_proto s) (sr_target s)"] by simp
  have own: "owns ?r (se_node_id e) (se_session_id e) (se_epoch e)" using publish_keeps_owner Cons.prems(1,2) by blast
  show ?case
  proof (cases "sv = s")
    case True
    have "lookup (publish_all q e xs) (se_node_id e) n = lookup q (se_node_id e) n"
      if "reg_inv q" "n \<notin> sr_name ` set xs" for n q xs
      using that
    proof (induction xs arbitrary: q)
      case (Cons x xs)
      let ?q = "fst (publish q (se_node_id e) (se_session_id e) (se_epoch e) (sr_name x) (sr_proto x) (sr_target x))"
      have "reg_inv ?q"
        using reg_step_inv [OF Cons.prems(1), of "Publish (se_node_id e) (se_session_id e) (se_epoch e) (sr_name x) (sr_proto x) (sr_target x)"] by simp
      with Cons.IH [of ?q] publish_other [OF Cons.prems(1), of n "sr_name x"] Cons.prems(2) show ?case by (simp add: publish_all_def)
    qed (simp add: publish_all_def)
    from this [OF inv, of "sr_name s" ss] Cons.prems(3) publish_listed [OF Cons.prems(1,2), of "sr_name s" "sr_target s" "sr_proto s"] Cons.prems(4)
    show ?thesis unfolding r True by simp
  next
    case False
    with Cons.IH [OF inv own] Cons.prems(3-5) show ?thesis unfolding r by simp
  qed
qed simp

lemma chars_examples: "chars ''127.0.0.1'' = [49, 50, 55, 46, 48, 46, 48, 46, 49]" "chars ''h'' = [104]"
  by (simp_all add: chars_ascii)

lemma default_listens:
  "parse_host_port ''127.0.0.1:8443'' = Some (''127.0.0.1'', 8443)" "parse_host_port ''127.0.0.1:1080'' = Some (''127.0.0.1'', 1080)"
  "parse_host_port ''h:1'' = Some (''h'', 1)"
  by (simp_all add: parse_host_port_def strip_prefix_def rsplit_once_def split_once_def parse_unsigned_def is_digit_def
      dec_val_def digit_val_def int_range_defs chars_examples is_whitespace_def)

lemma default_names: "is_slug ''hub''" "is_slug ''a''" "is_slug ''w''" "trim ''builtin'' = ''builtin''"
  by (simp_all add: is_slug_def MAX_SLUG_LEN_def is_ascii_alphanumeric_def slug_byte_def trim_plain)

lemma loopback_literal: "is_loopback_host ''127.0.0.1''"
  by code_simp

lemma default_server_validates: "server_validate c server_config_default = Inr ()"
  by (simp add: server_validate_ok server_section_ok server_config_default_def server_section_default_def config_defaults
      listener_ok_def default_listens default_names loopback_literal limit_defs)

section \<open>Properties\<close>

text \<open>C39: A Hub document is accepted exactly when it is safe to serve: its listener is a \<open>host:port\<close> on loopback or with an
  allowlist, every entry of which is a network, the clock window and the nonce budget are within their bounds, the node
  identities are distinct slugs with a key and a secret file, and every access rule compiles. For an accepted document the
  access table is there, one compiled rule for each written one.\<close>

theorem server_config_accepted_iff:
  "(server_validate c cfg = Inr () \<longleftrightarrow>
      is_slug (ss_hub_id (sc_server cfg))
      \<and> listener_ok c (ss_listen (sc_server cfg)) (ss_allow_from (sc_server cfg)) False
      \<and> ss_auth_window_secs (sc_server cfg) \<in> {60..300} \<and> ss_auth_nonce_max_per_node (sc_server cfg) \<in> {1..65536}
      \<and> ss_auth_nonce_store (sc_server cfg) \<noteq> Some [] \<and> trim (ss_decoy_site (sc_server cfg)) \<noteq> []
      \<and> (\<forall>n \<in> set (sc_nodes cfg). node_ok n) \<and> distinct (map nc_id (sc_nodes cfg))
      \<and> (\<forall>n \<in> set (ss_relay_allow (sc_server cfg)). is_slug n) \<and> (\<forall>r \<in> set (sc_acl cfg). acl_rule_ok c r))
   \<and> (server_validate c cfg = Inr () \<longrightarrow>
      (\<exists>t. server_acl_table c cfg = Inr t \<and> map compiled_rule (acl_rules t) = sc_acl cfg))"
proof
  show "server_validate c cfg = Inr () \<longrightarrow> (\<exists>t. server_acl_table c cfg = Inr t \<and> map compiled_rule (acl_rules t) = sc_acl cfg)"
    unfolding server_validate_ok server_acl_table_def using acl_compiles by blast
qed (auto simp: server_validate_ok server_section_ok limit_defs)

theorem server_config_accepted_iff_witness:
  "server_validate no_nets server_config_default = Inr () \<and> server_acl_table no_nets server_config_default = Inr \<lparr>acl_rules = []\<rparr>"
proof -
  have "sc_acl server_config_default = []" by (simp add: server_config_default_def)
  with server_config_accepted_iff [of no_nets server_config_default] default_server_validates
  show ?thesis by (auto simp: server_acl_table_def AclTable_new_def)
qed

text \<open>C9: What an operator writes is what callers reach: after the \<open>Hello\<close> of a node with an accepted document, every
  service of the document is in the Hub's registry with its protocol and target, and the node answers an \<open>Open\<close> of it, pinned to
  its first revision or not, by dialling exactly the host and port of the document, whatever its policy for raw addresses is.\<close>

theorem configured_services_reachable:
  assumes ok: "client_validate c cfg = Inr ()" and sv: "sv \<in> set (cc_services cfg)"
    and inv: "reg_inv reg" and e: "se_node_id e = cs_node_id (cc_client cfg)"
    and f: "open_destination f = Service (cs_node_id (cc_client cfg)) (svc_name sv) revn" "revn = None \<or> revn = Some 1" "open_via f = []"
  shows "\<exists>v host port. parse_host_port (svc_target sv) = Some (host, port)
    \<and> lookup (publish_all (fst (register_ready reg (se_node_id e) (se_session_id e) (se_epoch e))) e (registrations (cc_services cfg)))
        (se_node_id e) (svc_name sv) = Some v
    \<and> sl_target v = svc_target sv \<and> sl_proto v = svc_proto sv \<and> sl_revision v = 1
    \<and> plan_inbound c (cs_node_id (cc_client cfg)) (registrations (cc_services cfg)) policy f
        = Inr (Dial \<lparr>rt_host = host, rt_port = port\<rparr>)"
proof -
  let ?ss = "registrations (cc_services cfg)" and ?reg = "fst (register_ready reg (se_node_id e) (se_session_id e) (se_epoch e))"
  let ?sv = "\<lparr>sr_name = svc_name sv, sr_proto = svc_proto sv, sr_target = svc_target sv\<rparr>"
  have all: "service_ok_config (cs_udp_enabled (cc_client cfg)) s" if "s \<in> set (cc_services cfg)" for s
    using ok that unfolding client_validate_ok by blast
  from all [OF sv] obtain host port where hp: "parse_host_port (svc_target sv) = Some (host, port)" "port \<noteq> 0"
    by (auto simp: service_ok_config_def)
  have d: "distinct (map sr_name ?ss)" using ok unfolding client_validate_ok registrations_def by (simp add: comp_def)
  have each: "\<forall>s \<in> set ?ss. is_slug (sr_name s) \<and> parse_target (sr_target s) \<noteq> None"
    using all by (fastforce simp: registrations_def service_ok_config_def dest: host_port_target)
  have svs: "?sv \<in> set ?ss" using sv by (auto simp: registrations_def)
  have own: "owns ?reg (se_node_id e) (se_session_id e) (se_epoch e)" and ri: "reg_inv ?reg"
    using inv registry_calls_inv(1) [OF inv]
    by (simp_all add: register_ready_def owns_def Let_def reg_bump_def reg_inv_def map_of_bt_insert)
  obtain v where v: "lookup (publish_all ?reg e ?ss) (se_node_id e) (svc_name sv) = Some v" "sl_target v = svc_target sv"
      "sl_proto v = svc_proto sv"
    using publish_all_lists [OF ri own d each svs] by auto
  moreover have "sl_revision v = 1"
    using publish_all_lookup [OF ri d v(1)] register_ready_lookup [OF inv, of "se_node_id e"] by auto
  moreover have "List.find (\<lambda>s. sr_name s = svc_name sv) ?ss = Some ?sv" using find_named [OF d svs] by simp
  moreover have "inbound_target (svc_target sv) = Some \<lparr>rt_host = host, rt_port = port\<rparr>"
    using host_port_target [OF hp] by (simp add: inbound_target_parse)
  ultimately have "plan_inbound c (cs_node_id (cc_client cfg)) ?ss policy f = Inr (Dial \<lparr>rt_host = host, rt_port = port\<rparr>)"
    using f by (auto simp: plan_inbound_def resolve_inbound_def result_simps)
  with hp(1) v \<open>sl_revision v = 1\<close> show ?thesis by blast
qed

definition sample_client :: ClientConfig where
  "sample_client = client_config_default
     \<lparr>cc_services := [\<lparr>svc_name = ''w'', svc_proto = Tcp, svc_target = ''h:1''\<rparr>],
      cc_client := client_section_default\<lparr>cs_node_id := ''a''\<rparr>\<rparr>"

theorem configured_services_reachable_witness:
  "plan_inbound no_nets ''a'' (registrations (cc_services sample_client)) policy_deny_all web_open = Inr (Dial \<lparr>rt_host = ''h'', rt_port = 1\<rparr>)"
proof -
  let ?e = "(node_entry [1] ''a'')\<lparr>se_epoch := [1]\<rparr>" and ?sv = "\<lparr>svc_name = ''w'', svc_proto = Tcp, svc_target = ''h:1''\<rparr>"
  have ok: "client_validate no_nets sample_client = Inr ()"
    by (simp add: client_validate_ok config_ok sample_client_def client_config_default_def client_section_default_def
        default_router_def RouterTable_new_def transport_default_def decoy_default_def namespace_default_def config_defaults
        listener_ok_def default_listens default_names loopback_literal limit_defs service_ok_config_def fixed_listens_def
        SUPPORTED_PROFILES_def)
  have e: "se_node_id ?e = cs_node_id (cc_client sample_client)" by (simp add: sample_client_def node_entry_def entry_new_def)
  have sv: "?sv \<in> set (cc_services sample_client)" by (simp add: sample_client_def)
  have f: "open_destination web_open = Service (cs_node_id (cc_client sample_client)) (svc_name ?sv) (Some 1)" "Some (1::nat) = None \<or> Some (1::nat) = Some 1" "open_via web_open = []"
    by (simp_all add: web_open_def sample_client_def)
  from configured_services_reachable [OF ok sv reg_inv_new [of "''h''"] e f, of policy_deny_all] default_listens(3)
  show ?thesis by (auto simp: sample_client_def)
qed

end
