(* ===== verification/Node_Hub.thy ===== *)
theory Node_Hub
  imports Config Operation "HOL-Library.Multiset"
begin

text \<open>
  \<open>crates/wsnet-node/src/hub.rs\<close> (with \<open>carrier.rs\<close> and the records of \<open>endpoint.rs\<close>): one session of a node with a
  Hub. The transport is a parameter; the channels of the driver are cursors into what the engine produced and lists of
  what was sent; a one-shot reply channel is named by the call it belongs to, and dropping it unanswered gives its caller
  \<open>CarrierClosed\<close>. Clock readings and fresh identifiers are inputs, and so is the text form of a \<open>SessionError\<close>.
\<close>

section \<open>Carriers, endpoints, errors\<close>

datatype CarrierKind = KWs | KPost | KSse

primrec carrier_kind_name :: "CarrierKind \<Rightarrow> string" where
  "carrier_kind_name KWs = ''ws''"
| "carrier_kind_name KPost = ''post''"
| "carrier_kind_name KSse = ''sse''"

definition kind_uplink_capable :: "CarrierKind \<Rightarrow> bool" where
  "kind_uplink_capable k \<longleftrightarrow> k \<noteq> KSse"

record HubEndpoint =
  ep_hub_id :: string
  ep_url :: string
  ep_key_id :: string
  ep_priority :: nat

record NodeBoundSession =
  bd_hub_id :: string
  bd_node_id :: string
  bd_session_id :: bytes
  bd_session_epoch :: bytes
  bd_bind_key :: bytes

text \<open>The details of \<open>NodeError::Hub\<close>.\<close>

datatype hub_detail =
    CannotEncodeAuth RecordError
  | AuthTimedOut
  | ReplyNotARecord RecordError
  | ExpectedAuthOk MessageKind
  | BindTimedOut
  | HealthTimedOut
  | TransportDetail string

datatype NodeError =
    ConfigFailed ConfigError
  | HandshakeFailed HandshakeError
  | MessageFailed MessageError
  | CanonicalFailed CanonError
  | SessionFailed SessionError
  | OperationFailed OperationError
  | IoFailed string                    \<comment> \<open>of \<open>std::io::Error\<close>, the text\<close>
  | SocksFailed SocksError
  | ForwardFailed string               \<comment> \<open>of \<open>ForwardError\<close>, the text\<close>
  | HubFailed string hub_detail
  | TransportFailed string
  | CarrierFailed string
  | SecretFailed string string
  | NoSuchHub string                   \<comment> \<open>\<open>UnknownHub\<close>\<close>
  | NoHub
  | TargetOffline string               \<comment> \<open>\<open>Offline\<close>\<close>
  | TargetDenied string                \<comment> \<open>\<open>Denied\<close>\<close>
  | SessionNotReady                    \<comment> \<open>\<open>NotReady\<close>\<close>
  | CarrierClosed
  | HelloTimeout
  | OpenTimeout
  | OpenFailed OpenStatus string
  | CachedFailure string
  | DuplicateOpen string
  | OpenPending
  | UnsafeSocksListen SocketAddr

section \<open>The driver's state\<close>

text \<open>Who waits for the answer to an \<open>Open\<close>: a call of the application, or the task of a chain leg.\<close>

datatype caller = FromApp nat | FromChain nat

record StreamSlot =
  dsl_sent :: "StreamMsg list"       \<comment> \<open>sent into the channel\<close>
  dsl_gone :: bool                   \<comment> \<open>the receiver was dropped\<close>
  dsl_stream :: bool                 \<comment> \<open>the slot still holds the \<open>SessionStream\<close>\<close>
  dsl_reply :: "caller option"
  dsl_request_id :: bytes
  dsl_from :: nat                    \<comment> \<open>the events taken when the slot was made\<close>

text \<open>The tasks the driver starts.\<close>

datatype node_task = ServeTask bytes nat ResolvedTarget | ChainTask bytes nat caller

record 'net Driver =
  dr_session :: Session
  dr_events_read :: nat
  dr_outbound_read :: nat
  dr_uplink :: bool
  dr_uplinked :: "bytes list"
  dr_streams :: "(nat \<times> StreamSlot) list"
  dr_services :: "ServiceRegistration list"
  dr_policy :: "'net InboundPolicy"
  dr_directory :: ServiceDirectory
  dr_operations :: OperationTable
  dr_closed :: bool
  dr_tasks :: "node_task list"
  dr_answers :: "(caller \<times> (NodeError + nat)) list"   \<comment> \<open>answers sent, in order\<close>
  dr_calls :: "caller list"                             \<comment> \<open>opens begun, in order\<close>
  dr_opened :: "(caller \<times> RequestId \<times> nat) list"      \<comment> \<open>opens the engine sent\<close>
  dr_abandoned :: "caller list"                         \<comment> \<open>callers that stopped waiting\<close>

definition driver_new :: "Session \<Rightarrow> bool \<Rightarrow> ServiceRegistration list \<Rightarrow> 'net InboundPolicy \<Rightarrow> 'net Driver" where
  "driver_new s uplink services policy =
     \<lparr>dr_session = s, dr_events_read = 0, dr_outbound_read = 0, dr_uplink = uplink, dr_uplinked = [], dr_streams = [],
      dr_services = services, dr_policy = policy, dr_directory = directory_unknown,
      dr_operations = op_new OperationConfig_default, dr_closed = False, dr_tasks = [], dr_answers = [], dr_calls = [],
      dr_opened = [], dr_abandoned = []\<rparr>"

text \<open>The first carrier that may carry data to the Hub is the uplink.\<close>

definition merge_carriers :: "CarrierKind list \<Rightarrow> bool" where
  "merge_carriers kinds \<longleftrightarrow> list_ex kind_uplink_capable kinds"

section \<open>Answers and slots\<close>

definition answer_call :: "'net Driver \<Rightarrow> caller \<Rightarrow> NodeError + nat \<Rightarrow> 'net Driver" where
  "answer_call d who a =
     (let d = d\<lparr>dr_answers := dr_answers d @ [(who, a)]\<rparr> in
      case a of
        Inr sid \<Rightarrow>   \<comment> \<open>\<open>reply.send\<close> fails when nobody waits, and the stream it returns is dropped\<close>
          if who \<in> set (dr_abandoned d) then d\<lparr>dr_session := close_stream (dr_session d) sid\<rparr> else d
      | Inl _ \<Rightarrow> d)"

text \<open>Dropping a slot drops the stream it holds and the reply it owes.\<close>

definition drop_slot :: "'net Driver \<Rightarrow> nat \<Rightarrow> StreamSlot \<Rightarrow> 'net Driver" where
  "drop_slot d sid sl =
     (let d = (if dsl_stream sl then d\<lparr>dr_session := close_stream (dr_session d) sid\<rparr> else d) in
      case dsl_reply sl of Some who \<Rightarrow> answer_call d who (Inl CarrierClosed) | None \<Rightarrow> d)"

definition insert_slot :: "'net Driver \<Rightarrow> nat \<Rightarrow> StreamSlot \<Rightarrow> 'net Driver" where
  "insert_slot d sid sl =
     (let d' = (case map_of (dr_streams d) sid of Some old \<Rightarrow> drop_slot d sid old | None \<Rightarrow> d) in
      d'\<lparr>dr_streams := hm_insert sid sl (dr_streams d)\<rparr>)"

definition node_deliver :: "'net Driver \<Rightarrow> nat \<Rightarrow> StreamMsg \<Rightarrow> 'net Driver" where
  "node_deliver d sid msg =
     (case map_of (dr_streams d) sid of
        None \<Rightarrow> d
      | Some sl \<Rightarrow>
          if dsl_gone sl then drop_slot (d\<lparr>dr_streams := hm_remove sid (dr_streams d)\<rparr>) sid sl
          else d\<lparr>dr_streams := hm_insert sid (sl\<lparr>dsl_sent := dsl_sent sl @ [msg]\<rparr>) (dr_streams d)\<rparr>)"

definition settle_op :: "'net Driver \<Rightarrow> RequestId \<Rightarrow> Outcome \<Rightarrow> nat \<Rightarrow> 'net Driver" where
  "settle_op d rid outcome now =
     (case settle (dr_operations d) rid outcome now of Inr t \<Rightarrow> d\<lparr>dr_operations := t\<rparr> | Inl _ \<Rightarrow> d)"

section \<open>Opening\<close>

definition open_operation_bytes :: "Destination \<Rightarrow> Proto \<Rightarrow> string list \<Rightarrow> bytes" where
  "open_operation_bytes destination proto hops =
     to_bytes (object [(''destination'', dest_to_canonical destination), (''proto'', Str (proto_as_str proto)),
       (''via'', Array (map Str hops))])"

definition cached_outcome_error :: "hex_crate \<Rightarrow> RequestId \<Rightarrow> Outcome \<Rightarrow> NodeError" where
  "cached_outcome_error h rid outcome =
     (case outcome of
        Complete _ \<Rightarrow> DuplicateOpen (hex_enc h rid)
      | Failed bs \<Rightarrow> CachedFailure (string_of_bytes bs))"

text \<open>What \<open>open_with_request_id\<close> checks before it sends the command.\<close>

definition open_refusal :: "Session \<Rightarrow> bool \<Rightarrow> NodeError option" where
  "open_refusal s over =
     (if \<not> is_ready s then Some SessionNotReady else if over then Some CarrierClosed else None)"

text \<open>The inputs of a turn: three clock readings, a fresh request id, the text of an error.\<close>

record turn_env =
  te_clock :: "nat \<Rightarrow> nat"
  te_fresh :: RequestId
  te_text :: "SessionError \<Rightarrow> string"

definition begin_open ::
    "crypto_crate \<Rightarrow> hex_crate \<Rightarrow> turn_env \<Rightarrow> 'net Driver \<Rightarrow> Destination \<Rightarrow> Proto \<Rightarrow> string list \<Rightarrow> RequestId \<Rightarrow> caller \<Rightarrow> 'net Driver" where
  "begin_open cr h te d destination proto hops rid who =
     (let d = d\<lparr>dr_calls := dr_calls d @ [who], dr_operations := fst (op_tick (dr_operations d) (te_clock te 0))\<rparr>;
          hash = OperationHash_of (sha256 cr) (open_operation_bytes destination proto hops) in
      case op_begin (dr_operations d) rid hash (te_clock te 1) of
        Inl e \<Rightarrow> answer_call d who (Inl (OperationFailed e))
      | Inr (t, AlreadyPending) \<Rightarrow> answer_call (d\<lparr>dr_operations := t\<rparr>) who (Inl OpenPending)
      | Inr (t, Cached outcome) \<Rightarrow> answer_call (d\<lparr>dr_operations := t\<rparr>) who (Inl (cached_outcome_error h rid outcome))
      | Inr (t, Execute) \<Rightarrow>
          (let d = d\<lparr>dr_operations := t\<rparr> in
           case session_open cr h (dr_session d) destination hops proto rid of
             (s, Inr (sid, _)) \<Rightarrow>
               insert_slot (d\<lparr>dr_session := s, dr_opened := dr_opened d @ [(who, rid, sid)]\<rparr>) sid
                 \<lparr>dsl_sent = [], dsl_gone = False, dsl_stream = True, dsl_reply = Some who, dsl_request_id = rid,
                  dsl_from = dr_events_read d\<rparr>
           | (s, Inl e) \<Rightarrow>
               answer_call (settle_op (d\<lparr>dr_session := s\<rparr>) rid (Failed (as_bytes (te_text te e))) (te_clock te 2)) who
                 (Inl (SessionFailed e))))"

section \<open>Inbound opens\<close>

primrec detail_text :: "inbound_detail \<Rightarrow> string" where
  "detail_text (ChainNotRelayed what) = what @ '', and this node does not relay for other callers''"
| "detail_text (NotInAllowlist host port) = ''`'' @ host @ '':'' @ dec port @ ''` is not in this node's allowlist''"
| "detail_text (NotPublishedByNode name) = ''service `'' @ name @ ''` is not published by this node''"
| "detail_text (NoSuchService name) = ''no service named `'' @ name @ ''` is published here''"
| "detail_text (NoRevision name pinned) = ''service `'' @ name @ ''` has no revision '' @ dec pinned"
| "detail_text (UnusableTarget name) = ''service `'' @ name @ ''` has an unusable local target''"
| "detail_text AddressOfOtherNode = ''the address belongs to a different node''"
| "detail_text inbound_detail.PortZero = ''port 0 is not a dialable address''"
| "detail_text NotReverseAccess = ''an address target is not a reverse-access destination''"

definition relay_chain_leg :: "crypto_crate \<Rightarrow> hex_crate \<Rightarrow> turn_env \<Rightarrow> 'net Driver \<Rightarrow> OpenFields \<Rightarrow> 'net Driver" where
  "relay_chain_leg cr h te d f =
     (let leg = \<lparr>cl_destination = open_destination f, cl_via = open_via f, cl_proto = open_proto f\<rparr>;
          who = FromChain (length (dr_calls d));
          d = begin_open cr h te d (cl_destination leg) (cl_proto leg) (cl_via leg) (te_fresh te) who
      in d\<lparr>dr_tasks := dr_tasks d @ [ChainTask (open_request_id f) (open_stream_id f) who]\<rparr>)"

text \<open>What the chain task does when its answer arrives: it starts to relay, or passes the refusal on.\<close>

definition chain_answer :: "crypto_crate \<Rightarrow> hex_crate \<Rightarrow> Session \<Rightarrow> bytes \<Rightarrow> nat \<Rightarrow> NodeError + nat \<Rightarrow> Session \<times> bool" where
  "chain_answer cr h s rid sid a =
     (case a of
        Inr _ \<Rightarrow> leg_answer cr h s rid sid
      | Inl e \<Rightarrow>
          (fst (send_open_result cr h s (inbound_result rid sid (case e of OpenFailed status _ \<Rightarrow> status | _ \<Rightarrow> Unreachable)
             ''the next hop of the chain refused the stream'')), False))"

definition on_inbound_open ::
    "crypto_crate \<Rightarrow> hex_crate \<Rightarrow> 'net ipnet_crate \<Rightarrow> turn_env \<Rightarrow> 'net Driver \<Rightarrow> OpenFields \<Rightarrow> 'net Driver" where
  "on_inbound_open cr h c te d f =
     (let sid = open_stream_id f in
      if map_of (dr_streams d) sid \<noteq> None then d\<lparr>dr_session := fst (send_reset cr (dr_session d) sid ProtocolError)\<rparr>
      else case plan_inbound c (cfg_node_id (config (dr_session d))) (dr_services d) (dr_policy d) f of
        Inl refusal \<Rightarrow>
          d\<lparr>dr_session := fst (send_open_result cr h (dr_session d)
              (inbound_result (open_request_id f) sid (ir_status refusal) (detail_text (ir_detail refusal))))\<rparr>
      | Inr plan \<Rightarrow>
          (let d = insert_slot d sid \<lparr>dsl_sent = [], dsl_gone = False, dsl_stream = False, dsl_reply = None,
                     dsl_request_id = open_request_id f, dsl_from = dr_events_read d\<rparr> in
           case plan of
             Dial target \<Rightarrow> d\<lparr>dr_tasks := dr_tasks d @ [ServeTask (open_request_id f) sid target]\<rparr>
           | Forward \<Rightarrow> relay_chain_leg cr h te d f))"

section \<open>Events\<close>

definition on_open_result :: "turn_env \<Rightarrow> 'net Driver \<Rightarrow> OpenResultFields \<Rightarrow> 'net Driver" where
  "on_open_result te d f =
     (let sid = res_stream_id f in
      case map_of (dr_streams d) sid of
        None \<Rightarrow> d
      | Some sl \<Rightarrow>
          (let d = d\<lparr>dr_streams := hm_remove sid (dr_streams d)\<rparr> in
           if res_status f = StatusOk then
             (let d = settle_op d (dsl_request_id sl) (Complete []) (te_clock te 0);
                  (d, sl) = (case dsl_reply sl of
                      Some who \<Rightarrow> (answer_call d who (if dsl_stream sl then Inr sid else Inl CarrierClosed),
                                     sl\<lparr>dsl_reply := None, dsl_stream := False,
                                        dsl_gone := dsl_gone sl \<or> dsl_stream sl \<and> who \<in> set (dr_abandoned d)\<rparr>)
                    | None \<Rightarrow> (d, sl))
              in insert_slot d sid sl)
           else
             (let d = settle_op d (dsl_request_id sl) (Failed (as_bytes (res_detail f))) (te_clock te 0);
                  d = d\<lparr>dr_session := close_stream (dr_session d) sid\<rparr>;
                  d = (case dsl_reply sl of
                      Some who \<Rightarrow> answer_call d who (Inl (OpenFailed (res_status f) (res_detail f)))
                    | None \<Rightarrow> d)
              in drop_slot d sid (sl\<lparr>dsl_reply := None\<rparr>))))"

definition node_on_event ::
    "crypto_crate \<Rightarrow> hex_crate \<Rightarrow> 'net ipnet_crate \<Rightarrow> turn_env \<Rightarrow> 'net Driver \<Rightarrow> SessionEvent \<Rightarrow> 'net Driver" where
  "node_on_event cr h c te d ev =
     (case ev of
        EvOpen f \<Rightarrow> on_inbound_open cr h c te d f
      | EvOpenResult f \<Rightarrow> on_open_result te d f
      | EvData sid _ pl \<Rightarrow> node_deliver d sid (MData pl)
      | EvFin f \<Rightarrow> node_deliver d (fin_stream_id f) (MFin (fin_final_offset f))
      | EvReset f \<Rightarrow> node_deliver d (reset_stream_id f) (MReset (reset_reason f))
      | EvProgress f \<Rightarrow> node_deliver d (prog_stream_id f) MCredit
      | EvDatagram md pl \<Rightarrow>
          (case datagram_from_canonical md of
             Inr f \<Rightarrow> node_deliver d (dg_stream_id f) (MDatagram f pl)
           | Inl _ \<Rightarrow> d)
      | EvPeerList v \<Rightarrow> d\<lparr>dr_directory := fst (apply_peer_list (dr_directory d) v)\<rparr>
      | EvPing \<Rightarrow> d\<lparr>dr_session := fst (send_pong cr (dr_session d))\<rparr>
      | _ \<Rightarrow> d)"

section \<open>The loop\<close>

definition send_uplink :: "'net Driver \<Rightarrow> bytes \<Rightarrow> 'net Driver" where
  "send_uplink d env = (if dr_uplink d then d\<lparr>dr_uplinked := dr_uplinked d @ [env]\<rparr> else d)"

definition flush_uplink :: "'net Driver \<Rightarrow> 'net Driver" where
  "flush_uplink d =
     (foldl send_uplink d (drop (dr_outbound_read d) (outbound (dr_session d))))
       \<lparr>dr_outbound_read := length (outbound (dr_session d))\<rparr>"

text \<open>The end of \<open>run\<close>: the state is closed and everything the driver owns is dropped.\<close>

definition drop_all :: "'net Driver \<Rightarrow> 'net Driver" where
  "drop_all d = foldl (\<lambda>d (sid, sl). drop_slot d sid sl) (d\<lparr>dr_streams := []\<rparr>) (dr_streams d)"

definition driver_end :: "'net Driver \<Rightarrow> 'net Driver" where
  "driver_end d = drop_all (d\<lparr>dr_session := set_state (dr_session d) StClosed, dr_closed := True\<rparr>)"

datatype driver_wake =
    WakeCommandsGone
  | WakeClose
  | WakeOpen Destination Proto "string list" RequestId nat
  | WakeInbound "bytes option"
  | WakeOutbound
  | WakeEvent

definition driver_wake_step ::
    "crypto_crate \<Rightarrow> hex_crate \<Rightarrow> 'net ipnet_crate \<Rightarrow> turn_env \<Rightarrow> 'net Driver \<Rightarrow> driver_wake \<Rightarrow> 'net Driver" where
  "driver_wake_step cr h c te d w =
     (case w of
        WakeCommandsGone \<Rightarrow> driver_end d
      | WakeClose \<Rightarrow>
          driver_end (flush_uplink (d\<lparr>dr_session := fst (send_bye cr (dr_session d) ''closed locally'')\<rparr>))
      | WakeOpen destination proto hops rid n \<Rightarrow> begin_open cr h te d destination proto hops rid (FromApp n)
      | WakeInbound None \<Rightarrow> driver_end d
      | WakeInbound (Some env) \<Rightarrow> d\<lparr>dr_session := fst (feed_lossy cr h (dr_session d) env)\<rparr>
      | WakeOutbound \<Rightarrow>
          if dr_outbound_read d < length (outbound (dr_session d))
          then (send_uplink d (outbound (dr_session d) ! dr_outbound_read d))\<lparr>dr_outbound_read := dr_outbound_read d + 1\<rparr>
          else d
      | WakeEvent \<Rightarrow>
          if dr_events_read d < length (events (dr_session d))
          then node_on_event cr h c te (d\<lparr>dr_events_read := dr_events_read d + 1\<rparr>) (events (dr_session d) ! dr_events_read d)
          else d)"

text \<open>What happens around the driver: a turn, a caller that gives up, a receiver that is dropped (with the stream, for an
  application; without, for a task), and a call of another holder of the session.\<close>

datatype driver_op =
    Turn turn_env driver_wake
  | GiveUp caller
  | DropStream nat
  | DropReceiver nat
  | HandleCall session_call

definition mark_gone :: "'net Driver \<Rightarrow> nat \<Rightarrow> 'net Driver" where
  "mark_gone d sid =
     (case map_of (dr_streams d) sid of
        Some sl \<Rightarrow> d\<lparr>dr_streams := hm_insert sid (sl\<lparr>dsl_gone := True\<rparr>) (dr_streams d)\<rparr>
      | None \<Rightarrow> d)"

definition is_open_call :: "session_call \<Rightarrow> bool" where
  "is_open_call k \<longleftrightarrow> (case k of COpen _ _ _ _ \<Rightarrow> True | _ \<Rightarrow> False)"

definition driver_step :: "crypto_crate \<Rightarrow> hex_crate \<Rightarrow> 'net ipnet_crate \<Rightarrow> 'net Driver \<Rightarrow> driver_op \<Rightarrow> 'net Driver" where
  "driver_step cr h c d op =
     (case op of
        Turn te w \<Rightarrow> if dr_closed d then d else driver_wake_step cr h c te d w
      | GiveUp who \<Rightarrow> d\<lparr>dr_abandoned := dr_abandoned d @ [who]\<rparr>
      | DropStream sid \<Rightarrow> mark_gone (d\<lparr>dr_session := close_stream (dr_session d) sid\<rparr>) sid
      | DropReceiver sid \<Rightarrow> mark_gone d sid
      | HandleCall k \<Rightarrow> if is_open_call k then d else d\<lparr>dr_session := session_step cr h (dr_session d) k\<rparr>)"

definition driver_run :: "crypto_crate \<Rightarrow> hex_crate \<Rightarrow> 'net ipnet_crate \<Rightarrow> 'net Driver \<Rightarrow> driver_op list \<Rightarrow> 'net Driver" where
  "driver_run cr h c = foldl (driver_step cr h c)"

section \<open>Connecting\<close>

text \<open>The transport: a reply to the bootstrap, and the carriers it binds; \<open>None\<close> is the deadline.\<close>

record node_transport =
  tr_authenticate :: "bytes \<Rightarrow> (NodeError + bytes) option"
  tr_bind :: "NodeBoundSession \<Rightarrow> (NodeError + CarrierKind list) option"

record connect_fresh =
  cf_attempt_id :: bytes
  cf_ts :: int
  cf_nonce :: bytes
  cf_hello_id :: bytes

record 'net HubSession =
  hs_endpoint :: HubEndpoint
  hs_driver :: "'net Driver"
  hs_health :: HealthTracker
  hs_bound :: NodeBoundSession

definition offered_auth :: "HubEndpoint \<Rightarrow> string \<Rightarrow> string list \<Rightarrow> connect_fresh \<Rightarrow> AuthFields" where
  "offered_auth ep nid caps fr =
     \<lparr>auth_version = PROTOCOL_VERSION, auth_hub_id = ep_hub_id ep, auth_key_id = ep_key_id ep, auth_node_id = nid,
      auth_attempt_id = cf_attempt_id fr, auth_ts = cf_ts fr, auth_nonce = cf_nonce fr, auth_capabilities = caps\<rparr>"

text \<open>The question-mark operator on a result under a deadline.\<close>

definition within_time :: "string \<Rightarrow> hub_detail \<Rightarrow> (NodeError + 'a) option \<Rightarrow> NodeError + 'a" where
  "within_time hub detail r = (case r of None \<Rightarrow> Inl (HubFailed hub detail) | Some x \<Rightarrow> x)"

definition hub_connect ::
    "crypto_crate \<Rightarrow> hex_crate \<Rightarrow> node_transport \<Rightarrow> connect_fresh \<Rightarrow> HubEndpoint \<Rightarrow> string \<Rightarrow> Psk \<Rightarrow> ServiceRegistration list
     \<Rightarrow> 'net InboundPolicy \<Rightarrow> string list \<Rightarrow> NodeError + 'net HubSession" where
  "hub_connect cr h tr fr ep nid psk services policy caps =
     (let hub = ep_hub_id ep; auth = offered_auth ep nid caps fr; offered_mac = auth_mac cr psk auth in
      rbind (map_err (\<lambda>e. HubFailed hub (CannotEncodeAuth e)) (encode (record_new Auth (auth_to_canonical h (auth, offered_mac))))) (\<lambda>request.
      rbind (within_time hub AuthTimedOut (tr_authenticate tr request)) (\<lambda>response.
      rbind (map_err (\<lambda>e. HubFailed hub (ReplyNotARecord e)) (decode response)) (\<lambda>reply.
      if kind reply \<noteq> AuthOk then Inl (HubFailed hub (ExpectedAuthOk (kind reply)))
      else
        rbind (map_err HandshakeFailed (verify_authok cr h psk (auth_attempt_id auth) offered_mac (metadata reply))) (\<lambda>authok.
        let ks = session_keys cr h psk auth authok;
            bound = \<lparr>bd_hub_id = hub, bd_node_id = nid, bd_session_id = aok_session_id authok,
                     bd_session_epoch = aok_session_epoch authok, bd_bind_key = sk_bind ks\<rparr>;
            s = Session_new (SessionConfig_new hub nid (aok_session_id authok) (aok_session_epoch authok) NodeSide) ks;
            s = set_state s StBinding in
        rbind (within_time hub BindTimedOut (tr_bind tr bound)) (\<lambda>carriers.
        if carriers = [] then Inl (CarrierFailed ''the transport bound no carrier; section 5.3 requires at least one'')
        else
          let d = driver_new (set_state s StHelloPending) (merge_carriers carriers) services policy in
          case send_hello cr h (dr_session d) \<lparr>hello_request_id = cf_hello_id fr, hello_services = services, hello_capabilities = caps\<rparr> of
            (s, Inl e) \<Rightarrow> Inl (SessionFailed e)
          | (s, Inr _) \<Rightarrow>
              Inr \<lparr>hs_endpoint = ep, hs_driver = d\<lparr>dr_session := s\<rparr>, hs_health = tracker_new, hs_bound = bound\<rparr>))))))"

text \<open>One round of \<open>wait_ready\<close>; \<open>None\<close> goes on waiting.\<close>

definition wait_ready_turn :: "Session \<Rightarrow> bool \<Rightarrow> bool \<Rightarrow> (NodeError + unit) option" where
  "wait_ready_turn s over past_deadline =
     (if is_ready s then Some (Inr ()) else if over then Some (Inl CarrierClosed)
      else if past_deadline then Some (Inl HelloTimeout) else None)"

definition record_health :: "HealthTracker \<Rightarrow> bool \<Rightarrow> nat \<Rightarrow> HealthTracker" where
  "record_health t healthy now = (if healthy then record_success t now else record_failure t now)"

definition health_check :: "'net HubSession \<Rightarrow> (NodeError + unit) option \<Rightarrow> nat \<Rightarrow> 'net HubSession \<times> (NodeError + unit)" where
  "health_check hs r now =
     (let outcome = within_time (ep_hub_id (hs_endpoint hs)) HealthTimedOut r in
      (hs\<lparr>hs_health := record_health (hs_health hs) (is_ok outcome) now\<rparr>, outcome))"

definition tick_operations :: "'net Driver \<Rightarrow> nat \<Rightarrow> 'net Driver" where
  "tick_operations d now = d\<lparr>dr_operations := fst (op_tick (dr_operations d) now)\<rparr>"

section \<open>Every open is answered once\<close>

definition owed :: "(nat \<times> StreamSlot) list \<Rightarrow> caller multiset" where
  "owed m = mset (List.map_filter (\<lambda>(sid, sl). dsl_reply sl) m)"

definition owes :: "StreamSlot \<Rightarrow> caller multiset" where
  "owes sl = (case dsl_reply sl of Some who \<Rightarrow> {#who#} | None \<Rightarrow> {#})"

text \<open>The calls accounted for: answered already, or owed an answer by a slot.\<close>

definition accounted :: "'net Driver \<Rightarrow> caller multiset" where
  "accounted d = mset (map fst (dr_answers d)) + owed (dr_streams d)"

lemma owed_Nil [simp]: "owed [] = {#}"
  by (simp add: owed_def map_filter_simps)

lemma owed_Cons [simp]: "owed ((sid, sl) # m) = owes sl + owed m"
  by (auto simp: owed_def owes_def map_filter_simps split: option.splits)

lemma owed_remove: "hm_inv m \<Longrightarrow> owed (hm_remove k m) + (case map_of m k of Some sl \<Rightarrow> owes sl | None \<Rightarrow> {#}) = owed m"
proof (induction m)
  case (Cons x m)
  obtain k' sl where x: "x = (k', sl)" by fastforce
  show ?case
  proof (cases "k' = k")
    case True
    have "k \<notin> fst ` set m" using Cons.prems True by (simp add: hm_inv_def x)
    then show ?thesis using True by (simp add: x delete_idem)
  next
    case False
    with Cons show ?thesis by (simp add: x hm_inv_def ac_simps)
  qed
qed simp

lemma owed_insert:
  "hm_inv m \<Longrightarrow> owed (hm_insert k sl m) + (case map_of m k of Some old \<Rightarrow> owes old | None \<Rightarrow> {#}) = owed m + owes sl"
proof (induction m)
  case (Cons x m)
  obtain k' sl' where x: "x = (k', sl')" by fastforce
  show ?case
    using Cons by (cases "k' = k") (simp_all add: x hm_inv_def ac_simps)
qed simp

text \<open>What the small operations leave alone.\<close>

lemma answer_frame [simp]:
  "dr_streams (answer_call d who a) = dr_streams d" "dr_operations (answer_call d who a) = dr_operations d"
  "dr_calls (answer_call d who a) = dr_calls d" "dr_opened (answer_call d who a) = dr_opened d"
  "dr_events_read (answer_call d who a) = dr_events_read d" "dr_abandoned (answer_call d who a) = dr_abandoned d"
  "dr_answers (answer_call d who a) = dr_answers d @ [(who, a)]" "dr_closed (answer_call d who a) = dr_closed d"
  by (simp_all add: answer_call_def Let_def split: sum.splits)

lemma drop_frame [simp]:
  "dr_streams (drop_slot d sid sl) = dr_streams d" "dr_operations (drop_slot d sid sl) = dr_operations d"
  "dr_calls (drop_slot d sid sl) = dr_calls d" "dr_opened (drop_slot d sid sl) = dr_opened d"
  "dr_events_read (drop_slot d sid sl) = dr_events_read d" "dr_abandoned (drop_slot d sid sl) = dr_abandoned d"
  "dr_answers (drop_slot d sid sl) = dr_answers d @ (case dsl_reply sl of Some who \<Rightarrow> [(who, Inl CarrierClosed)] | None \<Rightarrow> [])"
  "dr_closed (drop_slot d sid sl) = dr_closed d"
  by (simp_all add: drop_slot_def Let_def split: option.splits)

lemma insert_frame [simp]:
  "dr_streams (insert_slot d sid sl) = hm_insert sid sl (dr_streams d)" "dr_operations (insert_slot d sid sl) = dr_operations d"
  "dr_calls (insert_slot d sid sl) = dr_calls d" "dr_opened (insert_slot d sid sl) = dr_opened d"
  "dr_events_read (insert_slot d sid sl) = dr_events_read d" "dr_abandoned (insert_slot d sid sl) = dr_abandoned d"
  "dr_closed (insert_slot d sid sl) = dr_closed d"
  by (simp_all add: insert_slot_def Let_def split: option.splits)

lemma insert_answers:
  "dr_answers (insert_slot d sid sl) = dr_answers d @ (case map_of (dr_streams d) sid of
     Some old \<Rightarrow> (case dsl_reply old of Some who \<Rightarrow> [(who, Inl CarrierClosed)] | None \<Rightarrow> []) | None \<Rightarrow> [])"
  by (simp add: insert_slot_def Let_def split: option.splits)

lemma settle_frame [simp]:
  "dr_streams (settle_op d rid out now) = dr_streams d" "dr_session (settle_op d rid out now) = dr_session d"
  "dr_calls (settle_op d rid out now) = dr_calls d" "dr_opened (settle_op d rid out now) = dr_opened d"
  "dr_events_read (settle_op d rid out now) = dr_events_read d" "dr_abandoned (settle_op d rid out now) = dr_abandoned d"
  "dr_answers (settle_op d rid out now) = dr_answers d" "dr_closed (settle_op d rid out now) = dr_closed d"
  by (simp_all add: settle_op_def split: sum.splits)

text \<open>The account of each operation, for a table that is a map.\<close>

abbreviation slot_map :: "'net Driver \<Rightarrow> bool" where
  "slot_map d \<equiv> hm_inv (dr_streams d)"

lemma accounted_answer: "accounted (answer_call d who a) = add_mset who (accounted d)"
  by (simp add: accounted_def)

lemma accounted_drop: "accounted (drop_slot d sid sl) = accounted d + owes sl"
  by (simp add: accounted_def owes_def split: option.splits)

lemma accounted_insert: "slot_map d \<Longrightarrow> accounted (insert_slot d sid sl) = accounted d + owes sl"
  using owed_insert [of "dr_streams d" sid sl]
  by (auto simp: accounted_def insert_answers owes_def ac_simps split: option.splits)

lemma accounted_remove:
  "slot_map d \<Longrightarrow> accounted (d\<lparr>dr_streams := hm_remove sid (dr_streams d)\<rparr>)
     + (case map_of (dr_streams d) sid of Some sl \<Rightarrow> owes sl | None \<Rightarrow> {#}) = accounted d"
  using owed_remove [of "dr_streams d" sid] by (simp add: accounted_def ac_simps)

lemma accounted_put:
  "slot_map d \<Longrightarrow> map_of (dr_streams d) sid = Some sl \<Longrightarrow> dsl_reply sl' = dsl_reply sl \<Longrightarrow>
   accounted (d\<lparr>dr_streams := hm_insert sid sl' (dr_streams d)\<rparr>) = accounted d"
  using owed_insert [of "dr_streams d" sid sl'] by (simp add: accounted_def owes_def)

lemma accounted_ext [simp]:
  "accounted (d\<lparr>dr_session := s\<rparr>) = accounted d" "accounted (d\<lparr>dr_operations := t\<rparr>) = accounted d"
  "accounted (d\<lparr>dr_calls := cs\<rparr>) = accounted d" "accounted (d\<lparr>dr_opened := os\<rparr>) = accounted d"
  "accounted (d\<lparr>dr_tasks := ts\<rparr>) = accounted d" "accounted (d\<lparr>dr_directory := dir\<rparr>) = accounted d"
  "accounted (d\<lparr>dr_events_read := n\<rparr>) = accounted d" "accounted (d\<lparr>dr_outbound_read := n\<rparr>) = accounted d"
  "accounted (d\<lparr>dr_uplinked := us\<rparr>) = accounted d" "accounted (d\<lparr>dr_closed := b\<rparr>) = accounted d"
  "accounted (d\<lparr>dr_abandoned := ab\<rparr>) = accounted d" "accounted (settle_op d rid out now) = accounted d"
  by (simp_all add: accounted_def)

lemma begin_open_account:
  assumes "slot_map d"
  shows "slot_map (begin_open cr h te d dst proto hops rid who)
    \<and> accounted (begin_open cr h te d dst proto hops rid who) = add_mset who (accounted d)
    \<and> dr_calls (begin_open cr h te d dst proto hops rid who) = dr_calls d @ [who]
    \<and> dr_events_read (begin_open cr h te d dst proto hops rid who) = dr_events_read d"
  using assms unfolding begin_open_def Let_def
  by (auto simp: accounted_answer accounted_insert owes_def hm.inv_insert split: sum.split prod.split Admit.split)

lemma relay_leg_account:
  assumes "slot_map d"
  shows "slot_map (relay_chain_leg cr h te d f)
    \<and> accounted (relay_chain_leg cr h te d f) + mset (dr_calls d) = accounted d + mset (dr_calls (relay_chain_leg cr h te d f))"
  using begin_open_account [OF assms] by (simp add: relay_chain_leg_def Let_def)

lemma inbound_account:
  assumes "slot_map d"
  shows "slot_map (on_inbound_open cr h c te d f)
    \<and> accounted (on_inbound_open cr h c te d f) + mset (dr_calls d) = accounted d + mset (dr_calls (on_inbound_open cr h c te d f))"
proof -
  let ?d = "insert_slot d (open_stream_id f) \<lparr>dsl_sent = [], dsl_gone = False, dsl_stream = False, dsl_reply = None,
                     dsl_request_id = open_request_id f, dsl_from = dr_events_read d\<rparr>"
  have d: "slot_map ?d" "accounted ?d = accounted d" "dr_calls ?d = dr_calls d"
    using assms by (simp_all add: hm.inv_insert accounted_insert owes_def)
  show ?thesis
    using assms d relay_leg_account [OF d(1), of cr h te f]
    by (auto simp: on_inbound_open_def Let_def split: sum.split InboundPlan.split)
qed

lemma open_result_account:
  assumes "slot_map d"
  shows "slot_map (on_open_result te d f) \<and> accounted (on_open_result te d f) = accounted d
    \<and> dr_calls (on_open_result te d f) = dr_calls d"
proof (cases "map_of (dr_streams d) (res_stream_id f)")
  case (Some sl)
  let ?d = "d\<lparr>dr_streams := hm_remove (res_stream_id f) (dr_streams d)\<rparr>"
  have ok: "slot_map ?d" using assms by (simp add: hm.inv_remove)
  have acc: "accounted ?d + owes sl = accounted d" using accounted_remove [OF assms, of "res_stream_id f"] Some by simp
  show ?thesis
    using Some ok acc
    by (cases "dsl_reply sl")
      (auto simp: on_open_result_def Let_def accounted_insert accounted_drop accounted_answer owes_def hm.inv_insert)
qed (simp add: on_open_result_def Let_def assms)

lemma deliver_account:
  assumes "slot_map d"
  shows "slot_map (node_deliver d sid msg) \<and> accounted (node_deliver d sid msg) = accounted d
    \<and> dr_calls (node_deliver d sid msg) = dr_calls d"
proof (cases "map_of (dr_streams d) sid")
  case (Some sl)
  have "accounted (d\<lparr>dr_streams := hm_remove sid (dr_streams d)\<rparr>) + owes sl = accounted d"
    using accounted_remove [OF assms, of sid] Some by simp
  with assms Some show ?thesis
    by (auto simp: node_deliver_def accounted_drop accounted_put hm.inv_insert hm.inv_remove)
qed (simp add: node_deliver_def assms)

lemma event_account:
  assumes "slot_map d"
  shows "slot_map (node_on_event cr h c te d ev)
    \<and> accounted (node_on_event cr h c te d ev) + mset (dr_calls d) = accounted d + mset (dr_calls (node_on_event cr h c te d ev))"
  using inbound_account [OF assms] open_result_account [OF assms] deliver_account [OF assms] assms
  by (cases ev) (simp_all add: node_on_event_def split: sum.splits)

lemma drop_all_account:
  "dr_streams (drop_all d) = [] \<and> accounted (drop_all d) = accounted d \<and> dr_calls (drop_all d) = dr_calls d \<and> dr_closed (drop_all d) = dr_closed d"
proof -
  have "accounted (foldl (\<lambda>d (sid, sl). drop_slot d sid sl) d m) = accounted d + owed m
      \<and> dr_streams (foldl (\<lambda>d (sid, sl). drop_slot d sid sl) d m) = dr_streams d
      \<and> dr_calls (foldl (\<lambda>d (sid, sl). drop_slot d sid sl) d m) = dr_calls d
      \<and> dr_closed (foldl (\<lambda>d (sid, sl). drop_slot d sid sl) d m) = dr_closed d" for m and d :: "'a Driver"
  proof (induction m arbitrary: d)
    case (Cons x m)
    obtain sid sl where x: "x = (sid, sl)" by fastforce
    show ?case using Cons.IH [of "drop_slot d sid sl"] by (simp add: x accounted_drop add.assoc)
  qed simp
  from this [of "d\<lparr>dr_streams := []\<rparr>" "dr_streams d"]
  moreover have "accounted (d\<lparr>dr_streams := []\<rparr>) + owed (dr_streams d) = accounted d" by (simp add: accounted_def)
  ultimately show ?thesis unfolding drop_all_def by simp
qed

lemma uplink_frame [simp]:
  "dr_streams (send_uplink d env) = dr_streams d" "dr_calls (send_uplink d env) = dr_calls d"
  "dr_answers (send_uplink d env) = dr_answers d" "dr_session (send_uplink d env) = dr_session d"
  "dr_opened (send_uplink d env) = dr_opened d" "dr_operations (send_uplink d env) = dr_operations d"
  "dr_events_read (send_uplink d env) = dr_events_read d" "dr_closed (send_uplink d env) = dr_closed d"
  by (simp_all add: send_uplink_def)

lemma flush_frame [simp]:
  "dr_streams (flush_uplink d) = dr_streams d" "dr_calls (flush_uplink d) = dr_calls d"
  "dr_answers (flush_uplink d) = dr_answers d" "dr_session (flush_uplink d) = dr_session d"
  "dr_opened (flush_uplink d) = dr_opened d" "dr_operations (flush_uplink d) = dr_operations d"
  "dr_events_read (flush_uplink d) = dr_events_read d" "dr_closed (flush_uplink d) = dr_closed d"
proof -
  have "dr_streams (foldl send_uplink d es) = dr_streams d \<and> dr_calls (foldl send_uplink d es) = dr_calls d
      \<and> dr_answers (foldl send_uplink d es) = dr_answers d \<and> dr_session (foldl send_uplink d es) = dr_session d
      \<and> dr_opened (foldl send_uplink d es) = dr_opened d \<and> dr_operations (foldl send_uplink d es) = dr_operations d
      \<and> dr_events_read (foldl send_uplink d es) = dr_events_read d \<and> dr_closed (foldl send_uplink d es) = dr_closed d" for es
    by (induction es arbitrary: d) simp_all
  then show "dr_streams (flush_uplink d) = dr_streams d" "dr_calls (flush_uplink d) = dr_calls d"
    "dr_answers (flush_uplink d) = dr_answers d" "dr_session (flush_uplink d) = dr_session d"
    "dr_opened (flush_uplink d) = dr_opened d" "dr_operations (flush_uplink d) = dr_operations d"
    "dr_events_read (flush_uplink d) = dr_events_read d" "dr_closed (flush_uplink d) = dr_closed d"
    by (simp_all add: flush_uplink_def)
qed

text \<open>Every call begun is answered or owed an answer; once the driver ended nothing is owed.\<close>

definition account_inv :: "'net Driver \<Rightarrow> bool" where
  "account_inv d \<longleftrightarrow> slot_map d \<and> accounted d = mset (dr_calls d) \<and> (dr_closed d \<longrightarrow> dr_streams d = [])"

lemma driver_end_account: "account_inv d \<Longrightarrow> account_inv (driver_end d)"
  using drop_all_account [of "d\<lparr>dr_session := set_state (dr_session d) StClosed, dr_closed := True\<rparr>"]
  by (simp add: account_inv_def driver_end_def hm_inv_def)

lemma wake_account:
  assumes "account_inv d" "\<not> dr_closed d"
  shows "account_inv (driver_wake_step cr h c te d w)"
proof -
  have ok: "slot_map d" "accounted d = mset (dr_calls d)" using assms(1) by (simp_all add: account_inv_def)
  have ends: "account_inv (driver_end d')" if "dr_streams d' = dr_streams d" "dr_calls d' = dr_calls d" "dr_answers d' = dr_answers d" "dr_closed d' = dr_closed d"
    for d' :: "'a Driver"
    using that ok by (intro driver_end_account) (simp add: account_inv_def accounted_def assms(2))
  have closed: "dr_closed (node_on_event cr h c te d' ev) = dr_closed d'" for d' :: "'a Driver" and ev
    by (cases ev) (auto simp: node_on_event_def on_inbound_open_def on_open_result_def node_deliver_def relay_chain_leg_def
        begin_open_def Let_def split: sum.split prod.split option.split Admit.split InboundPlan.split)
  show ?thesis
  proof (cases w)
    case (WakeOpen dst proto hops rid n)
    have "dr_closed (begin_open cr h te d dst proto hops rid (FromApp n)) = dr_closed d"
      by (auto simp: begin_open_def Let_def split: sum.split prod.split Admit.split)
    with begin_open_account [OF ok(1), of cr h te dst proto hops rid "FromApp n"] ok assms(2) show ?thesis
      by (simp add: driver_wake_step_def WakeOpen account_inv_def)
  next
    case WakeEvent
    have "slot_map (d\<lparr>dr_events_read := dr_events_read d + 1\<rparr>)" using ok(1) by simp
    from event_account [OF this, of cr h c te "events (dr_session d) ! dr_events_read d"] ok assms(2) closed show ?thesis
      by (simp add: driver_wake_step_def WakeEvent account_inv_def)
  next
    case (WakeInbound x)
    show ?thesis using ends [of d] ok assms(2) by (cases x) (simp_all add: driver_wake_step_def WakeInbound account_inv_def)
  qed (use assms ok ends in \<open>simp_all add: driver_wake_step_def account_inv_def accounted_def\<close>)
qed

lemma mark_gone_account: "account_inv d \<Longrightarrow> account_inv (mark_gone d sid)"
  by (cases "map_of (dr_streams d) sid")
    (auto simp: account_inv_def mark_gone_def accounted_put hm.inv_insert)

lemma step_account: "account_inv d \<Longrightarrow> account_inv (driver_step cr h c d op)"
proof (cases op)
  case (DropStream sid)
  then show "account_inv d \<Longrightarrow> ?thesis"
    using mark_gone_account [of "d\<lparr>dr_session := close_stream (dr_session d) sid\<rparr>" sid] by (simp add: driver_step_def account_inv_def)
qed (auto simp: driver_step_def wake_account mark_gone_account account_inv_def [of "_\<lparr>dr_abandoned := _\<rparr>"]
    account_inv_def [of "_\<lparr>dr_session := _\<rparr>"] account_inv_def [of d])

lemma run_account: "account_inv d \<Longrightarrow> account_inv (driver_run cr h c d ops)"
  unfolding driver_run_def by (induction ops arbitrary: d) (simp_all add: step_account)

lemma account_new: "account_inv (driver_new s up services policy)"
  by (simp add: account_inv_def driver_new_def accounted_def hm_inv_def)

section \<open>A request opens at most one stream\<close>

lemma close_stream_frame [simp]:
  "events (close_stream s sid) = events s" "next_stream_id (close_stream s sid) = next_stream_id s"
  by (simp_all add: close_stream_def)

lemma answer_session [simp]:
  "events (dr_session (answer_call d who a)) = events (dr_session d)"
  "next_stream_id (dr_session (answer_call d who a)) = next_stream_id (dr_session d)"
  by (simp_all add: answer_call_def Let_def split: sum.splits)

lemma drop_session [simp]:
  "events (dr_session (drop_slot d sid sl)) = events (dr_session d)"
  "next_stream_id (dr_session (drop_slot d sid sl)) = next_stream_id (dr_session d)"
  by (simp_all add: drop_slot_def Let_def split: option.splits)

lemma insert_session [simp]:
  "events (dr_session (insert_slot d sid sl)) = events (dr_session d)"
  "next_stream_id (dr_session (insert_slot d sid sl)) = next_stream_id (dr_session d)"
  by (simp_all add: insert_slot_def Let_def split: option.splits)

definition op_link :: "'net Driver \<Rightarrow> bool" where
  "op_link d \<longleftrightarrow> op_inv (dr_operations d) \<and> distinct (map (fst \<circ> snd) (dr_opened d))
     \<and> (\<forall>x \<in> set (dr_opened d). op_spent (dr_operations d) (fst (snd x)))"

lemma op_link_cong: "dr_operations d' = dr_operations d \<Longrightarrow> dr_opened d' = dr_opened d \<Longrightarrow> op_link d \<Longrightarrow> op_link d'"
  by (simp add: op_link_def)

lemma op_link_settle: "op_link d \<Longrightarrow> op_link (settle_op d rid out now)"
  by (auto simp: op_link_def settle_op_def settle_inv settle_keeps split: sum.splits)

lemma op_link_tick: "op_link d \<Longrightarrow> op_link (d\<lparr>dr_operations := fst (op_tick (dr_operations d) now)\<rparr>)"
  by (simp add: op_link_def op_tick_inv op_tick_spent)

lemma op_link_begin:
  assumes "op_link d"
  shows "op_link (begin_open cr h te d dst proto hops rid who)"
proof -
  let ?d = "d\<lparr>dr_calls := dr_calls d @ [who], dr_operations := fst (op_tick (dr_operations d) (te_clock te 0))\<rparr>"
  let ?hash = "OperationHash_of (sha256 cr) (open_operation_bytes dst proto hops)"
  have t: "op_link ?d" using op_link_tick [OF assms, of "te_clock te 0"] by (rule op_link_cong [rotated 2]) simp_all
  show ?thesis
  proof (cases "op_begin (dr_operations ?d) rid ?hash (te_clock te 1)")
    case (Inl e)
    then show ?thesis using t by (simp add: begin_open_def Let_def op_link_def)
  next
    case (Inr r)
    obtain t' ad where r: "r = (t', ad)" by fastforce
    have keep: "op_link (?d\<lparr>dr_operations := t'\<rparr>)"
      using t Inr op_begin_inv [of "dr_operations ?d"] op_begin_keeps [of "dr_operations ?d"] by (auto simp: op_link_def r)
    show ?thesis
    proof (cases ad)
      case Execute
      have new: "\<not> op_spent (dr_operations ?d) rid" "op_spent t' rid"
        using op_begin_executes Inr unfolding r Execute by blast+
      then have fresh: "rid \<notin> (fst \<circ> snd) ` set (dr_opened d)" using t by (auto simp: op_link_def)
      obtain s res where so: "session_open cr h (dr_session d) dst hops proto rid = (s, res)" by fastforce
      show ?thesis
      proof (cases res)
        case (Inl e)
        have "op_link (settle_op (?d\<lparr>dr_operations := t', dr_session := s\<rparr>) rid (Failed (as_bytes (te_text te e))) (te_clock te 2))"
          by (rule op_link_settle, rule op_link_cong [OF _ _ keep]) simp_all
        then show ?thesis using \<open>op_begin _ _ _ _ = Inr r\<close> so
          by (simp add: begin_open_def Let_def r Execute Inl op_link_def)
      next
        case (Inr x)
        show ?thesis using \<open>op_begin _ _ _ _ = Inr r\<close> so keep new fresh
          by (cases x) (auto simp: begin_open_def Let_def r Execute Inr op_link_def)
      qed
    qed (use keep Inr in \<open>simp_all add: begin_open_def Let_def r op_link_def\<close>)
  qed
qed

lemma op_link_event: "op_link d \<Longrightarrow> op_link (node_on_event cr h c te d ev)"
proof (cases ev)
  case (EvOpen f)
  have relay: "op_link (relay_chain_leg cr h te d' f)" if "op_link d'" for d' :: "'a Driver"
    using op_link_begin [OF that] by (simp add: relay_chain_leg_def Let_def op_link_def)
  assume d: "op_link d"
  have ins: "op_link (insert_slot d sid sl)" for sid sl by (rule op_link_cong [OF _ _ d]) simp_all
  show ?thesis unfolding EvOpen using d ins relay [OF ins] op_link_cong [OF _ _ d]
    by (simp add: node_on_event_def on_inbound_open_def Let_def split: sum.split InboundPlan.split)
      (simp add: op_link_def)
next
  case (EvOpenResult f)
  assume "op_link d"
  then have "op_link (d\<lparr>dr_streams := m\<rparr>)" for m by (simp add: op_link_def)
  from op_link_settle [OF this] show ?thesis using \<open>op_link d\<close> unfolding EvOpenResult
    by (auto simp: node_on_event_def on_open_result_def Let_def op_link_def split: option.split)
qed (auto simp: node_on_event_def node_deliver_def op_link_def split: sum.split option.split)

lemma drop_all_frame [simp]:
  "dr_operations (drop_all d) = dr_operations d" "dr_opened (drop_all d) = dr_opened d"
  "events (dr_session (drop_all d)) = events (dr_session d)" "dr_events_read (drop_all d) = dr_events_read d"
  "next_stream_id (dr_session (drop_all d)) = next_stream_id (dr_session d)"
proof -
  have "dr_operations (foldl (\<lambda>d (sid, sl). drop_slot d sid sl) d m) = dr_operations d
      \<and> dr_opened (foldl (\<lambda>d (sid, sl). drop_slot d sid sl) d m) = dr_opened d
      \<and> events (dr_session (foldl (\<lambda>d (sid, sl). drop_slot d sid sl) d m)) = events (dr_session d)
      \<and> dr_events_read (foldl (\<lambda>d (sid, sl). drop_slot d sid sl) d m) = dr_events_read d
      \<and> next_stream_id (dr_session (foldl (\<lambda>d (sid, sl). drop_slot d sid sl) d m)) = next_stream_id (dr_session d)"
    for m and d :: "'a Driver"
    by (induction m arbitrary: d) (simp_all add: split_beta)
  from this [of "d\<lparr>dr_streams := []\<rparr>" "dr_streams d"] show
    "dr_operations (drop_all d) = dr_operations d" "dr_opened (drop_all d) = dr_opened d"
    "events (dr_session (drop_all d)) = events (dr_session d)" "dr_events_read (drop_all d) = dr_events_read d"
    "next_stream_id (dr_session (drop_all d)) = next_stream_id (dr_session d)"
    by (simp_all add: drop_all_def)
qed

lemma op_link_step: "op_link d \<Longrightarrow> op_link (driver_step cr h c d op)"
proof (cases op)
  case (Turn te w)
  assume a: "op_link d"
  then have ev: "op_link (node_on_event cr h c te (d\<lparr>dr_events_read := n\<rparr>) ev)" for n ev
    by (intro op_link_event) (simp add: op_link_def)
  show ?thesis using a op_link_begin [OF a] ev unfolding Turn
    by (cases w) (auto simp: driver_step_def driver_wake_step_def driver_end_def op_link_def split: option.split)
qed (auto simp: driver_step_def mark_gone_def op_link_def split: option.split)

lemma op_link_run: "op_link d \<Longrightarrow> op_link (driver_run cr h c d ops)"
  unfolding driver_run_def by (induction ops arbitrary: d) (simp_all add: op_link_step)

lemma op_link_new: "op_link (driver_new s up services policy)"
  by (simp add: op_link_def driver_new_def op_inv_new)

section \<open>No stream is given away twice\<close>

definition session_grows :: "Session \<Rightarrow> Session \<Rightarrow> bool" where
  "session_grows s s' \<longleftrightarrow> next_stream_id s' = next_stream_id s \<and> prefix (events s) (events s')"

lemma grows_step: "\<not> is_open_call k \<Longrightarrow> session_grows s (session_step cr h s k)"
  using sk.rel_step_keep [where c = k and s = s and cr = cr and h = h] sx.rel_step [where s = s and cr = cr and h = h and c = k]
  by (auto simp: session_grows_def is_open_call_def split: session_call.splits)

lemma session_calls_grow:
  "session_grows s (fst (send_reset cr s sid r))" "session_grows s (fst (send_open_result cr h s f))"
  "session_grows s (fst (send_pong cr s))" "session_grows s (fst (send_bye cr s w))" "session_grows s (set_state s st)"
  "session_grows s (fst (feed_lossy cr h s env))" "session_grows s (close_stream s sid)"
  using grows_step [of "CSendReset sid r" s cr h] grows_step [of "CSendOpenResult f" s cr h] grows_step [of CSendPong s cr h]
    grows_step [of "CSendBye w" s cr h] grows_step [of "CSetState st" s cr h] grows_step [of "CFeedLossy env" s cr h]
    grows_step [of "CCloseStream sid" s cr h]
  by (simp_all add: is_open_call_def)

lemma session_open_ids:
  assumes "session_open cr h s dst hops p rid = (s', r)" "next_stream_id s + 2 < 2 ^ 64"
  shows "next_stream_id s' = next_stream_id s + 2 \<and> (\<forall>sid x. r = Inr (sid, x) \<longrightarrow> sid = next_stream_id s) \<and> prefix (events s) (events s')"
proof -
  have "prefix (events s) (events s')"
    using sx.rel_open [where s = s and cr = cr and h = h and d = dst and hops = hops and p = p and rid = rid] assms(1) by simp
  moreover have al: "allocate_stream_id s = (s\<lparr>next_stream_id := next_stream_id s + 2\<rparr>, Inr (next_stream_id s))"
    using assms(2) by (simp add: allocate_stream_id_def checked_add_def u64_max_def Let_def)
  let ?s = "s\<lparr>next_stream_id := next_stream_id s + 2\<rparr>"
  have "next_stream_id s' = next_stream_id s + 2 \<and> (\<forall>sid x. r = Inr (sid, x) \<longrightarrow> sid = next_stream_id s)"
  proof (cases "cfg_max_streams (config ?s) \<le> length (streams ?s)")
    case True
    then show ?thesis using assms(1) al by (auto simp: session_open_def andthen_def)
  next
    case False
    obtain s2 r2 where sc: "send_control cr (put_stream ?s (next_stream_id s) (StreamEntry_new (cfg_flow_window (config ?s)))) Open
        (open_to_canonical h \<lparr>open_request_id = rid, open_stream_id = next_stream_id s, open_proto = p, open_destination = dst, open_via = hops\<rparr>)
        = (s2, r2)" by fastforce
    have "next_stream_id s2 = next_stream_id s + 2"
      using send_frame(8) [of cr "put_stream ?s (next_stream_id s) (StreamEntry_new (cfg_flow_window (config ?s)))" Open
          "open_to_canonical h \<lparr>open_request_id = rid, open_stream_id = next_stream_id s, open_proto = p, open_destination = dst, open_via = hops\<rparr>" "[]"] sc
      by (simp add: send_control_def put_stream_def)
    then show ?thesis using assms(1) al False sc by (cases r2) (auto simp: session_open_def andthen_def Let_def)
  qed
  with \<open>prefix (events s) (events s')\<close> show ?thesis by simp
qed

text \<open>What an attempt to open shows: it is refused, or the engine sent the \<open>Open\<close> and the slot is there.\<close>

abbreviation fresh_slot :: "caller \<Rightarrow> RequestId \<Rightarrow> nat \<Rightarrow> StreamSlot" where
  "fresh_slot who rid n \<equiv> \<lparr>dsl_sent = [], dsl_gone = False, dsl_stream = True, dsl_reply = Some who, dsl_request_id = rid, dsl_from = n\<rparr>"

lemma begin_open_cases:
  fixes d :: "'net Driver"
  defines "d' \<equiv> \<lambda>cr h te dst proto hops rid who. begin_open cr h te d dst proto hops rid who"
  shows "(\<exists>e s'. dr_answers (d' cr h te dst proto hops rid who) = dr_answers d @ [(who, Inl e)]
        \<and> dr_opened (d' cr h te dst proto hops rid who) = dr_opened d \<and> dr_streams (d' cr h te dst proto hops rid who) = dr_streams d
        \<and> (s' = dr_session d \<or> (\<exists>r. session_open cr h (dr_session d) dst hops proto rid = (s', r)))
        \<and> events (dr_session (d' cr h te dst proto hops rid who)) = events s'
        \<and> next_stream_id (dr_session (d' cr h te dst proto hops rid who)) = next_stream_id s')
    \<or> (\<exists>s' sid x cl. session_open cr h (dr_session d) dst hops proto rid = (s', Inr (sid, x))
        \<and> dr_opened (d' cr h te dst proto hops rid who) = dr_opened d @ [(who, rid, sid)]
        \<and> dr_streams (d' cr h te dst proto hops rid who) = hm_insert sid (fresh_slot who rid (dr_events_read d)) (dr_streams d)
        \<and> dr_answers (d' cr h te dst proto hops rid who) = dr_answers d @ cl \<and> (\<forall>y \<in> set cl. snd y = Inl CarrierClosed)
        \<and> events (dr_session (d' cr h te dst proto hops rid who)) = events s'
        \<and> next_stream_id (dr_session (d' cr h te dst proto hops rid who)) = next_stream_id s')"
  unfolding d'_def begin_open_def Let_def
  by (auto simp: insert_answers split: sum.split prod.split Admit.split option.split)

definition ids_inv :: "'net Driver \<Rightarrow> bool" where
  "ids_inv d \<longleftrightarrow> distinct (map (snd \<circ> snd) (dr_opened d))
     \<and> (\<forall>x \<in> set (dr_opened d). snd (snd x) < next_stream_id (dr_session d))"

abbreviation next_id :: "'net Driver \<Rightarrow> nat" where
  "next_id d \<equiv> next_stream_id (dr_session d)"

lemma ids_begin:
  assumes "ids_inv d" "next_id d + 2 < 2 ^ 64"
  shows "ids_inv (begin_open cr h te d dst proto hops rid who) \<and> next_id (begin_open cr h te d dst proto hops rid who) \<le> next_id d + 2"
  using begin_open_cases [where d = d and cr = cr and h = h and te = te and dst = dst and proto = proto and hops = hops and rid = rid and who = who]
proof (elim disjE exE conjE)
  fix e s' r
  assume a: "dr_opened (begin_open cr h te d dst proto hops rid who) = dr_opened d"
    "next_id (begin_open cr h te d dst proto hops rid who) = next_stream_id s'"
    "session_open cr h (dr_session d) dst hops proto rid = (s', r)"
  from session_open_ids [OF a(3) assms(2)] assms(1) a(1,2) show ?thesis by (fastforce simp: ids_inv_def)
next
  fix s' sid x cl
  assume a: "session_open cr h (dr_session d) dst hops proto rid = (s', Inr (sid, x))"
    "dr_opened (begin_open cr h te d dst proto hops rid who) = dr_opened d @ [(who, rid, sid)]"
    "next_id (begin_open cr h te d dst proto hops rid who) = next_stream_id s'"
  from session_open_ids [OF a(1) assms(2)] assms(1) a(2,3) show ?thesis by (fastforce simp: ids_inv_def)
qed (use assms in \<open>simp add: ids_inv_def\<close>)

lemma ids_same: "dr_opened d' = dr_opened d \<Longrightarrow> next_id d' = next_id d \<Longrightarrow> ids_inv d \<Longrightarrow> ids_inv d' \<and> next_id d' \<le> next_id d + 2"
  by (simp add: ids_inv_def)

lemma ids_event:
  assumes "ids_inv d" "next_id d + 2 < 2 ^ 64"
  shows "ids_inv (node_on_event cr h c te d ev) \<and> next_id (node_on_event cr h c te d ev) \<le> next_id d + 2"
proof (cases "\<exists>f. ev = EvOpen f \<and> map_of (dr_streams d) (open_stream_id f) = None
    \<and> plan_inbound c (cfg_node_id (config (dr_session d))) (dr_services d) (dr_policy d) f = Inr Forward")
  case True
  then obtain f where f: "ev = EvOpen f" "map_of (dr_streams d) (open_stream_id f) = None"
      "plan_inbound c (cfg_node_id (config (dr_session d))) (dr_services d) (dr_policy d) f = Inr Forward" by blast
  let ?d = "insert_slot d (open_stream_id f) \<lparr>dsl_sent = [], dsl_gone = False, dsl_stream = False, dsl_reply = None,
                     dsl_request_id = open_request_id f, dsl_from = dr_events_read d\<rparr>"
  have "ids_inv ?d" "next_id ?d = next_id d" using assms(1) by (simp_all add: ids_inv_def)
  with ids_begin [of ?d cr h te "open_destination f" "open_proto f" "open_via f" "te_fresh te" "FromChain (length (dr_calls ?d))"] assms(2)
  show ?thesis by (simp add: f node_on_event_def on_inbound_open_def Let_def relay_chain_leg_def ids_inv_def)
next
  case False
  then have "dr_opened (node_on_event cr h c te d ev) = dr_opened d \<and> next_id (node_on_event cr h c te d ev) = next_id d"
    using session_calls_grow
    by (cases ev) (auto simp: node_on_event_def on_inbound_open_def on_open_result_def node_deliver_def session_grows_def Let_def
        split: sum.split option.split InboundPlan.split)
  with assms(1) ids_same show ?thesis by blast
qed

lemma ids_step:
  assumes "ids_inv d" "next_id d + 2 < 2 ^ 64"
  shows "ids_inv (driver_step cr h c d op) \<and> next_id (driver_step cr h c d op) \<le> next_id d + 2"
proof (cases op)
  case (Turn te w)
  have ev: "ids_inv (node_on_event cr h c te (d\<lparr>dr_events_read := n\<rparr>) ev)
      \<and> next_id (node_on_event cr h c te (d\<lparr>dr_events_read := n\<rparr>) ev) \<le> next_id d + 2" for n ev
    using ids_event [of "d\<lparr>dr_events_read := n\<rparr>"] assms by (simp add: ids_inv_def)
  show ?thesis unfolding Turn using assms ev ids_begin [OF assms] session_calls_grow
    by (cases w) (auto simp: driver_step_def driver_wake_step_def driver_end_def ids_inv_def session_grows_def split: option.split)
qed (use assms grows_step in \<open>auto simp: driver_step_def mark_gone_def ids_inv_def session_grows_def split: option.split\<close>)

lemma ids_run:
  "ids_inv d \<Longrightarrow> next_id d + 2 * length ops < 2 ^ 64 \<Longrightarrow> ids_inv (driver_run cr h c d ops)"
  unfolding driver_run_def
proof (induction ops arbitrary: d)
  case (Cons op ops)
  have "next_id d + 2 < 2 ^ 64" using Cons.prems(2) by simp
  from ids_step [OF Cons.prems(1) this, of cr h c op] Cons.prems(2) Cons.IH [of "driver_step cr h c d op"] show ?case by simp
qed simp

section \<open>What a stream is sent, and who gets it\<close>

definition seen_events :: "'net Driver \<Rightarrow> SessionEvent list" where
  "seen_events d = take (dr_events_read d) (events (dr_session d))"

text \<open>The message an event is for a stream.\<close>

definition msg_for :: "nat \<Rightarrow> SessionEvent \<Rightarrow> StreamMsg list" where
  "msg_for sid ev =
     (case ev of
        EvData i _ pl \<Rightarrow> if i = sid then [MData pl] else []
      | EvFin f \<Rightarrow> if fin_stream_id f = sid then [MFin (fin_final_offset f)] else []
      | EvReset f \<Rightarrow> if reset_stream_id f = sid then [MReset (reset_reason f)] else []
      | EvProgress f \<Rightarrow> if prog_stream_id f = sid then [MCredit] else []
      | EvDatagram md pl \<Rightarrow>
          (case datagram_from_canonical md of
             Inr f \<Rightarrow> if dg_stream_id f = sid then [MDatagram f pl] else []
           | Inl _ \<Rightarrow> [])
      | _ \<Rightarrow> [])"

definition messages_for :: "nat \<Rightarrow> SessionEvent list \<Rightarrow> StreamMsg list" where
  "messages_for sid evs = concat (map (msg_for sid) evs)"

lemma deliver_slots:
  assumes "slot_map d" "map_of (dr_streams (node_deliver d i m)) sid = Some sl'"
  shows "\<exists>sl. map_of (dr_streams d) sid = Some sl \<and> dsl_sent sl' = dsl_sent sl @ (if i = sid then [m] else []) \<and> dsl_from sl' = dsl_from sl
    \<and> dsl_reply sl' = dsl_reply sl \<and> dsl_request_id sl' = dsl_request_id sl"
  using assms
  by (auto simp: node_deliver_def hm.get_insert hm.get_remove split: option.splits if_splits)

definition slot_step :: "'net Driver \<Rightarrow> 'net Driver \<Rightarrow> (nat \<Rightarrow> StreamMsg list) \<Rightarrow> bool" where
  "slot_step d d' msgs \<longleftrightarrow> (\<forall>sid sl'. map_of (dr_streams d') sid = Some sl' \<longrightarrow>
     (\<exists>sl. map_of (dr_streams d) sid = Some sl \<and> dsl_sent sl' = dsl_sent sl @ msgs sid \<and> dsl_from sl' = dsl_from sl
        \<and> (dsl_reply sl' = None \<or> dsl_reply sl' = dsl_reply sl) \<and> dsl_request_id sl' = dsl_request_id sl)
     \<or> dsl_sent sl' = [] \<and> dsl_from sl' = dr_events_read d
        \<and> (\<forall>who. dsl_reply sl' = Some who \<longrightarrow> (who, dsl_request_id sl', sid) \<in> set (dr_opened d')))"

lemma begin_slots:
  assumes "slot_map d"
  shows "slot_step d (begin_open cr h te d dst proto hops rid who) (\<lambda>_. [])"
  using begin_open_cases [where d = d and cr = cr and h = h and te = te and dst = dst and proto = proto and hops = hops and rid = rid and who = who]
  by (elim disjE exE conjE) (auto simp: slot_step_def hm.get_insert [OF assms])

lemma inbound_slots:
  assumes "slot_map d"
  shows "slot_step d (on_inbound_open cr h c te d f) (\<lambda>_. [])"
proof -
  let ?d = "insert_slot d (open_stream_id f) \<lparr>dsl_sent = [], dsl_gone = False, dsl_stream = False, dsl_reply = None,
                     dsl_request_id = open_request_id f, dsl_from = dr_events_read d\<rparr>"
  have d: "slot_map ?d" using assms by (simp add: hm.inv_insert)
  have step: "slot_step d ?d (\<lambda>_. [])" by (auto simp: slot_step_def hm.get_insert [OF assms])
  have leg: "slot_step ?d (relay_chain_leg cr h te ?d f) (\<lambda>_. [])"
    using begin_slots [OF d] by (simp add: relay_chain_leg_def Let_def slot_step_def)
  have "slot_step d (relay_chain_leg cr h te ?d f) (\<lambda>_. [])"
    unfolding slot_step_def
  proof (intro allI impI)
    fix sid sl'
    assume l: "map_of (dr_streams (relay_chain_leg cr h te ?d f)) sid = Some sl'"
    with leg have "(\<exists>sl. map_of (dr_streams ?d) sid = Some sl \<and> dsl_sent sl' = dsl_sent sl \<and> dsl_from sl' = dsl_from sl
        \<and> (dsl_reply sl' = None \<or> dsl_reply sl' = dsl_reply sl) \<and> dsl_request_id sl' = dsl_request_id sl)
      \<or> dsl_sent sl' = [] \<and> dsl_from sl' = dr_events_read d
        \<and> (\<forall>who. dsl_reply sl' = Some who \<longrightarrow> (who, dsl_request_id sl', sid) \<in> set (dr_opened (relay_chain_leg cr h te ?d f)))"
      unfolding slot_step_def by auto
    then show "(\<exists>sl. map_of (dr_streams d) sid = Some sl \<and> dsl_sent sl' = dsl_sent sl @ [] \<and> dsl_from sl' = dsl_from sl
        \<and> (dsl_reply sl' = None \<or> dsl_reply sl' = dsl_reply sl) \<and> dsl_request_id sl' = dsl_request_id sl)
      \<or> dsl_sent sl' = [] \<and> dsl_from sl' = dr_events_read d
        \<and> (\<forall>who. dsl_reply sl' = Some who \<longrightarrow> (who, dsl_request_id sl', sid) \<in> set (dr_opened (relay_chain_leg cr h te ?d f)))"
      by (cases "sid = open_stream_id f") (auto simp: hm.get_insert [OF assms])
  qed
  with step show ?thesis
    by (auto simp: on_inbound_open_def Let_def split: sum.split InboundPlan.split) (auto simp: slot_step_def hm.get_insert [OF assms])
qed

lemma result_slots:
  assumes "slot_map d"
  shows "slot_step d (on_open_result te d f) (\<lambda>_. [])"
proof -
  have r: "slot_map (d\<lparr>dr_streams := hm_remove i (dr_streams d)\<rparr>)" for i using assms by (simp add: hm.inv_remove)
  show ?thesis
    by (auto simp: slot_step_def on_open_result_def Let_def hm.get_insert [OF r [simplified]] hm.get_remove [OF assms]
        split: option.splits if_splits)
qed

lemma event_slots:
  assumes "slot_map d"
  shows "slot_step d (node_on_event cr h c te d ev) (\<lambda>sid. msg_for sid ev)"
proof -
  have del: "slot_step d (node_deliver d i m) (\<lambda>sid. if i = sid then [m] else [])" for i m
    using deliver_slots [OF assms] unfolding slot_step_def by fastforce
  show ?thesis
    using inbound_slots [OF assms] result_slots [OF assms] del
    by (cases ev) (auto simp: node_on_event_def msg_for_def slot_step_def split: sum.splits)
qed

text \<open>What any step leaves of the record of opens, answers and events.\<close>

definition history :: "'net Driver \<Rightarrow> 'net Driver \<Rightarrow> bool" where
  "history d d' \<longleftrightarrow> set (dr_opened d) \<subseteq> set (dr_opened d') \<and> prefix (events (dr_session d)) (events (dr_session d'))
     \<and> dr_events_read d' = dr_events_read d"

definition no_new_streams :: "'net Driver \<Rightarrow> 'net Driver \<Rightarrow> bool" where
  "no_new_streams d d' \<longleftrightarrow> (\<forall>who sid. (who, Inr sid) \<in> set (dr_answers d') \<longrightarrow> (who, Inr sid) \<in> set (dr_answers d))"

lemma begin_history:
  "history d (begin_open cr h te d dst proto hops rid who) \<and> no_new_streams d (begin_open cr h te d dst proto hops rid who)"
proof -
  have p: "prefix (events (dr_session d)) (events s')" if "session_open cr h (dr_session d) dst hops proto rid = (s', r)" for s' r
    using sx.rel_open [where s = "dr_session d" and cr = cr and h = h and d = dst and hops = hops and p = proto and rid = rid] that by simp
  have r: "dr_events_read (begin_open cr h te d dst proto hops rid who) = dr_events_read d"
    by (auto simp: begin_open_def Let_def split: sum.split prod.split Admit.split)
  from begin_open_cases [where d = d and cr = cr and h = h and te = te and dst = dst and proto = proto and hops = hops and rid = rid and who = who]
  show ?thesis using p r
    by (elim disjE exE conjE) (auto simp: history_def no_new_streams_def)
qed

lemma leg_history: "history d (relay_chain_leg cr h te d f) \<and> no_new_streams d (relay_chain_leg cr h te d f)"
  using begin_history [of d cr h te] by (simp add: relay_chain_leg_def Let_def history_def no_new_streams_def)

lemma inbound_history: "history d (on_inbound_open cr h c te d f) \<and> no_new_streams d (on_inbound_open cr h c te d f)"
proof -
  let ?d = "insert_slot d (open_stream_id f) \<lparr>dsl_sent = [], dsl_gone = False, dsl_stream = False, dsl_reply = None,
                     dsl_request_id = open_request_id f, dsl_from = dr_events_read d\<rparr>"
  have "history d ?d \<and> no_new_streams d ?d"
    by (auto simp: history_def no_new_streams_def insert_answers split: option.splits)
  with leg_history [of ?d cr h te f] session_calls_grow show ?thesis
    by (auto simp: on_inbound_open_def Let_def session_grows_def history_def no_new_streams_def split: sum.split InboundPlan.split)
qed

lemma event_history:
  "history d (node_on_event cr h c te d ev)"
  "(who, Inr sid) \<in> set (dr_answers (node_on_event cr h c te d ev)) \<Longrightarrow> (who, Inr sid) \<in> set (dr_answers d)
     \<or> (\<exists>f sl. ev = EvOpenResult f \<and> res_status f = StatusOk \<and> res_stream_id f = sid
          \<and> map_of (dr_streams d) sid = Some sl \<and> dsl_reply sl = Some who)"
proof -
  show "history d (node_on_event cr h c te d ev)"
    using inbound_history [of d cr h c te] session_calls_grow
    by (cases ev) (auto simp: node_on_event_def on_open_result_def node_deliver_def session_grows_def history_def Let_def
        split: sum.split option.split)
  show "(who, Inr sid) \<in> set (dr_answers (node_on_event cr h c te d ev)) \<Longrightarrow> (who, Inr sid) \<in> set (dr_answers d)
     \<or> (\<exists>f sl. ev = EvOpenResult f \<and> res_status f = StatusOk \<and> res_stream_id f = sid
          \<and> map_of (dr_streams d) sid = Some sl \<and> dsl_reply sl = Some who)"
    using inbound_history [of d cr h c te]
    by (cases ev) (auto simp: node_on_event_def on_open_result_def node_deliver_def insert_answers no_new_streams_def Let_def
        split: sum.splits option.splits if_splits)
qed

definition won :: "'net Driver \<Rightarrow> caller \<Rightarrow> nat \<Rightarrow> bool" where
  "won d who sid \<longleftrightarrow> (\<exists>rid. (who, rid, sid) \<in> set (dr_opened d))
     \<and> (\<exists>f. EvOpenResult f \<in> set (seen_events d) \<and> res_stream_id f = sid \<and> res_status f = StatusOk)"

definition slots_fine :: "'net Driver \<Rightarrow> nat \<Rightarrow> bool" where
  "slots_fine d n \<longleftrightarrow> (\<forall>sid sl. map_of (dr_streams d) sid = Some sl \<longrightarrow>
     (\<forall>who. dsl_reply sl = Some who \<longrightarrow> (who, dsl_request_id sl, sid) \<in> set (dr_opened d))
     \<and> dsl_from sl \<le> n \<and> dsl_sent sl = messages_for sid (drop (dsl_from sl) (take n (events (dr_session d)))))"

definition link_inv :: "'net Driver \<Rightarrow> bool" where
  "link_inv d \<longleftrightarrow> slot_map d \<and> dr_events_read d \<le> length (events (dr_session d)) \<and> slots_fine d (dr_events_read d)
     \<and> (\<forall>who sid. (who, Inr sid) \<in> set (dr_answers d) \<longrightarrow> won d who sid)"

lemma prefix_take: "prefix xs ys \<Longrightarrow> n \<le> length xs \<Longrightarrow> take n ys = take n xs"
  by (auto simp: prefix_def)

lemma won_history: "history d d' \<Longrightarrow> dr_events_read d \<le> length (events (dr_session d)) \<Longrightarrow> won d who sid \<Longrightarrow> won d' who sid"
  unfolding history_def won_def seen_events_def by (auto simp: prefix_take)

lemma link_quiet:
  assumes "link_inv d" "history d d'" "no_new_streams d d'" "slot_map d'" "slot_step d d' (\<lambda>_. [])"
  shows "link_inv d'"
proof -
  let ?n = "dr_events_read d"
  have t: "take ?n (events (dr_session d')) = take ?n (events (dr_session d))" "?n \<le> length (events (dr_session d'))"
    using assms(1,2) by (auto simp: link_inv_def history_def prefix_take dest: prefix_length_le)
  have op: "set (dr_opened d) \<subseteq> set (dr_opened d')" using assms(2) by (simp add: history_def)
  have "slots_fine d' ?n" unfolding slots_fine_def
  proof (intro allI impI)
    fix sid sl'
    assume "map_of (dr_streams d') sid = Some sl'"
    with assms(5) have "(\<exists>sl. map_of (dr_streams d) sid = Some sl \<and> dsl_sent sl' = dsl_sent sl \<and> dsl_from sl' = dsl_from sl
        \<and> (dsl_reply sl' = None \<or> dsl_reply sl' = dsl_reply sl) \<and> dsl_request_id sl' = dsl_request_id sl)
      \<or> dsl_sent sl' = [] \<and> dsl_from sl' = ?n \<and> (\<forall>who. dsl_reply sl' = Some who \<longrightarrow> (who, dsl_request_id sl', sid) \<in> set (dr_opened d'))"
      unfolding slot_step_def by auto
    then show "(\<forall>who. dsl_reply sl' = Some who \<longrightarrow> (who, dsl_request_id sl', sid) \<in> set (dr_opened d')) \<and> dsl_from sl' \<le> ?n
        \<and> dsl_sent sl' = messages_for sid (drop (dsl_from sl') (take ?n (events (dr_session d'))))"
    proof (elim disjE exE conjE)
      fix sl
      assume s: "map_of (dr_streams d) sid = Some sl" "dsl_sent sl' = dsl_sent sl" "dsl_from sl' = dsl_from sl"
        "dsl_request_id sl' = dsl_request_id sl" and "dsl_reply sl' = None"
      then show ?thesis using assms(1) t(1) unfolding link_inv_def slots_fine_def by auto
    next
      fix sl
      assume s: "map_of (dr_streams d) sid = Some sl" "dsl_sent sl' = dsl_sent sl" "dsl_from sl' = dsl_from sl"
        "dsl_request_id sl' = dsl_request_id sl" and "dsl_reply sl' = dsl_reply sl"
      then show ?thesis using assms(1) t(1) op unfolding link_inv_def slots_fine_def by auto
    qed (simp add: messages_for_def)
  qed
  moreover have "dr_events_read d' = ?n" using assms(2) by (simp add: history_def)
  ultimately show ?thesis
    using assms t(2) won_history [OF assms(2)] unfolding link_inv_def no_new_streams_def by auto
qed

lemma link_event:
  assumes inv: "link_inv d" and k: "dr_events_read d < length (events (dr_session d))"
  shows "link_inv (node_on_event cr h c te (d\<lparr>dr_events_read := dr_events_read d + 1\<rparr>) (events (dr_session d) ! dr_events_read d))"
proof -
  let ?k = "dr_events_read d" and ?evs = "events (dr_session d)"
  let ?d = "d\<lparr>dr_events_read := ?k + 1\<rparr>" and ?ev = "?evs ! ?k"
  let ?d' = "node_on_event cr h c te ?d ?ev"
  have map: "slot_map d" and fine: "slots_fine d ?k" using inv by (simp_all add: link_inv_def)
  have hist: "history ?d ?d'" by (rule event_history)
  have map': "slot_map ?d'" using event_account [of ?d cr h c te ?ev] map by simp
  have slots: "slot_step ?d ?d' (\<lambda>sid. msg_for sid ?ev)" using event_slots [of ?d] map by simp
  have t: "take (?k + 1) (events (dr_session ?d')) = take ?k ?evs @ [?ev]"
  proof -
    have "take (?k + 1) (events (dr_session ?d')) = take (?k + 1) ?evs"
      by (rule prefix_take) (use hist k in \<open>simp_all add: history_def\<close>)
    then show ?thesis using k by (simp add: take_Suc_conv_app_nth)
  qed
  have len: "?k + 1 \<le> length (events (dr_session ?d'))"
    using hist k by (auto simp: history_def dest: prefix_length_le)
  have fine': "slots_fine ?d' (?k + 1)" unfolding slots_fine_def
  proof (intro allI impI)
    fix sid sl'
    assume "map_of (dr_streams ?d') sid = Some sl'"
    with slots have "(\<exists>sl. map_of (dr_streams d) sid = Some sl \<and> dsl_sent sl' = dsl_sent sl @ msg_for sid ?ev \<and> dsl_from sl' = dsl_from sl
        \<and> (dsl_reply sl' = None \<or> dsl_reply sl' = dsl_reply sl) \<and> dsl_request_id sl' = dsl_request_id sl)
      \<or> dsl_sent sl' = [] \<and> dsl_from sl' = ?k + 1 \<and> (\<forall>who. dsl_reply sl' = Some who \<longrightarrow> (who, dsl_request_id sl', sid) \<in> set (dr_opened ?d'))"
      unfolding slot_step_def by auto
    then show "(\<forall>who. dsl_reply sl' = Some who \<longrightarrow> (who, dsl_request_id sl', sid) \<in> set (dr_opened ?d')) \<and> dsl_from sl' \<le> ?k + 1
        \<and> dsl_sent sl' = messages_for sid (drop (dsl_from sl') (take (?k + 1) (events (dr_session ?d'))))"
    proof (elim disjE [of "\<exists>sl. P sl" for P] exE conjE)
      fix sl
      assume s: "map_of (dr_streams d) sid = Some sl" "dsl_sent sl' = dsl_sent sl @ msg_for sid ?ev" "dsl_from sl' = dsl_from sl"
        "dsl_request_id sl' = dsl_request_id sl" and r: "dsl_reply sl' = None \<or> dsl_reply sl' = dsl_reply sl"
      have f: "dsl_from sl \<le> ?k" "dsl_sent sl = messages_for sid (drop (dsl_from sl) (take ?k ?evs))"
        "\<forall>who. dsl_reply sl = Some who \<longrightarrow> (who, dsl_request_id sl, sid) \<in> set (dr_opened d)"
        using fine s(1) unfolding slots_fine_def by blast+
      have "drop (dsl_from sl) (take ?k ?evs @ [?ev]) = drop (dsl_from sl) (take ?k ?evs) @ [?ev]" using f(1) k by simp
      then have "dsl_sent sl' = messages_for sid (drop (dsl_from sl') (take (?k + 1) (events (dr_session ?d'))))"
        unfolding t using s f(2) by (simp add: messages_for_def)
      moreover have "set (dr_opened d) \<subseteq> set (dr_opened ?d')" using hist by (simp add: history_def)
      ultimately show ?thesis using s f r by auto
    qed (simp add: t messages_for_def k)
  qed
  have won: "won ?d' who sid" if "(who, Inr sid) \<in> set (dr_answers ?d')" for who sid
    using event_history(2) [OF that]
  proof (elim disjE exE conjE)
    assume "(who, Inr sid) \<in> set (dr_answers ?d)"
    then have "won d who sid" using inv by (simp add: link_inv_def)
    then have "won ?d who sid" using k by (auto simp: won_def seen_events_def take_Suc_conv_app_nth)
    then show ?thesis using won_history [OF hist] k by simp
  next
    fix f sl
    assume f: "?ev = EvOpenResult f" "res_status f = StatusOk" "res_stream_id f = sid" "map_of (dr_streams ?d) sid = Some sl" "dsl_reply sl = Some who"
    then have "(who, dsl_request_id sl, sid) \<in> set (dr_opened d)" using fine unfolding slots_fine_def by simp
    then have "(who, dsl_request_id sl, sid) \<in> set (dr_opened ?d')" using hist by (auto simp: history_def)
    moreover have "EvOpenResult f \<in> set (seen_events ?d')" using hist t f(1) by (simp add: seen_events_def history_def)
    ultimately show ?thesis using f unfolding won_def by blast
  qed
  have "dr_events_read ?d' = ?k + 1" using hist by (simp add: history_def)
  with map' len fine' won show ?thesis by (simp add: link_inv_def)
qed

lemma drop_all_quiet: "no_new_streams d (drop_all d)"
proof -
  have "no_new_streams d (foldl (\<lambda>d (sid, sl). drop_slot d sid sl) d m)" for m and d :: "'a Driver"
  proof (induction m arbitrary: d)
    case (Cons x m)
    obtain sid sl where x: "x = (sid, sl)" by fastforce
    have "no_new_streams d (drop_slot d sid sl)"
      by (cases "dsl_reply sl") (auto simp: no_new_streams_def drop_slot_def answer_call_def)
    with Cons.IH [of "drop_slot d sid sl"] show ?case by (auto simp: x no_new_streams_def)
  qed (simp add: no_new_streams_def)
  from this [of "d\<lparr>dr_streams := []\<rparr>" "dr_streams d"] show ?thesis by (simp add: drop_all_def no_new_streams_def)
qed

lemma link_end:
  fixes d d' :: "'net Driver"
  assumes "link_inv d" "dr_events_read d' = dr_events_read d" "dr_opened d' = dr_opened d" "dr_answers d' = dr_answers d"
    "session_grows (dr_session d) (dr_session d')"
  shows "link_inv (driver_end d')"
proof (rule link_quiet [OF assms(1)])
  let ?e = "d'\<lparr>dr_session := set_state (dr_session d') StClosed, dr_closed := True\<rparr>"
  have "prefix (events (dr_session d')) (events (set_state (dr_session d') StClosed))"
    using session_calls_grow(5) by (simp add: session_grows_def)
  then show "history d (driver_end d')"
    using assms(2,3,5) by (auto simp: driver_end_def history_def session_grows_def intro: prefix_order.trans)
  show "no_new_streams d (driver_end d')"
    using drop_all_quiet [of ?e] assms(4) by (simp add: driver_end_def no_new_streams_def)
  show "slot_map (driver_end d')" "slot_step d (driver_end d') (\<lambda>_. [])"
    using drop_all_account [of ?e] by (simp_all add: driver_end_def slot_step_def hm_inv_def)
qed

lemma link_frame:
  fixes d d' :: "'net Driver"
  assumes "link_inv d" "dr_events_read d' = dr_events_read d" "dr_opened d' = dr_opened d" "dr_answers d' = dr_answers d"
    "dr_streams d' = dr_streams d" "session_grows (dr_session d) (dr_session d')"
  shows "link_inv d'"
  by (rule link_quiet [OF assms(1)])
    (use assms in \<open>auto simp: history_def no_new_streams_def slot_step_def session_grows_def link_inv_def\<close>)

lemma link_wake:
  assumes "link_inv d"
  shows "link_inv (driver_wake_step cr h c te d w)"
proof (cases w)
  case (WakeOpen dst proto hops rid n)
  have "slot_map d" using assms by (simp add: link_inv_def)
  then show ?thesis unfolding WakeOpen driver_wake_step_def driver_wake.case
    using begin_history [of d cr h te dst proto hops rid "FromApp n"] begin_slots [of d cr h te dst proto hops rid "FromApp n"]
      begin_open_account [of d cr h te dst proto hops rid "FromApp n"]
    by (intro link_quiet [OF assms]) simp_all
next
  case WakeEvent
  then show ?thesis using link_event [OF assms] assms by (simp add: driver_wake_step_def)
next
  case (WakeInbound x)
  show ?thesis unfolding WakeInbound using link_end [OF assms, of d] link_frame [OF assms] session_calls_grow(6)
    by (cases x) (simp_all add: driver_wake_step_def session_grows_def)
next
  case WakeClose
  show ?thesis unfolding WakeClose driver_wake_step_def driver_wake.case
    by (rule link_end [OF assms]) (simp_all add: session_calls_grow(4))
qed (use link_end [OF assms, of d] link_frame [OF assms] assms in \<open>simp_all add: driver_wake_step_def session_grows_def\<close>)

lemma link_gone: "link_inv d \<Longrightarrow> link_inv (mark_gone d sid)"
proof (rule link_quiet)
  assume "link_inv d"
  then have "slot_map d" by (simp add: link_inv_def)
  then show "slot_map (mark_gone d sid)" "slot_step d (mark_gone d sid) (\<lambda>_. [])"
    by (auto simp: mark_gone_def slot_step_def hm.inv_insert hm.get_insert split: option.splits)
qed (auto simp: mark_gone_def history_def no_new_streams_def split: option.splits)

lemma link_step: "link_inv d \<Longrightarrow> link_inv (driver_step cr h c d op)"
proof (cases op)
  case (DropStream sid)
  assume d: "link_inv d"
  show ?thesis unfolding DropStream driver_step_def driver_op.case
    by (rule link_gone, rule link_frame [OF d]) (simp_all add: session_calls_grow)
next
  case (HandleCall k)
  assume d: "link_inv d"
  show ?thesis using grows_step link_frame [OF d] d by (simp add: HandleCall driver_step_def)
next
  case (GiveUp who)
  assume d: "link_inv d"
  show ?thesis unfolding GiveUp driver_step_def driver_op.case
    by (rule link_frame [OF d]) (simp_all add: session_grows_def)
qed (simp_all add: driver_step_def link_wake link_gone)

lemma link_run: "link_inv d \<Longrightarrow> link_inv (driver_run cr h c d ops)"
  unfolding driver_run_def by (induction ops arbitrary: d) (simp_all add: link_step)

lemma link_new: "link_inv (driver_new s up services policy)"
  by (simp add: link_inv_def driver_new_def hm_inv_def slots_fine_def)

section \<open>Properties\<close>

text \<open>Every open is answered exactly once. At any point of any run of a driver the calls begun are those answered
  together with those a stream slot still owes an answer, each as often as it was made; once the driver has ended all
  of them are answered. A call is given a stream only for an \<open>Open\<close> the driver sent for it under that stream id and after
  an \<open>OpenResult\<close> with status ok arrived for it.\<close>

theorem every_open_is_answered_once:
  fixes cr h c s up services and ops :: "driver_op list" and policy :: "'net InboundPolicy"
  defines "d \<equiv> driver_run cr h c (driver_new s up services policy) ops"
  shows "mset (map fst (dr_answers d)) + owed (dr_streams d) = mset (dr_calls d)
    \<and> (dr_closed d \<longrightarrow> mset (map fst (dr_answers d)) = mset (dr_calls d))
    \<and> (\<forall>who sid. (who, Inr sid) \<in> set (dr_answers d) \<longrightarrow>
         (\<exists>rid. (who, rid, sid) \<in> set (dr_opened d))
         \<and> (\<exists>f. EvOpenResult f \<in> set (seen_events d) \<and> res_stream_id f = sid \<and> res_status f = StatusOk))"
proof -
  have a: "account_inv d" unfolding d_def by (intro run_account account_new)
  have "link_inv d" unfolding d_def by (intro link_run link_new)
  then have "\<forall>who sid. (who, Inr sid) \<in> set (dr_answers d) \<longrightarrow> won d who sid" by (simp add: link_inv_def)
  with a show ?thesis by (auto simp: account_inv_def accounted_def won_def)
qed

text \<open>A request id opens at most one stream, however often it is presented, and while the stream ids last no two opens of
  a driver share a stream.\<close>

theorem a_request_opens_one_stream:
  fixes cr h c s up services and ops :: "driver_op list" and policy :: "'net InboundPolicy"
  assumes "next_stream_id s + 2 * length ops < 2 ^ 64"
  shows "distinct (map (fst \<circ> snd) (dr_opened (driver_run cr h c (driver_new s up services policy) ops)))
    \<and> distinct (map (snd \<circ> snd) (dr_opened (driver_run cr h c (driver_new s up services policy) ops)))"
proof
  have "op_link (driver_run cr h c (driver_new s up services policy) ops)" by (intro op_link_run op_link_new)
  then show "distinct (map (fst \<circ> snd) (dr_opened (driver_run cr h c (driver_new s up services policy) ops)))"
    by (simp add: op_link_def)
  have "ids_inv (driver_run cr h c (driver_new s up services policy) ops)"
    by (rule ids_run) (use assms in \<open>simp_all add: ids_inv_def driver_new_def\<close>)
  then show "distinct (map (snd \<circ> snd) (dr_opened (driver_run cr h c (driver_new s up services policy) ops)))"
    by (simp add: ids_inv_def)
qed

text \<open>A stream is sent exactly the messages of the session's events for it, in their order, from the point at which the
  driver began to track it.\<close>

theorem streams_get_their_events:
  fixes cr h c s up services and ops :: "driver_op list" and policy :: "'net InboundPolicy"
  defines "d \<equiv> driver_run cr h c (driver_new s up services policy) ops"
  assumes "map_of (dr_streams d) sid = Some sl"
  shows "dsl_sent sl = messages_for sid (drop (dsl_from sl) (seen_events d))"
proof -
  have "link_inv d" unfolding d_def by (intro link_run link_new)
  with assms(2) show ?thesis by (simp add: link_inv_def slots_fine_def seen_events_def)
qed

end
