(* ===== verification/Spec2Isabelle.thy ===== *)
theory Spec2Isabelle
  imports Budgets Kind Packet_No Replay Reorder Operation Nonce Canon Framing Crypto
    Acl Router Registry Codec Handshake Bind Session_Peer Socks_Udp Transport Config Node_Hub
begin

text \<open>
  A verification development for wsnet, a Rust proxy that carries SOCKS5, UDP and port-forward traffic between
  nodes and a Hub over WebSocket, HTTP POST and server-sent event carriers.

  \<^bold>\<open>The program.\<close> A node authenticates to a Hub with a pre-shared key (\<open>Auth\<close>, \<open>AuthOk\<close>), binds carriers to the
  session with single-use proofs, and registers its services (\<open>Hello\<close>). From then on both ends exchange records, each
  sealed in an envelope under a key and packet number of its direction; a carrier may lose, repeat and reorder
  envelopes. Streams with byte credit run inside the session. An \<open>Open\<close> of a node asks the Hub for a stream to an
  address, to a service of another node or through a chain of nodes; the Hub authorises it and then dials itself or
  bridges the stream to another session. The applications of a node come in through a SOCKS5 listener.

  \<^bold>\<open>Where it is modelled.\<close> Paths are below \<open>src/crates\<close>; every theory opens with what it holds.

  \<^item> Foundations. \<open>Prelude\<close>: results, saturating and wrapping arithmetic, hash maps and ordered maps as association
    lists behind map locales, the at-most-once locales \<open>once_if\<close> and \<open>once_only\<close>, self-delimiting codecs. \<open>Text\<close>,
    \<open>Net\<close>: the parts of the Rust standard library the code uses on strings and addresses. \<open>Budgets\<close>
    (\<open>wsnet-limits\<close>) and \<open>Kind\<close> (\<open>wsnet-protocol/kind.rs\<close>): the constants and message kinds.
  \<^item> Wire. \<open>Canon\<close> and \<open>Framing\<close> (\<open>wsnet-protocol\<close>): canonical metadata and records, with round trips. \<open>Message\<close>,
    \<open>Codec\<close> (\<open>wsnet-session/message.rs\<close>): the metadata of every message kind. \<open>Crypto\<close>, \<open>Packet_No\<close>
    (\<open>wsnet-crypto\<close>): signing inputs, keys, envelopes and the lock-free packet number allocator.
    \<open>Transport\<close> (\<open>wsnet-transport\<close>): the seven carriers; the streaming decoder is equal to decoding the whole.
  \<^item> Admission. \<open>Replay\<close> and \<open>Nonce\<close> (\<open>wsnet-auth-store\<close>), \<open>Operation\<close> (\<open>wsnet-operation\<close>), \<open>Bind\<close>
    (\<open>wsnet-session/bind.rs\<close> and \<open>verify_binding\<close> of the Hub), \<open>Handshake\<close> (\<open>wsnet-session/handshake.rs\<close>),
    \<open>Guard\<close> (\<open>wsnet-hub/guard.rs\<close>). Each registry is an interpretation of the at-most-once locales; the replay
    bitmap refines a set filter; the token bucket keeps its rate in every window.
  \<^item> Policy. \<open>Destination\<close>, \<open>Acl\<close>, \<open>Router\<close> (\<open>wsnet-routing\<close>), \<open>Registry\<close> (\<open>wsnet-registry\<close>), \<open>Egress\<close>
    (\<open>wsnet-hub/egress.rs\<close>): each decision procedure is characterised against a declarative reading.
  \<^item> Session. \<open>Reorder\<close> (\<open>wsnet-stream\<close>) and \<open>Engine\<close> (\<open>wsnet-session/engine.rs\<close>): the whole engine as functions on
    a record, every call of its handle included. \<open>Session_Run\<close>: what every call keeps, by the locales \<open>session_keep\<close>
    and \<open>session_frame\<close>; well-formedness and nonce uniqueness over all runs. \<open>Session_Peer\<close>: two engines that agree;
    what one sends the other dispatches once.
  \<^item> Hub. \<open>Hub_Session\<close> (\<open>session.rs\<close>), \<open>Hub_Core\<close> and \<open>Hub\<close> (\<open>hub.rs\<close>), \<open>Dataplane\<close> (\<open>dataplane.rs\<close>), \<open>Relay\<close>
    (\<open>relay.rs\<close>): authentication, authorisation, every event handler, the exit tasks and the bridge. Sessions live in
    a heap of entries, because the code shares them; the tasks are turns of their select loops, interleaved with
    arbitrary steps of other tasks.
  \<^item> Node. \<open>Node_Select\<close> (\<open>select.rs\<close>, \<open>health.rs\<close>), \<open>Node_Stream\<close> (\<open>stream.rs\<close>), \<open>Node_Inbound\<close> (\<open>inbound.rs\<close>),
    \<open>Node_Hub\<close> (\<open>hub.rs\<close>, \<open>carrier.rs\<close>, \<open>endpoint.rs\<close>): the choice of a Hub, the poll functions of a stream, inbound
    opens and the driver of a session, with that every open is answered once and a request opens one stream.
  \<^item> Entries and configuration. \<open>Socks_Config\<close>, \<open>Socks_Wire\<close>, \<open>Socks_Server\<close>, \<open>Socks_Udp\<close> (\<open>wsnet-socks\<close>) and \<open>Config\<close>
    (\<open>wsnet-config\<close>): the documents of Hub and node with every check.

  \<^bold>\<open>How.\<close> A struct is a record, an enum a datatype, a \<open>HashMap\<close> an association list with distinct keys, a \<open>BTreeMap\<close> a
  sorted one, a \<open>Mutex\<close> explicit state and a channel the list of what was sent with a cursor. Bytes are \<open>8 word\<close>; the
  other integers are \<open>nat\<close> or \<open>int\<close> with saturation, checks and wrap-around written out where the code has them. A
  fallible function returns a sum. Loops are structural or have a termination proof; the one bounded loop,
  \<open>pump_session\<close>, has the bound \<open>MAX_PUMP_ROUNDS\<close> of the code, and there is no other fuel. Cryptographic functions, base64, hex,
  IP nets, the TOML reader, clocks, random values, the resolver and sockets are parameters or inputs, with the laws a
  theorem needs as hypotheses; every such law has an instance.

  \<^bold>\<open>What a reader should know.\<close>

  \<^item> The at-most-once theorems of \<open>Nonce\<close>, \<open>Hub_Core\<close> and \<open>Bind\<close> hold under a steady clock, which their statements
    (for \<open>Bind\<close> the step \<open>bind_step\<close>) spell out: retention runs on the monotonic clock and acceptance on the wall clock, so a wall clock that lags or is
    set back readmits (\<open>nonce_lagging_wall_clock_readmits\<close>, \<open>bind_nonce_readmitted_after_wall_step_back\<close>), and a restart
    inside the hold of a storage loss reopens the store early.
  \<^item> \<open>deliver\<close> (the sending loop of exit tasks and bridges) is one atomic step, although its calls lock the session one
    by one. Steps of other tasks keep the stream (\<open>keeps_stream\<close>): a peer that resets a stream and reopens the same id
    while the task still runs is not among them.
  \<^item> \<open>verify_binding\<close> is modelled in \<open>Bind\<close> on a record with a fixed session table, apart from the Hub of \<open>Hub_Core\<close>.
  \<^item> The bridge ignores the final offset of a \<open>Fin\<close>, as the code does: \<open>early_fin_cuts_stream\<close> shows what follows when
    a \<open>Fin\<close> overtakes its data, and the theorem on the bridge states when nothing is cut.
  \<^item> The special address ranges of \<open>Egress\<close> leave out the addresses on which the code and its comments part
    (\<open>disputed_address\<close>), and the theorem on authorisation the chained opens for which the Hub checks no lease
    (\<open>chained_open_ignores_leases\<close>).
  \<^item> Floating point occurs in \<open>Guard\<close> only: a value is the rational it denotes and each operation is followed by a
    rounding of which the IEEE bounds are used.

  \<^bold>\<open>Not modelled.\<close> The HTTP server of the Hub, the WebSocket and HTTP clients of a node and the node's reconnect loop
  (socket and task orchestration around modelled calls), \<open>wsnet-forward\<close>, the local control socket, the decoy site, the
  binaries and the crate roots.
\<close>

end
